(* ===== verification/Prelude.thy ===== *)
theory Prelude
  imports Main "HOL-Library.Word"
begin

text \<open>
  Shared vocabulary of the development: machine integers of the widths the C code uses, byte
  buffers as lists, the memory operations the code performs on them (\<open>memcpy\<close> out of and into
  a buffer, \<open>memset\<close>, byte-wise exclusive or), the branch-free comparison loop that nearly every
  component has a copy of, and the big- and little-endian codecs. The simplification rules about
  lengths are collected in \<open>len_simps\<close>, the ones about slices of buffers in \<open>buf_simps\<close>.
\<close>

unbundle bit_operations_syntax

named_theorems len_simps \<open>lengths of buffers built by the model\<close>
named_theorems buf_simps \<open>reading back what was written to a buffer\<close>

type_synonym byte = "8 word"
type_synonym u16 = "16 word"
type_synonym u32 = "32 word"
type_synonym u64 = "64 word"
type_synonym bytes = "byte list"

text \<open>A pointer argument that the code compares with \<open>NULL\<close>: \<open>None\<close> is the null pointer,
  \<open>Some x\<close> a pointer to \<open>x\<close>.\<close>

type_synonym 'a ptr = "'a option"

abbreviation NULL :: "'a ptr" where "NULL \<equiv> None"

text \<open>The conversion of a value to \<open>int\<close>, 32 bits and signed; the bytes of a string literal.\<close>

definition c_int :: "int \<Rightarrow> int" where
  "c_int x = signed_take_bit 31 x"

lemma c_int_id [simp]: "- (2 ^ 31) \<le> x \<Longrightarrow> x < 2 ^ 31 \<Longrightarrow> c_int x = x"
  by (simp add: c_int_def signed_take_bit_int_eq_self_iff)

definition cstr :: "string \<Rightarrow> bytes" where
  "cstr s = map of_char s"

lemma length_cstr [simp]: "length (cstr s) = length s"
  by (simp add: cstr_def)

text \<open>The characters of a C string, without its terminator.\<close>

definition c_string :: "bytes \<Rightarrow> bytes" where
  "c_string bs = takeWhile (\<lambda>b. b \<noteq> 0) bs"

section \<open>Buffers\<close>

definition slice :: "nat \<Rightarrow> nat \<Rightarrow> 'a list \<Rightarrow> 'a list" where
  "slice off n xs = take n (drop off xs)"

definition store_at :: "nat \<Rightarrow> 'a list \<Rightarrow> 'a list \<Rightarrow> 'a list" where
  "store_at off bs buf = take off buf @ bs @ drop (off + length bs) buf"

definition zeros :: "nat \<Rightarrow> bytes" where
  "zeros n = replicate n 0"

lemma length_slice [simp, len_simps]: "length (slice off n xs) = min n (length xs - off)"
  by (simp add: slice_def min_def)

lemma length_store_at [len_simps]:
  "off + length bs \<le> length buf \<Longrightarrow> length (store_at off bs buf) = length buf"
  by (simp add: store_at_def)

lemma length_zeros [simp, len_simps]: "length (zeros n) = n"
  by (simp add: zeros_def)

lemma slice_all [simp]: "n = length xs \<Longrightarrow> slice 0 n xs = xs"
  by (simp add: slice_def)

lemma slice_0_length [simp]: "slice 0 (length xs) xs = xs"
  by simp

lemma slice_append_left [buf_simps]:
  "off + n \<le> length xs \<Longrightarrow> slice off n (xs @ ys) = slice off n xs"
  by (simp add: slice_def)

lemma slice_append_right [buf_simps]:
  "length xs \<le> off \<Longrightarrow> slice off n (xs @ ys) = slice (off - length xs) n ys"
  by (simp add: slice_def)

lemma slice_store_same [buf_simps]:
  "off \<le> length buf \<Longrightarrow> n = length bs \<Longrightarrow> slice off n (store_at off bs buf) = bs"
  by (simp add: slice_def store_at_def)

lemma slice_store_before [buf_simps]:
  "off' + n \<le> off \<Longrightarrow> off \<le> length buf \<Longrightarrow> slice off' n (store_at off bs buf) = slice off' n buf"
  by (simp add: slice_def store_at_def drop_take min_absorb1)

lemma slice_store_after [buf_simps]:
  assumes "off + length bs \<le> off'" "off \<le> length buf"
  shows "slice off' n (store_at off bs buf) = slice off' n buf"
proof -
  have "drop off' (store_at off bs buf) = drop off' buf"
    using assms by (simp add: store_at_def drop_append)
  then show ?thesis by (simp add: slice_def)
qed

lemma slice_slice [buf_simps]:
  "b + n \<le> m \<Longrightarrow> slice b n (slice a m xs) = slice (a + b) n xs"
  by (simp add: slice_def drop_take add.commute min_absorb1)

lemma nth_slice:
  "i < n \<Longrightarrow> off + n \<le> length xs \<Longrightarrow> slice off n xs ! i = xs ! (off + i)"
  by (simp add: slice_def)

lemma nth_store_at:
  "off + length bs \<le> length buf \<Longrightarrow> i < length buf \<Longrightarrow>
   store_at off bs buf ! i = (if off \<le> i \<and> i < off + length bs then bs ! (i - off) else buf ! i)"
  by (auto simp: store_at_def nth_append min_def)

lemma store_at_append:
  "n = length a \<Longrightarrow> store_at n b (a @ r) = a @ b @ drop (length b) r"
  by (simp add: store_at_def)

lemma zeros_add: "zeros (m + n) = zeros m @ zeros n"
  by (simp add: zeros_def replicate_add)

section \<open>Exclusive or of buffers, and the comparison without early exit\<close>

definition xor_bytes :: "'a::len word list \<Rightarrow> 'a word list \<Rightarrow> 'a word list" where
  "xor_bytes a b = map2 (XOR) a b"

lemma length_xor_bytes [simp, len_simps]:
  "length (xor_bytes a b) = min (length a) (length b)"
  by (simp add: xor_bytes_def)

lemma nth_xor_bytes:
  "i < length a \<Longrightarrow> i < length b \<Longrightarrow> xor_bytes a b ! i = a ! i XOR b ! i"
  by (simp add: xor_bytes_def)

lemma xor_bytes_commute: "xor_bytes a b = xor_bytes b a"
  by (rule nth_equalityI) (simp_all add: nth_xor_bytes xor.commute)

lemma xor_bytes_cancel_right [simp]:
  "length a \<le> length b \<Longrightarrow> xor_bytes (xor_bytes a b) b = a"
  by (rule nth_equalityI) (simp_all add: nth_xor_bytes xor.assoc)

lemma xor_bytes_cancel_left [simp]:
  "length a \<le> length b \<Longrightarrow> xor_bytes b (xor_bytes b a) = a"
  by (rule nth_equalityI)
     (simp_all add: nth_xor_bytes xor.assoc [symmetric])

lemma xor_bytes_Nil [simp]: "xor_bytes [] b = []" "xor_bytes a [] = []"
  by (simp_all add: xor_bytes_def)

lemma xor_bytes_Cons [simp]: "xor_bytes (x # xs) (y # ys) = (x XOR y) # xor_bytes xs ys"
  by (simp add: xor_bytes_def)

lemma xor_bytes_append:
  "length a = length c \<Longrightarrow> xor_bytes (a @ b) (c @ d) = xor_bytes a c @ xor_bytes b d"
  by (simp add: xor_bytes_def)

lemma take_xor_bytes: "take n (xor_bytes a b) = xor_bytes (take n a) (take n b)"
  by (simp add: xor_bytes_def take_map take_zip)

lemma drop_xor_bytes: "drop n (xor_bytes a b) = xor_bytes (drop n a) (drop n b)"
  by (simp add: xor_bytes_def drop_map drop_zip)

text \<open>\<open>d |= a[i] ^ b[i]\<close> over the whole length, started at 0.\<close>

fun or_diff :: "byte \<Rightarrow> bytes \<Rightarrow> bytes \<Rightarrow> byte" where
  "or_diff d (x # xs) (y # ys) = or_diff (d OR (x XOR y)) xs ys"
| "or_diff d _ _ = d"

lemma word_or_zero_iff: "(a :: 'a::len word) OR b = 0 \<longleftrightarrow> a = 0 \<and> b = 0"
  by (auto simp: bit_eq_iff bit_simps)

lemma word_xor_zero_iff: "(a :: 'a::len word) XOR b = 0 \<longleftrightarrow> a = b"
  by (auto simp: bit_eq_iff bit_simps)

lemma or_diff_zero_iff:
  "length a = length b \<Longrightarrow> or_diff d a b = 0 \<longleftrightarrow> d = 0 \<and> a = b"
  by (induction a b arbitrary: d rule: list_induct2)
     (auto simp: word_or_zero_iff word_xor_zero_iff)

lemma fold_or_diff:
  "length a = n \<Longrightarrow> length b = n \<Longrightarrow>
   fold (\<lambda>i d. d OR (a ! i XOR b ! i)) [0..<n] d = 0 \<longleftrightarrow> d = 0 \<and> a = (b :: bytes)"
proof -
  have *: "fold (\<lambda>i d. d OR (a ! i XOR b ! i)) [0..<n] d = 0 \<longleftrightarrow> d = 0 \<and> (\<forall>i<n. a ! i = b ! i)"
    by (induction n) (auto simp: word_or_zero_iff word_xor_zero_iff less_Suc_eq)
  assume "length a = n" "length b = n"
  then show ?thesis unfolding * by (auto intro: nth_equalityI)
qed

text \<open>Two words are equal when they agree on the listed bit positions: over a numeral length the
  simplifier turns the list into one goal per bit.\<close>

lemma word_eq_bits:
  fixes x y :: "'a::len word"
  shows "list_all (\<lambda>i. bit x i = bit y i) [0..<LENGTH('a)] \<Longrightarrow> x = y"
  by (rule bit_word_eqI) (simp add: list_all_iff)

lemma upt_0_8: "[0..<8] = [0, 1, 2, 3, 4, 5, 6, 7]"
  by code_simp

lemma upt_0_16: "[0..<16] = [0, 1, 2, 3, 4, 5, 6, 7, 8, 9, 10, 11, 12, 13, 14, 15]"
  by code_simp

lemma upt_0_32: "[0..<32] = [0, 1, 2, 3, 4, 5, 6, 7, 8, 9, 10, 11, 12, 13, 14, 15, 16, 17, 18, 19,
    20, 21, 22, 23, 24, 25, 26, 27, 28, 29, 30, 31]"
  by code_simp

lemma upt_0_64: "[0..<64] = [0, 1, 2, 3, 4, 5, 6, 7, 8, 9, 10, 11, 12, 13, 14, 15, 16, 17, 18, 19,
    20, 21, 22, 23, 24, 25, 26, 27, 28, 29, 30, 31, 32, 33, 34, 35, 36, 37, 38, 39, 40, 41, 42, 43,
    44, 45, 46, 47, 48, 49, 50, 51, 52, 53, 54, 55, 56, 57, 58, 59, 60, 61, 62, 63]"
  by code_simp

lemmas upt_eval = upt_0_8 upt_0_16 upt_0_32 upt_0_64

lemma bit_byte_ge: "8 \<le> n \<Longrightarrow> \<not> bit (b :: byte) n"
  using bit_imp_le_length [of b n] by auto

lemma list_4_nth: "length xs = 4 \<Longrightarrow> xs = [xs ! 0, xs ! 1, xs ! 2, xs ! 3]"
  by (rule nth_equalityI) (auto simp: numeral_eq_Suc less_Suc_eq)

lemma unat_of_small: "n < 2 ^ 63 \<Longrightarrow> unat (of_nat n :: u64) = n"
  by (simp add: unat_of_nat take_bit_nat_eq_self)

lemma word_of_unat: "unat w = n \<Longrightarrow> w = of_nat n"
  by auto

lemma ucast_of_nat_u32: "(ucast (of_nat n :: u64) :: u32) = of_nat n"
  by (rule bit_word_eqI) (simp add: bit_simps bit_of_nat_iff_bit)

text \<open>A loop that updates the elements of an array one after the other.\<close>

lemma fold_update_map:
  "n \<le> length p \<Longrightarrow> fold (\<lambda>i p. p[i := f i (p ! i)]) [0..<n] p = map (\<lambda>i. f i (p ! i)) [0..<n] @ drop n p"
proof (induction n)
  case (Suc n)
  then have "drop n p = p ! n # drop (Suc n) p" by (simp add: Cons_nth_drop_Suc)
  then show ?case using Suc by (simp add: nth_append list_update_append)
qed simp

section \<open>Little- and big-endian codecs\<close>

text \<open>
  Byte \<open>i\<close> of the little-endian encoding is \<open>(unsigned char) (x >> (8 * i))\<close>. The readers are
  the two idioms of the code: \<open>p[0] | p[1] << 8 | ...\<close> and the loop \<open>v = (v << 8) | p[i]\<close>.
\<close>

definition le_bytes :: "nat \<Rightarrow> 'a::len word \<Rightarrow> bytes" where
  "le_bytes n w = map (\<lambda>i. ucast (drop_bit (8 * i) w)) [0..<n]"

definition be_bytes :: "nat \<Rightarrow> 'a::len word \<Rightarrow> bytes" where
  "be_bytes n w = rev (le_bytes n w)"

primrec le_word :: "bytes \<Rightarrow> 'a::len word" where
  "le_word [] = 0"
| "le_word (b # bs) = ucast b OR push_bit 8 (le_word bs)"

definition be_word :: "bytes \<Rightarrow> 'a::len word" where
  "be_word bs = foldl (\<lambda>v b. push_bit 8 v OR ucast b) 0 bs"

lemma length_le_bytes [simp, len_simps]: "length (le_bytes n w) = n"
  by (simp add: le_bytes_def)

lemma length_be_bytes [simp, len_simps]: "length (be_bytes n w) = n"
  by (simp add: be_bytes_def)

lemma nth_le_bytes: "i < n \<Longrightarrow> le_bytes n w ! i = ucast (drop_bit (8 * i) w)"
  by (simp add: le_bytes_def)

lemma bit_le_word:
  "bit (le_word bs :: 'a::len word) i \<longleftrightarrow>
   i < LENGTH('a) \<and> i div 8 < length bs \<and> bit (bs ! (i div 8)) (i mod 8)"
proof (induction bs arbitrary: i)
  case Nil
  then show ?case by simp
next
  case (Cons b bs)
  show ?case
  proof (cases "i < 8")
    case True
    then show ?thesis by (simp add: bit_simps not_le)
  next
    case False
    then have "i div 8 = Suc ((i - 8) div 8)" "i mod 8 = (i - 8) mod 8"
      by (simp_all add: div_nat_eqI le_div_geq le_mod_geq)
    with False Cons [of "i - 8"] show ?thesis
      by (auto simp: bit_simps not_le dest: bit_imp_le_length)
  qed
qed

lemma le_word_le_bytes: "LENGTH('a) \<le> 8 * n \<Longrightarrow> le_word (le_bytes n w) = (w :: 'a::len word)"
proof (rule bit_word_eqI)
  fix i assume n: "LENGTH('a) \<le> 8 * n" and i: "i < LENGTH('a)"
  then have "i div 8 < n" by simp
  moreover have "8 * (i div 8) + i mod 8 = i" by simp
  ultimately show "bit (le_word (le_bytes n w) :: 'a word) i = bit w i"
    using i by (simp add: bit_le_word nth_le_bytes bit_simps)
qed

lemma le_bytes_le_word:
  assumes "8 * length bs \<le> LENGTH('a::len)" "n = length bs"
  shows "le_bytes n (le_word bs :: 'a word) = bs"
proof (rule nth_equalityI)
  show "length (le_bytes n (le_word bs :: 'a word)) = length bs" by (simp add: assms)
  fix i assume "i < length (le_bytes n (le_word bs :: 'a word))"
  then have i: "i < length bs" by (simp add: assms)
  show "le_bytes n (le_word bs :: 'a word) ! i = bs ! i"
  proof (rule bit_word_eqI)
    fix j assume "j < LENGTH(8)"
    then have "j < 8" by simp
    with i assms(1) have "8 * i + j < LENGTH('a)" by simp
    with i \<open>j < 8\<close> show "bit (le_bytes n (le_word bs :: 'a word) ! i) j = bit (bs ! i) j"
      by (simp add: nth_le_bytes assms bit_simps bit_le_word)
  qed
qed

lemma be_word_rev: "be_word bs = le_word (rev bs)"
proof (induction bs rule: rev_induct)
  case Nil
  then show ?case by (simp add: be_word_def)
next
  case (snoc b bs)
  then show ?case by (simp add: be_word_def or.commute)
qed

lemma be_word_be_bytes [buf_simps]:
  "LENGTH('a) \<le> 8 * n \<Longrightarrow> be_word (be_bytes n w) = (w :: 'a::len word)"
  by (simp add: be_word_rev be_bytes_def le_word_le_bytes)

lemma be_bytes_be_word:
  "8 * length bs \<le> LENGTH('a::len) \<Longrightarrow> n = length bs \<Longrightarrow>
   be_bytes n (be_word bs :: 'a word) = bs"
  by (simp add: be_word_rev be_bytes_def le_bytes_le_word)

lemma be_bytes_inject:
  "LENGTH('a) \<le> 8 * n \<Longrightarrow> be_bytes n v = be_bytes n w \<longleftrightarrow> v = (w :: 'a::len word)"
  by (metis be_word_be_bytes)

end
