(* ===== verification/Sha256.thy ===== *)
theory Sha256
  imports Prelude
begin

text \<open>
  The SHA-256 of \<open>src/src/Crypto/Sha2.c\<close> (lines 328-338, 645-722 and 782-896), with the portable
  compression function \<open>StdSha256Transform\<close> (the one a build without assembler selects). The
  context is a record, the 64-byte buffer \<open>wbuf\<close> a byte list, and every integer a 32-bit word.
  Loads of 32-bit words are little-endian, as on every platform the code is built for.

  The second half states the hash of FIPS 180-4 independently (padding, message schedule, rounds)
  and shows that the streaming code computes it: an invariant \<open>sha256_reps\<close> says which message
  a context stands for, every call of \<open>sha256_hash\<close> extends the message, and \<open>sha256_end\<close>
  returns its digest as long as the message is shorter than 2^29 bytes.
\<close>

section \<open>The code\<close>

definition SHA256_K :: "u32 list" where
  "SHA256_K = concat [
    [0x428a2f98, 0x71374491, 0xb5c0fbcf, 0xe9b5dba5, 0x3956c25b, 0x59f111f1, 0x923f82a4, 0xab1c5ed5],
    [0xd807aa98, 0x12835b01, 0x243185be, 0x550c7dc3, 0x72be5d74, 0x80deb1fe, 0x9bdc06a7, 0xc19bf174],
    [0xe49b69c1, 0xefbe4786, 0x0fc19dc6, 0x240ca1cc, 0x2de92c6f, 0x4a7484aa, 0x5cb0a9dc, 0x76f988da],
    [0x983e5152, 0xa831c66d, 0xb00327c8, 0xbf597fc7, 0xc6e00bf3, 0xd5a79147, 0x06ca6351, 0x14292967],
    [0x27b70a85, 0x2e1b2138, 0x4d2c6dfc, 0x53380d13, 0x650a7354, 0x766a0abb, 0x81c2c92e, 0x92722c85],
    [0xa2bfe8a1, 0xa81a664b, 0xc24b8b70, 0xc76c51a3, 0xd192e819, 0xd6990624, 0xf40e3585, 0x106aa070],
    [0x19a4c116, 0x1e376c08, 0x2748774c, 0x34b0bcb5, 0x391c0cb3, 0x4ed8aa4a, 0x5b9cca4f, 0x682e6ff3],
    [0x748f82ee, 0x78a5636f, 0x84c87814, 0x8cc70208, 0x90befffa, 0xa4506ceb, 0xbef9a3f7, 0xc67178f2]]"

record sha256_ctx =
  count0 :: u32
  count1 :: u32
  hash_state :: "u32 list"
  wbuf :: bytes

definition rotr32 :: "u32 \<Rightarrow> nat \<Rightarrow> u32" where
  "rotr32 x n = drop_bit n x OR push_bit (32 - n) x"

definition rotl32 :: "u32 \<Rightarrow> nat \<Rightarrow> u32" where
  "rotl32 x n = push_bit n x OR drop_bit (32 - n) x"

definition bswap_32 :: "u32 \<Rightarrow> u32" where
  "bswap_32 x = rotl32 (drop_bit 8 (x AND 0xFF00FF00) OR push_bit 8 (x AND 0x00FF00FF)) 16"

definition Ch :: "u32 \<Rightarrow> u32 \<Rightarrow> u32 \<Rightarrow> u32" where
  "Ch x y z = z XOR (x AND (y XOR z))"

definition Maj :: "u32 \<Rightarrow> u32 \<Rightarrow> u32 \<Rightarrow> u32" where
  "Maj x y z = (x AND y) OR (z AND (x XOR y))"

definition sum0 :: "u32 \<Rightarrow> u32" where
  "sum0 x = rotr32 x 2 XOR rotr32 x 13 XOR rotr32 x 22"

definition sum1 :: "u32 \<Rightarrow> u32" where
  "sum1 x = rotr32 x 6 XOR rotr32 x 11 XOR rotr32 x 25"

definition sigma0 :: "u32 \<Rightarrow> u32" where
  "sigma0 x = rotr32 x 7 XOR rotr32 x 18 XOR drop_bit 3 x"

definition sigma1 :: "u32 \<Rightarrow> u32" where
  "sigma1 x = rotr32 x 17 XOR rotr32 x 19 XOR drop_bit 10 x"

text \<open>\<open>WU(j)\<close> updates one word of the circular schedule in place.\<close>

definition WU :: "nat \<Rightarrow> u32 list \<Rightarrow> u32 list" where
  "WU j W = W[j mod 16 := W ! (j mod 16) +
     (sigma1 (W ! ((j + 14) mod 16)) + W ! ((j + 9) mod 16) + sigma0 (W ! ((j + 1) mod 16)))]"

type_synonym regs = "u32 \<times> u32 \<times> u32 \<times> u32 \<times> u32 \<times> u32 \<times> u32 \<times> u32"

fun COMPRESS_ROUND :: "nat \<Rightarrow> nat \<Rightarrow> regs \<times> u32 list \<Rightarrow> regs \<times> u32 list" where
  "COMPRESS_ROUND i j ((a, b, c, d, e, f, g, h), W) =
     (let W' = (if i \<noteq> 0 then WU j W else W);
          T1 = h + sum1 e + Ch e f g + SHA256_K ! (i + j) + W' ! (j mod 16);
          T2 = sum0 a + Maj a b c
      in ((T1 + T2, a, b, c, d + T1, e, f, g), W'))"

definition load32 :: "bytes \<Rightarrow> nat \<Rightarrow> u32" where
  "load32 mp k = le_word (slice (4 * k) 4 mp)"

fun regs_of :: "u32 list \<Rightarrow> regs" where
  "regs_of hs = (hs ! 0, hs ! 1, hs ! 2, hs ! 3, hs ! 4, hs ! 5, hs ! 6, hs ! 7)"

fun list_of_regs :: "regs \<Rightarrow> u32 list" where
  "list_of_regs (a, b, c, d, e, f, g, h) = [a, b, c, d, e, f, g, h]"

text \<open>One iteration of the loop over blocks: sixteen loads, four times sixteen rounds, and the
  addition of the working variables to the state.\<close>

definition transform_block :: "u32 list \<Rightarrow> bytes \<Rightarrow> nat \<Rightarrow> u32 list" where
  "transform_block hs mp blk =
     (let W = map (\<lambda>i. bswap_32 (load32 mp (blk * 16 + i))) [0..<16];
          rounds = concat (map (\<lambda>i. map (Pair i) [0..<16]) [0, 16, 32, 48]);
          (r, W') = fold (\<lambda>(i, j). COMPRESS_ROUND i j) rounds (regs_of hs, W)
      in map2 (+) hs (list_of_regs r))"

definition StdSha256Transform :: "sha256_ctx \<Rightarrow> bytes \<Rightarrow> nat \<Rightarrow> sha256_ctx" where
  "StdSha256Transform ctx mp num_blks =
     ctx\<lparr>hash_state := fold (\<lambda>blk hs. transform_block hs mp blk) [0..<num_blks] (hash_state ctx)\<rparr>"

definition sha256_begin :: "sha256_ctx \<Rightarrow> sha256_ctx" where
  "sha256_begin ctx = ctx\<lparr>
     hash_state := [0x6a09e667, 0xbb67ae85, 0x3c6ef372, 0xa54ff53a,
                    0x510e527f, 0x9b05688c, 0x1f83d9ab, 0x5be0cd19],
     count0 := 0, count1 := 0\<rparr>"

text \<open>\<open>sha256_hash (data, len, ctx)\<close>: \<open>pos\<close> and \<open>total\<close> are the 32-bit locals of the code, so
  \<open>pos + len\<close> and the bit count wrap.\<close>

definition sha256_hash :: "bytes \<Rightarrow> u32 \<Rightarrow> sha256_ctx \<Rightarrow> sha256_ctx" where
  "sha256_hash data len ctx =
     (let pos = count0 ctx; total = count1 ctx;
          (ctx, data, len, pos, total) =
            (if pos \<noteq> 0 \<and> pos + len \<ge> 64
             then let n = 64 - pos;
                      ctx = ctx\<lparr>wbuf := store_at (unat pos) (take (unat n) data) (wbuf ctx)\<rparr>
                  in (StdSha256Transform ctx (wbuf ctx) 1, drop (unat n) data, len - n, 0, total + n * 8)
             else (ctx, data, len, pos, total));
          (ctx, data, len, total) =
            (if len \<ge> 64
             then let blocks = len div 64; nbytes = blocks * 64
                  in (StdSha256Transform ctx data (unat blocks),
                      drop (unat nbytes) data, len - nbytes, total + nbytes * 8)
             else (ctx, data, len, total))
      in ctx\<lparr>wbuf := store_at (unat pos) (take (unat len) data) (wbuf ctx),
             count0 := pos + len, count1 := total + len * 8\<rparr>)"

definition rotl64 :: "u64 \<Rightarrow> nat \<Rightarrow> u64" where
  "rotl64 x n = push_bit n x OR drop_bit (64 - n) x"

definition bswap_64 :: "u64 \<Rightarrow> u64" where
  "bswap_64 x =
     (let y = drop_bit 8 (x AND 0xFF00FF00FF00FF00) OR push_bit 8 (x AND 0x00FF00FF00FF00FF)
      in rotl64 (drop_bit 16 (y AND 0xFFFF0000FFFF0000) OR push_bit 16 (y AND 0x0000FFFF0000FFFF)) 32)"

definition sha256_end :: "sha256_ctx \<Rightarrow> bytes \<times> sha256_ctx" where
  "sha256_end ctx =
     (let pos = unat (count0 ctx);
          ctx = ctx\<lparr>wbuf := store_at pos [0x80] (wbuf ctx)\<rparr>;
          pos = pos + 1;
          (ctx, pos) =
            (if pos > 56
             then (StdSha256Transform (ctx\<lparr>wbuf := store_at pos (zeros (64 - pos)) (wbuf ctx)\<rparr>)
                     (store_at pos (zeros (64 - pos)) (wbuf ctx)) 1, 0)
             else (ctx, pos));
          m = store_at pos (zeros (56 - pos)) (wbuf ctx);
          mlen = bswap_64 (ucast (count1 ctx));
          m = store_at 56 (le_bytes 8 mlen) m;
          ctx = StdSha256Transform (ctx\<lparr>wbuf := m\<rparr>) m 1;
          ctx = ctx\<lparr>hash_state := map bswap_32 (hash_state ctx)\<rparr>
      in (concat (map (le_bytes 4) (hash_state ctx)), ctx))"

text \<open>The context of the one-shot function is uninitialised memory: any buffer of 64 bytes.\<close>

definition ctx_uninit :: sha256_ctx where
  "ctx_uninit = \<lparr>count0 = 0, count1 = 0, hash_state = replicate 8 0, wbuf = zeros 64\<rparr>"

definition sha256 :: "bytes \<Rightarrow> u32 \<Rightarrow> bytes" where
  "sha256 source sourceLen =
     fst (sha256_end (sha256_hash source sourceLen (sha256_begin ctx_uninit)))"


section \<open>FIPS 180-4\<close>

definition fips_Ch :: "u32 \<Rightarrow> u32 \<Rightarrow> u32 \<Rightarrow> u32" where
  "fips_Ch x y z = (x AND y) XOR (NOT x AND z)"

definition fips_Maj :: "u32 \<Rightarrow> u32 \<Rightarrow> u32 \<Rightarrow> u32" where
  "fips_Maj x y z = (x AND y) XOR (x AND z) XOR (y AND z)"

text \<open>The message schedule, as 64 words rather than a circular buffer of 16.\<close>

fun fips_W :: "(nat \<Rightarrow> u32) \<Rightarrow> nat \<Rightarrow> u32" where
  "fips_W M t = (if t < 16 then M t
     else sigma1 (fips_W M (t - 2)) + fips_W M (t - 7) + sigma0 (fips_W M (t - 15)) + fips_W M (t - 16))"

declare fips_W.simps [simp del]

fun fips_round :: "(nat \<Rightarrow> u32) \<Rightarrow> nat \<Rightarrow> regs \<Rightarrow> regs" where
  "fips_round W t (a, b, c, d, e, f, g, h) =
     (let T1 = h + sum1 e + fips_Ch e f g + SHA256_K ! t + W t;
          T2 = sum0 a + fips_Maj a b c
      in (T1 + T2, a, b, c, d + T1, e, f, g))"

definition fips_block :: "u32 list \<Rightarrow> bytes \<Rightarrow> u32 list" where
  "fips_block H m =
     (let M = (\<lambda>k. be_word (slice (4 * k) 4 m))
      in map2 (+) H (list_of_regs (fold (fips_round (fips_W M)) [0..<64] (regs_of H))))"

function fips_blocks :: "u32 list \<Rightarrow> bytes \<Rightarrow> u32 list" where
  "fips_blocks H m = (if length m < 64 then H else fips_blocks (fips_block H (take 64 m)) (drop 64 m))"
  by pat_completeness auto
termination by (relation "measure (\<lambda>(H, m). length m)") auto

declare fips_blocks.simps [simp del]

definition fips_H0 :: "u32 list" where
  "fips_H0 = [0x6a09e667, 0xbb67ae85, 0x3c6ef372, 0xa54ff53a,
              0x510e527f, 0x9b05688c, 0x1f83d9ab, 0x5be0cd19]"

text \<open>Padding with a 64-bit length field; \<open>fips_pad_with\<close> leaves the field open.\<close>

definition fips_pad_with :: "u64 \<Rightarrow> bytes \<Rightarrow> bytes" where
  "fips_pad_with l m = m @ [0x80] @ zeros ((119 - length m mod 64) mod 64) @ be_bytes 8 l"

definition fips_pad :: "bytes \<Rightarrow> bytes" where
  "fips_pad m = fips_pad_with (of_nat (8 * length m)) m"

definition fips_sha256 :: "bytes \<Rightarrow> bytes" where
  "fips_sha256 m = concat (map (be_bytes 4) (fips_blocks fips_H0 (fips_pad m)))"

section \<open>The compression function refines the standard's\<close>

lemma Ch_fips: "Ch x y z = fips_Ch x y z"
  unfolding Ch_def fips_Ch_def by (rule bit_word_eqI) (auto simp: bit_simps)

lemma Maj_fips: "Maj x y z = fips_Maj x y z"
  unfolding Maj_def fips_Maj_def by (rule bit_word_eqI) (auto simp: bit_simps)

lemma bswap_32_le: 
  assumes "length xs = 4"
  shows "bswap_32 (le_word xs) = be_word xs"
proof -
  define b0 b1 b2 b3 where b: "b0 = xs ! 0" "b1 = xs ! 1" "b2 = xs ! 2" "b3 = xs ! 3"
  have s: "xs = [b0, b1, b2, b3]" using list_4_nth [OF assms] by (simp add: b)
  show ?thesis
    unfolding s bswap_32_def rotl32_def be_word_def
    by (rule word_eq_bits) (simp add: bit_simps upt_eval bit_byte_ge)
qed


lemma rounds_flat:
  "concat (map (\<lambda>i. map (Pair i) [0..<16]) [0, 16, 32, 48]) =
   map (\<lambda>t. (t - t mod 16, t mod 16)) [0..<64 :: nat]"
  by code_simp

text \<open>
  The circular schedule before round \<open>t\<close> holds the sixteen most recent words of the standard's
  schedule, word \<open>t'\<close> at position \<open>t' mod 16\<close>.
\<close>

definition window :: "(nat \<Rightarrow> u32) \<Rightarrow> nat \<Rightarrow> u32 list \<Rightarrow> bool" where
  "window M t W \<longleftrightarrow> length W = 16 \<and>
     (\<forall>k. max t 16 - 16 \<le> k \<and> k < max t 16 \<longrightarrow> W ! (k mod 16) = fips_W M k)"

lemma window_nth:
  "window M t W \<Longrightarrow> 16 \<le> t \<Longrightarrow> t - 16 \<le> k \<Longrightarrow> k < t \<Longrightarrow> W ! (k mod 16) = fips_W M k"
  by (simp add: window_def max_def)

lemma window_step:
  assumes "window M t W" "16 \<le> t"
  shows "window M (Suc t) (WU (t mod 16) W)" "WU (t mod 16) W ! (t mod 16) = fips_W M t"
proof -
  have len: "length W = 16" using assms(1) by (simp add: window_def)
  obtain s where s: "t = s + 16" using assms(2) le_Suc_ex by (metis add.commute)
  have idx: "(t mod 16 + 14) mod 16 = (t - 2) mod 16" "(t mod 16 + 9) mod 16 = (t - 7) mod 16"
    "(t mod 16 + 1) mod 16 = (t - 15) mod 16" "t mod 16 = (t - 16) mod 16"
    unfolding s by (simp_all add: mod_simps add.commute)
  have w: "W ! ((t - 2) mod 16) = fips_W M (t - 2)" "W ! ((t - 7) mod 16) = fips_W M (t - 7)"
    "W ! ((t - 15) mod 16) = fips_W M (t - 15)" "W ! ((t - 16) mod 16) = fips_W M (t - 16)"
    using assms(2) by (auto intro!: window_nth [OF assms])
  have "W ! (t mod 16) = fips_W M (t - 16)" using w(4) idx(4) by simp
  then have v: "W ! (t mod 16) + (sigma1 (W ! ((t mod 16 + 14) mod 16)) + W ! ((t mod 16 + 9) mod 16)
      + sigma0 (W ! ((t mod 16 + 1) mod 16))) = fips_W M t"
    using assms(2) unfolding idx(1-3) w(1-3) by (subst fips_W.simps) (simp add: algebra_simps)
  show new: "WU (t mod 16) W ! (t mod 16) = fips_W M t"
    using len by (simp only: WU_def mod_mod_trivial v) simp
  have "WU (t mod 16) W ! (k mod 16) = fips_W M k" if k: "t - 15 \<le> k" "k < Suc t" for k
  proof (cases "k = t")
    case True
    then show ?thesis using new by simp
  next
    case False
    with k assms(2) have "0 < t - k" "t - k < 16" by auto
    then have "\<not> 16 dvd (t - k)" by (auto dest: dvd_imp_le)
    then have "k mod 16 \<noteq> t mod 16" using k mod_eq_dvd_iff_nat [of k t 16] by auto
    then have "WU (t mod 16) W ! (k mod 16) = W ! (k mod 16)" by (simp add: WU_def)
    also have "\<dots> = fips_W M k" using k False by (intro window_nth [OF assms]) auto
    finally show ?thesis .
  qed
  then show "window M (Suc t) (WU (t mod 16) W)"
    using len assms(2) by (simp add: window_def max_def WU_def)
qed

lemma COMPRESS_ROUND_step:
  assumes "window M t W"
  shows "\<exists>W'. COMPRESS_ROUND (t - t mod 16) (t mod 16) (r, W) = (fips_round (fips_W M) t r, W')
           \<and> window M (Suc t) W'"
proof (cases "t < 16")
  case True
  have "W ! (t mod 16) = fips_W M t" using assms True by (simp add: window_def)
  moreover have "window M (Suc t) W" using assms True by (simp add: window_def max_def)
  ultimately show ?thesis
    using True by (cases r rule: list_of_regs.cases) (simp add: Let_def Ch_fips Maj_fips)
next
  case False
  then have "t - t mod 16 \<noteq> 0" "t - t mod 16 + t mod 16 = t" by (auto simp: minus_mod_eq_mult_div)
  then show ?thesis
    using window_step [OF assms] False
    by (cases r rule: list_of_regs.cases) (simp add: Let_def Ch_fips Maj_fips)
qed

lemma rounds_fips:
  assumes "window M 0 W" 
  shows "\<exists>W'. fold (\<lambda>t. COMPRESS_ROUND (t - t mod 16) (t mod 16)) [0..<n] (r, W) =
           (fold (fips_round (fips_W M)) [0..<n] r, W') \<and> window M n W'"
proof (induction n)
  case 0
  with assms show ?case by simp
next
  case (Suc n)
  then obtain W' where W': "fold (\<lambda>t. COMPRESS_ROUND (t - t mod 16) (t mod 16)) [0..<n] (r, W) =
      (fold (fips_round (fips_W M)) [0..<n] r, W')" "window M n W'" by blast
  from COMPRESS_ROUND_step [OF W'(2)] W'(1) show ?case by simp
qed

theorem transform_block_fips:
  assumes "blk * 64 + 64 \<le> length mp"
  shows "transform_block hs mp blk = fips_block hs (slice (blk * 64) 64 mp)"
proof -
  define m where "m = slice (blk * 64) 64 mp"
  define M where "M = (\<lambda>k. be_word (slice (4 * k) 4 m) :: u32)"
  define W where "W = map (\<lambda>i. bswap_32 (load32 mp (blk * 16 + i))) [0..<16]"
  have "bswap_32 (load32 mp (blk * 16 + i)) = M i" if "i < 16" for i
  proof -
    have "slice (4 * i) 4 m = slice (4 * (blk * 16 + i)) 4 mp"
      using that by (simp add: m_def slice_slice algebra_simps)
    moreover have "length (slice (4 * i) 4 m) = 4" using that assms by (simp add: m_def)
    ultimately show ?thesis by (simp add: load32_def M_def bswap_32_le)
  qed
  then have "window M 0 W" by (simp add: window_def W_def fips_W.simps)
  from rounds_fips [OF this, of 64 "regs_of hs"] obtain W' where
    "fold (\<lambda>t. COMPRESS_ROUND (t - t mod 16) (t mod 16)) [0..<64] (regs_of hs, W) =
       (fold (fips_round (fips_W M)) [0..<64] (regs_of hs), W')" by blast
  then show ?thesis
    unfolding transform_block_def fips_block_def Let_def rounds_flat
    by (simp add: fold_map comp_def W_def [symmetric] m_def [symmetric] M_def [symmetric]
        del: regs_of.simps)
qed


section \<open>Blocks of a message\<close>

lemma fips_blocks_short: "length m < 64 \<Longrightarrow> fips_blocks H m = H"
  by (simp add: fips_blocks.simps)

lemma fips_blocks_append:
  "64 dvd length a \<Longrightarrow> fips_blocks H (a @ b) = fips_blocks (fips_blocks H a) b"
proof (induction "length a div 64" arbitrary: H a)
  case 0
  then have "a = []" by (auto elim!: dvdE)
  then show ?case by (simp add: fips_blocks_short)
next
  case (Suc n)
  then have "length a div 64 \<noteq> 0" by simp
  then have "64 \<le> length a" by (metis div_less not_less)
  moreover have "n = length (drop 64 a) div 64" "64 dvd length (drop 64 a)"
    using Suc.hyps(2) Suc.prems calculation by (auto simp: le_div_geq)
  ultimately show ?case
    using Suc.hyps(1) [of "drop 64 a" "fips_block H (take 64 a)"]
    by (subst (1 2) fips_blocks.simps) simp
qed

lemma fips_blocks_single: "length m = 64 \<Longrightarrow> fips_blocks H m = fips_block H m"
  by (subst fips_blocks.simps) (simp add: fips_blocks_short)

lemma length_fips_block: "length H = 8 \<Longrightarrow> length (fips_block H m) = 8"
  by (cases "fold (fips_round (fips_W (\<lambda>k. be_word (slice (4 * k) 4 m)))) [0..<64] (regs_of H)"
        rule: list_of_regs.cases)
     (simp add: fips_block_def Let_def)

lemma length_fips_blocks [simp]: "length H = 8 \<Longrightarrow> length (fips_blocks H m) = 8"
proof (induction H m rule: fips_blocks.induct)
  case (1 H m)
  then show ?case by (subst fips_blocks.simps) (simp add: length_fips_block)
qed

lemma transform_blocks_fips:
  "n * 64 \<le> length mp \<Longrightarrow>
   fold (\<lambda>blk hs. transform_block hs mp blk) [0..<n] hs = fips_blocks hs (take (n * 64) mp)"
proof (induction n)
  case 0
  then show ?case by (simp add: fips_blocks_short)
next
  case (Suc n)
  then have "take (Suc n * 64) mp = take (n * 64) mp @ slice (n * 64) 64 mp"
    by (simp add: slice_def take_add [symmetric] add.commute)
  with Suc show ?case
    by (simp add: transform_block_fips fips_blocks_append fips_blocks_single add.commute)
qed

lemma StdSha256Transform_fips:
  "n * 64 \<le> length mp \<Longrightarrow>
   StdSha256Transform ctx mp n = ctx\<lparr>hash_state := fips_blocks (hash_state ctx) (take (n * 64) mp)\<rparr>"
  by (simp add: StdSha256Transform_def transform_blocks_fips)

section \<open>The streaming interface\<close>

text \<open>
  \<open>absorbed h w pos total m\<close>: the state, the buffer and the two counters have absorbed exactly the
  message \<open>m\<close>; \<open>sha256_reps\<close> says so of a context between two calls.
\<close>

definition full_len :: "bytes \<Rightarrow> nat" where
  "full_len m = length m div 64 * 64"

definition absorbed :: "u32 list \<Rightarrow> bytes \<Rightarrow> u32 \<Rightarrow> u32 \<Rightarrow> bytes \<Rightarrow> bool" where
  "absorbed h w pos tot m \<longleftrightarrow>
     h = fips_blocks fips_H0 (take (full_len m) m) \<and>
     length w = 64 \<and>
     take (length m mod 64) w = drop (full_len m) m \<and>
     pos = of_nat (length m mod 64) \<and>
     tot = of_nat (8 * length m)"

definition sha256_reps :: "sha256_ctx \<Rightarrow> bytes \<Rightarrow> bool" where
  "sha256_reps ctx m \<longleftrightarrow>
     absorbed (hash_state ctx) (wbuf ctx) (count0 ctx) (count1 ctx) m"

lemma sha256_begin_reps: "length (wbuf ctx) = 64 \<Longrightarrow> sha256_reps (sha256_begin ctx) []"
  by (simp add: sha256_reps_def absorbed_def sha256_begin_def full_len_def fips_blocks_short fips_H0_def)

lemma full_len_le [simp]: "full_len m \<le> length m"
  by (simp add: full_len_def)

lemma full_len_plus_mod: "full_len m + length m mod 64 = length m"
  by (simp add: full_len_def)

lemma dvd_full_len: "64 dvd length m \<Longrightarrow> full_len m = length m"
  by (simp add: full_len_def)

text \<open>The buffered tail and enough new data make one more block.\<close>

lemma absorbed_fill:
  assumes "absorbed h w pos tot m" "length d = 64 - length m mod 64"
  shows "absorbed (fips_blocks h (store_at (unat pos) d w)) (store_at (unat pos) d w) 0
           (tot + of_nat (8 * length d)) (m @ d)"
proof -
  define p where "p = length m mod 64"
  have p: "p < 64" "unat pos = p" "length w = 64" "take p w = drop (full_len m) m"
    using assms(1) by (auto simp: absorbed_def p_def take_bit_eq_mod unat_of_nat)
  have w: "store_at p d w = drop (full_len m) m @ d"
    using p assms(2) by (simp add: store_at_def p_def)
  have len: "length (m @ d) = full_len m + 64"
    using full_len_plus_mod [of m] assms(2) p(1) by (simp add: p_def)
  have dvd: "64 dvd length (m @ d)" unfolding len full_len_def by simp
  have "64 dvd length (take (full_len m) m)" by (simp add: full_len_def)
  then have "fips_blocks fips_H0 (take (full_len m) m @ drop (full_len m) m @ d) =
      fips_blocks h (drop (full_len m) m @ d)"
    using assms(1) by (simp only: fips_blocks_append absorbed_def)
  then have "fips_blocks h (store_at p d w) = fips_blocks fips_H0 (m @ d)"
    unfolding w by (metis append.assoc append_take_drop_id)
  moreover have "length (store_at p d w) = 64"
    using p assms(2) by (simp add: length_store_at p_def)
  moreover have "tot = of_nat (8 * length m)" using assms(1) by (simp add: absorbed_def)
  ultimately show ?thesis
    unfolding p(2) using dvd by (simp add: absorbed_def dvd_full_len algebra_simps)
qed

text \<open>Whole blocks are absorbed straight from the caller's buffer.\<close>

lemma absorbed_blocks:
  assumes "absorbed h w 0 tot m" "64 dvd length m" "64 dvd length d"
  shows "absorbed (fips_blocks h d) w 0 (tot + of_nat (8 * length d)) (m @ d)"
proof -
  have "64 dvd length (m @ d)" using assms by simp
  then show ?thesis
    using assms by (simp add: absorbed_def dvd_full_len fips_blocks_append algebra_simps)
qed

lemma absorbed_tail:
  assumes "absorbed h w pos tot m" "length m mod 64 + length d < 64"
  shows "absorbed h (store_at (unat pos) d w) (pos + of_nat (length d))
           (tot + of_nat (8 * length d)) (m @ d)"
proof -
  define p q where "p = length m mod 64" and "q = length m div 64"
  have p: "p < 64" "unat pos = p" "length w = 64" "take p w = drop (full_len m) m"
    using assms(1) by (auto simp: absorbed_def p_def take_bit_eq_mod unat_of_nat)
  have "length m = q * 64 + p" by (simp add: p_def q_def)
  then have "length (m @ d) = q * 64 + (p + length d)" "p + length d < 64"
    using assms(2) by (simp_all add: p_def)
  then have md: "length (m @ d) mod 64 = p + length d" "length (m @ d) div 64 = q"
    by (simp_all only: mod_mult_self3 div_mult_self3 mod_less div_less)
  then have fl: "full_len (m @ d) = q * 64" "full_len m = q * 64"
    by (simp_all add: full_len_def q_def)
  have "length (take p w) = p" unfolding length_take p(3) using p(1) by simp
  then have "take (p + length d) (take p w @ d @ drop (p + length d) w) = take p w @ d"
    by simp
  then have "take (p + length d) (store_at p d w) = drop (full_len m) m @ d"
    unfolding store_at_def p(4) .
  moreover have "length (store_at p d w) = 64"
    using p assms(2) by (simp add: length_store_at p_def)
  moreover have "h = fips_blocks fips_H0 (take (full_len m) m)" "pos = of_nat p"
    "tot = of_nat (8 * length m)"
    using assms(1) by (simp_all add: absorbed_def p_def)
  moreover have "full_len m \<le> length m" by simp
  ultimately show ?thesis
    unfolding absorbed_def md fl p(2) by (simp add: fl(2) algebra_simps)
qed

lemma unat_len [simp]: "length (d :: bytes) < 2 ^ 32 \<Longrightarrow> unat (of_nat (length d) :: u32) = length d"
  by (simp add: unat_of_nat take_bit_nat_eq_self)

lemma absorbed_pos:
  "absorbed h w pos tot m \<Longrightarrow> unat pos = length m mod 64"
  "absorbed h w pos tot m \<Longrightarrow> length w = 64"
  by (auto simp: absorbed_def unat_of_nat take_bit_eq_mod)

text \<open>The second half of \<open>sha256_hash\<close>: whole blocks if there are any, then the tail.\<close>

lemma absorbed_rest:
  assumes "absorbed h w pos tot m" and d: "length d < 2 ^ 32" "l = of_nat (length d)"
    and pos: "pos = 0 \<or> length m mod 64 + length d < 64"
  shows "(let (h', d', l', tot') =
            (if l \<ge> 64
             then let blocks = l div 64; nbytes = blocks * 64
                  in (fips_blocks h (take (unat blocks * 64) d),
                      drop (unat nbytes) d, l - nbytes, tot + nbytes * 8)
             else (h, d, l, tot))
          in absorbed h' (store_at (unat pos) (take (unat l') d') w) (pos + l') (tot' + l' * 8) (m @ d))"
proof (cases "64 \<le> length d")
  case True
  define n where "n = length d div 64 * 64"
  have l: "unat l = length d" using d by simp
  have p0: "pos = 0" "length m mod 64 = 0" using pos True absorbed_pos(1) [OF assms(1)] by auto
  have n: "n \<le> length d" "length (take n d) = n" "64 dvd n" by (simp_all add: n_def)
  have bl: "unat (l div 64) = length d div 64" by (simp add: unat_div l)
  have "of_nat (unat (l div 64) * 64) = l div 64 * 64" by simp
  then have "l div 64 * 64 = of_nat n" by (simp only: n_def bl)
  moreover have un: "unat (of_nat n :: u32) = n"
    using n(1) d(1) by (simp add: unat_of_nat take_bit_nat_eq_self)
  moreover have l': "l - of_nat n = of_nat (length (drop n d))" using d(2) n(1) by (simp add: of_nat_diff)
  moreover have "take (unat (l - of_nat n)) (drop n d) = drop n d"
  proof -
    have "unat (of_nat (length (drop n d)) :: u32) = length (drop n d)"
      using d(1) by (intro unat_len) simp
    then show ?thesis unfolding l' by simp
  qed
  moreover have ge: "64 \<le> l" using True by (simp add: word_le_nat_alt l)
  moreover have a1: "absorbed (fips_blocks h (take n d)) w 0 (tot + of_nat n * 8) (m @ take n d)"
    using absorbed_blocks [of h w tot m "take n d"] assms(1) p0 n
    by (simp add: mod_eq_0_iff_dvd algebra_simps)
  moreover have "length (drop n d) < 64" "length (m @ take n d) mod 64 = 0"
    using p0(2) n by (auto simp: n_def minus_div_mult_eq_mod mod_eq_0_iff_dvd)
  then have "absorbed (fips_blocks h (take n d)) (store_at 0 (drop n d) w) (l - of_nat n)
      (tot + of_nat n * 8 + (l - of_nat n) * 8) (m @ d)"
    using absorbed_tail [OF a1, of "drop n d"]
    by (simp add: algebra_simps l' del: length_drop of_nat_diff)
  ultimately show ?thesis
    unfolding Let_def bl n_def [symmetric]
    by (simp only: p0(1) if_True prod.case unat_0 add_0)
next
  case False
  then have l: "unat l = length d" "\<not> 64 \<le> l" using d by (simp_all add: word_le_nat_alt)
  moreover have "length m mod 64 + length d < 64"
    using False pos absorbed_pos(1) [OF assms(1)] by auto
  ultimately show ?thesis
    using absorbed_tail [OF assms(1), of d] d(2) by (simp add: algebra_simps)
qed

lemma whole_blocks_le:
  "length d < 2 ^ 32 \<Longrightarrow> unat (of_nat (length (d :: bytes)) div 64 :: u32) * 64 \<le> length d"
  by (simp add: unat_div)

lemma sha256_hash_reps:
  assumes "sha256_reps ctx m" "length data + 64 \<le> 2 ^ 32" "len = of_nat (length data)"
  shows "sha256_reps (sha256_hash data len ctx) (m @ data)"
proof -
  define h w pos tot where c: "h = hash_state ctx" "w = wbuf ctx" "pos = count0 ctx" "tot = count1 ctx"
  have a: "absorbed h w pos tot m" using assms(1) by (simp add: sha256_reps_def c)
  have l: "unat len = length data" using assms(2,3) by simp
  define p where "p = length m mod 64"
  have p: "unat pos = p" "p < 64" "length w = 64" using absorbed_pos [OF a] by (simp_all add: p_def)
  have sum: "unat (pos + len) = p + length data"
    using p l assms(2) by (simp add: unat_word_ariths)
  show ?thesis
  proof (cases "pos \<noteq> 0 \<and> pos + len \<ge> 64")
    case True
    then have ge: "64 \<le> p + length data" "p \<noteq> 0" using sum p by (auto simp: word_le_nat_alt unat_gt_0)
    have n: "unat (64 - pos) = 64 - p" using p by (simp add: unat_sub word_le_nat_alt)
    define d1 d2 where d: "d1 = take (64 - p) data" "d2 = drop (64 - p) data"
    have d12: "m @ data = m @ d1 @ d2" by (simp add: d)
    have d1: "length d1 = 64 - p" using ge by (simp add: d)
    have "64 - pos = of_nat (64 - p)" by (simp flip: n)
    then have d2: "length d2 < 2 ^ 32" "len - (64 - pos) = of_nat (length d2)"
      using assms(2,3) ge p(2) by (simp_all add: d of_nat_diff)
    define w' where "w' = store_at p d1 w"
    have w': "length w' = 64" using p d1 by (simp add: w'_def length_store_at)
    have "64 - pos = of_nat (length d1)" unfolding d1 n [symmetric] by simp
    then have "absorbed (fips_blocks h w') w' 0 (tot + (64 - pos) * 8) (m @ d1)"
      using absorbed_fill [OF a, of d1] d1 p by (simp add: w'_def p_def algebra_simps)
    from absorbed_rest [OF this d2] whole_blocks_le [OF d2(1), folded d2(2)]
    show ?thesis
      using True w' unfolding d12 sha256_hash_def sha256_reps_def Let_def
      by (simp add: c [symmetric] n p d [symmetric] w'_def [symmetric] StdSha256Transform_fips split: if_splits)
  next
    case False
    then have "pos = 0 \<or> length m mod 64 + length data < 64"
      using sum by (auto simp: word_le_nat_alt p_def)
    from absorbed_rest [OF a _ assms(3) this] whole_blocks_le [of data, folded assms(3)] assms(2)
    have "let (h', d', l', tot') =
            (if len \<ge> 64
             then let blocks = len div 64; nbytes = blocks * 64
                  in (fips_blocks h (take (unat blocks * 64) data),
                      drop (unat nbytes) data, len - nbytes, tot + nbytes * 8)
             else (h, data, len, tot))
          in absorbed h' (store_at (unat pos) (take (unat l') d') w) (pos + l') (tot' + l' * 8) (m @ data)"
      "unat (len div 64) * 64 \<le> length data"
      by simp_all
    moreover have "(pos \<noteq> 0 \<and> pos + len \<ge> 64) = False" using False by simp
    ultimately show ?thesis
      unfolding sha256_hash_def sha256_reps_def Let_def c [symmetric]
      by (simp only: if_False prod.case)
         (simp add: c [symmetric] StdSha256Transform_fips split: if_splits)
  qed
qed

text \<open>\<open>sha256_end\<close> pads with the 32-bit count of bits it has, extended to 64 bits.\<close>

lemma pad_blocks:
  assumes "length t < 64" "length p = 8"
  shows "fips_blocks h (t @ [0x80] @ zeros ((119 - length t) mod 64) @ p) =
    (if 56 \<le> length t
     then fips_block (fips_block h (t @ [0x80] @ zeros (63 - length t))) (zeros 56 @ p)
     else fips_block h (t @ [0x80] @ zeros (55 - length t) @ p))"
proof (cases "56 \<le> length t")
  case True
  then have z: "zeros ((119 - length t) mod 64) = zeros (63 - length t) @ zeros 56"
    using assms by (simp flip: zeros_add)
  have "t @ [0x80] @ zeros ((119 - length t) mod 64) @ p =
      (t @ [0x80] @ zeros (63 - length t)) @ (zeros 56 @ p)"
    unfolding z by simp
  then show ?thesis
    using True assms
      by (simp only: fips_blocks_append length_append)
         (simp add: fips_blocks_append [of "t @ 0x80 # zeros (63 - length t)", simplified] fips_blocks_single)
next
  case False
  then have "(119 - length t) mod 64 = 55 - length t"
    by (simp add: mod_if)
  then show ?thesis using False assms by (simp add: fips_blocks_single)
qed

lemma le_bytes_bswap_32: "le_bytes 4 (bswap_32 x) = be_bytes 4 x"
proof -
  have "bswap_32 x = be_word (le_bytes 4 x)"
    using bswap_32_le [of "le_bytes 4 x"] by (simp add: le_word_le_bytes)
  then have "be_bytes 4 (bswap_32 x) = le_bytes 4 x" by (simp add: be_bytes_be_word)
  then show ?thesis unfolding be_bytes_def by (metis rev_rev_ident)
qed

lemma le_bytes_bswap_64: "le_bytes 8 (bswap_64 x) = be_bytes 8 x"
proof -
  have "bswap_64 x = be_word (le_bytes 8 x)"
    unfolding bswap_64_def rotl64_def be_word_def le_bytes_def
    by (rule word_eq_bits) (simp add: bit_simps upt_eval)
  then have "be_bytes 8 (bswap_64 x) = le_bytes 8 x" by (simp add: be_bytes_be_word)
  then show ?thesis unfolding be_bytes_def by (metis rev_rev_ident)
qed

lemma sha256_end_reps:
  assumes "sha256_reps ctx m"
  shows "fst (sha256_end ctx) =
    concat (map (be_bytes 4) (fips_blocks fips_H0 (fips_pad_with (ucast (of_nat (8 * length m) :: u32)) m)))"
proof -
  define t h l where t: "t = drop (full_len m) m" "h = fips_blocks fips_H0 (take (full_len m) m)"
    "l = be_bytes 8 (ucast (count1 ctx) :: u64)"
  have lm: "length m - full_len m = length m mod 64" using full_len_plus_mod [of m] by linarith
  have "length t = length m mod 64" by (simp add: t lm)
  moreover have wt: "take (length m mod 64) (wbuf ctx) = t"
    using assms unfolding sha256_reps_def absorbed_def t(1) by blast
  ultimately have r: "hash_state ctx = h" "length (wbuf ctx) = 64" "length t = length m mod 64"
    "unat (count0 ctx) = length t" "length t < 64" "count1 ctx = of_nat (8 * length m)"
    "length t = length m mod 64" "length l = 8"
    using assms [unfolded sha256_reps_def absorbed_def] full_len_plus_mod [of m]
    by (simp_all add: t(2,3) unat_of_nat take_bit_eq_mod)
  define r where "r = drop (Suc (length t)) (wbuf ctx)"
  have w: "store_at (length t) [0x80] (wbuf ctx) = t @ [0x80] @ r"
    by (simp add: store_at_def r(3) wt r_def)
  have lr: "length r = 63 - length t" using \<open>length (wbuf ctx) = 64\<close> by (simp add: r_def)
  have pad: "fips_blocks fips_H0 (fips_pad_with (ucast (count1 ctx)) m) =
      fips_blocks h (t @ [0x80] @ zeros ((119 - length t) mod 64) @ l)"
  proof -
    have "fips_pad_with (ucast (count1 ctx)) m =
        take (full_len m) m @ t @ [0x80] @ zeros ((119 - length t) mod 64) @ l"
      unfolding r(7) by (simp add: fips_pad_with_def t(1,3))
    moreover have "64 dvd length (take (full_len m) m)" by (simp add: full_len_def)
    ultimately show ?thesis by (simp only: fips_blocks_append t)
  qed
  have b1: "store_at (Suc (length t)) (zeros k) (t @ 0x80 # r) = t @ 0x80 # zeros k @ drop k r" for k
    using store_at_append [of "Suc (length t)" "t @ [0x80]" "zeros k" r] by simp
  have out: "concat (map (le_bytes 4 \<circ> bswap_32) H) = concat (map (be_bytes 4) H)" for H
    by (simp add: le_bytes_bswap_32 comp_def)
  show ?thesis
    unfolding r(6) [symmetric] pad pad_blocks [OF r(5,8)]
  proof (cases "56 \<le> length t")
    case True
    have "store_at 56 l (store_at 0 (zeros 56) (t @ 0x80 # zeros (63 - length t))) = zeros 56 @ l"
      using True r(5,8) by (simp add: store_at_def)
    with True show "fst (sha256_end ctx) = concat (map (be_bytes 4) (if 56 \<le> length t
        then fips_block (fips_block h (t @ [0x80] @ zeros (63 - length t))) (zeros 56 @ l)
        else fips_block h (t @ [0x80] @ zeros (55 - length t) @ l)))"
      using r(1,4,5,8) lr w
      by (simp add: sha256_end_def b1 out le_bytes_bswap_64 t(3) [symmetric] StdSha256Transform_fips
          fips_blocks_single Let_def)
  next
    case False
    have "store_at 56 l (t @ 0x80 # zeros (55 - length t) @ drop (55 - length t) r) =
        t @ 0x80 # zeros (55 - length t) @ l"
      using False r(5,8) lr store_at_append [of 56 "t @ 0x80 # zeros (55 - length t)" l "drop (55 - length t) r"]
      by simp
    with False show "fst (sha256_end ctx) = concat (map (be_bytes 4) (if 56 \<le> length t
        then fips_block (fips_block h (t @ [0x80] @ zeros (63 - length t))) (zeros 56 @ l)
        else fips_block h (t @ [0x80] @ zeros (55 - length t) @ l)))"
      using r(1,4,5,8) lr w
      by (simp add: sha256_end_def b1 out le_bytes_bswap_64 t(3) [symmetric] StdSha256Transform_fips
          fips_blocks_single Let_def)
  qed
qed


lemma length_concat_be_bytes: "length (concat (map (be_bytes n) xs)) = n * length xs"
  by (induction xs) simp_all

lemma length_fips_sha256 [simp]: "length (fips_sha256 m) = 32"
  by (simp add: fips_sha256_def length_concat_be_bytes fips_H0_def)

text \<open>Below 2^29 bytes the bit count fits the code's 32-bit counter.\<close>

lemma bit_count_fits:
  "length (m :: bytes) < 2 ^ 29 \<Longrightarrow> ucast (of_nat (8 * length m) :: u32) = (of_nat (8 * length m) :: u64)"
  by (simp only: unsigned_of_nat) (simp add: take_bit_nat_eq_self)

lemma sha256_end_fips:
  "sha256_reps ctx m \<Longrightarrow> length m < 2 ^ 29 \<Longrightarrow> fst (sha256_end ctx) = fips_sha256 m"
  by (simp add: sha256_end_reps fips_sha256_def fips_pad_def bit_count_fits del: of_nat_mult)

lemma ctx_uninit_reps: "sha256_reps (sha256_begin ctx_uninit) []"
  by (rule sha256_begin_reps) (simp add: ctx_uninit_def)

lemma sha256_fips:
  assumes "length source < 2 ^ 29" "sourceLen = of_nat (length source)"
  shows "sha256 source sourceLen = fips_sha256 source"
proof -
  have "length source + 64 \<le> 2 ^ 32" using assms(1) by simp
  from sha256_hash_reps [OF ctx_uninit_reps this assms(2)]
  show ?thesis unfolding sha256_def using assms(1) by (simp add: sha256_end_fips)
qed

end
