(* ===== verification/Hmac.thy ===== *)
theory Hmac
  imports Sha256
begin

text \<open>
  HMAC-SHA-256. Eight translation units of \<open>src/src/Common\<close> carry a static copy of it, all written
  over the streaming calls \<open>sha256_begin\<close>, \<open>sha256_hash\<close>, \<open>sha256_end\<close>. This theory states the
  interface of a streaming hash once, as the locale \<open>stream_hash\<close>, proves in it what any client that
  follows the pattern of those copies computes, interprets it on the code's SHA-256, and gives RFC 2104
  as the specification every copy is compared with in its own theory.
\<close>

section \<open>The interface of a streaming hash\<close>

locale stream_hash =
  fixes start :: "'c \<Rightarrow> 'c"
    and update :: "bytes \<Rightarrow> 'c \<Rightarrow> 'c"
    and finish :: "'c \<Rightarrow> bytes \<times> 'c"
    and valid :: "'c \<Rightarrow> bool"
    and reps :: "'c \<Rightarrow> bytes \<Rightarrow> bool"
    and digest :: "bytes \<Rightarrow> bytes"
    and max_total :: nat
  assumes start_reps: "valid c \<Longrightarrow> reps (start c) []"
    and update_reps: "reps c m \<Longrightarrow> length m + length d \<le> max_total \<Longrightarrow> reps (update d c) (m @ d)"
    and finish_digest: "reps c m \<Longrightarrow> length m \<le> max_total \<Longrightarrow> fst (finish c) = digest m"
    and finish_valid: "reps c m \<Longrightarrow> valid (snd (finish c))"
begin

lemma update_nonempty_reps:
  "reps c m \<Longrightarrow> length m + length d \<le> max_total \<Longrightarrow>
   reps (if 0 < length d then update d c else c) (m @ d)"
  by (cases d) (simp_all add: update_reps)

lemma digest_of_parts:
  "valid c \<Longrightarrow> length (concat ds) \<le> max_total \<Longrightarrow> reps (fold update ds (start c)) (concat ds)"
proof (induction ds rule: rev_induct)
  case Nil
  then show ?case by (simp add: start_reps)
next
  case (snoc d ds)
  then show ?case by (simp add: update_reps)
qed

lemma finish_pair:
  "reps c m \<Longrightarrow> length m \<le> max_total \<Longrightarrow> \<exists>c'. finish c = (digest m, c') \<and> valid c'"
  using finish_digest [of c m] finish_valid [of c m] by (cases "finish c") simp

end

section \<open>The code's SHA-256 as a streaming hash\<close>

definition sha_update :: "bytes \<Rightarrow> sha256_ctx \<Rightarrow> sha256_ctx" where
  "sha_update d ctx = sha256_hash d (of_nat (length d)) ctx"

definition sha_valid :: "sha256_ctx \<Rightarrow> bool" where
  "sha_valid ctx \<longleftrightarrow> length (wbuf ctx) = 64"

definition sha_max :: nat where "sha_max = 2 ^ 29 - 1"

lemma wbuf_StdSha256Transform [simp]: "wbuf (StdSha256Transform ctx m n) = wbuf ctx"
  by (simp add: StdSha256Transform_def)

lemma length_store_at_general:
  "off \<le> length buf \<Longrightarrow> length (store_at off bs buf) = max (off + length bs) (length buf)"
  by (simp add: store_at_def)

lemma sha256_end_valid: "sha256_reps ctx m \<Longrightarrow> sha_valid (snd (sha256_end ctx))"
proof -
  assume "sha256_reps ctx m"
  then have "unat (count0 ctx) < 64" "length (wbuf ctx) = 64"
    by (auto simp: sha256_reps_def absorbed_def unat_of_nat take_bit_eq_mod)
  then show ?thesis
    by (simp add: sha_valid_def sha256_end_def Let_def length_store_at_general)
qed

interpretation sha: stream_hash sha256_begin sha_update sha256_end sha_valid sha256_reps fips_sha256 sha_max
proof unfold_locales
  show "sha_valid c \<Longrightarrow> sha256_reps (sha256_begin c) []" for c
    by (rule sha256_begin_reps) (simp add: sha_valid_def)
  show "sha256_reps c m \<Longrightarrow> length m + length d \<le> sha_max \<Longrightarrow> sha256_reps (sha_update d c) (m @ d)" for c m d
    unfolding sha_update_def by (rule sha256_hash_reps) (simp_all add: sha_max_def)
  show "sha256_reps c m \<Longrightarrow> length m \<le> sha_max \<Longrightarrow> fst (sha256_end c) = fips_sha256 m" for c m
    by (rule sha256_end_fips) (simp_all add: sha_max_def)
  show "sha256_reps c m \<Longrightarrow> sha_valid (snd (sha256_end c))" for c m
    by (rule sha256_end_valid)
qed

lemma sha_valid_uninit [simp]: "sha_valid ctx_uninit"
  by (simp add: sha_valid_def ctx_uninit_def)

section \<open>RFC 2104\<close>

definition hmac_key :: "bytes \<Rightarrow> bytes" where
  "hmac_key key = (if length key > 64 then fips_sha256 key @ zeros 32 else key @ zeros (64 - length key))"

definition ipad :: "bytes \<Rightarrow> bytes" where
  "ipad k0 = map (\<lambda>b. b XOR 0x36) k0"

definition opad :: "bytes \<Rightarrow> bytes" where
  "opad k0 = map (\<lambda>b. b XOR 0x5c) k0"

definition hmac_sha256 :: "bytes \<Rightarrow> bytes \<Rightarrow> bytes" where
  "hmac_sha256 key m =
     fips_sha256 (opad (hmac_key key) @ fips_sha256 (ipad (hmac_key key) @ m))"

lemma length_hmac_key [simp]: "length (hmac_key key) = 64"
  by (simp add: hmac_key_def)

lemma length_ipad [simp]: "length (ipad k) = length k" "length (opad k) = length k"
  by (simp_all add: ipad_def opad_def)

lemma length_hmac_sha256 [simp, len_simps]: "length (hmac_sha256 key m) = 32"
  by (simp add: hmac_sha256_def)

text \<open>The key block, computed with the same context.\<close>

lemma hmac_key_code:
  assumes "length key < 2 ^ 29"
  shows "\<exists>c'. (if length key > 64
     then let (d, c) = sha256_end (sha_update key (sha256_begin ctx_uninit)) in (d @ zeros 32, c)
     else (key @ zeros (64 - length key), ctx_uninit)) = (hmac_key key, c') \<and> sha_valid c'"
proof (cases "length key > 64")
  case True
  have "sha256_reps (sha_update key (sha256_begin ctx_uninit)) ([] @ key)"
    using assms by (intro sha.update_reps sha.start_reps) (simp_all add: sha_max_def)
  then obtain c' where "sha256_end (sha_update key (sha256_begin ctx_uninit)) = (fips_sha256 key, c')" "sha_valid c'"
    using sha.finish_pair [of _ key] assms by (auto simp: sha_max_def)
  with True show ?thesis by (simp add: hmac_key_def)
next
  case False
  then show ?thesis by (simp add: hmac_key_def)
qed

text \<open>The two together, in the shape of the code: \<open>inner\<close> and \<open>out\<close> buffers, one context reused.\<close>

lemma hmac_two_parts:
  assumes "length key < 2 ^ 29" "length m1 + length m2 + 64 < 2 ^ 29"
  shows "(let (k0, ctx) =
            (if length key > 64
             then let (d, ctx) = sha256_end (sha256_hash key (of_nat (length key)) (sha256_begin ctx_uninit))
                  in (d @ zeros 32, ctx)
             else (key @ zeros (64 - length key), ctx_uninit));
          pad = map (\<lambda>b. b XOR 0x36) k0;
          ctx = sha256_hash pad 64 (sha256_begin ctx);
          ctx = (if length m1 > 0 then sha256_hash m1 (of_nat (length m1)) ctx else ctx);
          ctx = (if length m2 > 0 then sha256_hash m2 (of_nat (length m2)) ctx else ctx);
          (inner, ctx) = sha256_end ctx;
          pad = map (\<lambda>b. b XOR 0x5c) k0;
          ctx = sha256_hash inner 32 (sha256_hash pad 64 (sha256_begin ctx))
      in fst (sha256_end ctx)) = hmac_sha256 key (m1 @ m2)"
proof -
  define k0 p1 p2 where k: "k0 = hmac_key key" "p1 = map (\<lambda>b. b XOR 0x36) k0" "p2 = map (\<lambda>b. b XOR 0x5c) k0"
  obtain c where c: "(if length key > 64
     then let (d, c) = sha256_end (sha256_hash key (of_nat (length key)) (sha256_begin ctx_uninit)) in (d @ zeros 32, c)
     else (key @ zeros (64 - length key), ctx_uninit)) = (k0, c)" "sha_valid c"
    using hmac_key_code [OF assms(1)] unfolding sha_update_def k by blast
  have len: "length p1 = 64" "length p2 = 64" by (simp_all add: k)
  then have upd: "sha256_hash p1 64 = sha_update p1" "sha256_hash p2 64 = sha_update p2"
    by (auto simp: sha_update_def)
  define c3 where "c3 = (let c = sha_update p1 (sha256_begin c);
              c = (if 0 < length m1 then sha_update m1 c else c)
           in (if 0 < length m2 then sha_update m2 c else c))"
  have c3: "sha256_reps c3 ((p1 @ m1) @ m2)"
    unfolding c3_def Let_def
    by (intro sha.update_nonempty_reps sha.update_reps [of _ "[]", simplified] sha.start_reps c)
       (use assms(2) len in \<open>simp_all add: sha_max_def\<close>)
  then obtain c4 where c4: "sha256_end c3 = (fips_sha256 (p1 @ m1 @ m2), c4)" "sha_valid c4"
    using sha.finish_pair [of c3 "p1 @ m1 @ m2"] assms(2) len by (auto simp: sha_max_def)
  have "sha256_reps (sha_update (fips_sha256 (p1 @ m1 @ m2)) (sha_update p2 (sha256_begin c4)))
      (([] @ p2) @ fips_sha256 (p1 @ m1 @ m2))"
    by (intro sha.update_reps sha.start_reps c4) (simp_all add: sha_max_def len)
  then have out: "fst (sha256_end (sha256_hash (fips_sha256 (p1 @ m1 @ m2)) 32 (sha_update p2 (sha256_begin c4)))) =
      hmac_sha256 key (m1 @ m2)"
    by (subst (asm) sha_update_def)
       (simp add: sha.finish_digest sha_max_def len hmac_sha256_def ipad_def opad_def k)
  show ?thesis
    unfolding c(1)
    unfolding Let_def prod.case k(2,3) [symmetric] upd sha_update_def [symmetric]
    unfolding c3_def [unfolded Let_def, symmetric] c4(1) prod.case
    by (rule out)
qed

section \<open>The remaining shapes\<close>

text \<open>
  The other components have copies of the same function that differ in how the key block is made and
  in how many pieces the message comes. The two halves of the computation are stated separately, for
  any context state and any way the message is absorbed.
\<close>

lemma hmac_key_32: "length key = 32 \<Longrightarrow> hmac_key key = key @ zeros 32"
  by (simp add: hmac_key_def)

lemma hmac_inner:
  assumes "sha_valid c"
  shows "sha256_reps (sha256_hash (map (\<lambda>b. b XOR 0x36) (hmac_key key)) 64 (sha256_begin c)) (ipad (hmac_key key))"
proof -
  have "sha256_reps (sha_update (ipad (hmac_key key)) (sha256_begin c)) ([] @ ipad (hmac_key key))"
    by (intro sha.update_reps sha.start_reps assms) (simp add: sha_max_def)
  then show ?thesis by (simp add: sha_update_def ipad_def)
qed

lemma hmac_outer:
  assumes "sha256_reps c2 (ipad (hmac_key key) @ msg)" "length msg + 64 < 2 ^ 29"
  shows "\<exists>inner c3. sha256_end c2 = (inner, c3) \<and>
    fst (sha256_end (sha256_hash inner 32
      (sha256_hash (map (\<lambda>b. b XOR 0x5c) (hmac_key key)) 64 (sha256_begin c3)))) = hmac_sha256 key msg"
proof -
  define inner where "inner = fips_sha256 (ipad (hmac_key key) @ msg)"
  obtain c3 where c3: "sha256_end c2 = (inner, c3)" "sha_valid c3"
    using sha.finish_pair [OF assms(1)] assms(2) by (auto simp: sha_max_def inner_def)
  have "sha256_reps (sha_update inner (sha_update (opad (hmac_key key)) (sha256_begin c3)))
      (([] @ opad (hmac_key key)) @ inner)"
    by (intro sha.update_reps sha.start_reps c3) (simp_all add: sha_max_def inner_def)
  then have "fst (sha256_end (sha256_hash inner 32
      (sha256_hash (map (\<lambda>b. b XOR 0x5c) (hmac_key key)) 64 (sha256_begin c3)))) = hmac_sha256 key msg"
    by (simp add: sha_update_def sha.finish_digest sha_max_def hmac_sha256_def opad_def inner_def)
  with c3 show ?thesis by blast
qed

lemma sha256_hash_nonempty_reps:
  "sha256_reps c m \<Longrightarrow> length m + length d < 2 ^ 29 \<Longrightarrow>
   sha256_reps (if 0 < length d then sha256_hash d (of_nat (length d)) c else c) (m @ d)"
  using sha256_hash_reps [of c m d] by auto

text \<open>One message, a key of any length.\<close>

lemma hmac_one_part:
  assumes "length key < 2 ^ 29" "length msg + 64 < 2 ^ 29"
  shows "(let (k0, ctx) =
            (if length key > 64
             then let (d, ctx) = sha256_end (sha256_hash key (of_nat (length key)) (sha256_begin ctx_uninit))
                  in (d @ zeros 32, ctx)
             else (key @ zeros (64 - length key), ctx_uninit));
          pad = map (\<lambda>b. b XOR 0x36) k0;
          ctx = sha256_hash pad 64 (sha256_begin ctx);
          ctx = (if length msg > 0 then sha256_hash msg (of_nat (length msg)) ctx else ctx);
          (inner, ctx) = sha256_end ctx;
          pad = map (\<lambda>b. b XOR 0x5c) k0;
          ctx = sha256_hash inner 32 (sha256_hash pad 64 (sha256_begin ctx))
      in fst (sha256_end ctx)) = hmac_sha256 key msg"
  using hmac_two_parts [OF assms(1), of msg "[]"] assms(2) by simp

text \<open>Two parts, a key of 32 bytes padded with zeros.\<close>

lemma hmac_key32_two_parts:
  assumes "length key = 32" "length m1 + length m2 + 64 < 2 ^ 29"
  shows "(let k0 = key @ zeros 32;
          pad = map (\<lambda>b. b XOR 0x36) k0;
          ctx = sha256_hash pad 64 (sha256_begin ctx_uninit);
          ctx = (if length m1 > 0 then sha256_hash m1 (of_nat (length m1)) ctx else ctx);
          ctx = (if length m2 > 0 then sha256_hash m2 (of_nat (length m2)) ctx else ctx);
          (inner, ctx) = sha256_end ctx;
          pad = map (\<lambda>b. b XOR 0x5c) k0;
          ctx = sha256_hash inner 32 (sha256_hash pad 64 (sha256_begin ctx))
      in fst (sha256_end ctx)) = hmac_sha256 key (m1 @ m2)"
  using hmac_two_parts [of key m1 m2] assms by (simp add: Let_def)

text \<open>The same with a first part that is known not to be empty.\<close>

lemma hmac_key32_first:
  assumes "length key = 32" "length m1 = n" "0 < n" "w = of_nat n" "n + length m2 + 64 < 2 ^ 29"
  shows "(let k0 = key @ zeros 32;
          pad = map (\<lambda>b. b XOR 0x36) k0;
          ctx = sha256_hash pad 64 (sha256_begin ctx_uninit);
          ctx = sha256_hash m1 w ctx;
          ctx = (if length m2 > 0 then sha256_hash m2 (of_nat (length m2)) ctx else ctx);
          (inner, ctx) = sha256_end ctx;
          pad = map (\<lambda>b. b XOR 0x5c) k0;
          ctx = sha256_hash inner 32 (sha256_hash pad 64 (sha256_begin ctx))
      in fst (sha256_end ctx)) = hmac_sha256 key (m1 @ m2)"
  using hmac_key32_two_parts [OF assms(1), of m1 m2] assms(5) by (simp only: assms(2,3,4) if_True)

end
