(* ===== verification/ChaCha.thy ===== *)
theory ChaCha
  imports Sha256
begin

text \<open>
  The ChaCha20 stream cipher of \<open>src/src/Crypto/chacha256.c\<close>, portable path (a build without SSE2 and
  SSSE3): the core, the block function, the 64-bit block counter in two 32-bit words, and
  \<open>do_encrypt\<close> with the position it keeps between calls.

  The lemmas show that one call on a fresh context adds the key stream of blocks 0, 1, 2, ... to the
  message, so that a second call with the same key and nonce gives the message back.
\<close>

record ChaCha256Ctx =
  block_w :: "u32 list"
  input_w :: "u32 list"
  cpos :: nat
  internalRounds :: nat

text \<open>Eight lines of \<open>chacha_core\<close>: four additions and four rotations on the words \<open>a b c d\<close>.\<close>

definition quarter :: "nat \<Rightarrow> nat \<Rightarrow> nat \<Rightarrow> nat \<Rightarrow> u32 list \<Rightarrow> u32 list" where
  "quarter a b c d x =
     (let x = x[a := x ! a + x ! b]; x = x[d := rotl32 (x ! d XOR x ! a) 16];
          x = x[c := x ! c + x ! d]; x = x[b := rotl32 (x ! b XOR x ! c) 12];
          x = x[a := x ! a + x ! b]; x = x[d := rotl32 (x ! d XOR x ! a) 8];
          x = x[c := x ! c + x ! d]; x = x[b := rotl32 (x ! b XOR x ! c) 7]
      in x)"

definition core_round :: "u32 list \<Rightarrow> u32 list" where
  "core_round x =
     (let x = quarter 0 4 8 12 x; x = quarter 1 5 9 13 x;
          x = quarter 2 6 10 14 x; x = quarter 3 7 11 15 x;
          x = quarter 0 5 10 15 x; x = quarter 1 6 11 12 x;
          x = quarter 2 7 8 13 x; x = quarter 3 4 9 14 x
      in x)"

definition chacha_core :: "u32 list \<Rightarrow> nat \<Rightarrow> u32 list" where
  "chacha_core x r = (core_round ^^ r) x"

definition chacha_hash :: "u32 list \<Rightarrow> nat \<Rightarrow> u32 list" where
  "chacha_hash inp r = map2 (+) (chacha_core inp r) inp"

definition incrementSalsaCounter :: "u32 list \<Rightarrow> nat \<Rightarrow> u32 list \<times> u32 list" where
  "incrementSalsaCounter inp r =
     (let block = chacha_hash inp r;
          inp = inp[12 := inp ! 12 + 1];
          inp = (if inp ! 12 = 0 then inp[13 := inp ! 13 + 1] else inp)
      in (inp, block))"

text \<open>\<open>(unsigned char*) block\<close>: the words as bytes, little-endian.\<close>

definition block_bytes :: "u32 list \<Rightarrow> bytes" where
  "block_bytes block = concat (map (le_bytes 4) block)"

definition xor_block_512 :: "bytes \<Rightarrow> bytes \<Rightarrow> bytes" where
  "xor_block_512 inb prev = map (\<lambda>i. inb ! i XOR prev ! i) [0..<64]"

text \<open>The loop over blocks. \<open>ins\<close> is the input from \<open>in + i\<close> on, \<open>len\<close> bytes.\<close>

function encrypt_loop :: "nat \<Rightarrow> bytes \<Rightarrow> nat \<Rightarrow> u32 list \<Rightarrow> u32 list \<Rightarrow> bytes \<times> nat \<times> u32 list \<times> u32 list" where
  "encrypt_loop r ins pos inp block =
     (if length ins = 0 then ([], pos, inp, block)
      else let (inp, block) = incrementSalsaCounter inp r in
        if length ins \<ge> 64
        then let (out, rest) = encrypt_loop r (drop 64 ins) pos inp block
             in (xor_block_512 (take 64 ins) (block_bytes block) @ out, rest)
        else (xor_bytes (take (length ins - pos) ins) (drop pos (block_bytes block)),
              max pos (length ins), inp, block))"
  by pat_completeness auto
termination by (relation "measure (\<lambda>(r, ins, pos, inp, block). length ins)") auto

declare encrypt_loop.simps [simp del]

definition do_encrypt :: "bytes \<Rightarrow> nat \<Rightarrow> nat \<Rightarrow> u32 list \<Rightarrow> u32 list \<Rightarrow> bytes \<times> nat \<times> u32 list \<times> u32 list" where
  "do_encrypt ins r pos inp block =
     (let len = length ins;
          n = (if pos \<noteq> 0 then min len 64 - pos else 0);
          out0 = xor_bytes (take n ins) (drop pos (block_bytes block));
          rest = drop n ins;
          pos = (if length rest \<noteq> 0 then 0 else pos + n);
          (out, pos, inp, block) = encrypt_loop r rest pos inp block
      in (out0 @ out, pos, inp, block))"

text \<open>\<open>ChaCha256Init\<close>: \<open>memcpy\<close> of key and nonce into the word array.\<close>

definition words_le :: "bytes \<Rightarrow> nat \<Rightarrow> u32 list" where
  "words_le bs n = map (load32 bs) [0..<n]"

definition ChaCha256Init :: "bytes \<Rightarrow> bytes \<Rightarrow> nat \<Rightarrow> ChaCha256Ctx \<Rightarrow> ChaCha256Ctx" where
  "ChaCha256Init key iv rounds ctx =
     (let inp = (input_w ctx)[12 := 0, 13 := 0];
          inp = store_at 4 (words_le key 8) inp;
          inp = store_at 14 (words_le iv 2) inp;
          inp = inp[0 := 0x61707865, 1 := 0x3320646E, 2 := 0x79622D32, 3 := 0x6B206574]
      in ctx\<lparr>internalRounds := rounds div 2, cpos := 0, input_w := inp\<rparr>)"

definition ChaCha256Encrypt :: "ChaCha256Ctx \<Rightarrow> bytes \<Rightarrow> bytes \<times> ChaCha256Ctx" where
  "ChaCha256Encrypt ctx ins =
     (let (out, pos, inp, block) = do_encrypt ins (internalRounds ctx) (cpos ctx) (input_w ctx) (block_w ctx)
      in (out, ctx\<lparr>cpos := pos, input_w := inp, block_w := block\<rparr>))"

text \<open>A context on the stack before its initialisation.\<close>

definition chacha_uninit :: ChaCha256Ctx where
  "chacha_uninit = \<lparr>block_w = replicate 16 0, input_w = replicate 16 0, cpos = 0, internalRounds = 0\<rparr>"

section \<open>The key stream\<close>

fun keystream :: "nat \<Rightarrow> nat \<Rightarrow> u32 list \<Rightarrow> bytes" where
  "keystream r 0 inp = []"
| "keystream r (Suc n) inp = block_bytes (chacha_hash inp r) @ keystream r n (fst (incrementSalsaCounter inp r))"

lemma length_quarter [simp]: "length (quarter a b c d x) = length x"
  unfolding quarter_def Let_def by (simp only: length_list_update)

lemma length_core_round [simp]: "length (core_round x) = length x"
  unfolding core_round_def Let_def by (simp only: length_quarter)

lemma length_chacha_core [simp]: "length (chacha_core x r) = length x"
  by (induction r) (simp_all add: chacha_core_def)

lemma length_chacha_hash [simp]: "length (chacha_hash x r) = length x"
  by (simp add: chacha_hash_def)

lemma length_fst_inc [simp]: "length (fst (incrementSalsaCounter inp r)) = length inp"
  by (simp add: incrementSalsaCounter_def Let_def)

lemma snd_inc [simp]: "snd (incrementSalsaCounter inp r) = chacha_hash inp r"
  by (simp add: incrementSalsaCounter_def Let_def)

lemma length_block_bytes [simp]: "length (block_bytes b) = 4 * length b"
  by (induction b) (simp_all add: block_bytes_def)

lemma length_keystream: "length inp = 16 \<Longrightarrow> length (keystream r n inp) = 64 * n"
  by (induction n arbitrary: inp) simp_all

lemma xor_block_512_bytes:
  "length a = 64 \<Longrightarrow> length b = 64 \<Longrightarrow> xor_block_512 a b = xor_bytes a b"
  by (rule nth_equalityI) (simp_all add: xor_block_512_def nth_xor_bytes)

lemma encrypt_loop_keystream:
  "length inp = 16 \<Longrightarrow>
   fst (encrypt_loop r ins 0 inp block) = xor_bytes ins (keystream r ((length ins + 63) div 64) inp)"
proof (induction "length ins" arbitrary: ins inp block rule: less_induct)
  case less
  define inp' where "inp' = fst (incrementSalsaCounter inp r)"
  have inc: "incrementSalsaCounter inp r = (inp', chacha_hash inp r)"
    by (simp add: inp'_def prod_eq_iff)
  have len: "length inp' = 16" using less.prems by (simp add: inp'_def)
  show ?case
  proof (cases "64 \<le> length ins")
    case True
    have blocks: "(length ins + 63) div 64 = Suc ((length (drop 64 ins) + 63) div 64)"
      using True by (simp add: le_div_geq)
    have "fst (encrypt_loop r (drop 64 ins) 0 inp' (chacha_hash inp r)) =
        xor_bytes (drop 64 ins) (keystream r ((length (drop 64 ins) + 63) div 64) inp')"
      using True len by (intro less.hyps) simp_all
    moreover have "xor_bytes ins (block_bytes (chacha_hash inp r) @ ks) =
        xor_bytes (take 64 ins) (block_bytes (chacha_hash inp r)) @ xor_bytes (drop 64 ins) ks" for ks
      using xor_bytes_append [of "take 64 ins" "block_bytes (chacha_hash inp r)" "drop 64 ins" ks] True less.prems
      by simp
    ultimately show ?thesis
      unfolding blocks using True less.prems
      by (subst encrypt_loop.simps) (auto simp: inc xor_block_512_bytes split: prod.split)
  next
    case False
    then show ?thesis
    proof (cases ins)
      case Nil
      then show ?thesis by (simp add: encrypt_loop.simps)
    next
      case (Cons x xs)
      with False have "(length ins + 63) div 64 = Suc 0" by (simp add: div_if)
      with False Cons less.prems show ?thesis
        by (subst encrypt_loop.simps) (simp add: inc)
    qed
  qed
qed

lemma encrypt_fresh:
  assumes "cpos ctx = 0" "length (input_w ctx) = 16"
  shows "fst (ChaCha256Encrypt ctx ins) =
    xor_bytes ins (keystream (internalRounds ctx) ((length ins + 63) div 64) (input_w ctx))"
  using encrypt_loop_keystream [OF assms(2), of "internalRounds ctx" ins "block_w ctx"] assms(1)
  by (auto simp: ChaCha256Encrypt_def do_encrypt_def Let_def split: prod.split)

lemma length_input_Init [simp]:
  "length (input_w ctx) = 16 \<Longrightarrow> length (input_w (ChaCha256Init key iv rounds ctx)) = 16"
  by (simp add: ChaCha256Init_def words_le_def length_store_at)

lemma cpos_Init [simp]: "cpos (ChaCha256Init key iv rounds ctx) = 0"
  by (simp add: ChaCha256Init_def Let_def)

definition chacha20 :: "bytes \<Rightarrow> bytes \<Rightarrow> bytes \<Rightarrow> bytes" where
  "chacha20 key iv m = fst (ChaCha256Encrypt (ChaCha256Init key iv 20 chacha_uninit) m)"

lemma chacha20_keystream:
  "chacha20 key iv m = xor_bytes m (keystream 10 ((length m + 63) div 64)
     (input_w (ChaCha256Init key iv 20 chacha_uninit)))"
  unfolding chacha20_def
  by (subst encrypt_fresh) (simp_all add: chacha_uninit_def, simp add: ChaCha256Init_def Let_def)

lemma length_chacha20 [simp, len_simps]: "length (chacha20 key iv m) = length m"
  by (simp add: chacha20_keystream length_keystream chacha_uninit_def)

lemma chacha20_involution: "chacha20 key iv (chacha20 key iv m) = m"
  by (subst (1) chacha20_keystream) (subst chacha20_keystream, simp add: length_keystream chacha_uninit_def)

text \<open>For any number of rounds: the output is as long as the input, and encrypting twice from the same
  fresh context is the identity.\<close>

lemma encrypt_fresh_twice:
  assumes "cpos ctx = 0" "length (input_w ctx) = 16"
  shows "length (fst (ChaCha256Encrypt ctx m)) = length m"
    "fst (ChaCha256Encrypt ctx (fst (ChaCha256Encrypt ctx m))) = m"
proof -
  show "length (fst (ChaCha256Encrypt ctx m)) = length m"
    by (simp add: encrypt_fresh [OF assms] length_keystream assms(2))
  then show "fst (ChaCha256Encrypt ctx (fst (ChaCha256Encrypt ctx m))) = m"
    by (subst (1) encrypt_fresh [OF assms]) (simp add: encrypt_fresh [OF assms] length_keystream assms(2))
qed

end
