(* ===== verification/Keyslot.thy ===== *)
theory Keyslot
  imports Hmac ChaCha
begin

text \<open>
  The wrapping of the volume master key, \<open>src/src/Common/Keyslot.c\<close>: ChaCha20 under the first 40 bytes
  of the derived key, HMAC-SHA-256 under the last 32 as the tag and as the selector. A pair of a pointer
  and a length is a byte list; an output buffer is passed with its old contents and returned. The key
  derivation function is an argument, as in the code (\<open>KeyslotKdfFn\<close>). The wipes of locals are not
  modelled.
\<close>

definition ks_hmac_sha256 :: "bytes \<Rightarrow> bytes \<Rightarrow> bytes \<Rightarrow> bytes" where
  "ks_hmac_sha256 key m1 m2 =
     (let (k0, ctx) =
            (if length key > 64
             then let (d, ctx) = sha256_end (sha256_hash key (of_nat (length key)) (sha256_begin ctx_uninit))
                  in (d @ zeros 32, ctx)
             else (key @ zeros (64 - length key), ctx_uninit));
          pad = map (\<lambda>b. b XOR 0x36) k0;
          ctx = sha256_hash pad 64 (sha256_begin ctx);
          ctx = (if length m1 > 0 then sha256_hash m1 (of_nat (length m1)) ctx else ctx);
          ctx = (if length m2 > 0 then sha256_hash m2 (of_nat (length m2)) ctx else ctx);
          (inner, ctx) = sha256_end ctx;
          pad = map (\<lambda>b. b XOR 0x5c) k0;
          ctx = sha256_hash inner 32 (sha256_hash pad 64 (sha256_begin ctx))
      in fst (sha256_end ctx))"

definition KeyslotConstTimeEqual :: "bytes \<Rightarrow> bytes \<Rightarrow> nat \<Rightarrow> int" where
  "KeyslotConstTimeEqual a b len =
     (let d = fold (\<lambda>i d. d OR (a ! i XOR b ! i)) [0..<len] 0 in if d = 0 then 1 else 0)"

definition KeyslotWrapWithDK :: "bytes \<Rightarrow> bytes \<Rightarrow> bytes \<Rightarrow> bytes \<times> bytes" where
  "KeyslotWrapWithDK dk aad vmk =
     (let cc = ChaCha256Init (slice 0 32 dk) (slice 32 8 dk) 20 chacha_uninit;
          (ct, cc) = ChaCha256Encrypt cc vmk;
          tag = ks_hmac_sha256 (slice 40 32 dk) aad ct
      in (ct, tag))"

definition KeyslotUnwrapWithDK :: "bytes \<Rightarrow> bytes \<Rightarrow> bytes \<Rightarrow> bytes \<Rightarrow> bytes \<Rightarrow> int \<times> bytes" where
  "KeyslotUnwrapWithDK dk aad ct tag vmkOut =
     (let calc = ks_hmac_sha256 (slice 40 32 dk) aad ct;
          ok = KeyslotConstTimeEqual calc tag 32
      in if ok \<noteq> 0
         then let cc = ChaCha256Init (slice 0 32 dk) (slice 32 8 dk) 20 chacha_uninit;
                  (pt, cc) = ChaCha256Encrypt cc ct
              in (ok, store_at 0 pt vmkOut)
         else (ok, vmkOut))"

type_synonym kdf_fn = "bytes \<Rightarrow> bytes \<Rightarrow> u32 \<Rightarrow> nat \<Rightarrow> bytes"

definition KeyslotUnwrapCT ::
  "kdf_fn \<Rightarrow> u32 \<Rightarrow> bytes \<Rightarrow> bytes \<Rightarrow> bytes \<Rightarrow> bytes \<Rightarrow> bytes \<Rightarrow> bytes \<Rightarrow> int \<times> bytes" where
  "KeyslotUnwrapCT kdf cost pass salt aad ct tag vmkOut =
     (let dk = kdf pass salt cost 72;
          calc = ks_hmac_sha256 (slice 40 32 dk) aad ct;
          ok = KeyslotConstTimeEqual calc tag 32;
          cc = ChaCha256Init (slice 0 32 dk) (slice 32 8 dk) 20 chacha_uninit;
          (pt, cc) = ChaCha256Encrypt cc ct
      in (ok, store_at 0 pt vmkOut))"

definition KeyslotWrap ::
  "kdf_fn \<Rightarrow> u32 \<Rightarrow> bytes \<Rightarrow> bytes \<Rightarrow> bytes \<Rightarrow> bytes \<Rightarrow> bytes \<times> bytes" where
  "KeyslotWrap kdf cost pass salt aad vmk = KeyslotWrapWithDK (kdf pass salt cost 72) aad vmk"

definition KeyslotUnwrap ::
  "kdf_fn \<Rightarrow> u32 \<Rightarrow> bytes \<Rightarrow> bytes \<Rightarrow> bytes \<Rightarrow> bytes \<Rightarrow> bytes \<Rightarrow> bytes \<Rightarrow> int \<times> bytes" where
  "KeyslotUnwrap kdf cost pass salt aad ct tag vmkOut =
     KeyslotUnwrapWithDK (kdf pass salt cost 72) aad ct tag vmkOut"

section \<open>The pieces\<close>

lemma ks_hmac_sha256_rfc:
  "length key < 2 ^ 29 \<Longrightarrow> length m1 + length m2 + 64 < 2 ^ 29 \<Longrightarrow>
   ks_hmac_sha256 key m1 m2 = hmac_sha256 key (m1 @ m2)"
  unfolding ks_hmac_sha256_def by (rule hmac_two_parts)

lemma KeyslotConstTimeEqual_iff:
  "length a = n \<Longrightarrow> length b = n \<Longrightarrow>
   KeyslotConstTimeEqual a b n = (if a = b then 1 else 0)"
  by (simp add: KeyslotConstTimeEqual_def fold_or_diff)

text \<open>The cipher of the two directions is the same function.\<close>

definition dk_cipher :: "bytes \<Rightarrow> bytes \<Rightarrow> bytes" where
  "dk_cipher dk m = chacha20 (slice 0 32 dk) (slice 32 8 dk) m"

lemma dk_cipher_code:
  "fst (ChaCha256Encrypt (ChaCha256Init (slice 0 32 dk) (slice 32 8 dk) 20 chacha_uninit) m) = dk_cipher dk m"
  by (simp add: dk_cipher_def chacha20_def)

lemma length_dk_cipher [simp, len_simps]: "length (dk_cipher dk m) = length m"
  by (simp add: dk_cipher_def)

lemma dk_cipher_involution [simp]: "dk_cipher dk (dk_cipher dk m) = m"
  by (simp add: dk_cipher_def chacha20_involution)

definition dk_tag :: "bytes \<Rightarrow> bytes \<Rightarrow> bytes \<Rightarrow> bytes" where
  "dk_tag dk aad ct = hmac_sha256 (slice 40 32 dk) (aad @ ct)"

lemma length_dk_tag [simp, len_simps]: "length (dk_tag dk aad ct) = 32"
  by (simp add: dk_tag_def)

lemma dk_tag_code:
  "length aad + length ct < 2 ^ 28 \<Longrightarrow> ks_hmac_sha256 (slice 40 32 dk) aad ct = dk_tag dk aad ct"
  unfolding dk_tag_def by (rule ks_hmac_sha256_rfc) simp_all

section \<open>Wrapping and unwrapping\<close>

text \<open>Encrypt then authenticate: the tag is over the additional data and the cipher text.\<close>

lemma KeyslotWrapWithDK_spec:
  "length aad + length vmk < 2 ^ 28 \<Longrightarrow>
   KeyslotWrapWithDK dk aad vmk = (dk_cipher dk vmk, dk_tag dk aad (dk_cipher dk vmk))"
  using dk_cipher_code [of dk vmk] dk_tag_code [of aad "dk_cipher dk vmk" dk]
  by (auto simp: KeyslotWrapWithDK_def split: prod.splits)

lemma KeyslotUnwrapWithDK_spec:
  "length aad + length ct < 2 ^ 28 \<Longrightarrow> length tag = 32 \<Longrightarrow>
   KeyslotUnwrapWithDK dk aad ct tag vmkOut =
     (if tag = dk_tag dk aad ct then (1, store_at 0 (dk_cipher dk ct) vmkOut) else (0, vmkOut))"
  using dk_cipher_code [of dk ct]
  by (auto simp: KeyslotUnwrapWithDK_def KeyslotConstTimeEqual_iff dk_tag_code Let_def split: prod.splits)

text \<open>The constant-time variant writes the decryption whether or not the tag matches.\<close>

lemma KeyslotUnwrapCT_spec:
  "length aad + length ct < 2 ^ 28 \<Longrightarrow> length tag = 32 \<Longrightarrow>
   KeyslotUnwrapCT kdf cost pass salt aad ct tag vmkOut =
     (let dk = kdf pass salt cost 72
      in (if tag = dk_tag dk aad ct then 1 else 0, store_at 0 (dk_cipher dk ct) vmkOut))"
  using dk_cipher_code [of "kdf pass salt cost 72" ct]
  by (auto simp: KeyslotUnwrapCT_def KeyslotConstTimeEqual_iff dk_tag_code Let_def split: prod.splits)

end
