(* ===== verification/KeyslotArea.thy ===== *)
theory KeyslotArea
  imports Prelude
begin

text \<open>
  The medium keyslot records live on. \<open>KeyslotArea\<close> (\<open>src/src/Common/KeyslotStore.h\<close>) is a
  structure of three callbacks and a context; the record below has the same fields, with the context a
  type variable. A read that the C code reports as failed is \<open>None\<close>; a write returns the code's
  result and the new context.

  The locale \<open>byte_area\<close> is the contract the key slot code relies on: an array of bytes with bounds
  checks. \<open>KeyslotAreaFile.c\<close> provides it for a window of a file, and is interpreted below. A \<open>FILE\<close>
  is its bytes and whether it was opened for writing; every access seeks first, so the position is not
  part of the state. Seeking to an offset of 2^63 or more fails, a short read fails, and a write
  beyond the end extends the file, as the C library documents.
\<close>

section \<open>The interface\<close>

record 'c KeyslotArea =
  ka_read :: "'c \<Rightarrow> u64 \<Rightarrow> nat \<Rightarrow> bytes option"
  ka_write :: "'c \<Rightarrow> u64 \<Rightarrow> bytes \<Rightarrow> int \<times> 'c"
  ka_size :: "'c \<Rightarrow> u64"
  ka_ctx :: 'c

definition area_read :: "'c KeyslotArea \<Rightarrow> u64 \<Rightarrow> nat \<Rightarrow> bytes option" where
  "area_read area off n = ka_read area (ka_ctx area) off n"

definition area_write :: "'c KeyslotArea \<Rightarrow> u64 \<Rightarrow> bytes \<Rightarrow> int \<times> 'c KeyslotArea" where
  "area_write area off bs =
     (let (rc, c) = ka_write area (ka_ctx area) off bs in (rc, area\<lparr>ka_ctx := c\<rparr>))"

definition area_size :: "'c KeyslotArea \<Rightarrow> u64" where
  "area_size area = ka_size area (ka_ctx area)"

text \<open>The area with given callbacks and context.\<close>

definition area_of :: "('c \<Rightarrow> u64 \<Rightarrow> nat \<Rightarrow> bytes option) \<Rightarrow> ('c \<Rightarrow> u64 \<Rightarrow> bytes \<Rightarrow> int \<times> 'c) \<Rightarrow> ('c \<Rightarrow> u64)
    \<Rightarrow> 'c \<Rightarrow> 'c KeyslotArea" where
  "area_of rd wr sz c = \<lparr>ka_read = rd, ka_write = wr, ka_size = sz, ka_ctx = c\<rparr>"

lemma area_of_simps [simp]:
  "area_read (area_of rd wr sz c) = rd c" "area_size (area_of rd wr sz c) = sz c"
  "area_write (area_of rd wr sz c) off bs = (let (rc, c') = wr c off bs in (rc, area_of rd wr sz c'))"
  by (simp_all add: area_of_def area_read_def area_size_def area_write_def fun_eq_iff)

lemma area_of_inject [simp]: "area_of rd wr sz c = area_of rd wr sz c' \<longleftrightarrow> c = c'"
  by (simp add: area_of_def)

locale byte_area =
  fixes rd :: "'c \<Rightarrow> u64 \<Rightarrow> nat \<Rightarrow> bytes option"
    and wr :: "'c \<Rightarrow> u64 \<Rightarrow> bytes \<Rightarrow> int \<times> 'c"
    and sz :: "'c \<Rightarrow> u64"
    and contents :: "'c \<Rightarrow> bytes"
    and good :: "'c \<Rightarrow> bool"
  assumes size_bound: "good c \<Longrightarrow> length (contents c) < 2 ^ 63"
    and size_eq: "good c \<Longrightarrow> unat (sz c) = length (contents c)"
    and read_in: "good c \<Longrightarrow> unat off + n \<le> length (contents c) \<Longrightarrow>
      rd c off n = Some (slice (unat off) n (contents c))"
    and read_out: "good c \<Longrightarrow> length (contents c) < unat off + n \<Longrightarrow> n < 2 ^ 63 \<Longrightarrow> rd c off n = None"
    and write_in: "good c \<Longrightarrow> unat off + length bs \<le> length (contents c) \<Longrightarrow>
      \<exists>c'. wr c off bs = (0, c') \<and> good c' \<and> contents c' = store_at (unat off) bs (contents c)"
    and write_out: "good c \<Longrightarrow> length (contents c) < unat off + length bs \<Longrightarrow> length bs < 2 ^ 63 \<Longrightarrow>
      wr c off bs = (- 1, c)"
begin

lemma read_Some_iff:
  assumes "good c" "n < 2 ^ 63"
  shows "rd c off n = Some b \<longleftrightarrow> unat off + n \<le> length (contents c) \<and> b = slice (unat off) n (contents c)"
  using read_in [OF assms(1), of off n] read_out [OF assms(1) _ assms(2), of off]
  by (cases "unat off + n \<le> length (contents c)") (auto simp: not_le)

lemma write_result:
  assumes "good c" "length bs < 2 ^ 63" "wr c off bs = (rc, c')"
  shows "good c'" "length (contents c') = length (contents c)"
    "rc = 0 \<longleftrightarrow> unat off + length bs \<le> length (contents c)"
    "contents c' = (if rc = 0 then store_at (unat off) bs (contents c) else contents c)"
  using assms write_in [OF assms(1), of off bs] write_out [OF assms(1) _ assms(2), of off]
  by (cases "unat off + length bs \<le> length (contents c)"; auto simp: not_le length_store_at)+

text \<open>What was written is read back, and a read elsewhere is not affected.\<close>

lemma read_after_write:
  assumes "good c" "length bs < 2 ^ 63" "wr c off bs = (0, c')"
  shows "rd c' off (length bs) = Some bs"
proof -
  note w = write_result [OF assms]
  show ?thesis using w by (subst read_in) (simp_all add: slice_store_same)
qed

lemma read_frame:
  assumes "good c" "length bs < 2 ^ 63" "wr c off bs = (rc, c')" "n < 2 ^ 63"
    "unat off' + n \<le> unat off \<or> unat off + length bs \<le> unat off'"
  shows "rd c' off' n = rd c off' n"
proof -
  note w = write_result [OF assms(1-3)]
  show ?thesis
  proof (cases "unat off' + n \<le> length (contents c)")
    case True
    have "slice (unat off') n (contents c') = slice (unat off') n (contents c)"
      using w assms(5) by (auto simp: slice_store_before slice_store_after)
    then show ?thesis using True w assms(1) by (simp add: read_in)
  next
    case False
    then show ?thesis using w assms(1,4) by (simp add: read_out)
  qed
qed

end

section \<open>A window of a file\<close>

record c_file =
  fdata :: bytes
  fwritable :: bool

record KeyslotAreaFile =
  af_f :: "c_file ptr"
  af_base :: u64
  af_len :: u64

text \<open>\<open>fseeko\<close> with a signed offset; \<open>fread\<close> of exactly \<open>n\<close> bytes; \<open>fwrite\<close>.\<close>

definition file_get :: "nat \<Rightarrow> nat \<Rightarrow> c_file \<Rightarrow> bytes option" where
  "file_get p n fl = (if p + n \<le> length (fdata fl) then Some (slice p n (fdata fl)) else None)"

definition file_put :: "nat \<Rightarrow> bytes \<Rightarrow> c_file \<Rightarrow> c_file option" where
  "file_put p bs fl = (if fwritable fl
     then Some (fl\<lparr>fdata := store_at p bs (fdata fl @ zeros (p - length (fdata fl)))\<rparr>) else None)"

definition ksaf_seek :: "KeyslotAreaFile \<Rightarrow> u64 \<Rightarrow> nat option" where
  "ksaf_seek c off = (let p = af_base c + off in if unat p < 2 ^ 63 then Some (unat p) else None)"

definition ksaf_read :: "KeyslotAreaFile \<Rightarrow> u64 \<Rightarrow> nat \<Rightarrow> bytes option" where
  "ksaf_read c off n =
     (case af_f c of None \<Rightarrow> None
      | Some fl \<Rightarrow>
        if off + of_nat n > af_len c \<or> off + of_nat n < off then None
        else case ksaf_seek c off of None \<Rightarrow> None | Some p \<Rightarrow> file_get p n fl)"

definition ksaf_write :: "KeyslotAreaFile \<Rightarrow> u64 \<Rightarrow> bytes \<Rightarrow> int \<times> KeyslotAreaFile" where
  "ksaf_write c off bs =
     (case af_f c of None \<Rightarrow> (- 1, c)
      | Some fl \<Rightarrow>
        if off + of_nat (length bs) > af_len c \<or> off + of_nat (length bs) < off then (- 1, c)
        else case ksaf_seek c off of None \<Rightarrow> (- 1, c)
        | Some p \<Rightarrow> (case file_put p bs fl of None \<Rightarrow> (- 1, c)
                   | Some fl' \<Rightarrow> (0, c\<lparr>af_f := Some fl'\<rparr>)))"

definition ksaf_size :: "KeyslotAreaFile \<Rightarrow> u64" where
  "ksaf_size c = af_len c"

text \<open>\<open>opened\<close> is what \<open>fopen\<close> returned.\<close>

definition KeyslotAreaFileOpen :: "c_file ptr \<Rightarrow> KeyslotAreaFile \<Rightarrow> int \<times> KeyslotAreaFile" where
  "KeyslotAreaFileOpen opened ctx =
     (if opened \<noteq> NULL then 0 else - 1, ctx\<lparr>af_f := opened, af_base := 0, af_len := 0\<rparr>)"

definition KeyslotAreaFileClose :: "KeyslotAreaFile \<Rightarrow> KeyslotAreaFile" where
  "KeyslotAreaFileClose ctx =
     (let ctx = (if af_f ctx \<noteq> NULL then ctx\<lparr>af_f := NULL\<rparr> else ctx)
      in ctx\<lparr>af_base := 0, af_len := 0\<rparr>)"

definition KeyslotAreaBindWindow :: "KeyslotAreaFile \<Rightarrow> u64 \<Rightarrow> u64 \<Rightarrow> KeyslotAreaFile KeyslotArea" where
  "KeyslotAreaBindWindow ctx b l =
     \<lparr>ka_read = ksaf_read, ka_write = ksaf_write, ka_size = ksaf_size,
      ka_ctx = ctx\<lparr>af_base := b, af_len := l\<rparr>\<rparr>"

definition KeyslotAreaBindSidecar :: "KeyslotAreaFile \<Rightarrow> KeyslotAreaFile KeyslotArea option" where
  "KeyslotAreaBindSidecar ctx =
     (case af_f ctx of None \<Rightarrow> None
      | Some fl \<Rightarrow> Some (KeyslotAreaBindWindow ctx 0 (of_nat (length (fdata fl)))))"

definition TC_VOLUME_HEADER_SIZE :: u64 where "TC_VOLUME_HEADER_SIZE = 64 * 1024"
definition TC_VOLUME_HEADER_EFFECTIVE_SIZE :: u64 where "TC_VOLUME_HEADER_EFFECTIVE_SIZE = 512"

definition KeyslotAreaBindHeaderSlack :: "KeyslotAreaFile \<Rightarrow> KeyslotAreaFile KeyslotArea" where
  "KeyslotAreaBindHeaderSlack ctx =
     KeyslotAreaBindWindow ctx TC_VOLUME_HEADER_EFFECTIVE_SIZE
       (TC_VOLUME_HEADER_SIZE - TC_VOLUME_HEADER_EFFECTIVE_SIZE)"

definition KeyslotAreaBindDeniable ::
  "KeyslotAreaFile \<Rightarrow> u64 \<Rightarrow> u64 \<Rightarrow> u64 \<Rightarrow> KeyslotAreaFile KeyslotArea option" where
  "KeyslotAreaBindDeniable ctx freeStart freeEnd hiddenReservedStart =
     (let stop = freeEnd;
          stop = (if hiddenReservedStart \<noteq> 0 \<and> hiddenReservedStart < stop then hiddenReservedStart else stop)
      in if freeStart \<ge> stop \<or> stop - freeStart < 1024 then None
         else Some (KeyslotAreaBindWindow ctx freeStart (stop - freeStart)))"

section \<open>The window is a byte array\<close>

definition ksaf_good :: "KeyslotAreaFile \<Rightarrow> bool" where
  "ksaf_good c \<longleftrightarrow> (case af_f c of None \<Rightarrow> False
     | Some fl \<Rightarrow> fwritable fl \<and> unat (af_base c) + unat (af_len c) \<le> length (fdata fl) \<and>
         length (fdata fl) < 2 ^ 63)"

definition ksaf_contents :: "KeyslotAreaFile \<Rightarrow> bytes" where
  "ksaf_contents c = (case af_f c of None \<Rightarrow> []
     | Some fl \<Rightarrow> slice (unat (af_base c)) (unat (af_len c)) (fdata fl))"

lemma ksaf_goodE:
  assumes "ksaf_good c"
  obtains fl where "af_f c = Some fl" "fwritable fl" "length (fdata fl) < 2 ^ 63"
    "unat (af_base c) + unat (af_len c) \<le> length (fdata fl)"
    "length (ksaf_contents c) = unat (af_len c)"
  using assms by (auto simp: ksaf_good_def ksaf_contents_def split: option.splits)

text \<open>The two word comparisons of the bounds check amount to the check on natural numbers.\<close>

lemma window_check:
  assumes "n < 2 ^ 63" "unat (l :: u64) < 2 ^ 63"
  shows "(off + of_nat n > l \<or> off + of_nat n < off) \<longleftrightarrow> unat l < unat (off :: u64) + n"
proof -
  have n: "unat (of_nat n :: u64) = n" using assms(1) by (simp add: unat_of_nat take_bit_nat_eq_self)
  show ?thesis
  proof (cases "unat off + n < 2 ^ 64")
    case True
    then have "unat (off + of_nat n) = unat off + n" by (simp add: unat_word_ariths n)
    then show ?thesis by (auto simp: word_less_nat_alt)
  next
    case False
    have lt: "unat off < 2 ^ 64" using unsigned_less [of off] by simp
    have "unat (off + of_nat n) = (unat off + n) mod 2 ^ 64" by (simp add: unat_word_ariths n)
    also have "\<dots> = unat off + n - 2 ^ 64"
      using False lt assms(1) by (simp add: le_mod_geq)
    also have "\<dots> < unat off" using False assms(1) by simp
    finally have "off + of_nat n < off" by (simp add: word_less_nat_alt)
    then show ?thesis using False assms(2) by simp
  qed
qed

lemma ksaf_seek_good:
  assumes "ksaf_good c" "unat off \<le> unat (af_len c)"
  shows "ksaf_seek c off = Some (unat (af_base c) + unat off)"
proof -
  obtain fl where "unat (af_base c) + unat (af_len c) < 2 ^ 63"
    using assms(1) by (auto elim!: ksaf_goodE)
  then have "unat (af_base c + off) = unat (af_base c) + unat off" "unat (af_base c) + unat off < 2 ^ 63"
    using assms(2) by (simp_all add: unat_word_ariths)
  then show ?thesis by (simp add: ksaf_seek_def)
qed

lemma store_slice_window:
  assumes "b + l \<le> length d" "off + length bs \<le> l"
  shows "slice b l (store_at (b + off) bs d) = store_at off bs (slice b l d)"
  using assms
  by (intro nth_equalityI)
     (auto simp: length_store_at nth_slice nth_store_at)

text \<open>A write changes the bytes of its own range of the file and nothing else.\<close>

lemma ksaf_write_file:
  assumes "ksaf_good c" "unat off + length bs \<le> unat (af_len c)" "af_f c = Some fl"
  shows "ksaf_write c off bs =
    (0, c\<lparr>af_f := Some (fl\<lparr>fdata := store_at (unat (af_base c) + unat off) bs (fdata fl)\<rparr>)\<rparr>)"
proof -
  have len: "unat (af_base c) + unat (af_len c) \<le> length (fdata fl)" "length (fdata fl) < 2 ^ 63"
    "fwritable fl"
    using assms(1,3) by (auto elim!: ksaf_goodE)
  then have "\<not> (off + of_nat (length bs) > af_len c \<or> off + of_nat (length bs) < off)"
    using assms(2) by (subst window_check) simp_all
  then show ?thesis
    using len assms ksaf_seek_good [OF assms(1), of off]
    by (simp add: ksaf_write_def file_put_def zeros_def)
qed

interpretation ksaf: byte_area ksaf_read ksaf_write ksaf_size ksaf_contents ksaf_good
proof unfold_locales
  fix c :: KeyslotAreaFile and off :: u64 and n :: nat and bs :: bytes
  assume g: "ksaf_good c"
  then obtain fl where fl: "af_f c = Some fl" "fwritable fl" "length (fdata fl) < 2 ^ 63"
    "unat (af_base c) + unat (af_len c) \<le> length (fdata fl)"
    "length (ksaf_contents c) = unat (af_len c)" by (rule ksaf_goodE)
  have l63: "unat (af_len c) < 2 ^ 63" using fl by simp
  show "length (ksaf_contents c) < 2 ^ 63" using fl by simp
  show "unat (ksaf_size c) = length (ksaf_contents c)" using fl by (simp add: ksaf_size_def)
  show "ksaf_read c off n = Some (slice (unat off) n (ksaf_contents c))"
    if "unat off + n \<le> length (ksaf_contents c)"
  proof -
    have "\<not> (off + of_nat n > af_len c \<or> off + of_nat n < off)"
      using that l63 fl by (subst window_check) simp_all
    then show ?thesis
      using that fl ksaf_seek_good [OF g, of off]
      by (simp add: ksaf_read_def file_get_def ksaf_contents_def slice_slice)
  qed
  show "ksaf_read c off n = None" if "length (ksaf_contents c) < unat off + n" "n < 2 ^ 63"
    using that fl window_check [OF that(2) l63, of off] by (simp add: ksaf_read_def)
  show "ksaf_write c off bs = (- 1, c)"
    if "length (ksaf_contents c) < unat off + length bs" "length bs < 2 ^ 63"
    using that fl window_check [OF that(2) l63, of off] by (simp add: ksaf_write_def)
  show "\<exists>c'. ksaf_write c off bs = (0, c') \<and> ksaf_good c' \<and>
      ksaf_contents c' = store_at (unat off) bs (ksaf_contents c)"
    if "unat off + length bs \<le> length (ksaf_contents c)"
    using that fl ksaf_write_file [OF g _ fl(1), of off bs]
    by (simp add: ksaf_good_def ksaf_contents_def length_store_at store_slice_window)
qed

text \<open>A window bound with its extent inside a writable file satisfies the contract.\<close>

lemma BindWindow_good:
  assumes "af_f ctx = Some fl" "fwritable fl" "length (fdata fl) < 2 ^ 63"
    "unat b + unat l \<le> length (fdata fl)"
  shows "ksaf_good (ka_ctx (KeyslotAreaBindWindow ctx b l))"
    "ksaf_contents (ka_ctx (KeyslotAreaBindWindow ctx b l)) = slice (unat b) (unat l) (fdata fl)"
  using assms by (simp_all add: KeyslotAreaBindWindow_def ksaf_good_def ksaf_contents_def)

text \<open>Whatever is written, and whether or not it succeeds, the file outside the window is unchanged.\<close>

lemma ksaf_write_frame:
  assumes "ksaf_good c" "length bs < 2 ^ 63" "af_f c = Some fl" "ksaf_write c off bs = (rc, c')"
  shows "\<exists>fl'. af_f c' = Some fl' \<and> length (fdata fl') = length (fdata fl) \<and>
    (\<forall>i. i < unat (af_base c) \<or> unat (af_base c) + unat (af_len c) \<le> i \<longrightarrow> fdata fl' ! i = fdata fl ! i)"
proof (cases "unat off + length bs \<le> unat (af_len c)")
  case True
  have len: "unat (af_base c) + unat (af_len c) \<le> length (fdata fl)"
    using assms(1,3) by (auto elim!: ksaf_goodE)
  have "fdata fl ! i = store_at (unat (af_base c) + unat off) bs (fdata fl) ! i"
    if "i < unat (af_base c) \<or> unat (af_base c) + unat (af_len c) \<le> i" for i
    using that True len
    by (cases "i < length (fdata fl)")
       (auto simp: nth_store_at, auto simp: store_at_def nth_append)
  then show ?thesis
    using ksaf_write_file [OF assms(1) True assms(3)] assms(4) True len
    by (auto simp: length_store_at)
next
  case False
  then have "ksaf_write c off bs = (- 1, c)"
    using assms(1,2) by (intro ksaf.write_out) (auto elim!: ksaf_goodE)
  with assms(3,4) show ?thesis by auto
qed

lemma ksaf_write_window:
  assumes "ksaf_write c off bs = (rc, c')"
  shows "af_base c' = af_base c" "af_len c' = af_len c"
  using assms by (auto simp: ksaf_write_def split: option.splits if_splits)

text \<open>The deniable area: from the start of the free space, before its end and before the hidden volume.\<close>

lemma BindDeniable_window:
  assumes "KeyslotAreaBindDeniable ctx freeStart freeEnd hiddenReservedStart = Some area"
  shows "\<exists>n. area = KeyslotAreaBindWindow ctx freeStart n \<and> unat freeStart + unat n \<le> unat freeEnd \<and>
    (hiddenReservedStart \<noteq> 0 \<longrightarrow> unat freeStart + unat n \<le> unat hiddenReservedStart)"
proof -
  define stop where "stop = (if hiddenReservedStart \<noteq> 0 \<and> hiddenReservedStart < freeEnd then hiddenReservedStart else freeEnd)"
  have a: "freeStart < stop" "area = KeyslotAreaBindWindow ctx freeStart (stop - freeStart)"
    using assms by (auto simp: KeyslotAreaBindDeniable_def Let_def stop_def not_le split: if_splits)
  have "unat freeStart + unat (stop - freeStart) = unat stop"
    using a(1) by (simp add: unat_sub_if' word_less_nat_alt word_le_nat_alt)
  moreover have "unat stop \<le> unat freeEnd" "hiddenReservedStart \<noteq> 0 \<Longrightarrow> unat stop \<le> unat hiddenReservedStart"
    by (auto simp: stop_def word_less_nat_alt)
  ultimately show ?thesis using a(2) by (intro exI [of _ "stop - freeStart"]) auto
qed

end
