(* ===== verification/AfSplit.thy ===== *)
theory AfSplit
  imports Hmac
begin

text \<open>
  The anti-forensic splitter of \<open>src/src/Common/AfSplit.c\<close>: \<open>af_xor\<close>, \<open>af_diffuse\<close>, \<open>AfSplit\<close>
  and \<open>AfMerge\<close>. The local arrays \<open>buf\<close> and \<open>t\<close> have 1024 bytes of which the code touches the
  first \<open>n\<close>; the model keeps these \<open>n\<close>. A random generator is a function of the number of bytes and
  its own state \<open>'g\<close>; a null function pointer is \<open>NULL\<close>. The wipes of the locals before the return
  have no effect a caller can see and are left out.
\<close>

type_synonym 'g rng_fn = "nat \<Rightarrow> 'g \<Rightarrow> bytes \<times> 'g"

definition af_xor :: "bytes \<Rightarrow> bytes \<Rightarrow> nat \<Rightarrow> bytes" where
  "af_xor a b n = map (\<lambda>i. a ! i XOR b ! i) [0..<n]"

definition af_diffuse :: "bytes \<Rightarrow> nat \<Rightarrow> bytes" where
  "af_diffuse src n =
     (let full = n div 32; rem = n mod 32
      in concat (map (\<lambda>i.
           let tk = (if i < full then 32 else rem);
               iv = be_bytes 4 (of_nat i :: u32);
               c = sha256_begin ctx_uninit;
               c = sha256_hash iv 4 c;
               c = sha256_hash (slice (i * 32) tk src) (of_nat tk) c;
               (h, c) = sha256_end c
           in take tk h) [0..<full + (if rem \<noteq> 0 then 1 else 0)]))"

text \<open>One round of the loop of \<open>AfSplit\<close>: draw a stripe, mix it into the running block, diffuse.\<close>

definition af_split_step :: "'g rng_fn \<Rightarrow> nat \<Rightarrow> nat \<Rightarrow> bytes \<times> bytes \<times> 'g \<Rightarrow> bytes \<times> bytes \<times> 'g" where
  "af_split_step rng n i st =
     (let (stripes, buf, g) = st;
          (r, g) = rng n g;
          stripes = store_at (i * n) r stripes;
          t = af_xor buf (slice (i * n) n stripes) n
      in (stripes, af_diffuse t n, g))"

definition AfSplit :: "bytes ptr \<Rightarrow> int \<Rightarrow> int \<Rightarrow> 'g rng_fn ptr \<Rightarrow> 'g \<Rightarrow> bytes ptr \<Rightarrow> int \<times> bytes ptr \<times> 'g" where
  "AfSplit material n s rng g stripes =
     (if n \<le> 0 \<or> n > 1024 \<or> s < 1 \<or> material = NULL \<or> stripes = NULL \<or> (s > 1 \<and> rng = NULL)
      then (-1, stripes, g)
      else let n = nat n; s = nat s;
               (stripes', buf, g) =
                 fold (af_split_step (the rng) n) [0..<s - 1] (the stripes, zeros n, g);
               last_stripe = af_xor (the material) buf n
           in (0, Some (store_at ((s - 1) * n) last_stripe stripes'), g))"

definition af_merge_step :: "bytes \<Rightarrow> nat \<Rightarrow> nat \<Rightarrow> bytes \<Rightarrow> bytes" where
  "af_merge_step stripes n i buf = af_diffuse (af_xor buf (slice (i * n) n stripes) n) n"

definition AfMerge :: "bytes \<Rightarrow> int \<Rightarrow> int \<Rightarrow> bytes \<Rightarrow> bytes" where
  "AfMerge stripes n s materialOut =
     (if n \<le> 0 \<or> n > 1024 \<or> s < 1 then materialOut
      else let n = nat n; s = nat s;
               buf = fold (af_merge_step stripes n) [0..<s - 1] (zeros n)
           in store_at 0 (af_xor (slice ((s - 1) * n) n stripes) buf n) materialOut)"

section \<open>Lengths, and what the diffusion computes\<close>

lemma length_af_xor [simp, len_simps]: "length (af_xor a b n) = n"
  by (simp add: af_xor_def)

lemma af_xor_bytes: "length a = n \<Longrightarrow> length b = n \<Longrightarrow> af_xor a b n = xor_bytes a b"
  by (rule nth_equalityI) (simp_all add: af_xor_def nth_xor_bytes)

definition af_section :: "nat \<Rightarrow> bytes \<Rightarrow> bytes" where
  "af_section i b = take (length b) (fips_sha256 (be_bytes 4 (of_nat i :: u32) @ b))"

lemma af_section_code:
  assumes "length b = tk" "tk \<le> 32"
  shows "(let c = sha256_begin ctx_uninit;
              c = sha256_hash (be_bytes 4 (of_nat i :: u32)) 4 c;
              c = sha256_hash b (of_nat tk) c;
              (h, c) = sha256_end c
          in take tk h) = af_section i b"
proof -
  define c where "c = fold sha_update [be_bytes 4 (of_nat i :: u32), b] (sha256_begin ctx_uninit)"
  have "sha256_reps c (concat [be_bytes 4 (of_nat i :: u32), b])"
    unfolding c_def by (rule sha.digest_of_parts) (use assms in \<open>simp_all add: sha_max_def\<close>)
  then obtain c' where "sha256_end c = (fips_sha256 (be_bytes 4 (of_nat i :: u32) @ b), c')"
    using sha.finish_pair [of c "be_bytes 4 (of_nat i :: u32) @ b"] assms by (auto simp: sha_max_def)
  then show ?thesis
    using assms by (simp add: c_def sha_update_def af_section_def Let_def)
qed

lemma af_diffuse_sections:
  assumes "length src = n"
  shows "af_diffuse src n = concat (map (\<lambda>i. af_section i (slice (i * 32) 32 src))
           [0..<n div 32 + (if n mod 32 \<noteq> 0 then 1 else 0)])"
proof -
  have eq: "(let tk = (if i < n div 32 then 32 else n mod 32);
               iv = be_bytes 4 (of_nat i :: u32);
               c = sha256_begin ctx_uninit;
               c = sha256_hash iv 4 c;
               c = sha256_hash (slice (i * 32) tk src) (of_nat tk) c;
               (h, c) = sha256_end c
           in take tk h) = af_section i (slice (i * 32) 32 src)"
    if i: "i < n div 32 + (if n mod 32 \<noteq> 0 then 1 else 0)" for i
  proof -
    define tk where "tk = (if i < n div 32 then 32 else n mod 32)"
    have "min 32 (n - i * 32) = tk \<and> tk \<le> 32 \<and> slice (i * 32) tk src = slice (i * 32) 32 src"
    proof (cases "i < n div 32")
      case True
      then have "Suc i * 32 \<le> n div 32 * 32" by (intro mult_le_mono1) simp
      also have "\<dots> \<le> n" by simp
      finally show ?thesis using True by (simp add: tk_def)
    next
      case False
      with i have "i = n div 32" by (auto split: if_splits)
      then have "n - i * 32 = n mod 32" by (simp add: minus_div_mult_eq_mod)
      moreover from this have "drop (i * 32) src = slice (i * 32) (n mod 32) src"
        using assms by (simp add: slice_def)
      ultimately show ?thesis using False assms by (simp add: tk_def slice_def)
    qed
    then have "length (slice (i * 32) 32 src) = tk" "tk \<le> 32"
      "slice (i * 32) tk src = slice (i * 32) 32 src"
      using assms by simp_all
    with af_section_code [of "slice (i * 32) 32 src" tk i] show ?thesis
      unfolding tk_def [symmetric] Let_def by simp
  qed
  show ?thesis
    unfolding af_diffuse_def Let_def [of "n div 32"] Let_def [of "n mod 32"]
    by (intro arg_cong [where f = concat] map_cong refl eq) simp
qed

lemma length_af_section: "length b \<le> 32 \<Longrightarrow> length (af_section i b) = length b"
  by (simp add: af_section_def)

lemma sum_list_sections: "sum_list (map (\<lambda>i. min 32 (n - i * 32)) [0..<k]) = min (k * 32) n"
  by (induction k) (auto simp: min_def)

lemma length_af_diffuse [simp]:
  assumes "length src = n"
  shows "length (af_diffuse src n) = n"
proof -
  have "length (af_diffuse src n) =
      sum_list (map (\<lambda>i. min 32 (n - i * 32)) [0..<n div 32 + (if n mod 32 \<noteq> 0 then 1 else 0)])"
    using assms by (simp add: af_diffuse_sections length_concat comp_def length_af_section)
  also have "\<dots> = min ((n div 32 + (if n mod 32 \<noteq> 0 then 1 else 0)) * 32) n"
    by (rule sum_list_sections)
  also have "\<dots> = n"
    using div_mult_mod_eq [of n 32] mod_less_divisor [of 32 n] by (auto simp: min_def)
  finally show ?thesis .
qed

section \<open>Merging what was split\<close>

text \<open>Writing stripe \<open>j\<close> does not change the chain over the stripes before it.\<close>

lemma merge_chain_store:
  assumes "j \<le> i" "i * n \<le> length stripes"
  shows "fold (af_merge_step (store_at (i * n) r stripes) n) [0..<j] b =
         fold (af_merge_step stripes n) [0..<j] b"
proof (rule fold_cong)
  fix k assume "k \<in> set [0..<j]"
  then have "Suc k * n \<le> i * n" using assms(1) by (intro mult_le_mono1) simp
  then have "slice (k * n) n (store_at (i * n) r stripes) = slice (k * n) n stripes"
    using assms(2) by (simp add: slice_store_before)
  then show "af_merge_step (store_at (i * n) r stripes) n k = af_merge_step stripes n k"
    by (simp add: af_merge_step_def fun_eq_iff)
qed simp_all

lemma length_merge_chain [simp]: "length (fold (af_merge_step stripes n) [0..<k] (zeros n)) = n"
  by (induction k) (simp_all add: af_merge_step_def)

lemma split_chain:
  assumes "\<And>g. length (fst (rng n g)) = n" "k * n \<le> length stripes"
  shows "\<exists>st g'. fold (af_split_step rng n) [0..<k] (stripes, zeros n, g) =
           (st, fold (af_merge_step st n) [0..<k] (zeros n), g') \<and> length st = length stripes"
  using assms(2)
proof (induction k)
  case 0
  then show ?case by simp
next
  case (Suc k)
  then obtain st g' where IH: "fold (af_split_step rng n) [0..<k] (stripes, zeros n, g) =
      (st, fold (af_merge_step st n) [0..<k] (zeros n), g')" "length st = length stripes"
    by auto
  obtain r g'' where r: "rng n g' = (r, g'')" "length r = n"
    using assms(1) [of g'] by (cases "rng n g'") simp
  have fit: "k * n + length r \<le> length st" using Suc.prems r IH by simp
  define st' where "st' = store_at (k * n) r st"
  define b where "b = fold (af_merge_step st n) [0..<k] (zeros n)"
  have "af_split_step rng n k (st, b, g') = (st', af_merge_step st' n k b, g'')"
    by (simp add: af_split_step_def af_merge_step_def r st'_def Let_def)
  moreover have "fold (af_merge_step st' n) [0..<k] (zeros n) = b"
    using fit by (simp add: st'_def b_def merge_chain_store)
  moreover have "length st' = length stripes" using fit IH by (simp add: st'_def length_store_at)
  ultimately show ?case
    using IH(1) by (intro exI [of _ st'] exI [of _ g'']) (simp add: b_def)
qed

text \<open>
  The result of a successful split: a buffer of the same size whose first \<open>s * n\<close> bytes merge back.
\<close>

lemma AfSplit_merges:
  assumes "0 < n" "n \<le> 1024" "1 \<le> s" "length material = nat n" "nat s * nat n \<le> length stripes"
    "s > 1 \<Longrightarrow> rng = Some rf" "\<And>k g. length (fst (rf k g)) = k"
  shows "\<exists>st g'. AfSplit (Some material) n s rng g (Some stripes) = (0, Some st, g') \<and>
           length st = length stripes \<and> (\<forall>out. AfMerge st n s out = store_at 0 material out)"
proof -
  define k where "k = nat s - 1"
  have k: "nat s = Suc k" using assms(3) by (simp add: k_def)
  have fit: "k * nat n + nat n \<le> length stripes" using assms(5) by (simp add: k)
  have "\<exists>st g'. fold (af_split_step (the rng) (nat n)) [0..<k] (stripes, zeros (nat n), g) =
      (st, fold (af_merge_step st (nat n)) [0..<k] (zeros (nat n)), g') \<and> length st = length stripes"
  proof (cases "k = 0")
    case False
    then have "rng = Some rf" using assms(6) k_def by linarith
    with split_chain [of rf "nat n" k stripes g] assms(7) fit show ?thesis by simp
  qed simp
  then obtain st g' where st:
    "fold (af_split_step (the rng) (nat n)) [0..<k] (stripes, zeros (nat n), g) =
      (st, fold (af_merge_step st (nat n)) [0..<k] (zeros (nat n)), g')" "length st = length stripes"
    by blast
  define buf where "buf = fold (af_merge_step st (nat n)) [0..<k] (zeros (nat n))"
  define fin where "fin = store_at (k * nat n) (af_xor material buf (nat n)) st"
  have "AfSplit (Some material) n s rng g (Some stripes) = (0, Some fin, g')"
    using assms(1-3,6) st(1) by (auto simp: AfSplit_def fin_def buf_def k Let_def)
  moreover have "length fin = length stripes" using fit st(2) by (simp add: fin_def length_store_at)
  moreover have "AfMerge fin n s out = store_at 0 material out" for out
  proof -
    have "fold (af_merge_step fin (nat n)) [0..<k] (zeros (nat n)) = buf"
      using fit st(2) by (simp add: fin_def buf_def merge_chain_store)
    moreover have "slice (k * nat n) (nat n) fin = af_xor material buf (nat n)"
      using fit st(2) by (simp add: fin_def slice_store_same)
    ultimately have "AfMerge fin n s out = store_at 0 (af_xor (af_xor material buf (nat n)) buf (nat n)) out"
      using assms(1-3) by (simp add: AfMerge_def k Let_def)
    moreover have "af_xor (af_xor material buf (nat n)) buf (nat n) = material"
      using assms(4) by (simp add: af_xor_bytes buf_def)
    ultimately show ?thesis by simp
  qed
  ultimately show ?thesis by blast
qed

end
