(* ===== verification/KeyslotStore.thy ===== *)
theory KeyslotStore
  imports Keyslot KeyslotArea AfSplit
begin

text \<open>
  Placement of key slot records, \<open>src/src/Common/KeyslotStore.c\<close> and \<open>KeyslotStore.h\<close>, with
  \<open>VC_ENABLE_KEYSLOTS\<close>, \<open>VC_ENABLE_KEYSLOT_POLICY\<close>, \<open>VC_ENABLE_KEYSLOT_SHRED\<close> and
  \<open>VC_ENABLE_VERIFY\<close> defined. The configuration is a record with the fields of the C structure, an
  \<open>int\<close> of the code an \<open>int\<close> (sizes for which \<open>s * plen\<close> leaves 32 bits are outside the model), the
  random generator a function of a state \<open>'g\<close> that is threaded through. Arrays on the stack start as
  zeros where the code overwrites them before use; \<open>KeyslotAdd\<close>, which does not always, gets the old
  contents of its \<open>payload\<close> array as an argument.
\<close>

datatype KeyslotBackend = KSB_HEADER | KSB_DENIABLE | KSB_SIDECAR

record 'g KeyslotStoreCfg =
  backend :: KeyslotBackend
  kdf :: kdf_fn
  cost :: u32
  vmkLen :: int
  maxSlots :: int
  randBytes :: "'g rng_fn"
  afStripes :: int
  policy :: int

definition put_u16 :: "u32 \<Rightarrow> bytes" where
  "put_u16 v = [ucast v, ucast (drop_bit 8 v)]"

definition put_u32 :: "u32 \<Rightarrow> bytes" where
  "put_u32 v = [ucast v, ucast (drop_bit 8 v), ucast (drop_bit 16 v), ucast (drop_bit 24 v)]"

definition is_labeled :: "KeyslotBackend \<Rightarrow> bool" where
  "is_labeled b \<longleftrightarrow> b = KSB_HEADER \<or> b = KSB_SIDECAR"

definition put_u64_be :: "u64 \<Rightarrow> bytes" where
  "put_u64_be v = be_bytes 8 v"

definition get_u64_be :: "bytes \<Rightarrow> u64" where
  "get_u64_be p = fold (\<lambda>i v. push_bit 8 v OR ucast (p ! i)) [0..<8] 0"

definition plen_of :: "'g KeyslotStoreCfg \<Rightarrow> int" where
  "plen_of cfg = (if policy cfg \<noteq> 0 then vmkLen cfg + 1 + 8 else vmkLen cfg + 1)"

definition af_of :: "'g KeyslotStoreCfg \<Rightarrow> int" where
  "af_of cfg = (if afStripes cfg \<ge> 2 then afStripes cfg else 1)"

definition ct_of :: "'g KeyslotStoreCfg \<Rightarrow> int" where
  "ct_of cfg = plen_of cfg * af_of cfg"

definition ks_pol_off :: "'g KeyslotStoreCfg \<Rightarrow> int" where
  "ks_pol_off cfg = 46 + ct_of cfg + 32"

definition ks_pol_fits :: "'g KeyslotStoreCfg \<Rightarrow> bool" where
  "ks_pol_fits cfg \<longleftrightarrow> ks_pol_off cfg + 4 \<le> 1024"

definition rec_fits :: "'g KeyslotStoreCfg \<Rightarrow> bool" where
  "rec_fits cfg \<longleftrightarrow> (if is_labeled (backend cfg) then 46 else 32) + ct_of cfg + 32 \<le> 1024"

definition n_slots :: "'g KeyslotStoreCfg \<Rightarrow> 'c KeyslotArea \<Rightarrow> u64" where
  "n_slots cfg area =
     (let bySize = area_size area div 1024;
          byCfg = (if maxSlots cfg > 0 then of_int (maxSlots cfg) else bySize)
      in if bySize < byCfg then bySize else byCfg)"

definition deniable_index :: "'g KeyslotStoreCfg \<Rightarrow> 'c KeyslotArea \<Rightarrow> bytes \<Rightarrow> u64" where
  "deniable_index cfg area pass =
     (let ns = n_slots cfg area
      in if ns = 0 then 0
         else let buf = cstr ''VCKSloc'' @ take 512 pass;
                  h = sha256 buf (of_nat (length buf))
              in (ucast (h ! 0) OR push_bit 8 (ucast (h ! 1)) OR push_bit 16 (ucast (h ! 2))
                  OR push_bit 24 (ucast (h ! 3))) mod ns)"

definition VCKS :: bytes where
  "VCKS = cstr ''VCKS''"

text \<open>The loop of \<open>labeled_first_free\<close>, over the indices still to be looked at.\<close>

fun first_free :: "'c KeyslotArea \<Rightarrow> nat list \<Rightarrow> int" where
  "first_free area [] = - 1"
| "first_free area (i # is) =
     (case area_read area (of_nat i * 1024) 46 of
        None \<Rightarrow> - 1
      | Some hdr \<Rightarrow> if slice 0 4 hdr \<noteq> VCKS then c_int (int i) else first_free area is)"

definition labeled_first_free :: "'g KeyslotStoreCfg \<Rightarrow> 'c KeyslotArea \<Rightarrow> int" where
  "labeled_first_free cfg area = first_free area [0..<unat (n_slots cfg area)]"

text \<open>The labeled record: header fields, additional data, wrapped payload and tag, written over the
  random bytes \<open>rec\<close>. \<open>KeyslotAdd\<close> and \<open>KeyslotAddPolicy\<close> contain the same statements.\<close>

definition labeled_record :: "'g KeyslotStoreCfg \<Rightarrow> bytes \<Rightarrow> bytes \<Rightarrow> bytes \<Rightarrow> bytes \<Rightarrow> bytes" where
  "labeled_record cfg rec salt pass blob =
     (let plen = plen_of cfg; s = af_of cfg; ct = nat (ct_of cfg);
          rec = store_at 0 VCKS rec;
          rec = rec[4 := (if s \<ge> 2 then 2 else 1)];
          rec = rec[5 := 1];
          rec = (if s \<ge> 2 then store_at 6 (put_u16 (of_int s)) rec else rec[6 := 0, 7 := 0]);
          rec = store_at 8 (put_u32 (cost cfg)) rec;
          rec = store_at 12 (put_u16 (of_int plen)) rec;
          rec = store_at 14 salt rec;
          aad = slice 0 46 rec;
          (c, tag) = KeyslotWrap (kdf cfg) (cost cfg) pass salt aad (slice 0 ct blob)
      in store_at (46 + ct) tag (store_at 46 c rec))"

definition KS_BARE_DOMAIN :: bytes where
  "KS_BARE_DOMAIN = cstr ''VCKSbare''"

definition bare_record :: "'g KeyslotStoreCfg \<Rightarrow> bytes \<Rightarrow> bytes \<Rightarrow> bytes \<Rightarrow> bytes \<Rightarrow> bytes" where
  "bare_record cfg rec salt pass blob =
     (let ct = nat (ct_of cfg);
          rec = store_at 0 salt rec;
          aad = KS_BARE_DOMAIN @ salt;
          (c, tag) = KeyslotWrap (kdf cfg) (cost cfg) pass salt aad (slice 0 ct blob)
      in store_at (32 + ct) tag (store_at 32 c rec))"

definition KeyslotAdd :: "'g KeyslotStoreCfg \<Rightarrow> 'c KeyslotArea \<Rightarrow> bytes \<Rightarrow> int \<Rightarrow> bytes \<Rightarrow> bytes \<Rightarrow> 'g
    \<Rightarrow> int \<times> 'c KeyslotArea \<times> 'g" where
  "KeyslotAdd cfg area pass flags vmk payload0 g =
     (if vmkLen cfg \<le> 0 \<or> vmkLen cfg > 512 \<or> \<not> rec_fits cfg then (- 1, area, g)
      else
        let plen = plen_of cfg; s = af_of cfg;
            (salt, g) = randBytes cfg 32 g;
            payload = payload0[0 := of_int flags];
            payload = store_at 1 (take (nat (vmkLen cfg)) vmk) payload;
            (rec, g) = randBytes cfg 1024 g;
            (rc, blob, g) = AfSplit (Some (take (nat plen) payload)) plen s (Some (randBytes cfg)) g
                              (Some (zeros 1024))
        in if rc \<noteq> 0 then (- 1, area, g)
           else if is_labeled (backend cfg)
           then let idx = labeled_first_free cfg area
                in if idx < 0 then (- 1, area, g)
                   else let rec = labeled_record cfg rec salt pass (the blob);
                            (wrc, area) = area_write area (of_int idx * 1024) rec
                        in (if wrc \<noteq> 0 then - 1 else idx, area, g)
           else let idx = c_int (uint (deniable_index cfg area pass));
                    rec = bare_record cfg rec salt pass (the blob);
                    (wrc, area) = area_write area (of_int idx * 1024) rec
                in (if wrc \<noteq> 0 then - 1 else idx, area, g))"

section \<open>Opening\<close>

text \<open>The branch-free selection of the first match.\<close>

definition sel_mask :: "int \<Rightarrow> int \<Rightarrow> byte" where
  "sel_mask m found = ucast (0 - (of_int (m AND (found XOR 1)) :: u32))"

definition ks_select :: "int \<Rightarrow> bytes \<Rightarrow> nat \<Rightarrow> int \<times> bytes \<Rightarrow> int \<times> bytes" where
  "ks_select m tmp ct st =
     (let (found, selp) = st; mask = sel_mask m found
      in (found OR m,
          map (\<lambda>b. (selp ! b AND NOT mask) OR (tmp ! b AND mask)) [0..<ct] @ drop ct selp))"

definition ks_unwrap_rec :: "'g KeyslotStoreCfg \<Rightarrow> bytes \<Rightarrow> nat \<Rightarrow> bytes \<Rightarrow> bytes \<Rightarrow> int \<times> bytes" where
  "ks_unwrap_rec cfg pass ct rec out =
     KeyslotUnwrapCT (kdf cfg) (cost cfg) pass (slice 14 32 rec) (slice 0 46 rec)
       (slice 46 ct rec) (slice (46 + ct) 32 rec) out"

definition ks_scan_serial :: "'g KeyslotStoreCfg \<Rightarrow> 'c KeyslotArea \<Rightarrow> bytes \<Rightarrow> nat \<Rightarrow> u64 \<Rightarrow> bytes \<Rightarrow> int \<times> bytes" where
  "ks_scan_serial cfg area pass ct ns selp =
     fold (\<lambda>i (found, selp).
        case area_read area (of_nat i * 1024) 1024 of
          None \<Rightarrow> (found, selp)
        | Some rec \<Rightarrow> (let (m, tmp) = ks_unwrap_rec cfg pass ct rec (zeros 1024)
                      in ks_select m tmp ct (found, selp)))
       [0..<unat ns] (0, selp)"

text \<open>
  The parallel scan. The executor \<open>pf n\<close> is the sequence of indices it runs the body on: bodies write
  disjoint parts of \<open>mret\<close> and \<open>tmps\<close>, so running them concurrently is running them in some order.
\<close>

record KsParScan =
  sc_recs :: bytes
  sc_okread :: "bool list"
  sc_tmps :: bytes
  sc_mret :: "int list"

definition ks_par_scan_body :: "'g KeyslotStoreCfg \<Rightarrow> bytes \<Rightarrow> nat \<Rightarrow> nat \<Rightarrow> KsParScan \<Rightarrow> KsParScan" where
  "ks_par_scan_body cfg pass ct i c =
     (if \<not> sc_okread c ! i then c\<lparr>sc_mret := (sc_mret c)[i := 0]\<rparr>
      else let rec = slice (i * 1024) 1024 (sc_recs c);
               (m, out) = ks_unwrap_rec cfg pass ct rec (slice (i * ct) ct (sc_tmps c))
           in c\<lparr>sc_tmps := store_at (i * ct) out (sc_tmps c), sc_mret := (sc_mret c)[i := m]\<rparr>)"

definition ks_read_batch :: "'c KeyslotArea \<Rightarrow> nat \<Rightarrow> nat \<Rightarrow> KsParScan \<Rightarrow> KsParScan" where
  "ks_read_batch area base bn sc =
     fold (\<lambda>j sc.
        case area_read area (of_nat (base + j) * 1024) 1024 of
          None \<Rightarrow> sc\<lparr>sc_okread := (sc_okread sc)[j := False]\<rparr>
        | Some r \<Rightarrow> sc\<lparr>sc_okread := (sc_okread sc)[j := True], sc_recs := store_at (j * 1024) r (sc_recs sc)\<rparr>)
       [0..<bn] sc"

definition ks_batch :: "'g KeyslotStoreCfg \<Rightarrow> 'c KeyslotArea \<Rightarrow> bytes \<Rightarrow> nat \<Rightarrow> nat \<Rightarrow> (nat \<Rightarrow> nat list)
    \<Rightarrow> nat \<Rightarrow> int \<times> bytes \<times> KsParScan \<Rightarrow> int \<times> bytes \<times> KsParScan" where
  "ks_batch cfg area pass ct ns pf base st =
     (let (found, selp, sc) = st;
          bn = (if ns - base < 16 then ns - base else 16);
          sc = ks_read_batch area base bn sc;
          sc = sc\<lparr>sc_mret := fold (\<lambda>j r. r[j := - 1]) [0..<bn] (sc_mret sc)\<rparr>;
          sc = fold (ks_par_scan_body cfg pass ct) (pf bn) sc;
          (found, selp) = fold (\<lambda>j fs.
             let m = sc_mret sc ! j; m = (if m < 0 then 0 else m)
             in ks_select m (slice (j * ct) ct (sc_tmps sc)) ct fs) [0..<bn] (found, selp)
      in (found, selp, sc))"

definition ks_scan_labeled_parallel :: "'g KeyslotStoreCfg \<Rightarrow> 'c KeyslotArea \<Rightarrow> bytes \<Rightarrow> nat \<Rightarrow> u64 \<Rightarrow> bytes
    \<Rightarrow> (nat \<Rightarrow> nat list) \<Rightarrow> int \<times> bytes" where
  "ks_scan_labeled_parallel cfg area pass ct ns selp pf =
     (let sc = \<lparr>sc_recs = zeros (16 * 1024), sc_okread = replicate 16 False,
                sc_tmps = zeros (16 * 1024), sc_mret = replicate 16 0\<rparr>;
          (found, selp, sc) = fold (ks_batch cfg area pass ct (unat ns) pf)
            (map (\<lambda>k. k * 16) [0..<(unat ns + 15) div 16]) (0, selp, sc)
      in (found, selp))"

definition ks_open_impl :: "'g KeyslotStoreCfg \<Rightarrow> 'c KeyslotArea \<Rightarrow> bytes \<Rightarrow> bytes \<Rightarrow> int ptr
    \<Rightarrow> (nat \<Rightarrow> nat list) ptr \<Rightarrow> int \<times> bytes \<times> int ptr" where
  "ks_open_impl cfg area pass vmkOut flagsOut pf =
     (let plen = plen_of cfg; s = af_of cfg; ct = nat (ct_of cfg)
      in if \<not> rec_fits cfg then (0, vmkOut, flagsOut)
         else if is_labeled (backend cfg)
         then let ns = n_slots cfg area;
                  (found, selp) =
                    (if pf \<noteq> NULL \<and> ns > 1
                     then ks_scan_labeled_parallel cfg area pass ct ns (zeros 1024) (the pf)
                     else ks_scan_serial cfg area pass ct ns (zeros 1024))
              in if found \<noteq> 0
                 then let payload = AfMerge selp plen s (zeros 521)
                      in (found, store_at 0 (slice 1 (nat (vmkLen cfg)) payload) vmkOut,
                          map_option (\<lambda>_. uint (payload ! 0)) flagsOut)
                 else (found, vmkOut, flagsOut)
         else let off = deniable_index cfg area pass * 1024
              in case area_read area off 1024 of
                   None \<Rightarrow> (0, vmkOut, flagsOut)
                 | Some rec \<Rightarrow>
                     let aad = KS_BARE_DOMAIN @ slice 0 32 rec;
                         (ok, blob) = KeyslotUnwrapCT (kdf cfg) (cost cfg) pass (slice 0 32 rec) aad
                            (slice 32 ct rec) (slice (32 + ct) 32 rec) (zeros 1024)
                     in if ok \<noteq> 0
                        then let payload = AfMerge blob plen s (zeros 521)
                             in (ok, store_at 0 (slice 1 (nat (vmkLen cfg)) payload) vmkOut,
                                 map_option (\<lambda>_. uint (payload ! 0)) flagsOut)
                        else (ok, vmkOut, flagsOut))"

definition KeyslotOpen :: "'g KeyslotStoreCfg \<Rightarrow> 'c KeyslotArea \<Rightarrow> bytes \<Rightarrow> bytes \<Rightarrow> int ptr
    \<Rightarrow> int \<times> bytes \<times> int ptr" where
  "KeyslotOpen cfg area pass vmkOut flagsOut = ks_open_impl cfg area pass vmkOut flagsOut NULL"

definition KeyslotOpenParallel :: "'g KeyslotStoreCfg \<Rightarrow> 'c KeyslotArea \<Rightarrow> bytes \<Rightarrow> bytes \<Rightarrow> int ptr
    \<Rightarrow> (nat \<Rightarrow> nat list) ptr \<Rightarrow> int \<times> bytes \<times> int ptr" where
  "KeyslotOpenParallel cfg area pass vmkOut flagsOut pf = ks_open_impl cfg area pass vmkOut flagsOut pf"

definition KeyslotOpenAt :: "'g KeyslotStoreCfg \<Rightarrow> 'c KeyslotArea \<Rightarrow> int \<Rightarrow> bytes \<Rightarrow> bytes \<Rightarrow> int ptr
    \<Rightarrow> int \<times> bytes \<times> int ptr" where
  "KeyslotOpenAt cfg area index pass vmkOut flagsOut =
     (let plen = plen_of cfg; s = af_of cfg; ct = nat (ct_of cfg)
      in if \<not> is_labeled (backend cfg) \<or> \<not> rec_fits cfg then (0, vmkOut, flagsOut)
         else if index < 0 \<or> of_int index \<ge> n_slots cfg area then (0, vmkOut, flagsOut)
         else case area_read area (of_int index * 1024) 1024 of
             None \<Rightarrow> (0, vmkOut, flagsOut)
           | Some rec \<Rightarrow>
             if slice 0 4 rec \<noteq> VCKS then (0, vmkOut, flagsOut)
             else let (m, tmp) = ks_unwrap_rec cfg pass ct rec (zeros 1024)
                  in if m \<noteq> 0
                     then let payload = AfMerge tmp plen s (zeros 521)
                          in (m, store_at 0 (slice 1 (nat (vmkLen cfg)) payload) vmkOut,
                              map_option (\<lambda>_. uint (payload ! 0)) flagsOut)
                     else (m, vmkOut, flagsOut))"

section \<open>Revoking, shredding, counting, checking\<close>

definition KeyslotRevoke :: "'g KeyslotStoreCfg \<Rightarrow> 'c KeyslotArea \<Rightarrow> int \<Rightarrow> 'g \<Rightarrow> int \<times> 'c KeyslotArea \<times> 'g" where
  "KeyslotRevoke cfg area index g =
     (if index < 0 \<or> of_int index \<ge> n_slots cfg area then (- 1, area, g)
      else let (rec, g) = randBytes cfg 1024 g;
               (rc, area) = area_write area (of_int index * 1024) rec
           in (rc, area, g))"

definition KeyslotShred :: "'g KeyslotStoreCfg \<Rightarrow> 'c KeyslotArea \<Rightarrow> int \<Rightarrow> bytes \<Rightarrow> 'g
    \<Rightarrow> int \<times> bytes \<times> 'c KeyslotArea \<times> 'g" where
  "KeyslotShred cfg area index attestation g =
     (if index < 0 \<or> of_int index \<ge> n_slots cfg area then (- 1, attestation, area, g)
      else let off = of_int index * 1024
      in case area_read area off 1024 of
           None \<Rightarrow> (- 1, attestation, area, g)
         | Some rec \<Rightarrow>
           let hOld = sha256 rec 1024;
               (rec, g) = randBytes cfg 1024 g;
               (rc, area) = area_write area off rec
           in if rc \<noteq> 0 then (- 1, attestation, area, g)
              else case area_read area off 1024 of
                None \<Rightarrow> (- 1, attestation, area, g)
              | Some rec \<Rightarrow>
                let hNew = sha256 rec 1024;
                    msg = cstr ''VCKSSHRED1'' @ be_bytes 4 (of_int index :: u32) @ hOld @ hNew
                in (0, sha256 msg 78, area, g))"

definition KeyslotCount :: "'g KeyslotStoreCfg \<Rightarrow> 'c KeyslotArea \<Rightarrow> int" where
  "KeyslotCount cfg area =
     (if \<not> is_labeled (backend cfg) then 0
      else fold (\<lambda>i count.
        case area_read area (of_nat i * 1024) 4 of
          None \<Rightarrow> count
        | Some hdr \<Rightarrow> if hdr = VCKS then count + 1 else count) [0..<unat (n_slots cfg area)] 0)"

definition ks_get_u16 :: "bytes \<Rightarrow> u32" where
  "ks_get_u16 p = ucast (p ! 0) OR push_bit 8 (ucast (p ! 1))"

definition ks_get_u32 :: "bytes \<Rightarrow> u32" where
  "ks_get_u32 p = ucast (p ! 0) OR push_bit 8 (ucast (p ! 1)) OR push_bit 16 (ucast (p ! 2))
     OR push_bit 24 (ucast (p ! 3))"

definition slot_framing_ok :: "'g KeyslotStoreCfg \<Rightarrow> bytes \<Rightarrow> bool" where
  "slot_framing_ok cfg hdr \<longleftrightarrow>
     hdr ! 4 = (if af_of cfg \<ge> 2 then 2 else 1) \<and> hdr ! 5 = 1 \<and>
     ks_get_u32 (drop 8 hdr) = cost cfg \<and> sint (ks_get_u16 (drop 12 hdr)) = plen_of cfg \<and> rec_fits cfg"

text \<open>The scan; the counts are returned only when every read succeeded.\<close>

fun structural_scan :: "'g KeyslotStoreCfg \<Rightarrow> 'c KeyslotArea \<Rightarrow> nat list \<Rightarrow> int \<Rightarrow> int \<Rightarrow> (int \<times> int) option" where
  "structural_scan cfg area [] good bad = Some (good, bad)"
| "structural_scan cfg area (i # is) good bad =
     (case area_read area (of_nat i * 1024) 14 of
        None \<Rightarrow> None
      | Some hdr \<Rightarrow>
        if slice 0 4 hdr \<noteq> VCKS then structural_scan cfg area is good bad
        else if slot_framing_ok cfg hdr then structural_scan cfg area is (good + 1) bad
        else structural_scan cfg area is good (bad + 1))"

definition KeyslotStructuralCheck :: "'g KeyslotStoreCfg ptr \<Rightarrow> 'c KeyslotArea ptr \<Rightarrow> int ptr \<Rightarrow> int ptr
    \<Rightarrow> int \<times> int ptr \<times> int ptr" where
  "KeyslotStructuralCheck cfg area wellFormed malformed =
     (case cfg of None \<Rightarrow> (- 1, wellFormed, malformed) | Some cfg \<Rightarrow>
      case area of None \<Rightarrow> (- 1, wellFormed, malformed) | Some area \<Rightarrow>
      if \<not> is_labeled (backend cfg) then (- 1, wellFormed, malformed)
      else case structural_scan cfg area [0..<unat (n_slots cfg area)] 0 0 of
        None \<Rightarrow> (- 1, wellFormed, malformed)
      | Some (good, bad) \<Rightarrow>
          (if bad \<noteq> 0 then - 1 else 0, map_option (\<lambda>_. good) wellFormed, map_option (\<lambda>_. bad) malformed))"

section \<open>Policy slots\<close>

definition KEYSLOT_LOCKED :: int where "KEYSLOT_LOCKED = - 2"

definition KeyslotAddPolicy :: "'g KeyslotStoreCfg \<Rightarrow> 'c KeyslotArea \<Rightarrow> bytes \<Rightarrow> int \<Rightarrow> bytes \<Rightarrow> u64 \<Rightarrow> int \<Rightarrow> 'g
    \<Rightarrow> int \<times> 'c KeyslotArea \<times> 'g" where
  "KeyslotAddPolicy cfg area pass flags vmk expiryUnix maxAttempts g =
     (if policy cfg = 0 \<or> \<not> is_labeled (backend cfg) then (- 1, area, g)
      else if vmkLen cfg \<le> 0 \<or> vmkLen cfg > 512 \<or> \<not> rec_fits cfg \<or> \<not> ks_pol_fits cfg then (- 1, area, g)
      else if maxAttempts < 0 \<or> maxAttempts > 255 then (- 1, area, g)
      else
        let plen = plen_of cfg; s = af_of cfg;
            (salt, g) = randBytes cfg 32 g;
            payload = of_int flags # put_u64_be expiryUnix @ take (nat (vmkLen cfg)) vmk;
            (rec, g) = randBytes cfg 1024 g;
            (rc, blob, g) = AfSplit (Some payload) plen s (Some (randBytes cfg)) g (Some (zeros 1024))
        in if rc \<noteq> 0 then (- 1, area, g)
           else let idx = labeled_first_free cfg area
                in if idx < 0 then (- 1, area, g)
                   else let rec = labeled_record cfg rec salt pass (the blob);
                            p = nat (ks_pol_off cfg);
                            rec = store_at p [0x4b, 0x50, of_int maxAttempts, 0] rec;
                            (wrc, area) = area_write area (of_int idx * 1024) rec
                        in (if wrc \<noteq> 0 then - 1 else idx, area, g))"

definition KeyslotOpenPolicy :: "'g KeyslotStoreCfg \<Rightarrow> 'c KeyslotArea \<Rightarrow> bytes \<Rightarrow> u64 \<Rightarrow> bytes \<Rightarrow> int ptr \<Rightarrow> u64 ptr
    \<Rightarrow> int \<times> bytes \<times> int ptr \<times> u64 ptr" where
  "KeyslotOpenPolicy cfg area pass nowUnix vmkOut flagsOut expiryOut =
     (let plen = plen_of cfg; s = af_of cfg; ct = nat (ct_of cfg)
      in if policy cfg = 0 \<or> \<not> is_labeled (backend cfg) \<or> \<not> rec_fits cfg then (0, vmkOut, flagsOut, expiryOut)
         else let (found, selp) = ks_scan_serial cfg area pass ct (n_slots cfg area) (zeros 1024)
              in if found \<noteq> 0
                 then let payload = AfMerge selp plen s (zeros 521);
                          expiry = get_u64_be (drop 1 payload)
                      in if nowUnix \<noteq> 0 \<and> expiry \<noteq> 0 \<and> nowUnix > expiry
                         then (0, vmkOut, flagsOut, expiryOut)
                         else (1, store_at 0 (slice 9 (nat (vmkLen cfg)) payload) vmkOut,
                               map_option (\<lambda>_. uint (payload ! 0)) flagsOut, map_option (\<lambda>_. expiry) expiryOut)
                 else (0, vmkOut, flagsOut, expiryOut))"

record at_policy_out =
  ap_vmk :: bytes
  ap_flags :: "int ptr"
  ap_attempts :: "int ptr"
  ap_max :: "int ptr"

definition set_int :: "int \<Rightarrow> int ptr \<Rightarrow> int ptr" where
  "set_int v p = map_option (\<lambda>_. v) p"

definition has_policy_mark :: "bytes \<Rightarrow> nat \<Rightarrow> bool" where
  "has_policy_mark rec p \<longleftrightarrow> rec ! p = 0x4b \<and> rec ! (p + 1) = 0x50"

text \<open>The limit and the count of failed attempts, read from the trailer when it is marked.\<close>

definition max_attempts :: "'g KeyslotStoreCfg \<Rightarrow> bytes \<Rightarrow> int" where
  "max_attempts cfg rec = (if has_policy_mark rec (nat (ks_pol_off cfg))
     then uint (rec ! (nat (ks_pol_off cfg) + 2)) else 0)"

definition attempts :: "'g KeyslotStoreCfg \<Rightarrow> bytes \<Rightarrow> int" where
  "attempts cfg rec = (if has_policy_mark rec (nat (ks_pol_off cfg))
     then uint (rec ! (nat (ks_pol_off cfg) + 3)) else 0)"

definition KeyslotOpenAtPolicy :: "'g KeyslotStoreCfg \<Rightarrow> 'c KeyslotArea \<Rightarrow> int \<Rightarrow> bytes \<Rightarrow> u64 \<Rightarrow> at_policy_out
    \<Rightarrow> int \<times> at_policy_out \<times> 'c KeyslotArea" where
  "KeyslotOpenAtPolicy cfg area index pass nowUnix out =
     (let plen = plen_of cfg; s = af_of cfg; ct = nat (ct_of cfg); off = of_int index * 1024
      in if policy cfg = 0 \<or> \<not> is_labeled (backend cfg) \<or> \<not> rec_fits cfg \<or> \<not> ks_pol_fits cfg then (0, out, area)
      else if index < 0 \<or> of_int index \<ge> n_slots cfg area then (0, out, area)
      else case area_read area off 1024 of
          None \<Rightarrow> (0, out, area)
        | Some rec \<Rightarrow>
          if slice 0 4 rec \<noteq> VCKS then (0, out, area)
          else
            let p = nat (ks_pol_off cfg);
                maxA = max_attempts cfg rec;
                attA = attempts cfg rec;
                out = out\<lparr>ap_max := set_int maxA (ap_max out)\<rparr>
            in if maxA > 0 \<and> attA \<ge> maxA
               then (KEYSLOT_LOCKED, out\<lparr>ap_attempts := set_int attA (ap_attempts out)\<rparr>, area)
               else let (m, tmp) = ks_unwrap_rec cfg pass ct rec (zeros 1024)
               in if m = 0
                  then let (attA, area) =
                         (if has_policy_mark rec p \<and> attA < 255
                          then (attA + 1, snd (area_write area off (rec[p + 3 := of_int (attA + 1)])))
                          else (attA, area))
                       in (0, out\<lparr>ap_attempts := set_int attA (ap_attempts out)\<rparr>, area)
                  else let payload = AfMerge tmp plen s (zeros 521);
                           expiry = get_u64_be (drop 1 payload)
                       in if nowUnix \<noteq> 0 \<and> expiry \<noteq> 0 \<and> nowUnix > expiry
                          then (0, out\<lparr>ap_attempts := set_int attA (ap_attempts out)\<rparr>, area)
                          else let out = out\<lparr>ap_flags := set_int (uint (payload ! 0)) (ap_flags out),
                                             ap_vmk := store_at 0 (slice 9 (nat (vmkLen cfg)) payload) (ap_vmk out)\<rparr>;
                                   (attA, area) =
                                     (if has_policy_mark rec p \<and> attA \<noteq> 0
                                      then (0, snd (area_write area off (rec[p + 3 := 0])))
                                      else (attA, area))
                               in (1, out\<lparr>ap_attempts := set_int attA (ap_attempts out)\<rparr>, area))"

end
