(* ===== verification/KeyslotTable.thy ===== *)
theory KeyslotTable
  imports KeyslotStore
begin

text \<open>
  What the operations of \<open>KeyslotStore\<close> do, in terms of the contents of the medium: slot \<open>i\<close> is the
  1024 bytes at \<open>1024 * i\<close>. The branch-free scan, serial or parallel, returns the payload of the
  first slot that opens; the table operations are proved in the locale \<open>byte_area\<close> for any medium that
  keeps the contract, and hold for a window of a file by its interpretation.
\<close>

section \<open>The selection without branches\<close>

definition slot_open :: "'g KeyslotStoreCfg \<Rightarrow> bytes \<Rightarrow> nat \<Rightarrow> bytes \<Rightarrow> bytes option" where
  "slot_open cfg pass ct rec =
     (let dk = kdf cfg pass (slice 14 32 rec) (cost cfg) 72
      in if slice (46 + ct) 32 rec = dk_tag dk (slice 0 46 rec) (slice 46 ct rec)
         then Some (dk_cipher dk (slice 46 ct rec)) else None)"

definition slot_plain :: "'g KeyslotStoreCfg \<Rightarrow> bytes \<Rightarrow> nat \<Rightarrow> bytes \<Rightarrow> bytes" where
  "slot_plain cfg pass ct rec =
     dk_cipher (kdf cfg pass (slice 14 32 rec) (cost cfg) 72) (slice 46 ct rec)"

lemma slot_open_Some: "slot_open cfg pass ct rec = Some pt \<Longrightarrow> pt = slot_plain cfg pass ct rec"
  by (auto simp: slot_open_def slot_plain_def Let_def split: if_splits)

lemma length_slot_plain [simp]: "46 + ct \<le> length rec \<Longrightarrow> length (slot_plain cfg pass ct rec) = ct"
  by (simp add: slot_plain_def)

lemma ks_unwrap_rec_spec:
  assumes "length rec = 1024" "46 + ct + 32 \<le> 1024"
  shows "ks_unwrap_rec cfg pass ct rec out =
    (if slot_open cfg pass ct rec = None then 0 else 1, store_at 0 (slot_plain cfg pass ct rec) out)"
proof -
  have "length (slice 0 46 rec) + length (slice 46 ct rec) < 2 ^ 28" "length (slice (46 + ct) 32 rec) = 32"
    using assms by simp_all
  then show ?thesis
    by (simp add: ks_unwrap_rec_def KeyslotUnwrapCT_spec slot_open_def slot_plain_def Let_def)
qed

lemma sel_mask_eval:
  "sel_mask 0 0 = 0" "sel_mask 0 1 = 0" "sel_mask 1 0 = 0xFF" "sel_mask 1 1 = 0"
  unfolding sel_mask_def by code_simp+

lemma ks_select_simps:
  assumes "ct \<le> length selp" "ct \<le> length tmp" "found = 0 \<or> found = 1"
  shows "ks_select 0 t0 ct (found, selp) = (found, selp)"
    "ks_select 1 tmp ct (found, selp) = (if found = 0 then (1, take ct tmp @ drop ct selp) else (1, selp))"
proof -
  have z: "map (\<lambda>b. selp ! b AND NOT (0 :: byte) OR t0 ! b AND 0) [0..<ct] @ drop ct selp = selp" for t0
    using assms(1) by (intro nth_equalityI) (auto simp: nth_append)
  have f: "map (\<lambda>b. selp ! b AND NOT (0xFF :: byte) OR tmp ! b AND 0xFF) [0..<ct] = take ct tmp"
  proof (rule nth_equalityI)
    fix i assume "i < length (map (\<lambda>b. selp ! b AND NOT (0xFF :: byte) OR tmp ! b AND 0xFF) [0..<ct])"
    moreover have "x AND - 256 = (0 :: byte)" for x
      by (rule word_eq_bits, simp add: bit_simps upt_eval)
    moreover have "x AND (0xFF :: byte) = x" for x
      by (rule word_eq_bits, simp add: bit_simps upt_eval)
    ultimately show "map (\<lambda>b. selp ! b AND NOT (0xFF :: byte) OR tmp ! b AND 0xFF) [0..<ct] ! i = take ct tmp ! i"
      by simp
  qed (use assms in simp)
  show "ks_select 0 t0 ct (found, selp) = (found, selp)"
    using assms(3) z by (auto simp: ks_select_def sel_mask_eval Let_def)
  show "ks_select 1 tmp ct (found, selp) = (if found = 0 then (1, take ct tmp @ drop ct selp) else (1, selp))"
    using assms(3) z f by (auto simp: ks_select_def sel_mask_eval Let_def)
qed

text \<open>The state of the scan is a flag and a buffer; one more slot either opens or does not.\<close>

definition sel_step :: "nat \<Rightarrow> bytes option \<Rightarrow> int \<times> bytes \<Rightarrow> int \<times> bytes" where
  "sel_step ct x st =
     (case x of None \<Rightarrow> st
      | Some pt \<Rightarrow> if fst st = 0 then (1, pt @ drop ct (snd st)) else st)"

definition sel_ok :: "nat \<Rightarrow> int \<times> bytes \<Rightarrow> bool" where
  "sel_ok ct st \<longleftrightarrow> (fst st = 0 \<or> fst st = 1) \<and> ct \<le> length (snd st)"

lemma sel_step_ok: "sel_ok ct st \<Longrightarrow> (\<And>pt. x = Some pt \<Longrightarrow> length pt = ct) \<Longrightarrow> sel_ok ct (sel_step ct x st)"
  by (auto simp: sel_ok_def sel_step_def split: option.splits)

lemma ks_select_step:
  assumes "sel_ok ct st" "m = (if x = None then 0 else 1)"
    "\<And>pt. x = Some pt \<Longrightarrow> take ct tmp = pt \<and> length pt = ct"
  shows "ks_select m tmp ct st = sel_step ct x st"
proof (cases x)
  case None
  then show ?thesis
    using assms(1,2) ks_select_simps(1) [of ct "snd st" "replicate ct 0" "fst st" tmp]
    by (simp add: sel_ok_def sel_step_def)
next
  case (Some pt)
  then have "take ct tmp = pt" "ct \<le> length tmp" using assms(3) [of pt] by auto
  then show ?thesis
    using Some assms(1,2) ks_select_simps(2) [of ct "snd st" tmp "fst st"]
    by (cases st) (auto simp: sel_ok_def sel_step_def)
qed

fun first_some :: "'x option list \<Rightarrow> 'x option" where
  "first_some [] = None"
| "first_some (None # xs) = first_some xs"
| "first_some (Some x # xs) = Some x"

lemma sel_fold_first:
  assumes "sel_ok ct st"
  shows "fold (sel_step ct) xs st =
    (if fst st = 1 then st
     else case first_some xs of None \<Rightarrow> st | Some pt \<Rightarrow> (1, pt @ drop ct (snd st)))"
proof (cases "fst st = 1")
  case True
  have "fold (sel_step ct) xs st = st"
    by (induction xs) (use True in \<open>auto simp: sel_step_def split: option.splits\<close>)
  with True show ?thesis by simp
next
  case False
  then have "fst st = 0" using assms by (auto simp: sel_ok_def)
  have stay: "fold (sel_step ct) xs st' = st'" if "fst st' = 1" for xs st'
    by (induction xs) (use that in \<open>auto simp: sel_step_def split: option.splits\<close>)
  show ?thesis
    using \<open>fst st = 0\<close>
    by (induction xs rule: first_some.induct) (auto simp: sel_step_def stay)
qed

text \<open>What a slot yields, read from the medium.\<close>

definition slot_at :: "'g KeyslotStoreCfg \<Rightarrow> 'c KeyslotArea \<Rightarrow> bytes \<Rightarrow> nat \<Rightarrow> nat \<Rightarrow> bytes option" where
  "slot_at cfg area pass ct i =
     (case area_read area (of_nat i * 1024) 1024 of None \<Rightarrow> None | Some rec \<Rightarrow> slot_open cfg pass ct rec)"

definition reads_full :: "'c KeyslotArea \<Rightarrow> bool" where
  "reads_full area \<longleftrightarrow> (\<forall>off b. area_read area off 1024 = Some b \<longrightarrow> length b = 1024)"

lemma reads_fullD: "reads_full area \<Longrightarrow> area_read area off 1024 = Some b \<Longrightarrow> length b = 1024"
  by (auto simp: reads_full_def)

lemma length_slot_at:
  assumes "reads_full area" "46 + ct \<le> 1024" "slot_at cfg area pass ct i = Some pt"
  shows "length pt = ct"
  using assms reads_fullD [OF assms(1)]
  by (auto simp: slot_at_def dest!: slot_open_Some split: option.splits)

lemma ks_scan_serial_first:
  assumes "reads_full area" "46 + ct + 32 \<le> 1024" "ct \<le> length selp"
  shows "ks_scan_serial cfg area pass ct ns selp =
    fold (sel_step ct) (map (slot_at cfg area pass ct) [0..<unat ns]) (0, selp)"
proof -
  define f where "f = (\<lambda>i (found, selp).
        case area_read area (of_nat i * 1024) 1024 of
          None \<Rightarrow> (found, selp)
        | Some rec \<Rightarrow> (let (m, tmp) = ks_unwrap_rec cfg pass ct rec (zeros 1024)
                      in ks_select m tmp ct (found, selp)))"
  have step: "f i st = sel_step ct (slot_at cfg area pass ct i) st" if "sel_ok ct st" for i st
  proof (cases "area_read area (of_nat i * 1024) 1024")
    case None
    then show ?thesis by (simp add: f_def slot_at_def sel_step_def split: prod.splits)
  next
    case (Some rec)
    then have len: "length rec = 1024" using assms(1) reads_fullD by blast
    have "take ct (store_at 0 (slot_plain cfg pass ct rec) (zeros 1024)) = slot_plain cfg pass ct rec"
      using len assms(2) by (simp add: store_at_def)
    with that show ?thesis
      using len assms(2) Some
      by (auto simp: f_def slot_at_def ks_unwrap_rec_spec intro!: ks_select_step
          dest: slot_open_Some split: prod.splits)
  qed
  have "fold f xs st = fold (sel_step ct) (map (slot_at cfg area pass ct) xs) st \<and>
      sel_ok ct (fold f xs st)" if "sel_ok ct st" for xs st
    using that
  proof (induction xs arbitrary: st)
    case (Cons x xs)
    moreover have "sel_ok ct (f x st)"
      unfolding step [OF Cons.prems]
      by (intro sel_step_ok Cons.prems length_slot_at [OF assms(1)]) (use assms(2) in simp)
    ultimately show ?case using Cons.IH [of "f x st"] step [OF Cons.prems] by simp
  qed simp
  moreover have "sel_ok ct (0, selp)" using assms(3) by (simp add: sel_ok_def)
  ultimately show ?thesis unfolding ks_scan_serial_def f_def [symmetric] by blast
qed

section \<open>The parallel scan\<close>

text \<open>One batch after its serial reads, and the batch while the executor is at work: the indices in
  \<open>D\<close> have been run.\<close>

definition batch_read :: "'c KeyslotArea \<Rightarrow> nat \<Rightarrow> nat \<Rightarrow> KsParScan \<Rightarrow> bool" where
  "batch_read area base bn sc \<longleftrightarrow>
     length (sc_okread sc) = 16 \<and> length (sc_recs sc) = 16 * 1024 \<and>
     (\<forall>j<bn. case area_read area (of_nat (base + j) * 1024) 1024 of
        None \<Rightarrow> \<not> sc_okread sc ! j
      | Some r \<Rightarrow> sc_okread sc ! j \<and> slice (j * 1024) 1024 (sc_recs sc) = r)"

lemma batch_read_upd [simp]:
  "batch_read area base bn (sc\<lparr>sc_tmps := x\<rparr>) = batch_read area base bn sc"
  "batch_read area base bn (sc\<lparr>sc_mret := y\<rparr>) = batch_read area base bn sc"
  by (simp_all add: batch_read_def cong: option.case_cong)

lemma slot_store_other:
  assumes "i \<noteq> j" "length r = w" "i * w + w \<le> length buf" "j * w + w \<le> length buf"
  shows "slice (j * w) w (store_at (i * w) r buf) = slice (j * w) w buf"
proof (cases "j < i")
  case True
  then have "Suc j * w \<le> i * w" by (intro mult_le_mono1) simp
  then show ?thesis using assms by (intro slice_store_before) simp_all
next
  case False
  then have "Suc i * w \<le> j * w" using assms(1) by (intro mult_le_mono1) simp
  then show ?thesis using assms by (intro slice_store_after) simp_all
qed

lemma slot_bound: "j < 16 \<Longrightarrow> j * w + w \<le> 16 * (w :: nat)"
  using mult_le_mono1 [of "Suc j" 16 w] by simp

lemma ks_read_batch_read:
  assumes "reads_full area" "bn \<le> 16" "length (sc_okread sc) = 16" "length (sc_recs sc) = 16 * 1024"
  shows "batch_read area base bn (ks_read_batch area base bn sc) \<and>
    sc_tmps (ks_read_batch area base bn sc) = sc_tmps sc \<and>
    sc_mret (ks_read_batch area base bn sc) = sc_mret sc"
  using assms(2)
proof (induction bn)
  case 0
  then show ?case using assms by (simp add: ks_read_batch_def batch_read_def)
next
  case (Suc n)
  define st where "st = ks_read_batch area base n sc"
  have IH: "batch_read area base n st" "sc_tmps st = sc_tmps sc" "sc_mret st = sc_mret sc"
    using Suc by (simp_all add: st_def)
  have step: "ks_read_batch area base (Suc n) sc = (case area_read area (of_nat (base + n) * 1024) 1024 of
          None \<Rightarrow> st\<lparr>sc_okread := (sc_okread st)[n := False]\<rparr>
        | Some r \<Rightarrow> st\<lparr>sc_okread := (sc_okread st)[n := True], sc_recs := store_at (n * 1024) r (sc_recs st)\<rparr>)"
    unfolding ks_read_batch_def st_def upt_Suc_append [OF le0] fold_append fold_simps comp_apply id_apply ..
  show ?case
  proof (cases "area_read area (of_nat (base + n) * 1024) 1024")
    case None
    with IH Suc.prems show ?thesis
      unfolding step by (auto simp: batch_read_def less_Suc_eq split: option.splits)
  next
    case (Some r)
    have r: "length r = 1024" using reads_fullD [OF assms(1) Some] .
    have n: "n * 1024 + 1024 \<le> 16 * 1024" using Suc.prems by simp
    have recs: "length (sc_recs st) = 16 * 1024" using IH by (simp add: batch_read_def)
    have "slice (j * 1024) 1024 (store_at (n * 1024) r (sc_recs st)) =
        (if j = n then r else slice (j * 1024) 1024 (sc_recs st))" if "j < 16" for j
      using slot_store_other [of n j r 1024 "sc_recs st"] slot_bound [OF that, of 1024] r n recs
      by (auto simp: slice_store_same)
    with Some r n recs IH Suc.prems show ?thesis
      unfolding step by (auto simp: batch_read_def less_Suc_eq length_store_at split: option.splits)
  qed
qed

definition batch_done :: "'g KeyslotStoreCfg \<Rightarrow> 'c KeyslotArea \<Rightarrow> bytes \<Rightarrow> nat \<Rightarrow> nat \<Rightarrow> nat \<Rightarrow> nat set
    \<Rightarrow> KsParScan \<Rightarrow> bool" where
  "batch_done cfg area pass ct base bn D sc \<longleftrightarrow>
     batch_read area base bn sc \<and> length (sc_tmps sc) = 16 * 1024 \<and> length (sc_mret sc) = 16 \<and>
     (\<forall>j<bn. if j \<in> D
        then sc_mret sc ! j = (if slot_at cfg area pass ct (base + j) = None then 0 else 1) \<and>
             (\<forall>pt. slot_at cfg area pass ct (base + j) = Some pt \<longrightarrow> slice (j * ct) ct (sc_tmps sc) = pt)
        else sc_mret sc ! j = - 1)"

lemma ks_par_scan_body_done:
  assumes "batch_done cfg area pass ct base bn D sc" "i < bn" "bn \<le> 16" "46 + ct + 32 \<le> 1024"
    "reads_full area"
  shows "batch_done cfg area pass ct base bn (insert i D) (ks_par_scan_body cfg pass ct i sc)"
proof (cases "area_read area (of_nat (base + i) * 1024) 1024")
  case None
  then have "\<not> sc_okread sc ! i" "slot_at cfg area pass ct (base + i) = None"
    using assms(1,2) by (auto simp: batch_done_def batch_read_def slot_at_def split: option.splits)
  then show ?thesis
    using assms(1-3)
    by (auto simp: ks_par_scan_body_def batch_done_def batch_read_def nth_list_update split: option.splits)
next
  case (Some r)
  define pt where "pt = slot_plain cfg pass ct r"
  have r: "length r = 1024" using reads_fullD [OF assms(5) Some] .
  have ok: "sc_okread sc ! i" "slice (i * 1024) 1024 (sc_recs sc) = r"
    using assms(1,2) Some by (auto simp: batch_done_def batch_read_def split: option.splits)
  have slot: "slot_at cfg area pass ct (base + i) = slot_open cfg pass ct r" using Some by (simp add: slot_at_def)
  have tmps: "length (sc_tmps sc) = 16 * 1024" "16 * ct \<le> 16 * 1024" using assms(1,4) by (simp_all add: batch_done_def)
  have bound: "j * ct + ct \<le> length (sc_tmps sc)" if "j < 16" for j
    using slot_bound [OF that, of ct] tmps by linarith
  have pt: "length pt = ct" using r assms(4) by (simp add: pt_def)
  have "store_at 0 pt (slice (i * ct) ct (sc_tmps sc)) = pt"
    using pt bound [of i] assms(2,3) by (simp add: store_at_def)
  then have body: "ks_par_scan_body cfg pass ct i sc =
      sc\<lparr>sc_tmps := store_at (i * ct) pt (sc_tmps sc),
         sc_mret := (sc_mret sc)[i := if slot_open cfg pass ct r = None then 0 else 1]\<rparr>"
    using ok r assms(4) by (simp add: ks_par_scan_body_def ks_unwrap_rec_spec pt_def Let_def)
  have "slice (j * ct) ct (store_at (i * ct) pt (sc_tmps sc)) =
      (if j = i then pt else slice (j * ct) ct (sc_tmps sc))" if "j < 16" for j
    using slot_store_other [of i j pt ct "sc_tmps sc"] bound [OF that] bound [of i] pt assms(2,3)
    by (auto simp: slice_store_same)
  moreover have "length (store_at (i * ct) pt (sc_tmps sc)) = 16 * 1024"
    using bound [of i] pt tmps assms(2,3) by (simp add: length_store_at)
  moreover have "slot_open cfg pass ct r = Some x \<Longrightarrow> x = pt" for x
    using slot_open_Some unfolding pt_def by blast
  ultimately show ?thesis
    using assms(1-3) slot unfolding body
    by (auto simp: batch_done_def nth_list_update)
qed

lemma ks_par_scan_bodies_done:
  assumes "batch_done cfg area pass ct base bn D sc" "set is \<subseteq> {..<bn}" "bn \<le> 16" "46 + ct + 32 \<le> 1024"
    "reads_full area"
  shows "batch_done cfg area pass ct base bn (D \<union> set is) (fold (ks_par_scan_body cfg pass ct) is sc)"
  using assms(1,2)
proof (induction "is" arbitrary: D sc)
  case (Cons i js)
  then show ?case
    using ks_par_scan_body_done [of cfg area pass ct base bn D sc i] assms(3-5) Cons.IH [of "insert i D"]
    by auto
qed simp


text \<open>A batch folds what its slots yield into the state, in index order. A slot the executor did not
  run counts as one that does not open.\<close>

definition slot_run :: "'g KeyslotStoreCfg \<Rightarrow> 'c KeyslotArea \<Rightarrow> bytes \<Rightarrow> nat \<Rightarrow> nat \<Rightarrow> nat set \<Rightarrow> nat \<Rightarrow> bytes option" where
  "slot_run cfg area pass ct base D j = (if j \<in> D then slot_at cfg area pass ct (base + j) else None)"

definition scan_ok :: "KsParScan \<Rightarrow> bool" where
  "scan_ok sc \<longleftrightarrow> length (sc_okread sc) = 16 \<and> length (sc_recs sc) = 16 * 1024 \<and>
     length (sc_tmps sc) = 16 * 1024 \<and> length (sc_mret sc) = 16"

lemma fold_reset:
  "fold (\<lambda>j r. r[j := - 1]) [0..<n] xs = map (\<lambda>j. if j < n then - 1 else xs ! j) [0..<length xs]"
  by (induction n) (auto intro!: nth_equalityI simp: map_nth nth_list_update less_Suc_eq)

lemma ks_batch_spec:
  assumes "reads_full area" "46 + ct + 32 \<le> 1024" "sel_ok ct st" "scan_ok sc" "base < ns"
    "bn = min 16 (ns - base)" "set (pf bn) \<subseteq> {..<bn}"
  shows "\<exists>sc'. ks_batch cfg area pass ct ns pf base (fst st, snd st, sc) =
      (let st' = fold (sel_step ct) (map (slot_run cfg area pass ct base (set (pf bn))) [0..<bn]) st
       in (fst st', snd st', sc')) \<and> scan_ok sc' \<and>
      sel_ok ct (fold (sel_step ct) (map (slot_run cfg area pass ct base (set (pf bn))) [0..<bn]) st)"
proof -
  define sc1 where "sc1 = ks_read_batch area base bn sc"
  define sc2 where "sc2 = sc1\<lparr>sc_mret := fold (\<lambda>j r. r[j := - 1]) [0..<bn] (sc_mret sc1)\<rparr>"
  define sc3 where "sc3 = fold (ks_par_scan_body cfg pass ct) (pf bn) sc2"
  have bn: "bn \<le> 16" "(if ns - base < 16 then ns - base else 16) = bn" using assms(6) by auto
  have sc1: "batch_read area base bn sc1" "sc_tmps sc1 = sc_tmps sc" "sc_mret sc1 = sc_mret sc"
    using ks_read_batch_read [OF assms(1) bn(1), of sc base] assms(4) by (simp_all add: sc1_def scan_ok_def)
  have "batch_done cfg area pass ct base bn {} sc2"
    using sc1 assms(4) bn(1) by (simp add: batch_done_def sc2_def fold_reset scan_ok_def)
  then have bd: "batch_done cfg area pass ct base bn (set (pf bn)) sc3"
    using ks_par_scan_bodies_done [of cfg area pass ct base bn "{}" sc2 "pf bn"] assms bn(1)
    by (simp add: sc3_def)
  then have ok3: "scan_ok sc3" by (simp add: batch_done_def batch_read_def scan_ok_def)
  define f where "f = (\<lambda>j fs. let m = sc_mret sc3 ! j; m = (if m < 0 then 0 else m)
             in ks_select m (slice (j * ct) ct (sc_tmps sc3)) ct fs)"
  have run_len: "length pt = ct" if "slot_run cfg area pass ct base (set (pf bn)) j = Some pt" for j pt
  proof -
    have "46 + ct \<le> 1024" using assms(2) by simp
    then show ?thesis
      using that length_slot_at [OF assms(1), of ct cfg pass "base + j" pt]
      by (simp add: slot_run_def split: if_splits)
  qed
  have step: "f j s = sel_step ct (slot_run cfg area pass ct base (set (pf bn)) j) s"
    if "j < bn" "sel_ok ct s" for j s
  proof -
    have "j < 16" using that(1) bn(1) by simp
    from slot_bound [OF this, of ct] have "j * ct + ct \<le> 16 * 1024" using assms(2) by linarith
    then have "length (slice (j * ct) ct (sc_tmps sc3)) = ct"
      using ok3 by (simp add: scan_ok_def)
    then show ?thesis
      unfolding f_def Let_def
      by (intro ks_select_step that(2))
         (use bd that(1) run_len [of j] in \<open>auto simp: batch_done_def slot_run_def split: if_splits\<close>)
  qed
  have folds: "fold f js s = fold (sel_step ct) (map (slot_run cfg area pass ct base (set (pf bn))) js) s \<and>
      sel_ok ct (fold f js s)" if "set js \<subseteq> {..<bn}" "sel_ok ct s" for js s
    using that
  proof (induction js arbitrary: s)
    case (Cons j js)
    have fj: "f j s = sel_step ct (slot_run cfg area pass ct base (set (pf bn)) j) s"
      using Cons.prems by (intro step) auto
    then have "sel_ok ct (f j s)"
      unfolding fj by (intro sel_step_ok Cons.prems run_len)
    moreover have "set js \<subseteq> {..<bn}" using Cons.prems(1) by simp
    ultimately have "fold f js (f j s) = fold (sel_step ct) (map (slot_run cfg area pass ct base (set (pf bn))) js) (f j s) \<and>
      sel_ok ct (fold f js (f j s))" by (intro Cons.IH)
    then show ?case
      unfolding list.map fold_simps fj .
  qed simp
  have
    "fold f [0..<bn] st = fold (sel_step ct) (map (slot_run cfg area pass ct base (set (pf bn))) [0..<bn]) st \<and>
     sel_ok ct (fold f [0..<bn] st)" by (rule folds [OF _ assms(3)]) auto
  then have fin:
    "fold f [0..<bn] st = fold (sel_step ct) (map (slot_run cfg area pass ct base (set (pf bn))) [0..<bn]) st"
    "sel_ok ct (fold f [0..<bn] st)" by blast+
  have "ks_batch cfg area pass ct ns pf base (fst st, snd st, sc) =
      (fst (fold f [0..<bn] st), snd (fold f [0..<bn] st), sc3)"
    unfolding ks_batch_def Let_def prod.case bn(2) sc1_def [symmetric] sc2_def [symmetric] sc3_def [symmetric]
      f_def [unfolded Let_def, symmetric] prod.collapse
    by (simp add: case_prod_beta)
  then show ?thesis using fin ok3 by (simp add: Let_def)
qed


text \<open>All batches: the executor's choice of indices in each batch decides which slots take part.\<close>

definition slot_ran :: "'g KeyslotStoreCfg \<Rightarrow> 'c KeyslotArea \<Rightarrow> bytes \<Rightarrow> nat \<Rightarrow> nat \<Rightarrow> (nat \<Rightarrow> nat list) \<Rightarrow> nat \<Rightarrow> bytes option" where
  "slot_ran cfg area pass ct ns pf i =
     (if i mod 16 \<in> set (pf (min 16 (ns - i div 16 * 16))) then slot_at cfg area pass ct i else None)"

definition executor_ok :: "(nat \<Rightarrow> nat list) \<Rightarrow> bool" where
  "executor_ok pf \<longleftrightarrow> (\<forall>n. set (pf n) \<subseteq> {..<n})"

lemma upt_batches: "[0..<n] = concat (map (\<lambda>b. [b..<b + min 16 (n - b)]) (map (\<lambda>k. k * 16) [0..<(n + 15) div 16]))"
proof -
  have "concat (map (\<lambda>b. [b..<b + min 16 (n - b)]) (map (\<lambda>k. k * 16) [0..<m])) = [0..<min (m * 16) n]" for m
  proof (induction m)
    case (Suc m)
    show ?case
    proof (cases "m * 16 \<le> n")
      case True
      then have "min (Suc m * 16) n = m * 16 + min 16 (n - m * 16)" by simp
      moreover have "[0..<m * 16 + min 16 (n - m * 16)] = [0..<m * 16] @ [m * 16..<m * 16 + min 16 (n - m * 16)]"
        by (rule upt_add_eq_append) simp
      ultimately show ?thesis using True Suc by simp
    next
      case False
      then have "min (Suc m * 16) n = min (m * 16) n" "n - m * 16 = 0" by simp_all
      with Suc show ?thesis by simp
    qed
  qed simp
  moreover have "n \<le> (n + 15) div 16 * 16" using div_mult_mod_eq [of "n + 15" 16] by linarith
  ultimately show ?thesis by (simp only: min_absorb2)
qed

lemma ks_scan_labeled_parallel_ran:
  assumes "reads_full area" "46 + ct + 32 \<le> 1024" "ct \<le> length selp" "executor_ok pf"
  shows "ks_scan_labeled_parallel cfg area pass ct ns selp pf =
    fold (sel_step ct) (map (slot_ran cfg area pass ct (unat ns) pf) [0..<unat ns]) (0, selp)"
proof -
  define n where "n = unat ns"
  define g where "g = (\<lambda>b. map (slot_ran cfg area pass ct n pf) [b..<b + min 16 (n - b)])"
  have chunk: "map (slot_run cfg area pass ct b (set (pf (min 16 (n - b))))) [0..<min 16 (n - b)] = g b"
    if "16 dvd b" for b
  proof (rule nth_equalityI)
    fix j assume "j < length (map (slot_run cfg area pass ct b (set (pf (min 16 (n - b))))) [0..<min 16 (n - b)])"
    then have "j < 16" "j < n - b" by auto
    from that obtain k where "b = 16 * k" by (elim dvdE)
    with \<open>j < 16\<close> have "(b + j) mod 16 = j" "(b + j) div 16 * 16 = b" by simp_all
    then show "map (slot_run cfg area pass ct b (set (pf (min 16 (n - b))))) [0..<min 16 (n - b)] ! j = g b ! j"
      using \<open>j < 16\<close> \<open>j < n - b\<close> by (simp add: g_def slot_run_def slot_ran_def)
  qed (simp add: g_def)
  have all: "\<exists>sc'. fold (ks_batch cfg area pass ct n pf) bs (fst st, snd st, sc) =
      (let st' = fold (sel_step ct) (concat (map g bs)) st in (fst st', snd st', sc'))"
    if "\<forall>b\<in>set bs. 16 dvd b \<and> b < n" "sel_ok ct st" "scan_ok sc" for bs st sc
    using that
  proof (induction bs arbitrary: st sc)
    case (Cons b bs)
    define st1 where "st1 = fold (sel_step ct) (g b) st"
    have b: "16 dvd b" "b < n" using Cons.prems(1) by simp_all
    from ks_batch_spec [OF assms(1,2) Cons.prems(2,3) b(2) refl, of pf cfg pass] assms(4)
    obtain sc1 where "ks_batch cfg area pass ct n pf b (fst st, snd st, sc) = (fst st1, snd st1, sc1)"
      "scan_ok sc1" "sel_ok ct st1"
      unfolding chunk [OF b(1)] st1_def [symmetric] executor_ok_def Let_def by auto
    then show ?case using Cons.IH [of st1 sc1] Cons.prems(1) by (simp add: st1_def)
  qed simp
  define bs where "bs = map (\<lambda>k. k * 16) [0..<(n + 15) div 16]"
  define sc where "sc = \<lparr>sc_recs = zeros (16 * 1024), sc_okread = replicate 16 False,
                sc_tmps = zeros (16 * 1024), sc_mret = replicate 16 (0 :: int)\<rparr>"
  have "k * 16 < n" if "k < (n + 15) div 16" for k using that by linarith
  then have bs: "\<forall>b\<in>set bs. 16 dvd b \<and> b < n" by (simp add: bs_def)
  have "sel_ok ct (0, selp)" "scan_ok sc" using assms(3) by (simp_all add: sel_ok_def scan_ok_def sc_def)
  from all [OF bs this] obtain sc' where "fold (ks_batch cfg area pass ct n pf) bs (0, selp, sc) =
      (let st' = fold (sel_step ct) (concat (map g bs)) (0, selp) in (fst st', snd st', sc'))"
    unfolding fst_conv snd_conv by blast
  moreover have "concat (map g bs) = map (slot_ran cfg area pass ct n pf) [0..<n]"
    unfolding g_def bs_def by (subst upt_batches [of n]) (simp only: map_concat map_map comp_def)
  ultimately show ?thesis
    unfolding ks_scan_labeled_parallel_def n_def [symmetric] sc_def [symmetric] bs_def [symmetric] Let_def
    by simp
qed

text \<open>An executor that runs every index gives the serial scan.\<close>

lemma ks_scan_parallel_serial:
  assumes "reads_full area" "46 + ct + 32 \<le> 1024" "ct \<le> length selp" "\<And>n. set (pf n) = {..<n}"
  shows "ks_scan_labeled_parallel cfg area pass ct ns selp pf = ks_scan_serial cfg area pass ct ns selp"
proof -
  have "slot_ran cfg area pass ct (unat ns) pf i = slot_at cfg area pass ct i" if "i < unat ns" for i
  proof -
    have "i mod 16 < unat ns - i div 16 * 16" using that div_mult_mod_eq [of i 16] by linarith
    then show ?thesis by (simp add: slot_ran_def assms(4))
  qed
  then have "map (slot_ran cfg area pass ct (unat ns) pf) [0..<unat ns] = map (slot_at cfg area pass ct) [0..<unat ns]"
    by simp
  then show ?thesis
    using assms
    by (simp only: ks_scan_labeled_parallel_ran ks_scan_serial_first executor_ok_def order_refl simp_thms)
qed

section \<open>Records\<close>

definition labeled_header :: "'g KeyslotStoreCfg \<Rightarrow> bytes \<Rightarrow> bytes" where
  "labeled_header cfg salt =
     VCKS @ [if af_of cfg \<ge> 2 then 2 else 1, 1] @
     (if af_of cfg \<ge> 2 then put_u16 (of_int (af_of cfg)) else [0, 0]) @
     put_u32 (cost cfg) @ put_u16 (of_int (plen_of cfg)) @ salt"

lemma length_VCKS [simp]: "length VCKS = 4"
  by (simp add: VCKS_def)

lemma length_put [simp]: "length (put_u16 v) = 2" "length (put_u32 v) = 4" "length (put_u64_be w) = 8"
  by (simp_all add: put_u16_def put_u32_def put_u64_be_def)

lemma length_labeled_header [simp]: "length salt = 32 \<Longrightarrow> length (labeled_header cfg salt) = 46"
  by (simp add: labeled_header_def)

lemma list_update_append_at: "n = length a \<Longrightarrow> r \<noteq> [] \<Longrightarrow> (a @ r)[n := x] = (a @ [x]) @ drop 1 r"
  by (cases r) simp_all

lemma store_at_append': "n = length a \<Longrightarrow> store_at n b (a @ r) = (a @ b) @ drop (length b) r"
  by (simp add: store_at_append)

lemma labeled_record_layout:
  assumes "length rec = 1024" "length salt = 32" "ct = nat (ct_of cfg)" "46 + ct + 32 \<le> 1024" "ct \<le> length blob"
  shows "labeled_record cfg rec salt pass blob =
    (let h = labeled_header cfg salt; dk = kdf cfg pass salt (cost cfg) 72; c = dk_cipher dk (take ct blob)
     in h @ c @ dk_tag dk h c @ drop (46 + ct + 32) rec)"
proof -
  define h where "h = labeled_header cfg salt"
  have h: "length h = 46" using assms(2) by (simp add: h_def)
  define r5 where "r5 = (let rec = store_at 0 VCKS rec;
          rec = rec[4 := (if af_of cfg \<ge> 2 then 2 else 1)] in rec[5 := 1])"
  have "store_at 0 VCKS rec = VCKS @ drop 4 rec" by (simp add: store_at_def)
  then have r5: "r5 = (VCKS @ [if af_of cfg \<ge> 2 then 2 else 1, 1]) @ drop 6 rec"
    using assms(1) by (simp add: r5_def Let_def list_update_append_at del: append_assoc)
  have r8: "(if af_of cfg \<ge> 2 then store_at 6 (put_u16 (of_int (af_of cfg))) r5 else r5[6 := 0, 7 := 0]) =
      (VCKS @ [if af_of cfg \<ge> 2 then 2 else 1, 1] @
       (if af_of cfg \<ge> 2 then put_u16 (of_int (af_of cfg)) else [0, 0])) @ drop 8 rec"
    unfolding r5 using assms(1)
    by (simp add: store_at_append' list_update_append_at del: append_assoc)
  have r46: "store_at 14 salt (store_at 12 (put_u16 (of_int (plen_of cfg))) (store_at 8 (put_u32 (cost cfg))
      (if af_of cfg \<ge> 2 then store_at 6 (put_u16 (of_int (af_of cfg))) r5 else r5[6 := 0, 7 := 0]))) =
      h @ drop 46 rec"
    unfolding r8 using assms(1,2)
    by (simp add: store_at_append' del: append_assoc) (simp add: h_def labeled_header_def)
  have c: "KeyslotWrap (kdf cfg) (cost cfg) pass salt h (slice 0 ct blob) =
      (let dk = kdf cfg pass salt (cost cfg) 72; c = dk_cipher dk (take ct blob) in (c, dk_tag dk h c))"
    using h assms(4) by (simp add: KeyslotWrap_def KeyslotWrapWithDK_spec slice_def Let_def)
  have "slice 0 46 (h @ drop 46 rec) = h" using h by (simp add: slice_def)
  moreover have "store_at (46 + length c) tag (store_at 46 c (h @ drop 46 rec)) =
      h @ c @ tag @ drop (46 + length c + length tag) rec" for c tag
    using h store_at_append [of "46 + length c" "h @ c" tag "drop (length c + 46) rec"]
    by (simp add: store_at_append add.commute add.left_commute)
  moreover have "length (dk_cipher dk (take ct blob)) = ct" for dk using assms(5) by simp
  ultimately show ?thesis
    unfolding labeled_record_def Let_def r5_def [unfolded Let_def, symmetric] r46 assms(3) [symmetric] h_def [symmetric]
    using c unfolding Let_def by (metis (no_types, lifting) length_dk_tag prod.case)
qed

lemma labeled_record_props:
  assumes "length rec = 1024" "length salt = 32" "ct = nat (ct_of cfg)" "46 + ct + 32 \<le> 1024" "ct \<le> length blob"
    "r = labeled_record cfg rec salt pass blob"
  shows "length r = 1024" "slice 0 4 r = VCKS" "slice 0 46 r = labeled_header cfg salt"
    "slot_open cfg pass ct r = Some (take ct blob)" "drop (46 + ct + 32) r = drop (46 + ct + 32) rec"
proof -
  define h dk c where "h = labeled_header cfg salt" and "dk = kdf cfg pass salt (cost cfg) 72"
    and "c = dk_cipher dk (take ct blob)"
  have r: "r = h @ c @ dk_tag dk h c @ drop (46 + ct + 32) rec"
    using labeled_record_layout [OF assms(1-5)] assms(6) by (simp add: h_def dk_def c_def Let_def)
  have len: "length h = 46" "length c = ct" "min (length blob) ct = ct" using assms by (simp_all add: h_def c_def)
  show "length r = 1024" using r len assms(1,4) by simp
  show "slice 0 46 r = labeled_header cfg salt" using r len by (simp add: slice_def h_def)
  have "slice 0 4 h = VCKS" by (simp add: h_def labeled_header_def slice_def)
  then show "slice 0 4 r = VCKS" using r len by (simp add: slice_append_left)
  have "slice 14 32 h = salt" using assms(2) by (simp add: h_def labeled_header_def slice_def)
  then have "slice 14 32 r = salt" using r len by (simp add: slice_append_left)
  moreover have "slice 46 ct r = c" "slice (46 + ct) 32 r = dk_tag dk h c" "slice 0 46 r = h"
    using r len by (simp_all add: slice_def)
  ultimately show "slot_open cfg pass ct r = Some (take ct blob)"
    by (simp add: slot_open_def dk_def [symmetric] c_def Let_def)
  show "drop (46 + ct + 32) r = drop (46 + ct + 32) rec" using r len by simp
qed

text \<open>Merging looks only at the first \<open>n * s\<close> bytes.\<close>

lemma AfMerge_take:
  assumes "take (nat s * nat n) st = take (nat s * nat n) st'"
  shows "AfMerge st n s out = AfMerge st' n s out"
proof (cases "n \<le> 0 \<or> n > 1024 \<or> s < 1")
  case True
  then show ?thesis by (auto simp: AfMerge_def)
next
  case False
  have sl: "slice (i * nat n) (nat n) st = slice (i * nat n) (nat n) st'" if "i < nat s" for i
  proof -
    have "Suc i * nat n \<le> nat s * nat n" using that by (intro mult_le_mono1) simp
    then have "slice (i * nat n) (nat n) xs = slice (i * nat n) (nat n) (take (nat s * nat n) xs)" for xs :: bytes
      by (simp add: slice_def drop_take min_absorb1)
    then show ?thesis using assms by metis
  qed
  have "fold (af_merge_step st (nat n)) [0..<nat s - 1] b = fold (af_merge_step st' (nat n)) [0..<nat s - 1] b" for b
    by (rule fold_cong) (auto simp: af_merge_step_def sl fun_eq_iff)
  moreover have "slice ((nat s - 1) * nat n) (nat n) st = slice ((nat s - 1) * nat n) (nat n) st'"
    using False by (intro sl) simp
  ultimately show ?thesis using False by (simp add: AfMerge_def Let_def)
qed


section \<open>Configurations the code accepts\<close>

definition cfg_ok :: "'g KeyslotStoreCfg \<Rightarrow> bool" where
  "cfg_ok cfg \<longleftrightarrow> is_labeled (backend cfg) \<and> 0 < vmkLen cfg \<and> vmkLen cfg \<le> 512 \<and> rec_fits cfg \<and>
     (\<forall>k g. length (fst (randBytes cfg k g)) = k)"

lemma cfg_okD:
  assumes "cfg_ok cfg"
  shows "is_labeled (backend cfg)" "0 < vmkLen cfg" "vmkLen cfg \<le> 512" "rec_fits cfg"
    "length (fst (randBytes cfg k g)) = k" "0 < plen_of cfg" "plen_of cfg \<le> 521" "1 \<le> af_of cfg"
    "46 + nat (ct_of cfg) + 32 \<le> 1024" "nat (ct_of cfg) = nat (af_of cfg) * nat (plen_of cfg)"
    "nat (plen_of cfg) \<le> nat (ct_of cfg)"
proof -
  show "is_labeled (backend cfg)" "0 < vmkLen cfg" "vmkLen cfg \<le> 512" "rec_fits cfg"
    "length (fst (randBytes cfg k g)) = k"
    using assms by (simp_all add: cfg_ok_def)
  show p: "0 < plen_of cfg" "plen_of cfg \<le> 521" using assms by (auto simp: cfg_ok_def plen_of_def)
  show s: "1 \<le> af_of cfg" by (simp add: af_of_def)
  show ct: "nat (ct_of cfg) = nat (af_of cfg) * nat (plen_of cfg)"
    using p s by (simp add: ct_of_def nat_mult_distrib mult.commute)
  show "46 + nat (ct_of cfg) + 32 \<le> 1024" using assms by (auto simp: cfg_ok_def rec_fits_def nat_le_iff split: if_splits)
  show "nat (plen_of cfg) \<le> nat (ct_of cfg)" unfolding ct using s by (simp add: Suc_le_eq)
qed

text \<open>The result of a successful open: flags and key out of the merged payload.\<close>

definition open_result :: "'g KeyslotStoreCfg \<Rightarrow> bytes \<Rightarrow> bytes \<Rightarrow> int ptr \<Rightarrow> int \<times> bytes \<times> int ptr" where
  "open_result cfg pt vmkOut flagsOut =
     (let payload = AfMerge pt (plen_of cfg) (af_of cfg) (zeros 521)
      in (1, store_at 0 (slice 1 (nat (vmkLen cfg)) payload) vmkOut, map_option (\<lambda>_. uint (payload ! 0)) flagsOut))"

lemma AfMerge_padded:
  "cfg_ok cfg \<Longrightarrow> length pt = nat (ct_of cfg) \<Longrightarrow>
   AfMerge (pt @ xs) (plen_of cfg) (af_of cfg) out = AfMerge pt (plen_of cfg) (af_of cfg) out"
  by (rule AfMerge_take) (simp add: cfg_okD(10) [symmetric])

text \<open>What was split and wrapped comes out again.\<close>

lemma open_result_split:
  assumes "cfg_ok cfg" "length payload = nat (plen_of cfg)" "blob = take (nat (ct_of cfg)) st"
    "\<forall>out. AfMerge st (plen_of cfg) (af_of cfg) out = store_at 0 payload out" "length st = 1024"
  shows "open_result cfg blob vmkOut flagsOut =
    (1, store_at 0 (slice 1 (nat (vmkLen cfg)) payload) vmkOut, map_option (\<lambda>_. uint (payload ! 0)) flagsOut)"
proof -
  have "AfMerge blob (plen_of cfg) (af_of cfg) out = AfMerge st (plen_of cfg) (af_of cfg) out" for out
    by (rule AfMerge_take) (simp add: assms(3) cfg_okD(10) [OF assms(1), symmetric])
  then have "AfMerge blob (plen_of cfg) (af_of cfg) (zeros 521) = payload @ drop (length payload) (zeros 521)"
    using assms(4) by (simp add: store_at_def)
  moreover have "1 + nat (vmkLen cfg) \<le> length payload" "0 < length payload"
    using assms(2) cfg_okD(2) [OF assms(1)] by (auto simp: plen_of_def nat_add_distrib)
  ultimately show ?thesis
    by (simp add: open_result_def Let_def slice_append_left nth_append)
qed

text \<open>The scan of the labeled table opens the first slot that accepts the passphrase, with any executor
  that runs every index it is given.\<close>

definition slots_of :: "'g KeyslotStoreCfg \<Rightarrow> 'c KeyslotArea \<Rightarrow> bytes \<Rightarrow> bytes option list" where
  "slots_of cfg area pass = map (slot_at cfg area pass (nat (ct_of cfg))) [0..<unat (n_slots cfg area)]"

lemma first_some_length:
  "first_some xs = Some x \<Longrightarrow> x \<in> Option.these (set xs)"
  by (induction xs rule: first_some.induct) (auto simp: in_these_eq)

lemma ks_open_labeled:
  assumes "cfg_ok cfg" "reads_full area" "pf = NULL \<or> (\<exists>ex. pf = Some ex \<and> (\<forall>n. set (ex n) = {..<n}))"
  shows "ks_open_impl cfg area pass vmkOut flagsOut pf =
    (case first_some (slots_of cfg area pass) of None \<Rightarrow> (0, vmkOut, flagsOut)
     | Some pt \<Rightarrow> open_result cfg pt vmkOut flagsOut)"
proof -
  define ct where "ct = nat (ct_of cfg)"
  have ct: "46 + ct + 32 \<le> 1024" "ct \<le> length (zeros 1024)"
    using cfg_okD(9) [OF assms(1)] by (simp_all add: ct_def)
  have "(if pf \<noteq> NULL \<and> n_slots cfg area > 1
         then ks_scan_labeled_parallel cfg area pass ct (n_slots cfg area) (zeros 1024) (the pf)
         else ks_scan_serial cfg area pass ct (n_slots cfg area) (zeros 1024)) =
      ks_scan_serial cfg area pass ct (n_slots cfg area) (zeros 1024)"
  proof (cases pf)
    case (Some ex)
    then have "ks_scan_labeled_parallel cfg area pass ct (n_slots cfg area) (zeros 1024) ex =
        ks_scan_serial cfg area pass ct (n_slots cfg area) (zeros 1024)"
      using assms(3) by (intro ks_scan_parallel_serial assms(2) ct) simp
    then show ?thesis by (simp add: Some)
  qed simp
  also have "\<dots> = (case first_some (slots_of cfg area pass) of None \<Rightarrow> (0, zeros 1024)
      | Some pt \<Rightarrow> (1, pt @ drop ct (zeros 1024)))"
    unfolding ks_scan_serial_first [OF assms(2) ct] slots_of_def ct_def [symmetric]
    by (subst sel_fold_first) (use ct in \<open>simp_all add: sel_ok_def split: option.splits\<close>)
  finally have scan: "(if pf \<noteq> NULL \<and> n_slots cfg area > 1
         then ks_scan_labeled_parallel cfg area pass ct (n_slots cfg area) (zeros 1024) (the pf)
         else ks_scan_serial cfg area pass ct (n_slots cfg area) (zeros 1024)) = \<dots>" .
  have len: "length pt = ct" if "first_some (slots_of cfg area pass) = Some pt" for pt
  proof -
    have "46 + ct \<le> 1024" using ct by simp
    then show ?thesis
      using first_some_length [OF that]
      by (auto simp: slots_of_def in_these_eq ct_def [symmetric] dest: sym intro: length_slot_at [OF assms(2)])
  qed
  show ?thesis
    unfolding ks_open_impl_def Let_def ct_def [symmetric] scan
    using cfg_okD(1,4) [OF assms(1)] AfMerge_padded [OF assms(1)] len
    by (auto simp: open_result_def Let_def ct_def [symmetric] split: option.splits)
qed

section \<open>The table on any medium that keeps the contract\<close>

definition slot_bytes :: "bytes \<Rightarrow> nat \<Rightarrow> bytes" where
  "slot_bytes m i = slice (i * 1024) 1024 m"

definition occupied :: "bytes \<Rightarrow> nat \<Rightarrow> bool" where
  "occupied m i \<longleftrightarrow> slice (i * 1024) 4 m = VCKS"

lemma occupied_slot_bytes: "occupied m i \<longleftrightarrow> slice 0 4 (slot_bytes m i) = VCKS"
  by (simp add: occupied_def slot_bytes_def slice_slice)

text \<open>Replacing a whole slot.\<close>

lemma slot_bytes_store:
  assumes "length r = 1024" "i * 1024 + 1024 \<le> length m"
  shows "slot_bytes (store_at (i * 1024) r m) j = (if j = i then r else slot_bytes m j)"
proof (cases "j * 1024 + 1024 \<le> length m \<or> j = i")
  case True
  then show ?thesis
    using assms slot_store_other [of i j r 1024 m] by (auto simp: slot_bytes_def slice_store_same)
next
  case False
  then have "i < j" using assms(2) by simp
  then have "Suc i * 1024 \<le> j * 1024" by (intro mult_le_mono1) simp
  then show ?thesis using assms False by (simp add: slot_bytes_def slice_store_after)
qed

lemma occupied_store:
  assumes "length r = 1024" "i * 1024 + 1024 \<le> length m"
  shows "occupied (store_at (i * 1024) r m) j = (if j = i then slice 0 4 r = VCKS else occupied m j)"
  using assms by (simp add: occupied_slot_bytes slot_bytes_store)

text \<open>The payload \<open>KeyslotAdd\<close> wraps: with \<open>policy = 0\<close> the flags and the key; otherwise also eight
  bytes of the array it never wrote.\<close>

definition add_payload :: "'g KeyslotStoreCfg \<Rightarrow> int \<Rightarrow> bytes \<Rightarrow> bytes \<Rightarrow> bytes" where
  "add_payload cfg flags vmk payload0 =
     of_int flags # vmk @ slice (1 + nat (vmkLen cfg)) (nat (plen_of cfg) - 1 - nat (vmkLen cfg)) payload0"

lemma add_payload_code:
  assumes "cfg_ok cfg" "length vmk = nat (vmkLen cfg)" "length payload0 = 521"
  shows "take (nat (plen_of cfg)) (store_at 1 (take (nat (vmkLen cfg)) vmk) (payload0[0 := of_int flags])) =
    add_payload cfg flags vmk payload0"
    "length (add_payload cfg flags vmk payload0) = nat (plen_of cfg)"
proof -
  have n: "nat (plen_of cfg) = 1 + nat (vmkLen cfg) + (nat (plen_of cfg) - 1 - nat (vmkLen cfg))"
    "nat (plen_of cfg) \<le> 521"
    using cfg_okD(2,3) [OF assms(1)] by (auto simp: plen_of_def nat_add_distrib)
  have "payload0[0 := of_int flags] = of_int flags # drop 1 payload0"
    using assms(3) by (cases payload0) simp_all
  then have "store_at 1 vmk (payload0[0 := of_int flags]) = of_int flags # vmk @ drop (1 + nat (vmkLen cfg)) payload0"
    using assms(2) by (simp add: store_at_def)
  then show "take (nat (plen_of cfg)) (store_at 1 (take (nat (vmkLen cfg)) vmk) (payload0[0 := of_int flags])) =
    add_payload cfg flags vmk payload0"
    using assms(2) by (subst n(1)) (simp add: add_payload_def slice_def)
  show "length (add_payload cfg flags vmk payload0) = nat (plen_of cfg)"
    using n assms(2,3) by (simp add: add_payload_def min_def) arith
qed

text \<open>Splitting always succeeds for an accepted configuration.\<close>

lemma AfSplit_cfg:
  assumes "cfg_ok cfg" "length payload = nat (plen_of cfg)"
  obtains st g' where
    "AfSplit (Some payload) (plen_of cfg) (af_of cfg) (Some (randBytes cfg)) g (Some (zeros 1024)) = (0, Some st, g')"
    "length st = 1024" "\<And>out. AfMerge st (plen_of cfg) (af_of cfg) out = store_at 0 payload out"
proof -
  note c = cfg_okD [OF assms(1)]
  have "nat (af_of cfg) * nat (plen_of cfg) \<le> length (zeros 1024)" using c(9,10) by simp
  with AfSplit_merges [of "plen_of cfg" "af_of cfg" payload "zeros 1024" "Some (randBytes cfg)" "randBytes cfg" g]
    c(5-8) assms(2) that show ?thesis by auto
qed

context byte_area
begin

lemma reads_full_area_of: "good c \<Longrightarrow> reads_full (area_of rd wr sz c)"
  by (auto simp: reads_full_def read_Some_iff)

lemma n_slots_bound:
  assumes "good c"
  shows "unat (n_slots cfg (area_of rd wr sz c)) * 1024 \<le> length (contents c)"
proof -
  have "n_slots cfg (area_of rd wr sz c) \<le> sz c div 1024"
    by (simp add: n_slots_def Let_def not_less)
  then have "unat (n_slots cfg (area_of rd wr sz c)) \<le> unat (sz c) div 1024"
    by (simp add: word_le_nat_alt unat_div)
  then show ?thesis using size_eq [OF assms] by (simp add: less_eq_div_iff_mult_less_eq)
qed

lemma n_slots_same_size:
  "unat (sz c) = unat (sz c') \<Longrightarrow> n_slots cfg (area_of rd wr sz c) = n_slots cfg (area_of rd wr sz c')"
  unfolding word_unat_eq_iff [symmetric] by (simp add: n_slots_def)

lemma slot_offset:
  assumes "good c" "i < unat (n_slots cfg (area_of rd wr sz c))"
  shows "unat (of_nat i * 1024 :: u64) = i * 1024" "i * 1024 + 1024 \<le> length (contents c)"
    "unat (of_nat i :: u64) = i"
proof -
  have "Suc i * 1024 \<le> unat (n_slots cfg (area_of rd wr sz c)) * 1024" using assms(2) by (intro mult_le_mono1) simp
  also have "\<dots> \<le> length (contents c)" by (rule n_slots_bound [OF assms(1)])
  finally show le: "i * 1024 + 1024 \<le> length (contents c)" by simp
  then have lt: "i * 1024 < 2 ^ 63" using size_bound [OF assms(1)] by linarith
  have "unat (of_nat (i * 1024) :: u64) = i * 1024"
    unfolding unat_of_nat using lt by (intro mod_less) simp
  then show "unat (of_nat i * 1024 :: u64) = i * 1024" by simp
  show "unat (of_nat i :: u64) = i" unfolding unat_of_nat using lt by (intro mod_less) simp
qed

lemma slot_read:
  assumes "good c" "i < unat (n_slots cfg (area_of rd wr sz c))" "n \<le> 1024"
  shows "rd c (of_nat i * 1024) n = Some (slice (i * 1024) n (contents c))"
  using read_in [OF assms(1), of "of_nat i * 1024" n] slot_offset [OF assms(1,2)] assms(3) by simp

lemma slot_at_bytes:
  "good c \<Longrightarrow> i < unat (n_slots cfg (area_of rd wr sz c)) \<Longrightarrow>
   slot_at cfg (area_of rd wr sz c) pass ct i = slot_open cfg pass ct (slot_bytes (contents c) i)"
  using slot_read [of c i cfg 1024] by (simp add: slot_at_def slot_bytes_def)

lemma slots_of_bytes:
  "good c \<Longrightarrow> slots_of cfg (area_of rd wr sz c) pass =
     map (\<lambda>i. slot_open cfg pass (nat (ct_of cfg)) (slot_bytes (contents c) i))
       [0..<unat (n_slots cfg (area_of rd wr sz c))]"
  by (simp add: slots_of_def slot_at_bytes)

lemma write_slot:
  assumes "good c" "i < unat (n_slots cfg (area_of rd wr sz c))" "length r = 1024"
  shows "\<exists>c'. wr c (of_nat i * 1024) r = (0, c') \<and> good c' \<and>
     contents c' = store_at (i * 1024) r (contents c) \<and>
     n_slots cfg' (area_of rd wr sz c') = n_slots cfg' (area_of rd wr sz c)"
proof -
  obtain c' where c': "wr c (of_nat i * 1024) r = (0, c')" "good c'"
    "contents c' = store_at (i * 1024) r (contents c)"
    using write_in [OF assms(1), of "of_nat i * 1024" r] slot_offset [OF assms(1,2)] assms(3) by auto
  then have "length (contents c') = length (contents c)"
    using slot_offset [OF assms(1,2)] assms(3) by (simp add: length_store_at)
  then have "unat (sz c') = unat (sz c)" using c'(2) assms(1) by (simp add: size_eq)
  then show ?thesis using c' n_slots_same_size by blast
qed

text \<open>The first slot without the marker.\<close>

lemma first_free_spec:
  assumes "good c" "unat (n_slots cfg (area_of rd wr sz c)) \<le> 2 ^ 31"
    "set is \<subseteq> {..<unat (n_slots cfg (area_of rd wr sz c))}"
  shows "first_free (area_of rd wr sz c) is =
    (case dropWhile (occupied (contents c)) is of [] \<Rightarrow> - 1 | i # _ \<Rightarrow> int i)"
  using assms(3)
proof (induction "is")
  case (Cons i js)
  then have i: "i < unat (n_slots cfg (area_of rd wr sz c))" by simp
  have "rd c (of_nat i * 1024) 46 = Some (slice (i * 1024) 46 (contents c))"
    by (rule slot_read [OF assms(1) i]) simp
  moreover have "slice 0 4 (slice (i * 1024) 46 (contents c)) = VCKS \<longleftrightarrow> occupied (contents c) i"
    by (simp add: occupied_def slice_slice)
  moreover have "c_int (int i) = int i" using i assms(2) by (intro c_int_id) simp_all
  ultimately show ?case using Cons by simp
qed simp

lemma labeled_first_free_spec:
  assumes "good c" "ns = unat (n_slots cfg (area_of rd wr sz c))" "ns \<le> 2 ^ 31"
  shows "labeled_first_free cfg (area_of rd wr sz c) =
    (if \<forall>i<ns. occupied (contents c) i then - 1 else int (LEAST i. \<not> occupied (contents c) i))"
proof -
  have ff: "labeled_first_free cfg (area_of rd wr sz c) =
      (case dropWhile (occupied (contents c)) [0..<ns] of [] \<Rightarrow> - 1 | i # _ \<Rightarrow> int i)"
    using first_free_spec [OF assms(1), of cfg "[0..<ns]"] assms(2,3)
    by (simp add: labeled_first_free_def atLeast0LessThan)
  show ?thesis
  proof (cases "\<forall>i<ns. occupied (contents c) i")
    case True
    then have "dropWhile (occupied (contents c)) [0..<ns] = []" by simp
    with True ff show ?thesis by simp
  next
    case False
    define k where "k = (LEAST i. \<not> occupied (contents c) i)"
    from False obtain i where i: "i < ns" "\<not> occupied (contents c) i" by blast
    have k: "\<not> occupied (contents c) k" unfolding k_def by (rule LeastI [of "\<lambda>i. \<not> occupied (contents c) i", OF i(2)])
    have below: "occupied (contents c) j" if "j < k" for j
      using not_less_Least [of j "\<lambda>i. \<not> occupied (contents c) i"] that by (simp add: k_def)
    have "k \<le> i" unfolding k_def by (rule Least_le [of "\<lambda>i. \<not> occupied (contents c) i", OF i(2)])
    then have kns: "k < ns" using i(1) by simp
    have "[0..<k + (ns - k)] = [0..<k] @ [k..<k + (ns - k)]" by (rule upt_add_eq_append) simp
    moreover have "k + (ns - k) = ns" "[k..<ns] = k # [Suc k..<ns]"
      using kns by (simp_all add: upt_conv_Cons)
    ultimately have "[0..<ns] = [0..<k] @ k # [Suc k..<ns]" by simp
    then have "dropWhile (occupied (contents c)) [0..<ns] = k # [Suc k..<ns]"
      using k below dropWhile_append2 [of "[0..<k]" "occupied (contents c)"] by simp
    with False ff show ?thesis by (simp add: k_def)
  qed
qed


lemma KeyslotAdd_spec:
  assumes "good c" "cfg_ok cfg" "length vmk = nat (vmkLen cfg)" "length payload0 = 521"
    "ns = unat (n_slots cfg (area_of rd wr sz c))" "ns \<le> 2 ^ 31"
  shows "if \<forall>i<ns. occupied (contents c) i
    then \<exists>g'. KeyslotAdd cfg (area_of rd wr sz c) pass flags vmk payload0 g = (- 1, area_of rd wr sz c, g')
    else \<exists>c' g' r blob. let k = LEAST i. \<not> occupied (contents c) i in k < ns \<and>
      KeyslotAdd cfg (area_of rd wr sz c) pass flags vmk payload0 g = (int k, area_of rd wr sz c', g') \<and>
      good c' \<and> contents c' = store_at (k * 1024) r (contents c) \<and> length r = 1024 \<and>
      n_slots cfg (area_of rd wr sz c') = n_slots cfg (area_of rd wr sz c) \<and>
      slice 0 4 r = VCKS \<and> (\<exists>salt. length salt = 32 \<and> slice 0 46 r = labeled_header cfg salt) \<and>
      slot_open cfg pass (nat (ct_of cfg)) r = Some blob \<and>
      (\<forall>vo fo. open_result cfg blob vo fo =
         (1, store_at 0 (slice 1 (nat (vmkLen cfg)) (add_payload cfg flags vmk payload0)) vo,
          map_option (\<lambda>_. uint (add_payload cfg flags vmk payload0 ! 0)) fo))"
proof -
  note cfg = cfg_okD [OF assms(2)] and pay = add_payload_code [OF assms(2-4), where flags = flags]
  obtain salt g1 where salt: "randBytes cfg 32 g = (salt, g1)" "length salt = 32"
    using cfg(5) [of 32 g] by (cases "randBytes cfg 32 g") simp
  obtain rec g2 where rec: "randBytes cfg 1024 g1 = (rec, g2)" "length rec = 1024"
    using cfg(5) [of 1024 g1] by (cases "randBytes cfg 1024 g1") simp
  obtain st g3 where st:
    "AfSplit (Some (add_payload cfg flags vmk payload0)) (plen_of cfg) (af_of cfg) (Some (randBytes cfg)) g2
       (Some (zeros 1024)) = (0, Some st, g3)" "length st = 1024"
    "\<And>out. AfMerge st (plen_of cfg) (af_of cfg) out = store_at 0 (add_payload cfg flags vmk payload0) out"
    using AfSplit_cfg [OF assms(2) pay(2), of g2 thesis] by blast
  define r where "r = labeled_record cfg rec salt pass st"
  have blob: "nat (ct_of cfg) \<le> length st" using cfg(9) st(2) by simp
  note lr = labeled_record_props [OF rec(2) salt(2) refl cfg(9) blob r_def]
  note ff = labeled_first_free_spec [OF assms(1,5,6)]
  have code: "KeyslotAdd cfg (area_of rd wr sz c) pass flags vmk payload0 g =
     (let idx = labeled_first_free cfg (area_of rd wr sz c)
      in if idx < 0 then (- 1, area_of rd wr sz c, g3)
         else let (wrc, c') = wr c (of_int idx * 1024) r
              in (if wrc \<noteq> 0 then - 1 else idx, area_of rd wr sz c', g3))"
    unfolding KeyslotAdd_def Let_def salt(1) prod.case
    unfolding rec(1) prod.case pay(1)
    unfolding st(1) prod.case
    using cfg(1-4) by (simp add: r_def case_prod_beta)
  show ?thesis
  proof (cases "\<forall>i<ns. occupied (contents c) i")
    case True
    then show ?thesis using code ff by (simp add: Let_def)
  next
    case False
    define k where "k = (LEAST i. \<not> occupied (contents c) i)"
    from False obtain i where "i < ns" "\<not> occupied (contents c) i" by blast
    then have k: "k < ns" using Least_le [of "\<lambda>i. \<not> occupied (contents c) i" i] by (simp add: k_def)
    obtain c' where c': "wr c (of_nat k * 1024) r = (0, c')" "good c'"
      "contents c' = store_at (k * 1024) r (contents c)"
      "n_slots cfg (area_of rd wr sz c') = n_slots cfg (area_of rd wr sz c)"
      using write_slot [OF assms(1), of k cfg r cfg] k assms(5) lr(1) by auto
    have "KeyslotAdd cfg (area_of rd wr sz c) pass flags vmk payload0 g = (int k, area_of rd wr sz c', g3)"
      using code ff False c'(1) by (simp add: Let_def k_def)
    moreover have "open_result cfg (take (nat (ct_of cfg)) st) vo fo =
         (1, store_at 0 (slice 1 (nat (vmkLen cfg)) (add_payload cfg flags vmk payload0)) vo,
          map_option (\<lambda>_. uint (add_payload cfg flags vmk payload0 ! 0)) fo)" for vo fo
      using open_result_split [OF assms(2) pay(2) refl _ st(2)] st(3) by blast
    ultimately show ?thesis
      unfolding if_not_P [OF False] Let_def k_def [symmetric]
      using k c' lr salt(2) by blast
  qed
qed

lemma KeyslotOpenAt_spec:
  assumes "good c" "cfg_ok cfg" "i < unat (n_slots cfg (area_of rd wr sz c))"
  shows "KeyslotOpenAt cfg (area_of rd wr sz c) (int i) pass vmkOut flagsOut =
    (if occupied (contents c) i
     then case slot_open cfg pass (nat (ct_of cfg)) (slot_bytes (contents c) i) of
            None \<Rightarrow> (0, vmkOut, flagsOut) | Some pt \<Rightarrow> open_result cfg pt vmkOut flagsOut
     else (0, vmkOut, flagsOut))"
proof -
  note cfg = cfg_okD [OF assms(2)] and off = slot_offset [OF assms(1,3)]
  define r where "r = slot_bytes (contents c) i"
  have rd: "rd c (of_nat i * 1024) 1024 = Some r"
    using slot_read [OF assms(1,3), of 1024] by (simp add: r_def slot_bytes_def)
  have r: "length r = 1024" "slice 0 4 r = VCKS \<longleftrightarrow> occupied (contents c) i"
    using off(2) by (simp_all add: r_def occupied_slot_bytes) (simp add: slot_bytes_def)
  have idx: "\<not> (of_int (int i) \<ge> n_slots cfg (area_of rd wr sz c))"
    using assms(3) off(3) by (simp add: word_le_nat_alt not_le)
  have len: "length (slot_plain cfg pass (nat (ct_of cfg)) r) = nat (ct_of cfg)" using r(1) cfg(9) by simp
  have st0: "store_at 0 (slot_plain cfg pass (nat (ct_of cfg)) r) (zeros 1024) =
      slot_plain cfg pass (nat (ct_of cfg)) r @ drop (nat (ct_of cfg)) (zeros 1024)"
    using len by (simp add: store_at_def)
  show ?thesis
    unfolding KeyslotOpenAt_def r_def [symmetric]
    using cfg(1,4) idx rd r len slot_open_Some [of cfg pass "nat (ct_of cfg)" r]
    by (auto simp: Let_def ks_unwrap_rec_spec [OF r(1) cfg(9)] st0 AfMerge_padded [OF assms(2) len]
        open_result_def split: option.splits)
qed

lemma KeyslotOpen_spec:
  assumes "good c" "cfg_ok cfg"
  shows "KeyslotOpen cfg (area_of rd wr sz c) pass vmkOut flagsOut =
    (case first_some (map (\<lambda>i. slot_open cfg pass (nat (ct_of cfg)) (slot_bytes (contents c) i))
        [0..<unat (n_slots cfg (area_of rd wr sz c))]) of
       None \<Rightarrow> (0, vmkOut, flagsOut) | Some pt \<Rightarrow> open_result cfg pt vmkOut flagsOut)"
  using ks_open_labeled [OF assms(2) reads_full_area_of [OF assms(1)], of NULL] 
  by (simp add: KeyslotOpen_def slots_of_bytes [OF assms(1)])

end

context byte_area
begin

lemma KeyslotRevoke_spec:
  assumes "good c" "cfg_ok cfg" "i < unat (n_slots cfg (area_of rd wr sz c))"
  shows "\<exists>c' g' r. KeyslotRevoke cfg (area_of rd wr sz c) (int i) g = (0, area_of rd wr sz c', g') \<and>
    good c' \<and> randBytes cfg 1024 g = (r, g') \<and> length r = 1024 \<and>
    contents c' = store_at (i * 1024) r (contents c) \<and>
    n_slots cfg (area_of rd wr sz c') = n_slots cfg (area_of rd wr sz c)"
proof -
  obtain r g' where r: "randBytes cfg 1024 g = (r, g')" "length r = 1024"
    using cfg_okD(5) [OF assms(2), of 1024 g] by (cases "randBytes cfg 1024 g") simp
  obtain c' where c': "wr c (of_nat i * 1024) r = (0, c')" "good c'"
    "contents c' = store_at (i * 1024) r (contents c)"
    "n_slots cfg (area_of rd wr sz c') = n_slots cfg (area_of rd wr sz c)"
    using write_slot [OF assms(1,3) r(2)] by blast
  have idx: "\<not> (of_int (int i) \<ge> n_slots cfg (area_of rd wr sz c))"
    using assms(3) slot_offset(3) [OF assms(1,3)] by (simp add: word_le_nat_alt not_le)
  have "KeyslotRevoke cfg (area_of rd wr sz c) (int i) g = (0, area_of rd wr sz c', g')"
    using idx r c'(1) by (simp add: KeyslotRevoke_def)
  then show ?thesis using r c' by blast
qed

lemma index_out_of_range:
  "index < 0 \<or> of_int index \<ge> n_slots cfg (area_of rd wr sz c) \<Longrightarrow>
   KeyslotRevoke cfg (area_of rd wr sz c) index g = (- 1, area_of rd wr sz c, g)"
  by (simp add: KeyslotRevoke_def)

lemma KeyslotCount_spec:
  assumes "good c" "is_labeled (backend cfg)"
  shows "KeyslotCount cfg (area_of rd wr sz c) =
    int (card {i. i < unat (n_slots cfg (area_of rd wr sz c)) \<and> occupied (contents c) i})"
proof -
  define ns where "ns = unat (n_slots cfg (area_of rd wr sz c))"
  have "fold (\<lambda>i count. case rd c (of_nat i * 1024) 4 of None \<Rightarrow> count
        | Some hdr \<Rightarrow> if hdr = VCKS then count + 1 else count) [0..<k] 0 =
      int (card {i. i < k \<and> occupied (contents c) i})" if "k \<le> ns" for k
    using that
  proof (induction k)
    case (Suc k)
    have "rd c (of_nat k * 1024) 4 = Some (slice (k * 1024) 4 (contents c))"
      using Suc.prems by (intro slot_read [OF assms(1), of k cfg]) (simp_all add: ns_def)
    moreover have "{i. i < Suc k \<and> occupied (contents c) i} =
        (if occupied (contents c) k then insert k {i. i < k \<and> occupied (contents c) i}
         else {i. i < k \<and> occupied (contents c) i})" by (auto simp: less_Suc_eq)
    moreover have "finite {i. i < k \<and> occupied (contents c) i}" by simp
    ultimately show ?case using Suc by (simp add: occupied_def)
  qed simp
  then show ?thesis using assms(2) by (simp add: KeyslotCount_def ns_def)
qed

lemma KeyslotShred_spec:
  assumes "good c" "cfg_ok cfg" "i < unat (n_slots cfg (area_of rd wr sz c))"
  shows "\<exists>c' g' r. KeyslotShred cfg (area_of rd wr sz c) (int i) att g =
      (0, fips_sha256 (cstr ''VCKSSHRED1'' @ be_bytes 4 (of_nat i :: u32) @
            fips_sha256 (slot_bytes (contents c) i) @ fips_sha256 r), area_of rd wr sz c', g') \<and>
    good c' \<and> length r = 1024 \<and> randBytes cfg 1024 g = (r, g') \<and>
    contents c' = store_at (i * 1024) r (contents c)"
proof -
  note off = slot_offset [OF assms(1,3)]
  obtain r g' where r: "randBytes cfg 1024 g = (r, g')" "length r = 1024"
    using cfg_okD(5) [OF assms(2), of 1024 g] by (cases "randBytes cfg 1024 g") simp
  obtain c' where c': "wr c (of_nat i * 1024) r = (0, c')" "good c'"
    "contents c' = store_at (i * 1024) r (contents c)"
    using write_slot [OF assms(1,3) r(2)] by blast
  have idx: "\<not> (of_int (int i) \<ge> n_slots cfg (area_of rd wr sz c))"
    using assms(3) off(3) by (simp add: word_le_nat_alt not_le)
  have rd: "rd c (of_nat i * 1024) 1024 = Some (slot_bytes (contents c) i)"
    using slot_read [OF assms(1,3), of 1024] by (simp add: slot_bytes_def)
  have rd': "rd c' (of_nat i * 1024) 1024 = Some r"
    using read_in [OF c'(2), of "of_nat i * 1024" 1024] off c'(3) r(2)
    by (simp add: length_store_at slice_store_same)
  have h: "sha256 (slot_bytes (contents c) i) 1024 = fips_sha256 (slot_bytes (contents c) i)"
    "sha256 r 1024 = fips_sha256 r"
    using off(2) r(2) by (auto intro!: sha256_fips simp: slot_bytes_def)
  have "sha256 (cstr ''VCKSSHRED1'' @ be_bytes 4 (of_nat i :: u32) @ h1 @ h2) 78 =
      fips_sha256 (cstr ''VCKSSHRED1'' @ be_bytes 4 (of_nat i :: u32) @ h1 @ h2)"
    if "length h1 = 32" "length h2 = 32" for h1 h2
    using that by (intro sha256_fips) simp_all
  then have "KeyslotShred cfg (area_of rd wr sz c) (int i) att g =
      (0, fips_sha256 (cstr ''VCKSSHRED1'' @ be_bytes 4 (of_nat i :: u32) @
            fips_sha256 (slot_bytes (contents c) i) @ fips_sha256 r), area_of rd wr sz c', g')"
    using idx r c'(1) rd rd' h by (simp add: KeyslotShred_def)
  then show ?thesis using r c' by blast
qed

text \<open>The framing check sees each occupied slot's header.\<close>

lemma structural_scan_spec:
  assumes "good c" "set is \<subseteq> {..<unat (n_slots cfg (area_of rd wr sz c))}"
  shows "structural_scan cfg (area_of rd wr sz c) is good0 bad0 =
    Some (good0 + int (length (filter (\<lambda>i. occupied (contents c) i \<and>
             slot_framing_ok cfg (slice (i * 1024) 14 (contents c))) is)),
          bad0 + int (length (filter (\<lambda>i. occupied (contents c) i \<and>
             \<not> slot_framing_ok cfg (slice (i * 1024) 14 (contents c))) is)))"
  using assms(2)
proof (induction "is" arbitrary: good0 bad0)
  case (Cons i js)
  then have "rd c (of_nat i * 1024) 14 = Some (slice (i * 1024) 14 (contents c))"
    by (intro slot_read [OF assms(1), of i cfg]) simp_all
  moreover have "slice 0 4 (slice (i * 1024) 14 (contents c)) = VCKS \<longleftrightarrow> occupied (contents c) i"
    by (simp add: occupied_def slice_slice)
  ultimately show ?case using Cons by simp
qed simp

lemma KeyslotStructuralCheck_spec:
  assumes "good c" "is_labeled (backend cfg)"
  shows "fst (KeyslotStructuralCheck (Some cfg) (Some (area_of rd wr sz c)) wellf malf) =
    (if \<forall>i<unat (n_slots cfg (area_of rd wr sz c)). occupied (contents c) i \<longrightarrow>
        slot_framing_ok cfg (slice (i * 1024) 14 (contents c)) then 0 else - 1)"
proof -
  define ns where "ns = unat (n_slots cfg (area_of rd wr sz c))"
  have "structural_scan cfg (area_of rd wr sz c) [0..<ns] 0 0 =
    Some (int (length (filter (\<lambda>i. occupied (contents c) i \<and>
             slot_framing_ok cfg (slice (i * 1024) 14 (contents c))) [0..<ns])),
          int (length (filter (\<lambda>i. occupied (contents c) i \<and>
             \<not> slot_framing_ok cfg (slice (i * 1024) 14 (contents c))) [0..<ns])))"
    using structural_scan_spec [OF assms(1), of "[0..<ns]" cfg 0 0] by (simp add: ns_def atLeast0LessThan)
  moreover have "filter P [0..<ns] = [] \<longleftrightarrow> (\<forall>i<ns. \<not> P i)" for P
    by (auto simp: filter_empty_conv)
  ultimately show ?thesis
    using assms(2) by (simp add: KeyslotStructuralCheck_def ns_def [symmetric])
qed

end

lemma and_ffff_id:
  assumes "0 \<le> p" "p < 65536"
  shows "(of_int p :: u32) AND 0xFFFF = of_int p"
proof -
  have "(0xFFFF :: u32) = mask 16" by (simp add: mask_eq_exp_minus_1)
  then have "(of_int p :: u32) AND 0xFFFF = take_bit 16 (of_int p)" by (simp add: take_bit_eq_mask)
  also have "\<dots> = of_int (take_bit 16 p)" by (simp add: take_bit_of_int)
  also have "take_bit 16 p = p" using assms by (simp add: take_bit_int_eq_self)
  finally show ?thesis .
qed
lemma sint_small:
  assumes "0 \<le> p" "p < 65536"
  shows "sint (of_int p :: u32) = p"
  using assms by (simp add: signed_of_int signed_take_bit_int_eq_self)

text \<open>The header \<open>KeyslotAdd\<close> writes passes the framing check of the same configuration.\<close>

lemma slot_framing_labeled_header:
  assumes "cfg_ok cfg" "length salt = 32"
  shows "slot_framing_ok cfg (take 14 (labeled_header cfg salt))"
proof -
  have h: "take 14 (labeled_header cfg salt) = VCKS @ [if af_of cfg \<ge> 2 then 2 else 1, 1] @
     (if af_of cfg \<ge> 2 then put_u16 (of_int (af_of cfg)) else [0, 0]) @
     put_u32 (cost cfg) @ put_u16 (of_int (plen_of cfg))"
    by (simp add: labeled_header_def)
  have u32: "ks_get_u32 (put_u32 v @ r) = v" for v r
    unfolding put_u32_def ks_get_u32_def by (rule word_eq_bits) (simp add: bit_simps upt_eval)
  have u16: "ks_get_u16 (put_u16 v) = v AND 0xFFFF" for v
    unfolding put_u16_def ks_get_u16_def by (rule word_eq_bits) (simp add: bit_simps upt_eval)
  have "sint ((of_int (plen_of cfg) :: u32) AND 0xFFFF) = plen_of cfg"
    using cfg_okD(6,7) [OF assms(1)] by (simp only: and_ffff_id sint_small)
  then show ?thesis
    using cfg_okD(4) [OF assms(1)] u32 [of "cost cfg" "[]"]
    unfolding slot_framing_ok_def h by (simp add: u32 u16 nth_append)
qed


section \<open>Policy slots: the attempt counter\<close>

definition set_attempts :: "'g KeyslotStoreCfg \<Rightarrow> int \<Rightarrow> bytes \<Rightarrow> bytes" where
  "set_attempts cfg v rec = rec[nat (ks_pol_off cfg) + 3 := of_int v]"

lemma pol_off:
  assumes "cfg_ok cfg" "ks_pol_fits cfg"
  shows "nat (ks_pol_off cfg) = 46 + nat (ct_of cfg) + 32" "nat (ks_pol_off cfg) + 4 \<le> 1024"
proof -
  have "0 \<le> ct_of cfg" using cfg_okD(6,8) [OF assms(1)] by (simp add: ct_of_def)
  then show "nat (ks_pol_off cfg) = 46 + nat (ct_of cfg) + 32" by (simp add: ks_pol_off_def nat_add_distrib)
  show "nat (ks_pol_off cfg) + 4 \<le> 1024"
    using assms(2) \<open>0 \<le> ct_of cfg\<close> by (simp add: ks_pol_fits_def ks_pol_off_def)
qed

lemma slot_open_update_tail:
  "46 + ct + 32 \<le> q \<Longrightarrow> slot_open cfg pass ct (rec[q := v]) = slot_open cfg pass ct rec"
  by (simp add: slot_open_def slice_def take_update_swap drop_update_swap Let_def list_update_beyond)

lemma set_attempts_simps:
  assumes "cfg_ok cfg" "ks_pol_fits cfg" "length rec = 1024"
  shows "length (set_attempts cfg v rec) = 1024"
    "slot_open cfg pass (nat (ct_of cfg)) (set_attempts cfg v rec) = slot_open cfg pass (nat (ct_of cfg)) rec"
    "slice 0 4 (set_attempts cfg v rec) = slice 0 4 rec"
    "max_attempts cfg (set_attempts cfg v rec) = max_attempts cfg rec"
    "has_policy_mark rec (nat (ks_pol_off cfg)) \<Longrightarrow> 0 \<le> v \<Longrightarrow> v < 256 \<Longrightarrow> attempts cfg (set_attempts cfg v rec) = v"
    "has_policy_mark (set_attempts cfg v rec) (nat (ks_pol_off cfg)) = has_policy_mark rec (nat (ks_pol_off cfg))"
proof -
  note p = pol_off [OF assms(1,2)]
  show "length (set_attempts cfg v rec) = 1024" using assms(3) by (simp add: set_attempts_def)
  show "slot_open cfg pass (nat (ct_of cfg)) (set_attempts cfg v rec) = slot_open cfg pass (nat (ct_of cfg)) rec"
    unfolding set_attempts_def by (rule slot_open_update_tail) (simp add: p)
  show "slice 0 4 (set_attempts cfg v rec) = slice 0 4 rec"
    using p(1) by (simp add: set_attempts_def slice_def)
  show m: "has_policy_mark (set_attempts cfg v rec) (nat (ks_pol_off cfg)) = has_policy_mark rec (nat (ks_pol_off cfg))"
    by (simp add: has_policy_mark_def set_attempts_def)
  show "max_attempts cfg (set_attempts cfg v rec) = max_attempts cfg rec"
    by (simp add: max_attempts_def m) (simp add: set_attempts_def)
  show "attempts cfg (set_attempts cfg v rec) = v" if "has_policy_mark rec (nat (ks_pol_off cfg))" "0 \<le> v" "v < 256"
    using that p(2) assms(3)
    by (simp add: attempts_def m) (simp add: set_attempts_def uint_word_of_int take_bit_int_eq_self)
qed

context byte_area
begin

lemma KeyslotOpenAtPolicy_spec:
  assumes "good c" "cfg_ok cfg" "policy cfg \<noteq> 0" "ks_pol_fits cfg" "i < unat (n_slots cfg (area_of rd wr sz c))"
    "occupied (contents c) i" "r = slot_bytes (contents c) i" "res = KeyslotOpenAtPolicy cfg (area_of rd wr sz c) (int i) pass nowUnix out0"
  shows "0 < max_attempts cfg r \<Longrightarrow> max_attempts cfg r \<le> attempts cfg r \<Longrightarrow>
      fst res = KEYSLOT_LOCKED \<and> snd (snd res) = area_of rd wr sz c \<and> ap_vmk (fst (snd res)) = ap_vmk out0"
    "\<not> (0 < max_attempts cfg r \<and> max_attempts cfg r \<le> attempts cfg r) \<Longrightarrow>
     slot_open cfg pass (nat (ct_of cfg)) r = None \<Longrightarrow>
      \<exists>c'. fst res = 0 \<and> snd (snd res) = area_of rd wr sz c' \<and> ap_vmk (fst (snd res)) = ap_vmk out0 \<and> good c' \<and>
        n_slots cfg (area_of rd wr sz c') = n_slots cfg (area_of rd wr sz c) \<and>
        contents c' = (if has_policy_mark r (nat (ks_pol_off cfg)) \<and> attempts cfg r < 255
          then store_at (i * 1024) (set_attempts cfg (attempts cfg r + 1) r) (contents c) else contents c)"
proof -
  note cfg = cfg_okD [OF assms(2)] and off = slot_offset [OF assms(1,5)]
  have rd: "rd c (of_nat i * 1024) 1024 = Some r"
    using slot_read [OF assms(1,5), of 1024] by (simp add: assms(7) slot_bytes_def)
  have r: "length r = 1024" "slice 0 4 r = VCKS"
    using off(2) assms(6,7) by (simp_all add: occupied_slot_bytes) (simp add: slot_bytes_def)
  have idx: "\<not> (of_int (int i) \<ge> n_slots cfg (area_of rd wr sz c))"
    using assms(5) off(3) by (simp add: word_le_nat_alt not_le)
  let ?lock = "0 < max_attempts cfg r \<and> max_attempts cfg r \<le> attempts cfg r"
  show "fst res = KEYSLOT_LOCKED \<and> snd (snd res) = area_of rd wr sz c \<and> ap_vmk (fst (snd res)) = ap_vmk out0"
    if "0 < max_attempts cfg r" "max_attempts cfg r \<le> attempts cfg r"
    unfolding assms(8) KeyslotOpenAtPolicy_def Let_def
    using cfg(1,4) assms(3,4) idx rd r that by simp
  show "\<exists>c'. fst res = 0 \<and> snd (snd res) = area_of rd wr sz c' \<and> ap_vmk (fst (snd res)) = ap_vmk out0 \<and> good c' \<and>
        n_slots cfg (area_of rd wr sz c') = n_slots cfg (area_of rd wr sz c) \<and>
        contents c' = (if has_policy_mark r (nat (ks_pol_off cfg)) \<and> attempts cfg r < 255
          then store_at (i * 1024) (set_attempts cfg (attempts cfg r + 1) r) (contents c) else contents c)"
    if nl: "\<not> ?lock" and no: "slot_open cfg pass (nat (ct_of cfg)) r = None"
  proof -
    define r' where "r' = set_attempts cfg (attempts cfg r + 1) r"
    have res: "res = (let (attA, area) =
                         (if has_policy_mark r (nat (ks_pol_off cfg)) \<and> attempts cfg r < 255
                          then (attempts cfg r + 1, snd (area_write (area_of rd wr sz c) (of_nat i * 1024) r'))
                          else (attempts cfg r, area_of rd wr sz c))
          in (0, out0\<lparr>ap_max := set_int (max_attempts cfg r) (ap_max out0),
                     ap_attempts := set_int attA (ap_attempts out0)\<rparr>, area))"
      unfolding assms(8) KeyslotOpenAtPolicy_def
      using cfg(1,4) assms(3,4) idx rd r nl no
      by (auto simp: Let_def ks_unwrap_rec_spec [OF r(1) cfg(9)] r'_def set_attempts_def)
    obtain c' where c': "wr c (of_nat i * 1024) r' = (0, c')" "good c'" "contents c' = store_at (i * 1024) r' (contents c)"
      "n_slots cfg (area_of rd wr sz c') = n_slots cfg (area_of rd wr sz c)"
      using write_slot [OF assms(1,5), of r'] set_attempts_simps(1) [OF assms(2,4) r(1)] by (auto simp: r'_def)
    show ?thesis
      by (cases "has_policy_mark r (nat (ks_pol_off cfg)) \<and> attempts cfg r < 255")
         (use c' assms(1) in \<open>auto simp: res Let_def r'_def [symmetric]\<close>)
  qed
qed

text \<open>A run of wrong passphrases against one slot.\<close>

lemma wrong_attempts:
  assumes "cfg_ok cfg" "policy cfg \<noteq> 0" "ks_pol_fits cfg"
    "good c" "i < unat (n_slots cfg (area_of rd wr sz c))" "occupied (contents c) i"
    "has_policy_mark (slot_bytes (contents c) i) (nat (ks_pol_off cfg))"
    "0 < max_attempts cfg (slot_bytes (contents c) i)"
    "attempts cfg (slot_bytes (contents c) i) \<le> max_attempts cfg (slot_bytes (contents c) i)"
    "\<forall>p\<in>set ps. slot_open cfg p (nat (ct_of cfg)) (slot_bytes (contents c) i) = None"
  shows "\<exists>c'. fold (\<lambda>p a. snd (snd (KeyslotOpenAtPolicy cfg a (int i) p nowUnix out0))) ps (area_of rd wr sz c) =
      area_of rd wr sz c' \<and> good c' \<and> n_slots cfg (area_of rd wr sz c') = n_slots cfg (area_of rd wr sz c) \<and>
      occupied (contents c') i \<and>
      max_attempts cfg (slot_bytes (contents c') i) = max_attempts cfg (slot_bytes (contents c) i) \<and>
      attempts cfg (slot_bytes (contents c') i) =
        min (max_attempts cfg (slot_bytes (contents c) i)) (attempts cfg (slot_bytes (contents c) i) + int (length ps)) \<and>
      (\<forall>j. j \<noteq> i \<longrightarrow> slot_bytes (contents c') j = slot_bytes (contents c) j)"
  using assms(4-10)
proof (induction ps arbitrary: c)
  case Nil
  then show ?case by (intro exI [of _ c]) simp
next
  case (Cons p ps)
  define r where "r = slot_bytes (contents c) i"
  define M A where "M = max_attempts cfg r" and "A = attempts cfg r"
  note off = slot_offset [OF Cons.prems(1,2)]
  have M: "0 < M" "A \<le> M" "M \<le> 255" "0 \<le> A"
    using Cons.prems(5,6) uint_lt2p [of "r ! (nat (ks_pol_off cfg) + 2)"]
    by (auto simp: M_def A_def r_def max_attempts_def attempts_def split: if_splits)
  have r: "length r = 1024" using off(2) by (simp add: r_def slot_bytes_def)
  note spec = KeyslotOpenAtPolicy_spec [OF Cons.prems(1) assms(1-3) Cons.prems(2,3) r_def refl, of p nowUnix out0]
  show ?case
  proof (cases "A < M")
    case True
    define r' where "r' = set_attempts cfg (A + 1) r"
    have "slot_open cfg p (nat (ct_of cfg)) r = None" using Cons.prems(7) by (simp add: r_def)
    moreover have mark: "has_policy_mark r (nat (ks_pol_off cfg))" using Cons.prems(4) by (simp add: r_def)
    ultimately obtain c1 where c1: "snd (snd (KeyslotOpenAtPolicy cfg (area_of rd wr sz c) (int i) p nowUnix out0)) =
        area_of rd wr sz c1" "good c1" "n_slots cfg (area_of rd wr sz c1) = n_slots cfg (area_of rd wr sz c)"
      "contents c1 = store_at (i * 1024) r' (contents c)"
      using spec(2) True M by (auto simp: M_def [symmetric] A_def [symmetric] r'_def)
    note sa = set_attempts_simps [OF assms(1,3) r, where v = "A + 1"]
    have r1: "slot_bytes (contents c1) j = (if j = i then r' else slot_bytes (contents c) j)" for j
      using slot_bytes_store [of r' i "contents c" j] sa(1) off(2) c1(4) by (simp add: r'_def)
    have "occupied (contents c1) i"
      using Cons.prems(3) r1 sa(3) by (simp add: occupied_slot_bytes r'_def r_def)
    then obtain c' where c': "fold (\<lambda>p a. snd (snd (KeyslotOpenAtPolicy cfg a (int i) p nowUnix out0))) ps (area_of rd wr sz c1) =
      area_of rd wr sz c'" "good c'" "n_slots cfg (area_of rd wr sz c') = n_slots cfg (area_of rd wr sz c1)"
      "occupied (contents c') i" "max_attempts cfg (slot_bytes (contents c') i) = max_attempts cfg r'"
      "attempts cfg (slot_bytes (contents c') i) = min (max_attempts cfg r') (attempts cfg r' + int (length ps))"
      "\<forall>j. j \<noteq> i \<longrightarrow> slot_bytes (contents c') j = slot_bytes (contents c1) j"
      using Cons.IH [of c1] c1(1-3) Cons.prems(2,7) sa mark M True
      by (auto simp: r1 r'_def [symmetric] M_def [symmetric] A_def [symmetric] r_def [symmetric])
    have "max_attempts cfg r' = M" "attempts cfg r' = A + 1" using sa mark M True by (simp_all add: r'_def M_def)
    then show ?thesis
      using c' c1(1-3) r1 by (intro exI [of _ c']) (simp add: r_def [symmetric] M_def [symmetric] A_def [symmetric])
  next
    case False
    then have A: "A = M" using M by simp
    have stay: "snd (snd (KeyslotOpenAtPolicy cfg (area_of rd wr sz c) (int i) p nowUnix out0)) = area_of rd wr sz c"
      using spec(1) M A by (simp add: M_def A_def)
    show ?thesis
      using Cons.IH [of c] Cons.prems A
      by (auto simp: stay r_def [symmetric] M_def [symmetric] A_def [symmetric])
  qed
qed

end

section \<open>Policy slots: adding and expiry\<close>

lemma fold_nth_foldl:
  "n \<le> length p \<Longrightarrow> fold (\<lambda>i v. f v (p ! i)) [0..<n] z = foldl f z (take n p)"
  by (induction n) (simp_all add: take_Suc_conv_app_nth)

lemma get_put_u64_be: "get_u64_be (put_u64_be e @ r) = e"
  unfolding get_u64_be_def
  by (subst fold_nth_foldl [where f = "\<lambda>v b. push_bit 8 v OR ucast b"])
     (simp_all add: put_u64_be_def be_word_def [symmetric] be_word_be_bytes)

definition policy_payload :: "int \<Rightarrow> u64 \<Rightarrow> bytes \<Rightarrow> bytes" where
  "policy_payload flags e vmk = of_int flags # put_u64_be e @ vmk"

definition policy_result :: "'g KeyslotStoreCfg \<Rightarrow> bytes \<Rightarrow> u64 \<Rightarrow> bytes \<Rightarrow> int ptr \<Rightarrow> u64 ptr
    \<Rightarrow> int \<times> bytes \<times> int ptr \<times> u64 ptr" where
  "policy_result cfg pt nowUnix vmkOut flagsOut expiryOut =
     (let payload = AfMerge pt (plen_of cfg) (af_of cfg) (zeros 521); expiry = get_u64_be (drop 1 payload)
      in if nowUnix \<noteq> 0 \<and> expiry \<noteq> 0 \<and> nowUnix > expiry then (0, vmkOut, flagsOut, expiryOut)
         else (1, store_at 0 (slice 9 (nat (vmkLen cfg)) payload) vmkOut,
               map_option (\<lambda>_. uint (payload ! 0)) flagsOut, map_option (\<lambda>_. expiry) expiryOut))"

lemma KeyslotOpenPolicy_first:
  assumes "cfg_ok cfg" "reads_full area" "policy cfg \<noteq> 0"
  shows "KeyslotOpenPolicy cfg area pass nowUnix vmkOut flagsOut expiryOut =
    (case first_some (slots_of cfg area pass) of None \<Rightarrow> (0, vmkOut, flagsOut, expiryOut)
     | Some pt \<Rightarrow> policy_result cfg pt nowUnix vmkOut flagsOut expiryOut)"
proof -
  define ct where "ct = nat (ct_of cfg)"
  have ct: "46 + ct + 32 \<le> 1024" "ct \<le> length (zeros 1024)" "46 + ct \<le> 1024"
    using cfg_okD(9) [OF assms(1)] by (simp_all add: ct_def)
  have scan: "ks_scan_serial cfg area pass ct (n_slots cfg area) (zeros 1024) =
      (case first_some (slots_of cfg area pass) of None \<Rightarrow> (0, zeros 1024)
      | Some pt \<Rightarrow> (1, pt @ drop ct (zeros 1024)))"
    unfolding ks_scan_serial_first [OF assms(2) ct(1,2)] slots_of_def ct_def [symmetric]
    by (subst sel_fold_first) (use ct in \<open>simp_all add: sel_ok_def split: option.splits\<close>)
  have len: "length pt = ct" if "first_some (slots_of cfg area pass) = Some pt" for pt
    using first_some_length [OF that]
    by (auto simp: slots_of_def in_these_eq ct_def [symmetric] dest: sym intro: length_slot_at [OF assms(2) ct(3)])
  show ?thesis
    unfolding KeyslotOpenPolicy_def Let_def ct_def [symmetric] scan
    using cfg_okD(1,4) [OF assms(1)] AfMerge_padded [OF assms(1)] len assms(3)
    by (auto simp: policy_result_def Let_def ct_def [symmetric] split: option.splits)
qed

lemma policy_result_split:
  assumes "cfg_ok cfg" "policy cfg \<noteq> 0" "length vmk = nat (vmkLen cfg)" "blob = take (nat (ct_of cfg)) st"
    "\<forall>out. AfMerge st (plen_of cfg) (af_of cfg) out = store_at 0 (policy_payload flags e vmk) out"
  shows "policy_result cfg blob nowUnix vmkOut flagsOut expiryOut =
    (if nowUnix \<noteq> 0 \<and> e \<noteq> 0 \<and> nowUnix > e then (0, vmkOut, flagsOut, expiryOut)
     else (1, store_at 0 vmk vmkOut, map_option (\<lambda>_. uint (of_int flags :: byte)) flagsOut,
           map_option (\<lambda>_. e) expiryOut))"
proof -
  have "AfMerge blob (plen_of cfg) (af_of cfg) out = AfMerge st (plen_of cfg) (af_of cfg) out" for out
    by (rule AfMerge_take) (simp add: assms(4) cfg_okD(10) [OF assms(1), symmetric])
  then have m: "AfMerge blob (plen_of cfg) (af_of cfg) (zeros 521) =
      policy_payload flags e vmk @ drop (9 + length vmk) (zeros 521)"
    using assms(5) by (simp add: store_at_def policy_payload_def)
  have "slice 9 (nat (vmkLen cfg)) (policy_payload flags e' vmk @ r) = vmk" for e' r
    using assms(3) by (simp add: slice_def policy_payload_def)
  then show ?thesis
    by (simp add: policy_result_def m Let_def) (simp add: policy_payload_def get_put_u64_be)
qed

context byte_area
begin

lemma KeyslotAddPolicy_spec:
  assumes "good c" "cfg_ok cfg" "policy cfg \<noteq> 0" "ks_pol_fits cfg" "length vmk = nat (vmkLen cfg)"
    "0 \<le> maxAttempts" "maxAttempts \<le> 255"
    "ns = unat (n_slots cfg (area_of rd wr sz c))" "ns \<le> 2 ^ 31" "\<exists>i<ns. \<not> occupied (contents c) i"
  shows "\<exists>c' g' r blob. let k = LEAST i. \<not> occupied (contents c) i in k < ns \<and>
      KeyslotAddPolicy cfg (area_of rd wr sz c) pass flags vmk expiry maxAttempts g = (int k, area_of rd wr sz c', g') \<and>
      good c' \<and> contents c' = store_at (k * 1024) r (contents c) \<and> length r = 1024 \<and>
      n_slots cfg (area_of rd wr sz c') = n_slots cfg (area_of rd wr sz c) \<and>
      slice 0 4 r = VCKS \<and> has_policy_mark r (nat (ks_pol_off cfg)) \<and>
      max_attempts cfg r = maxAttempts \<and> attempts cfg r = 0 \<and>
      slot_open cfg pass (nat (ct_of cfg)) r = Some blob \<and>
      (\<forall>now vo fo eo. policy_result cfg blob now vo fo eo =
         (if now \<noteq> 0 \<and> expiry \<noteq> 0 \<and> now > expiry then (0, vo, fo, eo)
          else (1, store_at 0 vmk vo, map_option (\<lambda>_. uint (of_int flags :: byte)) fo, map_option (\<lambda>_. expiry) eo)))"
proof -
  note cfg = cfg_okD [OF assms(2)] and p = pol_off [OF assms(2,4)]
  have pay: "length (policy_payload flags expiry vmk) = nat (plen_of cfg)"
    using assms(3,5) cfg(2) by (simp add: policy_payload_def plen_of_def nat_add_distrib)
  obtain salt g1 where salt: "randBytes cfg 32 g = (salt, g1)" "length salt = 32"
    using cfg(5) [of 32 g] by (cases "randBytes cfg 32 g") simp
  obtain rec g2 where rec: "randBytes cfg 1024 g1 = (rec, g2)" "length rec = 1024"
    using cfg(5) [of 1024 g1] by (cases "randBytes cfg 1024 g1") simp
  obtain st g3 where st:
    "AfSplit (Some (policy_payload flags expiry vmk)) (plen_of cfg) (af_of cfg) (Some (randBytes cfg)) g2
       (Some (zeros 1024)) = (0, Some st, g3)" "length st = 1024"
    "\<And>out. AfMerge st (plen_of cfg) (af_of cfg) out = store_at 0 (policy_payload flags expiry vmk) out"
    using AfSplit_cfg [OF assms(2) pay, of g2 thesis] by blast
  define r0 where "r0 = labeled_record cfg rec salt pass st"
  define r where "r = store_at (nat (ks_pol_off cfg)) [0x4b, 0x50, of_int maxAttempts, 0] r0"
  have blob: "nat (ct_of cfg) \<le> length st" using cfg(9) st(2) by simp
  note lr = labeled_record_props [OF rec(2) salt(2) refl cfg(9) blob r0_def]
  have lenr: "length r = 1024" using lr(1) p(2) by (simp add: r_def length_store_at)
  have same: "slice a n r = slice a n r0" if "a + n \<le> 46 + nat (ct_of cfg) + 32" for a n
    unfolding r_def using that p lr(1) by (intro slice_store_before) simp_all
  have open_r: "slot_open cfg pass (nat (ct_of cfg)) r = Some (take (nat (ct_of cfg)) st)"
    using lr(4) by (simp add: slot_open_def same cong: if_cong)
  have tail: "r ! (nat (ks_pol_off cfg) + j) = [0x4b, 0x50, of_int maxAttempts, 0] ! j" if "j < 4" for j
    using that p(2) lr(1) by (simp add: r_def nth_store_at)
  have mark: "has_policy_mark r (nat (ks_pol_off cfg))"
    using tail [of 0] tail [of 1] by (simp add: has_policy_mark_def)
  have "uint (of_int maxAttempts :: byte) = maxAttempts"
    using assms(6,7) by (simp add: uint_word_of_int take_bit_int_eq_self)
  then have cnt: "max_attempts cfg r = maxAttempts" "attempts cfg r = 0"
    using tail [of 2] tail [of 3] mark by (simp_all add: max_attempts_def attempts_def)
  define k where "k = (LEAST i. \<not> occupied (contents c) i)"
  from assms(10) obtain i where "i < ns" "\<not> occupied (contents c) i" by blast
  then have k: "k < ns" using Least_le [of "\<lambda>i. \<not> occupied (contents c) i" i] by (simp add: k_def)
  have ff: "labeled_first_free cfg (area_of rd wr sz c) = int k"
    using labeled_first_free_spec [OF assms(1,8,9)] assms(10) by (auto simp: k_def)
  obtain c' where c': "wr c (of_nat k * 1024) r = (0, c')" "good c'"
    "contents c' = store_at (k * 1024) r (contents c)"
    "n_slots cfg (area_of rd wr sz c') = n_slots cfg (area_of rd wr sz c)"
    using write_slot [OF assms(1), of k cfg r cfg] k assms(8) lenr by auto
  have pp: "of_int flags # put_u64_be expiry @ take (nat (vmkLen cfg)) vmk = policy_payload flags expiry vmk"
    using assms(5) by (simp add: policy_payload_def)
  have code: "KeyslotAddPolicy cfg (area_of rd wr sz c) pass flags vmk expiry maxAttempts g = (int k, area_of rd wr sz c', g3)"
    unfolding KeyslotAddPolicy_def Let_def salt(1) prod.case pp
    unfolding rec(1) prod.case
    unfolding st(1) prod.case ff
    using cfg(1-4) assms(3,4,6,7) c'(1) by (simp add: r_def [symmetric] r0_def [symmetric])
  have sr: "slice 0 4 r = VCKS" using lr(2) by (simp add: same)
  have "\<forall>now vo fo eo. policy_result cfg (take (nat (ct_of cfg)) st) now vo fo eo =
         (if now \<noteq> 0 \<and> expiry \<noteq> 0 \<and> now > expiry then (0, vo, fo, eo)
          else (1, store_at 0 vmk vo, map_option (\<lambda>_. uint (of_int flags :: byte)) fo, map_option (\<lambda>_. expiry) eo))"
    by (intro allI policy_result_split [OF assms(2,3,5) refl]) (use st(3) in blast)
  then show ?thesis
    unfolding Let_def k_def [symmetric] using k code c' lenr sr mark cnt open_r by blast
qed

end

lemma first_some_Some_iff: "(\<exists>x. first_some xs = Some x) \<longleftrightarrow> (\<exists>x. Some x \<in> set xs)"
  by (induction xs rule: first_some.induct) auto

context byte_area
begin

lemma KeyslotAdd_success:
  assumes "good c" "cfg_ok cfg" "length vmk = nat (vmkLen cfg)" "length payload0 = 521"
    "unat (n_slots cfg (area_of rd wr sz c)) \<le> 2 ^ 31"
    "\<exists>i<unat (n_slots cfg (area_of rd wr sz c)). \<not> occupied (contents c) i"
    "KeyslotAdd cfg (area_of rd wr sz c) pass flags vmk payload0 g = (idx, area', g')"
  obtains k c' r blob where "k < unat (n_slots cfg (area_of rd wr sz c))" "idx = int k" "area' = area_of rd wr sz c'"
    "good c'" "n_slots cfg (area_of rd wr sz c') = n_slots cfg (area_of rd wr sz c)" "\<not> occupied (contents c) k"
    "\<And>j. slot_bytes (contents c') j = (if j = k then r else slot_bytes (contents c) j)"
    "\<And>j. occupied (contents c') j = (j = k \<or> occupied (contents c) j)"
    "slot_open cfg pass (nat (ct_of cfg)) r = Some blob"
    "\<exists>salt. length salt = 32 \<and> slice 0 46 r = labeled_header cfg salt"
    "\<And>vo fo. open_result cfg blob vo fo =
         (1, store_at 0 (slice 1 (nat (vmkLen cfg)) (add_payload cfg flags vmk payload0)) vo,
          map_option (\<lambda>_. flags mod 256) fo)"
proof -
  define k where "k = (LEAST i. \<not> occupied (contents c) i)"
  have full: "\<not> (\<forall>i<unat (n_slots cfg (area_of rd wr sz c)). occupied (contents c) i)" using assms(6) by blast
  have fl: "uint (add_payload cfg flags vmk payload0 ! 0) = flags mod 256"
    by (simp add: add_payload_def uint_word_of_int)
  from KeyslotAdd_spec [OF assms(1-4) refl assms(5), of pass flags g, unfolded if_not_P [OF full] Let_def k_def [symmetric] fl]
  obtain c' r blob where s: "k < unat (n_slots cfg (area_of rd wr sz c))" "idx = int k" "area' = area_of rd wr sz c'" "good c'"
    "contents c' = store_at (k * 1024) r (contents c)" "length r = 1024"
    "n_slots cfg (area_of rd wr sz c') = n_slots cfg (area_of rd wr sz c)" "slice 0 4 r = VCKS"
    "\<exists>salt. length salt = 32 \<and> slice 0 46 r = labeled_header cfg salt"
    "slot_open cfg pass (nat (ct_of cfg)) r = Some blob"
    "\<And>vo fo. open_result cfg blob vo fo =
         (1, store_at 0 (slice 1 (nat (vmkLen cfg)) (add_payload cfg flags vmk payload0)) vo,
          map_option (\<lambda>_. flags mod 256) fo)"
    using assms(7) by auto
  have "\<not> occupied (contents c) k"
    using full LeastI_ex [of "\<lambda>i. \<not> occupied (contents c) i"] unfolding k_def by blast
  moreover have fit: "k * 1024 + 1024 \<le> length (contents c)" by (rule slot_offset(2) [OF assms(1) s(1)])
  ultimately show thesis
    using that [of k c' r blob] s slot_bytes_store [OF s(6) fit] occupied_store [OF s(6) fit] by auto
qed

lemma KeyslotAddPolicy_success:
  assumes "good c" "cfg_ok cfg" "policy cfg \<noteq> 0" "ks_pol_fits cfg" "length vmk = nat (vmkLen cfg)"
    "0 \<le> maxAttempts" "maxAttempts \<le> 255"
    "unat (n_slots cfg (area_of rd wr sz c)) \<le> 2 ^ 31"
    "\<exists>i<unat (n_slots cfg (area_of rd wr sz c)). \<not> occupied (contents c) i"
    "KeyslotAddPolicy cfg (area_of rd wr sz c) pass flags vmk expiry maxAttempts g = (idx, area', g')"
  obtains k c' r blob where "k < unat (n_slots cfg (area_of rd wr sz c))" "idx = int k" "area' = area_of rd wr sz c'"
    "good c'" "n_slots cfg (area_of rd wr sz c') = n_slots cfg (area_of rd wr sz c)" "\<not> occupied (contents c) k"
    "\<And>j. slot_bytes (contents c') j = (if j = k then r else slot_bytes (contents c) j)"
    "occupied (contents c') k" "slot_open cfg pass (nat (ct_of cfg)) r = Some blob"
    "has_policy_mark r (nat (ks_pol_off cfg))" "max_attempts cfg r = maxAttempts" "attempts cfg r = 0"
    "\<And>now vo fo eo. policy_result cfg blob now vo fo eo =
         (if now \<noteq> 0 \<and> expiry \<noteq> 0 \<and> now > expiry then (0, vo, fo, eo)
          else (1, store_at 0 vmk vo, map_option (\<lambda>_. flags mod 256) fo, map_option (\<lambda>_. expiry) eo))"
proof -
  define k where "k = (LEAST i. \<not> occupied (contents c) i)"
  have fl: "uint (of_int flags :: byte) = flags mod 256" by (simp add: uint_word_of_int)
  from KeyslotAddPolicy_spec [OF assms(1-7) refl assms(8,9), of pass flags expiry g, unfolded Let_def k_def [symmetric] fl]
  obtain c' r blob where s: "k < unat (n_slots cfg (area_of rd wr sz c))" "idx = int k" "area' = area_of rd wr sz c'" "good c'"
    "contents c' = store_at (k * 1024) r (contents c)" "length r = 1024"
    "n_slots cfg (area_of rd wr sz c') = n_slots cfg (area_of rd wr sz c)" "slice 0 4 r = VCKS"
    "has_policy_mark r (nat (ks_pol_off cfg))" "max_attempts cfg r = maxAttempts" "attempts cfg r = 0"
    "slot_open cfg pass (nat (ct_of cfg)) r = Some blob"
    "\<And>now vo fo eo. policy_result cfg blob now vo fo eo =
         (if now \<noteq> 0 \<and> expiry \<noteq> 0 \<and> now > expiry then (0, vo, fo, eo)
          else (1, store_at 0 vmk vo, map_option (\<lambda>_. flags mod 256) fo, map_option (\<lambda>_. expiry) eo))"
    using assms(10) by auto
  have "\<not> occupied (contents c) k"
    using assms(9) LeastI_ex [of "\<lambda>i. \<not> occupied (contents c) i"] unfolding k_def by blast
  moreover have fit: "k * 1024 + 1024 \<le> length (contents c)" by (rule slot_offset(2) [OF assms(1) s(1)])
  ultimately show thesis
    using that [of k c' r blob] s slot_bytes_store [OF s(6) fit] occupied_store [OF s(6) fit] by auto
qed

end

end
