(* ===== verification/AtomicHeader.thy ===== *)
theory AtomicHeader
  imports Hmac
begin

text \<open>
  The pair of header copies with generation numbers and commit tags, \<open>src/src/Common/AtomicHeader.c\<close>.
  The first section follows the file; \<open>headerLen\<close> is a natural number. The second is the protocol the
  header file describes around these functions: an update computes the next generation, builds a copy
  and writes it over the copy that is not in force; a crash leaves a prefix of the new copy over the
  old bytes. It is an inductive step relation, and the reachable states satisfy an invariant from which
  recovery follows. That a mixture of two copies does not carry a valid tag is a property of HMAC, and
  is a premise of the step in which a write is torn.
\<close>

section \<open>The code\<close>

definition ah_hmac :: "bytes \<Rightarrow> bytes \<Rightarrow> bytes \<Rightarrow> bytes" where
  "ah_hmac key m1 m2 =
     (let k0 = take 32 key @ zeros 32;
          pad = map (\<lambda>b. b XOR 0x36) k0;
          ctx = sha256_hash pad 64 (sha256_begin ctx_uninit);
          ctx = (if length m1 > 0 then sha256_hash m1 (of_nat (length m1)) ctx else ctx);
          ctx = (if length m2 > 0 then sha256_hash m2 (of_nat (length m2)) ctx else ctx);
          (inner, ctx) = sha256_end ctx;
          pad = map (\<lambda>b. b XOR 0x5c) k0;
          ctx = sha256_hash inner 32 (sha256_hash pad 64 (sha256_begin ctx))
      in fst (sha256_end ctx))"

definition put_gen :: "u64 \<Rightarrow> bytes" where
  "put_gen g = be_bytes 8 g"

definition read_gen :: "bytes \<Rightarrow> u64" where
  "read_gen p = be_word (take 8 p)"

definition tag_equal :: "bytes \<Rightarrow> bytes \<Rightarrow> bool" where
  "tag_equal a b \<longleftrightarrow> or_diff 0 (take 32 a) (take 32 b) = 0"

definition AtomicHeaderBuild :: "bytes \<Rightarrow> bytes \<Rightarrow> nat \<Rightarrow> u64 \<Rightarrow> bytes \<Rightarrow> bytes" where
  "AtomicHeaderBuild K header headerLen gen out =
     (let out = store_at 0 (take headerLen header) out;
          genb = put_gen gen;
          out = store_at headerLen genb out
      in store_at (headerLen + 8) (ah_hmac K (take headerLen out) genb) out)"

definition AtomicHeaderValid :: "bytes \<Rightarrow> bytes \<Rightarrow> nat \<Rightarrow> bool" where
  "AtomicHeaderValid K copy headerLen =
     (let tag = ah_hmac K (take headerLen copy) (slice headerLen 8 copy)
      in tag_equal tag (drop (headerLen + 8) copy))"

definition AtomicHeaderGen :: "bytes \<Rightarrow> nat \<Rightarrow> u64" where
  "AtomicHeaderGen copy headerLen = read_gen (drop headerLen copy)"

definition AtomicHeaderSelect :: "bytes \<Rightarrow> bytes \<Rightarrow> bytes \<Rightarrow> nat \<Rightarrow> bytes ptr \<Rightarrow> u64 ptr
    \<Rightarrow> int \<times> bytes ptr \<times> u64 ptr" where
  "AtomicHeaderSelect K copyA copyB headerLen outHeader outGen =
     (let va = AtomicHeaderValid K copyA headerLen;
          vb = AtomicHeaderValid K copyB headerLen
      in if \<not> va \<and> \<not> vb then (- 1, outHeader, outGen)
         else let chosen = (if va \<and> \<not> vb then 0 else if vb \<and> \<not> va then 1
                 else if AtomicHeaderGen copyB headerLen > AtomicHeaderGen copyA headerLen then 1 else 0);
                  c = (if chosen \<noteq> (0 :: int) then copyB else copyA)
              in (chosen, map_option (store_at 0 (take headerLen c)) outHeader,
                  map_option (\<lambda>_. AtomicHeaderGen c headerLen) outGen))"

definition AtomicHeaderNextGen :: "bytes \<Rightarrow> bytes \<Rightarrow> bytes \<Rightarrow> nat \<Rightarrow> u64" where
  "AtomicHeaderNextGen K copyA copyB headerLen =
     (let g = 0;
          g = (if AtomicHeaderValid K copyA headerLen
               then let ga = AtomicHeaderGen copyA headerLen in if ga > g then ga else g else g);
          g = (if AtomicHeaderValid K copyB headerLen
               then let gb = AtomicHeaderGen copyB headerLen in if gb > g then gb else g else g)
      in g + 1)"

section \<open>A built copy\<close>

definition ah_copy :: "bytes \<Rightarrow> bytes \<Rightarrow> u64 \<Rightarrow> bytes" where
  "ah_copy K h g = h @ be_bytes 8 g @ hmac_sha256 K (h @ be_bytes 8 g)"

lemma ah_hmac_rfc:
  "length K = 32 \<Longrightarrow> length m1 + length m2 + 64 < 2 ^ 29 \<Longrightarrow> ah_hmac K m1 m2 = hmac_sha256 K (m1 @ m2)"
  unfolding ah_hmac_def by (subst take_all) (simp, rule hmac_key32_two_parts)

lemma tag_equal_iff: "length a = 32 \<Longrightarrow> 32 \<le> length b \<Longrightarrow> tag_equal a b \<longleftrightarrow> a = take 32 b"
  by (simp add: tag_equal_def or_diff_zero_iff)

lemma AtomicHeaderBuild_copy:
  assumes "length K = 32" "length h = n" "n + 72 < 2 ^ 29" "length out = n + 40"
  shows "AtomicHeaderBuild K h n g out = ah_copy K h g"
proof -
  have 1: "store_at 0 (take n h) out = h @ drop n out"
    using assms by (simp add: store_at_def)
  have 2: "store_at n (be_bytes 8 g) (h @ drop n out) = (h @ be_bytes 8 g) @ drop (n + 8) out"
    using assms by (simp add: store_at_append add.commute)
  have 3: "store_at (n + 8) t ((h @ be_bytes 8 g) @ drop (n + 8) out) = (h @ be_bytes 8 g) @ t"
    if "length t = 32" for t
    by (subst store_at_append) (use assms that in simp_all)
  have "ah_hmac K h (be_bytes 8 g) = hmac_sha256 K (h @ be_bytes 8 g)"
    by (rule ah_hmac_rfc) (use assms in simp_all)
  moreover have "take n ((h @ be_bytes 8 g) @ drop (n + 8) out) = h"
    using assms by simp
  ultimately show ?thesis
    unfolding AtomicHeaderBuild_def Let_def put_gen_def 1 2 by (simp only: 3 length_hmac_sha256) (simp add: ah_copy_def)
qed

lemma AtomicHeaderValid_iff:
  assumes "length K = 32" "length c = n + 40" "n + 72 < 2 ^ 29"
  shows "AtomicHeaderValid K c n \<longleftrightarrow> c = ah_copy K (take n c) (AtomicHeaderGen c n)"
proof -
  have split: "c = take n c @ slice n 8 c @ drop (n + 8) c"
    by (metis append_take_drop_id drop_drop add.commute slice_def)
  have gen: "be_bytes 8 (AtomicHeaderGen c n) = slice n 8 c"
    unfolding AtomicHeaderGen_def read_gen_def slice_def by (rule be_bytes_be_word) (use assms in simp_all)
  have "AtomicHeaderValid K c n \<longleftrightarrow> hmac_sha256 K (take n c @ slice n 8 c) = drop (n + 8) c"
    using assms by (simp add: AtomicHeaderValid_def ah_hmac_rfc tag_equal_iff)
  also have "\<dots> \<longleftrightarrow> c = ah_copy K (take n c) (AtomicHeaderGen c n)"
    unfolding ah_copy_def gen by (subst (4) split) auto
  finally show ?thesis .
qed

lemma ah_copy_valid:
  assumes "length K = 32" "length h = n" "n + 72 < 2 ^ 29"
  shows "length (ah_copy K h g) = n + 40" "take n (ah_copy K h g) = h" "AtomicHeaderGen (ah_copy K h g) n = g"
    "AtomicHeaderValid K (ah_copy K h g) n"
proof -
  show l: "length (ah_copy K h g) = n + 40" and t: "take n (ah_copy K h g) = h"
    using assms by (simp_all add: ah_copy_def)
  show g: "AtomicHeaderGen (ah_copy K h g) n = g"
    using assms by (simp add: AtomicHeaderGen_def read_gen_def ah_copy_def be_word_be_bytes)
  show "AtomicHeaderValid K (ah_copy K h g) n"
    using assms l by (simp add: AtomicHeaderValid_iff t g)
qed

section \<open>Updating and crashing\<close>

text \<open>The two copies on the medium, and the header that was last committed.\<close>

record ah_disk =
  slotA :: bytes
  slotB :: bytes
  committed :: bytes

definition ah_chosen :: "bytes \<Rightarrow> nat \<Rightarrow> ah_disk \<Rightarrow> int" where
  "ah_chosen K n s = fst (AtomicHeaderSelect K (slotA s) (slotB s) n NULL NULL)"

definition ah_write_inactive :: "bytes \<Rightarrow> nat \<Rightarrow> bytes \<Rightarrow> ah_disk \<Rightarrow> ah_disk" where
  "ah_write_inactive K n c s = (if ah_chosen K n s = 0 then s\<lparr>slotB := c\<rparr> else s\<lparr>slotA := c\<rparr>)"

definition ah_inactive :: "bytes \<Rightarrow> nat \<Rightarrow> ah_disk \<Rightarrow> bytes" where
  "ah_inactive K n s = (if ah_chosen K n s = 0 then slotB s else slotA s)"

definition ah_next :: "bytes \<Rightarrow> nat \<Rightarrow> bytes \<Rightarrow> ah_disk \<Rightarrow> bytes" where
  "ah_next K n h s =
     AtomicHeaderBuild K h n (AtomicHeaderNextGen K (slotA s) (slotB s) n) (zeros (n + 40))"

text \<open>The write of the new copy stopped after \<open>k\<close> bytes.\<close>

definition ah_torn :: "bytes \<Rightarrow> nat \<Rightarrow> bytes \<Rightarrow> nat \<Rightarrow> ah_disk \<Rightarrow> bytes" where
  "ah_torn K n h k s = take k (ah_next K n h s) @ drop k (ah_inactive K n s)"

inductive ah_step :: "bytes \<Rightarrow> nat \<Rightarrow> ah_disk \<Rightarrow> ah_disk \<Rightarrow> bool" for K n where
  commit: "length h = n \<Longrightarrow> AtomicHeaderNextGen K (slotA s) (slotB s) n \<noteq> 0 \<Longrightarrow>
    ah_step K n s ((ah_write_inactive K n (ah_next K n h s) s)\<lparr>committed := h\<rparr>)"
| torn: "length h = n \<Longrightarrow> k < n + 40 \<Longrightarrow>
    AtomicHeaderValid K (ah_torn K n h k s) n \<longrightarrow> ah_torn K n h k s = ah_inactive K n s \<Longrightarrow>
    ah_step K n s (ah_write_inactive K n (ah_torn K n h k s) s)"

inductive_cases ah_stepE: "ah_step K n s s'"

inductive ah_reachable :: "bytes \<Rightarrow> nat \<Rightarrow> ah_disk \<Rightarrow> bool" for K n where
  first: "length h = n \<Longrightarrow> length b = n + 40 \<Longrightarrow> \<not> AtomicHeaderValid K b n \<Longrightarrow>
    ah_reachable K n \<lparr>slotA = AtomicHeaderBuild K h n g (zeros (n + 40)), slotB = b, committed = h\<rparr>"
| both: "length h = n \<Longrightarrow> length h' = n \<Longrightarrow> g < g' \<Longrightarrow>
    ah_reachable K n \<lparr>slotA = AtomicHeaderBuild K h n g (zeros (n + 40)),
      slotB = AtomicHeaderBuild K h' n g' (zeros (n + 40)), committed = h'\<rparr>"
| step: "ah_reachable K n s \<Longrightarrow> ah_step K n s s' \<Longrightarrow> ah_reachable K n s'"

text \<open>The copy in force is valid, holds the committed header, and is newer than the other copy if
  that one is valid too.\<close>

definition newer :: "bytes \<Rightarrow> nat \<Rightarrow> bytes \<Rightarrow> bytes \<Rightarrow> bool" where
  "newer K n c d \<longleftrightarrow> AtomicHeaderValid K c n \<and>
     (AtomicHeaderValid K d n \<longrightarrow> AtomicHeaderGen d n < AtomicHeaderGen c n)"

definition ah_inv :: "bytes \<Rightarrow> nat \<Rightarrow> ah_disk \<Rightarrow> bool" where
  "ah_inv K n s \<longleftrightarrow> length (slotA s) = n + 40 \<and> length (slotB s) = n + 40 \<and>
     (newer K n (slotA s) (slotB s) \<and> take n (slotA s) = committed s \<or>
      newer K n (slotB s) (slotA s) \<and> take n (slotB s) = committed s)"

lemma select_A:
  "newer K n a b \<Longrightarrow> AtomicHeaderSelect K a b n oh og =
     (0, map_option (store_at 0 (take n a)) oh, map_option (\<lambda>_. AtomicHeaderGen a n) og)"
  by (auto simp: newer_def AtomicHeaderSelect_def Let_def)

lemma select_B:
  "newer K n b a \<Longrightarrow> AtomicHeaderSelect K a b n oh og =
     (1, map_option (store_at 0 (take n b)) oh, map_option (\<lambda>_. AtomicHeaderGen b n) og)"
  by (auto simp: newer_def AtomicHeaderSelect_def Let_def)

lemma chosen_cases:
  "newer K n (slotA s) (slotB s) \<Longrightarrow> ah_chosen K n s = 0"
  "newer K n (slotB s) (slotA s) \<Longrightarrow> ah_chosen K n s = 1"
  by (simp_all add: ah_chosen_def select_A select_B)

lemma next_gen_greater:
  assumes "AtomicHeaderNextGen K a b n \<noteq> 0"
  shows "AtomicHeaderValid K a n \<Longrightarrow> AtomicHeaderGen a n < AtomicHeaderNextGen K a b n"
    "AtomicHeaderValid K b n \<Longrightarrow> AtomicHeaderGen b n < AtomicHeaderNextGen K a b n"
proof -
  define g where "g = AtomicHeaderNextGen K a b n - 1"
  have lt: "g < AtomicHeaderNextGen K a b n"
    using assms unfolding g_def by (simp add: word_less_nat_alt unat_minus_one unat_gt_0)
  show "AtomicHeaderGen a n < AtomicHeaderNextGen K a b n" if "AtomicHeaderValid K a n"
  proof -
    have "AtomicHeaderGen a n \<le> g" using that by (auto simp: g_def AtomicHeaderNextGen_def Let_def not_less)
    with lt show ?thesis by simp
  qed
  show "AtomicHeaderGen b n < AtomicHeaderNextGen K a b n" if "AtomicHeaderValid K b n"
  proof -
    have "AtomicHeaderGen b n \<le> g" using that by (auto simp: g_def AtomicHeaderNextGen_def Let_def not_less)
    with lt show ?thesis by simp
  qed
qed

lemma ah_inv_step:
  assumes "length K = 32" "n + 72 < 2 ^ 29" "ah_inv K n s" "ah_step K n s s'"
  shows "ah_inv K n s'"
  using assms(4)
proof (rule ah_stepE)
  fix h assume s': "s' = ah_write_inactive K n (ah_next K n h s) s\<lparr>committed := h\<rparr>" and h: "length h = n"
    and gen: "AtomicHeaderNextGen K (slotA s) (slotB s) n \<noteq> 0"
  note v = ah_copy_valid [OF assms(1) h assms(2)]
  have c: "ah_next K n h s = ah_copy K h (AtomicHeaderNextGen K (slotA s) (slotB s) n)"
    unfolding ah_next_def by (rule AtomicHeaderBuild_copy) (use assms h in simp_all)
  have "newer K n (ah_next K n h s) (slotA s)" "newer K n (ah_next K n h s) (slotB s)"
    using next_gen_greater [OF gen] by (auto simp: newer_def c v)
  then show ?thesis using assms(3) unfolding s'
    by (auto simp: ah_inv_def ah_write_inactive_def chosen_cases c v)
next
  fix h k assume s': "s' = ah_write_inactive K n (ah_torn K n h k s) s" and h: "length h = n" "k < n + 40"
    and t: "AtomicHeaderValid K (ah_torn K n h k s) n \<longrightarrow> ah_torn K n h k s = ah_inactive K n s"
  have "length (ah_next K n h s) = n + 40"
    unfolding ah_next_def using assms h by (simp add: AtomicHeaderBuild_copy ah_copy_valid)
  moreover have "length (ah_inactive K n s) = n + 40" using assms(3) by (auto simp: ah_inv_def ah_inactive_def)
  ultimately have "length (ah_torn K n h k s) = n + 40" using h by (simp add: ah_torn_def)
  then show ?thesis using assms(3) t unfolding s'
    by (auto simp: ah_inv_def ah_write_inactive_def ah_inactive_def chosen_cases newer_def)
qed

lemma ah_inv_reachable:
  assumes "length K = 32" "n + 72 < 2 ^ 29" "ah_reachable K n s"
  shows "ah_inv K n s"
  using assms(3)
proof (induction rule: ah_reachable.induct)
  case (first h b g)
  then show ?case using assms
    by (simp add: ah_inv_def AtomicHeaderBuild_copy ah_copy_valid newer_def)
next
  case (both h h' g g')
  then show ?case using assms
    by (simp add: ah_inv_def AtomicHeaderBuild_copy ah_copy_valid newer_def)
next
  case (step s s')
  then show ?case using ah_inv_step assms by blast
qed

end
