(* ===== verification/HeaderBackup.thy ===== *)
theory HeaderBackup
  imports KeyslotArea Sha256
begin

text \<open>
  Backup and restore of a key slot area with an integrity tag, \<open>src/src/Common/HeaderBackup.c\<close>. The
  blob is magic, version, length, area bytes and the SHA-256 of all of them. The functions take the area
  as the record of callbacks; the theorems are about any area that keeps the contract \<open>byte_area\<close>.
\<close>

definition HB_MAGIC :: bytes where
  "HB_MAGIC = cstr ''VCHDRBK1''"

definition hb_put_u64_be :: "u64 \<Rightarrow> bytes" where
  "hb_put_u64_be v = be_bytes 8 v"

definition hb_get_u64_be :: "bytes \<Rightarrow> u64" where
  "hb_get_u64_be p = be_word (take 8 p)"

definition HeaderBackupCreate :: "'c KeyslotArea \<Rightarrow> bytes \<Rightarrow> u64 \<Rightarrow> u64 ptr \<Rightarrow> int \<times> bytes \<times> u64 ptr" where
  "HeaderBackupCreate area out outCap outLen =
     (let sz = area_size area; total = sz + 49
      in if outCap < total then (- 4, out, outLen)
         else let out = store_at 0 HB_MAGIC out;
                  out = out[8 := 1];
                  out = store_at 9 (hb_put_u64_be sz) out
              in case area_read area 0 (unat sz) of
                   None \<Rightarrow> (- 3, out, outLen)
                 | Some bs \<Rightarrow>
                   let out = store_at 17 bs out;
                       tag = sha256 (take (unat (17 + sz)) out) (ucast (17 + sz));
                       out = store_at (unat (17 + sz)) tag out
                   in (0, out, map_option (\<lambda>_. total) outLen))"

definition HeaderBackupVerify :: "bytes \<Rightarrow> u64 \<Rightarrow> int" where
  "HeaderBackupVerify blob len =
     (if len < 49 then - 1
      else if slice 0 8 blob \<noteq> HB_MAGIC then - 1
      else if blob ! 8 \<noteq> 1 then - 1
      else let areaLen = hb_get_u64_be (drop 9 blob)
           in if len \<noteq> 17 + areaLen + 32 then - 1
              else let tag = sha256 (take (unat (17 + areaLen)) blob) (ucast (17 + areaLen))
                   in if tag \<noteq> slice (unat (17 + areaLen)) 32 blob then - 2 else 0)"

definition HeaderBackupRestore :: "bytes \<Rightarrow> u64 \<Rightarrow> 'c KeyslotArea \<Rightarrow> int \<times> 'c KeyslotArea" where
  "HeaderBackupRestore blob len area =
     (let rc = HeaderBackupVerify blob len
      in if rc \<noteq> 0 then (rc, area)
         else let areaLen = hb_get_u64_be (drop 9 blob)
              in if areaLen > area_size area then (- 4, area)
                 else let (wrc, area) = area_write area 0 (slice 17 (unat areaLen) blob)
                      in if wrc \<noteq> 0 then (- 3, area) else (0, area))"

section \<open>What a blob is\<close>

definition hb_blob :: "bytes \<Rightarrow> bytes" where
  "hb_blob a = (let body = HB_MAGIC @ [1] @ be_bytes 8 (of_nat (length a) :: u64) @ a
     in body @ fips_sha256 body)"

lemma length_HB_MAGIC [simp]: "length HB_MAGIC = 8"
  by (simp add: HB_MAGIC_def)

lemma length_hb_blob [simp]: "length (hb_blob a) = length a + 49"
  by (simp add: hb_blob_def)

lemma HeaderBackupVerify_blob:
  assumes "length a + 49 < 2 ^ 29"
  shows "HeaderBackupVerify (hb_blob a) (of_nat (length a + 49)) = 0"
    "hb_get_u64_be (drop 9 (hb_blob a)) = of_nat (length a)"
    "slice 17 (length a) (hb_blob a) = a"
proof -
  define body where "body = HB_MAGIC @ [1] @ be_bytes 8 (of_nat (length a) :: u64) @ a"
  have blob: "hb_blob a = body @ fips_sha256 body" by (simp add: hb_blob_def body_def)
  have lb: "length body = 17 + length a" by (simp add: body_def)
  show len: "hb_get_u64_be (drop 9 (hb_blob a)) = of_nat (length a)"
    by (simp add: blob body_def hb_get_u64_be_def be_word_be_bytes)
  show "slice 17 (length a) (hb_blob a) = a"
    by (simp add: blob body_def slice_def)
  have n: "(17 + of_nat (length a) :: u64) = of_nat (17 + length a)" by simp
  have un: "unat (17 + of_nat (length a) :: u64) = 17 + length a"
    unfolding n by (rule unat_of_small) (use assms in simp)
  have "sha256 (take (17 + length a) (hb_blob a)) (ucast (17 + of_nat (length a) :: u64)) = fips_sha256 body"
    unfolding n ucast_of_nat_u32 by (subst sha256_fips) (use assms lb in \<open>simp_all add: blob\<close>)
  moreover have "slice 0 8 (hb_blob a) = HB_MAGIC" "hb_blob a ! 8 = 1"
    by (simp_all add: blob body_def slice_def nth_append)
  moreover have "slice (17 + length a) 32 (hb_blob a) = fips_sha256 body"
    by (simp add: blob slice_def lb)
  moreover have "\<not> (of_nat (length a + 49) :: u64) < 49"
    using assms unat_of_small [of "length a + 49"] by (simp add: word_less_nat_alt del: of_nat_add)
  ultimately show "HeaderBackupVerify (hb_blob a) (of_nat (length a + 49)) = 0"
    unfolding HeaderBackupVerify_def len Let_def un by simp
qed

lemma hb_blob_inject:
  assumes "length a + 49 < 2 ^ 29" "hb_blob a = hb_blob b"
  shows "a = b"
proof -
  have l: "length a = length b" using arg_cong [OF assms(2), of length] by simp
  have "a = slice 17 (length a) (hb_blob a)" by (rule HeaderBackupVerify_blob(3) [OF assms(1), symmetric])
  also have "\<dots> = slice 17 (length b) (hb_blob b)" by (simp only: assms(2) l)
  also have "\<dots> = b" by (rule HeaderBackupVerify_blob(3)) (use assms(1) l in simp)
  finally show ?thesis .
qed

text \<open>Verification accepts the blobs that the format describes and no others.\<close>

lemma HeaderBackupVerify_iff:
  assumes "length blob < 2 ^ 29"
  shows "HeaderBackupVerify blob (of_nat (length blob)) = 0 \<longleftrightarrow> (\<exists>a. blob = hb_blob a)"
proof
  define al where "al = hb_get_u64_be (drop 9 blob)"
  assume v: "HeaderBackupVerify blob (of_nat (length blob)) = 0"
  then have m: "slice 0 8 blob = HB_MAGIC" "blob ! 8 = 1" "(of_nat (length blob) :: u64) = 17 + al + 32"
    "sha256 (take (unat (17 + al)) blob) (ucast (17 + al)) = slice (unat (17 + al)) 32 blob"
    and l49: "49 \<le> length blob"
    using assms unat_of_small [of "length blob"]
    by (auto simp: HeaderBackupVerify_def Let_def al_def word_less_nat_alt split: if_splits)
  define n where "n = length blob - 49"
  have lb: "length blob = n + 49" using l49 by (simp add: n_def)
  have al: "al = of_nat n" using m(3) by (simp add: lb)
  have un: "unat (17 + al) = 17 + n" using unat_of_small [of "17 + n"] assms lb by (simp add: al)
  define a where "a = slice 17 n blob"
  have la: "length a = n" by (simp add: a_def lb)
  have be: "slice 9 8 blob = be_bytes 8 al"
    unfolding al_def hb_get_u64_be_def slice_def by (rule be_bytes_be_word [symmetric]) (simp_all add: lb)
  have s1: "slice 8 1 blob = [1]" using m(2) lb by (simp add: slice_def take_Suc_conv_app_nth hd_drop_conv_nth take_Suc)
  have "take (17 + n) blob = slice 0 8 blob @ slice 8 1 blob @ slice 9 8 blob @ slice 17 n blob"
    by (simp add: slice_def take_add [symmetric] drop_drop [symmetric] flip: take_add drop_drop append_assoc)
  then have body: "take (17 + n) blob = HB_MAGIC @ [1] @ be_bytes 8 (of_nat (length a) :: u64) @ a"
    using s1 by (simp add: m(1) be al lb a_def)
  have "sha256 (take (17 + n) blob) (ucast (17 + al)) = fips_sha256 (take (17 + n) blob)"
    by (rule sha256_fips) (use assms lb ucast_of_nat_u32 [of "17 + n"] in \<open>simp_all add: al\<close>)
  then have "slice (17 + n) 32 blob = fips_sha256 (take (17 + n) blob)" using m(4) un by simp
  then have "drop (17 + n) blob = fips_sha256 (take (17 + n) blob)" by (simp add: slice_def lb)
  then have "blob = hb_blob a" unfolding hb_blob_def Let_def body [symmetric] by (metis append_take_drop_id)
  then show "\<exists>a. blob = hb_blob a" ..
next
  assume "\<exists>a. blob = hb_blob a"
  then obtain a where "blob = hb_blob a" ..
  with assms HeaderBackupVerify_blob(1) [of a] show "HeaderBackupVerify blob (of_nat (length blob)) = 0" by simp
qed

context byte_area
begin

lemma HeaderBackupCreate_spec:
  assumes "good c" "length (contents c) + 49 < 2 ^ 29" "length out = length (contents c) + 49 + k"
    "length out < 2 ^ 63"
  shows "HeaderBackupCreate (area_of rd wr sz c) out (of_nat (length out)) (Some l0) =
    (0, hb_blob (contents c) @ drop (length (contents c) + 49) out, Some (of_nat (length (contents c) + 49)))"
proof -
  define n where "n = length (contents c)"
  have sz: "sz c = of_nat n" "unat (sz c) = n" using size_eq [OF assms(1)] by (auto simp: n_def intro: word_of_unat)
  have rdc: "rd c 0 n = Some (contents c)"
    using read_in [OF assms(1), of 0 n] by (simp add: n_def)
  have un: "unat (17 + sz c) = 17 + n" using unat_of_small [of "17 + n"] assms(2) by (simp add: sz n_def)
  have cap: "\<not> (of_nat (length out) :: u64) < sz c + 49"
    using unat_of_small [of "n + 49"] unat_of_small [of "length out"] assms
    by (simp add: word_less_nat_alt sz n_def)
  have out3: "store_at 9 (hb_put_u64_be (sz c)) ((store_at 0 HB_MAGIC out)[8 := 1]) =
      (HB_MAGIC @ [1] @ be_bytes 8 (sz c)) @ drop 17 out"
  proof -
    obtain x r where x: "drop 8 out = x # r" using assms(3) by (cases "drop 8 out") auto
    have d: "drop 17 out = drop 8 r" using arg_cong [OF x, of "drop 9"] by simp
    have "(store_at 0 HB_MAGIC out)[8 := 1] = (HB_MAGIC @ [1]) @ r" (is "?l = _")
      by (simp add: store_at_def x list_update_append)
    then have "store_at 9 (hb_put_u64_be (sz c)) ?l = store_at 9 (hb_put_u64_be (sz c)) ((HB_MAGIC @ [1]) @ r)" by (rule arg_cong)
    also have "\<dots> = (HB_MAGIC @ [1]) @ hb_put_u64_be (sz c) @ drop 8 r"
      by (subst store_at_append) (simp_all add: hb_put_u64_be_def)
    finally show ?thesis by (simp add: d hb_put_u64_be_def)
  qed
  define body where "body = HB_MAGIC @ [1] @ be_bytes 8 (of_nat n :: u64) @ contents c"
  have out4: "store_at 17 (contents c) ((HB_MAGIC @ [1] @ be_bytes 8 (sz c)) @ drop 17 out) =
      body @ drop (17 + n) out"
    by (subst store_at_append) (simp_all add: body_def sz n_def add.commute)
  have lb: "length body = 17 + n" by (simp add: body_def n_def)
  have tag: "sha256 (take (17 + n) (body @ drop (17 + n) out)) (ucast (17 + sz c)) = fips_sha256 body"
    using ucast_of_nat_u32 [of "17 + n"] assms(2) lb by (subst sha256_fips) (simp_all add: sz n_def)
  have fin: "store_at (17 + n) (fips_sha256 body) (body @ drop (17 + n) out) =
      hb_blob (contents c) @ drop (n + 49) out"
    by (subst store_at_append) (simp_all add: lb hb_blob_def body_def n_def add.commute)
  show ?thesis
    unfolding HeaderBackupCreate_def Let_def area_of_simps sz(2) rdc option.case out3 out4 un tag fin
    using cap by (simp add: sz n_def add.commute)
qed

lemma HeaderBackupRestore_spec:
  assumes "good c" "length blob < 2 ^ 29" "HeaderBackupRestore blob (of_nat (length blob)) (area_of rd wr sz c) = (rc, area')"
  shows "\<exists>c'. area' = area_of rd wr sz c' \<and> good c' \<and>
    (if rc = 0 then (\<exists>a. blob = hb_blob a \<and> length a \<le> length (contents c) \<and> contents c' = store_at 0 a (contents c))
     else c' = c \<and> ((\<nexists>a. blob = hb_blob a) \<or> (\<exists>a. blob = hb_blob a \<and> length (contents c) < length a)))"
proof (cases "\<exists>a. blob = hb_blob a")
  case False
  then have "HeaderBackupVerify blob (of_nat (length blob)) \<noteq> 0" using HeaderBackupVerify_iff [OF assms(2)] by simp
  then show ?thesis using False assms(1,3) by (auto simp: HeaderBackupRestore_def Let_def)
next
  case True
  then obtain a where a: "blob = hb_blob a" ..
  note v = HeaderBackupVerify_blob [of a]
  have la: "length a + 49 < 2 ^ 29" using assms(2) a by simp
  have v0: "HeaderBackupVerify blob (of_nat (length blob)) = 0" using v(1) la a by simp
  have ul: "unat (of_nat (length a) :: u64) = length a" using la by (simp add: unat_of_small)
  have inj: "\<And>b. hb_blob a = hb_blob b \<Longrightarrow> b = a"
    using hb_blob_inject [OF la] by blast
  have step: "HeaderBackupRestore blob (of_nat (length blob)) (area_of rd wr sz c) =
      (if length (contents c) < length a then (- 4, area_of rd wr sz c)
       else let (wrc, c') = wr c 0 a in if wrc \<noteq> 0 then (- 3, area_of rd wr sz c') else (0, area_of rd wr sz c'))"
    using v(2,3) la size_eq [OF assms(1)] v0
    by (simp add: HeaderBackupRestore_def Let_def a ul word_less_nat_alt split: prod.splits)
  show ?thesis
  proof (cases "length (contents c) < length a")
    case True
    then show ?thesis using step assms(1,3) a by auto
  next
    case False
    then obtain c' where "wr c 0 a = (0, c')" "good c'" "contents c' = store_at 0 a (contents c)"
      using write_in [OF assms(1), of 0 a] by auto
    then have "rc = 0" "area' = area_of rd wr sz c'" using step False assms(3) by auto
    moreover have "\<exists>b. blob = hb_blob b \<and> length b \<le> length (contents c) \<and> contents c' = store_at 0 b (contents c)"
      using False a \<open>contents c' = _\<close> by (intro exI [of _ a]) simp
    ultimately show ?thesis using \<open>good c'\<close> by auto
  qed
qed

lemma HeaderBackupRestore_blob:
  assumes "good c" "length a + 49 < 2 ^ 29" "length a \<le> length (contents c)"
  shows "\<exists>c'. HeaderBackupRestore (hb_blob a) (of_nat (length (hb_blob a))) (area_of rd wr sz c) = (0, area_of rd wr sz c') \<and>
    good c' \<and> contents c' = store_at 0 a (contents c)"
proof -
  let ?b = "hb_blob a"
  obtain rc area' where r: "HeaderBackupRestore ?b (of_nat (length ?b)) (area_of rd wr sz c) = (rc, area')"
    by (cases "HeaderBackupRestore ?b (of_nat (length ?b)) (area_of rd wr sz c)") auto
  have inj: "b = a" if "?b = hb_blob b" for b using hb_blob_inject [OF assms(2) that] by simp
  obtain c' where c': "area' = area_of rd wr sz c'" "good c'"
    and s: "if rc = 0 then (\<exists>b. ?b = hb_blob b \<and> length b \<le> length (contents c) \<and> contents c' = store_at 0 b (contents c))
       else c' = c \<and> ((\<nexists>b. ?b = hb_blob b) \<or> (\<exists>b. ?b = hb_blob b \<and> length (contents c) < length b))"
    using HeaderBackupRestore_spec [OF assms(1) _ r] assms(2) by auto
  have "rc = 0" using s assms(3) inj by (metis not_less)
  moreover from this s have "contents c' = store_at 0 a (contents c)" using inj by auto
  ultimately show ?thesis using r c' by blast
qed

end

end
