(* ===== verification/KeyslotAreaMac.thy ===== *)
theory KeyslotAreaMac
  imports KeyslotStore
begin

text \<open>
  The authentication tag over the whole key slot region, \<open>src/src/Common/KeyslotAreaMac.c\<close>: HMAC-SHA-256,
  under a key derived with HKDF from the volume master key, of a magic string, the number of occupied
  slots and the bytes of the region, kept in a trailer. The counting loop is modelled for regions of
  less than 2^64 - 1024 bytes, where its 64-bit offset does not wrap.
\<close>

section \<open>The code\<close>

definition kam_hmac :: "bytes \<Rightarrow> bytes \<Rightarrow> bytes" where
  "kam_hmac key msg =
     (let (k0, ctx) =
            (if length key > 64
             then let (d, ctx) = sha256_end (sha256_hash key (of_nat (length key)) (sha256_begin ctx_uninit))
                  in (d @ zeros 32, ctx)
             else (key @ zeros (64 - length key), ctx_uninit));
          pad = map (\<lambda>b. b XOR 0x36) k0;
          ctx = sha256_hash pad 64 (sha256_begin ctx);
          ctx = (if length msg > 0 then sha256_hash msg (of_nat (length msg)) ctx else ctx);
          (inner, ctx) = sha256_end ctx;
          pad = map (\<lambda>b. b XOR 0x5c) k0;
          ctx = sha256_hash inner 32 (sha256_hash pad 64 (sha256_begin ctx))
      in fst (sha256_end ctx))"

definition KeyslotAreaMacDeriveKey :: "bytes \<Rightarrow> bytes" where
  "KeyslotAreaMacDeriveKey vmk =
     (let zeroSalt = zeros 32; info = cstr ''keyslot-area-mac'';
          prk = kam_hmac zeroSalt vmk;
          t1in = info @ [1]
      in kam_hmac prk t1in)"

definition put_u32_be :: "u32 \<Rightarrow> bytes" where
  "put_u32_be v = [ucast (drop_bit 24 v), ucast (drop_bit 16 v), ucast (drop_bit 8 v), ucast v]"

definition get_u32_be :: "bytes \<Rightarrow> u32" where
  "get_u32_be p = push_bit 24 (ucast (p ! 0)) OR push_bit 16 (ucast (p ! 1)) OR push_bit 8 (ucast (p ! 2))
     OR ucast (p ! 3)"

fun count_slots_loop :: "'c KeyslotArea \<Rightarrow> nat list \<Rightarrow> u32 \<Rightarrow> u32" where
  "count_slots_loop area [] n = n"
| "count_slots_loop area (i # is) n =
     (case area_read area (of_nat i * 1024) 4 of
        None \<Rightarrow> n
      | Some m \<Rightarrow> count_slots_loop area is (if m = VCKS then n + 1 else n))"

definition count_slots :: "'c KeyslotArea \<Rightarrow> u64 \<Rightarrow> u32" where
  "count_slots area regionLen = count_slots_loop area [0..<unat (regionLen div 1024)] 0"

definition KAM_TRAILER_MAGIC :: bytes where
  "KAM_TRAILER_MAGIC = cstr ''VCKSAREA1''"

text \<open>The loop that feeds the region to the hash, a buffer at a time.\<close>

function hash_region :: "'c KeyslotArea \<Rightarrow> u64 \<Rightarrow> u64 \<Rightarrow> sha256_ctx \<Rightarrow> sha256_ctx option" where
  "hash_region area regionLen off c =
     (if off < regionLen
      then let n = regionLen - off; n = (if n > 1024 then 1024 else n)
           in case area_read area off (unat n) of
                None \<Rightarrow> None
              | Some buf \<Rightarrow> hash_region area regionLen (off + n) (sha256_hash buf (ucast n) c)
      else Some c)"
  by auto

definition KeyslotAreaMacCompute :: "'c KeyslotArea \<Rightarrow> u64 \<Rightarrow> bytes \<Rightarrow> bytes \<Rightarrow> int \<times> bytes" where
  "KeyslotAreaMacCompute area regionLen kArea out =
     (let slots = count_slots area regionLen;
          k0 = take 32 kArea @ zeros 32;
          ipad = map (\<lambda>b. b XOR 0x36) k0; opad = map (\<lambda>b. b XOR 0x5c) k0;
          hdr = KAM_TRAILER_MAGIC @ put_u32_be slots;
          c = sha256_begin ctx_uninit;
          c = sha256_hash ipad 64 c;
          c = sha256_hash hdr 13 c
      in case hash_region area regionLen 0 c of
           None \<Rightarrow> (- 3, out)
         | Some c \<Rightarrow>
           let (inner, c) = sha256_end c;
               c = sha256_hash inner 32 (sha256_hash opad 64 (sha256_begin c))
           in (0, fst (sha256_end c)))"

definition KeyslotAreaMacWrite :: "'c KeyslotArea \<Rightarrow> u64 \<Rightarrow> u64 \<Rightarrow> bytes \<Rightarrow> int \<times> 'c KeyslotArea" where
  "KeyslotAreaMacWrite area regionLen trailerOff kArea =
     (let slots = count_slots area regionLen;
          (rc, tag) = KeyslotAreaMacCompute area regionLen kArea (zeros 32)
      in if rc \<noteq> 0 then (rc, area)
         else let trailer = KAM_TRAILER_MAGIC @ [1] @ put_u32_be slots @ tag;
                  (wrc, area) = area_write area trailerOff trailer
              in if wrc \<noteq> 0 then (- 3, area) else (0, area))"

definition KeyslotAreaMacVerify :: "'c KeyslotArea \<Rightarrow> u64 \<Rightarrow> u64 \<Rightarrow> bytes \<Rightarrow> int" where
  "KeyslotAreaMacVerify area regionLen trailerOff kArea =
     (case area_read area trailerOff 46 of
        None \<Rightarrow> - 3
      | Some trailer \<Rightarrow>
        if slice 0 9 trailer \<noteq> KAM_TRAILER_MAGIC then - 2
        else if trailer ! 9 \<noteq> 1 then - 2
        else let (rc, tag) = KeyslotAreaMacCompute area regionLen kArea (zeros 32)
             in if rc \<noteq> 0 then rc
                else if get_u32_be (drop 10 trailer) \<noteq> count_slots area regionLen then - 1
                else if slice 14 32 trailer \<noteq> tag then - 1 else 0)"

lemma region_step:
  fixes off :: u64
  assumes "off < regionLen" "n = (if regionLen - off > 1024 then 1024 else regionLen - off)"
  shows "unat (off + n) = unat off + unat n" "0 < unat n" "unat n \<le> 1024" "unat off + unat n \<le> unat regionLen"
    "unat (regionLen - (off + n)) = unat regionLen - (unat off + unat n)"
proof -
  have d: "unat (regionLen - off) = unat regionLen - unat off"
    using assms(1) by (simp add: unat_sub_if' word_less_nat_alt)
  have l: "unat off < unat regionLen" using assms(1) by (simp add: word_less_nat_alt)
  show 1: "0 < unat n" "unat n \<le> 1024" "unat off + unat n \<le> unat regionLen"
    using l d by (auto simp: assms(2) word_less_nat_alt not_less split: if_splits)
  have "unat regionLen < 2 ^ 64" using unsigned_less [of regionLen] by simp
  then show 2: "unat (off + n) = unat off + unat n" using 1 by (simp add: unat_word_ariths)
  show "unat (regionLen - (off + n)) = unat regionLen - (unat off + unat n)"
    using 1 2 by (simp add: unat_sub_if')
qed

termination hash_region
proof (relation "measure (\<lambda>(area, r, off, c). unat (r - off))", goal_cases)
  case 1
  then show ?case by simp
next
  case (2 area r off c x xa buf)
  then have d: "unat (r - off) = unat r - unat off" "unat off < unat r" by (simp_all add: unat_sub_if' word_less_nat_alt)
  from region_step [OF 2(1) 2(3) [unfolded 2(2)]] d show ?case by simp
qed

declare hash_region.simps [simp del]

section \<open>What is authenticated\<close>

lemma kam_hmac_rfc:
  "length key < 2 ^ 29 \<Longrightarrow> length msg + 64 < 2 ^ 29 \<Longrightarrow> kam_hmac key msg = hmac_sha256 key msg"
  unfolding kam_hmac_def by (rule hmac_one_part)

text \<open>HKDF (RFC 5869) with one block of output.\<close>

definition hkdf32 :: "bytes \<Rightarrow> bytes \<Rightarrow> bytes \<Rightarrow> bytes" where
  "hkdf32 salt ikm info = hmac_sha256 (hmac_sha256 salt ikm) (info @ [1])"

lemma KeyslotAreaMacDeriveKey_hkdf:
  "length vmk + 64 < 2 ^ 29 \<Longrightarrow>
   KeyslotAreaMacDeriveKey vmk = hkdf32 (zeros 32) vmk (cstr ''keyslot-area-mac'')"
  by (simp add: KeyslotAreaMacDeriveKey_def hkdf32_def kam_hmac_rfc)

lemma length_KAM_TRAILER_MAGIC [simp]: "length KAM_TRAILER_MAGIC = 9"
  by (simp add: KAM_TRAILER_MAGIC_def)

lemma put_u32_be_bytes: "put_u32_be v = be_bytes 4 v"
  by (simp add: put_u32_be_def be_bytes_def le_bytes_def upt_rec)

lemma get_put_u32_be: "get_u32_be (put_u32_be v @ r) = v"
  unfolding get_u32_be_def put_u32_be_def
  by (rule word_eq_bits) (simp add: bit_simps upt_eval bit_byte_ge)

definition slot_marks :: "bytes \<Rightarrow> nat \<Rightarrow> u32" where
  "slot_marks m n = of_nat (length (filter (\<lambda>i. slice (i * 1024) 4 m = VCKS) [0..<n div 1024]))"

definition area_msg :: "bytes \<Rightarrow> nat \<Rightarrow> bytes" where
  "area_msg m n = KAM_TRAILER_MAGIC @ put_u32_be (slot_marks m n) @ take n m"

definition area_trailer :: "bytes \<Rightarrow> bytes \<Rightarrow> nat \<Rightarrow> bytes" where
  "area_trailer kArea m n = KAM_TRAILER_MAGIC @ [1] @ put_u32_be (slot_marks m n) @ hmac_sha256 kArea (area_msg m n)"

lemma length_area_trailer [simp]: "length (area_trailer k m n) = 46"
  by (simp add: area_trailer_def put_u32_be_bytes)

lemma area_trailer_magic: "take 10 (area_trailer k m n) = KAM_TRAILER_MAGIC @ [1]"
  by (simp add: area_trailer_def)

lemma slot_marks_region:
  assumes "take n m = take n m'"
  shows "slot_marks m n = slot_marks m' n"
proof -
  have "slice (i * 1024) 4 m = slice (i * 1024) 4 m'" if "i < n div 1024" for i
  proof -
    have "Suc i * 1024 \<le> n" by (subst less_eq_div_iff_mult_less_eq [symmetric]) (use that in simp_all)
    then have "i * 1024 + 4 \<le> n" by simp
    then have "take (i * 1024 + 4) m = take (i * 1024 + 4) m'"
      using arg_cong [OF assms, of "take (i * 1024 + 4)"] by (simp add: min_def)
    from arg_cong [OF this, of "drop (i * 1024)"] show ?thesis by (simp add: slice_def drop_take)
  qed
  then have "filter (\<lambda>i. slice (i * 1024) 4 m = VCKS) [0..<n div 1024] =
      filter (\<lambda>i. slice (i * 1024) 4 m' = VCKS) [0..<n div 1024]"
    by (intro filter_cong) auto
  then show ?thesis by (simp add: slot_marks_def)
qed

text \<open>The trailer depends on nothing but the region.\<close>

lemma area_trailer_region: "take n m = take n m' \<Longrightarrow> area_trailer k m n = area_trailer k m' n"
  using slot_marks_region [of n m m'] by (simp add: area_trailer_def area_msg_def)

lemma length_area_msg: "n \<le> length m \<Longrightarrow> length (area_msg m n) = 13 + n"
  by (simp add: area_msg_def put_u32_be_bytes)

context byte_area
begin

lemma count_slots_loop_spec:
  assumes "good c" "\<And>i. i \<in> set is \<Longrightarrow> i * 1024 + 4 \<le> length (contents c)"
  shows "count_slots_loop (area_of rd wr sz c) is k =
    k + of_nat (length (filter (\<lambda>i. slice (i * 1024) 4 (contents c) = VCKS) is))"
  using assms(2)
proof (induction "is" arbitrary: k)
  case Nil
  then show ?case by simp
next
  case (Cons i "is")
  have i: "i * 1024 + 4 \<le> length (contents c)" using Cons.prems by simp
  then have "unat (of_nat i * 1024 :: u64) = i * 1024"
    using size_bound [OF assms(1)] unat_of_small [of "i * 1024"] by simp
  then have "rd c (of_nat i * 1024) 4 = Some (slice (i * 1024) 4 (contents c))"
    using read_in [OF assms(1), of "of_nat i * 1024" 4] i by simp
  then show ?case using Cons by (simp add: add.assoc)
qed

lemma count_slots_spec:
  assumes "good c" "unat n \<le> length (contents c)"
  shows "count_slots (area_of rd wr sz c) n = slot_marks (contents c) (unat n)"
proof -
  have "i * 1024 + 4 \<le> length (contents c)" if "i < unat n div 1024" for i
  proof -
    have "Suc i * 1024 \<le> unat n div 1024 * 1024" using that by (intro mult_le_mono1) simp
    also have "\<dots> \<le> unat n" by simp
    finally show ?thesis using assms(2) by simp
  qed
  then show ?thesis
    unfolding count_slots_def slot_marks_def unat_div_distrib
    by (subst count_slots_loop_spec [OF assms(1)]) simp_all
qed

lemma hash_region_reps:
  assumes "good c" "unat n \<le> length (contents c)" "off \<le> n" "sha256_reps ctx m"
    "length m + (unat n - unat off) < 2 ^ 29"
  shows "\<exists>ctx'. hash_region (area_of rd wr sz c) n off ctx = Some ctx' \<and>
    sha256_reps ctx' (m @ slice (unat off) (unat n - unat off) (contents c))"
  using assms(3-5)
proof (induction "unat n - unat off" arbitrary: off ctx m rule: less_induct)
  case less
  show ?case
  proof (cases "off < n")
    case False
    then have "off = n" using less.prems by simp
    then show ?thesis using less.prems by (subst hash_region.simps) (simp add: slice_def)
  next
    case True
    define k where "k = (if n - off > 1024 then 1024 else n - off)"
    note st = region_step [OF True k_def]
    define buf where "buf = slice (unat off) (unat k) (contents c)"
    have lb: "length buf = unat k" using st assms(2) by (simp add: buf_def)
    have read: "rd c off (unat k) = Some buf"
      using read_in [OF assms(1), of off "unat k"] st assms(2) by (simp add: buf_def)
    have len: "(ucast k :: u32) = of_nat (length buf)" by (simp add: lb)
    have reps: "sha256_reps (sha256_hash buf (ucast k) ctx) (m @ buf)"
      by (rule sha256_hash_reps [OF less.prems(2) _ len]) (use less.prems(3) st lb in simp)
    have le: "off + k \<le> n" using st by (simp add: word_le_nat_alt)
    obtain ctx' where c': "hash_region (area_of rd wr sz c) n (off + k) (sha256_hash buf (ucast k) ctx) = Some ctx'"
      "sha256_reps ctx' ((m @ buf) @ slice (unat (off + k)) (unat n - unat (off + k)) (contents c))"
    proof -
      have "unat n - unat (off + k) < unat n - unat off" using st True by (simp add: word_less_nat_alt)
      moreover have "length (m @ buf) + (unat n - unat (off + k)) < 2 ^ 29" using st less.prems(3) lb by simp
      ultimately show thesis using less.hyps [OF _ le reps] that by blast
    qed
    have "hash_region (area_of rd wr sz c) n off ctx = Some ctx'"
      using c'(1) True read by (subst hash_region.simps) (simp add: k_def [symmetric])
    moreover have "buf @ slice (unat (off + k)) (unat n - unat (off + k)) (contents c) =
        slice (unat off) (unat n - unat off) (contents c)"
    proof -
      have eq: "unat n - unat off = unat k + (unat n - unat (off + k))" using st by simp
      have "drop (unat (off + k)) (contents c) = drop (unat k) (drop (unat off) (contents c))"
        using st by (simp add: add.commute)
      then show ?thesis unfolding buf_def slice_def eq take_add by simp
    qed
    ultimately show ?thesis using c'(2) by simp
  qed
qed

lemma KeyslotAreaMacCompute_spec:
  assumes "good c" "unat n \<le> length (contents c)" "unat n + 77 < 2 ^ 29" "length kArea = 32"
  shows "KeyslotAreaMacCompute (area_of rd wr sz c) n kArea out =
    (0, hmac_sha256 kArea (area_msg (contents c) (unat n)))"
proof -
  define hdr where "hdr = KAM_TRAILER_MAGIC @ put_u32_be (slot_marks (contents c) (unat n))"
  have lh: "length hdr = 13" by (simp add: hdr_def put_u32_be_bytes)
  define c1 where "c1 = sha256_hash (map (\<lambda>b. b XOR 0x36) (hmac_key kArea)) 64 (sha256_begin ctx_uninit)"
  have "sha256_reps c1 (ipad (hmac_key kArea))" unfolding c1_def by (rule hmac_inner) simp
  then have "sha256_reps (sha256_hash hdr 13 c1) (ipad (hmac_key kArea) @ hdr)"
    by (rule sha256_hash_reps) (simp_all add: lh)
  then obtain c2 where c2: "hash_region (area_of rd wr sz c) n 0 (sha256_hash hdr 13 c1) = Some c2"
    "sha256_reps c2 ((ipad (hmac_key kArea) @ hdr) @ slice (unat (0 :: u64)) (unat n - unat (0 :: u64)) (contents c))"
    using hash_region_reps [OF assms(1,2), of 0] assms(3) lh by fastforce
  then have "sha256_reps c2 (ipad (hmac_key kArea) @ area_msg (contents c) (unat n))"
    by (simp add: area_msg_def hdr_def slice_def)
  from hmac_outer [OF this] obtain inner c3 where c3: "sha256_end c2 = (inner, c3)"
    "fst (sha256_end (sha256_hash inner 32 (sha256_hash (map (\<lambda>b. b XOR 0x5c) (hmac_key kArea)) 64
       (sha256_begin c3)))) = hmac_sha256 kArea (area_msg (contents c) (unat n))"
    using length_area_msg assms(2,3) by auto
  have key: "take 32 kArea @ zeros 32 = hmac_key kArea" using assms(4) by (simp add: hmac_key_32)
  show ?thesis
    unfolding KeyslotAreaMacCompute_def Let_def key count_slots_spec [OF assms(1,2)] hdr_def [symmetric]
      c1_def [symmetric] c2(1) option.case c3 prod.case ..
qed

lemma KeyslotAreaMacWrite_spec:
  assumes "good c" "unat n \<le> length (contents c)" "unat n + 77 < 2 ^ 29" "length kArea = 32"
    "unat off + 46 \<le> length (contents c)"
  shows "\<exists>c'. KeyslotAreaMacWrite (area_of rd wr sz c) n off kArea = (0, area_of rd wr sz c') \<and> good c' \<and>
    contents c' = store_at (unat off) (area_trailer kArea (contents c) (unat n)) (contents c)"
proof -
  define t where "t = area_trailer kArea (contents c) (unat n)"
  have "length t = 46" by (simp add: t_def)
  then obtain c' where "wr c off t = (0, c')" "good c'" "contents c' = store_at (unat off) t (contents c)"
    using write_in [OF assms(1), of off t] assms(5) by auto
  then show ?thesis
    unfolding KeyslotAreaMacWrite_def count_slots_spec [OF assms(1,2)] KeyslotAreaMacCompute_spec [OF assms(1-4)]
      Let_def prod.case t_def area_trailer_def by auto
qed

lemma KeyslotAreaMacVerify_spec:
  assumes "good c" "unat n \<le> length (contents c)" "unat n + 77 < 2 ^ 29" "length kArea = 32"
    "unat off + 46 \<le> length (contents c)"
  shows "KeyslotAreaMacVerify (area_of rd wr sz c) n off kArea =
    (let t = slice (unat off) 46 (contents c)
     in if take 10 t \<noteq> KAM_TRAILER_MAGIC @ [1] then - 2
        else if t \<noteq> area_trailer kArea (contents c) (unat n) then - 1 else 0)"
proof -
  define t where "t = slice (unat off) 46 (contents c)"
  have lt: "length t = 46" using assms(5) by (simp add: t_def)
  have read: "rd c off 46 = Some t" using read_in [OF assms(1), of off 46] assms(5) by (simp add: t_def)
  have magic: "take 10 t = KAM_TRAILER_MAGIC @ [1] \<longleftrightarrow> slice 0 9 t = KAM_TRAILER_MAGIC \<and> t ! 9 = 1"
  proof -
    have "take 10 t = slice 0 9 t @ [t ! 9]" using take_Suc_conv_app_nth [of 9 t] lt by (simp add: slice_def)
    then show ?thesis by simp
  qed
  have split: "t = take 10 t @ slice 10 4 t @ slice 14 32 t"
  proof -
    have "drop 10 t = slice 10 4 t @ slice 14 32 t"
      using append_take_drop_id [of 4 "drop 10 t"] lt by (simp add: slice_def)
    then show ?thesis by (metis append_take_drop_id)
  qed
  have cnt: "get_u32_be (drop 10 t) = v \<longleftrightarrow> slice 10 4 t = put_u32_be v" for v
  proof -
    have l4: "length (slice 10 4 t) = 4" by (simp add: lt)
    have s: "drop 10 t = slice 10 4 t @ drop 14 t"
      using append_take_drop_id [of 4 "drop 10 t"] by (simp add: slice_def)
    have "get_u32_be (drop 10 t) = be_word (slice 10 4 t)"
      using get_put_u32_be [of "be_word (slice 10 4 t)" "drop 14 t"] l4
      by (simp add: put_u32_be_bytes be_bytes_be_word s)
    then show ?thesis using l4 by (auto simp: put_u32_be_bytes be_bytes_be_word be_word_be_bytes)
  qed
  have trailer: "t = area_trailer kArea (contents c) (unat n) \<longleftrightarrow>
      take 10 t = KAM_TRAILER_MAGIC @ [1] \<and> slice 10 4 t = put_u32_be (slot_marks (contents c) (unat n)) \<and>
      slice 14 32 t = hmac_sha256 kArea (area_msg (contents c) (unat n))"
  proof -
    have "t = area_trailer kArea (contents c) (unat n) \<longleftrightarrow> take 10 t @ slice 10 4 t @ slice 14 32 t =
        (KAM_TRAILER_MAGIC @ [1]) @ put_u32_be (slot_marks (contents c) (unat n)) @
          hmac_sha256 kArea (area_msg (contents c) (unat n))"
      using split by (simp add: area_trailer_def)
    then show ?thesis using lt by (simp add: put_u32_be_bytes del: append_assoc)
  qed
  show ?thesis
    unfolding KeyslotAreaMacVerify_def area_of_simps read option.case count_slots_spec [OF assms(1,2)]
      KeyslotAreaMacCompute_spec [OF assms(1-4)] Let_def prod.case t_def [symmetric]
    using magic cnt trailer by auto
qed

end

end
