(* ===== verification/VolumeLabel.thy ===== *)
theory VolumeLabel
  imports Keyslot AfSplit
begin

text \<open>
  Encrypted volume labels, \<open>src/src/Common/VolumeLabel.c\<close>: a fixed-size plaintext frame, wrapped with the
  key slot primitive under the passphrase. \<open>label\<close> and its length are separate arguments, as in the
  code; the C strings are byte lists.
\<close>

definition VL_AAD :: bytes where
  "VL_AAD = cstr ''VCKSlabel''"

definition VOLUME_LABEL_MAGIC :: bytes where
  "VOLUME_LABEL_MAGIC = cstr ''LBL1''"

definition VolumeLabelFrame :: "bytes \<Rightarrow> int \<Rightarrow> bytes \<Rightarrow> int \<times> bytes" where
  "VolumeLabelFrame label labelLen out =
     (if labelLen < 0 \<or> labelLen > 48 then (- 1, out)
      else let out = zeros 64;
               out = store_at 0 VOLUME_LABEL_MAGIC out;
               out = out[4 := of_int labelLen];
               out = (if labelLen > 0 then store_at 5 (take (nat labelLen) label) out else out)
           in (0, out))"

definition VolumeLabelParse :: "bytes \<Rightarrow> bytes ptr \<Rightarrow> int \<Rightarrow> int \<times> bytes ptr" where
  "VolumeLabelParse pt buf bufCap =
     (if slice 0 4 pt \<noteq> VOLUME_LABEL_MAGIC then (- 1, buf)
      else let len = uint (pt ! 4)
           in if len > 48 \<or> 5 + len > 64 then (- 1, buf)
              else if buf \<noteq> NULL \<and> bufCap > 0
              then let n = (if len < bufCap - 1 then len else bufCap - 1);
                       b = (if n > 0 then store_at 0 (slice 5 (nat n) pt) (the buf) else the buf)
                   in (len, Some (b[nat n := 0]))
              else (len, buf))"

definition VolumeLabelSet :: "kdf_fn \<Rightarrow> u32 \<Rightarrow> bytes \<Rightarrow> bytes \<Rightarrow> int \<Rightarrow> 'g rng_fn \<Rightarrow> 'g \<Rightarrow> bytes
    \<Rightarrow> int \<times> bytes \<times> 'g" where
  "VolumeLabelSet kdf cost pass label labelLen randBytes g out =
     (let (rc, pt) = VolumeLabelFrame label labelLen (zeros 64)
      in if rc \<noteq> 0 then (- 1, out, g)
         else let (salt, g) = randBytes 32 g;
                  out = store_at 0 salt out;
                  (ct, tag) = KeyslotWrap kdf cost pass salt VL_AAD pt;
                  out = store_at 96 tag (store_at 32 ct out)
              in (0, out, g))"

definition VolumeLabelGet :: "kdf_fn \<Rightarrow> u32 \<Rightarrow> bytes \<Rightarrow> bytes \<Rightarrow> bytes ptr \<Rightarrow> int \<Rightarrow> int \<times> bytes ptr" where
  "VolumeLabelGet kdf cost pass rec buf bufCap =
     (let (ok, pt) = KeyslotUnwrap kdf cost pass (slice 0 32 rec) VL_AAD (slice 32 64 rec) (slice 96 32 rec) (zeros 64)
      in if ok = 0 then (- 1, buf)
         else VolumeLabelParse pt buf bufCap)"

section \<open>Frames\<close>

definition label_frame :: "bytes \<Rightarrow> bytes" where
  "label_frame label = VOLUME_LABEL_MAGIC @ [of_nat (length label)] @ label @ zeros (59 - length label)"

lemma length_VOLUME_LABEL_MAGIC [simp]: "length VOLUME_LABEL_MAGIC = 4"
  by (simp add: VOLUME_LABEL_MAGIC_def)

lemma length_VL_AAD [simp]: "length VL_AAD = 9"
  by (simp add: VL_AAD_def)

lemma length_label_frame [simp]: "length label \<le> 48 \<Longrightarrow> length (label_frame label) = 64"
  by (simp add: label_frame_def)

lemma VolumeLabelFrame_spec:
  assumes "length label \<le> 48"
  shows "VolumeLabelFrame label (int (length label)) out = (0, label_frame label)"
proof -
  have 1: "(store_at 0 VOLUME_LABEL_MAGIC (zeros 64))[4 := x] = (VOLUME_LABEL_MAGIC @ [x]) @ zeros 59" for x
  proof -
    have "zeros (4 + (1 + 59)) = zeros 4 @ zeros 1 @ zeros 59" by (simp only: zeros_add)
    then have "zeros 64 = zeros 4 @ [0] @ zeros 59" by (simp add: zeros_def)
    then have "store_at 0 VOLUME_LABEL_MAGIC (zeros 64) = VOLUME_LABEL_MAGIC @ [0] @ zeros 59"
      by (simp add: store_at_def)
    then show ?thesis by (simp add: list_update_append)
  qed
  have 2: "store_at 5 label ((VOLUME_LABEL_MAGIC @ [x]) @ zeros 59) =
      (VOLUME_LABEL_MAGIC @ [x]) @ label @ zeros (59 - length label)" for x
    by (subst store_at_append) (simp_all add: zeros_def)
  show ?thesis
    using assms by (simp add: VolumeLabelFrame_def Let_def 1 [simplified] 2 [simplified] label_frame_def)
qed

lemma VolumeLabelParse_frame:
  assumes "length label \<le> 48" "length buf = nat bufCap" "bufCap > int (length label)"
  shows "VolumeLabelParse (label_frame label) (Some buf) bufCap =
    (int (length label), Some (store_at 0 (label @ [0]) buf))"
proof -
  have n: "uint (label_frame label ! 4) = int (length label)"
    using assms(1) by (simp add: label_frame_def nth_append uint_nat unat_of_nat take_bit_nat_eq_self)
  have m: "slice 0 4 (label_frame label) = VOLUME_LABEL_MAGIC" "slice 5 (length label) (label_frame label) = label"
    by (simp_all add: label_frame_def slice_def)
  have k: "(if int (length label) < bufCap - 1 then int (length label) else bufCap - 1) = int (length label)"
    "bufCap > 0" using assms(3) by auto
  have st: "(store_at 0 label buf)[length label := 0] = store_at 0 (label @ [0]) buf"
    using assms(2,3) Cons_nth_drop_Suc [of "length label" buf, symmetric]
    by (simp add: store_at_def list_update_append)
  have b: "(if int (length label) > 0 then store_at 0 label buf else buf) = store_at 0 label buf"
    by (simp add: store_at_def)
  show ?thesis
    unfolding VolumeLabelParse_def n Let_def k(1) nat_int m option.sel b st using assms(1) k(2) by simp
qed

section \<open>Records\<close>

definition label_record :: "bytes \<Rightarrow> bytes \<Rightarrow> bytes \<Rightarrow> bytes" where
  "label_record dk salt pt = salt @ dk_cipher dk pt @ dk_tag dk VL_AAD (dk_cipher dk pt)"

lemma VolumeLabelSet_spec:
  assumes "length label \<le> 48" "randBytes 32 g = (salt, g')" "length salt = 32" "length out = 128"
  shows "VolumeLabelSet kdf cost pass label (int (length label)) randBytes g out =
    (0, label_record (kdf pass salt cost 72) salt (label_frame label), g')"
proof -
  define dk where "dk = kdf pass salt cost 72"
  have w: "KeyslotWrap kdf cost pass salt VL_AAD (label_frame label) =
      (dk_cipher dk (label_frame label), dk_tag dk VL_AAD (dk_cipher dk (label_frame label)))"
    unfolding KeyslotWrap_def dk_def by (rule KeyslotWrapWithDK_spec) (use assms in simp)
  have 1: "store_at 0 salt out = salt @ drop 32 out" using assms by (simp add: store_at_def)
  have 2: "store_at 32 ct (salt @ drop 32 out) = (salt @ ct) @ drop 96 out" if "length ct = 64" for ct
    by (subst store_at_append) (use assms that in simp_all)
  have 3: "store_at 96 tag ((salt @ ct) @ drop 96 out) = salt @ ct @ tag" if "length ct = 64" "length tag = 32" for ct tag
    by (subst store_at_append) (use assms that in simp_all)
  show ?thesis
    unfolding VolumeLabelSet_def VolumeLabelFrame_spec [OF assms(1)] Let_def prod.case assms(2) w 1
    using assms(1) by (simp add: 2 3 [simplified] label_record_def dk_def [symmetric])
qed

lemma VolumeLabelGet_spec:
  assumes "length rec = 128"
  shows "VolumeLabelGet kdf cost pass rec buf bufCap =
    (let dk = kdf pass (slice 0 32 rec) cost 72; ct = slice 32 64 rec
     in if slice 96 32 rec = dk_tag dk VL_AAD ct then VolumeLabelParse (dk_cipher dk ct) buf bufCap else (- 1, buf))"
proof -
  have "store_at 0 (dk_cipher dk (slice 32 64 rec)) (zeros 64) = dk_cipher dk (slice 32 64 rec)" for dk
    using assms by (simp add: store_at_def)
  then show ?thesis
    using assms by (simp add: VolumeLabelGet_def KeyslotUnwrap_def KeyslotUnwrapWithDK_spec Let_def)
qed

lemma VolumeLabelGet_record:
  assumes "length label \<le> 48" "length salt = 32" "length buf = nat bufCap" "bufCap > int (length label)"
  shows "VolumeLabelGet kdf cost pass (label_record (kdf pass salt cost 72) salt (label_frame label)) (Some buf) bufCap =
    (int (length label), Some (store_at 0 (label @ [0]) buf))"
proof -
  define dk ct where "dk = kdf pass salt cost 72" and "ct = dk_cipher dk (label_frame label)"
  define rec where "rec = label_record dk salt (label_frame label)"
  have "length ct = 64" using assms(1) by (simp add: ct_def)
  then have s: "slice 0 32 rec = salt" "slice 32 64 rec = ct" "slice 96 32 rec = dk_tag dk VL_AAD ct" "length rec = 128"
    using assms(2) by (simp_all add: rec_def label_record_def slice_def ct_def)
  have "dk_cipher dk ct = label_frame label" by (simp add: ct_def)
  then show ?thesis
    using VolumeLabelParse_frame [OF assms(1,3,4)] VolumeLabelGet_spec [OF s(4)]
    by (simp add: s dk_def [symmetric] rec_def [symmetric])
qed

end
