(* ===== verification/T1ha.thy ===== *)
theory T1ha
  imports Prelude
begin

text \<open>
  The hash \<open>t1ha2_atonce128\<close> that the RAM protection derives its keys from, \<open>src/src/Crypto/t1ha2.c\<close> and
  \<open>t1ha_bits.h\<close>, for little-endian machines. The data and its length are a byte list. A function with
  two results through pointers returns a pair.
\<close>

definition prime_0 :: u64 where "prime_0 = 0xEC99BF0D8372CAAB"
definition prime_1 :: u64 where "prime_1 = 0x82434FE90EDCEF39"
definition prime_2 :: u64 where "prime_2 = 0xD4F06DB99D67BE4B"
definition prime_3 :: u64 where "prime_3 = 0xBD9CACC22C6E9571"
definition prime_4 :: u64 where "prime_4 = 0x9C06FAF4D023E3AB"
definition prime_5 :: u64 where "prime_5 = 0xC060724A8424F345"
definition prime_6 :: u64 where "prime_6 = 0xCB5AF53AE3AAAC31"

definition rot64 :: "u64 \<Rightarrow> nat \<Rightarrow> u64" where
  "rot64 v s = drop_bit s v OR push_bit (64 - s) v"

definition mul_64x64_128 :: "u64 \<Rightarrow> u64 \<Rightarrow> u64 \<times> u64" where
  "mul_64x64_128 a b = (let r = (ucast a :: 128 word) * ucast b in (ucast r, ucast (drop_bit 64 r)))"

definition mixup64 :: "u64 \<Rightarrow> u64 \<Rightarrow> u64 \<Rightarrow> u64 \<Rightarrow> u64 \<times> u64" where
  "mixup64 a b v prime = (let (l, h) = mul_64x64_128 (b + v) prime in (a XOR l, b + h))"

definition fetch64_le :: "bytes \<Rightarrow> u64" where
  "fetch64_le v = le_word (take 8 v)"

text \<open>The last one to eight bytes.\<close>

definition tail64_le :: "bytes \<Rightarrow> nat \<Rightarrow> u64" where
  "tail64_le v tail = le_word (take (if tail mod 8 = 0 then 8 else tail mod 8) v)"

record t1ha_state256 =
  t1a :: u64
  t1b :: u64
  t1c :: u64
  t1d :: u64

definition init_ab :: "t1ha_state256 \<Rightarrow> u64 \<Rightarrow> u64 \<Rightarrow> t1ha_state256" where
  "init_ab s x y = s\<lparr>t1a := x, t1b := y\<rparr>"

definition init_cd :: "t1ha_state256 \<Rightarrow> u64 \<Rightarrow> u64 \<Rightarrow> t1ha_state256" where
  "init_cd s x y = s\<lparr>t1c := rot64 y 23 + NOT x, t1d := NOT y + rot64 x 19\<rparr>"

definition T1HA2_UPDATE :: "t1ha_state256 \<Rightarrow> bytes \<Rightarrow> t1ha_state256" where
  "T1HA2_UPDATE s v =
     (let w0 = fetch64_le v; w1 = fetch64_le (drop 8 v);
          w2 = fetch64_le (drop 16 v); w3 = fetch64_le (drop 24 v);
          d02 = w0 + rot64 (w2 + t1d s) 56;
          c13 = w1 + rot64 (w3 + t1c s) 19;
          s = s\<lparr>t1d := t1d s XOR (t1b s + rot64 w1 38)\<rparr>;
          s = s\<lparr>t1c := t1c s XOR (t1a s + rot64 w0 57)\<rparr>;
          s = s\<lparr>t1b := t1b s XOR (prime_6 * (c13 + w2))\<rparr>
      in s\<lparr>t1a := t1a s XOR (prime_5 * (d02 + w3))\<rparr>)"

text \<open>The loop runs while the position is below \<open>data + len - 31\<close>, that is while at least 32 bytes are
  left; it runs once in any case. \<open>left\<close> is what was left before the round.\<close>

function T1HA2_LOOP :: "nat \<Rightarrow> t1ha_state256 \<Rightarrow> bytes \<Rightarrow> t1ha_state256 \<times> bytes" where
  "T1HA2_LOOP left s data =
     (let s = T1HA2_UPDATE s data; data = drop 32 data
      in if left - 32 > 31 then T1HA2_LOOP (left - 32) s data else (s, data))"
  by auto
termination by (relation "measure fst") auto

declare T1HA2_LOOP.simps [simp del]

definition final128 :: "u64 \<Rightarrow> u64 \<Rightarrow> u64 \<Rightarrow> u64 \<Rightarrow> u64 \<times> u64" where
  "final128 a b c d =
     (let (a, b) = mixup64 a b (rot64 c 41 XOR d) prime_0;
          (b, c) = mixup64 b c (rot64 d 23 XOR a) prime_6;
          (c, d) = mixup64 c d (rot64 a 19 XOR b) prime_5;
          (d, a) = mixup64 d a (rot64 b 31 XOR c) prime_4
      in (a XOR b, c + d))"

definition T1HA2_TAIL_ABCD :: "t1ha_state256 \<Rightarrow> bytes \<Rightarrow> nat \<Rightarrow> u64 \<times> u64" where
  "T1HA2_TAIL_ABCD s v len =
     (let (s, v) = (if len > 24
            then let (a, d) = mixup64 (t1a s) (t1d s) (fetch64_le v) prime_4 in (s\<lparr>t1a := a, t1d := d\<rparr>, drop 8 v)
            else (s, v));
          (s, v) = (if len > 16
            then let (b, a) = mixup64 (t1b s) (t1a s) (fetch64_le v) prime_3 in (s\<lparr>t1b := b, t1a := a\<rparr>, drop 8 v)
            else (s, v));
          (s, v) = (if len > 8
            then let (c, b) = mixup64 (t1c s) (t1b s) (fetch64_le v) prime_2 in (s\<lparr>t1c := c, t1b := b\<rparr>, drop 8 v)
            else (s, v));
          s = (if len > 0
            then let (d, c) = mixup64 (t1d s) (t1c s) (tail64_le v len) prime_1 in s\<lparr>t1d := d, t1c := c\<rparr>
            else s)
      in final128 (t1a s) (t1b s) (t1c s) (t1d s))"

text \<open>The low half and, through \<open>extra_result\<close>, the high half.\<close>

definition t1ha2_atonce128 :: "bytes \<Rightarrow> u64 \<Rightarrow> u64 \<times> u64" where
  "t1ha2_atonce128 data seed =
     (let len = length data;
          s = \<lparr>t1a = 0, t1b = 0, t1c = 0, t1d = 0\<rparr>;
          s = init_ab s seed (of_nat len);
          s = init_cd s seed (of_nat len);
          (s, data, len) = (if len > 32
            then let (s, data) = T1HA2_LOOP len s data in (s, data, len mod 32)
            else (s, data, len))
      in T1HA2_TAIL_ABCD s data len)"

end
