(* ===== verification/ChaChaRng.thy ===== *)
theory ChaChaRng
  imports ChaCha AfSplit
begin

text \<open>
  The ChaCha20 random generator, \<open>src/src/Crypto/chachaRng.c\<close>. The seed callback is a pointer to a
  function of a threaded state. The buffer of key stream is consumed from the front of its last
  \<open>m_rs_have\<close> bytes, and what has been handed out is erased; the invariant below says that nothing
  else than unconsumed output is ever left in it.
\<close>

record ChaCha20RngCtx =
  m_chachaCtx :: ChaCha256Ctx
  m_rs_buf :: bytes
  m_rs_have :: nat
  m_rs_count :: nat

definition ChaCha20RngReKey :: "'g rng_fn ptr \<Rightarrow> bool \<Rightarrow> ChaCha20RngCtx \<times> 'g \<Rightarrow> ChaCha20RngCtx \<times> 'g" where
  "ChaCha20RngReKey seedCallback useCallBack cg =
     (let (ctx, g) = cg;
          buf = (if m_rs_have ctx \<noteq> 0
                 then store_at (1024 - m_rs_have ctx) (zeros (m_rs_have ctx)) (m_rs_buf ctx) else m_rs_buf ctx);
          (buf, cc) = ChaCha256Encrypt (m_chachaCtx ctx) buf;
          (buf, g) = (if seedCallback \<noteq> NULL \<and> useCallBack
                      then let (dat, g) = (the seedCallback) 40 g
                           in (store_at 0 (xor_bytes (take 40 buf) dat) buf, g)
                      else (buf, g));
          cc = ChaCha256Init (slice 0 32 buf) (slice 32 8 buf) 20 cc;
          buf = store_at 0 (zeros 40) buf
      in (ctx\<lparr>m_chachaCtx := cc, m_rs_buf := buf, m_rs_have := 1024 - 32 - 8\<rparr>, g))"

definition ChaCha20RngStir :: "'g rng_fn ptr \<Rightarrow> ChaCha20RngCtx \<times> 'g \<Rightarrow> ChaCha20RngCtx \<times> 'g" where
  "ChaCha20RngStir seedCallback cg =
     (let (ctx, g) = ChaCha20RngReKey seedCallback True cg
      in (ctx\<lparr>m_rs_have := 0, m_rs_buf := zeros 1024, m_rs_count := 1600000\<rparr>, g))"

definition ChaCha20RngStirIfNeeded :: "'g rng_fn ptr \<Rightarrow> nat \<Rightarrow> ChaCha20RngCtx \<times> 'g \<Rightarrow> ChaCha20RngCtx \<times> 'g" where
  "ChaCha20RngStirIfNeeded seedCallback len cg =
     (let (ctx, g) = cg
      in if m_rs_count ctx \<le> len then ChaCha20RngStir seedCallback cg
         else (ctx\<lparr>m_rs_count := m_rs_count ctx - len\<rparr>, g))"

lemma have_ReKey [simp]: "m_rs_have (fst (ChaCha20RngReKey cb u cg)) = 984"
  by (simp add: ChaCha20RngReKey_def Let_def split: prod.split)

text \<open>The loop of \<open>ChaCha20RngGetBytes\<close>: \<open>n\<close> bytes are still to be delivered.\<close>

function rng_loop :: "'g rng_fn ptr \<Rightarrow> nat \<Rightarrow> ChaCha20RngCtx \<times> 'g \<Rightarrow> bytes \<Rightarrow> bytes \<times> ChaCha20RngCtx \<times> 'g" where
  "rng_loop cb n cg out =
     (if n = 0 then (out, cg)
      else let (ctx, g) = cg;
               m = min n (m_rs_have ctx);
               off = 1024 - m_rs_have ctx;
               (ctx', out', n') =
                 (if m_rs_have ctx > 0
                  then (ctx\<lparr>m_rs_buf := store_at off (zeros m) (m_rs_buf ctx), m_rs_have := m_rs_have ctx - m\<rparr>,
                        out @ slice off m (m_rs_buf ctx), n - m)
                  else (ctx, out, n));
               cg = (if m_rs_have ctx' = 0 then ChaCha20RngReKey cb False (ctx', g) else (ctx', g))
           in rng_loop cb n' cg out')"
  by auto
termination
  by (relation "measure (\<lambda>(cb, n, cg, out). 2 * n + (if m_rs_have (fst cg) = 0 then 1 else 0))")
     (auto simp: min_def split: if_splits)

declare rng_loop.simps [simp del]

definition ChaCha20RngGetBytes :: "'g rng_fn ptr \<Rightarrow> nat \<Rightarrow> ChaCha20RngCtx \<times> 'g \<Rightarrow> bytes \<times> ChaCha20RngCtx \<times> 'g" where
  "ChaCha20RngGetBytes cb bufferLen cg =
     rng_loop cb bufferLen (ChaCha20RngStirIfNeeded cb bufferLen cg) []"

definition ChaCha20RngInit :: "bytes \<Rightarrow> 'g rng_fn ptr \<Rightarrow> nat \<Rightarrow> 'g \<Rightarrow> ChaCha20RngCtx \<times> 'g" where
  "ChaCha20RngInit key cb initialBytesToSkip g =
     (let cc = ChaCha256Init (take 32 key) (slice 32 8 key) 20 chacha_uninit;
          ctx = \<lparr>m_chachaCtx = cc, m_rs_buf = zeros 1024, m_rs_have = 0, m_rs_count = 1600000\<rparr>;
          cg = ChaCha20RngReKey cb False (ctx, g)
      in if initialBytesToSkip \<noteq> 0 then snd (ChaCha20RngGetBytes cb initialBytesToSkip cg) else cg)"

section \<open>Nothing that was handed out stays in the buffer\<close>

definition cha_ok :: "ChaCha256Ctx \<Rightarrow> bool" where
  "cha_ok cc \<longleftrightarrow> cpos cc = 0 \<and> length (input_w cc) = 16"

definition rng_inv :: "ChaCha20RngCtx \<Rightarrow> bool" where
  "rng_inv ctx \<longleftrightarrow> cha_ok (m_chachaCtx ctx) \<and> length (m_rs_buf ctx) = 1024 \<and> m_rs_have ctx \<le> 984 \<and>
     take (1024 - m_rs_have ctx) (m_rs_buf ctx) = zeros (1024 - m_rs_have ctx)"

definition seed_ok :: "'g rng_fn ptr \<Rightarrow> bool" where
  "seed_ok cb \<longleftrightarrow> (case cb of None \<Rightarrow> True | Some f \<Rightarrow> \<forall>n g. length (fst (f n g)) = n)"

lemma cha_ok_Init: "length (input_w cc) = 16 \<Longrightarrow> cha_ok (ChaCha256Init k iv r cc)"
  by (simp add: cha_ok_def)

lemma encrypt_loop_input:
  "length inp = 16 \<Longrightarrow> length (fst (snd (snd (encrypt_loop r ins pos inp block)))) = 16"
proof (induction "length ins" arbitrary: ins inp block rule: less_induct)
  case less
  obtain inp' b where inc: "incrementSalsaCounter inp r = (inp', b)" by force
  have "length inp' = 16" using arg_cong [OF inc, of fst] less.prems by (metis fst_conv length_fst_inc)
  then show ?case using less.hyps [of "drop 64 ins" inp' b] less.prems
    by (subst encrypt_loop.simps) (auto simp: inc split: prod.split)
qed

lemma ChaCha256Encrypt_input:
  "length (input_w cc) = 16 \<Longrightarrow> length (input_w (snd (ChaCha256Encrypt cc m))) = 16"
  using encrypt_loop_input [of "input_w cc"]
  by (simp add: ChaCha256Encrypt_def do_encrypt_def Let_def split: prod.split) (metis fst_conv snd_conv)

lemma rng_inv_ReKey:
  assumes "cha_ok (m_chachaCtx ctx)" "length (m_rs_buf ctx) = 1024" "m_rs_have ctx \<le> 984" "seed_ok cb"
  shows "rng_inv (fst (ChaCha20RngReKey cb u (ctx, g)))"
proof -
  define buf where "buf = (if m_rs_have ctx \<noteq> 0
    then store_at (1024 - m_rs_have ctx) (zeros (m_rs_have ctx)) (m_rs_buf ctx) else m_rs_buf ctx)"
  have "length buf = 1024" using assms(2,3) by (simp add: buf_def length_store_at)
  moreover obtain b cc where enc: "ChaCha256Encrypt (m_chachaCtx ctx) buf = (b, cc)" by force
  ultimately have b: "length b = 1024" "length (input_w cc) = 16"
    using encrypt_fresh_twice(1) [of "m_chachaCtx ctx" buf] ChaCha256Encrypt_input [of "m_chachaCtx ctx" buf] assms(1)
    by (simp_all add: cha_ok_def)
  have "length (xor_bytes (take 40 b) (fst (f 40 g))) = 40" if "cb = Some f" for f
    using assms(4) that b by (simp add: seed_ok_def)
  then have len: "length (store_at 0 (xor_bytes (take 40 b) (fst (f 40 g))) b) = 1024" if "cb = Some f" for f
    using that b by (simp add: length_store_at)
  have z: "take 40 (store_at 0 (zeros 40) x) = zeros 40" for x :: bytes
    by (simp add: store_at_def)
  show ?thesis
    unfolding ChaCha20RngReKey_def Let_def prod.case buf_def [symmetric] enc
    using b len by (auto simp: rng_inv_def cha_ok_Init z length_store_at split: prod.splits)
qed

lemma rng_inv_Init: "seed_ok cb \<Longrightarrow> rng_inv (fst (ChaCha20RngReKey cb u
    (\<lparr>m_chachaCtx = ChaCha256Init k iv 20 chacha_uninit, m_rs_buf = zeros 1024, m_rs_have = 0, m_rs_count = 1600000\<rparr>, g)))"
  by (rule rng_inv_ReKey) (simp_all add: cha_ok_Init chacha_uninit_def)

lemma rng_inv_Stir:
  "rng_inv (fst cg) \<Longrightarrow> seed_ok cb \<Longrightarrow> rng_inv (fst (ChaCha20RngStirIfNeeded cb n cg))"
proof -
  assume a: "rng_inv (fst cg)" "seed_ok cb"
  obtain ctx g where cg: "cg = (ctx, g)" by force
  have "rng_inv (fst (ChaCha20RngReKey cb True (ctx, g)))"
    by (rule rng_inv_ReKey) (use a cg in \<open>auto simp: rng_inv_def\<close>)
  then show ?thesis
    using a by (auto simp: cg ChaCha20RngStirIfNeeded_def ChaCha20RngStir_def rng_inv_def zeros_def split: prod.splits)
qed

lemma take_store_zeros:
  assumes "take a buf = zeros a" "a + m \<le> length buf"
  shows "take (a + m) (store_at a (zeros m) buf) = zeros (a + m)"
  using assms by (simp add: store_at_def zeros_add)

lemma rng_loop_inv:
  assumes "seed_ok cb" "rng_inv (fst cg)"
  shows "length (fst (rng_loop cb n cg out)) = length out + n \<and> rng_inv (fst (snd (rng_loop cb n cg out)))"
  using assms
proof (induction "2 * n + (if m_rs_have (fst cg) = 0 then 1 else 0)" arbitrary: n cg out rule: less_induct)
  case less
  obtain ctx g where cg: "cg = (ctx, g)" by force
  define m off where "m = min n (m_rs_have ctx)" and "off = 1024 - m_rs_have ctx"
  define ctx' where "ctx' = ctx\<lparr>m_rs_buf := store_at off (zeros m) (m_rs_buf ctx), m_rs_have := m_rs_have ctx - m\<rparr>"
  have inv: "cha_ok (m_chachaCtx ctx)" "length (m_rs_buf ctx) = 1024" "m_rs_have ctx \<le> 984"
    "take off (m_rs_buf ctx) = zeros off" using less.prems by (simp_all add: cg rng_inv_def off_def)
  have bound: "off + m \<le> 1024" "1024 - (m_rs_have ctx - m) = off + m" using inv(3) by (auto simp: off_def m_def)
  have inv': "rng_inv ctx'"
    using inv bound take_store_zeros [OF inv(4), of m]
    by (simp add: rng_inv_def ctx'_def length_store_at)
  define cg' where "cg' = (if m_rs_have ctx > 0 \<and> m_rs_have ctx' \<noteq> 0 then (ctx', g)
    else ChaCha20RngReKey cb False (if m_rs_have ctx > 0 then ctx' else ctx, g))"
  have rk: "rng_inv (fst cg')"
    using inv' rng_inv_ReKey [OF _ _ _ less.prems(1), of ctx' False g] rng_inv_ReKey [OF _ _ _ less.prems(1), of ctx False g] inv
    by (auto simp: cg'_def rng_inv_def)
  have have': "m_rs_have (fst cg') \<noteq> 0" by (simp add: cg'_def)
  show ?case
  proof (cases "n = 0 \<or> m_rs_have ctx = 0")
    case True
    then show ?thesis
    proof
      assume "n = 0"
      then show ?thesis using less.prems by (simp add: rng_loop.simps)
    next
      assume h: "m_rs_have ctx = 0"
      then have "rng_loop cb n cg out = (if n = 0 then (out, cg) else rng_loop cb n cg' out)"
        by (subst rng_loop.simps) (simp add: cg Let_def cg'_def)
      then show ?thesis using less.hyps [OF _ less.prems(1) rk, of n out] less.prems(2) have' h cg by auto
    qed
  next
    case False
    then have "rng_loop cb n cg out = rng_loop cb (n - m) cg' (out @ slice off m (m_rs_buf ctx))"
      by (subst rng_loop.simps) (simp add: cg Let_def m_def off_def cg'_def ctx'_def)
    moreover have "0 < m" "m \<le> n" using False by (auto simp: m_def)
    moreover have "length (slice off m (m_rs_buf ctx)) = m" using bound inv by simp
    ultimately show ?thesis
      using less.hyps [OF _ less.prems(1) rk, of "n - m" "out @ slice off m (m_rs_buf ctx)"] have' by simp
  qed
qed

lemma ChaCha20RngGetBytes_inv:
  "seed_ok cb \<Longrightarrow> rng_inv (fst cg) \<Longrightarrow>
   length (fst (ChaCha20RngGetBytes cb n cg)) = n \<and> rng_inv (fst (snd (ChaCha20RngGetBytes cb n cg)))"
  using rng_loop_inv [of cb "ChaCha20RngStirIfNeeded cb n cg" n "[]"] rng_inv_Stir [of cg cb n] by (simp add: ChaCha20RngGetBytes_def)

lemma ChaCha20RngInit_inv: "seed_ok (cb :: 'a rng_fn ptr) \<Longrightarrow> rng_inv (fst (ChaCha20RngInit key cb skip g))"
proof -
  assume a: "seed_ok cb"
  have "rng_inv (fst (if skip \<noteq> 0 then snd (ChaCha20RngGetBytes cb skip cg) else cg))" if "rng_inv (fst cg)" for cg :: "ChaCha20RngCtx \<times> 'a"
    using ChaCha20RngGetBytes_inv [OF a that, of skip] that by simp
  then show ?thesis unfolding ChaCha20RngInit_def Let_def using rng_inv_Init [OF a] by blast
qed

end
