(* ===== verification/KeyScrub.thy ===== *)
theory KeyScrub
  imports T1ha ChaChaRng
begin

text \<open>
  In-memory key hygiene, \<open>src/src/Common/KeyScrub.c\<close>: the wiping of registered regions, the detector of
  swap and hibernation, and the encryption of secrets at rest in RAM. Memory is a map from addresses to
  bytes; the address of a buffer that the encryption is bound to is an argument. The static variables of
  the file are two records. The mutex is not modelled: each operation runs in one piece. What the kernel
  calls of \<open>VcKeyMemoryLockdown\<close> return is an argument.
\<close>

type_synonym heap = "nat \<Rightarrow> byte"

section \<open>Wiping\<close>

definition VcSecureWipe :: "nat \<Rightarrow> nat \<Rightarrow> heap \<Rightarrow> heap" where
  "VcSecureWipe pbData cbData h =
     (if pbData = 0 then h else fold (\<lambda>i h. h(pbData + i := 0)) [0..<cbData] h)"

definition VcKeyMemoryLockdown :: "bool \<Rightarrow> bool \<Rightarrow> bool \<Rightarrow> int" where
  "VcKeyMemoryLockdown mlockall_ok setrlimit_ok prctl_ok =
     (let applied = 0;
          applied = (if mlockall_ok then applied OR 1 else applied);
          applied = (if setrlimit_ok then applied OR 2 else applied);
          applied = (if prctl_ok then applied OR 4 else applied)
      in applied)"

section \<open>Swap and hibernation\<close>

text \<open>\<open>fgets\<close> with a buffer of 512 bytes: the line, and the rest of the file.\<close>

definition fgets :: "bytes \<Rightarrow> bytes \<times> bytes" where
  "fgets data =
     (let k = length (takeWhile (\<lambda>b. b \<noteq> 10) data);
          n = min 511 (if k < length data then k + 1 else k)
      in (take n data, drop n data))"

definition line_nonblank :: "bytes \<Rightarrow> bool" where
  "line_nonblank line =
     (let p = dropWhile (\<lambda>b. b = 32 \<or> b = 9) (c_string line)
      in p \<noteq> [] \<and> hd p \<noteq> 10)"

lemma length_snd_fgets: "data \<noteq> [] \<Longrightarrow> length (snd (fgets data)) < length data"
  by (cases data) (auto simp: fgets_def Let_def)

function swap_lines :: "nat \<Rightarrow> bytes \<Rightarrow> bool" where
  "swap_lines lineno data =
     (if data = [] then False
      else let (line, data') = fgets data; lineno = lineno + 1
           in if lineno = 1 then swap_lines lineno data'
              else if line_nonblank line then True else swap_lines lineno data')"
  by auto
lemma fgets_shorter: "(l, rest) = fgets data \<Longrightarrow> data \<noteq> [] \<Longrightarrow> length rest < length data"
  by (metis length_snd_fgets snd_conv)

termination swap_lines
  by (relation "measure (\<lambda>(n, data). length data)") (simp_all add: fgets_shorter)

declare swap_lines.simps [simp del]

definition is_ws :: "byte \<Rightarrow> bool" where
  "is_ws b \<longleftrightarrow> b = 32 \<or> b = 9 \<or> b = 10"

function disk_token :: "bytes \<Rightarrow> bool" where
  "disk_token s =
     (if s = [] then False
      else let s = dropWhile is_ws s
           in if take 4 s = cstr ''disk'' \<and> (drop 4 s = [] \<or> is_ws (s ! 4)) then True
              else disk_token (dropWhile (\<lambda>b. \<not> is_ws b) s))"
  by auto

lemma length_dropWhile_both: "s \<noteq> [] \<Longrightarrow> length (dropWhile (\<lambda>b. \<not> P b) (dropWhile P s)) < length s"
proof (cases s)
  case (Cons x xs)
  have a: "length (dropWhile (\<lambda>b. \<not> P b) ys) \<le> length ys" "length (dropWhile P ys) \<le> length ys" for ys
    by (simp_all add: length_dropWhile_le)
  show ?thesis
  proof (cases "P x")
    case True
    then show ?thesis using a(1) [of "dropWhile P xs"] a(2) [of xs] Cons by simp
  next
    case False
    then show ?thesis using a(1) [of xs] Cons by simp
  qed
qed simp

termination disk_token
  by (relation "measure length") (auto intro: length_dropWhile_both)

declare disk_token.simps [simp del]

definition VcSwapHibernateStatusFrom :: "bytes ptr \<Rightarrow> bytes ptr \<Rightarrow> int" where
  "VcSwapHibernateStatusFrom swaps powerState =
     (let flags = 0;
          flags = (case swaps of None \<Rightarrow> flags | Some f \<Rightarrow> if swap_lines 0 f then flags OR 1 else flags);
          flags = (case powerState of None \<Rightarrow> flags
                   | Some f \<Rightarrow> if disk_token (c_string (take 255 f)) then flags OR 2 else flags)
      in flags)"

section \<open>The scrub registry\<close>

record KsRegistry =
  ksRegions :: "(nat \<times> nat) list"
  ksRegionCount :: nat

definition region_find :: "nat \<Rightarrow> KsRegistry \<Rightarrow> nat option" where
  "region_find p r = find (\<lambda>i. fst (ksRegions r ! i) = p) [0..<ksRegionCount r]"

definition VcScrubRegister :: "nat \<Rightarrow> nat \<Rightarrow> KsRegistry \<Rightarrow> int \<times> KsRegistry" where
  "VcScrubRegister pbData cbData r =
     (if pbData = 0 \<or> cbData = 0 then (0, r)
      else case region_find pbData r of
        Some i \<Rightarrow> (0, r\<lparr>ksRegions := (ksRegions r)[i := (fst (ksRegions r ! i), cbData)]\<rparr>)
      | None \<Rightarrow>
        if ksRegionCount r < 64
        then (0, r\<lparr>ksRegions := (ksRegions r)[ksRegionCount r := (pbData, cbData)],
                   ksRegionCount := ksRegionCount r + 1\<rparr>)
        else (- 1, r))"

definition VcScrubUnregister :: "nat \<Rightarrow> KsRegistry \<Rightarrow> KsRegistry" where
  "VcScrubUnregister pbData r =
     (if pbData = 0 then r
      else case region_find pbData r of
        None \<Rightarrow> r
      | Some i \<Rightarrow>
        (let n = ksRegionCount r;
             rs = (ksRegions r)[i := ksRegions r ! (n - 1)];
             rs = rs[n - 1 := (0, 0)]
         in r\<lparr>ksRegions := rs, ksRegionCount := n - 1\<rparr>))"

definition VcScrubAll :: "KsRegistry \<Rightarrow> heap \<Rightarrow> nat \<times> heap" where
  "VcScrubAll r h =
     (let n = ksRegionCount r
      in (n, fold (\<lambda>i h. VcSecureWipe (fst (ksRegions r ! i)) (snd (ksRegions r ! i)) h) [0..<n] h))"

definition VcScrubRegionCount :: "KsRegistry \<Rightarrow> nat" where
  "VcScrubRegionCount r = ksRegionCount r"

section \<open>Encryption at rest\<close>

definition VcKsRamTransform :: "bytes \<Rightarrow> u64 \<Rightarrow> u64 \<Rightarrow> u64 \<Rightarrow> u64 \<Rightarrow> bytes \<Rightarrow> bytes" where
  "VcKsRamTransform area hashSeedMask cipherIVMask areaBase encID buf =
     (if area = [] \<or> buf = [] then buf
      else let hashSeed = (areaBase + encID) XOR hashSeedMask;
               (hashLow, hashHigh) = t1ha2_atonce128 area hashSeed;
               pbKey = concat (map (le_bytes 8) [hashLow, hashHigh, hashLow XOR hashHigh, hashLow + hashHigh]);
               ctx = ChaCha256Init pbKey (le_bytes 8 hashSeed) 12 chacha_uninit;
               (pbKey, ctx) = ChaCha256Encrypt ctx pbKey;
               cipherIV = (areaBase + encID) XOR cipherIVMask;
               ctx = ChaCha256Init pbKey (le_bytes 8 cipherIV) 12 ctx;
               (buf, ctx) = ChaCha256Encrypt ctx buf
           in buf)"

record KsArea =
  ksArea :: "bytes ptr"
  ksHashMask :: u64
  ksIVMask :: u64
  ksAreaBase :: u64

definition VcKsRamProtectShutdown :: "KsArea \<Rightarrow> KsArea" where
  "VcKsRamProtectShutdown st = st\<lparr>ksArea := NULL, ksAreaBase := 0, ksHashMask := 0, ksIVMask := 0\<rparr>"

text \<open>\<open>mem\<close> is whether \<open>malloc\<close> succeeds.\<close>

definition ks_area_from_rng :: "bool \<Rightarrow> 'g rng_fn ptr \<Rightarrow> nat \<Rightarrow> u64 \<Rightarrow> ChaCha20RngCtx \<times> 'g \<Rightarrow> KsArea
    \<Rightarrow> bool \<times> KsArea \<times> ChaCha20RngCtx \<times> 'g" where
  "ks_area_from_rng mem cb areaLen areaBase cg st =
     (let st = VcKsRamProtectShutdown st
      in if \<not> mem then (False, st, cg)
         else let (a, cg) = ChaCha20RngGetBytes cb areaLen cg;
                  (h, cg) = ChaCha20RngGetBytes cb 8 cg;
                  (v, cg) = ChaCha20RngGetBytes cb 8 cg
              in (True, st\<lparr>ksArea := Some a, ksAreaBase := areaBase, ksHashMask := le_word h, ksIVMask := le_word v\<rparr>, cg))"

text \<open>\<open>addr\<close> is the address \<open>malloc\<close> returns.\<close>

definition VcKsRamProtectInit :: "bool \<Rightarrow> u64 \<Rightarrow> 'g rng_fn ptr \<Rightarrow> KsArea \<Rightarrow> 'g \<Rightarrow> bool \<times> KsArea \<times> 'g" where
  "VcKsRamProtectInit mem addr rngCallback st g =
     (case rngCallback of None \<Rightarrow> (False, st, g)
      | Some f \<Rightarrow>
        let (seed, g) = f 40 g;
            cg = ChaCha20RngInit seed rngCallback 0 g;
            (ok, st, cg) = ks_area_from_rng mem rngCallback (1024 * 1024) 0 cg st
        in (ok, if ok then st\<lparr>ksAreaBase := addr\<rparr> else st, snd cg))"

definition VcKsRamProtectInitFixed :: "bool \<Rightarrow> bytes ptr \<Rightarrow> KsArea \<Rightarrow> bool \<times> KsArea" where
  "VcKsRamProtectInitFixed mem seed40 st =
     (case seed40 of None \<Rightarrow> (False, st)
      | Some seed \<Rightarrow>
        let cg = ChaCha20RngInit seed (NULL :: unit rng_fn ptr) 0 ();
            (ok, st, cg) = ks_area_from_rng mem NULL 4096 0x1122334455667788 cg st
        in (ok, st))"

definition VcKsRamProtectReady :: "KsArea \<Rightarrow> bool" where
  "VcKsRamProtectReady st \<longleftrightarrow> ksArea st \<noteq> NULL"

text \<open>\<open>addr\<close> is the address of \<open>buf\<close>.\<close>

definition VcKsRamProtect :: "KsArea \<Rightarrow> u64 \<Rightarrow> bytes \<Rightarrow> bytes" where
  "VcKsRamProtect st addr buf =
     (case ksArea st of None \<Rightarrow> buf
      | Some area \<Rightarrow> if buf = [] then buf
          else VcKsRamTransform area (ksHashMask st) (ksIVMask st) (ksAreaBase st) addr buf)"

definition VcKsRamUnprotect :: "KsArea \<Rightarrow> u64 \<Rightarrow> bytes \<Rightarrow> bytes" where
  "VcKsRamUnprotect st addr buf = VcKsRamProtect st addr buf"

section \<open>Wiping clears the range\<close>

lemma fold_wipe: "fold (\<lambda>i h. h(p + i := 0)) [0..<n] h = (\<lambda>a. if p \<le> a \<and> a < p + n then 0 else h a)"
  by (induction n) (auto simp: fun_eq_iff)

lemma VcSecureWipe_spec:
  "p \<noteq> 0 \<Longrightarrow> VcSecureWipe p n h = (\<lambda>a. if p \<le> a \<and> a < p + n then 0 else h a)"
  by (simp add: VcSecureWipe_def fold_wipe)

section \<open>The registry is a finite map from pointers to lengths\<close>

definition ks_inv :: "KsRegistry \<Rightarrow> bool" where
  "ks_inv r \<longleftrightarrow> length (ksRegions r) = 64 \<and> ksRegionCount r \<le> 64 \<and>
     distinct (map fst (take (ksRegionCount r) (ksRegions r))) \<and>
     0 \<notin> fst ` set (take (ksRegionCount r) (ksRegions r))"

definition tracked :: "KsRegistry \<Rightarrow> nat \<Rightarrow> nat option" where
  "tracked r = map_of (take (ksRegionCount r) (ksRegions r))"

lemma region_find_Some:
  "region_find p r = Some i \<Longrightarrow> i < ksRegionCount r \<and> fst (ksRegions r ! i) = p"
  by (auto simp: region_find_def find_Some_iff)

lemma ks_inv_alt:
  "ks_inv r \<longleftrightarrow> length (ksRegions r) = 64 \<and> ksRegionCount r \<le> 64 \<and>
     distinct (map fst (take (ksRegionCount r) (ksRegions r))) \<and>
     0 \<notin> set (map fst (take (ksRegionCount r) (ksRegions r)))"
  by (simp add: ks_inv_def)

lemma dom_tracked: "dom (tracked r) = set (map fst (take (ksRegionCount r) (ksRegions r)))"
  by (simp add: tracked_def dom_map_of_conv_image_fst)

lemma card_tracked: "ks_inv r \<Longrightarrow> card (dom (tracked r)) = ksRegionCount r"
  unfolding dom_tracked by (subst distinct_card) (simp_all add: ks_inv_def)

lemma region_find_None:
  assumes "ks_inv r"
  shows "region_find p r = None \<longleftrightarrow> p \<notin> dom (tracked r)"
proof -
  have "length (take (ksRegionCount r) (ksRegions r)) = ksRegionCount r" using assms by (simp add: ks_inv_def)
  then have "p \<in> dom (tracked r) \<longleftrightarrow> (\<exists>i<ksRegionCount r. fst (ksRegions r ! i) = p)"
    unfolding dom_tracked in_set_conv_nth by (simp add: conj_commute cong: conj_cong)
  then show ?thesis by (auto simp: region_find_def find_None_iff)
qed

lemma map_of_update:
  "distinct (map fst xs) \<Longrightarrow> i < length xs \<Longrightarrow> fst (xs ! i) = p \<Longrightarrow> map_of (xs[i := (p, l)]) = (map_of xs)(p \<mapsto> l)"
proof (induction xs arbitrary: i)
  case (Cons x xs)
  show ?case
  proof (cases i)
    case 0
    then show ?thesis using Cons.prems by (cases x) (auto simp: fun_eq_iff)
  next
    case (Suc j)
    then have "fst x \<noteq> p" using Cons.prems by auto
    then show ?thesis using Suc Cons by (cases x) (auto simp: fun_eq_iff)
  qed
qed simp

lemma map_fst_update: "i < length xs \<Longrightarrow> fst (xs ! i) = p \<Longrightarrow> map fst (xs[i := (p, l)]) = map fst xs"
  by (metis fst_conv list_update_id map_update nth_map)

lemma VcScrubRegister_known:
  assumes "ks_inv r" "p \<noteq> 0" "l \<noteq> 0" "region_find p r = Some i"
  shows "\<exists>r'. VcScrubRegister p l r = (0, r') \<and> ks_inv r' \<and> tracked r' = (tracked r)(p \<mapsto> l)"
proof -
  let ?n = "ksRegionCount r" and ?rs = "ksRegions r"
  define xs where "xs = take ?n ?rs"
  have i: "i < ?n" "fst (?rs ! i) = p" using region_find_Some [OF assms(4)] by auto
  have l: "i < length xs" "fst (xs ! i) = p" using i assms(1) by (auto simp: xs_def ks_inv_def)
  have t: "take ?n (?rs[i := (p, l)]) = xs[i := (p, l)]" by (simp add: take_update_swap xs_def)
  have d: "distinct (map fst xs)" "0 \<notin> set (map fst xs)" using assms(1) by (simp_all add: ks_inv_def xs_def)
  have "VcScrubRegister p l r = (0, r\<lparr>ksRegions := ?rs[i := (p, l)]\<rparr>)"
    using assms i by (simp add: VcScrubRegister_def)
  moreover have "ks_inv (r\<lparr>ksRegions := ?rs[i := (p, l)]\<rparr>)"
    using assms(1) d unfolding ks_inv_alt by (simp add: t map_fst_update [OF l] del: set_map)
  moreover have "tracked (r\<lparr>ksRegions := ?rs[i := (p, l)]\<rparr>) = (tracked r)(p \<mapsto> l)"
    using map_of_update [OF d(1) l] by (simp add: tracked_def t) (simp add: xs_def)
  ultimately show ?thesis by blast
qed

lemma VcScrubRegister_new:
  assumes "ks_inv r" "p \<noteq> 0" "l \<noteq> 0" "region_find p r = None" "ksRegionCount r < 64"
  shows "\<exists>r'. VcScrubRegister p l r = (0, r') \<and> ks_inv r' \<and> tracked r' = (tracked r)(p \<mapsto> l)"
proof -
  let ?n = "ksRegionCount r" and ?rs = "ksRegions r"
  define xs where "xs = take ?n ?rs"
  have new: "p \<notin> set (map fst xs)" using assms(1,4) region_find_None [of r p] by (simp add: dom_tracked xs_def)
  have t: "take (Suc ?n) (?rs[?n := (p, l)]) = xs @ [(p, l)]"
    using assms(1,5) by (simp add: take_Suc_conv_app_nth xs_def ks_inv_def)
  have "VcScrubRegister p l r = (0, r\<lparr>ksRegions := ?rs[?n := (p, l)], ksRegionCount := ?n + 1\<rparr>)"
    using assms by (simp add: VcScrubRegister_def)
  moreover have "ks_inv (r\<lparr>ksRegions := ?rs[?n := (p, l)], ksRegionCount := ?n + 1\<rparr>)"
    using assms new t by (simp add: ks_inv_def xs_def)
  moreover have "tracked (r\<lparr>ksRegions := ?rs[?n := (p, l)], ksRegionCount := ?n + 1\<rparr>) = (tracked r)(p \<mapsto> l)"
  proof -
    have "map_of xs p = None" using new by (simp add: map_of_eq_None_iff)
    then have "map_of (xs @ [(p, l)]) = (map_of xs)(p \<mapsto> l)"
      by (auto simp: fun_eq_iff map_add_def split: option.split)
    then show ?thesis using t by (simp add: tracked_def xs_def)
  qed
  ultimately show ?thesis by blast
qed

lemma VcScrubRegister_spec:
  assumes "ks_inv r" "p \<noteq> 0" "l \<noteq> 0"
  shows "\<exists>rc r'. VcScrubRegister p l r = (rc, r') \<and> ks_inv r' \<and>
    (if p \<in> dom (tracked r) \<or> ksRegionCount r < 64 then rc = 0 \<and> tracked r' = (tracked r)(p \<mapsto> l)
     else rc = - 1 \<and> r' = r)"
proof (cases "region_find p r")
  case (Some i)
  then have "p \<in> dom (tracked r)" using region_find_None [OF assms(1), of p] by auto
  then show ?thesis using VcScrubRegister_known [OF assms Some] by auto
next
  case None
  then have "p \<notin> dom (tracked r)" using region_find_None [OF assms(1), of p] by auto
  then show ?thesis using VcScrubRegister_new [OF assms None] None assms by (auto simp: VcScrubRegister_def)
qed

text \<open>Unregistering moves the last entry into the gap.\<close>

lemma map_of_move_last:
  assumes "distinct (map fst (xs @ [y]))" "i < length xs" "fst (xs ! i) = p"
  shows "map_of (xs[i := y]) = (map_of (xs @ [y]))(p := None)"
proof
  fix k
  have "p \<in> set (map fst xs)" using assms(2,3) nth_mem [OF assms(2)] by force
  moreover have "fst y \<notin> set (map fst xs)" using assms(1) by simp
  ultimately have py: "p \<noteq> fst y" by metis
  have un: "set (xs[i := y]) = insert y (set xs - {xs ! i})"
    using assms(1,2) by (simp add: set_update_distinct distinct_map)
  have d: "distinct (map fst (xs[i := y]))"
    using assms(1,2) by (auto simp: map_update intro: distinct_list_update)
  have only: "x = xs ! i" if "x \<in> set xs" "fst x = p" for x
    using that assms by (auto simp: distinct_map inj_on_def)
  show "map_of (xs[i := y]) k = ((map_of (xs @ [y]))(p := None)) k"
  proof (cases "map_of (xs[i := y]) k")
    case None
    then have "k \<notin> fst ` set (xs[i := y])" by (simp add: map_of_eq_None_iff)
    then have "k = p \<or> k \<notin> set (map fst (xs @ [y]))" using only assms(3) by (auto simp: un image_iff)
    then have "((map_of (xs @ [y]))(p := None)) k = None"
      by (auto simp: map_of_eq_None_iff simp del: map_of_append)
    then show ?thesis using None by simp
  next
    case (Some v)
    then have kv: "(k, v) \<in> set (xs[i := y])" by (rule map_of_SomeD)
    then have "(k, v) \<in> set (xs @ [y])" "k \<noteq> p" using un only py assms(3) by auto
    moreover from this(1) have "map_of (xs @ [y]) k = Some v" by (rule map_of_is_SomeI [OF assms(1)])
    ultimately show ?thesis using Some by simp
  qed
qed

lemma map_of_drop_last:
  assumes "distinct (map fst (xs @ [y]))"
  shows "map_of xs = (map_of (xs @ [y]))(fst y := None)"
proof
  fix k
  have "map_of xs (fst y) = None" using assms by (auto simp: map_of_eq_None_iff)
  then show "map_of xs k = ((map_of (xs @ [y]))(fst y := None)) k"
    by (cases y) (auto simp: map_add_def split: option.split)
qed

lemma distinct_move_last:
  assumes "distinct (map fst (xs @ [y]))" "i < length xs"
  shows "distinct (map fst (xs[i := y]))" "set (map fst (xs[i := y])) \<subseteq> set (map fst (xs @ [y]))"
proof -
  have "fst y \<notin> set (map fst xs)" using assms(1) by simp
  then show "distinct (map fst (xs[i := y]))"
    using assms(1) by (simp add: map_update distinct_list_update del: set_map)
  show "set (map fst (xs[i := y])) \<subseteq> set (map fst (xs @ [y]))"
    using set_update_subset_insert [of xs i y] by auto
qed

lemma VcScrubUnregister_found:
  assumes "ks_inv r" "region_find p r = Some i"
  shows "ks_inv (VcScrubUnregister p r)" "tracked (VcScrubUnregister p r) = (tracked r)(p := None)"
proof -
  let ?n = "ksRegionCount r" and ?rs = "ksRegions r"
  have i: "i < ?n" "fst (?rs ! i) = p" "?n \<le> 64" "length ?rs = 64"
    using region_find_Some [OF assms(2)] assms(1) by (auto simp: ks_inv_def)
  define xs y where "xs = take (?n - 1) ?rs" and "y = ?rs ! (?n - 1)"
  have xs: "take ?n ?rs = xs @ [y]"
    using i take_Suc_conv_app_nth [of "?n - 1" ?rs] by (simp add: xs_def y_def)
  have d: "distinct (map fst (xs @ [y]))" "0 \<notin> set (map fst (xs @ [y]))"
    using assms(1) unfolding ks_inv_alt xs by blast+
  have "p \<in> set (map fst (take ?n ?rs))" using assms region_find_None [of r p] by (simp only: dom_tracked) simp
  then have p0: "p \<noteq> 0" using d(2) unfolding xs by metis
  define rs' where "rs' = ?rs[i := y, ?n - 1 := (0, 0)]"
  have r': "VcScrubUnregister p r = r\<lparr>ksRegions := rs', ksRegionCount := ?n - 1\<rparr>"
    using assms(2) p0 by (simp add: VcScrubUnregister_def y_def Let_def rs'_def)
  have l64: "length rs' = 64" "?n - 1 \<le> 64" using i by (simp_all add: rs'_def)
  have t: "take (?n - 1) rs' = (if i = ?n - 1 then xs else xs[i := y])"
    using i by (auto simp: rs'_def xs_def take_update_swap intro: list_update_beyond)
  have li: "i < length xs \<and> fst (xs ! i) = p" if "i \<noteq> ?n - 1" using that i by (simp add: xs_def)
  have "distinct (map fst (take (?n - 1) rs'))" "0 \<notin> set (map fst (take (?n - 1) rs'))"
    using d distinct_move_last [OF d(1), of i] li unfolding t by (cases "i = ?n - 1"; simp del: set_map; blast)+
  then show "ks_inv (VcScrubUnregister p r)" using l64 unfolding ks_inv_alt r' by simp
  have py: "fst y = p" if "i = ?n - 1" using that i by (simp add: y_def)
  have "map_of (take (?n - 1) rs') = (map_of (xs @ [y]))(p := None)"
    unfolding t using map_of_drop_last [OF d(1)] map_of_move_last [OF d(1)] li py by auto
  then show "tracked (VcScrubUnregister p r) = (tracked r)(p := None)"
    by (simp add: r' tracked_def xs)
qed

lemma VcScrubUnregister_spec:
  assumes "ks_inv r"
  shows "ks_inv (VcScrubUnregister p r) \<and> tracked (VcScrubUnregister p r) = (tracked r)(p := None)"
proof (cases "region_find p r")
  case None
  then have "tracked r p = None" using region_find_None [OF assms, of p] by auto
  then show ?thesis using assms None by (auto simp: VcScrubUnregister_def fun_eq_iff)
next
  case (Some i)
  then show ?thesis using VcScrubUnregister_found [OF assms] by blast
qed

text \<open>Scrubbing clears every tracked range and touches nothing else.\<close>

definition in_range :: "nat \<Rightarrow> nat \<times> nat \<Rightarrow> bool" where
  "in_range a x \<longleftrightarrow> fst x \<le> a \<and> a < fst x + snd x"

lemma fold_wipe_regions:
  "\<forall>x\<in>set xs. fst x \<noteq> 0 \<Longrightarrow>
   fold (\<lambda>x. VcSecureWipe (fst x) (snd x)) xs h = (\<lambda>a. if \<exists>x\<in>set xs. in_range a x then 0 else h a)"
  by (induction xs rule: rev_induct) (auto simp: VcSecureWipe_spec fun_eq_iff in_range_def)

lemma tracked_in_range:
  assumes "ks_inv r"
  shows "(\<exists>p l. tracked r p = Some l \<and> p \<le> a \<and> a < p + l) \<longleftrightarrow>
    (\<exists>x\<in>set (take (ksRegionCount r) (ksRegions r)). in_range a x)"
proof -
  have "tracked r p = Some l \<longleftrightarrow> (p, l) \<in> set (take (ksRegionCount r) (ksRegions r))" for p l
    unfolding tracked_def by (rule map_of_eq_Some_iff) (use assms in \<open>simp add: ks_inv_def\<close>)
  then show ?thesis unfolding in_range_def Bex_def split_paired_Ex by simp
qed

lemma VcScrubAll_spec:
  assumes "ks_inv r"
  shows "VcScrubAll r h = (ksRegionCount r,
    \<lambda>a. if \<exists>p l. tracked r p = Some l \<and> p \<le> a \<and> a < p + l then 0 else h a)"
proof -
  let ?n = "ksRegionCount r" and ?rs = "ksRegions r"
  have "map ((!) ?rs) [0..<?n] = take ?n ?rs"
    using assms by (simp add: ks_inv_def list_eq_iff_nth_eq)
  then have "fold (\<lambda>i h. VcSecureWipe (fst (?rs ! i)) (snd (?rs ! i)) h) [0..<?n] h =
      fold (\<lambda>x. VcSecureWipe (fst x) (snd x)) (take ?n ?rs) h"
    by (simp add: fold_map comp_def flip: \<open>map ((!) ?rs) [0..<?n] = take ?n ?rs\<close>)
  moreover have "\<forall>x\<in>set (take ?n ?rs). fst x \<noteq> 0" using assms unfolding ks_inv_def by force
  ultimately show ?thesis
    unfolding VcScrubAll_def Let_def tracked_in_range [OF assms] by (simp add: fold_wipe_regions)
qed

section \<open>The encryption at rest is its own inverse\<close>

lemma VcKsRamTransform_spec:
  "length (VcKsRamTransform area hm im base enc buf) = length buf"
  "VcKsRamTransform area hm im base enc (VcKsRamTransform area hm im base enc buf) = buf"
proof -
  have "\<exists>ctx. cha_ok ctx \<and> (\<forall>b. b \<noteq> [] \<longrightarrow> area \<noteq> [] \<longrightarrow> VcKsRamTransform area hm im base enc b = fst (ChaCha256Encrypt ctx b))"
  proof -
    obtain lo hi where h: "t1ha2_atonce128 area ((base + enc) XOR hm) = (lo, hi)" by force
    define k where "k = concat (map (le_bytes 8) [lo, hi, lo XOR hi, lo + hi])"
    obtain k' c where e: "ChaCha256Encrypt (ChaCha256Init k (le_bytes 8 ((base + enc) XOR hm)) 12 chacha_uninit) k = (k', c)"
      by force
    have "length (input_w c) = 16"
      using ChaCha256Encrypt_input [of "ChaCha256Init k (le_bytes 8 ((base + enc) XOR hm)) 12 chacha_uninit" k] e
      by (simp add: chacha_uninit_def)
    then show ?thesis
      unfolding VcKsRamTransform_def Let_def h prod.case k_def [symmetric] e
      by (intro exI [of _ "ChaCha256Init k' (le_bytes 8 ((base + enc) XOR im)) 12 c"])
         (auto simp: cha_ok_Init split: prod.split)
  qed
  then obtain ctx where c: "cha_ok ctx"
    "\<And>b. b \<noteq> [] \<Longrightarrow> area \<noteq> [] \<Longrightarrow> VcKsRamTransform area hm im base enc b = fst (ChaCha256Encrypt ctx b)" by blast
  have len: "length (fst (ChaCha256Encrypt ctx b)) = length b" and inv: "fst (ChaCha256Encrypt ctx (fst (ChaCha256Encrypt ctx b))) = b" for b
    using c(1) by (simp_all add: cha_ok_def encrypt_fresh_twice)
  show l: "length (VcKsRamTransform area hm im base enc buf) = length buf"
    using c(2) len by (cases "area = [] \<or> buf = []") (auto simp: VcKsRamTransform_def)
  show "VcKsRamTransform area hm im base enc (VcKsRamTransform area hm im base enc buf) = buf"
  proof (cases "area = [] \<or> buf = []")
    case True
    then show ?thesis by (auto simp: VcKsRamTransform_def)
  next
    case False
    then have "fst (ChaCha256Encrypt ctx buf) \<noteq> []" using len [of buf] by auto
    then show ?thesis using False c(2) inv by simp
  qed
qed

lemma VcKsRamProtect_twice [simp]: "VcKsRamProtect st addr (VcKsRamProtect st addr buf) = buf"
  using VcKsRamTransform_spec(1) VcKsRamTransform_spec(2)
  by (auto simp: VcKsRamProtect_def split: option.split) (metis length_0_conv)

lemma length_VcKsRamProtect [simp]: "length (VcKsRamProtect st addr buf) = length buf"
  using VcKsRamTransform_spec by (auto simp: VcKsRamProtect_def split: option.split)

end
