(* ===== verification/HardwareKeyFactor.thy ===== *)
theory HardwareKeyFactor
  imports Hmac KeyScrub
begin

text \<open>
  The hardware key factor, \<open>src/src/Common/HardwareKeyFactor.c\<close>: mixing a token's response into the
  password (the CRC pool of version 1, HKDF of version 2, with and without the volume salt), the dispatch
  to a backend, and the active configuration whose secrets are encrypted in RAM between uses. Modelled is
  a build with \<open>VC_ENABLE_HKF\<close>, \<open>VC_ENABLE_HKF_MIX_V2\<close>, \<open>VC_ENABLE_HKF_MIX_V2_SALTBIND\<close>,
  \<open>VC_ENABLE_HKF_SALT_BIND\<close>, \<open>VC_ENABLE_HKF_SALT_BIND_DEFAULT\<close>, \<open>VC_ENABLE_HKF_LEN_CONDITION\<close> and
  \<open>VC_ENABLE_KEYSCRUB\<close>, and without the YubiKey, FIDO2 and simulator backends, which are then reported as
  unsupported. Configurations live in a store, from their address to their contents, because the active
  one is a pointer to storage of the caller.
\<close>

section \<open>The pool mixing of version 1\<close>

definition hkf_crc_entry :: "nat \<Rightarrow> u32" where
  "hkf_crc_entry n = fold (\<lambda>k c. if c AND 1 \<noteq> 0 then 0xEDB88320 XOR drop_bit 1 c else drop_bit 1 c) [0..<8] (of_nat n)"

definition hkf_crc_tab :: "u32 list" where
  "hkf_crc_tab = map hkf_crc_entry [0..<256]"

definition HKF_UPDC32 :: "byte \<Rightarrow> u32 \<Rightarrow> u32" where
  "HKF_UPDC32 octet crc = hkf_crc_tab ! unat ((crc XOR ucast octet) AND 0xff) XOR drop_bit 8 crc"

definition hkf_pool_step :: "byte \<Rightarrow> bytes \<times> u32 \<times> nat \<Rightarrow> bytes \<times> u32 \<times> nat" where
  "hkf_pool_step r st =
     (let (pool, crc, writePos) = st;
          crc = HKF_UPDC32 r crc;
          pool = pool[writePos := pool ! writePos + ucast (drop_bit 24 crc)]; writePos = writePos + 1;
          pool = pool[writePos := pool ! writePos + ucast (drop_bit 16 crc)]; writePos = writePos + 1;
          pool = pool[writePos := pool ! writePos + ucast (drop_bit 8 crc)]; writePos = writePos + 1;
          pool = pool[writePos := pool ! writePos + ucast crc]; writePos = writePos + 1;
          writePos = (if writePos \<ge> 128 then 0 else writePos)
      in (pool, crc, writePos))"

definition HKFMixResponseIntoPassword :: "bytes \<Rightarrow> int \<Rightarrow> bytes \<Rightarrow> bytes \<times> int" where
  "HKFMixResponseIntoPassword password password_len response =
     (let (pool, crc, writePos) = fold hkf_pool_step response (zeros 128, 0xffffffff, 0);
          password = fold (\<lambda>i p. if int i < password_len then p[i := p ! i + pool ! i] else p[i := pool ! i])
                       [0..<128] password
      in (password, if password_len < 128 then 128 else password_len))"

section \<open>The key derivation mixing of version 2\<close>

definition hkf_v2_hmac :: "bytes \<Rightarrow> bytes \<Rightarrow> bytes \<Rightarrow> bytes" where
  "hkf_v2_hmac key m1 m2 =
     (let (k0, ctx) =
            (if length key > 64
             then let (d, ctx) = sha256_end (sha256_hash key (of_nat (length key)) (sha256_begin ctx_uninit))
                  in (d @ zeros 32, ctx)
             else (key @ zeros (64 - length key), ctx_uninit));
          pad = map (\<lambda>b. b XOR 0x36) k0;
          ctx = sha256_hash pad 64 (sha256_begin ctx);
          ctx = (if length m1 > 0 then sha256_hash m1 (of_nat (length m1)) ctx else ctx);
          ctx = (if length m2 > 0 then sha256_hash m2 (of_nat (length m2)) ctx else ctx);
          (inner, ctx) = sha256_end ctx;
          pad = map (\<lambda>b. b XOR 0x5c) k0;
          ctx = sha256_hash inner 32 (sha256_hash pad 64 (sha256_begin ctx))
      in fst (sha256_end ctx))"

definition HKF_V2_INFO :: bytes where
  "HKF_V2_INFO = cstr ''VeraCrypt/HKF/mix/v2''"

text \<open>One block of the expansion; \<open>T\<close> is empty (\<open>tLen = 0\<close>) in the first round.\<close>

definition hkf_expand_step :: "bytes \<Rightarrow> nat \<Rightarrow> bytes \<times> bytes \<times> nat \<Rightarrow> bytes \<times> bytes \<times> nat" where
  "hkf_expand_step prk blk st =
     (let (okm, T, got) = st;
          ctr = (of_nat blk :: byte);
          k0 = take 32 prk @ zeros 32;
          pad = map (\<lambda>b. b XOR 0x36) k0;
          c = sha256_hash pad 64 (sha256_begin ctx_uninit);
          c = (if length T > 0 then sha256_hash T (of_nat (length T)) c else c);
          c = sha256_hash HKF_V2_INFO 20 c;
          c = sha256_hash [ctr] 1 c;
          (inner, c) = sha256_end c;
          pad = map (\<lambda>b. b XOR 0x5c) k0;
          c = sha256_hash inner 32 (sha256_hash pad 64 (sha256_begin c));
          T = fst (sha256_end c);
          n = (if 128 - got < 32 then 128 - got else 32)
      in (store_at got (take n T) okm, T, got + n))"

definition hkf_v2_mix :: "bytes \<Rightarrow> int \<Rightarrow> bytes \<Rightarrow> bytes \<Rightarrow> bytes \<times> int" where
  "hkf_v2_mix password password_len response extractSalt =
     (let prk = hkf_v2_hmac extractSalt (take (nat password_len) password) response;
          blocks = (128 + 32 - 1) div 32;
          (okm, T, got) = fold (hkf_expand_step prk) [1..<blocks + 1] (zeros 128, [], 0)
      in (store_at 0 okm password, 128))"

definition HKFMixResponseIntoPasswordV2 :: "bytes \<Rightarrow> int \<Rightarrow> bytes \<Rightarrow> bytes \<times> int" where
  "HKFMixResponseIntoPasswordV2 password password_len response =
     hkf_v2_mix password password_len response (zeros 32)"

definition HKFMixResponseIntoPasswordV2Salt :: "bytes \<Rightarrow> int \<Rightarrow> bytes \<Rightarrow> bytes ptr \<Rightarrow> bytes \<times> int" where
  "HKFMixResponseIntoPasswordV2Salt password password_len response salt =
     (if salt \<noteq> NULL \<and> length (the salt) > 0
      then hkf_v2_mix password password_len response (the salt)
      else hkf_v2_mix password password_len response (zeros 32))"

definition HKF_MIX_V2 :: int where "HKF_MIX_V2 = 2"

definition HKFMixResponseIntoPasswordVerSalt :: "int \<Rightarrow> bytes \<Rightarrow> int \<Rightarrow> bytes \<Rightarrow> bytes ptr \<Rightarrow> bytes \<times> int" where
  "HKFMixResponseIntoPasswordVerSalt version password password_len response salt =
     (if version = HKF_MIX_V2 then HKFMixResponseIntoPasswordV2Salt password password_len response salt
      else HKFMixResponseIntoPassword password password_len response)"

definition HKFMixResponseIntoPasswordVer :: "int \<Rightarrow> bytes \<Rightarrow> int \<Rightarrow> bytes \<Rightarrow> bytes \<times> int" where
  "HKFMixResponseIntoPasswordVer version password password_len response =
     (if version = HKF_MIX_V2 then HKFMixResponseIntoPasswordV2 password password_len response
      else HKFMixResponseIntoPassword password password_len response)"

section \<open>Configurations and dispatch\<close>

definition HKF_OK :: int where "HKF_OK = 0"
definition HKF_ERR_CONFIG :: int where "HKF_ERR_CONFIG = - 1"
definition HKF_ERR_UNSUPPORTED :: int where "HKF_ERR_UNSUPPORTED = - 4"

definition HKF_BACKEND_NONE :: int where "HKF_BACKEND_NONE = 0"
definition HKF_BACKEND_YK_HMAC_SHA1 :: int where "HKF_BACKEND_YK_HMAC_SHA1 = 1"
definition HKF_BACKEND_FIDO2_HMAC_SECRET :: int where "HKF_BACKEND_FIDO2_HMAC_SECRET = 2"
definition HKF_BACKEND_SIMULATOR :: int where "HKF_BACKEND_SIMULATOR = 3"
definition HKF_BACKEND_RAW_SECRET :: int where "HKF_BACKEND_RAW_SECRET = 4"

record HKFConfig =
  hkBackend :: int
  fidoPin :: bytes
  simSecret :: bytes
  simSecretLen :: int
  rawSecret :: bytes
  rawSecretLen :: int
  rawSecretBindSalt :: bool
  rawSecretNoBindSalt :: bool
  applyPolicy :: int

definition hkf_saltbind_hmac_sha256 :: "bytes \<Rightarrow> bytes \<Rightarrow> bytes" where
  "hkf_saltbind_hmac_sha256 key msg =
     (let (k0, ctx) =
            (if length key > 64
             then let (d, ctx) = sha256_end (sha256_hash key (of_nat (length key)) (sha256_begin ctx_uninit))
                  in (d @ zeros 32, ctx)
             else (key @ zeros (64 - length key), ctx_uninit));
          pad = map (\<lambda>b. b XOR 0x36) k0;
          ctx = sha256_hash pad 64 (sha256_begin ctx);
          ctx = (if length msg > 0 then sha256_hash msg (of_nat (length msg)) ctx else ctx);
          (inner, ctx) = sha256_end ctx;
          pad = map (\<lambda>b. b XOR 0x5c) k0;
          ctx = sha256_hash inner 32 (sha256_hash pad 64 (sha256_begin ctx))
      in fst (sha256_end ctx))"

text \<open>\<open>response_out\<close> and \<open>response_len_out\<close> are the old contents, in and out.\<close>

definition hkf_dispatch_response :: "HKFConfig ptr \<Rightarrow> bytes ptr \<Rightarrow> bytes \<Rightarrow> int \<Rightarrow> int \<times> bytes \<times> int" where
  "hkf_dispatch_response cfg challenge response_out response_len_out =
     (if cfg = NULL \<or> challenge = NULL \<or> length (the challenge) = 0
      then (HKF_ERR_CONFIG, response_out, response_len_out)
      else let c = the cfg; b = hkBackend c
      in if b = HKF_BACKEND_YK_HMAC_SHA1 \<or> b = HKF_BACKEND_FIDO2_HMAC_SECRET \<or> b = HKF_BACKEND_SIMULATOR
         then (HKF_ERR_UNSUPPORTED, response_out, response_len_out)
         else if b = HKF_BACKEND_RAW_SECRET
         then if rawSecretLen c \<le> 0 \<or> rawSecretLen c > 64
              then (HKF_ERR_CONFIG, response_out, response_len_out)
              else if rawSecretBindSalt c
              then (HKF_OK, store_at 0 (hkf_saltbind_hmac_sha256 (take (nat (rawSecretLen c)) (rawSecret c)) (the challenge))
                      response_out, 32)
              else (HKF_OK, store_at 0 (take (nat (rawSecretLen c)) (rawSecret c)) response_out, rawSecretLen c)
         else (HKF_ERR_CONFIG, response_out, response_len_out))"

text \<open>The store: what the RAM encryption is keyed with, the configurations by address, and the active
  one. The fields are at the offsets the structure gives them.\<close>

record hkf_store =
  hkArea :: KsArea
  hkConfigs :: "u64 \<Rightarrow> HKFConfig option"
  g_hkfActiveConfig :: "u64 ptr"

definition hkf_toggle_config :: "KsArea \<Rightarrow> u64 \<Rightarrow> HKFConfig \<Rightarrow> HKFConfig" where
  "hkf_toggle_config area p cfg =
     cfg\<lparr>rawSecret := VcKsRamProtect area (p + 600) (rawSecret cfg),
         simSecret := VcKsRamProtect area (p + 528) (simSecret cfg),
         fidoPin := VcKsRamProtect area (p + 400) (fidoPin cfg)\<rparr>"

definition hkf_toggle_secret_protection :: "u64 ptr \<Rightarrow> hkf_store \<Rightarrow> hkf_store" where
  "hkf_toggle_secret_protection cfg s =
     (case cfg of None \<Rightarrow> s
      | Some p \<Rightarrow> s\<lparr>hkConfigs := (hkConfigs s)(p := map_option (hkf_toggle_config (hkArea s) p) (hkConfigs s p))\<rparr>)"

definition hkf_deref :: "u64 ptr \<Rightarrow> hkf_store \<Rightarrow> HKFConfig ptr" where
  "hkf_deref cfg s = Option.bind cfg (hkConfigs s)"

definition HKFComputeResponse :: "u64 ptr \<Rightarrow> bytes ptr \<Rightarrow> bytes \<Rightarrow> int \<Rightarrow> hkf_store \<Rightarrow> (int \<times> bytes \<times> int) \<times> hkf_store" where
  "HKFComputeResponse cfg challenge response_out response_len_out s =
     (let s = hkf_toggle_secret_protection cfg s;
          (rc, response_out, response_len_out) =
            hkf_dispatch_response (hkf_deref cfg s) challenge response_out response_len_out;
          s = hkf_toggle_secret_protection cfg s;
          (response_out, response_len_out) =
            (if rc = HKF_OK \<and> response_len_out > 32
             then let h = sha256 (take (nat response_len_out) response_out) (of_int response_len_out)
                  in (store_at 0 h response_out, 32)
             else (response_out, response_len_out))
      in ((rc, response_out, response_len_out), s))"

definition HKFApplySaltBindDefault :: "HKFConfig \<Rightarrow> HKFConfig" where
  "HKFApplySaltBindDefault cfg =
     (if hkBackend cfg = HKF_BACKEND_RAW_SECRET \<and> \<not> rawSecretNoBindSalt cfg
      then cfg\<lparr>rawSecretBindSalt := True\<rparr> else cfg)"

definition HKFSetActiveConfig :: "u64 ptr \<Rightarrow> hkf_store \<Rightarrow> hkf_store" where
  "HKFSetActiveConfig cfg s = (hkf_toggle_secret_protection cfg s)\<lparr>g_hkfActiveConfig := cfg\<rparr>"

definition HKFScrubActiveConfig :: "hkf_store \<Rightarrow> hkf_store" where
  "HKFScrubActiveConfig s =
     (let s = (case g_hkfActiveConfig s of None \<Rightarrow> s
        | Some p \<Rightarrow> s\<lparr>hkConfigs := (hkConfigs s)(p := map_option (\<lambda>c.
            c\<lparr>rawSecret := zeros (length (rawSecret c)), simSecret := zeros (length (simSecret c)),
              fidoPin := zeros (length (fidoPin c)), rawSecretLen := 0, simSecretLen := 0\<rparr>) (hkConfigs s p))\<rparr>)
      in s\<lparr>g_hkfActiveConfig := NULL\<rparr>)"

definition HKFComputeActiveResponse :: "bytes ptr \<Rightarrow> bytes \<Rightarrow> hkf_store \<Rightarrow> (int \<times> bytes \<times> int) \<times> hkf_store" where
  "HKFComputeActiveResponse salt respOut s =
     (case hkf_deref (g_hkfActiveConfig s) s of
        None \<Rightarrow> ((HKF_OK, respOut, 0), s)
      | Some cfg \<Rightarrow> if hkBackend cfg = HKF_BACKEND_NONE then ((HKF_OK, respOut, 0), s)
          else HKFComputeResponse (g_hkfActiveConfig s) salt respOut 0 s)"

definition HKFApplyIfConfiguredVer :: "int \<Rightarrow> bytes \<Rightarrow> int \<Rightarrow> bytes ptr \<Rightarrow> hkf_store \<Rightarrow> (int \<times> bytes \<times> int) \<times> hkf_store" where
  "HKFApplyIfConfiguredVer version userKey keyLength salt s =
     (let ((rc, resp, rlen), s) = HKFComputeActiveResponse salt (zeros 64) s
      in if rc \<noteq> HKF_OK then ((rc, userKey, keyLength), s)
         else if rlen > 0
         then let (userKey, keyLength) =
                HKFMixResponseIntoPasswordVerSalt version userKey keyLength (take (nat rlen) resp) salt
              in ((HKF_OK, userKey, keyLength), s)
         else ((HKF_OK, userKey, keyLength), s))"

definition HKFApplyIfConfigured :: "bytes \<Rightarrow> int \<Rightarrow> bytes ptr \<Rightarrow> hkf_store \<Rightarrow> (int \<times> bytes \<times> int) \<times> hkf_store" where
  "HKFApplyIfConfigured userKey keyLength salt s =
     (case hkf_deref (g_hkfActiveConfig s) s of
        None \<Rightarrow> ((HKF_OK, userKey, keyLength), s)
      | Some cfg \<Rightarrow>
        if hkBackend cfg = HKF_BACKEND_NONE then ((HKF_OK, userKey, keyLength), s)
        else let ((rc, resp, rlen), s) = HKFComputeResponse (g_hkfActiveConfig s) salt (zeros 64) 0 s
             in if rc \<noteq> HKF_OK then ((rc, userKey, keyLength), s)
                else let (userKey, keyLength) = HKFMixResponseIntoPassword userKey keyLength (take (nat rlen) resp)
                     in ((HKF_OK, userKey, keyLength), s))"

definition HKFShouldApply :: "HKFConfig ptr \<Rightarrow> bool \<Rightarrow> int" where
  "HKFShouldApply cfg layoutIsHidden =
     (case cfg of None \<Rightarrow> 0
      | Some c \<Rightarrow> if hkBackend c = HKF_BACKEND_NONE then 0
          else if applyPolicy c = 1 then (if layoutIsHidden then 1 else 0) else 1)"

section \<open>The pool of version 1 determines the response, up to 32 bytes\<close>

text \<open>A step of the bit-wise CRC can be undone: its top bit is the bit that was shifted out.\<close>

lemma xor_right_cancel_word: "(x :: 'a::len word) XOR z = y XOR z \<longleftrightarrow> x = y"
  by (metis xor.assoc xor_self_eq xor.right_neutral)

lemma xor_left_cancel_word: "(z :: 'a::len word) XOR x = z XOR y \<longleftrightarrow> x = y"
  by (simp add: xor.commute [of z] xor_right_cancel_word)

lemma crc_bit_inject:
  fixes c d :: u32
  assumes "(if c AND 1 \<noteq> 0 then 0xEDB88320 XOR drop_bit 1 c else drop_bit 1 c) =
    (if d AND 1 \<noteq> 0 then 0xEDB88320 XOR drop_bit 1 d else drop_bit 1 d)"
  shows "c = d"
proof -
  define f where "f c = (if c AND 1 \<noteq> 0 then 0xEDB88320 XOR drop_bit 1 c else drop_bit 1 c)" for c :: u32
  have low: "(c AND 1 \<noteq> 0) = bit c 0" for c :: u32
    by (metis and_one_eq bit_0 odd_iff_mod_2_eq_one of_bool_eq_0_iff mod_2_eq_odd)
  have top: "bit (f c) 31 = bit c 0" for c
    using bit_imp_le_length [of c 32] by (auto simp: f_def low bit_simps not_le bit_numeral_rec)
  have "bit c 0 = bit d 0" using top assms by (metis f_def)
  then have "drop_bit 1 c = drop_bit 1 d" using assms by (auto simp: low xor_left_cancel_word)
  show ?thesis
  proof (rule bit_word_eqI)
    fix n assume "n < LENGTH(32)"
    show "bit c n = bit d n"
    proof (cases n)
      case 0
      then show ?thesis using \<open>bit c 0 = bit d 0\<close> by simp
    next
      case (Suc m)
      then show ?thesis using \<open>drop_bit 1 c = drop_bit 1 d\<close> by (metis bit_drop_bit_eq plus_1_eq_Suc comp_apply)
    qed
  qed
qed

lemma fold_inject:
  assumes "\<And>k c d. f k c = f k d \<Longrightarrow> c = d"
  shows "fold f ks c = fold f ks d \<Longrightarrow> c = d"
proof (induction ks arbitrary: c d)
  case Nil
  then show ?case by simp
next
  case (Cons k ks)
  then have "f k c = f k d" by simp
  then show ?case by (rule assms)
qed

lemma hkf_crc_entry_inject:
  assumes "m < 256" "n < 256" "hkf_crc_entry m = hkf_crc_entry n"
  shows "m = n"
proof -
  have "(of_nat m :: u32) = of_nat n"
    using assms(3) unfolding hkf_crc_entry_def by (rule fold_inject [rotated]) (rule crc_bit_inject)
  then show ?thesis using assms(1,2) by (simp add: word_of_nat_eq_iff take_bit_nat_eq_self)
qed

lemma crc_index: "unat ((crc XOR ucast (b :: byte)) AND (0xff :: u32)) < 256"
proof -
  have "(crc XOR ucast b) AND (0xff :: u32) \<le> 0xff" by (rule word_and_le1)
  then show ?thesis by (simp add: word_le_nat_alt)
qed

lemma HKF_UPDC32_inject:
  assumes "HKF_UPDC32 a crc = HKF_UPDC32 b crc"
  shows "a = b"
proof -
  have "hkf_crc_entry (unat ((crc XOR ucast a) AND 0xff)) = hkf_crc_entry (unat ((crc XOR ucast b) AND 0xff))"
    using assms crc_index [of crc a] crc_index [of crc b] by (simp add: HKF_UPDC32_def hkf_crc_tab_def xor_right_cancel_word)
  then have "unat ((crc XOR ucast a) AND (0xff :: u32)) = unat ((crc XOR ucast b) AND 0xff)"
    by (rule hkf_crc_entry_inject [OF crc_index crc_index])
  then have eq: "(crc XOR ucast a) AND (0xff :: u32) = (crc XOR ucast b) AND 0xff" by (simp only: word_unat_eq_iff)
  show ?thesis
  proof (rule bit_word_eqI)
    fix n assume "n < LENGTH(8)"
    then have n: "n < 8" by simp
    then have "bit (0xff :: u32) n" by (simp add: bit_numeral_rec less_Suc_eq numeral_eq_Suc) auto
    then show "bit a n = bit b n"
      using arg_cong [OF eq, of "\<lambda>w. bit w n"] n by (auto simp: bit_simps)
  qed
qed

text \<open>The values of the CRC after each byte.\<close>

fun crc_run :: "u32 \<Rightarrow> bytes \<Rightarrow> u32 list" where
  "crc_run crc [] = []"
| "crc_run crc (r # rs) = (let c = HKF_UPDC32 r crc in c # crc_run c rs)"

lemma length_crc_run [simp]: "length (crc_run crc rs) = length rs"
  by (induction rs arbitrary: crc) (simp_all add: Let_def)

lemma crc_run_inject: "crc_run crc rs = crc_run crc rs' \<Longrightarrow> rs = rs'"
proof (induction rs arbitrary: crc rs')
  case Nil
  then show ?case by (cases rs') (simp_all add: Let_def)
next
  case (Cons r rs)
  then show ?case by (cases rs') (auto simp: Let_def dest: HKF_UPDC32_inject)
qed

definition crc_bytes :: "u32 \<Rightarrow> bytes" where
  "crc_bytes c = [ucast (drop_bit 24 c), ucast (drop_bit 16 c), ucast (drop_bit 8 c), ucast c]"

lemma crc_bytes_be: "crc_bytes = be_bytes 4"
  by (simp add: fun_eq_iff crc_bytes_def be_bytes_def le_bytes_def upt_rec)

lemma hkf_pool_step_fresh:
  assumes "length P + 4 + k = 128"
  shows "hkf_pool_step r (P @ zeros (4 + k), crc, length P) =
    (let c = HKF_UPDC32 r crc in (P @ crc_bytes c @ zeros k, c, if k = 0 then 0 else length P + 4))"
proof -
  have z: "zeros (4 + k) = [0, 0, 0, 0] @ zeros k" by (simp add: zeros_add) (simp add: zeros_def numeral_eq_Suc)
  show ?thesis
    using assms unfolding z
    by (auto simp: hkf_pool_step_def Let_def crc_bytes_def list_update_append nth_append)
qed

lemma hkf_pool_run:
  assumes "length P + 4 * length rs + k = 128"
  shows "fst (fold hkf_pool_step rs (P @ zeros (4 * length rs + k), crc, if length P = 128 then 0 else length P)) =
    P @ concat (map crc_bytes (crc_run crc rs)) @ zeros k"
  using assms
proof (induction rs arbitrary: P crc)
  case Nil
  then show ?case by simp
next
  case (Cons r rs)
  define c where "c = HKF_UPDC32 r crc"
  have l: "length P + 4 + (4 * length rs + k) = 128" "length P \<noteq> 128" using Cons.prems by simp_all
  have e: "4 * length (r # rs) + k = 4 + (4 * length rs + k)" by simp
  have "fst (fold hkf_pool_step rs ((P @ crc_bytes c) @ zeros (4 * length rs + k), c,
      if length (P @ crc_bytes c) = 128 then 0 else length (P @ crc_bytes c))) =
    (P @ crc_bytes c) @ concat (map crc_bytes (crc_run c rs)) @ zeros k"
    by (rule Cons.IH) (use Cons.prems in \<open>simp add: crc_bytes_def\<close>)
  moreover have "hkf_pool_step r (P @ zeros (4 * length (r # rs) + k), crc, length P) =
      ((P @ crc_bytes c) @ zeros (4 * length rs + k), c,
       if length (P @ crc_bytes c) = 128 then 0 else length (P @ crc_bytes c))"
    unfolding e using hkf_pool_step_fresh [OF l(1)] l by (auto simp: Let_def c_def crc_bytes_def)
  ultimately show ?case using l(2) by (simp add: c_def Let_def)
qed

definition hkf_pool :: "bytes \<Rightarrow> bytes" where
  "hkf_pool r = fst (fold hkf_pool_step r (zeros 128, 0xffffffff, 0))"

lemma hkf_pool_short:
  "length r \<le> 32 \<Longrightarrow> hkf_pool r = concat (map crc_bytes (crc_run 0xffffffff r)) @ zeros (128 - 4 * length r)"
  using hkf_pool_run [of "[]" r "128 - 4 * length r" "0xffffffff"] by (simp add: hkf_pool_def)

lemma length_hkf_pool_short: "length r \<le> 32 \<Longrightarrow> length (hkf_pool r) = 128"
  by (simp add: hkf_pool_short crc_bytes_be length_concat comp_def sum_list_triv)

lemma concat_crc_bytes_inject:
  "concat (map crc_bytes xs) = concat (map crc_bytes ys) \<Longrightarrow> xs = ys"
proof (induction xs arbitrary: ys)
  case Nil
  then show ?case by (cases ys) (simp_all add: crc_bytes_def)
next
  case (Cons x xs)
  then obtain y ys' where ys: "ys = y # ys'" by (cases ys) (auto simp: crc_bytes_def)
  have "crc_bytes x = crc_bytes y" "concat (map crc_bytes xs) = concat (map crc_bytes ys')"
    using Cons.prems append_eq_append_conv [of "crc_bytes x" "crc_bytes y"] unfolding ys by (simp_all add: crc_bytes_be)
  then show ?case using Cons.IH ys by (simp add: crc_bytes_be be_bytes_inject)
qed

lemma hkf_pool_inject:
  assumes "length r = length r'" "length r \<le> 32" "hkf_pool r = hkf_pool r'"
  shows "r = r'"
proof -
  have "concat (map crc_bytes (crc_run 0xffffffff r)) = concat (map crc_bytes (crc_run 0xffffffff r'))"
    using assms by (simp add: hkf_pool_short)
  then show ?thesis by (blast dest: concat_crc_bytes_inject crc_run_inject)
qed

lemma HKFMixResponseIntoPassword_spec:
  assumes "128 \<le> length pw"
  shows "HKFMixResponseIntoPassword pw len r =
    (map (\<lambda>i. (if int i < len then pw ! i else 0) + hkf_pool r ! i) [0..<128] @ drop 128 pw, max 128 len)"
proof -
  have "fold (\<lambda>i p. if int i < len then p[i := p ! i + q ! i] else p[i := q ! i]) [0..<128] pw =
      fold (\<lambda>i p. p[i := (if int i < len then p ! i else 0) + q ! i]) [0..<128] pw" for q :: bytes
    by (rule fold_cong) auto
  then show ?thesis
    using fold_update_map [OF assms, of "\<lambda>i b. (if int i < len then b else 0) + hkf_pool r ! i"]
    by (auto simp: HKFMixResponseIntoPassword_def hkf_pool_def max_def split: prod.split)
qed

section \<open>The expansion of version 2 is HKDF\<close>

fun hkdf_T :: "bytes \<Rightarrow> bytes \<Rightarrow> nat \<Rightarrow> bytes" where
  "hkdf_T prk info 0 = []"
| "hkdf_T prk info (Suc i) = hmac_sha256 prk (hkdf_T prk info i @ info @ [of_nat (Suc i)])"

definition hkdf_sha256 :: "bytes \<Rightarrow> bytes \<Rightarrow> bytes \<Rightarrow> nat \<Rightarrow> bytes" where
  "hkdf_sha256 salt ikm info n =
     take n (concat (map (hkdf_T (hmac_sha256 salt ikm) info) [1..<(n + 31) div 32 + 1]))"

lemma length_hkdf_T: "length (hkdf_T prk info i) = (if i = 0 then 0 else 32)"
  by (cases i) simp_all

lemma length_HKF_V2_INFO [simp]: "length HKF_V2_INFO = 20"
  by (simp add: HKF_V2_INFO_def)

lemma hkf_v2_hmac_rfc:
  "length key < 2 ^ 29 \<Longrightarrow> length m1 + length m2 + 64 < 2 ^ 29 \<Longrightarrow>
   hkf_v2_hmac key m1 m2 = hmac_sha256 key (m1 @ m2)"
  unfolding hkf_v2_hmac_def by (rule hmac_two_parts)

lemma hkf_expand_step_spec:
  assumes "length prk = 32" "got + 32 \<le> 128"
  shows "hkf_expand_step prk (Suc i) (okm, hkdf_T prk HKF_V2_INFO i, got) =
    (store_at got (hkdf_T prk HKF_V2_INFO (Suc i)) okm, hkdf_T prk HKF_V2_INFO (Suc i), got + 32)"
proof -
  define T where "T = hkdf_T prk HKF_V2_INFO i"
  have lT: "length T \<le> 32" by (simp add: T_def length_hkdf_T)
  define c1 where "c1 = sha256_hash (map (\<lambda>b. b XOR 0x36) (hmac_key prk)) 64 (sha256_begin ctx_uninit)"
  define c2 where "c2 = (if 0 < length T then sha256_hash T (of_nat (length T)) c1 else c1)"
  define c4 where "c4 = sha256_hash [of_nat (Suc i)] 1 (sha256_hash HKF_V2_INFO 20 c2)"
  have "sha256_reps c1 (ipad (hmac_key prk))" unfolding c1_def by (rule hmac_inner) simp
  then have "sha256_reps c2 (ipad (hmac_key prk) @ T)"
    unfolding c2_def by (rule sha256_hash_nonempty_reps) (use lT in simp)
  then have "sha256_reps (sha256_hash HKF_V2_INFO 20 c2) ((ipad (hmac_key prk) @ T) @ HKF_V2_INFO)"
    by (rule sha256_hash_reps) (use lT in simp_all)
  then have "sha256_reps c4 (((ipad (hmac_key prk) @ T) @ HKF_V2_INFO) @ [of_nat (Suc i)])"
    unfolding c4_def by (rule sha256_hash_reps) (use lT in simp_all)
  then have "sha256_reps c4 (ipad (hmac_key prk) @ T @ HKF_V2_INFO @ [of_nat (Suc i)])" by simp
  from hmac_outer [OF this] obtain inner c5 where c5: "sha256_end c4 = (inner, c5)"
    "fst (sha256_end (sha256_hash inner 32 (sha256_hash (map (\<lambda>b. b XOR 0x5c) (hmac_key prk)) 64
       (sha256_begin c5)))) = hmac_sha256 prk (T @ HKF_V2_INFO @ [of_nat (Suc i)])" using lT by auto
  have key: "take 32 prk @ zeros 32 = hmac_key prk" using assms(1) by (simp add: hmac_key_32)
  have n: "(if 128 - got < 32 then 128 - got else 32) = 32" using assms(2) by simp
  show ?thesis
    unfolding hkf_expand_step_def prod.case Let_def key c1_def [symmetric] T_def [symmetric] c2_def [symmetric]
      c4_def [symmetric] c5 n
    by (simp add: T_def)
qed

lemma hkf_v2_mix_spec:
  assumes "length salt < 2 ^ 29" "length pw + length r + 64 < 2 ^ 29"
  shows "hkf_v2_mix pw len r salt =
    (store_at 0 (hkdf_sha256 salt (take (nat len) pw @ r) HKF_V2_INFO 128) pw, 128)"
proof -
  define prk where "prk = hmac_sha256 salt (take (nat len) pw @ r)"
  have lp: "length prk = 32" by (simp add: prk_def)
  let ?T = "hkdf_T prk HKF_V2_INFO"
  have e: "fold (hkf_expand_step prk) [1..<Suc k] (zeros 128, [], 0) =
      (concat (map ?T [1..<Suc k]) @ zeros (128 - 32 * k), ?T k, 32 * k)" if "k \<le> 4" for k
    using that
  proof (induction k)
    case (Suc k)
    have lc: "length (concat (map ?T [1..<Suc j])) = 32 * j" for j
      by (induction j) (simp_all add: length_hkdf_T upt_Suc_append del: upt_Suc hkdf_T.simps)
    have z: "zeros (128 - 32 * k) = zeros 32 @ zeros (128 - 32 * Suc k)"
      using Suc.prems by (simp flip: zeros_add)
    have "store_at (32 * k) (?T (Suc k)) (concat (map ?T [1..<Suc k]) @ zeros (128 - 32 * k)) =
        concat (map ?T [1..<Suc (Suc k)]) @ zeros (128 - 32 * Suc k)"
      unfolding z by (subst store_at_append)
        (simp_all add: lc length_hkdf_T upt_Suc_append [of 1 "Suc k"] del: hkdf_T.simps upt_Suc One_nat_def)
    then show ?case
      using Suc hkf_expand_step_spec [OF lp, of "32 * k" k] by (simp del: hkdf_T.simps)
  qed simp
  have prk': "hkf_v2_hmac salt (take (nat len) pw) r = prk"
    unfolding prk_def by (rule hkf_v2_hmac_rfc) (use assms in simp_all)
  have "length (concat (map ?T [1..<5])) = 128" by (simp add: upt_rec length_hkdf_T del: hkdf_T.simps)
  then have "concat (map ?T [1..<5]) = hkdf_sha256 salt (take (nat len) pw @ r) HKF_V2_INFO 128"
    by (simp add: hkdf_sha256_def prk_def del: hkdf_T.simps)
  then show ?thesis
    using e [of 4] unfolding hkf_v2_mix_def Let_def prk' by (simp add: zeros_def del: hkdf_T.simps)
qed

section \<open>The active configuration\<close>

lemma hkf_toggle_twice [simp]: "hkf_toggle_config a p (hkf_toggle_config a p c) = c"
  by (simp add: hkf_toggle_config_def)

lemma hkf_saltbind_rfc:
  "length key < 2 ^ 29 \<Longrightarrow> length msg + 64 < 2 ^ 29 \<Longrightarrow> hkf_saltbind_hmac_sha256 key msg = hmac_sha256 key msg"
  unfolding hkf_saltbind_hmac_sha256_def by (rule hmac_one_part)

text \<open>The response as a function of the configuration the dispatcher sees.\<close>

definition hkf_response :: "HKFConfig \<Rightarrow> bytes ptr \<Rightarrow> bytes \<Rightarrow> int \<Rightarrow> int \<times> bytes \<times> int" where
  "hkf_response c challenge out n =
     (let (rc, out, n) = hkf_dispatch_response (Some c) challenge out n
      in if rc = HKF_OK \<and> n > 32 then (rc, store_at 0 (sha256 (take (nat n) out) (of_int n)) out, 32) else (rc, out, n))"

text \<open>Computing a response shows the dispatcher the configuration after one application of the RAM
  encryption, and leaves the store as it was.\<close>

lemma HKFComputeResponse_spec:
  assumes "hkConfigs s p = Some c"
  shows "HKFComputeResponse (Some p) ch out n s = (hkf_response (hkf_toggle_config (hkArea s) p c) ch out n, s)"
proof -
  have t: "hkf_toggle_secret_protection (Some p) (hkf_toggle_secret_protection (Some p) s) = s"
    using assms by (simp add: hkf_toggle_secret_protection_def fun_upd_idem)
  have d: "hkf_deref (Some p) (hkf_toggle_secret_protection (Some p) s) = Some (hkf_toggle_config (hkArea s) p c)"
    using assms by (simp add: hkf_deref_def hkf_toggle_secret_protection_def)
  show ?thesis
    by (auto simp: HKFComputeResponse_def Let_def t d hkf_response_def split: prod.split)
qed

lemma HKFSetActiveConfig_simps:
  "hkArea (HKFSetActiveConfig q s) = hkArea s"
  "g_hkfActiveConfig (HKFSetActiveConfig q s) = q"
  "hkConfigs s p = Some c \<Longrightarrow> hkConfigs (HKFSetActiveConfig (Some p) s) p = Some (hkf_toggle_config (hkArea s) p c)"
  "hkConfigs (HKFSetActiveConfig NULL s) = hkConfigs s"
  by (auto simp: HKFSetActiveConfig_def hkf_toggle_secret_protection_def split: option.split)

end
