(* ===== verification/HkfOrSet.thy ===== *)
theory HkfOrSet
  imports KeyslotTable HardwareKeyFactor
begin

text \<open>
  The set of tokens of which any one opens the volume, \<open>src/src/Common/HkfOrSet.c\<close>: one key slot per token,
  all wrapping the same key. The rows of \<open>responses\<close> are slices of one buffer, as in the code.
  \<open>payload0 i\<close> is what the stack array of the \<open>i\<close>-th call of \<open>KeyslotAdd\<close> contains before the call. The
  configurations of \<open>HkfOrSetEnrollConfigs\<close> are an array of structures of 680 bytes.
\<close>

section \<open>The code\<close>

fun orset_enroll_loop :: "'g KeyslotStoreCfg \<Rightarrow> bytes \<Rightarrow> int list \<Rightarrow> int \<Rightarrow> bytes \<Rightarrow> (nat \<Rightarrow> bytes) \<Rightarrow> nat list
    \<Rightarrow> 'c KeyslotArea \<Rightarrow> 'g \<Rightarrow> bool \<times> 'c KeyslotArea \<times> 'g" where
  "orset_enroll_loop cfg responses respLens rowStride vmk payload0 [] area g = (True, area, g)"
| "orset_enroll_loop cfg responses respLens rowStride vmk payload0 (i # is) area g =
     (let rl = respLens ! i
      in if rl \<le> 0 \<or> rl > rowStride then (False, area, g)
         else let (idx, area, g) = KeyslotAdd cfg area (slice (i * nat rowStride) (nat rl) responses) 0 vmk (payload0 i) g
              in if idx < 0 then (False, area, g)
                 else orset_enroll_loop cfg responses respLens rowStride vmk payload0 is area g)"

definition HkfOrSetEnroll :: "'g KeyslotStoreCfg ptr \<Rightarrow> 'c KeyslotArea ptr \<Rightarrow> bytes ptr \<Rightarrow> int list ptr \<Rightarrow> int \<Rightarrow> int
    \<Rightarrow> bytes ptr \<Rightarrow> (nat \<Rightarrow> bytes) \<Rightarrow> 'g \<Rightarrow> int \<times> 'c KeyslotArea ptr \<times> 'g" where
  "HkfOrSetEnroll cfg area responses respLens rowStride nTokens vmk payload0 g =
     (if cfg = NULL \<or> area = NULL \<or> responses = NULL \<or> respLens = NULL \<or> vmk = NULL \<or> nTokens \<le> 0 \<or> rowStride \<le> 0
      then (- 1, area, g)
      else let (ok, area, g) = orset_enroll_loop (the cfg) (the responses) (the respLens) rowStride (the vmk) payload0
                                 [0..<nat nTokens] (the area) g
           in (if ok then nTokens else - 1, Some area, g))"

definition HkfOrSetOpen :: "'g KeyslotStoreCfg ptr \<Rightarrow> 'c KeyslotArea ptr \<Rightarrow> bytes ptr \<Rightarrow> bytes ptr \<Rightarrow> int ptr
    \<Rightarrow> int \<times> bytes ptr \<times> int ptr" where
  "HkfOrSetOpen cfg area response vmkOut flagsOut =
     (if cfg = NULL \<or> area = NULL \<or> response = NULL \<or> length (the response) = 0 \<or> vmkOut = NULL
      then (0, vmkOut, flagsOut)
      else let (rc, out, flags) = KeyslotOpen (the cfg) (the area) (the response) (the vmkOut) flagsOut
           in (rc, Some out, flags))"

definition HKFConfig_size :: u64 where "HKFConfig_size = 680"

fun orset_configs_loop :: "'g KeyslotStoreCfg \<Rightarrow> u64 \<Rightarrow> bytes \<Rightarrow> bytes \<Rightarrow> (nat \<Rightarrow> bytes) \<Rightarrow> nat list
    \<Rightarrow> 'c KeyslotArea \<Rightarrow> 'g \<Rightarrow> hkf_store \<Rightarrow> int \<times> 'c KeyslotArea \<times> 'g \<times> hkf_store" where
  "orset_configs_loop ksCfg cfgs salt vmk payload0 [] area g s = (0, area, g, s)"
| "orset_configs_loop ksCfg cfgs salt vmk payload0 (i # is) area g s =
     (let ((rc, resp, rlen), s) =
            HKFComputeResponse (Some (cfgs + of_nat i * HKFConfig_size)) (Some salt) (zeros 64) 0 s
      in if rc \<noteq> HKF_OK then (rc, area, g, s)
         else if rlen \<le> 0 \<or> rlen > 64 then (- 1, area, g, s)
         else let (idx, area, g) = KeyslotAdd ksCfg area (take (nat rlen) resp) 0 vmk (payload0 i) g
              in if idx < 0 then (- 1, area, g, s)
                 else orset_configs_loop ksCfg cfgs salt vmk payload0 is area g s)"

definition HkfOrSetEnrollConfigs :: "'g KeyslotStoreCfg ptr \<Rightarrow> 'c KeyslotArea ptr \<Rightarrow> u64 ptr \<Rightarrow> int \<Rightarrow> bytes ptr
    \<Rightarrow> bytes ptr \<Rightarrow> (nat \<Rightarrow> bytes) \<Rightarrow> 'g \<Rightarrow> hkf_store \<Rightarrow> int \<times> 'c KeyslotArea ptr \<times> 'g \<times> hkf_store" where
  "HkfOrSetEnrollConfigs ksCfg area cfgs nTokens salt vmk payload0 g s =
     (if ksCfg = NULL \<or> area = NULL \<or> cfgs = NULL \<or> nTokens \<le> 0 \<or> salt = NULL \<or> length (the salt) = 0 \<or> vmk = NULL
      then (- 1, area, g, s)
      else let (rc, area, g, s) = orset_configs_loop (the ksCfg) (the cfgs) (the salt) (the vmk) payload0
                                    [0..<nat nTokens] (the area) g s
           in (if rc = 0 then nTokens else rc, Some area, g, s))"

definition HkfOrSetOpenConfig :: "'g KeyslotStoreCfg ptr \<Rightarrow> 'c KeyslotArea ptr \<Rightarrow> u64 ptr \<Rightarrow> bytes ptr \<Rightarrow> bytes ptr
    \<Rightarrow> int ptr \<Rightarrow> hkf_store \<Rightarrow> (int \<times> bytes ptr \<times> int ptr) \<times> hkf_store" where
  "HkfOrSetOpenConfig ksCfg area cfg salt vmkOut flagsOut s =
     (if ksCfg = NULL \<or> area = NULL \<or> cfg = NULL \<or> salt = NULL \<or> length (the salt) = 0 \<or> vmkOut = NULL
      then ((0, vmkOut, flagsOut), s)
      else let ((rc, resp, rlen), s) = HKFComputeResponse cfg salt (zeros 64) 0 s
           in if rc \<noteq> HKF_OK then ((rc, vmkOut, flagsOut), s)
              else if rlen \<le> 0 \<or> rlen > 64 then ((0, vmkOut, flagsOut), s)
              else let (opened, out, flags) = KeyslotOpen (the ksCfg) (the area) (take (nat rlen) resp) (the vmkOut) flagsOut
                   in ((opened, Some out, flags), s))"

section \<open>Every enrolled token opens\<close>

text \<open>Slot \<open>k\<close> of the medium contents \<open>m\<close> gives the key \<open>vmk\<close> to \<open>pass\<close>.\<close>

definition slot_holds :: "'g KeyslotStoreCfg \<Rightarrow> bytes \<Rightarrow> bytes \<Rightarrow> bytes \<Rightarrow> nat \<Rightarrow> bool" where
  "slot_holds cfg vmk m pass k \<longleftrightarrow> occupied m k \<and>
     (\<exists>blob. slot_open cfg pass (nat (ct_of cfg)) (slot_bytes m k) = Some blob \<and>
        (\<forall>vo fo. open_result cfg blob vo fo = (1, store_at 0 vmk vo, map_option (\<lambda>_. 0) fo)))"

definition free_slots :: "nat \<Rightarrow> bytes \<Rightarrow> nat set" where
  "free_slots n m = {i. i < n \<and> \<not> occupied m i}"

context byte_area
begin

lemma slot_holds_open:
  assumes "good c" "cfg_ok cfg" "k < unat (n_slots cfg (area_of rd wr sz c))" "slot_holds cfg vmk (contents c) pass k"
  shows "KeyslotOpenAt cfg (area_of rd wr sz c) (int k) pass vo fo = (1, store_at 0 vmk vo, map_option (\<lambda>_. 0) fo)"
    "fst (KeyslotOpen cfg (area_of rd wr sz c) pass vo fo) = 1"
proof -
  obtain blob where b: "slot_open cfg pass (nat (ct_of cfg)) (slot_bytes (contents c) k) = Some blob" "occupied (contents c) k"
    "\<And>vo fo. open_result cfg blob vo fo = (1, store_at 0 vmk vo, map_option (\<lambda>_. 0) fo)"
    using assms(4) by (auto simp: slot_holds_def)
  show "KeyslotOpenAt cfg (area_of rd wr sz c) (int k) pass vo fo = (1, store_at 0 vmk vo, map_option (\<lambda>_. 0) fo)"
    using KeyslotOpenAt_spec [OF assms(1-3)] b by simp
  have "\<exists>pt. first_some (map (\<lambda>i. slot_open cfg pass (nat (ct_of cfg)) (slot_bytes (contents c) i))
      [0..<unat (n_slots cfg (area_of rd wr sz c))]) = Some pt"
    using assms(3) b(1) unfolding first_some_Some_iff by force
  then show "fst (KeyslotOpen cfg (area_of rd wr sz c) pass vo fo) = 1"
    unfolding KeyslotOpen_spec [OF assms(1,2)] by (auto simp: open_result_def Let_def)
qed

lemma KeyslotAdd_holds:
  assumes "good c" "cfg_ok cfg" "length vmk = nat (vmkLen cfg)" "length payload0 = 521"
    "unat (n_slots cfg (area_of rd wr sz c)) \<le> 2 ^ 31"
    "KeyslotAdd cfg (area_of rd wr sz c) pass 0 vmk payload0 g = (idx, area', g')" "\<not> idx < 0"
  shows "\<exists>c' k. area' = area_of rd wr sz c' \<and> good c' \<and> n_slots cfg (area_of rd wr sz c') = n_slots cfg (area_of rd wr sz c) \<and>
    k < unat (n_slots cfg (area_of rd wr sz c)) \<and> slot_holds cfg vmk (contents c') pass k \<and>
    (\<forall>q j. slot_holds cfg vmk (contents c) q j \<longrightarrow> slot_holds cfg vmk (contents c') q j)"
proof -
  have free: "\<exists>i<unat (n_slots cfg (area_of rd wr sz c)). \<not> occupied (contents c) i"
    using KeyslotAdd_spec [OF assms(1-4) refl assms(5), of pass 0 g] assms(6,7) by (auto split: if_splits)
  obtain k c' r blob where s: "k < unat (n_slots cfg (area_of rd wr sz c))" "area' = area_of rd wr sz c'"
    "good c'" "n_slots cfg (area_of rd wr sz c') = n_slots cfg (area_of rd wr sz c)" "\<not> occupied (contents c) k"
    "\<And>j. slot_bytes (contents c') j = (if j = k then r else slot_bytes (contents c) j)"
    "\<And>j. occupied (contents c') j = (j = k \<or> occupied (contents c) j)"
    "slot_open cfg pass (nat (ct_of cfg)) r = Some blob"
    "\<And>vo fo. open_result cfg blob vo fo =
         (1, store_at 0 (slice 1 (nat (vmkLen cfg)) (add_payload cfg 0 vmk payload0)) vo,
          map_option (\<lambda>_. 0 mod 256) fo)"
    by (rule KeyslotAdd_success [OF assms(1-5) free assms(6)]) blast
  have pay: "slice (Suc 0) (nat (vmkLen cfg)) (add_payload cfg 0 vmk payload0) = vmk"
    using assms(3) by (simp add: add_payload_def slice_def)
  have "slot_holds cfg vmk (contents c') pass k"
    using s(6-9) pay by (simp add: slot_holds_def)
  moreover have "slot_holds cfg vmk (contents c') q j" if "slot_holds cfg vmk (contents c) q j" for q j
    using that s(5-7) by (cases "j = k") (auto simp: slot_holds_def)
  ultimately show ?thesis using s(1-4) by blast
qed

lemma orset_enroll_loop_holds:
  assumes "good c" "cfg_ok cfg" "length vmk = nat (vmkLen cfg)" "\<And>i. length (payload0 i) = 521"
    "unat (n_slots cfg (area_of rd wr sz c)) \<le> 2 ^ 31"
    "orset_enroll_loop cfg responses respLens rowStride vmk payload0 is (area_of rd wr sz c) g = (True, area', g')"
  shows "\<exists>c'. area' = area_of rd wr sz c' \<and> good c' \<and> n_slots cfg (area_of rd wr sz c') = n_slots cfg (area_of rd wr sz c) \<and>
    (\<forall>i\<in>set is. 0 < respLens ! i \<and> respLens ! i \<le> rowStride \<and> (\<exists>k<unat (n_slots cfg (area_of rd wr sz c)).
       slot_holds cfg vmk (contents c') (slice (i * nat rowStride) (nat (respLens ! i)) responses) k)) \<and>
    (\<forall>q j. slot_holds cfg vmk (contents c) q j \<longrightarrow> slot_holds cfg vmk (contents c') q j)"
  using assms(1,5,6)
proof (induction "is" arbitrary: c g)
  case Nil
  then show ?case by auto
next
  case (Cons i "is")
  define resp where "resp = slice (i * nat rowStride) (nat (respLens ! i)) responses"
  obtain idx a1 g1 where add: "KeyslotAdd cfg (area_of rd wr sz c) resp 0 vmk (payload0 i) g = (idx, a1, g1)"
    by (metis prod_cases3)
  then have rl: "0 < respLens ! i" "respLens ! i \<le> rowStride" "\<not> idx < 0"
    "orset_enroll_loop cfg responses respLens rowStride vmk payload0 is a1 g1 = (True, area', g')"
    using Cons.prems(3) by (auto simp: Let_def resp_def split: if_splits)
  obtain c1 k where c1: "a1 = area_of rd wr sz c1" "good c1" "n_slots cfg (area_of rd wr sz c1) = n_slots cfg (area_of rd wr sz c)"
    "k < unat (n_slots cfg (area_of rd wr sz c))" "slot_holds cfg vmk (contents c1) resp k"
    "\<And>q j. slot_holds cfg vmk (contents c) q j \<Longrightarrow> slot_holds cfg vmk (contents c1) q j"
    using KeyslotAdd_holds [OF Cons.prems(1) assms(2,3,4) Cons.prems(2) add rl(3)] by blast
  obtain c' where c': "area' = area_of rd wr sz c'" "good c'" "n_slots cfg (area_of rd wr sz c') = n_slots cfg (area_of rd wr sz c1)"
    "\<forall>i\<in>set is. 0 < respLens ! i \<and> respLens ! i \<le> rowStride \<and> (\<exists>k<unat (n_slots cfg (area_of rd wr sz c1)).
       slot_holds cfg vmk (contents c') (slice (i * nat rowStride) (nat (respLens ! i)) responses) k)"
    "\<And>q j. slot_holds cfg vmk (contents c1) q j \<Longrightarrow> slot_holds cfg vmk (contents c') q j"
    using Cons.IH [of c1 g1] c1(1-3) Cons.prems(2) rl(4) by auto
  then show ?case using c1 rl(1,2) unfolding resp_def by auto
qed

text \<open>Enrolment cannot fail while there is a free slot for each token.\<close>

lemma KeyslotAdd_free:
  assumes "good c" "cfg_ok cfg" "length vmk = nat (vmkLen cfg)" "length payload0 = 521"
    "unat (n_slots cfg (area_of rd wr sz c)) \<le> 2 ^ 31" "free_slots (unat (n_slots cfg (area_of rd wr sz c))) (contents c) \<noteq> {}"
    "KeyslotAdd cfg (area_of rd wr sz c) pass 0 vmk payload0 g = (idx, area', g')"
  shows "\<exists>c'. 0 \<le> idx \<and> area' = area_of rd wr sz c' \<and> good c' \<and>
    n_slots cfg (area_of rd wr sz c') = n_slots cfg (area_of rd wr sz c) \<and>
    Suc (card (free_slots (unat (n_slots cfg (area_of rd wr sz c))) (contents c'))) = card (free_slots (unat (n_slots cfg (area_of rd wr sz c))) (contents c))"
proof -
  let ?n = "unat (n_slots cfg (area_of rd wr sz c))"
  have free: "\<exists>i<?n. \<not> occupied (contents c) i" using assms(6) by (auto simp: free_slots_def)
  obtain k c' where s: "k < ?n" "idx = int k" "area' = area_of rd wr sz c'" "good c'"
    "n_slots cfg (area_of rd wr sz c') = n_slots cfg (area_of rd wr sz c)" "\<not> occupied (contents c) k"
    "\<And>j. occupied (contents c') j = (j = k \<or> occupied (contents c) j)"
    by (rule KeyslotAdd_success [OF assms(1-5) free assms(7)]) blast
  have "free_slots ?n (contents c) = insert k (free_slots ?n (contents c'))" "k \<notin> free_slots ?n (contents c')"
    using s(1,6,7) by (auto simp: free_slots_def)
  moreover have "finite (free_slots ?n (contents c'))" by (simp add: free_slots_def)
  ultimately show ?thesis using s by auto
qed

lemma orset_enroll_loop_succeeds:
  assumes "good c" "cfg_ok cfg" "length vmk = nat (vmkLen cfg)" "\<And>i. length (payload0 i) = 521"
    "unat (n_slots cfg (area_of rd wr sz c)) \<le> 2 ^ 31" "\<forall>i\<in>set is. 0 < respLens ! i \<and> respLens ! i \<le> rowStride"
    "length is \<le> card (free_slots (unat (n_slots cfg (area_of rd wr sz c))) (contents c))"
  shows "fst (orset_enroll_loop cfg responses respLens rowStride vmk payload0 is (area_of rd wr sz c) g)"
  using assms(1,5-7)
proof (induction "is" arbitrary: c g)
  case (Cons i "is")
  define resp where "resp = slice (i * nat rowStride) (nat (respLens ! i)) responses"
  obtain idx a1 g1 where add: "KeyslotAdd cfg (area_of rd wr sz c) resp 0 vmk (payload0 i) g = (idx, a1, g1)"
    by (metis prod_cases3)
  have "free_slots (unat (n_slots cfg (area_of rd wr sz c))) (contents c) \<noteq> {}" using Cons.prems(4) by auto
  then obtain c1 where c1: "0 \<le> idx" "a1 = area_of rd wr sz c1" "good c1"
    "n_slots cfg (area_of rd wr sz c1) = n_slots cfg (area_of rd wr sz c)"
    "Suc (card (free_slots (unat (n_slots cfg (area_of rd wr sz c))) (contents c1))) = card (free_slots (unat (n_slots cfg (area_of rd wr sz c))) (contents c))"
    using KeyslotAdd_free [OF Cons.prems(1) assms(2,3,4) Cons.prems(2) _ add] by auto
  then have "fst (orset_enroll_loop cfg responses respLens rowStride vmk payload0 is (area_of rd wr sz c1) g1)"
    using Cons.prems by (intro Cons.IH) auto
  then show ?case using Cons.prems(3) c1 add by (simp add: Let_def resp_def)
qed simp

end

end
