(* ===== verification/V2Format.thy ===== *)
theory V2Format
  imports Hmac
begin

text \<open>
  The second on-disk format, \<open>src/src/Common/V2Format.c\<close>: sector tags, the discovery of the cipher mode
  by trial, and the layout of the table of tags. The descending loop of \<open>V2FormatSplitDataArea\<close> is a
  recursion with its termination proof.
\<close>

section \<open>The code\<close>

definition v2_hmac_sha256 :: "bytes \<Rightarrow> bytes \<Rightarrow> bytes" where
  "v2_hmac_sha256 key msg =
     (let (k0, ctx) =
            (if length key > 64
             then let (d, ctx) = sha256_end (sha256_hash key (of_nat (length key)) (sha256_begin ctx_uninit))
                  in (d @ zeros 32, ctx)
             else (key @ zeros (64 - length key), ctx_uninit));
          pad = map (\<lambda>b. b XOR 0x36) k0;
          ctx = sha256_hash pad 64 (sha256_begin ctx);
          ctx = (if length msg > 0 then sha256_hash msg (of_nat (length msg)) ctx else ctx);
          (inner, ctx) = sha256_end ctx;
          pad = map (\<lambda>b. b XOR 0x5c) k0;
          ctx = sha256_hash inner 32 (sha256_hash pad 64 (sha256_begin ctx))
      in fst (sha256_end ctx))"

definition v2_le64 :: "u64 \<Rightarrow> bytes" where
  "v2_le64 x = map (\<lambda>i. ucast (drop_bit (8 * i) x)) [0..<8]"

datatype V2Mode = V2_MODE_HCTR2 | V2_MODE_ADIANTUM | V2_MODE_NONE

definition V2FormatModeLabel :: "V2Mode \<Rightarrow> bytes" where
  "V2FormatModeLabel m = (case m of
     V2_MODE_HCTR2 \<Rightarrow> cstr ''VeraCrypt/v2/mac/hctr2''
   | V2_MODE_ADIANTUM \<Rightarrow> cstr ''VeraCrypt/v2/mac/adiantum''
   | V2_MODE_NONE \<Rightarrow> [])"

definition V2FormatDeriveModeKey :: "bytes \<Rightarrow> V2Mode \<Rightarrow> bytes" where
  "V2FormatDeriveModeKey masterKey m = take 32 (v2_hmac_sha256 masterKey (V2FormatModeLabel m))"

definition V2FormatSectorTag :: "bytes \<Rightarrow> u64 \<Rightarrow> bytes \<Rightarrow> bytes" where
  "V2FormatSectorTag macKey index ct =
     (let k0 = take 32 macKey @ zeros 32;
          le = v2_le64 index;
          pad = map (\<lambda>b. b XOR 0x36) k0;
          ctx = sha256_hash pad 64 (sha256_begin ctx_uninit);
          ctx = sha256_hash le 8 ctx;
          ctx = (if length ct > 0 then sha256_hash ct (of_nat (length ct)) ctx else ctx);
          (inner, ctx) = sha256_end ctx;
          pad = map (\<lambda>b. b XOR 0x5c) k0;
          ctx = sha256_hash inner 32 (sha256_hash pad 64 (sha256_begin ctx));
          full = fst (sha256_end ctx)
      in take 16 full)"

definition v2_ct_eq :: "bytes \<Rightarrow> bytes \<Rightarrow> nat \<Rightarrow> bool" where
  "v2_ct_eq a b n \<longleftrightarrow> or_diff 0 (take n a) (take n b) = 0"

definition V2FormatSectorVerify :: "bytes \<Rightarrow> u64 \<Rightarrow> bytes \<Rightarrow> bytes \<Rightarrow> bool" where
  "V2FormatSectorVerify macKey index ct tag = v2_ct_eq (V2FormatSectorTag macKey index ct) tag 16"

definition V2FormatDiscoverMode :: "bytes \<Rightarrow> bytes \<Rightarrow> bytes \<Rightarrow> V2Mode" where
  "V2FormatDiscoverMode masterKey sector0Ct storedTag =
     fold (\<lambda>m found. let kmac = V2FormatDeriveModeKey masterKey m
                      in if V2FormatSectorVerify kmac 0 sector0Ct storedTag then m else found)
       [V2_MODE_HCTR2, V2_MODE_ADIANTUM] V2_MODE_NONE"

definition V2FormatMacTableBytes :: "u64 \<Rightarrow> u32 \<Rightarrow> u64" where
  "V2FormatMacTableBytes dataSectors sectorSize =
     (let raw = dataSectors * 16;
          ss = (if sectorSize = 0 then 512 else ucast sectorSize)
      in ((raw + ss - 1) div ss) * ss)"

text \<open>The loop: \<open>None\<close> is the return with an error inside it.\<close>

function split_loop :: "u64 \<Rightarrow> u64 \<Rightarrow> u64 \<Rightarrow> u64 option" where
  "split_loop ss totalSectors usableSectors =
     (let tblSectors = (usableSectors * 16 + ss - 1) div ss
      in if usableSectors + tblSectors \<le> totalSectors then Some usableSectors
         else if usableSectors = 0 then None
         else split_loop ss totalSectors (usableSectors - 1))"
  by auto
termination
  by (relation "measure (\<lambda>(ss, t, u). unat u)") (auto simp: unat_minus_one unat_gt_0)

declare split_loop.simps [simp del]

definition V2FormatSplitDataArea :: "u64 \<Rightarrow> u32 \<Rightarrow> u64 ptr \<Rightarrow> u64 ptr \<Rightarrow> int \<times> u64 ptr \<times> u64 ptr" where
  "V2FormatSplitDataArea totalDataBytes sectorSize usableBytesOut tableOffsetOut =
     (let ss = (if sectorSize = 0 then 512 else ucast sectorSize)
      in if totalDataBytes < 2 * ss then (1, usableBytesOut, tableOffsetOut)
         else let totalSectors = totalDataBytes div ss
              in case split_loop ss totalSectors totalSectors of
                   None \<Rightarrow> (1, usableBytesOut, tableOffsetOut)
                 | Some usableSectors \<Rightarrow>
                   if usableSectors = 0 then (1, usableBytesOut, tableOffsetOut)
                   else let usableBytes = usableSectors * ss
                        in (0, map_option (\<lambda>_. usableBytes) usableBytesOut, map_option (\<lambda>_. usableBytes) tableOffsetOut))"

definition V2FormatSlotOffset :: "u64 \<Rightarrow> u64" where
  "V2FormatSlotOffset index = index * 16"

section \<open>Tags and modes\<close>

lemma v2_le64_bytes: "v2_le64 x = le_bytes 8 x"
  by (simp add: v2_le64_def le_bytes_def)

lemma v2_hmac_rfc:
  "length key < 2 ^ 29 \<Longrightarrow> length msg + 64 < 2 ^ 29 \<Longrightarrow> v2_hmac_sha256 key msg = hmac_sha256 key msg"
  unfolding v2_hmac_sha256_def by (rule hmac_one_part)

lemma V2FormatSectorTag_rfc:
  assumes "length macKey = 32" "length ct + 72 < 2 ^ 29"
  shows "V2FormatSectorTag macKey index ct = take 16 (hmac_sha256 macKey (le_bytes 8 index @ ct))"
proof -
  have tk: "take 32 macKey = macKey" using assms(1) by simp
  have p: "length (le_bytes 8 index) = 8" "0 < (8 :: nat)" "(8 :: u32) = of_nat 8" "8 + length ct + 64 < 2 ^ 29"
    using assms(2) by simp_all
  show ?thesis
    unfolding V2FormatSectorTag_def v2_le64_bytes tk Let_def split_beta
    by (rule arg_cong [OF hmac_key32_first [OF assms(1) p, unfolded Let_def split_beta]])
qed

lemma V2FormatSectorVerify_iff:
  assumes "length macKey = 32" "length ct + 72 < 2 ^ 29" "length tag = 16"
  shows "V2FormatSectorVerify macKey index ct tag \<longleftrightarrow> tag = take 16 (hmac_sha256 macKey (le_bytes 8 index @ ct))"
  using assms by (auto simp: V2FormatSectorVerify_def v2_ct_eq_def V2FormatSectorTag_rfc or_diff_zero_iff)

definition mode_key :: "bytes \<Rightarrow> V2Mode \<Rightarrow> bytes" where
  "mode_key masterKey m = hmac_sha256 masterKey (V2FormatModeLabel m)"

definition mode_tag :: "bytes \<Rightarrow> V2Mode \<Rightarrow> bytes \<Rightarrow> bytes" where
  "mode_tag masterKey m ct = take 16 (hmac_sha256 (mode_key masterKey m) (le_bytes 8 (0 :: u64) @ ct))"

lemma length_V2FormatModeLabel: "length (V2FormatModeLabel m) \<le> 25"
  by (cases m) (simp_all add: V2FormatModeLabel_def)

lemma V2FormatDeriveModeKey_rfc:
  "length masterKey < 2 ^ 29 \<Longrightarrow> V2FormatDeriveModeKey masterKey m = mode_key masterKey m"
  using length_V2FormatModeLabel [of m] by (simp add: V2FormatDeriveModeKey_def mode_key_def v2_hmac_rfc)

lemma V2FormatDiscoverMode_spec:
  assumes "length masterKey < 2 ^ 29" "length ct + 72 < 2 ^ 29" "length tag = 16"
  shows "V2FormatDiscoverMode masterKey ct tag =
    (if tag = mode_tag masterKey V2_MODE_ADIANTUM ct then V2_MODE_ADIANTUM
     else if tag = mode_tag masterKey V2_MODE_HCTR2 ct then V2_MODE_HCTR2 else V2_MODE_NONE)"
proof -
  have "V2FormatSectorVerify (mode_key masterKey m) 0 ct tag \<longleftrightarrow> tag = mode_tag masterKey m ct" for m
    unfolding mode_tag_def by (rule V2FormatSectorVerify_iff) (use assms in \<open>simp_all add: mode_key_def\<close>)
  then show ?thesis
    by (simp add: V2FormatDiscoverMode_def V2FormatDeriveModeKey_rfc [OF assms(1)] Let_def)
qed

section \<open>The layout\<close>

text \<open>The number of whole sectors that \<open>u\<close> tags need, over natural numbers.\<close>

definition tbl :: "nat \<Rightarrow> nat \<Rightarrow> nat" where
  "tbl ss u = (u * 16 + ss - 1) div ss"

lemma tbl_mono: "u \<le> v \<Longrightarrow> tbl ss u \<le> tbl ss v"
  unfolding tbl_def by (intro div_le_mono) (simp add: diff_le_mono)

lemma table_word:
  assumes "unat u < 2 ^ 59" "0 < unat (ss :: u64)" "unat ss < 2 ^ 32"
  shows "unat ((u * 16 + ss - 1) div ss) = tbl (unat ss) (unat u)"
proof -
  have "unat (u * 16) = unat u * 16" using assms(1) by (simp add: unat_word_ariths)
  then have "unat (u * 16 + ss) = unat u * 16 + unat ss" using assms by (simp add: unat_word_ariths)
  moreover from this have "u * 16 + ss \<noteq> 0" using assms(2) by (metis add_is_0 less_not_refl unat_0)
  ultimately have "unat (u * 16 + ss - 1) = unat u * 16 + unat ss - 1" by (simp add: unat_minus_one)
  then show ?thesis by (simp add: tbl_def unat_div_distrib)
qed

lemma split_loop_spec:
  assumes "unat u \<le> unat t" "unat t < 2 ^ 58" "0 < unat ss" "unat ss < 2 ^ 32"
    "\<forall>v. unat u < v \<longrightarrow> unat t < v + tbl (unat ss) v"
  shows "\<exists>r. split_loop ss t u = Some r \<and> unat r + tbl (unat ss) (unat r) \<le> unat t \<and>
    (\<forall>v. unat r < v \<longrightarrow> unat t < v + tbl (unat ss) v)"
  using assms(1,5)
proof (induction "unat u" arbitrary: u rule: less_induct)
  case less
  let ?s = "unat ss"
  have bound: "tbl ?s (unat u) \<le> unat u * 16 + ?s"
    unfolding tbl_def by (rule order_trans [OF div_le_dividend]) simp
  have tw: "unat ((u * 16 + ss - 1) div ss) = tbl ?s (unat u)"
    by (rule table_word) (use less.prems(1) assms in simp_all)
  have sum: "unat (u + (u * 16 + ss - 1) div ss) = unat u + tbl ?s (unat u)"
    using bound less.prems(1) assms(2,4) by (simp only: unat_word_ariths(1) tw) simp
  show ?case
  proof (cases "unat u + tbl ?s (unat u) \<le> unat t")
    case True
    then have "split_loop ss t u = Some u"
      by (subst split_loop.simps) (simp add: Let_def word_le_nat_alt sum)
    then show ?thesis using True less.prems(2) by blast
  next
    case False
    have "tbl ?s 0 = 0" using assms(3) by (simp add: tbl_def div_less)
    then have u0: "u \<noteq> 0" using False by (metis add.right_neutral le0 unat_0)
    then have u1: "unat (u - 1) = unat u - 1" "0 < unat u" by (simp_all add: unat_minus_one unat_gt_0)
    have loop: "split_loop ss t u = split_loop ss t (u - 1)"
      using False u0 by (subst split_loop.simps) (simp add: Let_def word_le_nat_alt sum)
    have "\<forall>v. unat (u - 1) < v \<longrightarrow> unat t < v + tbl ?s v"
      using False less.prems(2) u1 by (metis Suc_diff_1 less_Suc_eq not_le not_less_eq)
    then show ?thesis unfolding loop using u1 less.prems(1) by (intro less.hyps) simp_all
  qed
qed

definition sector_size :: "u32 \<Rightarrow> nat" where
  "sector_size s = (if s = 0 then 512 else unat s)"

lemma sector_size_word:
  "unat (if s = 0 then 512 else ucast s :: u64) = sector_size s" "0 < sector_size s" "sector_size s < 2 ^ 32"
proof -
  have "unat s < 2 ^ 32" using unsigned_less [of s] by simp
  then show "unat (if s = 0 then 512 else ucast s :: u64) = sector_size s" "sector_size s < 2 ^ 32"
    by (simp_all add: sector_size_def unsigned_ucast_eq take_bit_nat_eq_self)
  show "0 < sector_size s" by (simp add: sector_size_def unat_gt_0)
qed

lemma V2FormatMacTableBytes_spec:
  assumes "unat n < 2 ^ 58"
  shows "unat (V2FormatMacTableBytes n s) = tbl (sector_size s) (unat n) * sector_size s"
    "unat n * 16 \<le> unat (V2FormatMacTableBytes n s)"
proof -
  define ss where "ss = (if s = 0 then 512 else ucast s :: u64)"
  note z = sector_size_word [of s, folded ss_def]
  have t: "unat ((n * 16 + ss - 1) div ss) = tbl (sector_size s) (unat n)"
    using table_word [of n ss] assms z by simp
  have b: "tbl (sector_size s) (unat n) * sector_size s \<le> unat n * 16 + sector_size s"
    unfolding tbl_def by (rule order_trans [OF div_times_less_eq_dividend]) simp
  have "V2FormatMacTableBytes n s = (n * 16 + ss - 1) div ss * ss"
    by (simp add: V2FormatMacTableBytes_def Let_def ss_def [symmetric])
  then show m: "unat (V2FormatMacTableBytes n s) = tbl (sector_size s) (unat n) * sector_size s"
    using assms b z by (simp only: unat_word_ariths(2) t z(1)) simp
  have "unat n * 16 + sector_size s - 1 < sector_size s + tbl (sector_size s) (unat n) * sector_size s"
    unfolding tbl_def using dividend_less_div_times [OF z(2)] .
  then show "unat n * 16 \<le> unat (V2FormatMacTableBytes n s)" using m z(2) by simp
qed

text \<open>A successful split: whole sectors of data, then the table, both inside the area, and no larger
  number of sectors would fit.\<close>

lemma V2FormatSplitDataArea_spec:
  assumes "unat area < 2 ^ 58"
  shows "\<exists>u. u + tbl (sector_size s) u \<le> unat area div sector_size s \<and>
     (\<forall>v>u. unat area div sector_size s < v + tbl (sector_size s) v) \<and>
     V2FormatSplitDataArea area s (Some a) (Some b) =
       (if unat area < 2 * sector_size s \<or> u = 0 then (1, Some a, Some b)
        else (0, Some (of_nat (u * sector_size s)), Some (of_nat (u * sector_size s))))"
proof -
  define ss where "ss = (if s = 0 then 512 else ucast s :: u64)"
  note z = sector_size_word [of s, folded ss_def]
  have t: "unat (area div ss) = unat area div sector_size s" by (simp add: unat_div_distrib z(1))
  then have lt: "unat (area div ss) < 2 ^ 58" using assms by (metis div_le_dividend le_less_trans)
  obtain r where r: "split_loop ss (area div ss) (area div ss) = Some r"
    "unat r + tbl (sector_size s) (unat r) \<le> unat (area div ss)"
    "\<forall>v. unat r < v \<longrightarrow> unat (area div ss) < v + tbl (sector_size s) v"
    using split_loop_spec [of "area div ss" "area div ss" ss] lt z by auto
  have two: "unat (2 * ss) = 2 * sector_size s" using z by (simp add: unat_word_ariths(2))
  have res: "r * ss = of_nat (unat r * sector_size s)" unfolding z(1) [symmetric] by simp
  have r0: "r = 0 \<longleftrightarrow> unat r = 0" by (simp add: unat_eq_0)
  show ?thesis
    by (intro exI [of _ "unat r"])
       (use r two in \<open>simp add: V2FormatSplitDataArea_def Let_def ss_def [symmetric] t word_less_nat_alt res r0 del: of_nat_mult\<close>)
qed

end
