(* ===== verification/Gf256.thy ===== *)
theory Gf256
  imports Complex_Main Prelude
begin

text \<open>
  Arithmetic in GF(2^8), \<open>gf_mul\<close> and \<open>gf_inv\<close> of \<open>src/src/Common/Shamir.c\<close>. The loops are folds over
  the loop counter. The code's functions turn out to be the multiplication and the inverse of a field:
  the type \<open>gf256\<close> of bytes with these operations is an instance of the library's class \<open>field\<close>.
\<close>

definition gf_mul_step :: "nat \<Rightarrow> byte \<times> byte \<times> byte \<Rightarrow> byte \<times> byte \<times> byte" where
  "gf_mul_step i st =
     (let (p, a, b) = st;
          mask = 0 - (b AND 1);
          hi = (0 - (drop_bit 7 a AND 1)) AND 0x1b;
          p = p XOR (mask AND a);
          a = push_bit 1 a XOR hi;
          b = drop_bit 1 b
      in (p, a, b))"

definition gf_mul :: "byte \<Rightarrow> byte \<Rightarrow> byte" where
  "gf_mul a b = fst (fold gf_mul_step [0..<8] (0, a, b))"

definition gf_inv :: "byte \<Rightarrow> byte" where
  "gf_inv a = fst (fold (\<lambda>i (r, base).
       (if drop_bit i 254 AND 1 \<noteq> (0 :: u32) then gf_mul r base else r, gf_mul base base)) [0..<8] (1, a))"

section \<open>Linearity\<close>

definition xtime :: "byte \<Rightarrow> byte" where
  "xtime a = push_bit 1 a XOR (if bit a 7 then 0x1b else 0)"

lemma low_bit: "(b :: byte) AND 1 = (if bit b 0 then 1 else 0)"
  by (simp add: and_one_eq bit_0 mod_2_eq_odd)

lemma mask_bit: "0 - (b AND 1 :: byte) = (if bit b 0 then - 1 else 0)"
  unfolding low_bit by simp

lemma gf_mul_step_xtime:
  "gf_mul_step i (p, a, b) = (p XOR (if bit b 0 then a else 0), xtime a, drop_bit 1 b)"
  unfolding gf_mul_step_def Let_def prod.case mask_bit [of b] mask_bit [of "drop_bit 7 a"]
  by (simp add: xtime_def bit_drop_bit_eq)

primrec xtimes :: "nat \<Rightarrow> byte \<Rightarrow> byte" where
  "xtimes 0 a = a"
| "xtimes (Suc n) a = xtime (xtimes n a)"

primrec gf_sum :: "nat \<Rightarrow> byte \<Rightarrow> byte \<Rightarrow> byte" where
  "gf_sum 0 a b = 0"
| "gf_sum (Suc n) a b = gf_sum n a b XOR (if bit b n then xtimes n a else 0)"

lemma gf_mul_fold: "fold gf_mul_step [0..<n] (0, a, b) = (gf_sum n a b, xtimes n a, drop_bit n b)"
  by (induction n) (simp_all add: gf_mul_step_xtime bit_simps)

lemma gf_mul_sum: "gf_mul a b = gf_sum 8 a b"
  by (simp add: gf_mul_def gf_mul_fold)

lemma xtime_xor: "xtime (a XOR b) = xtime a XOR xtime b"
  by (auto simp: xtime_def bit_xor_iff push_bit_xor ac_simps)

lemma xtime_0 [simp]: "xtime 0 = 0"
  by (simp add: xtime_def)

lemma xtimes_xor: "xtimes n (a XOR b) = xtimes n a XOR xtimes n b"
  by (induction n) (simp_all add: xtime_xor)

lemma xtimes_0 [simp]: "xtimes n 0 = 0"
  by (induction n) simp_all

lemma gf_sum_xor_left: "gf_sum n (a XOR b) c = gf_sum n a c XOR gf_sum n b c"
  by (induction n) (simp_all add: xtimes_xor ac_simps)

lemma gf_sum_xor_right: "gf_sum n a (b XOR c) = gf_sum n a b XOR gf_sum n a c"
  by (induction n) (auto simp: bit_xor_iff ac_simps xor.left_commute)

lemma gf_mul_distrib:
  "gf_mul (a XOR b) c = gf_mul a c XOR gf_mul b c" "gf_mul a (b XOR c) = gf_mul a b XOR gf_mul a c"
  by (simp_all add: gf_mul_sum gf_sum_xor_left gf_sum_xor_right)

lemma gf_mul_zero [simp]: "gf_mul 0 a = 0" "gf_mul a 0 = 0"
proof -
  have "gf_sum n 0 a = 0" "gf_sum n a 0 = 0" for n by (induction n) simp_all
  then show "gf_mul 0 a = 0" "gf_mul a 0 = 0" by (simp_all add: gf_mul_sum)
qed

lemma gf_mul_if: "gf_mul a (if P then b else 0) = (if P then gf_mul a b else 0)"
  by simp

text \<open>A byte is the sum of its bits.\<close>

primrec bit_sum :: "nat \<Rightarrow> byte \<Rightarrow> byte" where
  "bit_sum 0 b = 0"
| "bit_sum (Suc n) b = bit_sum n b XOR (if bit b n then push_bit n 1 else 0)"

lemma bit_bit_sum: "bit (bit_sum n b) k \<longleftrightarrow> k < n \<and> bit b k"
  by (induction n) (auto simp: bit_simps less_Suc_eq dest: bit_imp_le_length)

lemma bit_sum_8: "bit_sum 8 b = b"
  by (rule bit_word_eqI) (simp add: bit_bit_sum)

lemma linear_bit_sum:
  assumes "\<And>a b. f (a XOR b) = f a XOR f b" "f 0 = 0" "\<And>a b. g (a XOR b) = g a XOR g b" "g 0 = (0 :: byte)"
    "\<And>i. i < 8 \<Longrightarrow> f (push_bit i 1) = g (push_bit i 1)"
  shows "f b = g (b :: byte)"
proof -
  have "f (bit_sum n b) = g (bit_sum n b)" if "n \<le> 8" for n
    using that assms by (induction n) auto
  from this [of 8] show ?thesis by (simp add: bit_sum_8)
qed

lemma linear_sum:
  fixes f :: "byte \<Rightarrow> byte"
  assumes "\<And>a b. f (a XOR b) = f a XOR f b" "f 0 = 0"
  shows "f b = fold (\<lambda>i s. s XOR (if bit b i then f (push_bit i 1) else 0)) [0..<8] 0"
proof -
  have "f (bit_sum n b) = fold (\<lambda>i s. s XOR (if bit b i then f (push_bit i 1) else 0)) [0..<n] 0" for n
    by (induction n) (simp_all add: assms)
  from this [of 8] show ?thesis by (simp add: bit_sum_8)
qed

text \<open>The basis is the sequence of powers of \<open>x\<close>.\<close>

lemma xtime_basis:
  "xtime 1 = 2" "xtime 2 = 4" "xtime 4 = 8" "xtime 8 = 16" "xtime 16 = 32" "xtime 32 = 64" "xtime 64 = 128"
  by (simp_all add: xtime_def)

lemma push_bit_xtimes: "i < 8 \<Longrightarrow> push_bit i (1 :: byte) = xtimes i 1"
  by (auto simp: numeral_eq_Suc less_Suc_eq xtime_basis [unfolded numeral_eq_Suc])

lemma gf_mul_one: "gf_mul a 1 = a" "gf_mul 1 a = a"
proof -
  have "gf_sum n a 1 = (if n = 0 then 0 else a)" for n
    by (induction n) (auto simp: bit_1_iff)
  then show "gf_mul a 1 = a" by (simp add: gf_mul_sum)
  have "gf_sum n 1 a = bit_sum n a" if "n \<le> 8" for n
    using that by (induction n) (simp_all add: push_bit_xtimes del: push_bit_of_1)
  then show "gf_mul 1 a = a" by (simp add: gf_mul_sum bit_sum_8)
qed

lemma xtimes_xtime: "xtimes n (xtime a) = xtime (xtimes n a)"
  by (induction n) simp_all

lemma xtimes_add: "xtimes (m + n) a = xtimes m (xtimes n a)"
  by (induction m) simp_all

lemma gf_mul_xtimes_left: "gf_mul (xtimes n a) b = xtimes n (gf_mul a b)"
proof -
  have "gf_sum k (xtime a) b = xtime (gf_sum k a b)" for k a
    by (induction k) (simp_all add: xtimes_xtime xtime_xor)
  then have "gf_mul (xtime a) b = xtime (gf_mul a b)" for a by (simp add: gf_mul_sum)
  then show ?thesis by (induction n) simp_all
qed

lemma gf_mul_basis: "j < 8 \<Longrightarrow> i < 8 \<Longrightarrow> gf_mul (push_bit i 1) (push_bit j 1) = xtimes (i + j) 1"
  by (simp add: push_bit_xtimes gf_mul_xtimes_left gf_mul_one xtimes_add del: push_bit_of_1)

lemma gf_mul_comm: "gf_mul a b = gf_mul b a"
proof -
  have "gf_mul (push_bit i 1) b = gf_mul b (push_bit i 1)" if "i < 8" for i
    by (rule linear_bit_sum [of "\<lambda>b. gf_mul (push_bit i 1) b" "\<lambda>b. gf_mul b (push_bit i 1)"])
      (simp_all add: gf_mul_distrib gf_mul_basis that add.commute del: push_bit_of_1)
  then show ?thesis
    by (intro linear_bit_sum [of "\<lambda>a. gf_mul a b" "\<lambda>a. gf_mul b a" a]) (simp_all add: gf_mul_distrib del: push_bit_of_1)
qed

lemma gf_mul_assoc: "gf_mul (gf_mul a b) c = gf_mul a (gf_mul b c)"
proof -
  have "gf_mul a (gf_sum n b c) = gf_sum n (gf_mul a b) c" for n
    by (induction n) (simp_all add: gf_mul_distrib gf_mul_comm [of a] gf_mul_xtimes_left)
  then show ?thesis by (simp add: gf_mul_sum)
qed

section \<open>Inverses\<close>

definition gf_sq :: "byte \<Rightarrow> byte" where
  "gf_sq a = gf_mul a a"

lemma gf_sq_xor: "gf_sq (a XOR b) = gf_sq a XOR gf_sq b"
  by (simp add: gf_sq_def gf_mul_distrib gf_mul_comm [of b a] ac_simps)

lemma gf_sq_0 [simp]: "gf_sq 0 = 0"
  by (simp add: gf_sq_def)

lemma gf_sq_mul: "gf_sq (gf_mul a b) = gf_mul (gf_sq a) (gf_sq b)"
  unfolding gf_sq_def by (metis gf_mul_assoc gf_mul_comm)

text \<open>\<open>x^256 = x\<close>, hence, squaring being linear and multiplicative, \<open>a^256 = a\<close> for every \<open>a\<close>.\<close>

lemma gf_sq_chain:
  "gf_sq 2 = 4" "gf_sq 4 = 0x10" "gf_sq 0x10 = 0x1b" "gf_sq 0x1b = 0x5e" "gf_sq 0x5e = 0xe4" "gf_sq 0xe4 = 0x4d"
  "gf_sq 0x4d = 0xfa" "gf_sq 0xfa = 2"
  by code_simp+

lemma frobenius_x: "(gf_sq ^^ 8) 2 = 2"
  by (simp add: eval_nat_numeral gf_sq_chain [unfolded eval_nat_numeral])

lemma gf_sq_1 [simp]: "gf_sq 1 = 1"
  by (simp add: gf_sq_def gf_mul_one)

lemma frobenius: "(gf_sq ^^ 8) a = a"
proof -
  have add: "(gf_sq ^^ n) (a XOR b) = (gf_sq ^^ n) a XOR (gf_sq ^^ n) b" "(gf_sq ^^ n) 0 = 0" for n a b
    by (induction n) (simp_all add: gf_sq_xor)
  have mul: "(gf_sq ^^ n) (gf_mul a b) = gf_mul ((gf_sq ^^ n) a) ((gf_sq ^^ n) b)" "(gf_sq ^^ n) 1 = 1" for n a b
    by (induction n) (simp_all add: gf_sq_mul)
  have two: "xtime a = gf_mul 2 a" for a
    using gf_mul_xtimes_left [of "Suc 0" 1 a] by (simp add: xtime_basis gf_mul_one)
  have "(gf_sq ^^ 8) (xtimes i 1) = xtimes i 1" for i
    by (induction i) (simp_all only: xtimes.simps mul two frobenius_x)
  then show ?thesis
    by (intro linear_bit_sum [of "gf_sq ^^ 8" "\<lambda>a. a" a]) (simp_all add: add push_bit_xtimes del: push_bit_of_1)
qed

text \<open>The squares of the basis, and with them the equation \<open>a^2 = a\<close> bit by bit.\<close>

lemma gf_sq_basis:
  "gf_sq 8 = 64" "gf_sq 16 = 0x1b" "gf_sq 32 = 0x6c" "gf_sq 64 = 0xab" "gf_sq 128 = 0x9a"
  by code_simp+

lemma gf_sq_bits: "gf_sq a = fold (\<lambda>i s. s XOR (if bit a i then [1, 4, 16, 64, 0x1b, 0x6c, 0xab, 0x9a] ! i else 0)) [0..<8] 0"
  unfolding linear_sum [of gf_sq a, OF gf_sq_xor gf_sq_0]
  by (rule fold_cong) (auto simp: eval_nat_numeral less_Suc_eq gf_sq_basis gf_sq_chain)

lemma gf_idempotent:
  assumes "gf_sq a = a"
  shows "a = 0 \<or> a = 1"
proof -
  have e: "bit a k = bit (fold (\<lambda>i s. s XOR (if bit a i then [1, 4, 16, 64, 0x1b, 0x6c, 0xab, 0x9a] ! i else 0)) [0..<8] (0 :: byte)) k" for k
    using assms gf_sq_bits [of a] by simp
  have up: "[0..<8] = [0 :: nat, 1, 2, 3, 4, 5, 6, 7]" by (simp add: upt_rec)
  have step: "bit (s XOR (if P then c else 0)) k = (bit s k \<noteq> (P \<and> bit c k))" for s c :: byte and P k
    by (simp add: bit_xor_iff)
  note f = e [unfolded up fold.simps comp_def id_def step, simplified]
  have b6: "\<not> bit a 6" using f [of 5] by (cases "bit a 5"; cases "bit a 6"; cases "bit a 7"; simp)
  have b4: "\<not> bit a 4" using f [of 0] b6 by (cases "bit a 0"; cases "bit a 4"; simp)
  have b27: "bit a 2 = bit a 7" using f [of 4] b4 by (cases "bit a 2"; cases "bit a 7"; simp)
  have b17: "bit a 1 = bit a 7" using f [of 1] b4 b6 by (cases "bit a 1"; cases "bit a 7"; simp)
  have b5: "\<not> bit a 5" using f [of 2] b27 b17 by (cases "bit a 2"; cases "bit a 5"; simp)
  have b3: "\<not> bit a 3" using f [of 6] b5 b6 by (cases "bit a 3"; simp)
  have b7: "\<not> bit a 7" using f [of 3] b3 b4 b5 b6 by (cases "bit a 7"; simp)
  have "\<not> bit a k" if "k \<noteq> 0" for k
  proof (cases "k < 8")
    case True
    then have "k \<in> {1, 2, 3, 4, 5, 6, 7}" using that by auto
    then show ?thesis using b3 b4 b5 b6 b7 b27 b17 by auto
  next
    case False
    then show ?thesis using bit_imp_le_length [of a k] by auto
  qed
  then have nz: "k \<noteq> 0 \<Longrightarrow> \<not> bit a k" for k by blast
  have "bit a k = bit (if bit a 0 then 1 else 0 :: byte) k" for k
    using nz [of k] by (cases "k = 0") (simp_all add: bit_1_iff)
  then have "a = (if bit a 0 then 1 else 0)" by (intro bit_word_eqI)
  then show ?thesis by (metis (full_types))
qed

text \<open>The loop of \<open>gf_inv\<close> multiplies the second to the eighth element of the sequence of squares.\<close>

lemma gf_inv_loop:
  "fold (\<lambda>i (r, base). (if drop_bit i 254 AND 1 \<noteq> (0 :: u32) then gf_mul r base else r, gf_mul base base)) [1..<Suc n] (1, gf_sq a) =
     (fold (\<lambda>i r. gf_mul r ((gf_sq ^^ i) a)) [1..<Suc n] 1, (gf_sq ^^ Suc n) a)" if "n \<le> 7"
proof -
  have odd: "drop_bit i 254 AND 1 \<noteq> (0 :: u32)" if "1 \<le> i" "i \<le> 7" for i
  proof -
    have "i \<in> {1, 2, 3, 4, 5, 6, 7}" using that by auto
    then show ?thesis by auto
  qed
  show ?thesis using that
  proof (induction n)
    case (Suc n)
    then show ?case using odd [of "Suc n"] by (simp add: gf_sq_def [symmetric])
  qed simp
qed

lemma gf_inv_squares: "gf_inv a = fold (\<lambda>i r. gf_mul r ((gf_sq ^^ i) a)) [1..<8] 1"
proof -
  have up: "[0..<8] = 0 # [1..<Suc 7]" by (simp add: upt_rec)
  have "gf_inv a = fst (fold (\<lambda>i (r, base). (if drop_bit i 254 AND 1 \<noteq> (0 :: u32) then gf_mul r base else r, gf_mul base base))
      [1..<Suc 7] (1, gf_sq a))"
    unfolding gf_inv_def up by (simp add: gf_sq_def del: upt_Suc)
  then show ?thesis unfolding gf_inv_loop [OF order_refl] by simp
qed

text \<open>\<open>y = a * gf_inv a\<close> is the product of all eight squares; \<open>y * a = a\<close> and \<open>y * y = y\<close>.\<close>

lemma gf_inv_right:
  assumes "a \<noteq> 0"
  shows "gf_mul a (gf_inv a) = 1"
proof -
  define s where "s n = (gf_sq ^^ n) a" for n
  have sq: "gf_mul (s n) (s n) = s (Suc n)" for n by (simp add: s_def gf_sq_def)
  have s0: "s 0 = a" "s 8 = a" using frobenius [of a] by (simp_all add: s_def)
  define q where "q n = fold (\<lambda>i r. gf_mul r (s i)) [1..<Suc n] 1" for n
  have q: "q 0 = 1" "q (Suc n) = gf_mul (q n) (s (Suc n))" for n by (simp_all add: q_def)
  have qa: "gf_mul (gf_mul (q n) a) a = s (Suc n)" for n
  proof (induction n)
    case 0
    then show ?case using sq [of 0] by (simp add: q s0 gf_mul_one)
  next
    case (Suc n)
    have "gf_mul (gf_mul (q (Suc n)) a) a = gf_mul (gf_mul (gf_mul (q n) a) a) (s (Suc n))"
      unfolding q by (metis gf_mul_assoc gf_mul_comm)
    then show ?case by (simp add: Suc sq)
  qed
  have qq: "gf_mul (gf_mul (q n) (q n)) (s 1) = gf_mul (q n) (s (Suc n))" for n
  proof (induction n)
    case 0
    then show ?case by (simp add: q gf_mul_one)
  next
    case (Suc n)
    have "gf_mul (gf_mul (q (Suc n)) (q (Suc n))) (s 1) =
        gf_mul (gf_mul (gf_mul (q n) (q n)) (s 1)) (gf_mul (s (Suc n)) (s (Suc n)))"
      unfolding q by (metis gf_mul_assoc gf_mul_comm)
    then show ?case unfolding Suc sq q .
  qed
  define y where "y = gf_mul (q 7) a"
  have y: "gf_mul a (gf_inv a) = y" by (simp add: y_def q_def gf_inv_squares s_def gf_mul_comm)
  have ya: "gf_mul y a = a" using qa [of 7] s0 by (simp add: y_def)
  have "gf_sq y = gf_mul (gf_mul (q 7) (q 7)) (s 1)"
    using sq [of 0] unfolding y_def gf_sq_def s0 by (metis gf_mul_assoc gf_mul_comm One_nat_def)
  also have "\<dots> = y" using qq [of 7] s0 by (simp add: y_def)
  finally have "y = 0 \<or> y = 1" by (rule gf_idempotent)
  then show ?thesis using ya assms y by auto
qed

lemma gf_inv_0 [simp]: "gf_inv 0 = 0"
proof -
  have "(gf_sq ^^ n) 0 = 0" for n by (induction n) simp_all
  then show ?thesis by (simp add: gf_inv_squares upt_rec)
qed

section \<open>The field\<close>

typedef gf256 = "UNIV :: byte set"
  morphisms gf_byte Gf by blast

setup_lifting type_definition_gf256

instantiation gf256 :: field
begin

lift_definition zero_gf256 :: gf256 is 0 .

lift_definition one_gf256 :: gf256 is 1 .

lift_definition plus_gf256 :: "gf256 \<Rightarrow> gf256 \<Rightarrow> gf256" is "(XOR)" .

lift_definition minus_gf256 :: "gf256 \<Rightarrow> gf256 \<Rightarrow> gf256" is "(XOR)" .

lift_definition uminus_gf256 :: "gf256 \<Rightarrow> gf256" is "\<lambda>a. a" .

lift_definition times_gf256 :: "gf256 \<Rightarrow> gf256 \<Rightarrow> gf256" is gf_mul .

lift_definition inverse_gf256 :: "gf256 \<Rightarrow> gf256" is gf_inv .

definition divide_gf256 :: "gf256 \<Rightarrow> gf256 \<Rightarrow> gf256" where
  "divide_gf256 a b = a * inverse b"

instance
proof
  fix a b c :: gf256
  show "a * b * c = a * (b * c)" by transfer (rule gf_mul_assoc)
  show "a * b = b * a" by transfer (rule gf_mul_comm)
  show "1 * a = a" by transfer (rule gf_mul_one)
  show "(a + b) * c = a * c + b * c" by transfer (rule gf_mul_distrib)
  show "a + b + c = a + (b + c)" by transfer (rule xor.assoc)
  show "a + b = b + a" by transfer (rule xor.commute)
  show "0 + a = a" by transfer simp
  show "- a + a = 0" by transfer simp
  show "a - b = a + - b" by transfer simp
  show "(0 :: gf256) \<noteq> 1" by transfer simp
  show "inverse a * a = 1" if "a \<noteq> 0" using that by transfer (metis gf_inv_right gf_mul_comm)
  show "a div b = a * inverse b" by (rule divide_gf256_def)
  show "inverse (0 :: gf256) = 0" by transfer simp
qed

end

lemma Gf_simps:
  "Gf (a XOR b) = Gf a + Gf b" "Gf (gf_mul a b) = Gf a * Gf b" "Gf (gf_inv a) = inverse (Gf a)" "Gf 0 = 0" "Gf 1 = 1"
  by (simp_all add: plus_gf256.abs_eq times_gf256.abs_eq inverse_gf256.abs_eq zero_gf256_def one_gf256_def)

lemma Gf_inject_iff: "Gf a = Gf b \<longleftrightarrow> a = b"
  by (simp add: Gf_inject)

lemma Gf_eq_0 [simp]: "Gf a = 0 \<longleftrightarrow> a = 0"
  by (metis Gf_inject_iff Gf_simps(4))

lemma gf256_minus: "(a :: gf256) - b = a + b"
  by transfer simp

lemma gf256_uminus: "- (a :: gf256) = a"
  by transfer simp

end
