(* ===== verification/Lagrange.thy ===== *)
theory Lagrange
  imports Main
begin

text \<open>
  Polynomials over a field as coefficient lists, evaluated by Horner's rule, and interpolation. This is
  what the correctness and the secrecy of the sharing scheme of \<open>src/src/Common/Shamir.c\<close> rest on.
\<close>

primrec horner :: "'a::field list \<Rightarrow> 'a \<Rightarrow> 'a" where
  "horner [] z = 0"
| "horner (c # cs) z = c + z * horner cs z"

text \<open>\<open>f\<close> is a polynomial with \<open>n\<close> coefficients.\<close>

definition poly_lt :: "nat \<Rightarrow> ('a::field \<Rightarrow> 'a) \<Rightarrow> bool" where
  "poly_lt n f \<longleftrightarrow> (\<exists>cs. length cs = n \<and> (\<forall>z. f z = horner cs z))"

lemma poly_lt_horner [intro]: "length cs = n \<Longrightarrow> poly_lt n (horner cs)"
  by (auto simp: poly_lt_def)

lemma horner_zero: "horner cs 0 = (case cs of [] \<Rightarrow> 0 | c # _ \<Rightarrow> c)"
  by (cases cs) simp_all

lemma horner_append_zeros: "horner (cs @ replicate k 0) z = horner cs z"
proof -
  have "horner (replicate k 0) z = 0" by (induction k) simp_all
  then show ?thesis by (induction cs) simp_all
qed

lemma horner_add: "length cs = length ds \<Longrightarrow> horner (map2 (+) cs ds) z = horner cs z + horner ds z"
  by (induction cs ds rule: list_induct2) (simp_all add: algebra_simps)

lemma horner_scale: "horner (map ((*) a) cs) z = a * horner cs z"
  by (induction cs) (simp_all add: algebra_simps)

lemma poly_lt_mono: "poly_lt n f \<Longrightarrow> n \<le> m \<Longrightarrow> poly_lt m f"
  unfolding poly_lt_def by (metis horner_append_zeros le_add_diff_inverse length_append length_replicate)

lemma poly_lt_add: "poly_lt n f \<Longrightarrow> poly_lt n g \<Longrightarrow> poly_lt n (\<lambda>z. f z + g z)"
  unfolding poly_lt_def by (metis horner_add length_map length_zip min.idem)

lemma poly_lt_scale: "poly_lt n f \<Longrightarrow> poly_lt n (\<lambda>z. a * f z)"
  unfolding poly_lt_def by (metis horner_scale length_map)

lemma poly_lt_const: "poly_lt (Suc 0) (\<lambda>z. a)"
  unfolding poly_lt_def by (rule exI [of _ "[a]"]) simp

lemma poly_lt_shift: "poly_lt n f \<Longrightarrow> poly_lt (Suc n) (\<lambda>z. z * f z)"
proof -
  assume "poly_lt n f"
  then obtain cs where "length cs = n" "\<And>z. f z = horner cs z" by (auto simp: poly_lt_def)
  then show ?thesis unfolding poly_lt_def by (intro exI [of _ "0 # cs"]) simp
qed

lemma poly_lt_linear: "poly_lt n f \<Longrightarrow> poly_lt (Suc n) (\<lambda>z. (a + b * z) * f z)"
proof -
  assume f: "poly_lt n f"
  have "poly_lt (Suc n) (\<lambda>z. a * f z + b * (z * f z))"
    by (intro poly_lt_add poly_lt_scale poly_lt_shift f poly_lt_mono [OF f]) simp
  then show ?thesis by (simp add: algebra_simps)
qed

lemma poly_lt_0: "poly_lt n (\<lambda>z. 0)"
  unfolding poly_lt_def by (intro exI [of _ "replicate n 0"]) (simp add: horner_append_zeros [of "[]", simplified])

lemma poly_lt_sum: "finite S \<Longrightarrow> (\<And>i. i \<in> S \<Longrightarrow> poly_lt n (f i)) \<Longrightarrow> poly_lt n (\<lambda>z. \<Sum>i\<in>S. f i z)"
  by (induction S rule: finite_induct) (simp_all add: poly_lt_0 poly_lt_add)

lemma poly_lt_prod: "finite S \<Longrightarrow> poly_lt (Suc (card S)) (\<lambda>z. \<Prod>i\<in>S. a i + b i * z)"
proof (induction S rule: finite_induct)
  case empty
  then show ?case by (simp add: poly_lt_const)
next
  case (insert x F)
  then show ?case by (simp add: poly_lt_linear)
qed

section \<open>Roots\<close>

lemma horner_divide:
  "\<exists>ds. length ds = length cs - 1 \<and> (\<forall>z. horner cs z = (z - a) * horner ds z + horner cs a)"
proof (induction cs)
  case (Cons c cs)
  then obtain ds where ds: "length ds = length cs - 1" "\<And>z. horner cs z = (z - a) * horner ds z + horner cs a" by blast
  show ?case
  proof (cases cs)
    case Nil
    then show ?thesis by (intro exI [of _ "[]"]) simp
  next
    case (Cons d es)
    show ?thesis
    proof (intro exI conjI allI)
      show "length (horner cs a # ds) = length (c # cs) - 1" using ds(1) Cons by simp
      show "horner (c # cs) z = (z - a) * horner (horner cs a # ds) z + horner (c # cs) a" for z
        by (simp only: horner.simps ds(2) [of z]) (simp add: algebra_simps)
    qed
  qed
qed simp

lemma poly_roots:
  assumes "finite S" "poly_lt (card S) f" "\<And>x. x \<in> S \<Longrightarrow> f x = 0"
  shows "f z = 0"
  using assms
proof (induction S arbitrary: f rule: finite_induct)
  case empty
  then show ?case by (simp add: poly_lt_def)
next
  case (insert a S)
  have "poly_lt (Suc (card S)) f" using insert.prems(1) insert.hyps by simp
  then obtain cs where cs: "length cs = Suc (card S)" "\<And>z. f z = horner cs z" unfolding poly_lt_def by blast
  obtain ds where ds: "length ds = card S" "\<And>z. horner cs z = (z - a) * horner ds z + horner cs a"
    using horner_divide [of cs a] unfolding cs(1) diff_Suc_1 by blast
  have "horner cs a = 0" using insert.prems(2) [of a] cs(2) by simp
  then have f: "f z = (z - a) * horner ds z" for z using cs(2) [of z] ds(2) [of z] by simp
  have "horner ds x = 0" if "x \<in> S" for x
  proof -
    have "(x - a) * horner ds x = 0" using insert.prems(2) [of x] that unfolding f [of x] by simp
    moreover have "x \<noteq> a" using insert.hyps(2) that by auto
    ultimately show ?thesis by simp
  qed
  then have "horner ds z = 0" by (rule insert.IH [OF poly_lt_horner [OF ds(1)]])
  then show ?case unfolding f [of z] by simp
qed

text \<open>Interpolation.\<close>

lemma lagrange:
  assumes "finite S" "poly_lt (card S) f"
  shows "f z = (\<Sum>a\<in>S. f a * (\<Prod>b\<in>S - {a}. (b - z) / (b - a)))"
proof -
  let ?L = "\<lambda>a z. \<Prod>b\<in>S - {a}. (b - z) / (b - a)"
  let ?g = "\<lambda>z. f z + (- 1) * (\<Sum>a\<in>S. f a * ?L a z)"
  have L: "poly_lt (card S) (?L a)" if "a \<in> S" for a
  proof -
    have "poly_lt (Suc (card (S - {a}))) (\<lambda>z. \<Prod>b\<in>S - {a}. b / (b - a) + (- (1 / (b - a))) * z)"
      using assms(1) by (intro poly_lt_prod) simp
    moreover have "Suc (card (S - {a})) = card S" using assms(1) that by (metis card_Suc_Diff1)
    ultimately show ?thesis by (simp add: diff_divide_distrib)
  qed
  have g: "poly_lt (card S) ?g"
    by (intro poly_lt_add assms(2) poly_lt_scale poly_lt_sum assms(1) L)
  have zero: "?g x = 0" if x: "x \<in> S" for x
  proof -
    have "?L a x = (if a = x then 1 else 0)" if "a \<in> S" for a
    proof (cases "a = x")
      case True
      then have "?L a x = (\<Prod>b\<in>S - {a}. 1)" by (intro prod.cong) auto
      then show ?thesis using True by simp
    next
      case False
      then have "?L a x = 0" using x assms(1) by (intro prod_zero bexI [of _ x]) auto
      then show ?thesis using False by simp
    qed
    then have "(\<Sum>a\<in>S. f a * ?L a x) = (\<Sum>a\<in>S. if a = x then f a else 0)"
      by (intro sum.cong) auto
    also have "\<dots> = f x" using assms(1) x by simp
    finally show ?thesis by simp
  qed
  have "f z = T" if "f z + (- 1) * T = 0" for T using that by simp
  from this [OF poly_roots [OF assms(1) g zero]] show ?thesis .
qed

text \<open>Fewer points than coefficients leave the value at zero open: any value can be had with the same
  values at the points.\<close>

lemma poly_any_secret:
  assumes "finite S" "card S < n" "0 \<notin> S" "poly_lt n f"
  shows "\<exists>cs. length cs = n \<and> hd cs = s \<and> (\<forall>x\<in>S. horner cs x = f x)"
proof -
  let ?g = "\<lambda>z. f z + (s - f 0) * (\<Prod>b\<in>S. 1 + (- (1 / b)) * z)"
  have "poly_lt n ?g"
    by (intro poly_lt_add assms(4) poly_lt_scale poly_lt_mono [OF poly_lt_prod]) (use assms in simp_all)
  then obtain cs where cs: "length cs = n" "\<And>z. ?g z = horner cs z" by (auto simp: poly_lt_def)
  have "?g x = f x" if "x \<in> S" for x
  proof -
    have "x \<noteq> 0" using that assms(3) by auto
    then have "(\<Prod>b\<in>S. 1 + (- (1 / b)) * x) = 0"
      using assms(1) that by (intro prod_zero bexI [of _ x]) simp_all
    then show ?thesis by simp
  qed
  moreover have "?g 0 = s" by simp
  moreover have "hd cs = horner cs 0" using cs(1) assms(2) by (cases cs) simp_all
  ultimately show ?thesis using cs by metis
qed

text \<open>A polynomial with as many roots as coefficients has no coefficient but zero.\<close>

lemma horner_zero_coeffs:
  assumes "finite S" "length cs \<le> card S" "\<forall>x\<in>S. horner cs x = 0"
  shows "\<forall>c\<in>set cs. c = 0"
  using assms
proof (induction cs arbitrary: S)
  case (Cons c cs)
  have "horner (c # cs) 0 = 0"
  proof -
    have "poly_lt (card S) (horner (c # cs))"
      by (rule poly_lt_mono [OF poly_lt_horner [OF refl] Cons.prems(2)])
    then show ?thesis using poly_roots [OF Cons.prems(1)] Cons.prems(3) by blast
  qed
  then have c: "c = 0" by simp
  have "\<forall>x\<in>S - {0}. horner cs x = 0" using Cons.prems(3) c by auto
  moreover have "length cs \<le> card (S - {0})" using Cons.prems(1,2) by (auto simp: card_Diff_singleton_if)
  ultimately show ?case using Cons.IH [of "S - {0}"] Cons.prems(1) c by simp
qed simp

lemma horner_unique:
  assumes "finite S" "length cs = length ds" "length cs \<le> card S" "\<forall>x\<in>S. horner cs x = horner ds x"
  shows "cs = ds"
proof -
  let ?e = "map2 (+) cs (map ((*) (- 1)) ds)"
  have "\<forall>x\<in>S. horner ?e x = 0" using assms(2,4) by (simp add: horner_add horner_scale)
  then have "\<forall>c\<in>set ?e. c = 0" by (intro horner_zero_coeffs [OF assms(1)]) (use assms(2,3) in simp_all)
  then have "?e ! i = 0" if "i < length cs" for i using that assms(2) by (metis length_map length_zip min.idem nth_mem)
  then show ?thesis using assms(2) by (intro nth_equalityI) simp_all
qed

end
