(* ===== verification/Shamir.thy ===== *)
theory Shamir
  imports Gf256 Lagrange
begin

text \<open>
  Threshold sharing, \<open>src/src/Common/Shamir.c\<close>, over the field of the theory \<open>Gf256\<close>. \<open>shares\<close> is an
  array of structures; loops are folds over the loop counter. The random bytes are an argument, as in the code.
\<close>

section \<open>The code\<close>

record ShamirShare =
  sh_x :: byte
  sh_y :: bytes
  sh_len :: int

definition checksum_bit :: "nat \<Rightarrow> u32 \<Rightarrow> u32" where
  "checksum_bit b crc = drop_bit 1 crc XOR (0xEDB88320 AND (0 - (crc AND 1)))"

definition shamir_secret_checksum :: "bytes \<Rightarrow> int \<Rightarrow> u32" where
  "shamir_secret_checksum secret len =
     fold (\<lambda>i crc. fold checksum_bit [0..<8] (crc XOR ucast (secret ! i))) [0..<nat len] 0xFFFFFFFF XOR 0xFFFFFFFF"

definition gf_poly_eval :: "bytes \<Rightarrow> nat \<Rightarrow> byte \<Rightarrow> byte" where
  "gf_poly_eval coef degree x =
     fold (\<lambda>i r. gf_mul r x XOR coef ! i) (rev [0..<degree]) (coef ! degree)"

definition share_header :: "int \<Rightarrow> nat \<Rightarrow> ShamirShare list \<Rightarrow> ShamirShare list" where
  "share_header secret_len s shares = shares[s := (shares ! s)\<lparr>sh_x := of_nat (s + 1), sh_len := secret_len\<rparr>]"

definition share_coef :: "bytes \<Rightarrow> bytes \<Rightarrow> nat \<Rightarrow> nat \<Rightarrow> nat \<Rightarrow> bytes" where
  "share_coef secret random_bytes secret_len threshold b =
     secret ! b # map (\<lambda>k. random_bytes ! ((k - 1) * secret_len + b)) [1..<threshold]"

definition share_byte :: "bytes \<Rightarrow> nat \<Rightarrow> nat \<Rightarrow> nat \<Rightarrow> ShamirShare list \<Rightarrow> ShamirShare list" where
  "share_byte coef threshold b s shares =
     shares[s := (shares ! s)\<lparr>sh_y := (sh_y (shares ! s))[b := gf_poly_eval coef (threshold - 1) (sh_x (shares ! s))]\<rparr>]"

definition shamir_split :: "bytes ptr \<Rightarrow> int \<Rightarrow> int \<Rightarrow> int \<Rightarrow> bytes ptr \<Rightarrow> ShamirShare list ptr \<Rightarrow> int \<times> ShamirShare list ptr" where
  "shamir_split secret secret_len threshold n_shares random_bytes shares_out =
     (if secret = NULL \<or> random_bytes = NULL \<or> shares_out = NULL then (- 1, shares_out)
      else if secret_len < 1 \<or> secret_len > 64 then (- 1, shares_out)
      else if threshold < 2 \<or> n_shares < threshold \<or> n_shares > 16 then (- 1, shares_out)
      else let shares = fold (share_header secret_len) [0..<nat n_shares] (the shares_out);
               shares = fold (\<lambda>b shares.
                 let coef = share_coef (the secret) (the random_bytes) (nat secret_len) (nat threshold) b
                 in fold (share_byte coef (nat threshold) b) [0..<nat n_shares] shares) [0..<nat secret_len] shares
           in (0, Some shares))"

definition shares_bad :: "ShamirShare list \<Rightarrow> nat \<Rightarrow> int \<Rightarrow> bool" where
  "shares_bad shares count len =
     list_ex (\<lambda>i. sh_len (shares ! i) \<noteq> len \<or> sh_x (shares ! i) = 0 \<or>
                  list_ex (\<lambda>j. sh_x (shares ! i) = sh_x (shares ! j)) [i + 1..<count]) [0..<count]"

definition lagrange_basis :: "ShamirShare list \<Rightarrow> nat \<Rightarrow> nat \<Rightarrow> byte" where
  "lagrange_basis shares count i =
     (let (num, den) = fold (\<lambda>j (num, den).
            if j = i then (num, den)
            else (gf_mul num (sh_x (shares ! j)), gf_mul den (sh_x (shares ! j) XOR sh_x (shares ! i)))) [0..<count] (1, 1)
      in gf_mul num (gf_inv den))"

definition combine_byte :: "ShamirShare list \<Rightarrow> nat \<Rightarrow> nat \<Rightarrow> byte" where
  "combine_byte shares count b =
     fold (\<lambda>i acc. acc XOR gf_mul (sh_y (shares ! i) ! b) (lagrange_basis shares count i)) [0..<count] 0"

definition shamir_combine :: "ShamirShare list ptr \<Rightarrow> int \<Rightarrow> bytes ptr \<Rightarrow> int ptr \<Rightarrow> int \<times> bytes ptr \<times> int ptr" where
  "shamir_combine shares count secret_out secret_len_out =
     (if shares = NULL \<or> secret_out = NULL \<or> count < 2 \<or> count > 16 then (- 1, secret_out, secret_len_out)
      else let sh = the shares; len = sh_len (sh ! 0)
           in if len < 1 \<or> len > 64 then (- 1, secret_out, secret_len_out)
              else if shares_bad sh (nat count) len then (- 1, secret_out, secret_len_out)
              else let out = fold (\<lambda>b out. out[b := combine_byte sh (nat count) b]) [0..<nat len] (the secret_out)
                   in (0, Some out, map_option (\<lambda>_. len) secret_len_out))"

section \<open>Polynomials\<close>

lemma gf_poly_eval_Cons: "gf_poly_eval (c # cs) (Suc d) x = gf_mul (gf_poly_eval cs d x) x XOR c"
proof -
  have "rev [0..<Suc d] = map Suc (rev [0..<d]) @ [0]"
    by (simp add: upt_conv_Cons rev_map [symmetric] map_Suc_upt del: upt_Suc)
  then show ?thesis by (simp add: gf_poly_eval_def fold_map comp_def del: upt_Suc)
qed

lemma gf_poly_eval_horner: "length coef = Suc d \<Longrightarrow> Gf (gf_poly_eval coef d x) = horner (map Gf coef) (Gf x)"
proof (induction d arbitrary: coef)
  case 0
  then obtain c where "coef = [c]" by (auto simp: length_Suc_conv)
  then show ?case by (simp add: gf_poly_eval_def)
next
  case (Suc d)
  then obtain c cs where "coef = c # cs" "length cs = Suc d" by (auto simp: length_Suc_conv)
  then show ?case using Suc.IH [of cs] by (simp add: gf_poly_eval_Cons Gf_simps algebra_simps)
qed

lemma length_share_coef [simp]: "0 < t \<Longrightarrow> length (share_coef s r n t b) = t"
  by (simp add: share_coef_def)

section \<open>Splitting\<close>

lemma share_header_all:
  assumes "n \<le> length shares"
  shows "length (fold (share_header len) [0..<n] shares) = length shares \<and>
    (\<forall>s<n. fold (share_header len) [0..<n] shares ! s = (shares ! s)\<lparr>sh_x := of_nat (s + 1), sh_len := len\<rparr>)"
proof -
  have "share_header len = (\<lambda>s shares. shares[s := (\<lambda>s x. x\<lparr>sh_x := of_nat (s + 1), sh_len := len\<rparr>) s (shares ! s)])"
    by (simp add: share_header_def fun_eq_iff)
  then show ?thesis using assms fold_update_map [OF assms, of "\<lambda>s x. x\<lparr>sh_x := of_nat (s + 1), sh_len := len\<rparr>"]
    by (simp add: nth_append)
qed

lemma share_byte_all:
  assumes "n \<le> length shares"
  shows "length (fold (share_byte coef t b) [0..<n] shares) = length shares \<and>
    (\<forall>s<n. fold (share_byte coef t b) [0..<n] shares ! s =
       (shares ! s)\<lparr>sh_y := (sh_y (shares ! s))[b := gf_poly_eval coef (t - 1) (sh_x (shares ! s))]\<rparr>)"
proof -
  let ?f = "\<lambda>(s :: nat) x. x\<lparr>sh_y := (sh_y x)[b := gf_poly_eval coef (t - 1) (sh_x x)]\<rparr>"
  have "share_byte coef t b = (\<lambda>s shares. shares[s := ?f s (shares ! s)])"
    by (simp add: share_byte_def fun_eq_iff)
  then show ?thesis using assms fold_update_map [OF assms, of ?f] by (simp add: nth_append)
qed

text \<open>The bytes of share \<open>s\<close>.\<close>

definition share_ys :: "bytes \<Rightarrow> bytes \<Rightarrow> nat \<Rightarrow> nat \<Rightarrow> nat \<Rightarrow> bytes" where
  "share_ys secret rnd t k s = map (\<lambda>b. gf_poly_eval (share_coef secret rnd (length secret) t b) (t - 1) (of_nat (s + 1))) [0..<k]"

lemma share_bytes_all:
  assumes "n \<le> length shares" "\<forall>s<n. sh_x (shares ! s) = of_nat (s + 1)" "\<forall>s<n. k \<le> length (sh_y (shares ! s))"
  shows "let r = fold (\<lambda>b shares. fold (share_byte (share_coef secret rnd (length secret) t b) t b) [0..<n] shares) [0..<k] shares
    in length r = length shares \<and>
      (\<forall>s<n. r ! s = (shares ! s)\<lparr>sh_y := share_ys secret rnd t k s @ drop k (sh_y (shares ! s))\<rparr>)"
  using assms(3)
proof (induction k)
  case 0
  then show ?case by (simp add: share_ys_def)
next
  case (Suc k)
  define r where "r = fold (\<lambda>b shares. fold (share_byte (share_coef secret rnd (length secret) t b) t b) [0..<n] shares) [0..<k] shares"
  have r: "length r = length shares"
    "\<And>s. s < n \<Longrightarrow> r ! s = (shares ! s)\<lparr>sh_y := share_ys secret rnd t k s @ drop k (sh_y (shares ! s))\<rparr>"
    using Suc.IH Suc.prems by (simp_all add: r_def Let_def Suc_leD)
  have upd: "(share_ys secret rnd t k s @ drop k (sh_y (shares ! s)))[k := v] =
      share_ys secret rnd t k s @ v # drop (Suc k) (sh_y (shares ! s))" if "s < n" for s v
  proof -
    have "k < length (sh_y (shares ! s))" using Suc.prems that by (simp add: Suc_le_eq)
    then show ?thesis by (simp add: share_ys_def list_update_append Cons_nth_drop_Suc [symmetric])
  qed
  show ?case
    using share_byte_all [of n r "share_coef secret rnd (length secret) t k" t k] assms(1,2) r upd
    by (simp add: Let_def r_def [symmetric]) (simp add: share_ys_def)
qed

definition split_ok :: "bytes \<Rightarrow> int \<Rightarrow> int \<Rightarrow> bool" where
  "split_ok secret t n \<longleftrightarrow> 1 \<le> length secret \<and> length secret \<le> 64 \<and> 2 \<le> t \<and> t \<le> n \<and> n \<le> 16"

lemma shamir_split_spec:
  assumes "split_ok secret t n" "nat n \<le> length shares" "\<forall>s<nat n. length (sh_y (shares ! s)) = 64"
  obtains shares' where "shamir_split (Some secret) (int (length secret)) t n (Some rnd) (Some shares) = (0, Some shares')"
    "length shares' = length shares"
    "\<And>s. s < nat n \<Longrightarrow> shares' ! s = \<lparr>sh_x = of_nat (s + 1),
       sh_y = share_ys secret rnd (nat t) (length secret) s @ drop (length secret) (sh_y (shares ! s)), sh_len = int (length secret)\<rparr>"
proof -
  define hs where "hs = fold (share_header (int (length secret))) [0..<nat n] shares"
  have hs: "length hs = length shares" "\<And>s. s < nat n \<Longrightarrow> hs ! s = (shares ! s)\<lparr>sh_x := of_nat (s + 1), sh_len := int (length secret)\<rparr>"
    using share_header_all [OF assms(2), of "int (length secret)"] by (simp_all add: hs_def)
  define r where "r = fold (\<lambda>b shares. fold (share_byte (share_coef secret rnd (length secret) (nat t) b) (nat t) b) [0..<nat n] shares)
      [0..<length secret] hs"
  have r: "length r = length shares" "\<And>s. s < nat n \<Longrightarrow> r ! s = (hs ! s)\<lparr>sh_y := share_ys secret rnd (nat t) (length secret) s @
       drop (length secret) (sh_y (hs ! s))\<rparr>"
    using share_bytes_all [of "nat n" hs "length secret" secret rnd "nat t"] assms hs
    by (simp_all add: r_def Let_def split_ok_def)
  have "secret \<noteq> []" using assms(1) by (auto simp: split_ok_def)
  then show thesis
  proof (intro that)
    show "shamir_split (Some secret) (int (length secret)) t n (Some rnd) (Some shares) = (0, Some r)"
      using assms(1) \<open>secret \<noteq> []\<close> by (simp add: shamir_split_def split_ok_def Let_def r_def hs_def)
  qed (use r hs in \<open>simp_all add: ShamirShare.defs\<close>)
qed

section \<open>Combining\<close>

lemma list_ex_upt: "list_ex P [a..<b] \<longleftrightarrow> (\<exists>i. a \<le> i \<and> i < b \<and> P i)"
  by (auto simp: list_ex_iff)

lemma shares_bad_iff:
  "\<not> shares_bad shares n len \<longleftrightarrow>
     (\<forall>i<n. sh_len (shares ! i) = len \<and> sh_x (shares ! i) \<noteq> 0) \<and> inj_on (\<lambda>i. sh_x (shares ! i)) {..<n}"
  unfolding shares_bad_def list_ex_upt inj_on_def
  by (auto simp: Suc_le_eq) (metis linorder_neqE_nat)

lemma lagrange_basis_field:
  "Gf (lagrange_basis shares n i) =
    (\<Prod>j\<in>{..<n} - {i}. Gf (sh_x (shares ! j)) / (Gf (sh_x (shares ! j)) - Gf (sh_x (shares ! i))))"
proof -
  let ?x = "\<lambda>j. Gf (sh_x (shares ! j))"
  let ?f = "\<lambda>j (num, den). if j = i then (num, den)
    else (gf_mul num (sh_x (shares ! j)), gf_mul den (sh_x (shares ! j) XOR sh_x (shares ! i)))"
  have "\<exists>num den. fold ?f [0..<k] (1, 1) = (num, den) \<and> Gf num = (\<Prod>j\<in>{..<k} - {i}. ?x j) \<and>
      Gf den = (\<Prod>j\<in>{..<k} - {i}. ?x j - ?x i)" for k
  proof (induction k)
    case 0
    then show ?case by (simp add: Gf_simps)
  next
    case (Suc k)
    then obtain num den where s: "fold ?f [0..<k] (1, 1) = (num, den)" "Gf num = (\<Prod>j\<in>{..<k} - {i}. ?x j)"
      "Gf den = (\<Prod>j\<in>{..<k} - {i}. ?x j - ?x i)" by blast
    have "{..<Suc k} - {i} = (if k = i then {..<k} - {i} else insert k ({..<k} - {i}))" by auto
    then show ?case using s by (simp add: Gf_simps gf256_minus ac_simps)
  qed
  then obtain num den where s: "fold ?f [0..<n] (1, 1) = (num, den)" "Gf num = (\<Prod>j\<in>{..<n} - {i}. ?x j)"
    "Gf den = (\<Prod>j\<in>{..<n} - {i}. ?x j - ?x i)" by blast
  have "lagrange_basis shares n i = gf_mul num (gf_inv den)" by (simp add: lagrange_basis_def s(1))
  then show ?thesis by (simp add: Gf_simps s(2,3) prod_dividef divide_inverse [symmetric])
qed

lemma combine_byte_field:
  "Gf (combine_byte shares n b) = (\<Sum>i<n. Gf (sh_y (shares ! i) ! b) *
    (\<Prod>j\<in>{..<n} - {i}. Gf (sh_x (shares ! j)) / (Gf (sh_x (shares ! j)) - Gf (sh_x (shares ! i)))))"
proof -
  have "Gf (fold (\<lambda>i acc. acc XOR gf_mul (sh_y (shares ! i) ! b) (lagrange_basis shares n i)) [0..<k] 0) =
      (\<Sum>i<k. Gf (sh_y (shares ! i) ! b) * Gf (lagrange_basis shares n i))" for k
    by (induction k) (simp_all add: Gf_simps)
  then show ?thesis by (simp add: combine_byte_def lagrange_basis_field)
qed

text \<open>Shares on a polynomial with at most as many coefficients as there are shares give its value at zero.\<close>

lemma combine_byte_poly:
  assumes "inj_on (\<lambda>i. sh_x (shares ! i)) {..<n}" "length cs \<le> n"
    "\<And>i. i < n \<Longrightarrow> Gf (sh_y (shares ! i) ! b) = horner cs (Gf (sh_x (shares ! i)))"
  shows "Gf (combine_byte shares n b) = horner cs 0"
proof -
  define x where "x i = Gf (sh_x (shares ! i))" for i
  have inj: "inj_on x {..<n}" using assms(1) by (simp add: inj_on_def x_def Gf_inject_iff)
  have "poly_lt (card (x ` {..<n})) (horner cs)"
    using assms(2) by (intro poly_lt_mono [OF poly_lt_horner [OF refl]]) (simp add: card_image inj)
  from lagrange [OF _ this, of 0]
  have "horner cs 0 = (\<Sum>a\<in>x ` {..<n}. horner cs a * (\<Prod>b\<in>x ` {..<n} - {a}. b / (b - a)))" by simp
  also have "\<dots> = (\<Sum>i<n. horner cs (x i) * (\<Prod>b\<in>x ` {..<n} - {x i}. b / (b - x i)))"
    by (simp add: sum.reindex [OF inj])
  also have "\<dots> = (\<Sum>i<n. horner cs (x i) * (\<Prod>j\<in>{..<n} - {i}. x j / (x j - x i)))"
  proof (rule sum.cong [OF refl])
    fix i assume i: "i \<in> {..<n}"
    have img: "x ` {..<n} - {x i} = x ` ({..<n} - {i})" using inj i by (auto simp: inj_on_def)
    show "horner cs (x i) * (\<Prod>b\<in>x ` {..<n} - {x i}. b / (b - x i)) =
        horner cs (x i) * (\<Prod>j\<in>{..<n} - {i}. x j / (x j - x i))"
      unfolding img by (subst prod.reindex [OF inj_on_subset [OF inj Diff_subset]]) simp
  qed
  also have "\<dots> = Gf (combine_byte shares n b)"
    unfolding combine_byte_field by (rule sum.cong) (simp_all add: assms(3) x_def)
  finally show ?thesis by simp
qed

lemma shamir_combine_spec:
  assumes "2 \<le> length shares" "length shares \<le> 16" "1 \<le> len" "len \<le> 64" "\<not> shares_bad shares (length shares) (int len)"
    "len \<le> length out"
  shows "shamir_combine (Some shares) (int (length shares)) (Some out) lo =
    (0, Some (map (combine_byte shares (length shares)) [0..<len] @ drop len out), map_option (\<lambda>_. int len) lo)"
proof -
  have "0 < length shares" using assms(1) by linarith
  then have "sh_len (shares ! 0) = int len" using assms(5) unfolding shares_bad_iff by blast
  then show ?thesis
    using assms fold_update_map [OF assms(6), of "\<lambda>b _. combine_byte shares (length shares) b"]
    by (simp add: shamir_combine_def Let_def)
qed

section \<open>Splitting and combining\<close>

lemma horner_share_coef_0: "0 < t \<Longrightarrow> horner (map Gf (share_coef secret rnd n t b)) 0 = Gf (secret ! b)"
  by (simp add: share_coef_def)

lemma share_ys_horner:
  "b < k \<Longrightarrow> 0 < t \<Longrightarrow> Gf (share_ys secret rnd t k s ! b) = horner (map Gf (share_coef secret rnd (length secret) t b)) (Gf (of_nat (s + 1)))"
  using gf_poly_eval_horner [of "share_coef secret rnd (length secret) t b" "t - 1" "of_nat (s + 1)"]
  by (simp add: share_ys_def)

lemma share_x:
  assumes "i < 16"
  shows "(of_nat (i + 1) :: byte) \<noteq> 0" "j < 16 \<Longrightarrow> (of_nat (i + 1) :: byte) = of_nat (j + 1) \<longleftrightarrow> i = j"
proof -
  have u: "unat (of_nat (k + 1) :: byte) = k + 1" if "k < 16" for k
    using that by (simp add: unat_of_nat take_bit_nat_eq_self del: of_nat_add of_nat_Suc)
  show "(of_nat (i + 1) :: byte) \<noteq> 0" using u [OF assms] by (metis add_is_0 one_neq_zero unat_0)
  show "(of_nat (i + 1) :: byte) = of_nat (j + 1) \<longleftrightarrow> i = j" if "j < 16"
    using u [OF assms] u [OF that] by (metis add_right_imp_eq)
qed

lemma shamir_combine_shares:
  assumes "split_ok secret t n" "distinct idx" "set idx \<subseteq> {..<nat n}" "nat t \<le> length idx" "length secret \<le> length out"
    "\<And>s. s < nat n \<Longrightarrow> shares ! s = \<lparr>sh_x = of_nat (s + 1),
       sh_y = share_ys secret rnd (nat t) (length secret) s @ r s, sh_len = int (length secret)\<rparr>"
  shows "shamir_combine (Some (map ((!) shares) idx)) (int (length idx)) (Some out) lo =
    (0, Some (secret @ drop (length secret) out), map_option (\<lambda>_. int (length secret)) lo)"
proof -
  let ?sh = "map ((!) shares) idx"
  have n16: "nat n \<le> 16" "2 \<le> nat t" using assms(1) by (auto simp: split_ok_def)
  have lt: "idx ! i < nat n" if "i < length idx" for i using assms(3) that nth_mem by blast
  have sh: "?sh ! i = \<lparr>sh_x = of_nat (idx ! i + 1),
       sh_y = share_ys secret rnd (nat t) (length secret) (idx ! i) @ r (idx ! i), sh_len = int (length secret)\<rparr>"
    if "i < length idx" for i using assms(6) [OF lt [OF that]] that by simp
  have inj: "inj_on (\<lambda>i. sh_x (?sh ! i)) {..<length idx}"
    using sh lt n16 assms(2) share_x(2) by (auto simp: inj_on_def nth_eq_iff_index_eq simp del: nth_map of_nat_add of_nat_Suc)
      (metis less_le_trans nth_eq_iff_index_eq)
  have good: "\<not> shares_bad ?sh (length ?sh) (int (length secret))"
    unfolding shares_bad_iff using inj sh lt share_x(1) n16 by (auto simp del: nth_map of_nat_add of_nat_Suc) (metis less_le_trans)+
  have byte: "combine_byte ?sh (length idx) b = secret ! b" if b: "b < length secret" for b
  proof -
    let ?cs = "map Gf (share_coef secret rnd (length secret) (nat t) b)"
    have "Gf (combine_byte ?sh (length idx) b) = horner ?cs 0"
    proof (rule combine_byte_poly [OF inj])
      show "length ?cs \<le> length idx" using assms(4) n16 by simp
      show "Gf (sh_y (?sh ! i) ! b) = horner ?cs (Gf (sh_x (?sh ! i)))" if "i < length idx" for i
        using share_ys_horner [OF b, of "nat t"] n16 b sh [OF that]
        by (simp add: nth_append share_ys_def del: nth_map of_nat_add of_nat_Suc)
    qed
    then show ?thesis using n16 by (simp add: horner_share_coef_0 Gf_inject_iff)
  qed
  have card: "length idx \<le> 16"
    using card_mono [OF _ assms(3)] n16 distinct_card [OF assms(2)] by simp
  have "map (combine_byte ?sh (length idx)) [0..<length secret] = secret"
    by (rule nth_equalityI) (simp_all add: byte)
  then show ?thesis
    using shamir_combine_spec [of ?sh "length secret" out lo] good card assms(1,4,5) n16 by (auto simp: split_ok_def)
qed

section \<open>Secrecy\<close>

lemma share_coef_random:
  assumes "b < n" "0 < n" "\<And>k. k < t \<Longrightarrow> k \<noteq> 0 \<Longrightarrow> rnd ! ((k - 1) * n + b) = gf_byte (cs ! k)" "length cs = t" "2 \<le> t"
    "hd cs = Gf (secret ! b)"
  shows "map Gf (share_coef secret rnd n t b) = cs"
proof (rule nth_equalityI)
  show "length (map Gf (share_coef secret rnd n t b)) = length cs" using assms(4,5) by simp
  fix k assume "k < length (map Gf (share_coef secret rnd n t b))"
  then have k: "k < t" using assms(5) by simp
  show "map Gf (share_coef secret rnd n t b) ! k = cs ! k"
  proof (cases k)
    case 0
    then show ?thesis using assms(4-6) by (cases cs) (simp_all add: share_coef_def)
  next
    case (Suc j)
    then show ?thesis using k assms(3) [of k] by (simp add: share_coef_def gf_byte_inverse)
  qed
qed

text \<open>One share less than the threshold: for every other secret there is exactly one choice of the
  random bytes that gives the same shares.\<close>

lemma shamir_secrecy_unique:
  assumes "split_ok secret t n" "length secret' = length secret" "I \<subseteq> {..<16}" "Suc (card I) = nat t"
  shows "\<exists>!rnd'. length rnd' = (nat t - 1) * length secret \<and>
    (\<forall>s\<in>I. share_ys secret' rnd' (nat t) (length secret) s = share_ys secret rnd (nat t) (length secret) s)"
proof -
  let ?n = "length secret" and ?t = "nat t"
  define x where "x s = Gf (of_nat (s + 1))" for s :: nat
  have fin: "finite I" using assms(3) finite_subset by blast
  have n: "0 < ?n" "2 \<le> ?t" using assms(1) by (auto simp: split_ok_def)
  have inj: "inj_on x I" using assms(3) share_x(2) by (auto simp: inj_on_def x_def Gf_inject_iff simp del: of_nat_add of_nat_Suc)
  have x0: "0 \<notin> x ` I" using assms(3) share_x(1) by (auto simp: x_def simp del: of_nat_add of_nat_Suc)
  have cardS: "card (x ` I) < ?t" using assms(4) by (simp add: card_image inj)
  let ?c = "\<lambda>b. map Gf (share_coef secret rnd ?n ?t b)"
  have "\<exists>cs. length cs = ?t \<and> hd cs = Gf (secret' ! b) \<and> (\<forall>y\<in>x ` I. horner cs y = horner (?c b) y)" for b
    by (rule poly_any_secret [OF _ cardS x0]) (use fin n in \<open>auto intro!: poly_lt_horner\<close>)
  then obtain cs where cs: "\<And>b. length (cs b) = ?t" "\<And>b. hd (cs b) = Gf (secret' ! b)"
    "\<And>b y. y \<in> x ` I \<Longrightarrow> horner (cs b) y = horner (?c b) y" by metis
  define rnd' where "rnd' = map (\<lambda>i. gf_byte (cs (i mod ?n) ! (i div ?n + 1))) [0..<(?t - 1) * ?n]"
  have idx: "(k - 1) * ?n + b < (?t - 1) * ?n" if "k < ?t" "k \<noteq> 0" "b < ?n" for k b
  proof -
    have "Suc (k - 1) * ?n \<le> (?t - 1) * ?n" using that by (intro mult_le_mono1) simp
    then show ?thesis using that unfolding mult_Suc by linarith
  qed
  have coef: "map Gf (share_coef secret' rnd' ?n ?t b) = cs b" if "b < ?n" for b
    by (rule share_coef_random) (use that n cs idx in \<open>simp_all add: rnd'_def\<close>)
  have eq_iff: "share_ys secret' r ?t ?n s = share_ys secret rnd ?t ?n s \<longleftrightarrow>
      (\<forall>b<?n. horner (map Gf (share_coef secret' r ?n ?t b)) (x s) = horner (?c b) (x s))" for r s
  proof -
    have ev: "Gf (gf_poly_eval (share_coef z q ?n ?t b) (?t - 1) (of_nat (s + 1))) = horner (map Gf (share_coef z q ?n ?t b)) (x s)" for z q b
      unfolding x_def by (rule gf_poly_eval_horner) (use n in simp)
    show ?thesis
      unfolding share_ys_def assms(2) map_eq_conv Gf_inject_iff [symmetric] ev by auto
  qed
  show ?thesis
  proof (rule ex1I [of _ rnd'])
    show "length rnd' = (?t - 1) * ?n \<and> (\<forall>s\<in>I. share_ys secret' rnd' ?t ?n s = share_ys secret rnd ?t ?n s)"
      unfolding eq_iff using coef cs(3) by (auto simp: rnd'_def)
  next
    fix r assume r: "length r = (?t - 1) * ?n \<and> (\<forall>s\<in>I. share_ys secret' r ?t ?n s = share_ys secret rnd ?t ?n s)"
    have coef_eq: "map Gf (share_coef secret' r ?n ?t b) = cs b" if b: "b < ?n" for b
    proof (rule horner_unique [of "insert 0 (x ` I)"])
      show "\<forall>y\<in>insert 0 (x ` I). horner (map Gf (share_coef secret' r ?n ?t b)) y = horner (cs b) y"
      proof
        fix y assume "y \<in> insert 0 (x ` I)"
        then consider "y = 0" | s where "s \<in> I" "y = x s" by auto
        then show "horner (map Gf (share_coef secret' r ?n ?t b)) y = horner (cs b) y"
        proof cases
          case 1
          then show ?thesis using n by (simp add: horner_share_coef_0 flip: coef [OF b])
        next
          case 2
          then show ?thesis using r b cs(3) unfolding eq_iff by simp
        qed
      qed
    qed (use fin n cs x0 assms(4) in \<open>simp_all add: card_image inj\<close>)
    show "r = rnd'"
    proof (rule nth_equalityI)
      show "length r = length rnd'" using r by (simp add: rnd'_def)
      fix i assume "i < length r"
      then have i: "i < (?t - 1) * ?n" using r by simp
      define k b where "k = i div ?n + 1" and "b = i mod ?n"
      have kb: "b < ?n" "k < ?t" "k \<noteq> 0" "(k - 1) * ?n + b = i"
        using i n less_mult_imp_div_less [OF i] by (simp_all add: k_def b_def)
      have "share_coef secret' r ?n ?t b ! k = share_coef secret' rnd' ?n ?t b ! k"
        using coef_eq [OF kb(1)] coef [OF kb(1)] kb(2) n by (metis Gf_inject_iff length_map length_share_coef nth_map zero_less_numeral less_le_trans)
      moreover have "share_coef secret' q ?n ?t b ! k = q ! i" for q
        using kb by (cases k) (simp_all add: share_coef_def)
      ultimately show "r ! i = rnd' ! i" by simp
    qed
  qed
qed

end
