(* ===== verification/ShamirMac.thy ===== *)
theory ShamirMac
  imports Hmac Shamir
begin

text \<open>
  The authentication tag of a share, \<open>src/src/Common/ShamirMac.c\<close>: HMAC-SHA-256 over a domain, the abscissa, the
  length and the ordinates. Tags of several shares stand in one array, 32 bytes each.
\<close>

section \<open>The code\<close>

definition SM_DOMAIN :: bytes where
  "SM_DOMAIN = cstr ''VCSMshare1''"

definition sm_hmac :: "bytes \<Rightarrow> bytes \<Rightarrow> bytes \<Rightarrow> bytes" where
  "sm_hmac key m1 m2 =
     (let (k0, ctx) =
            (if length key > 64
             then let (d, ctx) = sha256_end (sha256_hash key (of_nat (length key)) (sha256_begin ctx_uninit))
                  in (d @ zeros 32, ctx)
             else (key @ zeros (64 - length key), ctx_uninit));
          pad = map (\<lambda>b. b XOR 0x36) k0;
          ctx = sha256_hash pad 64 (sha256_begin ctx);
          ctx = (if length m1 > 0 then sha256_hash m1 (of_nat (length m1)) ctx else ctx);
          ctx = (if length m2 > 0 then sha256_hash m2 (of_nat (length m2)) ctx else ctx);
          (inner, ctx) = sha256_end ctx;
          pad = map (\<lambda>b. b XOR 0x5c) k0;
          ctx = sha256_hash inner 32 (sha256_hash pad 64 (sha256_begin ctx))
      in fst (sha256_end ctx))"

definition ShamirShareMac :: "bytes \<Rightarrow> ShamirShare \<Rightarrow> bytes" where
  "ShamirShareMac macKey share =
     (let len = sh_len share;
          len = (if len < 0 then 0 else len);
          len = (if len > 64 then 64 else len);
          hdr = SM_DOMAIN @ [sh_x share, of_int len]
      in sm_hmac (take 32 macKey) hdr (take (nat len) (sh_y share)))"

definition ShamirShareVerify :: "bytes \<Rightarrow> ShamirShare \<Rightarrow> bytes \<Rightarrow> int" where
  "ShamirShareVerify macKey share tag =
     (let calc = ShamirShareMac macKey share;
          d = fold (\<lambda>i d. d OR (calc ! i XOR tag ! i)) [0..<32] 0
      in if d = 0 then 1 else 0)"

definition ShamirMacAll :: "bytes \<Rightarrow> ShamirShare list \<Rightarrow> nat \<Rightarrow> bytes \<Rightarrow> bytes" where
  "ShamirMacAll macKey shares count tags_out =
     fold (\<lambda>i tags. store_at (i * 32) (ShamirShareMac macKey (shares ! i)) tags) [0..<count] tags_out"

definition ShamirVerifyAll :: "bytes \<Rightarrow> ShamirShare list \<Rightarrow> nat \<Rightarrow> bytes \<Rightarrow> int" where
  "ShamirVerifyAll macKey shares count tags =
     fold (\<lambda>i ok. ok AND ShamirShareVerify macKey (shares ! i) (slice (i * 32) 32 tags)) [0..<count] 1"

section \<open>What the tags certify\<close>

definition share_message :: "ShamirShare \<Rightarrow> bytes" where
  "share_message share = SM_DOMAIN @ [sh_x share, of_int (max 0 (min 64 (sh_len share)))] @
     take (nat (max 0 (min 64 (sh_len share)))) (sh_y share)"

lemma ShamirShareMac_hmac:
  assumes "length macKey = 32"
  shows "ShamirShareMac macKey share = hmac_sha256 macKey (share_message share)"
proof -
  have len: "(let len = sh_len share; len = (if len < 0 then 0 else len) in if len > 64 then 64 else len) = max 0 (min 64 (sh_len share))"
    by (simp add: Let_def max_def min_def)
  have "sm_hmac (take 32 macKey) (SM_DOMAIN @ [sh_x share, of_int l]) (take (nat l) (sh_y share)) =
      hmac_sha256 macKey ((SM_DOMAIN @ [sh_x share, of_int l]) @ take (nat l) (sh_y share))" if "l \<le> 64" for l
    unfolding sm_hmac_def
    by (subst hmac_two_parts) (use that assms in \<open>auto simp: SM_DOMAIN_def min_def\<close>)
  from this [of "max 0 (min 64 (sh_len share))"] show ?thesis
    using len by (simp add: ShamirShareMac_def share_message_def Let_def)
qed

lemma share_message_inject:
  assumes "share_message s = share_message t" "1 \<le> sh_len s" "sh_len s \<le> 64" "1 \<le> sh_len t" "sh_len t \<le> 64"
  shows "sh_x s = sh_x t \<and> sh_len s = sh_len t \<and> take (nat (sh_len s)) (sh_y s) = take (nat (sh_len t)) (sh_y t)"
proof -
  have e: "sh_x s = sh_x t" "(of_int (sh_len s) :: byte) = of_int (sh_len t)"
    "take (nat (sh_len s)) (sh_y s) = take (nat (sh_len t)) (sh_y t)"
    using assms by (simp_all add: share_message_def)
  have "uint (of_int (sh_len s) :: byte) = sh_len s" "uint (of_int (sh_len t) :: byte) = sh_len t"
    using assms(2-5) by (simp_all add: uint_word_of_int)
  then show ?thesis using e by metis
qed

lemma length_ShamirShareMac: "length macKey = 32 \<Longrightarrow> length (ShamirShareMac macKey share) = 32"
  by (simp add: ShamirShareMac_hmac length_hmac_sha256)

lemma ShamirShareVerify_iff:
  assumes "length macKey = 32" "length tag = 32"
  shows "ShamirShareVerify macKey share tag = (if tag = hmac_sha256 macKey (share_message share) then 1 else 0)"
  unfolding ShamirShareVerify_def Let_def
    fold_or_diff [OF length_ShamirShareMac [OF assms(1)] assms(2)]
  using ShamirShareMac_hmac [OF assms(1)] by auto

lemma verify_fold:
  assumes "\<forall>i\<in>set is. f i = (if P i then 1 else 0 :: int)" "ok = 1 \<or> ok = 0"
  shows "fold (\<lambda>i ok. ok AND f i) is ok = (if ok = 1 \<and> (\<forall>i\<in>set is. P i) then 1 else 0)"
  using assms by (induction "is" arbitrary: ok) auto

lemma ShamirVerifyAll_iff:
  assumes "length macKey = 32" "32 * count \<le> length tags"
  shows "ShamirVerifyAll macKey shares count tags =
    (if \<forall>i<count. slice (i * 32) 32 tags = hmac_sha256 macKey (share_message (shares ! i)) then 1 else 0)"
proof -
  have "\<forall>i\<in>set [0..<count]. ShamirShareVerify macKey (shares ! i) (slice (i * 32) 32 tags) =
     (if slice (i * 32) 32 tags = hmac_sha256 macKey (share_message (shares ! i)) then 1 else 0)"
    using assms by (intro ballI ShamirShareVerify_iff) auto
  from verify_fold [OF this, of 1] show ?thesis by (simp add: ShamirVerifyAll_def atLeast0LessThan)
qed

lemma ShamirMacAll_slices:
  assumes "length macKey = 32" "32 * count \<le> length tags"
  shows "length (ShamirMacAll macKey shares count tags) = length tags \<and>
    (\<forall>i<count. slice (i * 32) 32 (ShamirMacAll macKey shares count tags) = hmac_sha256 macKey (share_message (shares ! i)))"
  using assms(2)
proof (induction count)
  case 0
  then show ?case by (simp add: ShamirMacAll_def)
next
  case (Suc n)
  let ?t = "ShamirMacAll macKey shares n tags"
  have IH: "length ?t = length tags" "\<forall>i<n. slice (i * 32) 32 ?t = hmac_sha256 macKey (share_message (shares ! i))"
    using Suc by simp_all
  have step: "ShamirMacAll macKey shares (Suc n) tags = store_at (n * 32) (ShamirShareMac macKey (shares ! n)) ?t"
    by (simp add: ShamirMacAll_def)
  have l: "length (ShamirShareMac macKey (shares ! n)) = 32" by (rule length_ShamirShareMac [OF assms(1)])
  have "slice (i * 32) 32 (store_at (n * 32) (ShamirShareMac macKey (shares ! n)) ?t) = slice (i * 32) 32 ?t" if "i < n" for i
    using that Suc.prems IH(1) by (intro slice_store_before) simp_all
  moreover have "slice (n * 32) 32 (store_at (n * 32) (ShamirShareMac macKey (shares ! n)) ?t) = ShamirShareMac macKey (shares ! n)"
    using Suc.prems IH(1) l by (intro slice_store_same) simp_all
  ultimately show ?case
    using IH Suc.prems l unfolding step by (simp add: length_store_at less_Suc_eq ShamirShareMac_hmac [OF assms(1)])
qed

end
