(* ===== verification/Bch.thy ===== *)
theory Bch
  imports Prelude
begin

text \<open>
  Checksums that divide by a polynomial over GF(32): the interface that the two loops \<open>sc_polymod\<close> and
  \<open>ms32_polymod\<close> of \<open>src/src/Common/ShareCode.c\<close> share. \<open>step\<close> is one round of the register without the
  symbol that is added to it, \<open>w\<close> the number of symbols in the register. The round is additive, shifts when
  there is room, stays within the register and loses nothing.
\<close>

definition fits :: "nat \<Rightarrow> 'a::len word \<Rightarrow> bool" where
  "fits k x \<longleftrightarrow> take_bit (5 * k) x = x"

lemma fits_iff: "fits k (x :: 'a::len word) \<longleftrightarrow> (\<forall>i. bit x i \<longrightarrow> i < 5 * k)"
  unfolding fits_def bit_eq_iff bit_take_bit_iff by (metis bit_imp_possible_bit)

lemma fits_0 [simp]: "fits k 0"
  by (simp add: fits_def)

lemma fits_xor: "fits k x \<Longrightarrow> fits k y \<Longrightarrow> fits k (x XOR y)"
  by (simp add: fits_def)

lemma fits_mono: "fits k x \<Longrightarrow> k \<le> l \<Longrightarrow> fits l x"
  unfolding fits_iff by (meson le_less_trans less_le_trans mult_le_mono2)

definition symbol :: "byte \<Rightarrow> bool" where
  "symbol v \<longleftrightarrow> (\<forall>i. bit v i \<longrightarrow> i < 5)"

lemma symbol_0 [simp]: "symbol 0"
  by (simp add: symbol_def)

lemma symbol_xor: "symbol u \<Longrightarrow> symbol v \<Longrightarrow> symbol (u XOR v)"
  by (auto simp: symbol_def bit_simps)

lemma fits_symbol: "symbol v \<Longrightarrow> 0 < k \<Longrightarrow> fits k (ucast v :: 'a::len word)"
  unfolding fits_iff symbol_def by (auto simp: bit_simps)

abbreviation symbols :: "bytes \<Rightarrow> bool" where
  "symbols vs \<equiv> \<forall>v\<in>set vs. symbol v"

locale bch =
  fixes step :: "'a::len word \<Rightarrow> 'a word" and w :: nat
  assumes step_xor: "step (x XOR y) = step x XOR step y"
    and step_shift: "fits (w - 1) x \<Longrightarrow> step x = push_bit 5 x"
    and step_fits: "fits w (step x)"
    and step_inj: "fits w x \<Longrightarrow> step x = 0 \<Longrightarrow> x = 0"
    and w_pos: "0 < w" and w_len: "5 * w \<le> LENGTH('a)"
begin

definition run :: "'a word \<Rightarrow> bytes \<Rightarrow> 'a word" where
  "run r vs = fold (\<lambda>v r. step r XOR ucast v) vs r"

lemma run_simps [simp]: "run r [] = r" "run r (v # vs) = run (step r XOR ucast v) vs"
  by (simp_all add: run_def)

lemma run_append: "run r (us @ vs) = run (run r us) vs"
  by (simp add: run_def)

lemma run_xor: "length us = length vs \<Longrightarrow> run r us XOR run s vs = run (r XOR s) (xor_bytes us vs)"
proof (induction us vs arbitrary: r s rule: list_induct2)
  case (Cons x xs y ys)
  have "(step r XOR ucast x) XOR (step s XOR ucast y) = step (r XOR s) XOR (ucast (x XOR y) :: 'a word)"
    by (simp add: step_xor unsigned_xor_eq ac_simps)
  then show ?case using Cons by simp
qed simp

lemma step_0 [simp]: "step 0 = 0"
  using step_xor [of 0 0] by simp

lemma run_zeros: "run r (zeros n) = (step ^^ n) r"
  by (induction n arbitrary: r) (simp_all add: zeros_def funpow_swap1)

lemma run_fits: "fits w r \<Longrightarrow> symbols vs \<Longrightarrow> fits w (run r vs)"
proof (induction vs arbitrary: r)
  case (Cons v vs)
  have "fits w (ucast v :: 'a word)" using Cons.prems w_pos by (simp add: fits_symbol)
  then have "fits w (step r XOR ucast v)" by (rule fits_xor [OF step_fits])
  from Cons.IH [OF this] show ?case using Cons.prems by simp
qed simp

lemma step_pow_inj: "fits w x \<Longrightarrow> (step ^^ n) x = 0 \<Longrightarrow> x = 0"
  by (induction n arbitrary: x) (auto simp: funpow_swap1 step_fits dest: step_inj)

text \<open>Up to \<open>w\<close> symbols fill an empty register one after the other.\<close>

lemma run_fill:
  "symbols vs \<Longrightarrow> length vs \<le> w \<Longrightarrow> fits (length vs) (run 0 vs)"
  "symbols (vs @ [v]) \<Longrightarrow> length vs < w \<Longrightarrow> run 0 (vs @ [v]) = push_bit 5 (run 0 vs) XOR ucast v"
proof -
  have both: "fits (length vs) (run 0 vs) \<and> (\<forall>v. length vs < w \<longrightarrow> run 0 (vs @ [v]) = push_bit 5 (run 0 vs) XOR ucast v)"
    if "symbols vs" "length vs \<le> w" for vs
    using that
  proof (induction vs rule: rev_induct)
    case Nil
    then show ?case using step_shift [of 0] by (simp add: run_append)
  next
    case (snoc v vs)
    have f: "fits (length vs) (run 0 vs)" "run 0 (vs @ [v]) = push_bit 5 (run 0 vs) XOR ucast v"
      using snoc by auto
    have "symbol v" using snoc.prems by simp
    then have fit: "fits (Suc (length vs)) (run 0 (vs @ [v]))"
      using f by (auto simp: fits_iff symbol_def bit_simps)
    have "fits (w - 1) (run 0 (vs @ [v]))" if "Suc (length vs) < w"
      by (rule fits_mono [OF fit]) (use that in simp)
    then show ?case using fit step_shift by (simp add: run_append)
  qed
  show "symbols vs \<Longrightarrow> length vs \<le> w \<Longrightarrow> fits (length vs) (run 0 vs)" using both by blast
  show "symbols (vs @ [v]) \<Longrightarrow> length vs < w \<Longrightarrow> run 0 (vs @ [v]) = push_bit 5 (run 0 vs) XOR ucast v"
    using both [of vs] by simp
qed

definition symbol_at :: "'a word \<Rightarrow> nat \<Rightarrow> byte" where
  "symbol_at p i = ucast (drop_bit (5 * (w - 1 - i)) p AND 31)"

lemma bit_31: "bit (31 :: 'b::len word) j \<longleftrightarrow> j < 5 \<and> j < LENGTH('b)"
proof -
  have "(31 :: 'b word) = mask 5" by (simp add: mask_eq_exp_minus_1)
  then show ?thesis by (metis bit_mask_iff possible_bit_word)
qed

lemma bit_symbol_at: "bit (symbol_at p i) j \<longleftrightarrow> j < 5 \<and> bit p (5 * (w - 1 - i) + j)"
  using w_len w_pos
  by (auto simp only: symbol_at_def bit_ucast_iff bit_and_iff bit_31 bit_drop_bit_eq comp_def possible_bit_word len_num0 len_num1 len_bit0 len_bit1)

lemma symbol_at_symbol: "symbol (symbol_at p i)"
  by (simp add: symbol_def bit_symbol_at)

lemma run_symbols: "fits w p \<Longrightarrow> run 0 (map (symbol_at p) [0..<w]) = p"
proof -
  assume p: "fits w p"
  have "run 0 (map (symbol_at p) [0..<k]) = drop_bit (5 * (w - k)) p" if "k \<le> w" for k
    using that
  proof (induction k)
    case 0
    have "drop_bit (5 * w) p = 0" using p by (auto simp: fits_iff bit_eq_iff bit_simps)
    then show ?case by simp
  next
    case (Suc k)
    have "symbols (map (symbol_at p) [0..<k] @ [symbol_at p k])" using symbol_at_symbol by auto
    from run_fill(2) [OF this] have "run 0 (map (symbol_at p) [0..<Suc k]) =
        push_bit 5 (drop_bit (5 * (w - k)) p) XOR ucast (symbol_at p k)"
      using Suc by simp
    also have "\<dots> = drop_bit (5 * (w - Suc k)) p"
    proof (rule bit_word_eqI)
      fix n assume n: "n < LENGTH('a)"
      have e: "5 * (w - k) = 5 * (w - Suc k) + 5" "w - 1 - k = w - Suc k" using Suc.prems by simp_all
      show "bit (push_bit 5 (drop_bit (5 * (w - k)) p) XOR ucast (symbol_at p k)) n = bit (drop_bit (5 * (w - Suc k)) p) n"
        using n by (cases "n < 5") (auto simp: bit_simps bit_symbol_at e add.assoc bit_byte_ge)
    qed
    finally show ?case .
  qed
  from this [of w] show ?thesis by simp
qed

text \<open>The checksum of the encoder makes the register of the decoder end at the constant.\<close>

lemma checksum_run:
  assumes "fits w r" "symbols vs" "fits w const"
  shows "run r (vs @ map (symbol_at (run r (vs @ zeros w) XOR const)) [0..<w]) = const"
proof -
  let ?p = "run r (vs @ zeros w) XOR const"
  have z: "symbols (zeros w)" by (simp add: zeros_def)
  have "fits w (run r (vs @ zeros w))" by (rule run_fits) (use assms(1,2) z in auto)
  then have "fits w ?p" using assms(3) by (rule fits_xor)
  then have p: "run 0 (map (symbol_at ?p) [0..<w]) = ?p" by (rule run_symbols)
  have "xor_bytes (zeros w) (map (symbol_at ?p) [0..<w]) = map (symbol_at ?p) [0..<w]"
    by (rule nth_equalityI) (simp_all add: nth_xor_bytes zeros_def)
  then have "run (run r vs) (map (symbol_at ?p) [0..<w]) =
      run (run r vs) (zeros w) XOR run 0 (map (symbol_at ?p) [0..<w])"
    using run_xor [of "zeros w" "map (symbol_at ?p) [0..<w]" "run r vs" 0] by simp
  then show ?thesis unfolding p by (simp add: run_append xor.assoc [symmetric])
qed

text \<open>Two strings that differ only within \<open>w\<close> consecutive symbols end in different registers.\<close>

lemma run_fill_nonzero: "symbols vs \<Longrightarrow> length vs \<le> w \<Longrightarrow> run 0 vs = 0 \<Longrightarrow> \<forall>v\<in>set vs. v = 0"
proof (induction vs rule: rev_induct)
  case (snoc v vs)
  have z: "push_bit 5 (run 0 vs) XOR ucast v = 0" using run_fill(2) [of vs v] snoc.prems by simp
  have v: "bit v n \<Longrightarrow> n < 5" for n using snoc.prems(1) by (auto simp: symbol_def)
  have f: "fits (w - 1) (run 0 vs)" using run_fill(1) [of vs] snoc.prems fits_mono by fastforce
  have eq: "bit (push_bit 5 (run 0 vs)) n = bit (ucast v :: 'a word) n" for n
    using z by (simp add: word_xor_zero_iff)
  have "bit v n = bit (0 :: byte) n" for n
    using eq [of n] v [of n] w_pos w_len by (auto simp: bit_simps)
  then have v0: "v = 0" by (simp add: bit_eq_iff)
  have "\<not> bit (run 0 vs) n" for n
  proof
    assume b: "bit (run 0 vs) n"
    then have "n < 5 * (w - 1)" using f by (auto simp: fits_iff)
    moreover have "5 * (w - 1) + 5 \<le> LENGTH('a)" using w_len w_pos by simp
    ultimately show False using b eq [of "n + 5"] v0 by (simp add: bit_simps)
  qed
  then have "run 0 vs = 0" by (simp add: bit_eq_iff)
  then show ?case using snoc v0 by simp
qed simp

lemma run_burst:
  assumes "symbols us" "symbols us'" "length us = length us'" "length us \<le> w" "us \<noteq> us'"
  shows "run r (as @ us @ bs) \<noteq> run r (as @ us' @ bs)"
proof
  assume "run r (as @ us @ bs) = run r (as @ us' @ bs)"
  then have "run (run (run r as) us) bs XOR run (run (run r as) us') bs = 0" by (simp add: run_append)
  then have "run (run (run r as) us XOR run (run r as) us') (xor_bytes bs bs) = 0" by (simp add: run_xor)
  moreover have "xor_bytes bs bs = zeros (length bs)"
    by (rule nth_equalityI) (simp_all add: nth_xor_bytes zeros_def)
  moreover have "run (run r as) us XOR run (run r as) us' = run 0 (xor_bytes us us')"
    using run_xor [OF assms(3), of "run r as" "run r as"] by simp
  ultimately have "(step ^^ length bs) (run 0 (xor_bytes us us')) = 0" by (simp add: run_zeros)
  moreover have s: "symbols (xor_bytes us us')"
  proof
    fix v assume "v \<in> set (xor_bytes us us')"
    then obtain i where "i < length us" "v = us ! i XOR us' ! i"
      using assms(3) by (auto simp: in_set_conv_nth nth_xor_bytes)
    then show "symbol v" using assms(1-3) symbol_xor by simp
  qed
  moreover from this have "fits w (run 0 (xor_bytes us us'))" by (rule run_fits [rotated]) simp
  ultimately have "run 0 (xor_bytes us us') = 0" using step_pow_inj by blast
  from run_fill_nonzero [OF s _ this] have "\<forall>v\<in>set (xor_bytes us us'). v = 0" using assms(3,4) by simp
  then have "us ! i = us' ! i" if "i < length us" for i
  proof -
    have "xor_bytes us us' ! i = 0" using \<open>\<forall>v\<in>set (xor_bytes us us'). v = 0\<close> that assms(3) by simp
    then show ?thesis using that assms(3) by (simp add: nth_xor_bytes word_xor_zero_iff)
  qed
  then show False using assms(3,5) by (metis nth_equalityI)
qed

end

end
