(* ===== verification/Lfsr.thy ===== *)
theory Lfsr
  imports Bch
begin

text \<open>
  The round of the checksum registers of \<open>src/src/Common/ShareCode.c\<close>: the register moves up by one symbol, and
  each bit of the symbol that falls out adds its generator. Such a round gives the interface \<open>bch\<close> as soon as
  the generators fit the register and their lowest symbols are linearly independent.
\<close>

definition lfsr_step :: "nat \<Rightarrow> 'a::len word list \<Rightarrow> 'a word \<Rightarrow> 'a word" where
  "lfsr_step w G x = fold (\<lambda>j c. if bit x (5 * (w - 1) + j) then c XOR G ! j else c) [0..<5] (push_bit 5 (take_bit (5 * (w - 1)) x))"

definition sel :: "bool \<Rightarrow> 'a::len word \<Rightarrow> 'a word" where
  "sel b g = (if b then g else 0)"

lemma sel_simps [simp]: "sel True g = g" "sel False g = 0"
  by (simp_all add: sel_def)

lemma sel_xor: "sel (b \<noteq> c) g = sel b g XOR sel c g"
  by (simp add: sel_def)

definition comb :: "(nat \<Rightarrow> bool) \<Rightarrow> 'a::len word list \<Rightarrow> 'a word" where
  "comb P G = sel (P 0) (G ! 0) XOR (sel (P 1) (G ! 1) XOR (sel (P 2) (G ! 2) XOR (sel (P 3) (G ! 3) XOR sel (P 4) (G ! 4))))"

lemma comb_fold: "fold (\<lambda>j c. if P j then c XOR G ! j else c) [0..<5] a = a XOR comb P G"
proof -
  have "[0..<5] = [0, 1, 2, 3, 4 :: nat]" by (simp add: upt_rec)
  then show ?thesis by (simp add: comb_def sel_def xor.assoc)
qed

lemma comb_xor: "comb (\<lambda>j. P j \<noteq> Q j) G = comb P G XOR comb Q G"
  unfolding comb_def sel_xor by (simp only: ac_simps)

lemma comb_cong: "(\<And>j. j < 5 \<Longrightarrow> P j = Q j) \<Longrightarrow> comb P G = comb Q G"
  by (simp add: comb_def)

lemma comb_none: "comb (\<lambda>j. False) G = 0"
  by (simp add: comb_def)

lemma lfsr_step_comb: "lfsr_step w G x = push_bit 5 (take_bit (5 * (w - 1)) x) XOR comb (\<lambda>j. bit x (5 * (w - 1) + j)) G"
  unfolding lfsr_step_def by (rule comb_fold)

lemma lfsr_step_xor: "lfsr_step w G (x XOR y) = lfsr_step w G x XOR lfsr_step w G y"
  unfolding lfsr_step_comb bit_xor_iff comb_xor push_bit_xor take_bit_xor by (simp only: ac_simps)

lemma take_bit_sel: "take_bit n (sel b g) = sel b (take_bit n g)"
  by (cases b) simp_all

lemma fits_sel: "fits w g \<Longrightarrow> fits w (sel b g)"
  by (cases b) simp_all

locale lfsr =
  fixes G :: "'a::len word list" and w :: nat
  assumes G_fits: "\<forall>j<5. fits w (G ! j)"
    and G_independent: "take_bit 5 (comb P G) = 0 \<Longrightarrow> j < 5 \<Longrightarrow> \<not> P j"
    and pos: "0 < w" and len: "5 * w \<le> LENGTH('a)"
begin

lemma fits_comb: "fits w (comb P G)"
  unfolding comb_def using G_fits by (intro fits_xor fits_sel) simp_all

lemma lfsr_step_shift: "fits (w - 1) x \<Longrightarrow> lfsr_step w G x = push_bit 5 x"
proof -
  assume x: "fits (w - 1) x"
  then have "\<not> bit x (5 * (w - 1) + j)" for j by (auto simp: fits_iff)
  then show ?thesis using x by (simp add: lfsr_step_comb comb_none fits_def)
qed

lemma lfsr_step_fits: "fits w (lfsr_step w G x)"
proof -
  have "fits w (push_bit 5 (take_bit (5 * (w - 1)) x))"
    using pos by (auto simp: fits_iff bit_simps)
  then show ?thesis unfolding lfsr_step_comb by (rule fits_xor [OF _ fits_comb])
qed

lemma lfsr_step_inj:
  assumes x: "fits w x" and 0: "lfsr_step w G x = 0"
  shows "x = 0"
proof -
  have "take_bit 5 (lfsr_step w G x) = take_bit 5 (comb (\<lambda>j. bit x (5 * (w - 1) + j)) G)"
    by (rule bit_word_eqI) (auto simp: lfsr_step_comb bit_simps)
  then have c: "take_bit 5 (comb (\<lambda>j. bit x (5 * (w - 1) + j)) G) = 0" using 0 by simp
  have low: "\<not> bit x (5 * (w - 1) + j)" if "j < 5" for j using G_independent [OF c that] .
  have f: "fits (w - 1) x"
    unfolding fits_iff
  proof (intro allI impI)
    fix i assume i: "bit x i"
    then have "i < 5 * w" using x by (simp add: fits_iff)
    show "i < 5 * (w - 1)"
    proof (rule ccontr)
      assume "\<not> i < 5 * (w - 1)"
      then obtain j where "i = 5 * (w - 1) + j" using le_Suc_ex not_less by blast
      then show False using i low [of j] \<open>i < 5 * w\<close> pos by (cases w) simp_all
    qed
  qed
  then have z: "push_bit 5 x = 0" using lfsr_step_shift 0 by simp
  have "\<not> bit x i" for i
  proof
    assume b: "bit x i"
    then have "i < 5 * (w - 1)" using f by (simp add: fits_iff)
    then have "bit (push_bit 5 x) (i + 5)" using b len pos by (simp add: bit_simps)
    then show False using z by simp
  qed
  then show ?thesis by (simp add: bit_eq_iff)
qed

end

sublocale lfsr \<subseteq> bch "lfsr_step w G" w
  by unfold_locales (rule lfsr_step_xor lfsr_step_shift lfsr_step_fits lfsr_step_inj pos len; assumption?)+

end
