(* ===== verification/ShareCode.thy ===== *)
theory ShareCode
  imports Shamir Lfsr
begin

text \<open>
  Transcribable share strings, \<open>src/src/Common/ShareCode.c\<close>: the bech32m envelope of a share. Characters are
  bytes; a string argument is the bytes up to its terminator. An output array is passed with its old contents; the
  helpers that fill local arrays return the part they fill.
\<close>

section \<open>The code\<close>

definition SC_CHARSET :: bytes where
  "SC_CHARSET = cstr ''qpzry9x8gf2tvdw0s3jn54khce6mua7l''"

definition SC_HRP :: bytes where
  "SC_HRP = cstr ''vcs''"

definition SC_BECH32M_CONST :: u32 where
  "SC_BECH32M_CONST = 0x2bc830a3"

definition SC_GEN :: "u32 list" where
  "SC_GEN = [0x3b6a57b2, 0x26508e6d, 0x1ea119fa, 0x3d4233dd, 0x2a1462b3]"

definition sc_charval :: "byte \<Rightarrow> int" where
  "sc_charval c = (case find (\<lambda>i. SC_CHARSET ! i = c) [0..<32] of Some i \<Rightarrow> int i | None \<Rightarrow> - 1)"

definition sc_polymod :: "bytes \<Rightarrow> u32" where
  "sc_polymod values =
     fold (\<lambda>v chk.
       let b = drop_bit 25 chk;
           chk = push_bit 5 (chk AND 0x1ffffff) XOR ucast v
       in fold (\<lambda>j chk. if drop_bit j b AND 1 \<noteq> 0 then chk XOR SC_GEN ! j else chk) [0..<5] chk) values 1"

definition sc_hrp_expand :: bytes where
  "sc_hrp_expand = map (drop_bit 5) SC_HRP @ [0] @ map (\<lambda>c. c AND 31) SC_HRP"

text \<open>The conversions between groups of 8 and of 5 bits are the same two nested loops, with the sizes and the
  mask swapped: \<open>emit\<close> writes groups of \<open>g\<close> bits while there are enough, \<open>regroup\<close> feeds symbols of
  \<open>k\<close> bits. Both return what has been written; \<open>None\<close> is the return with -1 when the output array is full.\<close>

function emit :: "nat \<Rightarrow> u32 \<Rightarrow> nat \<Rightarrow> u32 \<Rightarrow> nat \<Rightarrow> bytes \<Rightarrow> nat option \<times> bytes" where
  "emit g m cap acc bits out =
     (if bits \<ge> g \<and> g > 0
      then if length out \<ge> cap then (None, out)
           else emit g m cap acc (bits - g) (out @ [ucast (drop_bit (bits - g) acc AND m)])
      else (Some bits, out))"
  by auto
termination
  by (relation "measure (\<lambda>(g, m, cap, acc, bits, out). bits)") auto

declare emit.simps [simp del]

fun regroup :: "nat \<Rightarrow> nat \<Rightarrow> u32 \<Rightarrow> nat \<Rightarrow> bytes \<Rightarrow> u32 \<Rightarrow> nat \<Rightarrow> bytes \<Rightarrow> (u32 \<times> nat) option \<times> bytes" where
  "regroup k g m cap [] acc bits out = (Some (acc, bits), out)"
| "regroup k g m cap (d # ds) acc bits out =
     (let acc = push_bit k acc OR ucast d
      in case emit g m cap acc (bits + k) out of
           (None, out) \<Rightarrow> (None, out)
         | (Some bits, out) \<Rightarrow> regroup k g m cap ds acc bits out)"

definition sc_to5 :: "bytes \<Rightarrow> nat \<Rightarrow> bytes option" where
  "sc_to5 data outCap =
     (case regroup 8 5 31 outCap data 0 0 [] of
        (None, out) \<Rightarrow> None
      | (Some (acc, bits), out) \<Rightarrow>
        if bits > 0
        then if length out \<ge> outCap then None
             else Some (out @ [ucast (push_bit (5 - bits) acc AND 31)])
        else Some out)"

definition sc_from5 :: "bytes \<Rightarrow> nat \<Rightarrow> bytes option" where
  "sc_from5 data outCap =
     (case regroup 5 8 0xff outCap data 0 0 [] of
        (None, out) \<Rightarrow> None
      | (Some (acc, bits), out) \<Rightarrow>
        if bits \<ge> 5 \<or> push_bit (8 - bits) acc AND 0xff \<noteq> 0 then None else Some out)"

text \<open>The bytes written before a failure stay in the caller's array, so they are a result too.\<close>

definition sc_from5_trunc :: "bytes \<Rightarrow> nat \<Rightarrow> int \<times> bytes" where
  "sc_from5_trunc data outCap =
     (case regroup 5 8 0xff outCap data 0 0 [] of
        (None, out) \<Rightarrow> (- 1, out)
      | (Some (acc, bits), out) \<Rightarrow> (if bits \<ge> 5 then - 1 else int (length out), out))"

definition ShareCodeEncode :: "ShamirShare ptr \<Rightarrow> bytes ptr \<Rightarrow> bytes ptr \<Rightarrow> int \<Rightarrow> int \<times> bytes ptr" where
  "ShareCodeEncode share mac out outCap =
     (if share = NULL \<or> out = NULL \<or> sh_len (the share) < 1 \<or> sh_len (the share) > 64 then (- 1, out)
      else let sh = the share;
               payload = [1, sh_x sh, of_int (sh_len sh)] @ take (nat (sh_len sh)) (sh_y sh);
               payload = (case mac of None \<Rightarrow> payload | Some m \<Rightarrow> payload @ take 32 m)
           in case sc_to5 payload 160 of
                None \<Rightarrow> (- 1, out)
              | Some five \<Rightarrow>
                let pm = sc_polymod (sc_hrp_expand @ five @ replicate 6 0) XOR SC_BECH32M_CONST;
                    total = 3 + 1 + int (length five) + 6 + 1
                in if total > outCap then (- 1, out)
                   else let str = SC_HRP @ cstr ''1'' @ map (\<lambda>v. SC_CHARSET ! unat v) five @
                              map (\<lambda>i. SC_CHARSET ! unat (drop_bit (5 * (5 - i)) pm AND 31)) [0..<6] @ [0]
                        in (0, Some (store_at 0 str (the out))))"

definition ShareCodeDecode :: "bytes ptr \<Rightarrow> ShamirShare ptr \<Rightarrow> bytes ptr \<Rightarrow> int ptr
    \<Rightarrow> int \<times> ShamirShare ptr \<times> bytes ptr \<times> int ptr" where
  "ShareCodeDecode str share macOut hasMac =
     (if str = NULL \<or> share = NULL then (- 1, share, macOut, hasMac)
      else let s = c_string (the str); slen = length s
      in if slen < 3 + 1 + 6 \<or> slen > 200 then (- 3, share, macOut, hasMac)
      else if take 3 s \<noteq> SC_HRP \<or> s ! 3 \<noteq> of_char (CHR ''1'') then (- 3, share, macOut, hasMac)
      else let vs = map sc_charval (drop 4 s)
      in if list_ex (\<lambda>v. v < 0) vs then (- 3, share, macOut, hasMac)
      else let five = map of_int vs
      in if sc_polymod (sc_hrp_expand @ five) \<noteq> SC_BECH32M_CONST then (- 2, share, macOut, hasMac)
      else case sc_from5 (take (length five - 6) five) 99 of
        None \<Rightarrow> (- 3, share, macOut, hasMac)
      | Some payload \<Rightarrow>
        let pn = int (length payload)
        in if pn < 3 then (- 3, share, macOut, hasMac)
           else if payload ! 0 \<noteq> 1 then (- 3, share, macOut, hasMac)
           else let sh = (the share)\<lparr>sh_x := payload ! 1, sh_len := uint (payload ! 2)\<rparr>
           in if sh_len sh < 1 \<or> sh_len sh > 64 then (- 3, Some sh, macOut, hasMac)
           else if 3 + sh_len sh > pn then (- 3, Some sh, macOut, hasMac)
           else let len = nat (sh_len sh);
                    sh = sh\<lparr>sh_y := store_at 0 (slice 3 len payload) (sh_y sh)\<rparr>;
                    macLen = pn - (3 + sh_len sh)
           in if macLen = 32
              then (0, Some sh, map_option (store_at 0 (slice (3 + len) 32 payload)) macOut, map_option (\<lambda>_. 1) hasMac)
              else if macLen = 0 then (0, Some sh, macOut, map_option (\<lambda>_. 0) hasMac)
              else (- 3, Some sh, macOut, hasMac))"

section \<open>Groups of bits\<close>

text \<open>The lowest \<open>n\<close> bits, most significant first.\<close>

definition bits_of :: "nat \<Rightarrow> 'a::len word \<Rightarrow> bool list" where
  "bits_of n x = map (\<lambda>i. bit x (n - 1 - i)) [0..<n]"

lemma length_bits_of [simp]: "length (bits_of n x) = n"
  by (simp add: bits_of_def)

lemma bits_of_0 [simp]: "bits_of 0 x = []"
  by (simp add: bits_of_def)

lemma bits_of_add: "bits_of (m + n) x = bits_of m (drop_bit n x) @ bits_of n x"
  by (rule nth_equalityI) (auto simp: bits_of_def nth_append bit_simps intro!: arg_cong [where f = "bit x"])

lemma bits_of_cong: "(\<And>i. i < n \<Longrightarrow> bit x i = bit y i) \<Longrightarrow> bits_of n x = bits_of n y"
  by (auto simp: bits_of_def)

lemma bits_of_eq_iff: "bits_of n x = bits_of n y \<longleftrightarrow> (\<forall>i<n. bit x i = bit y i)"
proof
  assume e: "bits_of n x = bits_of n y"
  show "\<forall>i<n. bit x i = bit y i"
  proof (intro allI impI)
    fix i assume "i < n"
    then show "bit x i = bit y i" using arg_cong [OF e, of "\<lambda>l. l ! (n - 1 - i)"] by (simp add: bits_of_def)
  qed
qed (auto simp: bits_of_def)

lemma bit_and_mask: "m = mask g \<Longrightarrow> bit (x AND m :: 'a::len word) i \<longleftrightarrow> i < g \<and> bit x i"
  by (auto simp: bit_and_iff bit_mask_iff dest: bit_imp_possible_bit)

lemma emit_spec:
  assumes "0 < g" "g \<le> 8" "m = mask g" "length out + bits div g \<le> cap"
  shows "\<exists>out'. emit g m cap acc bits out = (Some (bits mod g), out @ out') \<and> length out' = bits div g \<and>
    concat (map (bits_of g) out') @ bits_of (bits mod g) acc = bits_of bits acc \<and> (\<forall>v\<in>set out'. \<forall>i. bit v i \<longrightarrow> i < g)"
  using assms(4)
proof (induction bits arbitrary: out rule: less_induct)
  case (less bits)
  show ?case
  proof (cases "bits < g")
    case True
    then show ?thesis by (intro exI [of _ "[]"]) (simp add: emit.simps)
  next
    case False
    define v :: byte where "v = ucast (drop_bit (bits - g) acc AND m)"
    have div: "bits div g = Suc ((bits - g) div g)" "(bits - g) mod g = bits mod g"
      using False assms(1) by (simp_all add: div_if le_mod_geq)
    have bv: "bit v i \<longleftrightarrow> i < g \<and> bit (drop_bit (bits - g) acc) i" for i
      using assms(2) by (auto simp: v_def bit_ucast_iff bit_and_mask [OF assms(3)])
    obtain out' where o: "emit g m cap acc (bits - g) (out @ [v]) = (Some ((bits - g) mod g), (out @ [v]) @ out')"
      "length out' = (bits - g) div g" "concat (map (bits_of g) out') @ bits_of ((bits - g) mod g) acc = bits_of (bits - g) acc"
      "\<forall>v\<in>set out'. \<forall>i. bit v i \<longrightarrow> i < g"
      using less.IH [of "bits - g" "out @ [v]"] less.prems False assms(1) div by auto
    have "emit g m cap acc bits out = emit g m cap acc (bits - g) (out @ [v])"
      using False assms(1) less.prems div by (subst emit.simps) (simp add: v_def)
    moreover have "bits_of bits acc = bits_of g v @ bits_of (bits - g) acc"
      using bits_of_add [of g "bits - g" acc] False bits_of_cong [of g v "drop_bit (bits - g) acc"] bv by simp
    ultimately show ?thesis
      using o div bv by (intro exI [of _ "v # out'"]) simp
  qed
qed

text \<open>The groups that come out carry the same bits as the groups that go in, up to the rest in the accumulator.\<close>

lemma regroup_spec:
  assumes "0 < g" "g \<le> 8" "m = mask g" "0 < k" "k \<le> 8" "\<forall>d\<in>set ds. \<forall>i. bit d i \<longrightarrow> i < k"
    "bits < g" "length out + (bits + k * length ds) div g \<le> cap"
  shows "\<exists>acc' bits' out'. regroup k g m cap ds acc bits out = (Some (acc', bits'), out @ out') \<and> bits' < g \<and>
    concat (map (bits_of g) out') @ bits_of bits' acc' = bits_of bits acc @ concat (map (bits_of k) ds) \<and>
    (\<forall>v\<in>set out'. \<forall>i. bit v i \<longrightarrow> i < g)"
  using assms(6-8)
proof (induction ds arbitrary: acc bits out)
  case Nil
  then show ?case by (intro exI [of _ acc] exI [of _ bits] exI [of _ "[]"]) simp
next
  case (Cons d ds)
  define acc1 where "acc1 = push_bit k acc OR ucast d"
  have dist: "(bits + k * length (d # ds)) div g = (bits + k) div g + ((bits + k) mod g + k * length ds) div g"
  proof -
    have "bits + k * length (d # ds) = (bits + k) div g * g + ((bits + k) mod g + k * length ds)"
      by (simp add: algebra_simps)
    then show ?thesis using assms(1) by (metis div_mult_self3 less_not_refl)
  qed
  then obtain o1 where o1: "emit g m cap acc1 (bits + k) out = (Some ((bits + k) mod g), out @ o1)" "length o1 = (bits + k) div g"
    "concat (map (bits_of g) o1) @ bits_of ((bits + k) mod g) acc1 = bits_of (bits + k) acc1"
    "\<forall>v\<in>set o1. \<forall>i. bit v i \<longrightarrow> i < g"
    using emit_spec [OF assms(1-3), of out "bits + k" cap acc1] Cons.prems(3) by auto
  obtain acc' bits' o2 where o2: "regroup k g m cap ds acc1 ((bits + k) mod g) (out @ o1) = (Some (acc', bits'), (out @ o1) @ o2)"
    "bits' < g" "concat (map (bits_of g) o2) @ bits_of bits' acc' = bits_of ((bits + k) mod g) acc1 @ concat (map (bits_of k) ds)"
    "\<forall>v\<in>set o2. \<forall>i. bit v i \<longrightarrow> i < g"
    using Cons.IH [of "(bits + k) mod g" "out @ o1" acc1] Cons.prems assms(1) dist o1(2) by auto
  have low: "bits_of k acc1 = bits_of k d"
    using assms(5) by (intro bits_of_cong) (auto simp: acc1_def bit_simps)
  have high: "bits_of bits (drop_bit k acc1) = bits_of bits acc"
    using Cons.prems(1,2) assms(2,5) by (intro bits_of_cong) (auto simp: acc1_def bit_simps)
  have "bits_of (bits + k) acc1 = bits_of bits acc @ bits_of k d"
    unfolding bits_of_add low high ..
  then show ?case
    using o1 o2 by (intro exI [of _ acc'] exI [of _ bits'] exI [of _ "o1 @ o2"]) (auto simp: acc1_def [symmetric])
qed

lemma length_concat_bits: "length (concat (map (bits_of n) xs)) = n * length xs"
  by (induction xs) simp_all

lemma concat_bits_inject:
  "\<forall>x\<in>set xs. \<forall>i. bit x i \<longrightarrow> i < n \<Longrightarrow> \<forall>y\<in>set ys. \<forall>i. bit y i \<longrightarrow> i < n \<Longrightarrow> 0 < n \<Longrightarrow>
   concat (map (bits_of n) xs) = concat (map (bits_of n) ys) \<Longrightarrow> xs = ys"
proof (induction xs arbitrary: ys)
  case Nil
  from Nil(4) have "length (concat (map (bits_of n) ys)) = 0" unfolding Nil(4) [symmetric] by simp
  then have "n * length ys = 0" unfolding length_concat_bits .
  then show ?case using Nil(3) by simp
next
  case (Cons x xs)
  from arg_cong [OF Cons.prems(4), of length] have "n * length ys = n * Suc (length xs)"
    unfolding length_concat_bits by simp
  then obtain y zs where ys: "ys = y # zs" using Cons.prems(3) by (cases ys) simp_all
  from Cons.prems(4) have "bits_of n x @ concat (map (bits_of n) xs) = bits_of n y @ concat (map (bits_of n) zs)"
    unfolding ys list.map concat.simps .
  then have e: "bits_of n x = bits_of n y" "concat (map (bits_of n) xs) = concat (map (bits_of n) zs)" by simp_all
  have "xs = zs" using Cons.prems(1,2) unfolding ys by (intro Cons.IH [OF _ _ Cons.prems(3) e(2)]) simp_all
  moreover have "x = y"
  proof (rule bit_eqI)
    fix i
    have "bit x i \<longrightarrow> i < n" "bit y i \<longrightarrow> i < n" using Cons.prems(1,2) unfolding ys by simp_all
    then show "bit x i = bit y i" using e(1) unfolding bits_of_eq_iff by blast
  qed
  ultimately show ?case by (simp add: ys)
qed

lemma byte_bits: "bit (v :: byte) i \<Longrightarrow> i < 8"
  using bit_imp_le_length [of v i] by simp

lemma mask_5_8: "31 = (mask 5 :: u32)" "0xff = (mask 8 :: u32)"
  by (simp_all add: mask_eq_exp_minus_1)

lemma sc_to5_spec:
  assumes "(8 * length ds + 4) div 5 \<le> cap"
  shows "\<exists>out pad. sc_to5 ds cap = Some out \<and> pad < 5 \<and> symbols out \<and>
    concat (map (bits_of 5) out) = concat (map (bits_of 8) ds) @ replicate pad False"
proof -
  have "(8 * length ds) div 5 \<le> cap" using assms by (rule order_trans [OF div_le_mono, rotated]) simp
  then obtain acc bits out where o: "regroup 8 5 31 cap ds 0 0 [] = (Some (acc, bits), out)" "bits < 5"
    "concat (map (bits_of 5) out) @ bits_of bits acc = concat (map (bits_of 8) ds)" "symbols out"
  proof -
    have a: "\<forall>d\<in>set ds. \<forall>i. bit d i \<longrightarrow> i < 8" "length [] + (0 + 8 * length ds) div 5 \<le> cap"
      using byte_bits \<open>(8 * length ds) div 5 \<le> cap\<close> by simp_all
    from regroup_spec [OF _ _ mask_5_8(1) _ _ a(1) _ a(2), of 0] that show ?thesis
      by (fastforce simp only: symbol_def bits_of_0 append_Nil zero_less_numeral numeral_le_iff semiring_norm)
  qed
  show ?thesis
  proof (cases "bits = 0")
    case True
    then show ?thesis using o by (intro exI [of _ out] exI [of _ 0]) (simp add: sc_to5_def bits_of_def)
  next
    case False
    define v :: byte where "v = ucast (push_bit (5 - bits) acc AND 31)"
    have bv: "bit v i \<longleftrightarrow> 5 - bits \<le> i \<and> i < 5 \<and> bit acc (i - (5 - bits))" for i
      by (auto simp: v_def bit_ucast_iff bit_and_mask [OF mask_5_8(1)] bit_push_bit_iff)
    have "5 * length out + bits = 8 * length ds" using arg_cong [OF o(3), of length] by (simp add: length_concat_bits)
    then have "5 * Suc (length out) \<le> 8 * length ds + 4" using False by (cases bits) simp_all
    from div_le_mono [OF this, of 5] assms have "length out < cap" by simp
    then have "sc_to5 ds cap = Some (out @ [v])" using o(1) False by (simp add: sc_to5_def v_def)
    moreover have "bits_of 5 v = bits_of bits acc @ replicate (5 - bits) False"
      using o(2) False by (intro nth_equalityI) (auto simp: bits_of_def nth_append bv intro!: arg_cong [where f = "bit acc"])
    moreover have "symbol v" by (simp add: symbol_def bv)
    ultimately show ?thesis using o(2-4) False
      by (intro exI [of _ "out @ [v]"] exI [of _ "5 - bits"]) auto
  qed
qed

lemma from5_spec:
  assumes "symbols ds" "concat (map (bits_of 5) ds) = concat (map (bits_of 8) bs) @ replicate pad False" "pad < 5" "length bs \<le> cap"
  shows "sc_from5 ds cap = Some bs" "sc_from5_trunc ds cap = (int (length bs), bs)"
proof -
  have len: "5 * length ds = 8 * length bs + pad" using arg_cong [OF assms(2), of length] by (simp add: length_concat_bits)
  then have "(5 * length ds) div 8 \<le> cap" using assms(3,4) by simp
  then obtain acc bits out where o: "regroup 5 8 0xff cap ds 0 0 [] = (Some (acc, bits), out)" "bits < 8"
    "concat (map (bits_of 8) out) @ bits_of bits acc = concat (map (bits_of 5) ds)"
  proof -
    have a: "\<forall>d\<in>set ds. \<forall>i. bit d i \<longrightarrow> i < 5" "length [] + (0 + 5 * length ds) div 8 \<le> cap"
      using assms(1) \<open>(5 * length ds) div 8 \<le> cap\<close> by (simp_all add: symbol_def)
    from regroup_spec [OF _ _ mask_5_8(2) _ _ a(1) _ a(2), of 0] that show ?thesis
      by (fastforce simp only: bits_of_0 append_Nil zero_less_numeral numeral_le_iff semiring_norm)
  qed
  have "8 * length out + bits = 8 * length bs + pad" using arg_cong [OF o(3), of length] len by (simp add: length_concat_bits)
  then have l: "length out = length bs" using o(2) assms(3) by linarith
  then have l: "length out = length bs" "bits = pad" using \<open>8 * length out + bits = 8 * length bs + pad\<close> by simp_all
  have e: "concat (map (bits_of 8) out) @ bits_of bits acc = concat (map (bits_of 8) bs) @ replicate pad False"
    using o(3) assms(2) by simp
  then have e: "concat (map (bits_of 8) out) = concat (map (bits_of 8) bs)" "bits_of bits acc = replicate pad False"
    using l by (simp_all add: length_concat_bits)
  have bs: "out = bs" by (rule concat_bits_inject [OF _ _ _ e(1)]) (simp_all add: byte_bits)
  have "\<not> bit acc i" if "i < pad" for i
    using arg_cong [OF e(2), of "\<lambda>b. b ! (pad - 1 - i)"] that l(2) by (simp add: bits_of_def)
  then have "push_bit (8 - pad) acc AND 0xff = 0"
    using assms(3) by (intro bit_word_eqI) (auto simp: bit_and_mask [OF mask_5_8(2)] bit_push_bit_iff)
  then show "sc_from5 ds cap = Some bs" "sc_from5_trunc ds cap = (int (length bs), bs)"
    using o(1) l(2) bs assms(3) by (simp_all add: sc_from5_def sc_from5_trunc_def)
qed

section \<open>The checksum register\<close>

lemma all_less_5: "(\<forall>j<5. Q (j :: nat)) \<longleftrightarrow> Q 0 \<and> Q 1 \<and> Q 2 \<and> Q 3 \<and> Q 4"
  by (auto simp: less_Suc_eq numeral_eq_Suc)

lemma drop_bit_and_1: "drop_bit j x AND 1 \<noteq> 0 \<longleftrightarrow> bit (x :: 'a::len word) j"
  by (simp add: and_one_eq bit_iff_odd_drop_bit mod_2_eq_odd)

interpretation bm: lfsr SC_GEN 6
proof
  show "\<forall>j<5. fits 6 (SC_GEN ! j)"
    unfolding all_less_5 by (simp add: SC_GEN_def fits_def)
next
  fix P :: "nat \<Rightarrow> bool" and j :: nat
  assume "take_bit 5 (comb P SC_GEN) = 0" "j < 5"
  then have "sel (P 0) 18 XOR (sel (P 1) 13 XOR (sel (P 2) 26 XOR (sel (P 3) 29 XOR sel (P 4) (19 :: u32)))) = 0"
    by (simp add: comb_def SC_GEN_def take_bit_xor take_bit_sel)
  then have "\<forall>j<5. \<not> P j"
    unfolding all_less_5 by (cases "P 0"; cases "P 1"; cases "P 2"; cases "P 3"; cases "P 4") simp_all
  then show "\<not> P j" using \<open>j < 5\<close> by blast
qed simp_all

lemma sc_polymod_run: "sc_polymod values = bm.run 1 values"
proof -
  have "(let b = drop_bit 25 chk; c = push_bit 5 (chk AND 0x1ffffff) XOR ucast v
     in fold (\<lambda>j c. if drop_bit j b AND 1 \<noteq> 0 then c XOR SC_GEN ! j else c) [0..<5] c)
     = lfsr_step 6 SC_GEN chk XOR ucast v" for chk and v :: byte
  proof -
    have m: "chk AND 0x1ffffff = take_bit 25 chk" by (simp add: take_bit_eq_mask mask_eq_exp_minus_1)
    show ?thesis
      unfolding Let_def drop_bit_and_1 comb_fold lfsr_step_comb m by (simp add: bit_drop_bit_eq comp_def ac_simps)
  qed
  then show ?thesis unfolding sc_polymod_def bm.run_def by simp
qed

section \<open>The characters\<close>

lemma symbol_iff: "symbol v \<longleftrightarrow> unat v < 32"
proof -
  have "symbol v \<longleftrightarrow> take_bit 5 v = v"
    using fits_iff [of 1 v] by (simp add: symbol_def fits_def)
  also have "\<dots> \<longleftrightarrow> take_bit 5 (unat v) = unat v"
    by (simp add: word_unat_eq_iff unsigned_take_bit_eq)
  also have "\<dots> \<longleftrightarrow> unat v < 2 ^ 5" by (rule take_bit_nat_eq_self_iff)
  finally show ?thesis by simp
qed

lemma length_CHARSET: "length SC_CHARSET = 32"
  by (simp add: SC_CHARSET_def)

lemma distinct_CHARSET: "distinct SC_CHARSET"
  by (simp add: SC_CHARSET_def cstr_def)

lemma CHARSET_nonzero: "0 \<notin> set SC_CHARSET"
  by (simp add: SC_CHARSET_def cstr_def)

lemma sc_charval_CHARSET: "i < 32 \<Longrightarrow> sc_charval (SC_CHARSET ! i) = int i"
proof -
  assume i: "i < 32"
  then have "find (\<lambda>k. SC_CHARSET ! k = SC_CHARSET ! i) [0..<32] = Some i"
    unfolding find_Some_iff using distinct_CHARSET length_CHARSET by (intro exI [of _ i]) (simp add: nth_eq_iff_index_eq)
  then show ?thesis by (simp add: sc_charval_def)
qed

lemma sc_charval_inv: "0 \<le> sc_charval c \<Longrightarrow> sc_charval c < 32 \<and> SC_CHARSET ! nat (sc_charval c) = c"
proof -
  assume "0 \<le> sc_charval c"
  then obtain i where i: "find (\<lambda>i. SC_CHARSET ! i = c) [0..<32] = Some i" "sc_charval c = int i"
    by (auto simp: sc_charval_def split: option.splits)
  from i(1) have "i < 32 \<and> SC_CHARSET ! i = c" unfolding find_Some_iff by auto
  then show ?thesis using i(2) by simp
qed

lemma symbols_charval: "\<forall>c\<in>set cs. 0 \<le> sc_charval c \<Longrightarrow> symbols (map (\<lambda>c. of_int (sc_charval c)) cs)"
proof clarify
  fix v assume *: "\<forall>c\<in>set cs. 0 \<le> sc_charval c" "v \<in> set (map (\<lambda>c. of_int (sc_charval c) :: byte) cs)"
  then obtain c where c: "v = of_int (sc_charval c)" "0 \<le> sc_charval c" by auto
  then have "v = of_nat (nat (sc_charval c))" "nat (sc_charval c) < 32"
    using conjunct1 [OF sc_charval_inv [OF c(2)]] by (simp_all only: nat_less_iff [OF c(2)] of_nat_numeral of_nat_nat)
  then show "symbol v" by (simp add: symbol_iff unat_of_nat)
qed


lemma of_int_byte_inject: "0 \<le> a \<Longrightarrow> a < 32 \<Longrightarrow> 0 \<le> b \<Longrightarrow> b < 32 \<Longrightarrow> of_int a = (of_int b :: byte) \<Longrightarrow> a = b"
proof -
  assume *: "0 \<le> a" "a < 32" "0 \<le> b" "b < 32" "of_int a = (of_int b :: byte)"
  from *(5) have "uint (of_int a :: byte) = uint (of_int b :: byte)" by (rule arg_cong)
  then show ?thesis using *(1-4) by (simp add: uint_word_of_int)
qed

lemma charval_inject:
  assumes "\<forall>c\<in>set cs. 0 \<le> sc_charval c" "\<forall>d\<in>set ds. 0 \<le> sc_charval d"
    "map (\<lambda>c. of_int (sc_charval c) :: byte) cs = map (\<lambda>c. of_int (sc_charval c)) ds"
  shows "cs = ds"
proof (rule nth_equalityI)
  show l: "length cs = length ds" using assms(3) by (rule map_eq_imp_length_eq)
  fix i assume i: "i < length cs"
  let ?c = "sc_charval (cs ! i)" and ?d = "sc_charval (ds ! i)"
  have b: "0 \<le> ?c" "0 \<le> ?d" using assms(1,2) i l by simp_all
  have "(of_int ?c :: byte) = of_int ?d" using arg_cong [OF assms(3), of "\<lambda>xs. xs ! i"] i l by simp
  then have "?c = ?d"
    using b conjunct1 [OF sc_charval_inv [OF b(1)]] conjunct1 [OF sc_charval_inv [OF b(2)]] by (intro of_int_byte_inject)
  then show "cs ! i = ds ! i" using sc_charval_inv [OF b(1)] sc_charval_inv [OF b(2)] by metis
qed

lemma charval_CHARSET_symbols: "symbols vs \<Longrightarrow> map (\<lambda>c. of_int (sc_charval c)) (map (\<lambda>v. SC_CHARSET ! unat v) vs) = vs"
  by (induction vs) (simp_all add: symbol_iff sc_charval_CHARSET)

lemma charval_CHARSET_nonneg: "symbols vs \<Longrightarrow> \<forall>c\<in>set (map (\<lambda>v. SC_CHARSET ! unat v) vs). 0 \<le> sc_charval c \<and> c \<noteq> 0"
proof clarify
  fix c assume *: "symbols vs" "c \<in> set (map (\<lambda>v. SC_CHARSET ! unat v) vs)"
  from *(2) obtain v where v: "c = SC_CHARSET ! unat v" "v \<in> set vs" by auto
  then have v: "c = SC_CHARSET ! unat v" "unat v < 32" using *(1) by (auto simp: symbol_iff)
  then have "c \<in> set SC_CHARSET" by (simp add: length_CHARSET)
  then show "0 \<le> sc_charval c \<and> c \<noteq> 0" using v CHARSET_nonzero by (auto simp: sc_charval_CHARSET)
qed

lemma hrp_expand_symbols: "symbols sc_hrp_expand"
  by (simp add: sc_hrp_expand_def SC_HRP_def cstr_def symbol_iff)

lemma const_fits: "fits 6 SC_BECH32M_CONST" "fits 6 (1 :: u32)"
  by (simp_all add: fits_def SC_BECH32M_CONST_def)

lemma bech32m_checksum:
  assumes "symbols vs" "p = sc_polymod (sc_hrp_expand @ vs @ replicate 6 0) XOR SC_BECH32M_CONST"
  shows "sc_polymod (sc_hrp_expand @ vs @ map (bm.symbol_at p) [0..<6]) = SC_BECH32M_CONST"
  using bm.checksum_run [of 1 "sc_hrp_expand @ vs" SC_BECH32M_CONST] assms hrp_expand_symbols const_fits
  by (auto simp: sc_polymod_run zeros_def)

lemma symbol_at_char:
  "map (\<lambda>i. SC_CHARSET ! unat (drop_bit (5 * (5 - i)) p AND 31)) [0..<6] =
   map (\<lambda>v. SC_CHARSET ! unat v) (map (bm.symbol_at p) [0..<6])"
proof -
  have "unat (bm.symbol_at p i) = unat (drop_bit (5 * (5 - i)) p AND 31)" for i
  proof -
    have "drop_bit (5 * (5 - i)) p AND 31 \<le> 31" by (rule word_and_le1)
    then have "unat (drop_bit (5 * (5 - i)) p AND 31) < 32" by (simp add: word_le_nat_alt)
    then show ?thesis by (simp add: bm.symbol_at_def unsigned_ucast_eq take_bit_nat_eq_self)
  qed
  then show ?thesis by simp
qed

section \<open>The envelope\<close>

text \<open>What the decoder does once a string is long enough, has the prefix and only characters of the set.\<close>

definition sc_values :: "bytes \<Rightarrow> bytes" where
  "sc_values cs = map (\<lambda>c. of_int (sc_charval c)) cs"

lemma decode_checksum:
  assumes "ShareCodeDecode (Some a) (Some sh) mo hm = (0, res)" "c_string a = pre @ cs" "length pre = 4"
  shows "\<forall>c\<in>set cs. 0 \<le> sc_charval c" "sc_polymod (sc_hrp_expand @ sc_values cs) = SC_BECH32M_CONST"
    "take 3 pre = SC_HRP" "pre ! 3 = of_char (CHR ''1'')" "6 \<le> length cs" "length cs \<le> 196"
  using assms
  by (auto simp: ShareCodeDecode_def Let_def list_ex_iff sc_values_def nth_append comp_def not_less split: if_splits)

lemma decode_reject:
  assumes "c_string a = pre @ cs" "length pre = 4" "take 3 pre = SC_HRP" "pre ! 3 = of_char (CHR ''1'')"
    "6 \<le> length cs" "length cs \<le> 196"
    "(\<forall>c\<in>set cs. 0 \<le> sc_charval c) \<longrightarrow> sc_polymod (sc_hrp_expand @ sc_values cs) \<noteq> SC_BECH32M_CONST"
  shows "ShareCodeDecode (Some a) (Some sh) mo hm =
    (if \<forall>c\<in>set cs. 0 \<le> sc_charval c then - 2 else - 3, Some sh, mo, hm)"
  using assms
  by (auto simp: ShareCodeDecode_def Let_def list_ex_iff sc_values_def nth_append comp_def not_less)

lemma values_symbols: "\<forall>c\<in>set cs. 0 \<le> sc_charval c \<Longrightarrow> symbols (sc_values cs)"
  unfolding sc_values_def by (rule symbols_charval)

lemma bech32m_burst:
  assumes "\<forall>c\<in>set (as @ us @ bs). 0 \<le> sc_charval c" "\<forall>c\<in>set us'. 0 \<le> sc_charval c"
    "length us = length us'" "length us \<le> 6" "us \<noteq> us'"
  shows "sc_polymod (h @ sc_values (as @ us @ bs)) \<noteq> sc_polymod (h @ sc_values (as @ us' @ bs))"
proof -
  have "sc_values us \<noteq> sc_values us'"
    using assms(1,2,5) charval_inject [of us us'] by (auto simp: sc_values_def)
  moreover have "symbols (sc_values us)" by (rule values_symbols) (use assms(1) in auto)
  moreover have "symbols (sc_values us')" by (rule values_symbols [OF assms(2)])
  ultimately have "bm.run 1 ((h @ sc_values as) @ sc_values us @ sc_values bs) \<noteq>
      bm.run 1 ((h @ sc_values as) @ sc_values us' @ sc_values bs)"
    using assms(3,4) by (intro bm.run_burst) (simp_all add: sc_values_def)
  then show ?thesis by (simp add: sc_polymod_run sc_values_def)
qed

lemma to5_from5:
  assumes "(8 * length ds + 4) div 5 \<le> cap" "length ds \<le> cap'"
  shows "\<exists>five. sc_to5 ds cap = Some five \<and> symbols five \<and> length five = (8 * length ds + 4) div 5 \<and>
    sc_from5 five cap' = Some ds \<and> sc_from5_trunc five cap' = (int (length ds), ds)"
proof -
  obtain five pad where f: "sc_to5 ds cap = Some five" "pad < 5" "symbols five"
    "concat (map (bits_of 5) five) = concat (map (bits_of 8) ds) @ replicate pad False"
    using sc_to5_spec [OF assms(1)] by blast
  have "5 * length five = 8 * length ds + pad" using arg_cong [OF f(4), of length] by (simp add: length_concat_bits)
  then have "length five = (8 * length ds + 4) div 5" using f(2) by linarith
  then show ?thesis using f from5_spec [OF f(3,4,2) assms(2)] by blast
qed

lemma sharecode_burst_detected:
  assumes "fst (ShareCodeDecode (Some a) (Some sh) mo hm) = 0" "c_string a = pre @ us @ post" "c_string a' = pre @ us' @ post"
    "4 \<le> length pre" "length us = length us'" "length us \<le> 6" "us \<noteq> us'"
  shows "ShareCodeDecode (Some a') (Some sh') mo' hm' =
    (if \<forall>c\<in>set us'. 0 \<le> sc_charval c then - 2 else - 3, Some sh', mo', hm')"
proof -
  obtain res where d: "ShareCodeDecode (Some a) (Some sh) mo hm = (0, res)"
    using assms(1) by (cases "ShareCodeDecode (Some a) (Some sh) mo hm") auto
  define p4 rest where "p4 = take 4 pre" and "rest = drop 4 pre"
  have pre: "pre = p4 @ rest" "length p4 = 4" using assms(4) by (simp_all add: p4_def rest_def)
  have a: "c_string a = p4 @ rest @ us @ post" "c_string a' = p4 @ rest @ us' @ post" using assms(2,3) pre by simp_all
  note ok = decode_checksum [OF d a(1) pre(2)]
  have cs: "(\<forall>c\<in>set (rest @ us' @ post). 0 \<le> sc_charval c) \<longleftrightarrow> (\<forall>c\<in>set us'. 0 \<le> sc_charval c)"
    using ok(1) by auto
  have "(\<forall>c\<in>set (rest @ us' @ post). 0 \<le> sc_charval c) \<longrightarrow>
      sc_polymod (sc_hrp_expand @ sc_values (rest @ us' @ post)) \<noteq> SC_BECH32M_CONST"
    using bech32m_burst [OF ok(1) _ assms(5-7), of sc_hrp_expand] ok(2) cs by auto
  from decode_reject [OF a(2) pre(2) ok(3,4) _ _ this] show ?thesis
    using ok(5,6) assms(5) unfolding cs by simp
qed

definition share_payload :: "ShamirShare \<Rightarrow> bytes ptr \<Rightarrow> bytes" where
  "share_payload sh mac = [1, sh_x sh, of_int (sh_len sh)] @ take (nat (sh_len sh)) (sh_y sh) @
     (case mac of None \<Rightarrow> [] | Some m \<Rightarrow> take 32 m)"

lemma share_payload_length:
  assumes "1 \<le> sh_len sh" "sh_len sh \<le> 64" "length (sh_y sh) = 64" "\<forall>m. mac = Some m \<longrightarrow> length m = 32"
  shows "length (share_payload sh mac) = 3 + nat (sh_len sh) + (if mac = None then 0 else 32)"
  using assms by (cases mac) (simp_all add: share_payload_def nat_le_iff)

lemma encode_string:
  assumes "1 \<le> sh_len sh" "sh_len sh \<le> 64" "length (sh_y sh) = 64" "\<forall>m. mac = Some m \<longrightarrow> length m = 32"
    "170 \<le> cap" "cap \<le> int (length buf)"
  shows "\<exists>buf' five. ShareCodeEncode (Some sh) mac (Some buf) cap = (0, Some buf') \<and> length buf' = length buf \<and>
    c_string buf' = SC_HRP @ cstr ''1'' @ map (\<lambda>v. SC_CHARSET ! unat v) five \<and> symbols five \<and>
    6 \<le> length five \<and> length five \<le> 165 \<and>
    sc_polymod (sc_hrp_expand @ five) = SC_BECH32M_CONST \<and> sc_from5 (take (length five - 6) five) 99 = Some (share_payload sh mac)"
proof -
  let ?pl = "share_payload sh mac"
  have len: "length ?pl \<le> 99" unfolding share_payload_length [OF assms(1-4)] using assms(2) by (simp add: nat_le_iff)
  then have "(8 * length ?pl + 4) div 5 \<le> 159" by linarith
  then obtain five where f: "sc_to5 ?pl 160 = Some five" "symbols five" "length five \<le> 159" "sc_from5 five 99 = Some ?pl"
    using to5_from5 [of ?pl 160 99] len by force
  define p where "p = sc_polymod (sc_hrp_expand @ five @ replicate 6 0) XOR SC_BECH32M_CONST"
  define all where "all = five @ map (bm.symbol_at p) [0..<6]"
  define str where "str = SC_HRP @ cstr ''1'' @ map (\<lambda>v. SC_CHARSET ! unat v) all"
  have s: "symbols all" using f(2) bm.symbol_at_symbol by (auto simp: all_def)
  have la: "length all = length five + 6" by (simp add: all_def)
  have pl: "(let payload = [1, sh_x sh, of_int (sh_len sh)] @ take (nat (sh_len sh)) (sh_y sh)
      in case mac of None \<Rightarrow> payload | Some m \<Rightarrow> payload @ take 32 m) = ?pl"
    by (simp add: share_payload_def split: option.split)
  have "ShareCodeEncode (Some sh) mac (Some buf) cap = (0, Some (store_at 0 (str @ [0]) buf))"
    using assms(1,2,5) f(1,3) unfolding ShareCodeEncode_def Let_def option.sel pl [unfolded Let_def] symbol_at_char
    by (simp add: p_def [symmetric] str_def all_def)
  moreover have ls: "length str = 4 + length all" by (simp add: str_def SC_HRP_def)
  moreover have "0 \<notin> set str"
    using charval_CHARSET_nonneg [OF s] by (auto simp: str_def SC_HRP_def cstr_def)
  then have "c_string (store_at 0 (str @ [0]) buf) = str"
    unfolding c_string_def store_at_def by (simp, subst takeWhile_append2) auto
  moreover have "sc_polymod (sc_hrp_expand @ all) = SC_BECH32M_CONST"
    unfolding all_def by (rule bech32m_checksum [OF f(2) p_def])
  moreover have "length (store_at 0 (str @ [0]) buf) = length buf"
    using assms(5,6) ls la f(3) by (subst length_store_at) simp_all
  ultimately show ?thesis
    using s la f(3,4)
    by - (rule exI [where x = "store_at 0 (str @ [0]) buf"], rule exI [where x = all],
      simp add: str_def all_def del: map_append)
qed

lemma decode_payload:
  assumes "c_string a = SC_HRP @ cstr ''1'' @ map (\<lambda>v. SC_CHARSET ! unat v) five" "symbols five" "6 \<le> length five" "length five \<le> 196"
    "sc_polymod (sc_hrp_expand @ five) = SC_BECH32M_CONST" "sc_from5 (take (length five - 6) five) 99 = Some (1 # x # l # y @ m)"
    "1 \<le> uint l" "uint l \<le> 64" "length y = nat (uint l)" "length m = 0 \<or> length m = 32"
  shows "ShareCodeDecode (Some a) (Some sh) (Some mo) (Some hm) =
    (0, Some (sh\<lparr>sh_x := x, sh_len := uint l, sh_y := store_at 0 y (sh_y sh)\<rparr>),
     Some (if m = [] then mo else store_at 0 m mo), Some (if m = [] then 0 else 1))"
proof -
  have v: "map (\<lambda>c. of_int (sc_charval c)) (map (\<lambda>v. SC_CHARSET ! unat v) five) = five"
    by (rule charval_CHARSET_symbols [OF assms(2)])
  have nn: "\<not> list_ex (\<lambda>v. v < 0) (map sc_charval (map (\<lambda>v. SC_CHARSET ! unat v) five))"
    using charval_CHARSET_nonneg [OF assms(2)] by (force simp: list_ex_iff)
  have d: "drop 4 (c_string a) = map (\<lambda>v. SC_CHARSET ! unat v) five" "take 3 (c_string a) = SC_HRP" "c_string a ! 3 = of_char (CHR ''1'')"
    "length (c_string a) = 4 + length five"
    using assms(1) by (simp_all add: SC_HRP_def cstr_def)
  have u: "uint l = int (length y)" "nat (uint l) = length y" "unat l = length y" using assms(7,9) by simp_all
  have s: "slice 3 (length y) (1 # x # l # y @ m) = y" "slice 3 (length y) (1 # x # l # y) = y" "slice (3 + length y) 32 (1 # x # l # y @ m) = take 32 m"
    by (simp_all add: slice_def numeral_3_eq_3)
  have ft: "map (\<lambda>v. of_int v) (map sc_charval (map (\<lambda>v. SC_CHARSET ! unat v) five)) = five"
    using v by (simp add: comp_def)
  have mm: "length m = 32 \<Longrightarrow> m \<noteq> [] \<and> take 32 m = m" "length m = 0 \<Longrightarrow> m = []" by auto
  show ?thesis
    using assms(3-8,10) nn mm
    unfolding ShareCodeDecode_def Let_def option.sel d ft
    by (auto simp: s u simp del: list.map)
qed

lemma sharecode_encode_decode:
  assumes "1 \<le> sh_len sh" "sh_len sh \<le> 64" "length (sh_y sh) = 64" "\<forall>m. mac = Some m \<longrightarrow> length m = 32"
    "170 \<le> cap" "cap \<le> int (length buf)"
  shows "\<exists>buf'. ShareCodeEncode (Some sh) mac (Some buf) cap = (0, Some buf') \<and>
    ShareCodeDecode (Some buf') (Some sh0) (Some mo) (Some hm) =
     (0, Some (sh0\<lparr>sh_x := sh_x sh, sh_len := sh_len sh, sh_y := store_at 0 (take (nat (sh_len sh)) (sh_y sh)) (sh_y sh0)\<rparr>),
      Some (case mac of None \<Rightarrow> mo | Some m \<Rightarrow> store_at 0 m mo), Some (if mac = None then 0 else 1))"
proof -
  obtain buf' five where e: "ShareCodeEncode (Some sh) mac (Some buf) cap = (0, Some buf')"
    "c_string buf' = SC_HRP @ cstr ''1'' @ map (\<lambda>v. SC_CHARSET ! unat v) five" "symbols five" "6 \<le> length five" "length five \<le> 165"
    "sc_polymod (sc_hrp_expand @ five) = SC_BECH32M_CONST" "sc_from5 (take (length five - 6) five) 99 = Some (share_payload sh mac)"
    using encode_string [OF assms] by blast
  let ?l = "of_int (sh_len sh) :: byte" and ?y = "take (nat (sh_len sh)) (sh_y sh)" and ?m = "case mac of None \<Rightarrow> [] | Some m \<Rightarrow> m"
  have u: "uint ?l = sh_len sh" using assms(1,2) by (simp add: uint_word_of_int)
  have p: "share_payload sh mac = 1 # sh_x sh # ?l # ?y @ ?m"
    using assms(4) by (cases mac) (simp_all add: share_payload_def)
  have ly: "length ?y = nat (uint ?l)" using assms(1-3) u by (simp add: nat_le_iff)
  have lm: "length ?m = 0 \<or> length ?m = 32" using assms(4) by (cases mac) simp_all
  have "ShareCodeDecode (Some buf') (Some sh0) (Some mo) (Some hm) =
    (0, Some (sh0\<lparr>sh_x := sh_x sh, sh_len := uint ?l, sh_y := store_at 0 ?y (sh_y sh0)\<rparr>),
     Some (if ?m = [] then mo else store_at 0 ?m mo), Some (if ?m = [] then 0 else 1))"
    using e(5) assms(1,2) u
    by (intro decode_payload [OF e(2,3,4) _ e(6) e(7) [unfolded p] _ _ ly lm]) simp_all
  moreover have "(?m = []) = (mac = None)" using assms(4) by (cases mac) auto
  ultimately show ?thesis using e(1) u by (intro exI [of _ buf']) (auto split: option.split)
qed

end
