(* ===== verification/Codex32.thy ===== *)
theory Codex32
  imports ShareCode
begin

text \<open>
  The error-correcting share envelope, second half of \<open>src/src/Common/ShareCode.c\<close>: the ms32 checksum over a
  register of two 64-bit words, its two generators, and the codex32 strings.
\<close>

section \<open>The code\<close>

record sc_u128 =
  sc_hi :: u64
  sc_lo :: u64

definition u128 :: "u64 \<Rightarrow> u64 \<Rightarrow> sc_u128" where
  "u128 h l = \<lparr>sc_hi = h, sc_lo = l\<rparr>"

definition MS32_GEN :: "sc_u128 list" where
  "MS32_GEN =
     [u128 0x1 0x9dc500ce73fde210, u128 0x1 0xbfae00def77fe529,
      u128 0x1 0xfbd920fffe7bee52, u128 0x1 0x739640bdeee3fdad,
      u128 0x0 0x7729a039cfc75f5a]"

definition MS32_CONST :: sc_u128 where
  "MS32_CONST = u128 0x1 0x0ce0795c2fd1e62a"

definition MS32_GEN_LONG :: "sc_u128 list" where
  "MS32_GEN_LONG =
     [u128 0x3d5 0x9d273535ea62d897, u128 0x7a9 0xbecb6361c6c51507,
      u128 0x543 0xf9b7e6c38d8a2a0e, u128 0x0c5 0x77eaeccf1990d13c,
      u128 0x188 0x7f74f8dc71b10651]"

definition MS32_LONG_CONST :: sc_u128 where
  "MS32_LONG_CONST = u128 0x433 0x81e570bf4798ab26"

definition ms32_polymod :: "bytes \<Rightarrow> bool \<Rightarrow> sc_u128" where
  "ms32_polymod vs isLong =
     (let GEN = if isLong then MS32_GEN_LONG else MS32_GEN;
          topshift = if isLong then 70 else 60 :: nat;
          mask_hi = if isLong then 0x3f else 0 :: u64;
          mask_lo = if isLong then 0xffffffffffffffff else 0x0fffffffffffffff :: u64
      in fold (\<lambda>v r.
           let b = if topshift \<ge> 64 then drop_bit (topshift - 64) (sc_hi r) AND 31
                   else (push_bit (64 - topshift) (sc_hi r) OR drop_bit topshift (sc_lo r)) AND 31;
               mlo = sc_lo r AND mask_lo;
               mhi = sc_hi r AND mask_hi;
               r = u128 (push_bit 5 mhi OR drop_bit 59 mlo) (push_bit 5 mlo XOR ucast v)
           in fold (\<lambda>j r. if drop_bit j b AND 1 \<noteq> 0
                then u128 (sc_hi r XOR sc_hi (GEN ! j)) (sc_lo r XOR sc_lo (GEN ! j)) else r) [0..<5] r)
         vs (u128 0 0x23181b3))"

definition ms32_extract5 :: "sc_u128 \<Rightarrow> nat \<Rightarrow> u64" where
  "ms32_extract5 r p =
     (if p \<ge> 64 then drop_bit (p - 64) (sc_hi r) AND 31
      else if p > 59 then (drop_bit p (sc_lo r) OR push_bit (64 - p) (sc_hi r)) AND 31
      else drop_bit p (sc_lo r) AND 31)"

definition sc_tolower :: "byte \<Rightarrow> byte" where
  "sc_tolower c = (if c \<ge> of_char (CHR ''A'') \<and> c \<le> of_char (CHR ''Z'') then c + 32 else c)"

definition ShareCodeCodex32Encode :: "int \<Rightarrow> bytes ptr \<Rightarrow> byte \<Rightarrow> bytes ptr \<Rightarrow> int \<Rightarrow> bytes ptr \<Rightarrow> int \<Rightarrow> int \<times> bytes ptr" where
  "ShareCodeCodex32Encode k ident shareIndex payload payloadLen out outCap =
     (if ident = NULL \<or> payload = NULL \<or> out = NULL \<or> payloadLen < 1 then (- 1, out)
      else if \<not> (k = 0 \<or> k \<ge> 2 \<and> k \<le> 9) then (- 1, out)
      else let hd = map sc_charval ([of_int (48 + k)] @ map sc_tolower (take 4 (the ident)) @ [sc_tolower shareIndex])
      in if list_ex (\<lambda>v. v < 0) hd then (- 1, out)
      else case sc_to5 (take (nat payloadLen) (the payload)) (128 - length hd) of
        None \<Rightarrow> (- 1, out)
      | Some five \<Rightarrow>
        let dat = map of_int hd @ five;
            ndata = length dat;
            isLong = ndata > 80;
            csumLen = if isLong then 15 else 13
        in if ndata + csumLen > 128 then (- 1, out)
        else let pm = ms32_polymod (dat @ replicate csumLen 0) isLong;
                 pm = (if isLong then u128 (sc_hi pm XOR sc_hi MS32_LONG_CONST) (sc_lo pm XOR sc_lo MS32_LONG_CONST)
                       else u128 (sc_hi pm XOR sc_hi MS32_CONST) (sc_lo pm XOR sc_lo MS32_CONST))
        in if int (2 + 1 + ndata + csumLen + 1) > outCap then (- 1, out)
        else (0, Some (store_at 0 (cstr ''ms1'' @ map (\<lambda>v. SC_CHARSET ! unat v) dat @
               map (\<lambda>i. SC_CHARSET ! unat (ms32_extract5 pm (5 * (csumLen - 1 - i)))) [0..<csumLen] @ [0]) (the out))))"

definition ShareCodeCodex32Decode :: "bytes ptr \<Rightarrow> int ptr \<Rightarrow> bytes ptr \<Rightarrow> byte ptr \<Rightarrow> bytes \<Rightarrow> nat \<Rightarrow> int ptr
    \<Rightarrow> int \<times> int ptr \<times> bytes ptr \<times> byte ptr \<times> bytes \<times> int ptr" where
  "ShareCodeCodex32Decode str k ident shareIndex payload payloadCap payloadLen =
     (let failed = (\<lambda>e. (e, k, ident, shareIndex, payload, payloadLen))
      in if str = NULL then failed (- 1)
      else let s = c_string (the str); slen = length s
      in if slen < 3 \<or> slen > 127 then failed (- 3)
      else if sc_tolower (s ! 0) \<noteq> of_char (CHR ''m'') \<or> sc_tolower (s ! 1) \<noteq> of_char (CHR ''s'') \<or> s ! 2 \<noteq> of_char (CHR ''1'')
      then failed (- 3)
      else let dlen = slen - 3;
               isLong = dlen \<ge> 96;
               csumLen = if isLong then 15 else 13
      in if dlen < 6 + 1 + csumLen then failed (- 3)
      else let vs = map (\<lambda>c. sc_charval (sc_tolower c)) (drop 3 s)
      in if list_ex (\<lambda>v. v < 0) vs then failed (- 3)
      else let dat = map of_int vs;
               chk = ms32_polymod dat isLong
      in if isLong \<and> (sc_hi chk \<noteq> sc_hi MS32_LONG_CONST \<or> sc_lo chk \<noteq> sc_lo MS32_LONG_CONST) \<or>
            \<not> isLong \<and> (sc_hi chk \<noteq> sc_hi MS32_CONST \<or> sc_lo chk \<noteq> sc_lo MS32_CONST)
      then failed (- 2)
      else let kv = uint (sc_tolower (s ! 3))
      in if kv < 48 \<or> kv > 57 \<or> kv = 49 then failed (- 3)
      else let k' = map_option (\<lambda>_. kv - 48) k;
               ident' = map_option (store_at 0 (map sc_tolower (slice 4 4 s))) ident;
               ix' = map_option (\<lambda>_. sc_tolower (s ! 8)) shareIndex;
               (pn, written) = sc_from5_trunc (slice 6 (dlen - csumLen - 6) dat) payloadCap;
               payload' = store_at 0 written payload
      in if pn < 1 then (- 3, k', ident', ix', payload', payloadLen)
      else (0, k', ident', ix', payload', map_option (\<lambda>_. pn) payloadLen))"

section \<open>The register as one word\<close>

definition join :: "sc_u128 \<Rightarrow> 128 word" where
  "join r = push_bit 64 (ucast (sc_hi r)) OR ucast (sc_lo r)"

lemma bit_join: "bit (join r) i \<longleftrightarrow> (if i < 64 then bit (sc_lo r) i else bit (sc_hi r) (i - 64))"
  using bit_imp_le_length [of "sc_hi r" "i - 64"] bit_imp_le_length [of "sc_lo r" i]
  by (auto simp: join_def bit_simps)

lemma u128_sel [simp]: "sc_hi (u128 h l) = h" "sc_lo (u128 h l) = l"
  by (simp_all add: u128_def)

lemma join_inject: "join r = join s \<longleftrightarrow> sc_hi r = sc_hi s \<and> sc_lo r = sc_lo s"
proof
  assume e: "join r = join s"
  have "bit (sc_hi r) i = bit (sc_hi s) i" if "i < 64" for i
    using arg_cong [OF e, of "\<lambda>x. bit x (i + 64)"] by (simp add: bit_join)
  moreover have "bit (sc_lo r) i = bit (sc_lo s) i" if "i < 64" for i
    using arg_cong [OF e, of "\<lambda>x. bit x i"] that by (simp add: bit_join)
  ultimately show "sc_hi r = sc_hi s \<and> sc_lo r = sc_lo s" by (simp add: bit_eq_iff)
qed (simp add: join_def)

lemma join_xor: "join (u128 (sc_hi r XOR sc_hi s) (sc_lo r XOR sc_lo s)) = join r XOR join s"
  by (rule bit_word_eqI) (simp add: bit_join bit_xor_iff)

lemma join_fold:
  "length G = 5 \<Longrightarrow>
   join (fold (\<lambda>j r. if P j then u128 (sc_hi r XOR sc_hi (G ! j)) (sc_lo r XOR sc_lo (G ! j)) else r) [0..<5] r) =
   join r XOR comb P (map join G)"
proof -
  assume l: "length G = 5"
  have "join (fold (\<lambda>j r. if P j then u128 (sc_hi r XOR sc_hi (G ! j)) (sc_lo r XOR sc_lo (G ! j)) else r) js r) =
    fold (\<lambda>j c. if P j then c XOR map join G ! j else c) js (join r)" if "\<forall>j\<in>set js. j < 5" for js
    using that by (induction js arbitrary: r) (simp_all add: join_xor l)
  from this [of "[0..<5]"] show ?thesis by (simp add: comb_fold)
qed

lemma ms32_round:
  fixes long :: bool
  defines "topshift \<equiv> if long then 70 else 60 :: nat"
    and "mask_hi \<equiv> if long then 0x3f else 0 :: u64"
    and "mask_lo \<equiv> if long then 0xffffffffffffffff else 0x0fffffffffffffff :: u64"
  shows "j < 5 \<Longrightarrow> bit (if topshift \<ge> 64 then drop_bit (topshift - 64) (sc_hi r) AND 31
      else (push_bit (64 - topshift) (sc_hi r) OR drop_bit topshift (sc_lo r)) AND 31) j = bit (join r) (topshift + j)"
    and "join (u128 (push_bit 5 (sc_hi r AND mask_hi) OR drop_bit 59 (sc_lo r AND mask_lo))
      (push_bit 5 (sc_lo r AND mask_lo) XOR ucast (v :: byte))) = push_bit 5 (take_bit topshift (join r)) XOR ucast v"
proof -
  have m: "(31 :: u64) = mask 5" "(0x3f :: u64) = mask 6" "(0xffffffffffffffff :: u64) = mask 64" "(0x0fffffffffffffff :: u64) = mask 60"
    by (simp_all add: mask_eq_exp_minus_1)
  show "j < 5 \<Longrightarrow> bit (if topshift \<ge> 64 then drop_bit (topshift - 64) (sc_hi r) AND 31
      else (push_bit (64 - topshift) (sc_hi r) OR drop_bit topshift (sc_lo r)) AND 31) j = bit (join r) (topshift + j)"
    using bit_imp_le_length [of "sc_lo r" "60 + j"]
    by (cases long) (auto simp: topshift_def m bit_join bit_simps)
  show "join (u128 (push_bit 5 (sc_hi r AND mask_hi) OR drop_bit 59 (sc_lo r AND mask_lo))
      (push_bit 5 (sc_lo r AND mask_lo) XOR ucast (v :: byte))) = push_bit 5 (take_bit topshift (join r)) XOR ucast v"
    by (rule bit_word_eqI, cases long)
      (auto simp: topshift_def mask_hi_def mask_lo_def m bit_join bit_simps bit_byte_ge)
qed

lemma join_GEN: "map join MS32_GEN =
  [0x19dc500ce73fde210, 0x1bfae00def77fe529, 0x1fbd920fffe7bee52, 0x1739640bdeee3fdad, 0x7729a039cfc75f5a]"
  by (simp add: MS32_GEN_def join_def)

lemma join_GEN_LONG: "map join MS32_GEN_LONG =
  [0x3d59d273535ea62d897, 0x7a9becb6361c6c51507, 0x543f9b7e6c38d8a2a0e, 0x0c577eaeccf1990d13c, 0x1887f74f8dc71b10651]"
  by (simp add: MS32_GEN_LONG_def join_def)

interpretation ms: lfsr "map join MS32_GEN" 13
proof
  show "\<forall>j<5. fits 13 (map join MS32_GEN ! j)"
    unfolding all_less_5 join_GEN by (simp add: fits_def)
next
  fix P :: "nat \<Rightarrow> bool" and j :: nat
  assume "take_bit 5 (comb P (map join MS32_GEN)) = 0" "j < 5"
  then have "sel (P 0) 16 XOR (sel (P 1) 9 XOR (sel (P 2) 18 XOR (sel (P 3) 13 XOR sel (P 4) (26 :: 128 word)))) = 0"
    unfolding join_GEN by (simp add: comb_def take_bit_xor take_bit_sel)
  then have "\<forall>j<5. \<not> P j"
    unfolding all_less_5 by (cases "P 0"; cases "P 1"; cases "P 2"; cases "P 3"; cases "P 4") simp_all
  then show "\<not> P j" using \<open>j < 5\<close> by blast
qed simp_all

interpretation msl: lfsr "map join MS32_GEN_LONG" 15
proof
  show "\<forall>j<5. fits 15 (map join MS32_GEN_LONG ! j)"
    unfolding all_less_5 join_GEN_LONG by (simp add: fits_def)
next
  fix P :: "nat \<Rightarrow> bool" and j :: nat
  assume "take_bit 5 (comb P (map join MS32_GEN_LONG)) = 0" "j < 5"
  then have "sel (P 0) 23 XOR (sel (P 1) 7 XOR (sel (P 2) 14 XOR (sel (P 3) 28 XOR sel (P 4) (17 :: 128 word)))) = 0"
    unfolding join_GEN_LONG by (simp add: comb_def take_bit_xor take_bit_sel)
  then have "\<forall>j<5. \<not> P j"
    unfolding all_less_5 by (cases "P 0"; cases "P 1"; cases "P 2"; cases "P 3"; cases "P 4") simp_all
  then show "\<not> P j" using \<open>j < 5\<close> by blast
qed simp_all

lemma fold_join:
  "(\<And>v r. join (f v r) = g v (join r)) \<Longrightarrow> join (fold f vs r) = fold g vs (join r)"
  by (induction vs arbitrary: r) simp_all

lemma ms32_polymod_run:
  "join (ms32_polymod vs False) = ms.run 0x23181b3 vs"
  "join (ms32_polymod vs True) = msl.run 0x23181b3 vs"
proof -
  have i: "join (u128 0 0x23181b3) = 0x23181b3" by (simp add: join_def)
  have l: "length MS32_GEN = 5" "length MS32_GEN_LONG = 5" by (simp_all add: MS32_GEN_def MS32_GEN_LONG_def)
  have c: "comb (\<lambda>j. bit (if (if long then 70 else 60 :: nat) \<ge> 64 then drop_bit ((if long then 70 else 60) - 64) (sc_hi r) AND 31
      else (push_bit (64 - (if long then 70 else 60)) (sc_hi r) OR drop_bit (if long then 70 else 60) (sc_lo r)) AND 31) j) G =
    comb (\<lambda>j. bit (join r) ((if long then 70 else 60) + j)) G" for long r and G :: "128 word list"
    by (rule comb_cong, rule ms32_round(1))
  show "join (ms32_polymod vs False) = ms.run 0x23181b3 vs"
    unfolding ms32_polymod_def ms.run_def Let_def i [symmetric] if_False
  proof (rule fold_join, goal_cases)
    case (1 v r)
    show ?case
      unfolding drop_bit_and_1 join_fold [OF l(1)]
      using c [of False r "map join MS32_GEN"] ms32_round(2) [where long = False and r = r and v = v]
      by (simp add: lfsr_step_comb ac_simps)
  qed
  show "join (ms32_polymod vs True) = msl.run 0x23181b3 vs"
    unfolding ms32_polymod_def msl.run_def Let_def i [symmetric] if_True
  proof (rule fold_join, goal_cases)
    case (1 v r)
    show ?case
      unfolding drop_bit_and_1 join_fold [OF l(2)]
      using c [of True r "map join MS32_GEN_LONG"] ms32_round(2) [where long = True and r = r and v = v]
      by (simp add: lfsr_step_comb ac_simps)
  qed
qed

section \<open>The checksum\<close>

definition ms32_csum :: "bool \<Rightarrow> nat" where
  "ms32_csum isLong = (if isLong then 15 else 13)"

definition ms32_const :: "bool \<Rightarrow> sc_u128" where
  "ms32_const isLong = (if isLong then MS32_LONG_CONST else MS32_CONST)"

definition ms32_target :: "bytes \<Rightarrow> bool \<Rightarrow> sc_u128" where
  "ms32_target vs isLong = (let pm = ms32_polymod (vs @ replicate (ms32_csum isLong) 0) isLong; c = ms32_const isLong
     in u128 (sc_hi pm XOR sc_hi c) (sc_lo pm XOR sc_lo c))"

definition ms32_checksum :: "bytes \<Rightarrow> bool \<Rightarrow> bytes" where
  "ms32_checksum vs isLong =
     map (\<lambda>i. ucast (ms32_extract5 (ms32_target vs isLong) (5 * (ms32_csum isLong - 1 - i)))) [0..<ms32_csum isLong]"

lemma extract5_join: "p \<le> 70 \<Longrightarrow> (ucast (ms32_extract5 r p) :: byte) = ucast (drop_bit p (join r) AND 31)"
proof (rule bit_word_eqI)
  fix n assume "p \<le> 70" "n < LENGTH(8)"
  moreover have m: "(31 :: u64) = mask 5" "(31 :: 128 word) = mask 5" by (simp_all add: mask_eq_exp_minus_1)
  ultimately show "bit (ucast (ms32_extract5 r p) :: byte) n = bit (ucast (drop_bit p (join r) AND 31) :: byte) n"
    using bit_imp_le_length [of "sc_lo r" "p + n"]
    unfolding ms32_extract5_def m
    by (auto simp: bit_join bit_simps add.commute [of n p])
qed

lemma extract5_le: "ms32_extract5 r p \<le> 31"
  unfolding ms32_extract5_def by (simp add: word_and_le1)

lemma unat_extract5: "unat (ms32_extract5 r p) = unat (ucast (ms32_extract5 r p) :: byte)"
proof -
  have "unat (ms32_extract5 r p) < 32" using extract5_le [of r p] by (simp add: word_le_nat_alt)
  then show ?thesis by (simp add: unsigned_ucast_eq take_bit_nat_eq_self)
qed

lemma ms32_checksum_at:
  "ms32_checksum vs False = map (ms.symbol_at (join (ms32_target vs False))) [0..<13]"
  "ms32_checksum vs True = map (msl.symbol_at (join (ms32_target vs True))) [0..<15]"
  by (simp_all add: ms32_checksum_def ms32_csum_def ms.symbol_at_def msl.symbol_at_def extract5_join)

lemma ms32_const_fits: "fits 13 (join MS32_CONST)" "fits 15 (join MS32_LONG_CONST)"
  "fits 13 (0x23181b3 :: 128 word)" "fits 15 (0x23181b3 :: 128 word)"
  by (simp_all add: MS32_CONST_def MS32_LONG_CONST_def join_def fits_def)

lemma ms32_checksum_symbols: "symbols (ms32_checksum vs isLong)"
  using ms.symbol_at_symbol msl.symbol_at_symbol by (cases isLong) (auto simp: ms32_checksum_at)

lemma length_ms32_checksum: "length (ms32_checksum vs isLong) = ms32_csum isLong"
  by (simp add: ms32_checksum_def)

lemma ms32_checksum_ok:
  assumes "symbols vs"
  shows "ms32_polymod (vs @ ms32_checksum vs isLong) isLong = ms32_const isLong"
proof -
  have "join (ms32_polymod (vs @ ms32_checksum vs isLong) isLong) = join (ms32_const isLong)"
  proof (cases isLong)
    case True
    then show ?thesis
      using msl.checksum_run [OF ms32_const_fits(4) assms ms32_const_fits(2)]
      by (simp add: ms32_checksum_at ms32_target_def Let_def join_xor ms32_polymod_run ms32_const_def ms32_csum_def zeros_def)
  next
    case False
    then show ?thesis
      using ms.checksum_run [OF ms32_const_fits(3) assms ms32_const_fits(1)]
      by (simp add: ms32_checksum_at ms32_target_def Let_def join_xor ms32_polymod_run ms32_const_def ms32_csum_def zeros_def)
  qed
  then show ?thesis by (simp add: join_inject)
qed

text \<open>Up to 13 corrupted characters in a row, 15 in a long string, never keep the checksum.\<close>

lemma ms32_burst:
  assumes "symbols us" "symbols us'" "length us = length us'" "length us \<le> ms32_csum isLong" "us \<noteq> us'"
  shows "ms32_polymod (as @ us @ bs) isLong \<noteq> ms32_polymod (as @ us' @ bs) isLong"
proof
  assume e: "ms32_polymod (as @ us @ bs) isLong = ms32_polymod (as @ us' @ bs) isLong"
  show False
  proof (cases isLong)
    case True
    then show False using msl.run_burst [OF assms(1-3) _ assms(5), of "0x23181b3" as bs] assms(4) arg_cong [OF e, of join]
      by (simp add: ms32_polymod_run ms32_csum_def)
  next
    case False
    then show False using ms.run_burst [OF assms(1-3) _ assms(5), of "0x23181b3" as bs] assms(4) arg_cong [OF e, of join]
      by (simp add: ms32_polymod_run ms32_csum_def)
  qed
qed

section \<open>The envelope\<close>

lemma tolower_CHARSET: "c \<in> set SC_CHARSET \<Longrightarrow> sc_tolower c = c"
  by (auto simp: SC_CHARSET_def cstr_def sc_tolower_def)

lemma tolower_symbols: "symbols vs \<Longrightarrow> map sc_tolower (map (\<lambda>v. SC_CHARSET ! unat v) vs) = map (\<lambda>v. SC_CHARSET ! unat v) vs"
  by (auto simp: symbol_iff length_CHARSET intro!: tolower_CHARSET)

definition codex_values :: "bytes \<Rightarrow> bytes" where
  "codex_values cs = sc_values (map sc_tolower cs)"

lemma codex_values_symbols: "symbols vs \<Longrightarrow> codex_values (map (\<lambda>v. SC_CHARSET ! unat v) vs) = vs"
  unfolding codex_values_def tolower_symbols sc_values_def by (rule charval_CHARSET_symbols)

lemma sc_values_chars:
  assumes "\<forall>c\<in>set cs. 0 \<le> sc_charval c"
  shows "map (\<lambda>v. SC_CHARSET ! unat v) (sc_values cs) = cs" "symbols (sc_values cs)"
proof -
  show s: "symbols (sc_values cs)" by (rule values_symbols [OF assms])
  let ?cs = "map (\<lambda>v. SC_CHARSET ! unat v) (sc_values cs)"
  have "sc_values ?cs = sc_values cs" unfolding sc_values_def [of ?cs] by (rule charval_CHARSET_symbols [OF s])
  then show "?cs = cs"
    using charval_inject [of ?cs cs] charval_CHARSET_nonneg [OF s] assms by (simp add: sc_values_def)
qed

definition codex_head :: "int \<Rightarrow> bytes \<Rightarrow> byte \<Rightarrow> bytes" where
  "codex_head k ident ix = of_int (48 + k) # map sc_tolower ident @ [sc_tolower ix]"

lemma codex_digit: "k = 0 \<or> 2 \<le> k \<and> k \<le> 9 \<Longrightarrow> 0 \<le> sc_charval (of_int (48 + k))"
proof -
  assume "k = 0 \<or> 2 \<le> k \<and> k \<le> 9"
  then have "k \<in> {0, 2, 3, 4, 5, 6, 7, 8, 9}" by auto
  then have "(of_int (48 + k) :: byte) \<in> set SC_CHARSET" by (auto simp: SC_CHARSET_def cstr_def)
  then obtain i where "i < 32" "of_int (48 + k) = SC_CHARSET ! i" by (auto simp: in_set_conv_nth length_CHARSET)
  then show ?thesis using sc_charval_CHARSET by simp
qed

lemma codex_encode_string:
  assumes "k = 0 \<or> 2 \<le> k \<and> k \<le> 9" "length ident = 4" "\<forall>c\<in>set (ix # ident). 0 \<le> sc_charval (sc_tolower c)"
    "1 \<le> length p" "length p \<le> 66" "132 \<le> cap" "cap \<le> int (length buf)"
  shows "\<exists>buf' five. ShareCodeCodex32Encode k (Some ident) ix (Some p) (int (length p)) (Some buf) cap = (0, Some buf') \<and>
    length buf' = length buf \<and> symbols five \<and> length five = (8 * length p + 4) div 5 \<and>
    (\<forall>cap'\<ge>length p. sc_from5_trunc five cap' = (int (length p), p)) \<and>
    c_string buf' = cstr ''ms1'' @ codex_head k ident ix @ map (\<lambda>v. SC_CHARSET ! unat v)
      (five @ ms32_checksum (sc_values (codex_head k ident ix) @ five) (74 < length five))"
proof -
  define hd where "hd = codex_head k ident ix"
  have hl: "length hd = 6" using assms(2) by (simp add: hd_def codex_head_def)
  have hn: "\<forall>c\<in>set hd. 0 \<le> sc_charval c" using assms(3) codex_digit [OF assms(1)] by (auto simp: hd_def codex_head_def)
  note hv = sc_values_chars [OF hn]
  have "(8 * length p + 4) div 5 \<le> 122" using assms(5) by linarith
  then obtain five where f: "sc_to5 p 122 = Some five" "symbols five" "length five = (8 * length p + 4) div 5"
    using to5_from5 [of p 122 "length p"] by blast
  have trunc: "sc_from5_trunc five cap' = (int (length p), p)" if "length p \<le> cap'" for cap'
    using to5_from5 [of p 122 cap'] that f(1) \<open>(8 * length p + 4) div 5 \<le> 122\<close> by auto
  have f107: "length five \<le> 106" using f(3) assms(5) by linarith
  define dat where "dat = sc_values hd @ five"
  have dl: "length dat = 6 + length five" by (simp add: dat_def sc_values_def hl)
  have ds: "symbols dat" using hv(2) f(2) by (auto simp: dat_def)
  define long where "long = (74 < length five)"
  define str where "str = cstr ''ms1'' @ hd @ map (\<lambda>v. SC_CHARSET ! unat v) (five @ ms32_checksum dat long)"
  have chars: "map (\<lambda>v. SC_CHARSET ! unat v) dat = hd @ map (\<lambda>v. SC_CHARSET ! unat v) five"
    by (simp add: dat_def hv(1))
  have sums: "map (\<lambda>i. SC_CHARSET ! unat (ms32_extract5 (ms32_target dat long) (5 * (ms32_csum long - 1 - i)))) [0..<ms32_csum long] =
      map (\<lambda>v. SC_CHARSET ! unat v) (ms32_checksum dat long)"
    by (simp add: ms32_checksum_def unat_extract5 [symmetric])
  have long: "(80 < length dat) = long" by (simp add: dl long_def)
  have fits: "length dat + ms32_csum long \<le> 128" using dl f107 by (simp add: ms32_csum_def)
  have "ShareCodeCodex32Encode k (Some ident) ix (Some p) (int (length p)) (Some buf) cap = (0, Some (store_at 0 (str @ [0]) buf))"
  proof -
    have h: "[of_int (48 + k)] @ map sc_tolower (take 4 ident) @ [sc_tolower ix] = hd" using assms(2) by (simp add: hd_def codex_head_def)
    have nn: "\<not> list_ex (\<lambda>v. v < 0) (map sc_charval hd)" using hn by (force simp: list_ex_iff)
    have v: "map of_int (map sc_charval hd) = (sc_values hd :: bytes)" by (simp add: sc_values_def)
    have t: "(if long then u128 (sc_hi pm XOR sc_hi MS32_LONG_CONST) (sc_lo pm XOR sc_lo MS32_LONG_CONST)
        else u128 (sc_hi pm XOR sc_hi MS32_CONST) (sc_lo pm XOR sc_lo MS32_CONST)) =
        (let c = ms32_const long in u128 (sc_hi pm XOR sc_hi c) (sc_lo pm XOR sc_lo c))" for pm
      by (simp add: ms32_const_def)
    have w: "(if long then 15 else 13) = ms32_csum long" by (simp add: ms32_csum_def)
    have sums': "map (\<lambda>i. SC_CHARSET ! unat (ms32_extract5 (let c = ms32_const long; pm = ms32_polymod (dat @ replicate (ms32_csum long) 0) long
        in u128 (sc_hi pm XOR sc_hi c) (sc_lo pm XOR sc_lo c)) (5 * (ms32_csum long - 1 - i)))) [0..<ms32_csum long] =
      map (\<lambda>v. SC_CHARSET ! unat v) (ms32_checksum dat long)"
      using sums by (simp add: ms32_target_def Let_def)
    have c1: "\<not> int (2 + 1 + length dat + ms32_csum long + 1) > cap" using fits assms(6) by linarith
    have c2: "\<not> length dat + ms32_csum long > 128" using fits by simp
    have n: "\<not> (Some ident = NULL \<or> Some p = NULL \<or> Some buf = NULL \<or> int (length p) < 1)" using assms(4) by (simp del: length_0_conv)
    have k: "\<not> \<not> (k = 0 \<or> k \<ge> 2 \<and> k \<le> 9)" using assms(1) by simp
    have str': "str @ [0] = cstr ''ms1'' @ map (\<lambda>v. SC_CHARSET ! unat v) dat @ map (\<lambda>v. SC_CHARSET ! unat v) (ms32_checksum dat long) @ [0]"
      by (simp add: str_def chars)
    have s5: "sc_to5 (take (nat (int (length p))) p) (128 - length (map sc_charval hd)) = Some five" using f(1) hl by simp
    show ?thesis
      unfolding ShareCodeCodex32Encode_def option.sel h if_not_P [OF n] if_not_P [OF k] Let_def if_not_P [OF nn] s5 option.case
        v dat_def [symmetric] long w if_not_P [OF c1] if_not_P [OF c2] t sums' [unfolded Let_def] str'
      ..
  qed
  moreover have ls: "length str = 3 + length dat + ms32_csum long"
    by (simp add: str_def dl hl length_ms32_checksum)
  moreover have "0 \<notin> set str"
  proof -
    have "0 \<notin> set hd" using hv charval_CHARSET_nonneg [OF hv(2)] by auto
    then show ?thesis
      using charval_CHARSET_nonneg [OF f(2)] charval_CHARSET_nonneg [OF ms32_checksum_symbols [of dat long]]
      by (auto simp: str_def cstr_def)
  qed
  then have "c_string (store_at 0 (str @ [0]) buf) = str"
    unfolding c_string_def store_at_def by (simp, subst takeWhile_append2) auto
  moreover have "length (store_at 0 (str @ [0]) buf) = length buf"
    using assms(6,7) ls fits by (subst length_store_at) simp_all
  ultimately show ?thesis
    using f(2,3) trunc
    by - (rule exI [where x = "store_at 0 (str @ [0]) buf"], rule exI [where x = five],
      simp add: str_def dat_def hd_def long_def)
qed

lemma uint_byte_of_int: "0 \<le> x \<Longrightarrow> x < 256 \<Longrightarrow> uint (of_int x :: byte) = x"
  by (simp add: uint_word_of_int)

lemma codex_decode:
  assumes s: "c_string a = cstr ''ms1'' @ map (\<lambda>v. SC_CHARSET ! unat v) dat"
    and d: "symbols dat" "dat = hdr @ five @ cs" "length hdr = 6" "length cs = ms32_csum long" "long = (96 \<le> length dat)"
      "five \<noteq> []" "length dat \<le> 124"
    and c: "ms32_polymod dat long = ms32_const long"
    and k: "SC_CHARSET ! unat (dat ! 0) = of_int (48 + kv)" "kv = 0 \<or> 2 \<le> kv \<and> kv \<le> 9"
    and p: "sc_from5_trunc five cap = (pn, written)" "1 \<le> pn"
  shows "ShareCodeCodex32Decode (Some a) (Some k0) (Some id0) (Some ix0) buf cap (Some n0) =
    (0, Some kv, Some (store_at 0 (map (\<lambda>v. SC_CHARSET ! unat v) (slice 1 4 dat)) id0), Some (SC_CHARSET ! unat (dat ! 5)),
     store_at 0 written buf, Some pn)"
proof -
  let ?ch = "\<lambda>v. SC_CHARSET ! unat v"
  have dl: "length dat = 6 + length five + ms32_csum long" using d(2-4) by simp
  have len: "length (c_string a) = 3 + length dat" by (simp add: s)
  have drop: "drop 3 (c_string a) = map ?ch dat" by (simp add: s)
  have low: "sc_tolower (?ch v) = ?ch v" if "v \<in> set dat" for v
    using that d(1) by (intro tolower_CHARSET) (simp add: symbol_iff length_CHARSET)
  have vals: "map (\<lambda>c. sc_charval (sc_tolower c)) (map ?ch dat) = map (\<lambda>c. sc_charval c) (map ?ch dat)"
    using low by simp
  have ints: "map of_int (map (\<lambda>c. sc_charval c) (map ?ch dat)) = dat"
    using charval_CHARSET_symbols [OF d(1)] by (simp add: comp_def)
  have nn: "\<not> list_ex (\<lambda>v. v < 0) (map (\<lambda>c. sc_charval c) (map ?ch dat))"
    using charval_CHARSET_nonneg [OF d(1)] by (force simp: list_ex_iff)
  have at: "c_string a ! (3 + i) = ?ch (dat ! i)" if "i < length dat" for i
    using that by (simp add: s nth_append)
  have lowat: "sc_tolower (?ch (dat ! i)) = ?ch (dat ! i)" if "i < length dat" for i using low that by simp
  have s3: "c_string a ! 3 = ?ch (dat ! 0)" using at [of 0] dl by simp
  have s8: "c_string a ! 8 = ?ch (dat ! 5)" using at [of 5] dl by simp
  have s012: "c_string a ! 0 = of_char (CHR ''m'')" "c_string a ! 1 = of_char (CHR ''s'')" "c_string a ! 2 = of_char (CHR ''1'')"
    by (simp_all add: s cstr_def)
  have sl: "slice 4 4 (c_string a) = map ?ch (slice 1 4 dat)"
    by (simp add: s slice_def take_map drop_map cstr_def numeral_eq_Suc)
  have sll: "map sc_tolower (map ?ch (slice 1 4 dat)) = map ?ch (slice 1 4 dat)"
    using low by (auto simp: slice_def dest: in_set_takeD in_set_dropD)
  have l01: "sc_tolower (of_char (CHR ''m'')) = of_char (CHR ''m'')" "sc_tolower (of_char (CHR ''s'')) = of_char (CHR ''s'')"
    by (simp_all add: sc_tolower_def)
  have kvu: "uint (of_int (48 + kv) :: byte) = 48 + kv" by (rule uint_byte_of_int) (use k(2) in auto)
  have kk: "sc_tolower (?ch (dat ! 0)) = of_int (48 + kv)" using lowat [of 0] dl k(1) by simp
  have sl5: "slice 6 (length dat - ms32_csum long - 6) dat = five" using d(2,3,4) by (simp add: slice_def)
  have w: "(if 96 \<le> length dat then 15 else 13) = ms32_csum long" by (simp add: ms32_csum_def d(5))
  have chk: "\<not> (96 \<le> length dat \<and> (sc_hi (ms32_polymod dat (96 \<le> length dat)) \<noteq> sc_hi MS32_LONG_CONST \<or> sc_lo (ms32_polymod dat (96 \<le> length dat)) \<noteq> sc_lo MS32_LONG_CONST) \<or>
     \<not> 96 \<le> length dat \<and> (sc_hi (ms32_polymod dat (96 \<le> length dat)) \<noteq> sc_hi MS32_CONST \<or> sc_lo (ms32_polymod dat (96 \<le> length dat)) \<noteq> sc_lo MS32_CONST))"
    using c unfolding d(5) ms32_const_def by simp
  have f1: "1 \<le> length five" using d(6) by (cases five) simp_all
  have b: "\<not> (3 + length dat < 3 \<or> 3 + length dat > 127)" "\<not> length dat < 6 + 1 + ms32_csum long"
    "\<not> (48 + kv < 48 \<or> 48 + kv > 57 \<or> 48 + kv = 49)" "\<not> pn < 1" "\<not> Some a = NULL"
    using d(7) dl f1 k(2) p(2) by auto
  have three: "3 + length dat - 3 = length dat" by simp
  have pre: "\<not> (of_char (CHR ''m'') \<noteq> (of_char (CHR ''m'') :: byte) \<or> of_char (CHR ''s'') \<noteq> (of_char (CHR ''s'') :: byte) \<or> of_char (CHR ''1'') \<noteq> (of_char (CHR ''1'') :: byte))"
    by simp
  show ?thesis
    unfolding ShareCodeCodex32Decode_def Let_def if_not_P [OF b(5)] option.sel len if_not_P [OF b(1)] s012 l01 if_not_P [OF pre] three w
      if_not_P [OF b(2)] drop vals if_not_P [OF nn] ints if_not_P [OF chk] s3 kk kvu if_not_P [OF b(3)] sl5 p(1) prod.case if_not_P [OF b(4)]
      sl sll s8
    using lowat [of 5] dl by simp
qed

lemma codex_decode_too_long:
  assumes "c_string a = cstr ''ms1'' @ cs" "124 < length cs"
  shows "ShareCodeCodex32Decode (Some a) k0 id0 ix0 buf cap n0 = (- 3, k0, id0, ix0, buf, n0)"
  using assms by (simp add: ShareCodeCodex32Decode_def Let_def)

lemma codex_encode_decode:
  assumes "k = 0 \<or> 2 \<le> k \<and> k \<le> 9" "length ident = 4" "\<forall>c\<in>set (ix # ident). 0 \<le> sc_charval (sc_tolower c)"
    "1 \<le> length p" "length p \<le> 64" "132 \<le> cap" "cap \<le> int (length buf)" "length p \<le> pcap"
  shows "\<exists>buf'. ShareCodeCodex32Encode k (Some ident) ix (Some p) (int (length p)) (Some buf) cap = (0, Some buf') \<and>
    ShareCodeCodex32Decode (Some buf') (Some k0) (Some id0) (Some ix0) pbuf pcap (Some n0) =
     (0, Some k, Some (store_at 0 (map sc_tolower ident) id0), Some (sc_tolower ix), store_at 0 p pbuf, Some (int (length p)))"
proof -
  have p66: "length p \<le> 66" using assms(5) by simp
  define hdr where "hdr = codex_head k ident ix"
  have hl: "length hdr = 6" using assms(2) by (simp add: hdr_def codex_head_def)
  have hn: "\<forall>c\<in>set hdr. 0 \<le> sc_charval c" using assms(3) codex_digit [OF assms(1)] by (auto simp: hdr_def codex_head_def)
  note hv = sc_values_chars [OF hn]
  obtain buf' five where e: "ShareCodeCodex32Encode k (Some ident) ix (Some p) (int (length p)) (Some buf) cap = (0, Some buf')"
    "symbols five" "length five = (8 * length p + 4) div 5" "sc_from5_trunc five pcap = (int (length p), p)"
    "c_string buf' = cstr ''ms1'' @ hdr @ map (\<lambda>v. SC_CHARSET ! unat v) (five @ ms32_checksum (sc_values hdr @ five) (74 < length five))"
    using codex_encode_string [OF assms(1-4) p66 assms(6,7)] assms(8) unfolding hdr_def by blast
  define long cs where "long = (74 < length five)" and "cs = ms32_checksum (sc_values hdr @ five) long"
  define dat where "dat = sc_values hdr @ five @ cs"
  have hvl: "length (sc_values hdr) = 6" using hl by (simp add: sc_values_def)
  have csl: "length cs = ms32_csum long" by (simp add: cs_def length_ms32_checksum)
  have fl: "length five \<le> 103" "1 \<le> length five" using e(3) assms(4,5) by linarith+
  have dl: "length dat = 6 + length five + ms32_csum long" using hvl csl by (simp add: dat_def)
  have str: "c_string buf' = cstr ''ms1'' @ map (\<lambda>v. SC_CHARSET ! unat v) dat"
    unfolding e(5) by (simp add: dat_def hv(1) cs_def long_def)
  have ds: "symbols dat" using hv(2) e(2) ms32_checksum_symbols by (auto simp: dat_def cs_def)
  have ok: "ms32_polymod dat long = ms32_const long"
    using ms32_checksum_ok [of "sc_values hdr @ five" long] hv(2) e(2) by (auto simp: dat_def cs_def)
  have long: "long = (96 \<le> length dat)" using dl by (cases long) (simp_all add: ms32_csum_def long_def)
  have bound: "length dat \<le> 124" using dl fl(1) by (cases long) (simp_all add: ms32_csum_def)
  have ch: "SC_CHARSET ! unat (dat ! i) = hdr ! i" if "i < 6" for i
    using arg_cong [OF hv(1), of "\<lambda>l. l ! i"] that hvl by (simp add: dat_def nth_append)
  have k: "SC_CHARSET ! unat (dat ! 0) = of_int (48 + k)" using ch [of 0] by (simp add: hdr_def codex_head_def)
  have ix: "SC_CHARSET ! unat (dat ! 5) = sc_tolower ix"
    using ch [of 5] assms(2) by (simp add: hdr_def codex_head_def nth_append)
  have sl: "map (\<lambda>v. SC_CHARSET ! unat v) (slice 1 4 dat) = map sc_tolower ident"
  proof -
    have "slice 1 4 dat = slice 1 4 (sc_values hdr)" using hvl by (simp add: dat_def slice_def)
    then have "map (\<lambda>v. SC_CHARSET ! unat v) (slice 1 4 dat) = slice 1 4 hdr"
      using hv(1) by (simp add: slice_def take_map [symmetric] drop_map [symmetric])
    then show ?thesis using assms(2) by (simp add: hdr_def codex_head_def slice_def)
  qed
  have ne: "five \<noteq> []" using fl(2) by auto
  have pn: "1 \<le> int (length p)" using assms(4) by simp
  from codex_decode [OF str ds dat_def hvl csl long ne bound ok k assms(1) e(4) pn] show ?thesis
    using e(1) unfolding ix sl by blast
qed

text \<open>A payload of 65 or 66 bytes passes the encoder's bound on the data part, but not the decoder's bound on the string.\<close>

lemma codex_encode_refused:
  assumes "k = 0 \<or> 2 \<le> k \<and> k \<le> 9" "length ident = 4" "\<forall>c\<in>set (ix # ident). 0 \<le> sc_charval (sc_tolower c)"
    "length p \<in> {65, 66}" "132 \<le> cap" "cap \<le> int (length buf)"
  shows "\<exists>buf'. ShareCodeCodex32Encode k (Some ident) ix (Some p) (int (length p)) (Some buf) cap = (0, Some buf') \<and>
    ShareCodeCodex32Decode (Some buf') k0 id0 ix0 pbuf pcap n0 = (- 3, k0, id0, ix0, pbuf, n0)"
proof -
  have l: "1 \<le> length p" "length p \<le> 66" using assms(4) by auto
  obtain buf' five where e: "ShareCodeCodex32Encode k (Some ident) ix (Some p) (int (length p)) (Some buf) cap = (0, Some buf')"
    "length five = (8 * length p + 4) div 5"
    "c_string buf' = cstr ''ms1'' @ codex_head k ident ix @ map (\<lambda>v. SC_CHARSET ! unat v)
      (five @ ms32_checksum (sc_values (codex_head k ident ix) @ five) (74 < length five))"
    using codex_encode_string [OF assms(1-3) l assms(5,6)] by blast
  have "104 \<le> length five" using e(2) assms(4) by auto
  then have "124 < length (codex_head k ident ix @ map (\<lambda>v. SC_CHARSET ! unat v)
      (five @ ms32_checksum (sc_values (codex_head k ident ix) @ five) (74 < length five)))"
    using assms(2) by (simp add: codex_head_def length_ms32_checksum ms32_csum_def)
  from codex_decode_too_long [OF e(3) this] e(1) show ?thesis by blast
qed

end
