(* ===== verification/DuressToken.thy ===== *)
theory DuressToken
  imports Hmac
begin

text \<open>
  The duress passphrase, \<open>src/src/Common/DuressToken.c\<close>: its tag is HMAC-SHA-256 of the passphrase under a salt,
  compared without an early exit.
\<close>

section \<open>The code\<close>

definition duress_hmac_sha256 :: "bytes \<Rightarrow> bytes \<Rightarrow> bytes" where
  "duress_hmac_sha256 key msg =
     (let (k0, ctx) =
            (if length key > 64
             then let (d, ctx) = sha256_end (sha256_hash key (of_nat (length key)) (sha256_begin ctx_uninit))
                  in (d @ zeros 32, ctx)
             else (key @ zeros (64 - length key), ctx_uninit));
          pad = map (\<lambda>b. b XOR 0x36) k0;
          ctx = sha256_hash pad 64 (sha256_begin ctx);
          ctx = (if length msg > 0 then sha256_hash msg (of_nat (length msg)) ctx else ctx);
          (inner, ctx) = sha256_end ctx;
          pad = map (\<lambda>b. b XOR 0x5c) k0;
          ctx = sha256_hash inner 32 (sha256_hash pad 64 (sha256_begin ctx))
      in fst (sha256_end ctx))"

definition DuressTokenDerive :: "bytes \<Rightarrow> bytes \<Rightarrow> int \<Rightarrow> bytes" where
  "DuressTokenDerive salt pass passLen =
     (let passLen = (if passLen < 0 then 0 else passLen);
          passLen = (if passLen > 256 then 256 else passLen)
      in duress_hmac_sha256 salt (take (nat passLen) pass))"

definition DuressTokenMatch :: "bytes \<Rightarrow> bytes \<Rightarrow> int \<Rightarrow> int" where
  "DuressTokenMatch a b len =
     (let diff = fold (\<lambda>i diff. diff OR (a ! i XOR b ! i)) [0..<nat len] 0
      in if diff = 0 then 1 else 0)"

definition DuressTokenCheck :: "bytes \<Rightarrow> bytes \<Rightarrow> int \<Rightarrow> bytes \<Rightarrow> int" where
  "DuressTokenCheck salt pass passLen expectedTag =
     (let tag = DuressTokenDerive salt pass passLen
      in DuressTokenMatch tag expectedTag 32)"

section \<open>What a token certifies\<close>

definition duress_message :: "bytes \<Rightarrow> int \<Rightarrow> bytes" where
  "duress_message pass passLen = take (nat (max 0 (min 256 passLen))) pass"

lemma DuressTokenDerive_hmac:
  assumes "length salt < 2 ^ 29"
  shows "DuressTokenDerive salt pass passLen = hmac_sha256 salt (duress_message pass passLen)"
proof -
  have "duress_hmac_sha256 salt (take (nat l) pass) = hmac_sha256 salt (take (nat l) pass)" if "l \<le> 256" for l
    unfolding duress_hmac_sha256_def
    by (rule hmac_one_part [OF assms]) (use that in \<open>auto simp: min_def\<close>)
  moreover have "(let l = (if passLen < 0 then 0 else passLen) in if l > 256 then 256 else l) = max 0 (min 256 passLen)"
    by (simp add: Let_def max_def min_def)
  ultimately show ?thesis by (simp add: DuressTokenDerive_def duress_message_def Let_def)
qed

lemma DuressTokenCheck_iff:
  assumes "length salt < 2 ^ 29" "length tag = 32"
  shows "DuressTokenCheck salt pass passLen tag = (if tag = hmac_sha256 salt (duress_message pass passLen) then 1 else 0)"
proof -
  have l: "length (DuressTokenDerive salt pass passLen) = 32"
    unfolding DuressTokenDerive_hmac [OF assms(1)] by (rule length_hmac_sha256)
  have n: "nat 32 = 32" by simp
  show ?thesis
    unfolding DuressTokenCheck_def DuressTokenMatch_def Let_def n fold_or_diff [OF l assms(2)]
    using DuressTokenDerive_hmac [OF assms(1)] by auto
qed

end
