(* ===== verification/Crc.thy ===== *)
theory Crc
  imports Prelude
begin

text \<open>
  The checksum of the volume header, \<open>src/src/Common/Crc.c\<close>: the table, the table-driven \<open>GetCrc32\<close>, the unrolled
  \<open>crc32int\<close>, and the bit-wise \<open>GetCrc32\<close> of the builds with \<open>TC_MINIMIZE_CODE_SIZE\<close>. The lemmas prove every entry of the
  table to be eight steps of the bit-wise shift register, and from the linearity of the register that the two
  implementations agree on every input.
\<close>

definition crc_32_tab :: "u32 list" where
  "crc_32_tab = [
    0x00000000, 0x77073096, 0xee0e612c, 0x990951ba, 0x076dc419, 0x706af48f, 0xe963a535, 0x9e6495a3,
    0x0edb8832, 0x79dcb8a4, 0xe0d5e91e, 0x97d2d988, 0x09b64c2b, 0x7eb17cbd, 0xe7b82d07, 0x90bf1d91,
    0x1db71064, 0x6ab020f2, 0xf3b97148, 0x84be41de, 0x1adad47d, 0x6ddde4eb, 0xf4d4b551, 0x83d385c7,
    0x136c9856, 0x646ba8c0, 0xfd62f97a, 0x8a65c9ec, 0x14015c4f, 0x63066cd9, 0xfa0f3d63, 0x8d080df5,
    0x3b6e20c8, 0x4c69105e, 0xd56041e4, 0xa2677172, 0x3c03e4d1, 0x4b04d447, 0xd20d85fd, 0xa50ab56b,
    0x35b5a8fa, 0x42b2986c, 0xdbbbc9d6, 0xacbcf940, 0x32d86ce3, 0x45df5c75, 0xdcd60dcf, 0xabd13d59,
    0x26d930ac, 0x51de003a, 0xc8d75180, 0xbfd06116, 0x21b4f4b5, 0x56b3c423, 0xcfba9599, 0xb8bda50f,
    0x2802b89e, 0x5f058808, 0xc60cd9b2, 0xb10be924, 0x2f6f7c87, 0x58684c11, 0xc1611dab, 0xb6662d3d,
    0x76dc4190, 0x01db7106, 0x98d220bc, 0xefd5102a, 0x71b18589, 0x06b6b51f, 0x9fbfe4a5, 0xe8b8d433,
    0x7807c9a2, 0x0f00f934, 0x9609a88e, 0xe10e9818, 0x7f6a0dbb, 0x086d3d2d, 0x91646c97, 0xe6635c01,
    0x6b6b51f4, 0x1c6c6162, 0x856530d8, 0xf262004e, 0x6c0695ed, 0x1b01a57b, 0x8208f4c1, 0xf50fc457,
    0x65b0d9c6, 0x12b7e950, 0x8bbeb8ea, 0xfcb9887c, 0x62dd1ddf, 0x15da2d49, 0x8cd37cf3, 0xfbd44c65,
    0x4db26158, 0x3ab551ce, 0xa3bc0074, 0xd4bb30e2, 0x4adfa541, 0x3dd895d7, 0xa4d1c46d, 0xd3d6f4fb,
    0x4369e96a, 0x346ed9fc, 0xad678846, 0xda60b8d0, 0x44042d73, 0x33031de5, 0xaa0a4c5f, 0xdd0d7cc9,
    0x5005713c, 0x270241aa, 0xbe0b1010, 0xc90c2086, 0x5768b525, 0x206f85b3, 0xb966d409, 0xce61e49f,
    0x5edef90e, 0x29d9c998, 0xb0d09822, 0xc7d7a8b4, 0x59b33d17, 0x2eb40d81, 0xb7bd5c3b, 0xc0ba6cad,
    0xedb88320, 0x9abfb3b6, 0x03b6e20c, 0x74b1d29a, 0xead54739, 0x9dd277af, 0x04db2615, 0x73dc1683,
    0xe3630b12, 0x94643b84, 0x0d6d6a3e, 0x7a6a5aa8, 0xe40ecf0b, 0x9309ff9d, 0x0a00ae27, 0x7d079eb1,
    0xf00f9344, 0x8708a3d2, 0x1e01f268, 0x6906c2fe, 0xf762575d, 0x806567cb, 0x196c3671, 0x6e6b06e7,
    0xfed41b76, 0x89d32be0, 0x10da7a5a, 0x67dd4acc, 0xf9b9df6f, 0x8ebeeff9, 0x17b7be43, 0x60b08ed5,
    0xd6d6a3e8, 0xa1d1937e, 0x38d8c2c4, 0x4fdff252, 0xd1bb67f1, 0xa6bc5767, 0x3fb506dd, 0x48b2364b,
    0xd80d2bda, 0xaf0a1b4c, 0x36034af6, 0x41047a60, 0xdf60efc3, 0xa867df55, 0x316e8eef, 0x4669be79,
    0xcb61b38c, 0xbc66831a, 0x256fd2a0, 0x5268e236, 0xcc0c7795, 0xbb0b4703, 0x220216b9, 0x5505262f,
    0xc5ba3bbe, 0xb2bd0b28, 0x2bb45a92, 0x5cb36a04, 0xc2d7ffa7, 0xb5d0cf31, 0x2cd99e8b, 0x5bdeae1d,
    0x9b64c2b0, 0xec63f226, 0x756aa39c, 0x026d930a, 0x9c0906a9, 0xeb0e363f, 0x72076785, 0x05005713,
    0x95bf4a82, 0xe2b87a14, 0x7bb12bae, 0x0cb61b38, 0x92d28e9b, 0xe5d5be0d, 0x7cdcefb7, 0x0bdbdf21,
    0x86d3d2d4, 0xf1d4e242, 0x68ddb3f8, 0x1fda836e, 0x81be16cd, 0xf6b9265b, 0x6fb077e1, 0x18b74777,
    0x88085ae6, 0xff0f6a70, 0x66063bca, 0x11010b5c, 0x8f659eff, 0xf862ae69, 0x616bffd3, 0x166ccf45,
    0xa00ae278, 0xd70dd2ee, 0x4e048354, 0x3903b3c2, 0xa7672661, 0xd06016f7, 0x4969474d, 0x3e6e77db,
    0xaed16a4a, 0xd9d65adc, 0x40df0b66, 0x37d83bf0, 0xa9bcae53, 0xdebb9ec5, 0x47b2cf7f, 0x30b5ffe9,
    0xbdbdf21c, 0xcabac28a, 0x53b39330, 0x24b4a3a6, 0xbad03605, 0xcdd70693, 0x54de5729, 0x23d967bf,
    0xb3667a2e, 0xc4614ab8, 0x5d681b02, 0x2a6f2b94, 0xb40bbe37, 0xc30c8ea1, 0x5a05df1b, 0x2d02ef8d]"

definition UPDC32 :: "byte \<Rightarrow> u32 \<Rightarrow> u32" where
  "UPDC32 octet crc = crc_32_tab ! unat ((crc XOR ucast octet) AND 0xff) XOR drop_bit 8 crc"

text \<open>The body of the loops: the operands of the exclusive or are written in the other order.\<close>

definition crc_step :: "u32 \<Rightarrow> byte \<Rightarrow> u32" where
  "crc_step CRC b = drop_bit 8 CRC XOR crc_32_tab ! unat ((CRC XOR ucast b) AND 0xFF)"

definition GetCrc32 :: "bytes \<Rightarrow> u32" where
  "GetCrc32 data = foldl crc_step 0xffffffff data XOR 0xffffffff"

text \<open>\<open>crc32int\<close>, over the four bytes of the integer.\<close>

definition crc32int :: "bytes \<Rightarrow> u32" where
  "crc32int d =
     (let CRC = 0xffffffff;
          CRC = drop_bit 8 CRC XOR crc_32_tab ! unat ((CRC XOR ucast (d ! 0)) AND 0xFF);
          CRC = drop_bit 8 CRC XOR crc_32_tab ! unat ((CRC XOR ucast (d ! 1)) AND 0xFF);
          CRC = drop_bit 8 CRC XOR crc_32_tab ! unat ((CRC XOR ucast (d ! 2)) AND 0xFF)
      in drop_bit 8 CRC XOR crc_32_tab ! unat ((CRC XOR ucast (d ! 3)) AND 0xFF) XOR 0xffffffff)"

text \<open>The build that trades speed for size: \<open>(unsigned __int8) r & 1\<close> is the lowest bit.\<close>

definition crc_bit :: "u32 \<Rightarrow> u32" where
  "crc_bit r = (if (ucast r :: byte) AND 1 \<noteq> 0 then drop_bit 1 r XOR 0xEDB88320 else drop_bit 1 r)"

definition GetCrc32_minimal :: "bytes \<Rightarrow> u32" where
  "GetCrc32_minimal data =
     foldl (\<lambda>r d. fold (\<lambda>b r. crc_bit r) [0..<8] (r XOR ucast d)) 0xFFFFFFFF data XOR 0xFFFFFFFF"

section \<open>The two implementations agree\<close>

lemma crc_bit_odd: "crc_bit r = drop_bit 1 r XOR (if bit r 0 then 0xEDB88320 else 0)"
proof -
  have "(ucast r :: byte) AND 1 \<noteq> 0 \<longleftrightarrow> bit (ucast r :: byte) 0" by (simp add: and_one_eq bit_0 odd_iff_mod_2_eq_one)
  also have "\<dots> \<longleftrightarrow> bit r 0" by (simp only: bit_ucast_iff) simp
  finally show ?thesis by (simp add: crc_bit_def)
qed

text \<open>The shift register is linear.\<close>

lemma crc_bit_xor: "crc_bit (x XOR y) = crc_bit x XOR crc_bit y"
  by (auto simp: crc_bit_odd bit_xor_iff drop_bit_xor xor.assoc xor.left_commute)

abbreviation crc_byte :: "u32 \<Rightarrow> u32" where
  "crc_byte r \<equiv> fold (\<lambda>b r. crc_bit r) [0..<8] r"

lemma crc_byte_pow: "crc_byte r = (crc_bit ^^ 8) r"
  by (simp add: upt_rec numeral_eq_Suc)

lemma crc_pow_xor: "(crc_bit ^^ n) (x XOR y) = (crc_bit ^^ n) x XOR (crc_bit ^^ n) y"
  by (induction n) (simp_all add: crc_bit_xor)

lemma crc_pow_high: "(\<And>i. i < n \<Longrightarrow> \<not> bit x i) \<Longrightarrow> (crc_bit ^^ n) x = drop_bit n x"
proof (induction n)
  case (Suc n)
  have "(crc_bit ^^ Suc n) x = crc_bit (drop_bit n x)" using Suc by simp
  also have "\<not> bit (drop_bit n x) 0" using Suc.prems [of n] by (simp add: bit_drop_bit_eq)
  then have "crc_bit (drop_bit n x) = drop_bit (Suc n) x" by (simp add: crc_bit_odd drop_bit_drop_bit)
  finally show ?case .
qed simp

text \<open>Steps on literals, for evaluating the table.\<close>

lemma unat_numeral32: "(numeral n :: nat) < 4294967296 \<Longrightarrow> unat (numeral n :: u32) = numeral n"
proof -
  assume n: "(numeral n :: nat) < 4294967296"
  have "unat (of_nat (numeral n) :: u32) = numeral n mod 4294967296" by (simp only: unat_of_nat) simp
  also have "\<dots> = numeral n" by (rule mod_less [OF n])
  finally have "unat (of_nat (numeral n) :: u32) = numeral n" .
  then show ?thesis by (simp only: of_nat_numeral)
qed

lemma drop_bit_numeral32:
  assumes "(numeral n :: nat) < 4294967296" "(numeral m :: nat) = numeral n div 2"
  shows "drop_bit 1 (numeral n :: u32) = numeral m"
proof -
  have m: "(numeral m :: nat) < 4294967296" using assms by linarith
  have "unat (drop_bit 1 (numeral n :: u32)) = unat (numeral m :: u32)"
    unfolding unat_drop_bit_eq unat_numeral32 [OF assms(1)] unat_numeral32 [OF m] assms(2) by (simp add: drop_bit_eq_div)
  then show ?thesis by (simp only: word_unat_eq_iff)
qed

lemma crc_bit_literal:
  "(numeral (Num.Bit0 n) :: nat) < 4294967296 \<Longrightarrow> crc_bit (numeral (Num.Bit0 n)) = numeral n"
  "(numeral (Num.Bit1 n) :: nat) < 4294967296 \<Longrightarrow> crc_bit (numeral (Num.Bit1 n)) = numeral n XOR 0xEDB88320"
  "crc_bit 0 = 0" "crc_bit 1 = 0xEDB88320"
  using drop_bit_numeral32 [of "Num.Bit0 n" n] drop_bit_numeral32 [of "Num.Bit1 n" n]
  by (simp_all only: crc_bit_odd) (simp_all add: bit_0)

lemma crc_8: "(crc_bit ^^ 8) x = crc_bit (crc_bit (crc_bit (crc_bit (crc_bit (crc_bit (crc_bit (crc_bit x)))))))"
  by (simp add: numeral_eq_Suc)

lemma crc_tab_entry: "map (\<lambda>i. (crc_bit ^^ 8) (of_nat i)) [0..<256] = crc_32_tab"
  unfolding crc_8 crc_32_tab_def by (simp add: crc_bit_literal upt_conv_Cons)

lemma nth_crc_tab: "i < 256 \<Longrightarrow> crc_32_tab ! i = (crc_bit ^^ 8) (of_nat i)"
  by (simp flip: crc_tab_entry)

text \<open>One byte: the upper bits of the register are shifted, the lower ones select the entry.\<close>

lemma bit_255: "bit (0xFF :: u32) i \<longleftrightarrow> i < 8"
proof -
  have "(0xFF :: u32) = mask 8" by (simp add: mask_eq_exp_minus_1)
  then show ?thesis by (simp only: bit_mask_iff) auto
qed

lemma crc_step_bits: "crc_step r b = crc_byte (r XOR ucast b)"
proof -
  obtain M where M: "M = (0xFF :: u32)" and ff: "\<And>i. bit M i \<longleftrightarrow> i < 8" using bit_255 by blast
  let ?x = "r XOR ucast b" and ?lo = "(r XOR ucast b) AND M"
  have "unat ?lo \<le> unat M" by (rule word_le_nat_alt [THEN iffD1]) (rule word_and_le1)
  then have lo: "unat ?lo < 256" by (simp add: M)
  have "x = (x AND NOT m) XOR (x AND m)" for x m :: u32
    by (rule bit_word_eqI) (auto simp: bit_and_iff bit_not_iff bit_xor_iff)
  then have split: "?x = (?x AND NOT M) XOR ?lo" .
  have "crc_byte ?x = (crc_bit ^^ 8) (?x AND NOT M) XOR (crc_bit ^^ 8) ?lo"
    by (subst split) (simp only: crc_byte_pow crc_pow_xor)
  also have "(crc_bit ^^ 8) (?x AND NOT M) = drop_bit 8 (?x AND NOT M)"
    by (rule crc_pow_high) (simp add: bit_and_iff bit_not_iff ff)
  also have "drop_bit 8 (?x AND NOT M) = drop_bit 8 r"
    by (rule bit_word_eqI) (auto simp: bit_drop_bit_eq bit_and_iff bit_not_iff bit_xor_iff bit_ucast_iff ff dest: bit_imp_le_length)
  also have "(crc_bit ^^ 8) ?lo = crc_32_tab ! unat ?lo"
    using nth_crc_tab [OF lo] by simp
  finally show ?thesis by (simp only: crc_step_def M)
qed

lemma GetCrc32_minimal_eq: "GetCrc32_minimal data = GetCrc32 data"
  unfolding GetCrc32_minimal_def GetCrc32_def crc_step_bits [abs_def, symmetric] ..

lemma crc32int_eq: "length d = 4 \<Longrightarrow> crc32int d = GetCrc32 d"
proof -
  assume "length d = 4"
  then obtain a b c e where "d = [a, b, c, e]" using list_4_nth by blast
  moreover have "[a, b, c, e] ! 0 = a" "[a, b, c, e] ! 1 = b" "[a, b, c, e] ! 2 = c" "[a, b, c, e] ! 3 = e" by simp_all
  ultimately show ?thesis
    unfolding crc32int_def GetCrc32_def Let_def by (simp only: foldl.simps crc_step_def xor.assoc)
qed

lemma UPDC32_step: "UPDC32 b crc = crc_step crc b"
  by (simp add: UPDC32_def crc_step_def xor.commute)

end
