(* ===== verification/BlockCipher.thy ===== *)
theory BlockCipher
  imports Prelude
begin

text \<open>
  The interface between the modes of operation and their block cipher: a permutation of the blocks of 16 bytes
  and its inverse. The modes (\<open>Hctr2.thy\<close>, \<open>Adiantum.thy\<close>, \<open>Xts.thy\<close>) rest on these laws only;
  \<open>AesCt.thy\<close> provides them.
\<close>

definition blocks16 :: "bytes set" where
  "blocks16 = {b. length b = 16}"

lemma finite_blocks16: "finite blocks16"
proof -
  have "blocks16 = {b. set b \<subseteq> UNIV \<and> length b = 16}" by (simp add: blocks16_def)
  then show ?thesis using finite_lists_length_eq [of "UNIV :: byte set" 16] by simp
qed

locale block_cipher =
  fixes E D :: "bytes \<Rightarrow> bytes"
  assumes length_E: "length b = 16 \<Longrightarrow> length (E b) = 16"
    and length_D: "length b = 16 \<Longrightarrow> length (D b) = 16"
    and D_E: "length b = 16 \<Longrightarrow> D (E b) = b"
begin

text \<open>There are finitely many blocks, so the inverse on one side is the inverse on the other.\<close>

lemma E_D: "length b = 16 \<Longrightarrow> E (D b) = b"
proof -
  have "inj_on E blocks16" by (rule inj_on_inverseI [of _ D]) (simp add: blocks16_def D_E)
  moreover have "E ` blocks16 \<subseteq> blocks16" by (auto simp: blocks16_def length_E)
  ultimately have "E ` blocks16 = blocks16" by (rule endo_inj_surj [OF finite_blocks16, rotated])
  moreover assume "length b = 16"
  ultimately obtain a where "b = E a" "length a = 16" unfolding blocks16_def by blast
  then show ?thesis by (simp add: D_E)
qed

lemma E_inject: "length a = 16 \<Longrightarrow> length b = 16 \<Longrightarrow> E a = E b \<longleftrightarrow> a = b"
  by (metis D_E)

end

end
