(* ===== verification/XtsCorrect.thy ===== *)
theory XtsCorrect
  imports Xts
begin

text \<open>
  The proofs about XTS: the shift of the whitening value is the multiplication by \<open>x\<close>, in 64-bit and in 32-bit words;
  the bodies and the outer loops compute \<open>xts_spec\<close>; decryption undoes encryption; and \<open>xts_spec\<close> is the standard
  unless a buffer of fewer than 32 blocks crosses the end of a data unit.
\<close>

section \<open>Whitening values as polynomials\<close>

definition comb :: "wval \<Rightarrow> 128 word" where
  "comb w = ucast (fst w) OR push_bit 64 (ucast (snd w))"

definition comb32 :: "u32 list \<Rightarrow> 128 word" where
  "comb32 w = ucast (w ! 0) OR push_bit 32 (ucast (w ! 1)) OR push_bit 64 (ucast (w ! 2)) OR push_bit 96 (ucast (w ! 3))"

lemma bit_u64_less: "bit (x :: u64) n \<Longrightarrow> n < 64"
  using bit_imp_le_length [of x n] by simp

lemma bit_u32_less: "bit (x :: u32) n \<Longrightarrow> n < 32"
  using bit_imp_le_length [of x n] by simp

lemma bit_comb: "bit (comb w) n \<longleftrightarrow> (if n < 64 then bit (fst w) n else bit (snd w) (n - 64))"
  by (auto simp: comb_def bit_simps dest: bit_u64_less)

lemma bit_comb32: "bit (comb32 w) n \<longleftrightarrow> n < 128 \<and> bit (w ! (n div 32)) (n mod 32)"
proof -
  have c: "n < 128 \<Longrightarrow> n div 32 = 0 \<or> n div 32 = 1 \<or> n div 32 = 2 \<or> n div 32 = 3" by linarith
  have m: "n mod 32 = n - 32 * (n div 32)" by (rule minus_mult_div_eq_mod [symmetric])
  show ?thesis
  proof (cases "n < 128")
    case True
    from c [OF this] show ?thesis
    proof (elim disjE)
      assume q: "n div 32 = 0"
      then have "n < 32" by linarith
      then show ?thesis unfolding m q by (auto simp: comb32_def bit_or_iff bit_push_bit_iff bit_ucast_iff)
    next
      assume q: "n div 32 = 1"
      then have "32 \<le> n" "n < 64" by linarith+
      then show ?thesis unfolding m q by (auto simp: comb32_def bit_or_iff bit_push_bit_iff bit_ucast_iff dest: bit_u32_less)
    next
      assume q: "n div 32 = 2"
      then have "64 \<le> n" "n < 96" by linarith+
      then show ?thesis unfolding m q by (auto simp: comb32_def bit_or_iff bit_push_bit_iff bit_ucast_iff dest: bit_u32_less)
    next
      assume q: "n div 32 = 3"
      then have "96 \<le> n" by linarith
      then show ?thesis unfolding m q using True by (auto simp: comb32_def bit_or_iff bit_push_bit_iff bit_ucast_iff dest: bit_u32_less)
    qed
  qed (auto simp: comb32_def bit_simps dest: bit_u32_less)
qed

lemma and_top64: "(x :: u64) AND 0x8000000000000000 \<noteq> 0 \<longleftrightarrow> bit x 63"
proof -
  have "(0x8000000000000000 :: u64) = push_bit 63 1" by simp
  then have "x AND 0x8000000000000000 \<noteq> 0 \<longleftrightarrow> x AND push_bit 63 1 \<noteq> 0" by (rule arg_cong)
  also have "\<dots> \<longleftrightarrow> bit x 63" unfolding bit_iff_and_push_bit_not_eq_0 ..
  finally show ?thesis .
qed

lemma and_top32: "(x :: u32) AND 0x80000000 \<noteq> 0 \<longleftrightarrow> bit x 31"
proof -
  have "(0x80000000 :: u32) = push_bit 31 1" by simp
  then have "x AND 0x80000000 \<noteq> 0 \<longleftrightarrow> x AND push_bit 31 1 \<noteq> 0" by (rule arg_cong)
  also have "\<dots> \<longleftrightarrow> bit x 31" unfolding bit_iff_and_push_bit_not_eq_0 ..
  finally show ?thesis .
qed

lemma bit_135: "bit (135 :: 'a::len word) n \<longleftrightarrow> n < LENGTH('a) \<and> (n = 0 \<or> n = 1 \<or> n = 2 \<or> n = 7)"
proof -
  have "(135 :: 'a word) = push_bit 0 1 OR push_bit 1 1 OR push_bit 2 1 OR push_bit 7 1" by simp
  then have "bit (135 :: 'a word) n \<longleftrightarrow> bit (push_bit 0 1 OR push_bit 1 1 OR push_bit 2 1 OR push_bit 7 1 :: 'a word) n"
    by (rule arg_cong)
  also have "\<dots> \<longleftrightarrow> n < LENGTH('a) \<and> (n = 0 \<or> n = 1 \<or> n = 2 \<or> n = 7)"
    unfolding bit_or_iff bit_push_bit_iff bit_1_iff possible_bit_word by auto
  finally show ?thesis .
qed

lemma bit_xts_x: "n < 128 \<Longrightarrow> bit (xts_x w) n \<longleftrightarrow> ((0 < n \<and> bit w (n - 1)) \<noteq> (bit w 127 \<and> (n = 0 \<or> n = 1 \<or> n = 2 \<or> n = 7)))"
  unfolding xts_x_def if_distrib [of "\<lambda>x. bit x n"] bit_xor_iff bit_push_bit_iff bit_135 bit_0_eq bot_apply
  by (cases n) auto

lemma comb_next: "comb (next_wval w) = xts_x (comb w)"
proof (rule bit_word_eqI)
  fix n assume "n < LENGTH(128)"
  then have n: "n < 128" by simp
  obtain lo hi where w: "w = (lo, hi)" by (cases w)
  show "bit (comb (next_wval w)) n \<longleftrightarrow> bit (xts_x (comb w)) n"
  proof (cases "n < 64")
    case True
    have "bit (comb (next_wval w)) n \<longleftrightarrow> bit (push_bit 1 lo XOR (if bit hi 63 then 135 else 0)) n"
      unfolding bit_comb next_wval_def Let_def w fst_conv snd_conv and_top64 using True by simp
    also have "\<dots> \<longleftrightarrow> ((0 < n \<and> bit lo (n - 1)) \<noteq> (bit hi 63 \<and> (n = 0 \<or> n = 1 \<or> n = 2 \<or> n = 7)))"
      unfolding if_distrib [of "\<lambda>x. bit x n"] bit_xor_iff bit_push_bit_iff bit_135 bit_0_eq bot_apply possible_bit_word
      using True by (cases n) auto
    finally show ?thesis unfolding bit_xts_x [OF n] bit_comb w fst_conv snd_conv using True less_imp_diff_less [OF True, of 1] by simp
  next
    case False
    have "bit (comb (next_wval w)) n \<longleftrightarrow> bit (if bit lo 63 then push_bit 1 hi OR 1 else push_bit 1 hi) (n - 64)"
      unfolding bit_comb next_wval_def Let_def w fst_conv snd_conv and_top64 using False by simp
    also have "\<dots> \<longleftrightarrow> (if n = 64 then bit lo 63 else bit hi (n - 65))"
      unfolding if_distrib [of "\<lambda>x. bit x (n - 64)"] bit_or_iff bit_push_bit_iff bit_1_iff possible_bit_word
      using False n by auto
    finally show ?thesis unfolding bit_xts_x [OF n] bit_comb w fst_conv snd_conv using False by auto
  qed
qed


lemma next_dwords_4:
  "next_dwords [a, b, c, d] =
    [push_bit 1 a XOR (if bit d 31 then 135 else 0), if bit a 31 then push_bit 1 b OR 1 else push_bit 1 b,
     if bit b 31 then push_bit 1 c OR 1 else push_bit 1 c, if bit c 31 then push_bit 1 d OR 1 else push_bit 1 d]"
  unfolding next_dwords_def Let_def fold.simps and_top32 by (simp add: numeral_2_eq_2 numeral_3_eq_3)

lemma comb32_next: "length w = 4 \<Longrightarrow> comb32 (next_dwords w) = xts_x (comb32 w)"
proof (rule bit_word_eqI)
  fix n assume l: "length w = 4" and "n < LENGTH(128)"
  then have n: "n < 128" by simp
  obtain a b c d where w: "w = [a, b, c, d]" using list_4_nth [OF l] by blast
  define q r where "q = n div 32" and "r = n mod 32"
  have qr: "n = 32 * q + r" "r < 32" "q < 4" using n by (auto simp: q_def r_def)
  have b32: "bit (comb32 w) (32 * q' + r') \<longleftrightarrow> bit (w ! q') r'" if "q' < 4" "r' < 32" for q' r' and w :: "u32 list"
    using that by (simp add: bit_comb32)
  have up: "bit (if p then push_bit 1 y OR 1 else push_bit 1 y) r \<longleftrightarrow> (if r = 0 then p else bit y (r - 1))" for p and y :: u32
    unfolding if_distrib [of "\<lambda>x. bit x r"] bit_or_iff bit_push_bit_iff bit_1_iff possible_bit_word
    using qr(2) by (cases r) auto
  have low: "bit (push_bit 1 a XOR (if bit d 31 then 135 else 0)) r \<longleftrightarrow>
      ((0 < r \<and> bit a (r - 1)) \<noteq> (bit d 31 \<and> (r = 0 \<or> r = 1 \<or> r = 2 \<or> r = 7)))"
    unfolding if_distrib [of "\<lambda>x. bit x r"] bit_xor_iff bit_push_bit_iff bit_135 bit_0_eq bot_apply possible_bit_word
    using qr(2) by (cases r) auto
  have top: "bit (comb32 w) 127 \<longleftrightarrow> bit d 31" using b32 [of 3 31 w] by (simp add: w)
  have prev: "bit (comb32 w) (n - 1) \<longleftrightarrow> (if r = 0 then bit (w ! (q - 1)) 31 else bit (w ! q) (r - 1))" if "0 < n"
  proof (cases "r = 0")
    case True
    then have "n - 1 = 32 * (q - 1) + 31" "0 < q" using qr that by (cases q; simp)+
    then show ?thesis using b32 [of "q - 1" 31 w] qr True by simp
  next
    case False
    then have "n - 1 = 32 * q + (r - 1)" using qr by simp
    then show ?thesis using b32 [of q "r - 1" w] qr False by simp
  qed
  have q: "q = 0 \<or> q = 1 \<or> q = 2 \<or> q = 3" using qr(3) by linarith
  have lhs: "bit (comb32 (next_dwords w)) n \<longleftrightarrow> bit (next_dwords w ! q) r" unfolding qr(1) by (rule b32) (use qr in auto)
  show "bit (comb32 (next_dwords w)) n \<longleftrightarrow> bit (xts_x (comb32 w)) n"
    using q
  proof (elim disjE)
    assume q0: "q = 0"
    then show ?thesis unfolding bit_xts_x [OF n] lhs top using prev low qr by (auto simp: w next_dwords_4)
  next
    assume "q = 1"
    then show ?thesis unfolding bit_xts_x [OF n] lhs top using prev up [of "bit a 31" b] qr by (auto simp: w next_dwords_4)
  next
    assume "q = 2"
    then show ?thesis unfolding bit_xts_x [OF n] lhs top using prev up [of "bit b 31" c] qr by (auto simp: w next_dwords_4 numeral_2_eq_2)
  next
    assume "q = 3"
    then show ?thesis unfolding bit_xts_x [OF n] lhs top using prev up [of "bit c 31" d] qr by (auto simp: w next_dwords_4 numeral_2_eq_2 numeral_3_eq_3)
  qed
qed


lemma next_pow: "comb ((next_wval ^^ j) w) = (xts_x ^^ j) (comb w)"
  by (induction j) (simp_all add: comb_next)

lemma length_next_dwords: "length w = 4 \<Longrightarrow> length (next_dwords w) = 4"
proof -
  assume "length w = 4"
  then obtain a b c d where "w = [a, b, c, d]" using list_4_nth by blast
  then show ?thesis by (simp add: next_dwords_4)
qed

lemma next32_pow: "length w = 4 \<Longrightarrow> length ((next_dwords ^^ j) w) = 4 \<and> comb32 ((next_dwords ^^ j) w) = (xts_x ^^ j) (comb32 w)"
  by (induction j) (simp_all add: comb32_next length_next_dwords)

text \<open>The bytes of a whitening value.\<close>

lemma bytes16_eqI:
  assumes "length a = 16" "length b = 16" "\<And>i j. i < 16 \<Longrightarrow> j < 8 \<Longrightarrow> bit (a ! i) j \<longleftrightarrow> bit (b ! i) j"
  shows "a = (b :: bytes)"
  using assms by (intro nth_equalityI bit_word_eqI) simp_all

lemma store_wval_comb: "store_wval w = le_bytes 16 (comb w)"
proof (rule bytes16_eqI)
  fix i j :: nat assume i: "i < 16" "j < 8"
  show "bit (store_wval w ! i) j \<longleftrightarrow> bit (le_bytes 16 (comb w) ! i) j"
  proof (cases "i < 8")
    case True
    then show ?thesis using i by (simp add: store_wval_def nth_append nth_le_bytes bit_simps bit_comb)
  next
    case False
    then have "8 * i + j - 64 = 8 * (i - 8) + j" by simp
    then show ?thesis using i False by (simp add: store_wval_def nth_append nth_le_bytes bit_simps bit_comb)
  qed
qed (simp_all add: store_wval_def)

lemma comb_load_wval: "length b = 16 \<Longrightarrow> comb (load_wval b) = le_word b"
proof (rule bit_word_eqI)
  fix n assume b: "length b = 16" and "n < LENGTH(128)"
  then have n: "n < 128" by simp
  show "bit (comb (load_wval b)) n \<longleftrightarrow> bit (le_word b :: 128 word) n"
  proof (cases "n < 64")
    case True
    then have "n div 8 < 8" by (simp add: less_mult_imp_div_less)
    then show ?thesis using b True by (simp add: bit_comb load_wval_def bit_le_word)
  next
    case False
    define k where "k = n - 64"
    have k: "n = 64 + k" "k < 64" using False n by (simp_all add: k_def)
    have d: "(64 + k) div 8 = 8 + k div 8" "(64 + k) mod 8 = k mod 8"
      using mod_mult_self2 [of k 8 8] by (simp_all add: add.commute)
    show ?thesis using b k d by (simp add: bit_comb load_wval_def bit_le_word)
  qed
qed

lemma le_bytes_xor: "le_bytes n (x XOR y) = xor_bytes (le_bytes n x) (le_bytes n y)"
proof (rule nth_equalityI)
  fix i assume "i < length (le_bytes n (x XOR y))"
  then have i: "i < n" by simp
  show "le_bytes n (x XOR y) ! i = xor_bytes (le_bytes n x) (le_bytes n y) ! i"
    using i by (simp add: nth_xor_bytes nth_le_bytes) (rule bit_word_eqI, simp add: bit_simps)
qed simp

lemma le_bytes_load: "n \<le> length b \<Longrightarrow> 8 * n = LENGTH('a) \<Longrightarrow> le_bytes n (le_word (take n b) :: 'a::len word) = take n b"
  by (rule le_bytes_le_word) simp_all

lemma xor_words_pair:
  "16 \<le> length b \<Longrightarrow> xor_words b (fst w # snd w # ws) = xor_bytes (take 16 b) (store_wval w) @ xor_words (drop 16 b) ws"
proof -
  assume l: "16 \<le> length b"
  have t: "take 16 b = take 8 b @ take 8 (drop 8 b)" using take_add [of 8 8 b] by simp
  have "xor_bytes (take 16 b) (store_wval w) = xor_bytes (take 8 b) (le_bytes 8 (fst w)) @ xor_bytes (take 8 (drop 8 b)) (le_bytes 8 (snd w))"
    unfolding t store_wval_def using l by (simp add: xor_bytes_append)
  then show ?thesis using l by (simp add: le_bytes_xor le_bytes_load drop_drop)
qed

lemma xor_words_block: "16 \<le> length b \<Longrightarrow> xor_words b [fst w, snd w] = xor_bytes (take 16 b) (le_bytes 16 (comb w))"
  using xor_words_pair [of b w "[]"] by (simp only: xor_words.simps store_wval_comb append_Nil2)

lemma le_bytes_comb32: "le_bytes 16 (comb32 [w0, w1, w2, w3]) = le_bytes 4 w0 @ le_bytes 4 w1 @ le_bytes 4 w2 @ le_bytes 4 w3"
proof (rule bytes16_eqI)
  define w where "w = [w0, w1, w2, w3]"
  fix i j :: nat assume ij: "i < 16" "j < 8"
  have "bit (le_bytes 16 (comb32 w) ! i) j \<longleftrightarrow> bit (w ! (i div 4)) (8 * (i mod 4) + j)"
  proof -
    have e: "8 * i + j = 32 * (i div 4) + (8 * (i mod 4) + j)" using mult_div_mod_eq [of 4 i] by linarith
    have "8 * (i mod 4) + j < 32" using ij(2) mod_less_divisor [of 4 i] by linarith
    then have "(8 * i + j) div 32 = i div 4" "(8 * i + j) mod 32 = 8 * (i mod 4) + j" unfolding e by simp_all
    then show ?thesis using ij by (simp add: nth_le_bytes bit_simps bit_comb32)
  qed
  moreover have "(le_bytes 4 w0 @ le_bytes 4 w1 @ le_bytes 4 w2 @ le_bytes 4 w3) ! i = le_bytes 4 (w ! (i div 4)) ! (i mod 4)"
  proof -
    have "i < 4 \<or> (4 \<le> i \<and> i < 8) \<or> (8 \<le> i \<and> i < 12) \<or> (12 \<le> i \<and> i < 16)" using ij by linarith
    then show ?thesis
    proof (elim disjE conjE)
      assume "4 \<le> i" "i < 8"
      then have "i div 4 = 1" "i mod 4 = i - 4" "i - 4 < 4" by (simp_all add: le_div_geq le_mod_geq)
      then show ?thesis using \<open>4 \<le> i\<close> \<open>i < 8\<close> by (simp add: w_def nth_append)
    next
      assume "8 \<le> i" "i < 12"
      then have "i div 4 = 2" "i mod 4 = i - 8" "i - 8 < 4" "\<not> i - 4 < 4" by (simp_all add: le_div_geq le_mod_geq)
      then show ?thesis using \<open>8 \<le> i\<close> \<open>i < 12\<close> by (simp add: w_def nth_append)
    next
      assume "12 \<le> i" "i < 16"
      then have "i div 4 = 3" "i mod 4 = i - 12" "i - 12 < 4" "\<not> i - 4 < 4" "\<not> i - 8 < 4" by (simp_all add: le_div_geq le_mod_geq)
      then show ?thesis using \<open>12 \<le> i\<close> by (simp add: w_def nth_append)
    qed (simp add: w_def nth_append)
  qed
  ultimately show "bit (le_bytes 16 (comb32 [w0, w1, w2, w3]) ! i) j \<longleftrightarrow> bit ((le_bytes 4 w0 @ le_bytes 4 w1 @ le_bytes 4 w2 @ le_bytes 4 w3) ! i) j"
    using ij by (simp add: nth_le_bytes bit_simps flip: w_def)
qed simp_all

lemma xor_dwords_block:
  assumes "16 \<le> length b" "length w = 4"
  shows "xor_dwords b w = xor_bytes (take 16 b) (le_bytes 16 (comb32 w))"
proof -
  obtain w0 w1 w2 w3 where w: "w = [w0, w1, w2, w3]" using list_4_nth [OF assms(2)] by blast
  have t: "take 16 b = take 4 b @ take 4 (drop 4 b) @ take 4 (drop 8 b) @ take 4 (drop 12 b)"
    using take_add [of 4 12 b] take_add [of 4 8 "drop 4 b"] take_add [of 4 4 "drop 8 b"] by simp
  show ?thesis unfolding w le_bytes_comb32 t
    using assms(1) by (simp add: w xor_bytes_append le_bytes_xor le_bytes_load)
qed

lemma length_load_dwords [simp]: "length (load_dwords b) = 4"
  by (simp add: load_dwords_def)

lemma comb32_load_dwords: "length b = 16 \<Longrightarrow> comb32 (load_dwords b) = le_word b"
proof (rule bit_word_eqI)
  fix n assume b: "length b = 16" and "n < LENGTH(128)"
  then have n: "n < 128" by simp
  have d: "n div 8 = 4 * (n div 32) + n mod 32 div 8"
  proof -
    have "(r + 8 * (4 * q)) div 8 = 4 * q + r div 8" for q r :: nat by simp
    from this [of "n mod 32" "n div 32"] show ?thesis by simp
  qed
  have d': "n mod 32 mod 8 = n mod 8" by (simp add: mod_mod_cancel)
  have "n div 8 < 16" "n div 32 < 4" "n mod 32 div 8 < 4" using n by (simp_all add: less_mult_imp_div_less)
  moreover from this have "n mod 32 div 8 < 16 - 4 * (n div 32)" using d by linarith
  ultimately show "bit (comb32 (load_dwords b)) n \<longleftrightarrow> bit (le_word b :: 128 word) n"
    using b n d [symmetric] d' by (simp add: bit_comb32 load_dwords_def bit_le_word)
qed


section \<open>The bodies compute whitened blocks\<close>

definition tweak_at :: "128 word \<Rightarrow> nat \<Rightarrow> bytes" where
  "tweak_at v j = le_bytes 16 ((xts_x ^^ j) v)"

lemma length_tweak_at [simp]: "length (tweak_at v j) = 16"
  by (simp add: tweak_at_def)

definition unit_spec :: "(bytes \<Rightarrow> bytes) \<Rightarrow> 128 word \<Rightarrow> nat \<Rightarrow> nat \<Rightarrow> bytes \<Rightarrow> bytes" where
  "unit_spec E v s c buf = concat (map (\<lambda>k. xts_block E (tweak_at v (s + k)) (slice (16 * k) 16 buf)) [0..<c])"

definition block_size :: "(bytes \<Rightarrow> bytes) \<Rightarrow> bool" where
  "block_size E \<longleftrightarrow> (\<forall>b. length b = 16 \<longrightarrow> length (E b) = 16)"

lemma length_xts_block: "block_size E \<Longrightarrow> length tw = 16 \<Longrightarrow> length b = 16 \<Longrightarrow> length (xts_block E tw b) = 16"
  by (simp add: xts_block_def block_size_def)

text \<open>Both bodies that go block by block are this loop.\<close>

lemma block_loop:
  "s \<le> e \<Longrightarrow> fold (\<lambda>block (w, out, rest). if s \<le> block then (nxt w, out @ emit w rest, drop 16 rest) else (nxt w, out, rest))
     [0..<e] (w0, [], buf)
   = ((nxt ^^ e) w0, concat (map (\<lambda>k. emit ((nxt ^^ (s + k)) w0) (drop (16 * k) buf)) [0..<e - s]), drop (16 * (e - s)) buf)"
proof (induction e)
  case (Suc e)
  show ?case
  proof (cases "s \<le> e")
    case True
    then show ?thesis using Suc by (simp add: Suc_diff_le drop_drop add.commute)
  next
    case False
    then have "s = Suc e" using Suc.prems by simp
    moreover have "fold (\<lambda>block (w, out, rest). if s \<le> block then (nxt w, out @ emit w rest, drop 16 rest) else (nxt w, out, rest))
        [0..<m] (w0, [], buf) = ((nxt ^^ m) w0, [], buf)" if "m \<le> s" for m
      using that by (induction m) simp_all
    from this [of "Suc e"] False Suc.prems show ?thesis by simp
  qed
qed simp

lemma slice_drop: "take n (drop m b) = slice m n b"
  by (simp add: slice_def)

lemma block_unit_spec:
  assumes "block_size E" "s \<le> e" "16 * (e - s) \<le> length buf"
  shows "block_unit E T unit s e buf = unit_spec E (comb (first_wval T unit)) s (e - s) buf"
proof -
  have *: "xor_words (E (xor_words (drop (16 * k) buf) [fst w, snd w])) [fst w, snd w]
      = xts_block E (le_bytes 16 (comb w)) (slice (16 * k) 16 buf)" if "k < e - s" for k w
  proof -
    have l: "16 \<le> length (drop (16 * k) buf)" using that assms(3) by simp
    then have "length (E (xor_bytes (take 16 (drop (16 * k) buf)) (le_bytes 16 (comb w)))) = 16"
      using assms(1) by (simp add: block_size_def)
    then show ?thesis using l by (simp add: xor_words_block xts_block_def slice_drop del: xor_words.simps)
  qed
  show ?thesis
    unfolding block_unit_def unit_spec_def tweak_at_def Let_def prod.case
      block_loop [OF assms(2), of next_wval "\<lambda>w rest. xor_words (E (xor_words rest [fst w, snd w])) [fst w, snd w]"]
    by (rule arg_cong [of _ _ concat], rule map_cong [OF refl]) (simp add: * next_pow del: xor_words.simps)
qed

lemma dword_unit_spec:
  assumes "block_size E" "s \<le> e" "16 * (e - s) \<le> length buf"
  shows "dword_unit E T hi lo s e buf = unit_spec E (comb32 (load_dwords (T (Uint64ToLE16ByteArray hi lo)))) s (e - s) buf"
proof -
  have *: "xor_dwords (E (xor_dwords (drop (16 * k) buf) w)) w = xts_block E (le_bytes 16 (comb32 w)) (slice (16 * k) 16 buf)"
    if "k < e - s" "length w = 4" for k w
  proof -
    have l: "16 \<le> length (drop (16 * k) buf)" using that assms(3) by simp
    then have "length (E (xor_bytes (take 16 (drop (16 * k) buf)) (le_bytes 16 (comb32 w)))) = 16"
      using assms(1) by (simp add: block_size_def)
    then show ?thesis using l that by (simp add: xor_dwords_block xts_block_def slice_drop)
  qed
  show ?thesis
    unfolding dword_unit_def unit_spec_def tweak_at_def Let_def prod.case
      block_loop [OF assms(2), of next_dwords "\<lambda>w rest. xor_dwords (E (xor_dwords rest w)) w"]
    by (rule arg_cong [of _ _ concat], rule map_cong [OF refl]) (simp add: * next32_pow)
qed

text \<open>The parallel body.\<close>

lemma whitening_values:
  "s \<le> e \<Longrightarrow> fold (\<lambda>block (w, ws). (next_wval w, if s \<le> block then ws @ [fst w, snd w] else ws)) [0..<e] (w0, [])
   = ((next_wval ^^ e) w0, concat (map (\<lambda>k. let w = (next_wval ^^ (s + k)) w0 in [fst w, snd w]) [0..<e - s]))"
proof (induction e)
  case (Suc e)
  show ?case
  proof (cases "s \<le> e")
    case True
    then show ?thesis using Suc by (simp add: Suc_diff_le Let_def)
  next
    case False
    have "fold (\<lambda>block (w, ws). (next_wval w, if s \<le> block then ws @ [fst w, snd w] else ws)) [0..<m] (w0, [])
        = ((next_wval ^^ m) w0, [])" if "m \<le> s" for m
      using that by (induction m) simp_all
    from this [of "Suc e"] False Suc.prems show ?thesis by simp
  qed
qed simp

lemma xor_words_list:
  "16 * length ws \<le> length buf \<Longrightarrow> xor_words buf (concat (map (\<lambda>w. [fst w, snd w]) ws))
   = concat (map (\<lambda>k. xor_bytes (slice (16 * k) 16 buf) (store_wval (ws ! k))) [0..<length ws])"
proof (induction ws arbitrary: buf)
  case (Cons w ws)
  have "[0..<Suc (length ws)] = 0 # map Suc [0..<length ws]" by (metis map_Suc_upt upt_conv_Cons zero_less_Suc)
  then show ?case using Cons
    by (simp add: xor_words_pair slice_def comp_def add.commute drop_drop del: xor_words.simps upt_Suc)
qed simp

lemma EncipherBlocks_concat:
  "(\<And>b. b \<in> set bs \<Longrightarrow> length b = 16) \<Longrightarrow> EncipherBlocks E (length bs) (concat bs) = concat (map E bs)"
  by (induction bs) simp_all

lemma slice_concat:
  "(\<And>b. b \<in> set bs \<Longrightarrow> length b = 16) \<Longrightarrow> k < length bs \<Longrightarrow> slice (16 * k) 16 (concat bs) = bs ! k"
proof (induction bs arbitrary: k)
  case (Cons b bs)
  then show ?case by (cases k) (simp_all add: slice_def)
qed simp

lemma length_concat_16: "(\<And>b. b \<in> set bs \<Longrightarrow> length b = 16) \<Longrightarrow> length (concat bs) = 16 * length bs"
  by (induction bs) simp_all

lemma parallel_unit_spec:
  assumes "block_size E" "s \<le> e" "16 * (e - s) \<le> length buf"
  shows "parallel_unit E T unit s e buf = unit_spec E (comb (first_wval T unit)) s (e - s) buf"
proof -
  define c where "c = e - s"
  define ws where "ws = map (\<lambda>k. (next_wval ^^ (s + k)) (first_wval T unit)) [0..<c]"
  have wl: "concat (map (\<lambda>k. let w = (next_wval ^^ (s + k)) (first_wval T unit) in [fst w, snd w]) [0..<e - s]) = concat (map (\<lambda>w. [fst w, snd w]) ws)"
    by (simp add: ws_def c_def Let_def comp_def)
  have lw: "length (concat (map (\<lambda>w. [fst w, snd w]) ws)) = 2 * c"
    by (simp add: ws_def length_concat comp_def sum_list_triv)
  define b1 where "b1 = map (\<lambda>k. xor_bytes (slice (16 * k) 16 buf) (store_wval (ws ! k))) [0..<c]"
  have b1: "\<And>b. b \<in> set b1 \<Longrightarrow> length b = 16" using assms(3) by (auto simp: b1_def c_def store_wval_def)
  have b2: "\<And>b. b \<in> set (map E b1) \<Longrightarrow> length b = 16" using b1 assms(1) by (auto simp: block_size_def)
  have lws: "length ws = c" "length b1 = c" by (simp_all add: ws_def b1_def)
  have x1: "xor_words buf (concat (map (\<lambda>w. [fst w, snd w]) ws)) = concat b1"
    using assms(3) by (subst xor_words_list) (simp_all add: lws b1_def c_def)
  have x2: "EncipherBlocks E c (concat b1) = concat (map E b1)"
    using EncipherBlocks_concat [of b1 E] b1 lws by simp
  have x3: "xor_words (concat (map E b1)) (concat (map (\<lambda>w. [fst w, snd w]) ws))
      = concat (map (\<lambda>k. xor_bytes (map E b1 ! k) (store_wval (ws ! k))) [0..<c])"
  proof -
    have "length (concat (map E b1)) = 16 * c" using length_concat_16 [of "map E b1"] b2 lws by simp
    then have "xor_words (concat (map E b1)) (concat (map (\<lambda>w. [fst w, snd w]) ws))
        = concat (map (\<lambda>k. xor_bytes (slice (16 * k) 16 (concat (map E b1))) (store_wval (ws ! k))) [0..<c])"
      using lws by (subst xor_words_list) simp_all
    also have "\<dots> = concat (map (\<lambda>k. xor_bytes (map E b1 ! k) (store_wval (ws ! k))) [0..<c])"
      using slice_concat [of "map E b1"] b2 lws by (intro arg_cong [of _ _ concat] map_cong) simp_all
    finally show ?thesis .
  qed
  have "parallel_unit E T unit s e buf = concat (map (\<lambda>k. xor_bytes (map E b1 ! k) (store_wval (ws ! k))) [0..<c])"
    unfolding parallel_unit_def Let_def whitening_values [OF assms(2)] prod.case c_def [symmetric] wl [unfolded c_def [symmetric] Let_def]
    using lw by (simp add: x1 x2 x3)
  also have "\<dots> = unit_spec E (comb (first_wval T unit)) s c buf"
    unfolding unit_spec_def by (rule arg_cong [of _ _ concat], rule map_cong)
      (simp_all add: b1_def ws_def xts_block_def tweak_at_def store_wval_comb next_pow)
  finally show ?thesis by (simp add: c_def)
qed


section \<open>The outer loops\<close>

definition first_tweak :: "(bytes \<Rightarrow> bytes) \<Rightarrow> u64 \<Rightarrow> 128 word" where
  "first_tweak T unit = le_word (T (le_bytes 16 (ucast unit :: 128 word)))"

lemma xts_tweak_at: "xts_tweak T unit j = tweak_at (first_tweak T unit) j"
  by (simp add: xts_tweak_def tweak_at_def first_tweak_def)

definition pos_spec :: "(bytes \<Rightarrow> bytes) \<Rightarrow> (u64 \<Rightarrow> 128 word) \<Rightarrow> u64 \<Rightarrow> nat \<Rightarrow> nat \<Rightarrow> bytes \<Rightarrow> bytes" where
  "pos_spec E v unit s n buf =
     concat (map (\<lambda>k. xts_block E (tweak_at (v (unit + of_nat (fst (xts_position s n k)))) (snd (xts_position s n k)))
       (slice (16 * k) 16 buf)) [0..<n])"

lemma pos_spec_short: "n < 32 \<Longrightarrow> pos_spec E v unit s n buf = unit_spec E (v unit) s n buf"
  by (simp add: pos_spec_def unit_spec_def xts_position_def)

lemma pos_spec_long:
  assumes "32 \<le> n" "s \<le> 32"
  shows "pos_spec E v unit s n buf =
    unit_spec E (v unit) s (32 - s) buf @ pos_spec E v (unit + 1) 0 (n - (32 - s)) (drop (16 * (32 - s)) buf)"
proof -
  define c where "c = 32 - s"
  have up: "[0..<n] = [0..<c] @ map (\<lambda>k. c + k) [0..<n - c]"
  proof -
    have "[0..<c + (n - c)] = [0..<c] @ [c..<c + (n - c)]" by (rule upt_add_eq_append) simp
    moreover have "[c..<c + (n - c)] = map (\<lambda>k. c + k) [0..<n - c]" using map_add_upt [of c "n - c"] by (simp add: add.commute)
    moreover have "c + (n - c) = n" using assms by (simp add: c_def)
    ultimately show ?thesis by simp
  qed
  have p1: "xts_position s n k = (0, s + k)" if "k < c" for k
    using that assms by (simp add: xts_position_def c_def)
  have p2: "xts_position s n (c + k) = (Suc (fst (xts_position 0 (n - c) k)), snd (xts_position 0 (n - c) k))" if "k < n - c" for k
  proof -
    have e: "s + (c + k) = 32 + k" using assms by (simp add: c_def)
    have "(32 + k) div 32 = Suc (k div 32)" by simp
    then show ?thesis unfolding xts_position_def e using that assms(1) by simp
  qed
  have sl: "slice (16 * c + 16 * k) 16 buf = slice (16 * k) 16 (drop (16 * c) buf)" for k
    by (simp add: slice_def add.commute)
  show ?thesis
    unfolding c_def [symmetric] pos_spec_def unit_spec_def up map_append concat_append map_map comp_def
    by (intro arg_cong2 [where f = "(@)"] arg_cong [of _ _ concat] map_cong refl) (simp_all add: p1 p2 sl add.assoc)
qed

lemma xts_units_spec:
  assumes "\<And>unit s e buf. s \<le> e \<Longrightarrow> 16 * (e - s) \<le> length buf \<Longrightarrow> body unit s e buf = unit_spec E (v unit) s (e - s) buf"
  shows "s \<le> 32 \<Longrightarrow> 16 * n \<le> length buf \<Longrightarrow> xts_units body unit s n buf = Some (pos_spec E v unit s n buf)"
proof (induction n arbitrary: unit s buf rule: less_induct)
  have B: "BLOCKS_PER_XTS_DATA_UNIT = 32" by (simp add: BLOCKS_PER_XTS_DATA_UNIT_def BYTES_PER_XTS_BLOCK_def)
  have step: "xts_units body unit s n buf = Some (pos_spec E v unit s n buf)"
    if "s \<le> 32" "16 * n \<le> length buf" "0 < n"
      and ih: "\<And>m unit buf. m < n \<Longrightarrow> 16 * m \<le> length buf \<Longrightarrow> xts_units body unit 0 m buf = Some (pos_spec E v unit 0 m buf)"
      and z: "s = 32 \<Longrightarrow> 32 \<le> n \<Longrightarrow> xts_units body (unit + 1) 0 n buf = Some (pos_spec E v (unit + 1) 0 n buf)"
    for n unit s buf
  proof (cases "n < 32")
    case True
    then have "xts_units body unit s n buf = (case xts_units body (unit + 1) 0 0 (drop (16 * n) buf) of None \<Rightarrow> None
        | Some rest \<Rightarrow> Some (body unit s (s + n) buf @ rest))"
      using that by (subst xts_units.simps) (simp add: B Let_def)
    then show ?thesis using True that assms [of s "s + n" buf unit]
      by (simp add: xts_units.simps [of body _ 0 0] pos_spec_short)
  next
    case False
    then have u: "xts_units body unit s n buf = (case xts_units body (unit + 1) 0 (n - (32 - s)) (drop (16 * (32 - s)) buf) of None \<Rightarrow> None
        | Some rest \<Rightarrow> Some (body unit s 32 buf @ rest))"
      using that by (subst xts_units.simps) (simp add: B Let_def)
    have "xts_units body (unit + 1) 0 (n - (32 - s)) (drop (16 * (32 - s)) buf)
        = Some (pos_spec E v (unit + 1) 0 (n - (32 - s)) (drop (16 * (32 - s)) buf))"
    proof (cases "s = 32")
      case True
      then show ?thesis using z False by simp
    next
      case s: False
      then show ?thesis using that False by (intro ih) simp_all
    qed
    then show ?thesis unfolding u using that False assms [of s 32 buf unit] by (simp add: pos_spec_long)
  qed
  case (less n)
  show ?case
  proof (cases "n = 0")
    case True
    then show ?thesis by (simp add: xts_units.simps pos_spec_def)
  next
    case False
    have z: "xts_units body u 0 n b = Some (pos_spec E v u 0 n b)" if "16 * n \<le> length b" for u b
    proof (rule step)
      fix m u b assume "m < n" "16 * m \<le> length (b :: bytes)"
      then show "xts_units body u 0 m b = Some (pos_spec E v u 0 m b)" by (intro less.IH) simp_all
    qed (use False that in simp_all)
    show ?thesis
    proof (rule step)
      fix m u b assume "m < n" "16 * m \<le> length (b :: bytes)"
      then show "xts_units body u 0 m b = Some (pos_spec E v u 0 m b)" by (intro less.IH) simp_all
    next
      show "xts_units body (unit + 1) 0 n buf = Some (pos_spec E v (unit + 1) 0 n buf)"
        using less.prems by (intro z)
    qed (use False less.prems in simp_all)
  qed
qed


text \<open>The data unit number in two halves.\<close>

definition unit64 :: "u32 \<Rightarrow> u32 \<Rightarrow> u64" where
  "unit64 hi lo = of_nat (unat lo + 2 ^ 32 * unat hi)"

lemma unit64_bound: "unat lo + 2 ^ 32 * unat hi < 2 ^ 64" for lo hi :: u32
  using unsigned_less [of lo, where 'a = nat] unsigned_less [of hi, where 'a = nat] by simp

lemma unat_unit64: "unat (unit64 hi lo) = unat lo + 2 ^ 32 * unat hi"
  using unit64_bound [of lo hi] unfolding unit64_def by (simp only: unat_of_nat) (simp add: take_bit_nat_eq_self)

lemma unit64_or: "unit64 hi lo = ucast lo OR push_bit 32 (ucast hi)"
proof -
  have "ucast lo OR push_bit 32 (ucast hi) = ucast lo + (push_bit 32 (ucast hi) :: u64)"
    by (rule disjunctive_add [symmetric]) (auto simp: bit_push_bit_iff bit_ucast_iff dest: bit_u32_less)
  also have "\<dots> = unit64 hi lo" by (simp add: unit64_def push_bit_eq_mult)
  finally show ?thesis ..
qed

lemma unit64_bytes: "Uint64ToLE16ByteArray hi lo = le_bytes 16 (ucast (unit64 hi lo) :: 128 word)"
proof -
  have "(ucast (unit64 hi lo) :: 128 word) = comb32 [lo, hi, 0, 0]"
    unfolding unit64_or comb32_def
    by (rule bit_word_eqI) (auto simp: bit_or_iff bit_push_bit_iff bit_ucast_iff dest: bit_u32_less)
  then show ?thesis by (simp add: le_bytes_comb32 Uint64ToLE16ByteArray_def)
qed

lemma unit64_halves: "ucast (unit64 hi lo) = lo" "ucast (drop_bit 32 (unit64 hi lo)) = hi"
  unfolding unit64_or
  by (rule bit_word_eqI; auto simp: bit_or_iff bit_push_bit_iff bit_ucast_iff bit_drop_bit_eq dest: bit_u32_less)+

lemma unit64_next: "unit64 (if lo + 1 = 0 then hi + 1 else hi) (lo + 1) = unit64 hi lo + 1"
proof (cases "lo + 1 = 0")
  case True
  then have "lo = - 1" by (simp add: eq_neg_iff_add_eq_0)
  then have "unat lo = 2 ^ 32 - 1" by (simp add: unsigned_minus_1_eq_mask mask_eq_exp_minus_1)
  then have l: "(of_nat (unat lo) :: u64) = 2 ^ 32 - 1" by simp
  have "(of_nat (unat (hi + 1)) :: u64) * 2 ^ 32 = of_nat (unat hi + 1) * 2 ^ 32"
  proof (cases "unat hi + 1 < 2 ^ 32")
    case True
    then have "unat (hi + 1) = unat hi + 1" by (simp add: unat_word_ariths)
    then show ?thesis by simp
  next
    case False
    then have "unat hi + 1 = 2 ^ 32" using unsigned_less [of hi, where 'a = nat] by simp
    moreover from this have "unat (hi + 1) = 0" by (simp add: unat_word_ariths)
    ultimately show ?thesis by simp
  qed
  then show ?thesis using True l by (simp add: unit64_def algebra_simps)
next
  case False
  then have "unat (lo + 1) = unat lo + 1" by (simp add: unatSuc add.commute)
  then show ?thesis using False by (simp add: unit64_def)
qed

lemma xts32_units_eq:
  "xts32_units C T hi lo s n buf =
   xts_units (\<lambda>u s e b. dword_unit C T (ucast (drop_bit 32 u)) (ucast u) s e b) (unit64 hi lo) s n buf"
proof (induction C T hi lo s n buf rule: xts32_units.induct)
  case (1 C T hi lo s n buf)
  show ?case
  proof (cases "n = 0")
    case True
    then show ?thesis by (simp add: xts32_units.simps xts_units.simps)
  next
    case False
    show ?thesis
      by (subst xts32_units.simps, subst xts_units.simps)
         (simp only: Let_def if_False False "1.IH" [OF False refl] unit64_halves unit64_next cong: if_cong)
  qed
qed

section \<open>The functions\<close>

lemma first_wval_tweak: "block_size T \<Longrightarrow> comb (first_wval T unit) = first_tweak T unit"
proof -
  assume T: "block_size T"
  have "comb (unit, 0) = ucast unit"
    by (rule bit_word_eqI) (auto simp: bit_comb bit_ucast_iff dest: bit_u64_less)
  then have "store_wval (unit, 0) = le_bytes 16 (ucast unit :: 128 word)" by (simp add: store_wval_comb)
  then show ?thesis using T by (simp add: first_wval_def first_tweak_def comb_load_wval block_size_def)
qed

lemma xts_spec_pos: "xts_spec E T unit s buf = pos_spec E (first_tweak T) unit s (length buf div 16) buf"
  by (simp add: xts_spec_def pos_spec_def xts_tweak_at split_beta Let_def)

lemma xts64_spec:
  assumes "block_size E" "block_size T" "s \<le> 32" "length buf mod 16 = 0"
  shows "EncryptBufferXTSParallel E T unit s buf = Some (xts_spec E T unit s buf)"
    "EncryptBufferXTSNonParallel E T unit s buf = Some (xts_spec E T unit s buf)"
proof -
  have l: "16 * (length buf div 16) \<le> length buf" by simp
  have p: "parallel_unit E T unit s e b = unit_spec E (first_tweak T unit) s (e - s) b"
    "block_unit E T unit s e b = unit_spec E (first_tweak T unit) s (e - s) b"
    if "s \<le> e" "16 * (e - s) \<le> length b" for unit s e b
    using that assms by (simp_all add: parallel_unit_spec block_unit_spec first_wval_tweak)
  show "EncryptBufferXTSParallel E T unit s buf = Some (xts_spec E T unit s buf)"
    using assms xts_units_spec [where body = "parallel_unit E T", OF p(1) assms(3) l]
    by (simp add: EncryptBufferXTSParallel_def BYTES_PER_XTS_BLOCK_def xts_spec_pos)
  show "EncryptBufferXTSNonParallel E T unit s buf = Some (xts_spec E T unit s buf)"
    using assms xts_units_spec [where body = "block_unit E T", OF p(2) assms(3) l]
    by (simp add: EncryptBufferXTSNonParallel_def BYTES_PER_XTS_BLOCK_def xts_spec_pos)
qed

lemma Decrypt_is_Encrypt:
  "DecryptBufferXTSParallel = EncryptBufferXTSParallel" "DecryptBufferXTSNonParallel = EncryptBufferXTSNonParallel"
  "DecryptBufferXTS = EncryptBufferXTS"
  by (simp_all add: fun_eq_iff DecryptBufferXTSParallel_def EncryptBufferXTSParallel_def DecryptBufferXTSNonParallel_def
      EncryptBufferXTSNonParallel_def DecryptBufferXTS_def EncryptBufferXTS_def)

lemma EncryptBufferXTS_spec:
  "block_size E \<Longrightarrow> block_size T \<Longrightarrow> s \<le> 32 \<Longrightarrow> length buf mod 16 = 0 \<Longrightarrow>
   EncryptBufferXTS par E T unit s buf = Some (xts_spec E T unit s buf)"
  by (simp add: EncryptBufferXTS_def xts64_spec)

lemma XTS32_spec:
  assumes "block_size E" "block_size D" "block_size T" "s \<le> 32"
  shows "EncryptDecryptBufferXTS32 E D T hi lo s dec buf = Some (xts_spec (if dec then D else E) T (unit64 hi lo) s buf)"
proof -
  let ?C = "if dec then D else E"
  have l: "16 * (length buf div 16) \<le> length buf" by simp
  have p: "dword_unit ?C T (ucast (drop_bit 32 unit)) (ucast unit) s e b = unit_spec ?C (first_tweak T unit) s (e - s) b"
    if "s \<le> e" "16 * (e - s) \<le> length b" for unit s e b
  proof -
    have "unit = unit64 (ucast (drop_bit 32 unit)) (ucast unit)"
      unfolding unit64_or by (rule bit_word_eqI) (auto simp: bit_or_iff bit_push_bit_iff bit_ucast_iff bit_drop_bit_eq dest: bit_u64_less)
    then have "Uint64ToLE16ByteArray (ucast (drop_bit 32 unit)) (ucast unit) = le_bytes 16 (ucast unit :: 128 word)"
      using unit64_bytes by metis
    then show ?thesis
      using that assms by (simp add: dword_unit_spec comb32_load_dwords first_tweak_def block_size_def)
  qed
  show ?thesis
    using xts_units_spec [where body = "\<lambda>u s e b. dword_unit ?C T (ucast (drop_bit 32 u)) (ucast u) s e b", OF p assms(4) l]
    unfolding EncryptDecryptBufferXTS32_def xts32_units_eq BYTES_PER_XTS_BLOCK_def xts_spec_pos by blast
qed


section \<open>Decryption undoes encryption\<close>

lemma xts_block_inverse:
  assumes "block_cipher E D" "length tw = 16" "length b = 16"
  shows "xts_block D tw (xts_block E tw b) = b"
proof -
  have l: "length (E (xor_bytes b tw)) = 16" using assms by (simp add: block_cipher.length_E)
  show ?thesis using assms l by (simp add: xts_block_def block_cipher.D_E)
qed

lemma block_cipher_size: "block_cipher E D \<Longrightarrow> block_size E" "block_cipher E D \<Longrightarrow> block_size D"
  by (simp_all add: block_size_def block_cipher.length_E block_cipher.length_D)

lemma length_xts_spec: "block_size E \<Longrightarrow> length buf mod 16 = 0 \<Longrightarrow> length (xts_spec E T unit s buf) = length buf"
proof -
  assume E: "block_size E" and m: "length buf mod 16 = 0"
  have "length (xts_spec E T unit s buf) = 16 * (length buf div 16)"
    unfolding xts_spec_pos pos_spec_def
    by (subst length_concat_16) (use E in \<open>auto simp: length_xts_block\<close>)
  then show ?thesis using mult_div_mod_eq [of 16 "length buf"] m by simp
qed

lemma slice_xts_spec:
  assumes "block_size E" "length buf mod 16 = 0" "k < length buf div 16"
  shows "slice (16 * k) 16 (xts_spec E T unit s buf) =
    xts_block E (tweak_at (first_tweak T (unit + of_nat (fst (xts_position s (length buf div 16) k)))) (snd (xts_position s (length buf div 16) k)))
      (slice (16 * k) 16 buf)"
  unfolding xts_spec_pos pos_spec_def using assms
  by (subst slice_concat) (auto simp: length_xts_block)

lemma concat_slices: "length buf mod 16 = 0 \<Longrightarrow> concat (map (\<lambda>k. slice (16 * k) 16 buf) [0..<length buf div 16]) = buf"
proof -
  assume m: "length buf mod 16 = 0"
  have "concat (map (\<lambda>k. slice (16 * k) 16 buf) [0..<n]) = take (16 * n) buf" for n
  proof (induction n)
    case (Suc n)
    have "16 * Suc n = 16 * n + 16" by simp
    then have "take (16 * Suc n) buf = take (16 * n) buf @ slice (16 * n) 16 buf" by (simp only: take_add slice_def)
    then show ?case using Suc by simp
  qed simp
  from this [of "length buf div 16"] show ?thesis using mult_div_mod_eq [of 16 "length buf"] m by simp
qed

lemma xts_spec_inverse:
  assumes "block_cipher E D" "length buf mod 16 = 0"
  shows "xts_spec D T unit s (xts_spec E T unit s buf) = buf"
proof -
  note sz = block_cipher_size [OF assms(1)]
  have l: "length (xts_spec E T unit s buf) = length buf" by (rule length_xts_spec [OF sz(1) assms(2)])
  have "xts_spec D T unit s (xts_spec E T unit s buf) = concat (map (\<lambda>k. slice (16 * k) 16 buf) [0..<length buf div 16])"
    unfolding xts_spec_pos [of D] pos_spec_def l
    by (intro arg_cong [of _ _ concat] map_cong refl) (auto simp: slice_xts_spec [OF sz(1) assms(2)] xts_block_inverse [OF assms(1)])
  then show ?thesis by (simp only: concat_slices [OF assms(2)])
qed

text \<open>The standard: block \<open>k\<close> after block \<open>s\<close> of a data unit is block \<open>(s + k) mod 32\<close> of data unit \<open>(s + k) div 32\<close> after it.\<close>

definition xts_standard :: "(bytes \<Rightarrow> bytes) \<Rightarrow> (bytes \<Rightarrow> bytes) \<Rightarrow> u64 \<Rightarrow> nat \<Rightarrow> bytes \<Rightarrow> bytes" where
  "xts_standard E T unit s buf =
     concat (map (\<lambda>k. xts_block E (xts_tweak T (unit + of_nat ((s + k) div 32)) ((s + k) mod 32)) (slice (16 * k) 16 buf))
       [0..<length buf div 16])"

text \<open>Where the code agrees with it: the buffer fills a data unit, starts at one, or ends inside the one it starts in.\<close>

definition xts_aligned :: "nat \<Rightarrow> bytes \<Rightarrow> bool" where
  "xts_aligned s buf \<longleftrightarrow> s = 0 \<or> s + length buf div 16 \<le> 32 \<or> s \<le> 32 \<and> 32 \<le> length buf div 16"

lemma xts_spec_standard: "xts_aligned s buf \<Longrightarrow> xts_spec E T unit s buf = xts_standard E T unit s buf"
  unfolding xts_spec_def xts_standard_def
  by (intro arg_cong [of _ _ concat] map_cong refl) (auto simp: xts_position_def xts_aligned_def)

end
