(* ===== verification/Crypto.thy ===== *)
theory Crypto
  imports XtsCorrect
begin

text \<open>
  The cipher and algorithm tables of \<open>src/src/Common/Crypto.c\<close> and what is computed from them: key and key schedule
  sizes, the walk through the ciphers of a cascade forwards and backwards, key setup, and the encryption and decryption
  of buffers and data units. The build is the full one (not the boot loader's, not wolfCrypt's) without the multi-block
  SIMD and assembly routines. The block ciphers themselves are the record \<open>primitives\<close>: one field for each
  function that \<open>CipherInit\<close>, \<open>EncipherBlock\<close> and \<open>DecipherBlock\<close> call. Key schedules are the bytes at
  an offset of \<open>ks\<close> and \<open>ks2\<close>, as in the code.

  The lemmas show that the walks end and visit the ciphers of the table in order, that schedules do not overlap and fit
  into \<open>MAX_EXPANDED_KEY\<close>, and that decryption walks back over exactly the schedules that encryption used.
\<close>

section \<open>Tables\<close>

definition NONE :: int where [simp]: "NONE = 0"
definition AES :: int where [simp]: "AES = 1"
definition SERPENT :: int where [simp]: "SERPENT = 2"
definition TWOFISH :: int where [simp]: "TWOFISH = 3"
definition CAMELLIA :: int where [simp]: "CAMELLIA = 4"
definition KUZNYECHIK :: int where [simp]: "KUZNYECHIK = 5"

definition XTS :: int where [simp]: "XTS = 1"

definition FIRST_MODE_OF_OPERATION_ID :: int where "FIRST_MODE_OF_OPERATION_ID = 1"
definition LAST_MODE_OF_OPERATION :: int where "LAST_MODE_OF_OPERATION = 1"

definition SHA512 :: int where [simp]: "SHA512 = 1"
definition WHIRLPOOL :: int where [simp]: "WHIRLPOOL = 2"
definition SHA256 :: int where [simp]: "SHA256 = 3"
definition BLAKE2S :: int where [simp]: "BLAKE2S = 4"
definition STREEBOG :: int where [simp]: "STREEBOG = 5"
definition ARGON2 :: int where [simp]: "ARGON2 = 6"
definition BLAKE2B :: int where [simp]: "BLAKE2B = 7"
definition SHA3_512 :: int where [simp]: "SHA3_512 = 8"
definition BALLOON :: int where [simp]: "BALLOON = 9"

definition FIRST_PRF_ID :: int where "FIRST_PRF_ID = 1"
definition LAST_PRF_ID :: int where "LAST_PRF_ID = 9"

definition ERR_SUCCESS :: int where "ERR_SUCCESS = 0"
definition ERR_OUTOFMEMORY :: int where "ERR_OUTOFMEMORY = 2"
definition ERR_PASSWORD_WRONG :: int where "ERR_PASSWORD_WRONG = 3"
definition ERR_NEW_VERSION_REQUIRED :: int where "ERR_NEW_VERSION_REQUIRED = 16"
definition ERR_CIPHER_INIT_FAILURE :: int where "ERR_CIPHER_INIT_FAILURE = 17"
definition ERR_CIPHER_INIT_WEAK_KEY :: int where "ERR_CIPHER_INIT_WEAK_KEY = 18"
definition ERR_MODE_INIT_FAILED :: int where "ERR_MODE_INIT_FAILED = 27"
definition ERR_PARAMETER_INCORRECT :: int where "ERR_PARAMETER_INCORRECT = 30"
definition ERR_USER_ABORT :: int where "ERR_USER_ABORT = 33"
definition ERR_KEY_DERIVATION_FAILED :: int where "ERR_KEY_DERIVATION_FAILED = 38"

text \<open>Sizes of the key schedules in bytes: the two AES contexts (60 words and the word \<open>inf\<close> each), the words of
  \<open>TwofishInstance\<close> and of \<open>kuznyechik_kds\<close>.\<close>

definition aes_ctx_size :: nat where "aes_ctx_size = 60 * 4 + 4"
definition AES_KS :: nat where "AES_KS = aes_ctx_size + aes_ctx_size"
definition SERPENT_KS :: nat where "SERPENT_KS = 140 * 4"
definition TWOFISH_KS :: nat where "TWOFISH_KS = 40 * 4 + 4 * 256 * 4"
definition CAMELLIA_KS :: nat where "CAMELLIA_KS = 34 * 8"
definition KUZNYECHIK_KS :: nat where "KUZNYECHIK_KS = 20 * 8 + 20 * 8"

definition MAX_EXPANDED_KEY :: nat where
  "MAX_EXPANDED_KEY = max (max (max (AES_KS + SERPENT_KS + TWOFISH_KS) (CAMELLIA_KS + KUZNYECHIK_KS + SERPENT_KS))
     (KUZNYECHIK_KS + TWOFISH_KS)) (AES_KS + KUZNYECHIK_KS)"

definition PKCS5_SALT_SIZE :: nat where "PKCS5_SALT_SIZE = 64"
definition MASTER_KEYDATA_SIZE :: nat where "MASTER_KEYDATA_SIZE = 256"
definition ARGON2_HEADER_KEYDATA_SIZE :: nat where "ARGON2_HEADER_KEYDATA_SIZE = 192"
definition BALLOON_HEADER_KEYDATA_SIZE :: nat where "BALLOON_HEADER_KEYDATA_SIZE = 192"
definition ENCRYPTION_DATA_UNIT_SIZE :: nat where "ENCRYPTION_DATA_UNIT_SIZE = 512"

record Cipher =
  Cipher_Id :: int
  Cipher_Name :: string
  BlockSize :: nat
  KeySize :: nat
  KeyScheduleSize :: nat

definition Ciphers :: "Cipher list" where
  "Ciphers =
     [\<lparr>Cipher_Id = AES, Cipher_Name = ''AES'', BlockSize = 16, KeySize = 32, KeyScheduleSize = AES_KS\<rparr>,
      \<lparr>Cipher_Id = SERPENT, Cipher_Name = ''Serpent'', BlockSize = 16, KeySize = 32, KeyScheduleSize = 140 * 4\<rparr>,
      \<lparr>Cipher_Id = TWOFISH, Cipher_Name = ''Twofish'', BlockSize = 16, KeySize = 32, KeyScheduleSize = TWOFISH_KS\<rparr>,
      \<lparr>Cipher_Id = CAMELLIA, Cipher_Name = ''Camellia'', BlockSize = 16, KeySize = 32, KeyScheduleSize = CAMELLIA_KS\<rparr>,
      \<lparr>Cipher_Id = KUZNYECHIK, Cipher_Name = ''Kuznyechik'', BlockSize = 16, KeySize = 32, KeyScheduleSize = KUZNYECHIK_KS\<rparr>,
      \<lparr>Cipher_Id = 0, Cipher_Name = '''', BlockSize = 0, KeySize = 0, KeyScheduleSize = 0\<rparr>]"

record EncryptionAlgorithm =
  EA_Ciphers :: "int list"
  EA_Modes :: "int list"
  MbrSysEncEnabled :: bool
  FormatEnabled :: bool

text \<open>An initialiser of the table: the arrays are filled up with zeros, to four ciphers and two modes.\<close>

definition ea_entry :: "int list \<Rightarrow> int list \<Rightarrow> bool \<Rightarrow> bool \<Rightarrow> EncryptionAlgorithm" where
  "ea_entry cs ms mbr format =
     \<lparr>EA_Ciphers = cs @ replicate (4 - length cs) 0, EA_Modes = ms @ replicate (2 - length ms) 0,
      MbrSysEncEnabled = mbr, FormatEnabled = format\<rparr>"

definition EncryptionAlgorithms :: "EncryptionAlgorithm list" where
  "EncryptionAlgorithms =
     [ea_entry [] [] False False,
      ea_entry [AES] [XTS] True True,
      ea_entry [SERPENT] [XTS] True True,
      ea_entry [TWOFISH] [XTS] True True,
      ea_entry [CAMELLIA] [XTS] True True,
      ea_entry [KUZNYECHIK] [XTS] False True,
      ea_entry [TWOFISH, AES] [XTS] True True,
      ea_entry [SERPENT, TWOFISH, AES] [XTS] True True,
      ea_entry [AES, SERPENT] [XTS] True True,
      ea_entry [AES, TWOFISH, SERPENT] [XTS] True True,
      ea_entry [SERPENT, TWOFISH] [XTS] True True,
      ea_entry [KUZNYECHIK, CAMELLIA] [XTS] False True,
      ea_entry [TWOFISH, KUZNYECHIK] [XTS] False True,
      ea_entry [SERPENT, CAMELLIA] [XTS] False True,
      ea_entry [AES, KUZNYECHIK] [XTS] False True,
      ea_entry [CAMELLIA, SERPENT, KUZNYECHIK] [XTS] False True,
      ea_entry [] [] False False]"

text \<open>\<open>EncryptionAlgorithms[ea]\<close>. The code never indexes outside the table; the model reads the all-zero entry there.\<close>

definition EA :: "int \<Rightarrow> EncryptionAlgorithm" where
  "EA ea = (if 0 \<le> ea \<and> ea < int (length EncryptionAlgorithms) then EncryptionAlgorithms ! nat ea else ea_entry [] [] False False)"

record Hash =
  Hash_Id :: int
  Hash_Name :: string
  Deprecated :: bool
  SystemEncryption :: bool

definition Hashes :: "Hash list" where
  "Hashes =
     [\<lparr>Hash_Id = SHA512, Hash_Name = ''SHA-512'', Deprecated = False, SystemEncryption = False\<rparr>,
      \<lparr>Hash_Id = SHA256, Hash_Name = ''SHA-256'', Deprecated = False, SystemEncryption = True\<rparr>,
      \<lparr>Hash_Id = BLAKE2S, Hash_Name = ''BLAKE2s-256'', Deprecated = False, SystemEncryption = True\<rparr>,
      \<lparr>Hash_Id = WHIRLPOOL, Hash_Name = ''Whirlpool'', Deprecated = False, SystemEncryption = False\<rparr>,
      \<lparr>Hash_Id = STREEBOG, Hash_Name = ''Streebog'', Deprecated = False, SystemEncryption = False\<rparr>,
      \<lparr>Hash_Id = ARGON2, Hash_Name = ''BLAKE2b-512'', Deprecated = False, SystemEncryption = False\<rparr>,
      \<lparr>Hash_Id = BLAKE2B, Hash_Name = ''BLAKE2b'', Deprecated = False, SystemEncryption = False\<rparr>,
      \<lparr>Hash_Id = SHA3_512, Hash_Name = ''SHA3-512'', Deprecated = False, SystemEncryption = False\<rparr>,
      \<lparr>Hash_Id = 0, Hash_Name = '''', Deprecated = False, SystemEncryption = False\<rparr>]"

section \<open>Lookups\<close>

text \<open>\<open>for (i = 0; table[i].Id != 0; i++) if (table[i].Id == id) return \<dots>\<close>\<close>

fun find_id :: "('a \<Rightarrow> int) \<Rightarrow> int \<Rightarrow> 'a list \<Rightarrow> 'a ptr" where
  "find_id key i [] = NULL"
| "find_id key i (c # cs) = (if key c = 0 then NULL else if key c = i then Some c else find_id key i cs)"

definition CipherGet :: "int \<Rightarrow> Cipher ptr" where
  "CipherGet i = find_id Cipher_Id i Ciphers"

definition CipherGetName :: "int \<Rightarrow> string" where
  "CipherGetName cipherId = (case CipherGet cipherId of Some c \<Rightarrow> Cipher_Name c | None \<Rightarrow> '''')"

definition CipherGetBlockSize :: "int \<Rightarrow> nat" where
  "CipherGetBlockSize cipherId = (case CipherGet cipherId of Some c \<Rightarrow> BlockSize c | None \<Rightarrow> 0)"

definition CipherGetKeySize :: "int \<Rightarrow> nat" where
  "CipherGetKeySize cipherId = (case CipherGet cipherId of Some c \<Rightarrow> KeySize c | None \<Rightarrow> 0)"

definition CipherGetKeyScheduleSize :: "int \<Rightarrow> nat" where
  "CipherGetKeyScheduleSize cipherId = (case CipherGet cipherId of Some c \<Rightarrow> KeyScheduleSize c | None \<Rightarrow> 0)"

definition HashGet :: "int \<Rightarrow> Hash ptr" where
  "HashGet i = find_id Hash_Id i Hashes"

definition HashGetName :: "int \<Rightarrow> string" where
  "HashGetName hashId = (case HashGet hashId of Some h \<Rightarrow> Hash_Name h | None \<Rightarrow> '''')"

definition HashIsDeprecated :: "int \<Rightarrow> bool" where
  "HashIsDeprecated hashId = (case HashGet hashId of Some h \<Rightarrow> Deprecated h | None \<Rightarrow> False)"

definition HashForSystemEncryption :: "int \<Rightarrow> bool" where
  "HashForSystemEncryption hashId = (case HashGet hashId of Some h \<Rightarrow> SystemEncryption h | None \<Rightarrow> False)"

definition HashIsAvailable :: "int \<Rightarrow> bool" where
  "HashIsAvailable hashId = (HashGet hashId \<noteq> NULL)"

definition EAGetFirst :: int where "EAGetFirst = 1"

definition EAGetNext :: "int \<Rightarrow> int" where
  "EAGetNext previousEA = (let id = previousEA + 1 in if EA_Ciphers (EA id) ! 0 \<noteq> 0 then id else 0)"

definition EAGetFirstCipher :: "int \<Rightarrow> int" where
  "EAGetFirstCipher ea = EA_Ciphers (EA ea) ! 0"

text \<open>\<open>while (c = a[i++])\<close>: the number of entries before the first zero.\<close>

definition EAGetCipherCount :: "int \<Rightarrow> nat" where
  "EAGetCipherCount ea = length (takeWhile (\<lambda>c. c \<noteq> 0) (EA_Ciphers (EA ea)))"

text \<open>\<open>Ciphers[i - 2]\<close>. Entry 0 has no cipher; the code would read the word before its array: \<open>None\<close>.\<close>

definition EAGetLastCipher :: "int \<Rightarrow> int option" where
  "EAGetLastCipher ea =
     (let i = Suc (EAGetCipherCount ea) in if i < 2 then None else Some (EA_Ciphers (EA ea) ! (i - 2)))"

text \<open>\<open>while (c = a[i++]) if (c == previous) return a[i];\<close>\<close>

fun next_in :: "int list \<Rightarrow> int \<Rightarrow> int" where
  "next_in (c # d # cs) p = (if c = 0 then 0 else if c = p then d else next_in (d # cs) p)"
| "next_in cs p = 0"

definition EAGetNextCipher :: "int \<Rightarrow> int \<Rightarrow> int" where
  "EAGetNextCipher ea previousCipherId = next_in (EA_Ciphers (EA ea)) previousCipherId"

text \<open>The same loop from the second entry on, returning the entry before.\<close>

fun prev_in :: "int list \<Rightarrow> int \<Rightarrow> int" where
  "prev_in (b # c # cs) p = (if c = 0 then 0 else if c = p then b else prev_in (c # cs) p)"
| "prev_in cs p = 0"

definition EAGetPreviousCipher :: "int \<Rightarrow> int \<Rightarrow> int" where
  "EAGetPreviousCipher ea previousCipherId =
     (if EA_Ciphers (EA ea) ! 0 = previousCipherId then 0 else prev_in (EA_Ciphers (EA ea)) previousCipherId)"

definition EAGetFirstMode :: "int \<Rightarrow> int" where
  "EAGetFirstMode ea = EA_Modes (EA ea) ! 0"

definition EAGetNextMode :: "int \<Rightarrow> int \<Rightarrow> int" where
  "EAGetNextMode ea previousModeId = next_in (EA_Modes (EA ea)) previousModeId"

definition EAIsFormatEnabled :: "int \<Rightarrow> bool" where
  "EAIsFormatEnabled ea = FormatEnabled (EA ea)"

definition EAIsMbrSysEncEnabled :: "int \<Rightarrow> bool" where
  "EAIsMbrSysEncEnabled ea = MbrSysEncEnabled (EA ea)"

section \<open>The walks through the ciphers of an algorithm\<close>

text \<open>How far a cipher is from the end, and from the front, of its algorithm's array.\<close>

definition ea_rank :: "int \<Rightarrow> int \<Rightarrow> nat" where
  "ea_rank ea c = (if c = 0 then 0 else Suc (length (dropWhile (\<lambda>d. d \<noteq> c) (EA_Ciphers (EA ea)))))"

definition ea_depth :: "int \<Rightarrow> int \<Rightarrow> nat" where
  "ea_depth ea c = (if c = 0 then 0 else Suc (length (takeWhile (\<lambda>d. d \<noteq> c) (EA_Ciphers (EA ea)))))"

lemma EA_in_table: "EA ea \<in> set EncryptionAlgorithms"
proof (cases "0 \<le> ea \<and> ea < int (length EncryptionAlgorithms)")
  case True
  then show ?thesis by (simp add: EA_def nat_less_iff)
next
  case False
  then have "EA ea = ea_entry [] [] False False" unfolding EA_def by (rule if_not_P)
  then show ?thesis by (simp add: EncryptionAlgorithms_def)
qed

lemma next_in_decreases:
  "x \<in> set EncryptionAlgorithms \<Longrightarrow> next_in (EA_Ciphers x) c \<noteq> 0 \<Longrightarrow>
   length (dropWhile (\<lambda>d. d \<noteq> next_in (EA_Ciphers x) c) (EA_Ciphers x)) < length (dropWhile (\<lambda>d. d \<noteq> c) (EA_Ciphers x))"
  by (auto simp: EncryptionAlgorithms_def ea_entry_def numeral_eq_Suc split: if_splits)

lemma prev_in_decreases:
  "x \<in> set EncryptionAlgorithms \<Longrightarrow> EA_Ciphers x ! 0 \<noteq> c \<Longrightarrow> prev_in (EA_Ciphers x) c \<noteq> 0 \<Longrightarrow>
   length (takeWhile (\<lambda>d. d \<noteq> prev_in (EA_Ciphers x) c) (EA_Ciphers x)) < length (takeWhile (\<lambda>d. d \<noteq> c) (EA_Ciphers x))"
  by (auto simp: EncryptionAlgorithms_def ea_entry_def numeral_eq_Suc split: if_splits)

text \<open>\<open>for (c = first; c != 0; c = EAGetNextCipher (ea, c)) body\<close>, and the same with \<open>EAGetPreviousCipher\<close>. That
  the functions are total is that the loops end.\<close>

function for_next :: "int \<Rightarrow> (int \<Rightarrow> 'st \<Rightarrow> 'st) \<Rightarrow> int \<Rightarrow> 'st \<Rightarrow> 'st" where
  "for_next ea body c st = (if c = 0 then st else for_next ea body (EAGetNextCipher ea c) (body c st))"
  by pat_completeness auto
termination
proof (relation "measure (\<lambda>(ea, body, c, st). ea_rank ea c)", goal_cases)
  case (2 ea body c st)
  then show ?case using next_in_decreases [OF EA_in_table, of ea c] by (auto simp: ea_rank_def EAGetNextCipher_def)
qed simp

function for_previous :: "int \<Rightarrow> (int \<Rightarrow> 'st \<Rightarrow> 'st) \<Rightarrow> int \<Rightarrow> 'st \<Rightarrow> 'st" where
  "for_previous ea body c st = (if c = 0 then st else for_previous ea body (EAGetPreviousCipher ea c) (body c st))"
  by pat_completeness auto
termination
proof (relation "measure (\<lambda>(ea, body, c, st). ea_depth ea c)", goal_cases)
  case (2 ea body c st)
  then show ?case using prev_in_decreases [OF EA_in_table, of ea c] by (auto simp: ea_depth_def EAGetPreviousCipher_def)
qed simp

declare for_next.simps [simp del] for_previous.simps [simp del]


text \<open>\<open>size = f (first); while (i = next) size += f (i);\<close>\<close>

definition EAGetKeySize :: "int \<Rightarrow> nat" where
  "EAGetKeySize ea =
     (let i = EAGetFirstCipher ea
      in for_next ea (\<lambda>i size. size + CipherGetKeySize i) (EAGetNextCipher ea i) (CipherGetKeySize i))"

definition EAGetKeyScheduleSize :: "int \<Rightarrow> nat" where
  "EAGetKeyScheduleSize ea =
     (let i = EAGetFirstCipher ea
      in for_next ea (\<lambda>i size. size + CipherGetKeyScheduleSize i) (EAGetNextCipher ea i) (CipherGetKeyScheduleSize i))"

text \<open>\<open>for (ea = EAGetFirst (); ea != 0; ea = EAGetNext (ea)) body\<close>.\<close>

lemma EAGetNext_step: "EAGetNext ea \<noteq> 0 \<Longrightarrow> EAGetNext ea = ea + 1 \<and> 0 < EAGetNext ea \<and> EAGetNext ea < 17"
proof -
  assume n: "EAGetNext ea \<noteq> 0"
  then have e: "EAGetNext ea = ea + 1" "EA_Ciphers (EA (ea + 1)) ! 0 \<noteq> 0" by (auto simp: EAGetNext_def Let_def split: if_splits)
  have "0 \<le> ea + 1 \<and> ea + 1 < int (length EncryptionAlgorithms)"
  proof (rule ccontr)
    assume "\<not> ?thesis"
    then have "EA (ea + 1) = ea_entry [] [] False False" unfolding EA_def by (rule if_not_P)
    with e show False by (simp add: ea_entry_def)
  qed
  with e n show ?thesis by (simp add: EncryptionAlgorithms_def)
qed

function for_ea :: "(int \<Rightarrow> 'st \<Rightarrow> 'st) \<Rightarrow> int \<Rightarrow> 'st \<Rightarrow> 'st" where
  "for_ea body ea st = (if ea = 0 then st else for_ea body (EAGetNext ea) (body ea st))"
  by pat_completeness auto
termination
proof (relation "measure (\<lambda>(body, ea, st). if ea = 0 then 0 else if ea < 17 \<and> - 1 \<le> ea then nat (18 - ea) else 20)", goal_cases)
  case (2 body ea st)
  then show ?case using EAGetNext_step [of ea] by (cases "EAGetNext ea = 0") (auto split: if_splits)
qed simp

declare for_ea.simps [simp del]

definition EAGetCount :: nat where
  "EAGetCount = for_ea (\<lambda>ea count. count + 1) EAGetFirst 0"

text \<open>\<open>for (mode = EAGetFirstMode (ea); mode != 0; mode = EAGetNextMode (ea, mode)) if (mode == tested) return TRUE;\<close> Every
  array of the table holds one mode at most, so the walk visits the first mode and the one after it.\<close>

definition EAIsModeSupported :: "int \<Rightarrow> int \<Rightarrow> bool" where
  "EAIsModeSupported ea testedMode =
     (let mode = EAGetFirstMode ea
      in if mode = 0 then False else if mode = testedMode then True
         else let mode = EAGetNextMode ea mode in mode \<noteq> 0 \<and> mode = testedMode)"

definition EAGetLargestKeyForMode :: "int \<Rightarrow> nat" where
  "EAGetLargestKeyForMode mode =
     for_ea (\<lambda>ea key. if \<not> EAIsModeSupported ea mode then key
                     else if EAGetKeySize ea \<ge> key then EAGetKeySize ea else key) EAGetFirst 0"

definition GetMaxPkcs5OutSize :: nat where
  "GetMaxPkcs5OutSize = max 32 (EAGetLargestKeyForMode XTS * 2)"

section \<open>Names\<close>

text \<open>\<open>StringCchCopyW\<close> and \<open>StringCchCatW\<close>: what does not fit before the terminator is cut off.\<close>

definition StringCchCopy :: "nat \<Rightarrow> string \<Rightarrow> string" where
  "StringCchCopy bufLen src = take (bufLen - 1) src"

definition StringCchCat :: "string \<Rightarrow> nat \<Rightarrow> string \<Rightarrow> string" where
  "StringCchCat buf bufLen src = take (bufLen - 1) (buf @ src)"

lemma EAGetPreviousCipher_0 [simp]: "EAGetPreviousCipher ea 0 = 0"
proof -
  have "x \<in> set EncryptionAlgorithms \<Longrightarrow> prev_in (EA_Ciphers x) 0 = 0" for x
    by (auto simp: EncryptionAlgorithms_def ea_entry_def numeral_eq_Suc)
  then show ?thesis by (simp add: EAGetPreviousCipher_def EA_in_table)
qed

text \<open>The recursion writes the rest of the name behind the opening parenthesis, into what is left of the buffer.\<close>

function EAGetDisplayName :: "nat \<Rightarrow> int \<Rightarrow> int \<Rightarrow> string" where
  "EAGetDisplayName bufLen ea i =
     (let buf = StringCchCopy bufLen (CipherGetName i); p = EAGetPreviousCipher ea i
      in if p = 0 then buf
         else let buf = StringCchCat buf bufLen ''(''; curLen = length buf;
                  buf = buf @ EAGetDisplayName (bufLen - curLen) ea p
              in StringCchCat buf bufLen '')'')"
  by pat_completeness auto
termination
proof (relation "measure (\<lambda>(n, ea, c). ea_depth ea c)", goal_cases)
  case (2 n ea c)
  then have "c \<noteq> 0" by auto
  with 2 show ?case using prev_in_decreases [OF EA_in_table, of ea c] by (auto simp: ea_depth_def EAGetPreviousCipher_def)
qed simp

declare EAGetDisplayName.simps [simp del]

definition EAGetName :: "nat \<Rightarrow> int \<Rightarrow> bool \<Rightarrow> string" where
  "EAGetName bufLen ea guiDisplay =
     (let i = (case EAGetLastCipher ea of Some c \<Rightarrow> c | None \<Rightarrow> 0)
      in if guiDisplay then EAGetDisplayName bufLen ea i
         else for_previous ea (\<lambda>i buf. StringCchCat (StringCchCat buf bufLen ''-'') bufLen (CipherGetName i))
                (EAGetPreviousCipher ea i) (StringCchCopy bufLen (if i \<noteq> 0 then CipherGetName i else ''?'')))"


text \<open>\<open>_wcsicmp\<close> for the names of the tables, which are ASCII.\<close>

definition ascii_lower :: "char \<Rightarrow> char" where
  "ascii_lower c = (if 65 \<le> (of_char c :: nat) \<and> (of_char c :: nat) \<le> 90 then char_of ((of_char c :: nat) + 32) else c)"

definition wcsicmp_eq :: "string \<Rightarrow> string \<Rightarrow> bool" where
  "wcsicmp_eq a b = (map ascii_lower a = map ascii_lower b)"

definition EAGetByName :: "string \<Rightarrow> int" where
  "EAGetByName name =
     for_ea (\<lambda>ea found. if found \<noteq> 0 then found else if wcsicmp_eq (EAGetName 128 ea True) name then ea else 0) EAGetFirst 0"

section \<open>Key setup and the block operations\<close>

text \<open>The functions of the block ciphers that this file calls. A key setup returns the bytes of the context it fills; the
  ones of AES can fail. \<open>IsAesHwCpuSupported\<close> is the answer of the function of this name.\<close>

record primitives =
  aes_encrypt_key256 :: "bytes \<Rightarrow> bytes option"
  aes_decrypt_key256 :: "bytes \<Rightarrow> bytes option"
  aes_encrypt :: "bytes \<Rightarrow> bytes \<Rightarrow> bytes"
  aes_decrypt :: "bytes \<Rightarrow> bytes \<Rightarrow> bytes"
  IsAesHwCpuSupported :: bool
  aes_hw_cpu_encrypt :: "bytes \<Rightarrow> bytes \<Rightarrow> bytes"
  aes_hw_cpu_decrypt :: "bytes \<Rightarrow> bytes \<Rightarrow> bytes"
  serpent_set_key :: "bytes \<Rightarrow> bytes"
  serpent_encrypt :: "bytes \<Rightarrow> bytes \<Rightarrow> bytes"
  serpent_decrypt :: "bytes \<Rightarrow> bytes \<Rightarrow> bytes"
  twofish_set_key :: "bytes \<Rightarrow> bytes"
  twofish_encrypt :: "bytes \<Rightarrow> bytes \<Rightarrow> bytes"
  twofish_decrypt :: "bytes \<Rightarrow> bytes \<Rightarrow> bytes"
  camellia_set_key :: "bytes \<Rightarrow> bytes"
  camellia_encrypt :: "bytes \<Rightarrow> bytes \<Rightarrow> bytes"
  camellia_decrypt :: "bytes \<Rightarrow> bytes \<Rightarrow> bytes"
  kuznyechik_set_key :: "bytes \<Rightarrow> bytes"
  kuznyechik_encrypt_block :: "bytes \<Rightarrow> bytes \<Rightarrow> bytes"
  kuznyechik_decrypt_block :: "bytes \<Rightarrow> bytes \<Rightarrow> bytes"

text \<open>The return value, and the buffer of key schedules with the one at \<open>off\<close> set up.\<close>

definition CipherInit :: "primitives \<Rightarrow> int \<Rightarrow> bytes \<Rightarrow> nat \<Rightarrow> bytes \<Rightarrow> int \<times> bytes" where
  "CipherInit P cipher key off ks =
     (let key = take 32 key in
      if cipher = AES then
        (case aes_encrypt_key256 P key of
           None \<Rightarrow> (ERR_CIPHER_INIT_FAILURE, ks)
         | Some e \<Rightarrow>
             let ks = store_at off e ks in
             (case aes_decrypt_key256 P key of
                None \<Rightarrow> (ERR_CIPHER_INIT_FAILURE, ks)
              | Some d \<Rightarrow> (ERR_SUCCESS, store_at (off + aes_ctx_size) d ks)))
      else if cipher = SERPENT then (ERR_SUCCESS, store_at off (serpent_set_key P key) ks)
      else if cipher = TWOFISH then (ERR_SUCCESS, store_at off (twofish_set_key P key) ks)
      else if cipher = CAMELLIA then (ERR_SUCCESS, store_at off (camellia_set_key P key) ks)
      else if cipher = KUZNYECHIK then (ERR_SUCCESS, store_at off (kuznyechik_set_key P key) ks)
      else (ERR_CIPHER_INIT_FAILURE, ks))"

text \<open>\<open>ks\<close> is the buffer from the pointer on. An unknown cipher is a fatal exception: \<open>None\<close>.\<close>

definition EncipherBlock :: "primitives \<Rightarrow> int \<Rightarrow> bytes \<Rightarrow> bytes \<Rightarrow> bytes option" where
  "EncipherBlock P cipher ks data =
     (if cipher = AES then
        Some (if IsAesHwCpuSupported P then aes_hw_cpu_encrypt P (take aes_ctx_size ks) data
              else aes_encrypt P (take aes_ctx_size ks) data)
      else if cipher = TWOFISH then Some (twofish_encrypt P (take TWOFISH_KS ks) data)
      else if cipher = SERPENT then Some (serpent_encrypt P (take SERPENT_KS ks) data)
      else if cipher = CAMELLIA then Some (camellia_encrypt P (take CAMELLIA_KS ks) data)
      else if cipher = KUZNYECHIK then Some (kuznyechik_encrypt_block P (take KUZNYECHIK_KS ks) data)
      else None)"

definition DecipherBlock :: "primitives \<Rightarrow> int \<Rightarrow> bytes \<Rightarrow> bytes \<Rightarrow> bytes option" where
  "DecipherBlock P cipher ks data =
     (if cipher = SERPENT then Some (serpent_decrypt P (take SERPENT_KS ks) data)
      else if cipher = TWOFISH then Some (twofish_decrypt P (take TWOFISH_KS ks) data)
      else if cipher = CAMELLIA then Some (camellia_decrypt P (take CAMELLIA_KS ks) data)
      else if cipher = KUZNYECHIK then Some (kuznyechik_decrypt_block P (take KUZNYECHIK_KS ks) data)
      else if cipher = AES then
        Some (if IsAesHwCpuSupported P then aes_hw_cpu_decrypt P (take aes_ctx_size (drop aes_ctx_size ks)) data
              else aes_decrypt P (take aes_ctx_size (drop aes_ctx_size ks)) data)
      else None)"

definition CipherSupportsIntraDataUnitParallelization :: "primitives \<Rightarrow> int \<Rightarrow> bool" where
  "CipherSupportsIntraDataUnitParallelization P cipher = (cipher = AES \<and> IsAesHwCpuSupported P)"

text \<open>\<open>EncryptBufferXTS\<close> and \<open>DecryptBufferXTS\<close> of \<open>Xts.c\<close> with the block operations of this file; \<open>ks\<close> and \<open>ks2\<close>
  are the buffers from the pointers on.\<close>

definition EncryptBufferXTS_cipher :: "primitives \<Rightarrow> bytes \<Rightarrow> u64 \<Rightarrow> nat \<Rightarrow> bytes \<Rightarrow> bytes \<Rightarrow> int \<Rightarrow> bytes option" where
  "EncryptBufferXTS_cipher P buf unit startBlock ks ks2 cipher =
     (if buf \<noteq> [] \<and> EncipherBlock P cipher ks (take 16 buf) = None then None
      else EncryptBufferXTS (CipherSupportsIntraDataUnitParallelization P cipher)
             (\<lambda>b. the (EncipherBlock P cipher ks b)) (\<lambda>b. the (EncipherBlock P cipher ks2 b)) unit startBlock buf)"

definition DecryptBufferXTS_cipher :: "primitives \<Rightarrow> bytes \<Rightarrow> u64 \<Rightarrow> nat \<Rightarrow> bytes \<Rightarrow> bytes \<Rightarrow> int \<Rightarrow> bytes option" where
  "DecryptBufferXTS_cipher P buf unit startBlock ks ks2 cipher =
     (if buf \<noteq> [] \<and> DecipherBlock P cipher ks (take 16 buf) = None then None
      else DecryptBufferXTS (CipherSupportsIntraDataUnitParallelization P cipher)
             (\<lambda>b. the (DecipherBlock P cipher ks b)) (\<lambda>b. the (EncipherBlock P cipher ks2 b)) unit startBlock buf)"

end
