(* ===== verification/CryptoInfo.thy ===== *)
theory CryptoInfo
  imports Crypto
begin

text \<open>
  \<open>CRYPTO_INFO\<close> and the operations of \<open>src/src/Common/Crypto.c\<close> on it: \<open>EAInit\<close>, \<open>EAInitMode\<close>, \<open>EncryptBuffer\<close>,
  \<open>DecryptBuffer\<close>, the two functions for data units, opening and erasing.

  The lemmas: key setup leaves each cipher's schedule at the offset where the walks look for it, encryption is the
  composition of the ciphers of the cascade in XTS mode, and decryption is its inverse, for all fifteen algorithms.
\<close>

record CRYPTO_INFO =
  ea :: int
  mode :: int
  pkcs5 :: int
  ks :: bytes
  ks2 :: bytes
  hiddenVolume :: bool
  HeaderVersion :: u16
  master_keydata :: bytes
  k2 :: bytes
  noIterations :: int
  memoryCost :: int
  volumePim :: int
  bProtectHiddenVolume :: bool
  bHiddenVolProtectionAction :: bool
  volDataAreaOffset :: u64
  hiddenVolumeSize :: u64
  hiddenVolumeOffset :: u64
  hiddenVolumeProtectedSize :: u64
  bPartitionInInactiveSysEncScope :: bool
  FirstDataUnitNo :: u64
  RequiredProgramVersion :: u16
  LegacyVolume :: bool
  SectorSize :: u32
  bVulnerableMasterKey :: bool
  VolumeSize :: u64
  EncryptedAreaStart :: u64
  EncryptedAreaLength :: u64
  HeaderFlags :: u32

text \<open>\<open>memset (cryptoInfo, 0, sizeof (CRYPTO_INFO))\<close>.\<close>

definition zero_info :: CRYPTO_INFO where
  "zero_info =
     \<lparr>ea = 0, mode = 0, pkcs5 = 0, ks = zeros MAX_EXPANDED_KEY, ks2 = zeros MAX_EXPANDED_KEY, hiddenVolume = False,
      HeaderVersion = 0, master_keydata = zeros MASTER_KEYDATA_SIZE, k2 = zeros MASTER_KEYDATA_SIZE, noIterations = 0,
      memoryCost = 0, volumePim = 0, bProtectHiddenVolume = False, bHiddenVolProtectionAction = False,
      volDataAreaOffset = 0, hiddenVolumeSize = 0, hiddenVolumeOffset = 0, hiddenVolumeProtectedSize = 0,
      bPartitionInInactiveSysEncScope = False, FirstDataUnitNo = 0, RequiredProgramVersion = 0, LegacyVolume = False,
      SectorSize = 0, bVulnerableMasterKey = False, VolumeSize = 0, EncryptedAreaStart = 0, EncryptedAreaLength = 0,
      HeaderFlags = 0\<rparr>"

definition crypto_open :: CRYPTO_INFO where
  "crypto_open = zero_info\<lparr>ea := - 1\<rparr>"

definition crypto_eraseKeys :: "CRYPTO_INFO \<Rightarrow> CRYPTO_INFO" where
  "crypto_eraseKeys cryptoInfo =
     cryptoInfo\<lparr>ks := zeros (length (ks cryptoInfo)), ks2 := zeros (length (ks2 cryptoInfo)),
       master_keydata := zeros (length (master_keydata cryptoInfo)), k2 := zeros (length (k2 cryptoInfo)),
       noIterations := 0, volumePim := 0\<rparr>"

section \<open>Key setup\<close>

text \<open>One turn of the loop of \<open>EAInit\<close>: whether it has returned early, the return value, the rest of the key, the
  offset into the buffer of schedules, the buffer.\<close>

definition EAInit_step :: "primitives \<Rightarrow> int \<Rightarrow> bool \<times> int \<times> bytes \<times> nat \<times> bytes \<Rightarrow> bool \<times> int \<times> bytes \<times> nat \<times> bytes" where
  "EAInit_step P c st =
     (let (done, retVal, key, off, buf) = st
      in if done then st
         else let (r, buf) = CipherInit P c key off buf
              in if r = ERR_CIPHER_INIT_FAILURE then (True, ERR_CIPHER_INIT_FAILURE, key, off, buf)
                 else (False, if r = ERR_CIPHER_INIT_WEAK_KEY then ERR_CIPHER_INIT_WEAK_KEY else retVal,
                       drop (CipherGetKeySize c) key, off + CipherGetKeyScheduleSize c, buf))"

definition EAInit :: "primitives \<Rightarrow> int \<Rightarrow> bytes \<Rightarrow> bytes \<Rightarrow> int \<times> bytes" where
  "EAInit P e key buf =
     (if e = 0 then (ERR_CIPHER_INIT_FAILURE, buf)
      else let (done, retVal, key, off, buf) = for_next e (EAInit_step P) (EAGetFirstCipher e) (False, ERR_SUCCESS, key, 0, buf)
           in (retVal, buf))"

definition EAInitMode :: "primitives \<Rightarrow> CRYPTO_INFO \<Rightarrow> bytes \<Rightarrow> (bool \<times> CRYPTO_INFO) option" where
  "EAInitMode P ci key2 =
     (if mode ci = XTS
      then let (r, buf) = EAInit P (ea ci) key2 (ks2 ci); ci = ci\<lparr>ks2 := buf\<rparr>
           in Some (r = ERR_SUCCESS, ci)
      else None)"

section \<open>Encryption and decryption\<close>

text \<open>The loops over the ciphers: the data, or \<open>None\<close> after a fatal exception, and the offset into the two buffers of
  schedules.\<close>

definition encrypt_step :: "primitives \<Rightarrow> bytes \<Rightarrow> bytes \<Rightarrow> u64 \<Rightarrow> int \<Rightarrow> bytes option \<times> nat \<Rightarrow> bytes option \<times> nat" where
  "encrypt_step P k k' unitNo cipher st =
     (let (buf, off) = st
      in (case buf of None \<Rightarrow> None | Some b \<Rightarrow> EncryptBufferXTS_cipher P b unitNo 0 (drop off k) (drop off k') cipher,
          off + CipherGetKeyScheduleSize cipher))"

definition decrypt_step :: "primitives \<Rightarrow> bytes \<Rightarrow> bytes \<Rightarrow> u64 \<Rightarrow> int \<Rightarrow> bytes option \<times> nat \<Rightarrow> bytes option \<times> nat" where
  "decrypt_step P k k' unitNo cipher st =
     (let (buf, off) = st; off = off - CipherGetKeyScheduleSize cipher
      in (case buf of None \<Rightarrow> None | Some b \<Rightarrow> DecryptBufferXTS_cipher P b unitNo 0 (drop off k) (drop off k') cipher, off))"

definition EncryptBuffer :: "primitives \<Rightarrow> bytes \<Rightarrow> CRYPTO_INFO \<Rightarrow> bytes option" where
  "EncryptBuffer P buf ci =
     (if mode ci = XTS
      then fst (for_next (ea ci) (encrypt_step P (ks ci) (ks2 ci) 0) (EAGetFirstCipher (ea ci)) (Some buf, 0))
      else None)"

definition DecryptBuffer :: "primitives \<Rightarrow> bytes \<Rightarrow> CRYPTO_INFO \<Rightarrow> bytes option" where
  "DecryptBuffer P buf ci =
     (if mode ci = XTS
      then case EAGetLastCipher (ea ci) of
             None \<Rightarrow> None
           | Some c \<Rightarrow> fst (for_previous (ea ci) (decrypt_step P (ks ci) (ks2 ci) 0) c (Some buf, EAGetKeyScheduleSize (ea ci)))
      else None)"

text \<open>The first \<open>nbrUnits\<close> data units of the buffer are replaced.\<close>

definition EncryptDataUnitsCurrentThread :: "primitives \<Rightarrow> bytes \<Rightarrow> u64 \<Rightarrow> nat \<Rightarrow> CRYPTO_INFO \<Rightarrow> bytes option" where
  "EncryptDataUnitsCurrentThread P buf unitNo nbrUnits ci =
     (if mode ci = XTS
      then map_option (\<lambda>b. store_at 0 b buf)
             (fst (for_next (ea ci) (encrypt_step P (ks ci) (ks2 ci) unitNo) (EAGetFirstCipher (ea ci))
                     (Some (take (nbrUnits * ENCRYPTION_DATA_UNIT_SIZE) buf), 0)))
      else None)"

definition DecryptDataUnitsCurrentThread :: "primitives \<Rightarrow> bytes \<Rightarrow> u64 \<Rightarrow> nat \<Rightarrow> CRYPTO_INFO \<Rightarrow> bytes option" where
  "DecryptDataUnitsCurrentThread P buf unitNo nbrUnits ci =
     (if mode ci = XTS
      then case EAGetLastCipher (ea ci) of
             None \<Rightarrow> None
           | Some c \<Rightarrow>
               map_option (\<lambda>b. store_at 0 b buf)
                 (fst (for_previous (ea ci) (decrypt_step P (ks ci) (ks2 ci) unitNo) c
                         (Some (take (nbrUnits * ENCRYPTION_DATA_UNIT_SIZE) buf), EAGetKeyScheduleSize (ea ci))))
      else None)"

section \<open>What the algorithms need of the block ciphers\<close>

definition aes_ok :: "primitives \<Rightarrow> bool" where
  "aes_ok P \<longleftrightarrow> (\<forall>key. length key = 32 \<longrightarrow>
     (\<exists>e d. aes_encrypt_key256 P key = Some e \<and> aes_decrypt_key256 P key = Some d \<and>
        length e = aes_ctx_size \<and> length d = aes_ctx_size \<and>
        block_cipher (if IsAesHwCpuSupported P then aes_hw_cpu_encrypt P e else aes_encrypt P e)
                     (if IsAesHwCpuSupported P then aes_hw_cpu_decrypt P d else aes_decrypt P d)))"

definition keyed_ok :: "(bytes \<Rightarrow> bytes) \<Rightarrow> nat \<Rightarrow> (bytes \<Rightarrow> bytes \<Rightarrow> bytes) \<Rightarrow> (bytes \<Rightarrow> bytes \<Rightarrow> bytes) \<Rightarrow> bool" where
  "keyed_ok set_key n E D \<longleftrightarrow>
     (\<forall>key. length key = 32 \<longrightarrow> length (set_key key) = n \<and> block_cipher (E (set_key key)) (D (set_key key)))"

definition primitives_ok :: "primitives \<Rightarrow> bool" where
  "primitives_ok P \<longleftrightarrow> aes_ok P \<and>
     keyed_ok (serpent_set_key P) SERPENT_KS (serpent_encrypt P) (serpent_decrypt P) \<and>
     keyed_ok (twofish_set_key P) TWOFISH_KS (twofish_encrypt P) (twofish_decrypt P) \<and>
     keyed_ok (camellia_set_key P) CAMELLIA_KS (camellia_encrypt P) (camellia_decrypt P) \<and>
     keyed_ok (kuznyechik_set_key P) KUZNYECHIK_KS (kuznyechik_encrypt_block P) (kuznyechik_decrypt_block P)"

section \<open>The walks visit the ciphers of the table in order\<close>

definition ea_ciphers :: "int \<Rightarrow> int list" where
  "ea_ciphers e = takeWhile (\<lambda>c. c \<noteq> 0) (EA_Ciphers (EA e))"

abbreviation ea_valid :: "int \<Rightarrow> bool" where "ea_valid e \<equiv> 1 \<le> e \<and> e \<le> 15"

lemma ea_valid_cases:
  assumes "ea_valid e"
  obtains "e = 1" | "e = 2" | "e = 3" | "e = 4" | "e = 5" | "e = 6" | "e = 7" | "e = 8" | "e = 9" | "e = 10" |
    "e = 11" | "e = 12" | "e = 13" | "e = 14" | "e = 15"
  using assms by (smt (verit))

lemma EA_Ciphers_table:
  "EA_Ciphers (EA 1) = [1, 0, 0, 0]" "EA_Ciphers (EA 2) = [2, 0, 0, 0]" "EA_Ciphers (EA 3) = [3, 0, 0, 0]"
  "EA_Ciphers (EA 4) = [4, 0, 0, 0]" "EA_Ciphers (EA 5) = [5, 0, 0, 0]" "EA_Ciphers (EA 6) = [3, 1, 0, 0]"
  "EA_Ciphers (EA 7) = [2, 3, 1, 0]" "EA_Ciphers (EA 8) = [1, 2, 0, 0]" "EA_Ciphers (EA 9) = [1, 3, 2, 0]"
  "EA_Ciphers (EA 10) = [2, 3, 0, 0]" "EA_Ciphers (EA 11) = [5, 4, 0, 0]" "EA_Ciphers (EA 12) = [3, 5, 0, 0]"
  "EA_Ciphers (EA 13) = [2, 4, 0, 0]" "EA_Ciphers (EA 14) = [1, 5, 0, 0]" "EA_Ciphers (EA 15) = [4, 2, 5, 0]"
  by (simp_all add: EA_def EncryptionAlgorithms_def ea_entry_def numeral_eq_Suc)

lemma EA_Modes_table: "ea_valid e \<Longrightarrow> EA_Modes (EA e) = [1, 0]"
  by (erule ea_valid_cases) (simp_all add: EA_def EncryptionAlgorithms_def ea_entry_def numeral_eq_Suc)

lemma EAGetFirstCipher_table: "ea_valid e \<Longrightarrow> EAGetFirstCipher e = hd (ea_ciphers e)"
  by (erule ea_valid_cases) (simp_all add: EAGetFirstCipher_def ea_ciphers_def EA_Ciphers_table)

lemma EAGetLastCipher_table: "ea_valid e \<Longrightarrow> EAGetLastCipher e = Some (last (ea_ciphers e))"
  by (erule ea_valid_cases)
    (simp_all add: EAGetLastCipher_def EAGetCipherCount_def ea_ciphers_def EA_Ciphers_table Let_def)

lemma for_next_walk: "ea_valid e \<Longrightarrow> for_next e body (EAGetFirstCipher e) st = fold body (ea_ciphers e) st"
  by (erule ea_valid_cases)
    (simp_all add: EAGetFirstCipher_def EAGetNextCipher_def ea_ciphers_def EA_Ciphers_table for_next.simps)

lemma for_previous_walk: "ea_valid e \<Longrightarrow> for_previous e body (last (ea_ciphers e)) st = fold body (rev (ea_ciphers e)) st"
  by (erule ea_valid_cases)
    (simp_all add: EAGetPreviousCipher_def ea_ciphers_def EA_Ciphers_table for_previous.simps)

lemma ea_ciphers_known: "ea_valid e \<Longrightarrow> set (ea_ciphers e) \<subseteq> {AES, SERPENT, TWOFISH, CAMELLIA, KUZNYECHIK}"
  by (erule ea_valid_cases) (simp_all add: ea_ciphers_def EA_Ciphers_table)

lemma CipherGet_sizes:
  "CipherGetKeySize 1 = 32" "CipherGetKeySize 2 = 32" "CipherGetKeySize 3 = 32" "CipherGetKeySize 4 = 32" "CipherGetKeySize 5 = 32"
  "CipherGetKeyScheduleSize 1 = AES_KS" "CipherGetKeyScheduleSize 2 = SERPENT_KS" "CipherGetKeyScheduleSize 3 = TWOFISH_KS"
  "CipherGetKeyScheduleSize 4 = CAMELLIA_KS" "CipherGetKeyScheduleSize 5 = KUZNYECHIK_KS"
  by (simp_all add: CipherGetKeySize_def CipherGetKeyScheduleSize_def CipherGet_def Ciphers_def SERPENT_KS_def)

abbreviation schedules_size :: "int list \<Rightarrow> nat" where
  "schedules_size cs \<equiv> sum_list (map CipherGetKeyScheduleSize cs)"

lemma EAGetKeySize_table: "ea_valid e \<Longrightarrow> EAGetKeySize e = 32 * length (ea_ciphers e)"
  by (erule ea_valid_cases)
    (simp_all add: EAGetKeySize_def EAGetFirstCipher_def EAGetNextCipher_def ea_ciphers_def EA_Ciphers_table
      for_next.simps CipherGet_sizes Let_def)

lemma EAGetKeyScheduleSize_table: "ea_valid e \<Longrightarrow> EAGetKeyScheduleSize e = schedules_size (ea_ciphers e)"
  by (erule ea_valid_cases)
    (simp_all add: EAGetKeyScheduleSize_def EAGetFirstCipher_def EAGetNextCipher_def ea_ciphers_def EA_Ciphers_table
      for_next.simps CipherGet_sizes Let_def)

lemma schedules_fit: "ea_valid e \<Longrightarrow> schedules_size (ea_ciphers e) \<le> MAX_EXPANDED_KEY"
  by (erule ea_valid_cases)
    (simp_all add: ea_ciphers_def EA_Ciphers_table CipherGet_sizes MAX_EXPANDED_KEY_def)

section \<open>The schedules of a cascade\<close>

abbreviation known_ciphers :: "int set" where "known_ciphers \<equiv> {AES, SERPENT, TWOFISH, CAMELLIA, KUZNYECHIK}"

text \<open>The schedule of one cipher, and its two directions under it.\<close>

definition schedule :: "primitives \<Rightarrow> int \<Rightarrow> bytes \<Rightarrow> bytes" where
  "schedule P c key =
     (if c = AES then the (aes_encrypt_key256 P key) @ the (aes_decrypt_key256 P key)
      else if c = SERPENT then serpent_set_key P key
      else if c = TWOFISH then twofish_set_key P key
      else if c = CAMELLIA then camellia_set_key P key
      else kuznyechik_set_key P key)"

definition cipher_enc :: "primitives \<Rightarrow> int \<Rightarrow> bytes \<Rightarrow> bytes \<Rightarrow> bytes" where
  "cipher_enc P c key b = the (EncipherBlock P c (schedule P c key) b)"

definition cipher_dec :: "primitives \<Rightarrow> int \<Rightarrow> bytes \<Rightarrow> bytes \<Rightarrow> bytes" where
  "cipher_dec P c key b = the (DecipherBlock P c (schedule P c key) b)"

lemma length_schedule:
  assumes "primitives_ok P" "c \<in> known_ciphers" "length key = 32"
  shows "length (schedule P c key) = CipherGetKeyScheduleSize c"
proof -
  obtain e d where "aes_encrypt_key256 P key = Some e" "aes_decrypt_key256 P key = Some d" "length e = aes_ctx_size" "length d = aes_ctx_size"
    using assms unfolding primitives_ok_def aes_ok_def by blast
  then show ?thesis using assms
    by (auto simp: primitives_ok_def keyed_ok_def schedule_def CipherGet_sizes AES_KS_def)
qed

lemma cipher_block_cipher:
  assumes "primitives_ok P" "c \<in> known_ciphers" "length key = 32"
  shows "block_cipher (cipher_enc P c key) (cipher_dec P c key)"
proof -
  obtain e d where e: "aes_encrypt_key256 P key = Some e" "aes_decrypt_key256 P key = Some d" "length e = aes_ctx_size" "length d = aes_ctx_size"
    and b: "block_cipher (if IsAesHwCpuSupported P then aes_hw_cpu_encrypt P e else aes_encrypt P e)
                     (if IsAesHwCpuSupported P then aes_hw_cpu_decrypt P d else aes_decrypt P d)"
    using assms unfolding primitives_ok_def aes_ok_def by blast
  have "cipher_enc P AES key = (if IsAesHwCpuSupported P then aes_hw_cpu_encrypt P e else aes_encrypt P e)"
    "cipher_dec P AES key = (if IsAesHwCpuSupported P then aes_hw_cpu_decrypt P d else aes_decrypt P d)"
    using e by (auto simp: fun_eq_iff cipher_enc_def cipher_dec_def schedule_def EncipherBlock_def DecipherBlock_def)
  with b have aes: "block_cipher (cipher_enc P AES key) (cipher_dec P AES key)" by metis
  have "block_cipher (cipher_enc P c key) (cipher_dec P c key)" if "c \<noteq> AES"
    using that assms(2) assms(1,3) [unfolded primitives_ok_def keyed_ok_def]
    by (auto simp: cipher_enc_def [abs_def] cipher_dec_def [abs_def] schedule_def EncipherBlock_def DecipherBlock_def)
  with aes show ?thesis by blast
qed

text \<open>Key setup of one cipher.\<close>

lemma CipherInit_schedule:
  assumes "primitives_ok P" "c \<in> known_ciphers" "32 \<le> length key" "off + CipherGetKeyScheduleSize c \<le> length buf"
  shows "CipherInit P c key off buf = (ERR_SUCCESS, store_at off (schedule P c (take 32 key)) buf)"
proof -
  have l: "length (take 32 key) = 32" using assms by simp
  obtain e d where e: "aes_encrypt_key256 P (take 32 key) = Some e" "aes_decrypt_key256 P (take 32 key) = Some d"
    "length e = aes_ctx_size" "length d = aes_ctx_size"
    using assms(1) l unfolding primitives_ok_def aes_ok_def by blast
  have "off \<le> length buf" using assms by simp
  then have "store_at (off + aes_ctx_size) d (store_at off e buf) = store_at off (e @ d) buf"
    using e by (simp add: store_at_def min_absorb2 add.commute add.left_commute drop_drop)
  then show ?thesis using assms(2) e
    by (auto simp: CipherInit_def schedule_def Let_def)
qed

text \<open>The schedules of a list of ciphers stand in a buffer from an offset on, for the keys concatenated in \<open>key\<close>.\<close>

fun scheduled :: "primitives \<Rightarrow> int list \<Rightarrow> bytes \<Rightarrow> nat \<Rightarrow> bytes \<Rightarrow> bool" where
  "scheduled P [] key off buf = True"
| "scheduled P (c # cs) key off buf =
     (slice off (CipherGetKeyScheduleSize c) buf = schedule P c (take 32 key) \<and>
      scheduled P cs (drop 32 key) (off + CipherGetKeyScheduleSize c) buf)"

lemma EAInit_fold:
  assumes "primitives_ok P" "set cs \<subseteq> known_ciphers" "32 * length cs \<le> length key" "off + schedules_size cs \<le> length buf"
  shows "\<exists>buf'. fold (EAInit_step P) cs (False, ERR_SUCCESS, key, off, buf) =
      (False, ERR_SUCCESS, drop (32 * length cs) key, off + schedules_size cs, buf') \<and>
    length buf' = length buf \<and> take off buf' = take off buf \<and> scheduled P cs key off buf'"
  using assms(2-)
proof (induction cs arbitrary: key off buf)
  case (Cons c cs)
  let ?n = "CipherGetKeyScheduleSize c" and ?s = "schedule P c (take 32 key)"
  have c: "c \<in> known_ciphers" "32 \<le> length key" "off + ?n \<le> length buf" using Cons.prems by auto
  have ls: "length ?s = ?n" by (rule length_schedule [OF assms(1) c(1)]) (use c in simp)
  have k: "CipherGetKeySize c = 32" using c(1) by (auto simp: CipherGet_sizes)
  let ?buf = "store_at off ?s buf"
  have lb: "length ?buf = length buf" using c ls by (simp add: length_store_at)
  have step: "EAInit_step P c (False, ERR_SUCCESS, key, off, buf) = (False, ERR_SUCCESS, drop 32 key, off + ?n, ?buf)"
    using CipherInit_schedule [OF assms(1) c] k
    by (simp add: EAInit_step_def ERR_SUCCESS_def ERR_CIPHER_INIT_FAILURE_def ERR_CIPHER_INIT_WEAK_KEY_def)
  have p: "set cs \<subseteq> known_ciphers" "32 * length cs \<le> length (drop 32 key)" "off + ?n + schedules_size cs \<le> length ?buf"
    using Cons.prems lb by auto
  obtain buf' where b: "fold (EAInit_step P) cs (False, ERR_SUCCESS, drop 32 key, off + ?n, ?buf) =
      (False, ERR_SUCCESS, drop (32 * length cs) (drop 32 key), off + ?n + schedules_size cs, buf')"
    "length buf' = length ?buf" "take (off + ?n) buf' = take (off + ?n) ?buf" "scheduled P cs (drop 32 key) (off + ?n) buf'"
    using Cons.IH [OF p] by blast
  have s: "slice off ?n buf' = ?s"
  proof -
    have "slice off ?n buf' = drop off (take (off + ?n) buf')" by (simp add: slice_def take_drop add.commute)
    also have "\<dots> = slice off ?n ?buf" using b(3) by (simp add: slice_def take_drop add.commute)
    also have "\<dots> = ?s" using c ls by (simp add: slice_store_same)
    finally show ?thesis .
  qed
  have "take off buf' = take off (take (off + ?n) buf')" by (simp add: min_absorb1)
  also have "\<dots> = take off buf" using b(3) c by (simp add: min_absorb1 store_at_def)
  finally have t: "take off buf' = take off buf" .
  show ?case
    using b s t lb by (intro exI [of _ buf']) (simp add: step add.commute add.left_commute)
qed simp

lemma EAInit_scheduled:
  assumes "primitives_ok P" "ea_valid e" "EAGetKeySize e \<le> length key" "length buf = MAX_EXPANDED_KEY"
  shows "\<exists>buf'. EAInit P e key buf = (ERR_SUCCESS, buf') \<and> length buf' = MAX_EXPANDED_KEY \<and> scheduled P (ea_ciphers e) key 0 buf'"
proof -
  have "32 * length (ea_ciphers e) \<le> length key" "0 + schedules_size (ea_ciphers e) \<le> length buf"
    using assms EAGetKeySize_table [of e] schedules_fit [of e] by auto
  from EAInit_fold [OF assms(1) ea_ciphers_known [OF assms(2)] this] show ?thesis
    using assms by (auto simp: EAInit_def for_next_walk)
qed

section \<open>Encryption is the cascade, decryption its inverse\<close>

text \<open>The specification: every cipher of the algorithm in turn, in XTS mode, each under its own 32 bytes of the primary
  and of the secondary key.\<close>

fun cascade_spec :: "primitives \<Rightarrow> int list \<Rightarrow> bytes \<Rightarrow> bytes \<Rightarrow> u64 \<Rightarrow> bytes \<Rightarrow> bytes" where
  "cascade_spec P [] key key2 unit buf = buf"
| "cascade_spec P (c # cs) key key2 unit buf =
     cascade_spec P cs (drop 32 key) (drop 32 key2) unit
       (xts_spec (cipher_enc P c (take 32 key)) (cipher_enc P c (take 32 key2)) unit 0 buf)"

text \<open>A block operation reads no more than the schedule.\<close>

lemma block_operation_schedule:
  assumes "c \<in> known_ciphers" "slice off (CipherGetKeyScheduleSize c) k = schedule P c key"
  shows "EncipherBlock P c (drop off k) b = Some (cipher_enc P c key b)" "DecipherBlock P c (drop off k) b = Some (cipher_dec P c key b)"
proof -
  have t: "take n (drop off k) = take n (schedule P c key)" if "n \<le> CipherGetKeyScheduleSize c" for n
    unfolding assms(2) [symmetric] slice_def using that by simp
  have d: "take aes_ctx_size (drop aes_ctx_size (drop off k)) = take aes_ctx_size (drop aes_ctx_size (schedule P c key))" if "c = AES"
  proof -
    have "take aes_ctx_size (drop aes_ctx_size x) = drop aes_ctx_size (take AES_KS x)" for x :: bytes
      by (simp add: AES_KS_def drop_take)
    moreover have "take AES_KS (drop off k) = take AES_KS (schedule P c key)" using t [of AES_KS] that by (simp add: CipherGet_sizes)
    ultimately show ?thesis by metis
  qed
  show "EncipherBlock P c (drop off k) b = Some (cipher_enc P c key b)"
    using assms(1) t [of AES_KS] t [of aes_ctx_size] t [of SERPENT_KS] t [of TWOFISH_KS] t [of CAMELLIA_KS] t [of KUZNYECHIK_KS]
    by (auto simp: EncipherBlock_def cipher_enc_def CipherGet_sizes AES_KS_def)
  show "DecipherBlock P c (drop off k) b = Some (cipher_dec P c key b)"
    using assms(1) d t [of SERPENT_KS] t [of TWOFISH_KS] t [of CAMELLIA_KS] t [of KUZNYECHIK_KS]
    by (auto simp: DecipherBlock_def cipher_dec_def CipherGet_sizes)
qed

lemma encrypt_fold:
  assumes "primitives_ok P" "set cs \<subseteq> known_ciphers" "32 * length cs \<le> length key" "32 * length cs \<le> length key2"
    "scheduled P cs key off k" "scheduled P cs key2 off k'" "length buf mod 16 = 0"
  shows "fold (encrypt_step P k k' unit) cs (Some buf, off) = (Some (cascade_spec P cs key key2 unit buf), off + schedules_size cs) \<and>
    length (cascade_spec P cs key key2 unit buf) = length buf \<and>
    fold (decrypt_step P k k' unit) (rev cs) (Some (cascade_spec P cs key key2 unit buf), off + schedules_size cs) = (Some buf, off)"
  using assms(2-)
proof (induction cs arbitrary: key key2 off buf)
  case (Cons c cs)
  let ?n = "CipherGetKeyScheduleSize c" and ?E = "cipher_enc P c (take 32 key)" and ?D = "cipher_dec P c (take 32 key)"
    and ?T = "cipher_enc P c (take 32 key2)"
  have c: "c \<in> known_ciphers" and lk: "length (take 32 key) = 32" "length (take 32 key2) = 32" using Cons.prems by auto
  note bc = cipher_block_cipher [OF assms(1) c lk(1)] cipher_block_cipher [OF assms(1) c lk(2)]
  note sz = block_cipher_size [OF bc(1)] block_cipher_size(1) [OF bc(2)]
  have k: "EncipherBlock P c (drop off k) b = Some (?E b)" "DecipherBlock P c (drop off k) b = Some (?D b)"
    "EncipherBlock P c (drop off k') b = Some (?T b)" for b
    using Cons.prems by (auto intro!: block_operation_schedule c)
  let ?b = "xts_spec ?E ?T unit 0 buf"
  have lb: "length ?b = length buf" by (rule length_xts_spec [OF sz(1) Cons.prems(6)])
  have enc: "EncryptBufferXTS_cipher P buf unit 0 (drop off k) (drop off k') c = Some ?b"
    by (simp add: EncryptBufferXTS_cipher_def k EncryptBufferXTS_spec [OF sz(1) sz(3) _ Cons.prems(6)])
  have m: "length ?b mod 16 = 0" using lb Cons.prems(6) by simp
  have dec: "DecryptBufferXTS_cipher P ?b unit 0 (drop off k) (drop off k') c = Some buf"
    by (simp add: DecryptBufferXTS_cipher_def k Decrypt_is_Encrypt EncryptBufferXTS_spec [OF sz(2) sz(3) _ m]
        xts_spec_inverse [OF bc(1) Cons.prems(6)])
  have p: "set cs \<subseteq> known_ciphers" "32 * length cs \<le> length (drop 32 key)" "32 * length cs \<le> length (drop 32 key2)"
    "scheduled P cs (drop 32 key) (off + ?n) k" "scheduled P cs (drop 32 key2) (off + ?n) k'"
    using Cons.prems by auto
  note ih = Cons.IH [OF p m]
  show ?case using ih lb enc dec
    by (simp add: encrypt_step_def decrypt_step_def add.assoc)
qed simp

text \<open>A structure that is ready: the mode and the schedules of both keys.\<close>

definition info_ready :: "primitives \<Rightarrow> bytes \<Rightarrow> bytes \<Rightarrow> CRYPTO_INFO \<Rightarrow> bool" where
  "info_ready P key key2 ci \<longleftrightarrow> mode ci = XTS \<and> ea_valid (ea ci) \<and> EAGetKeySize (ea ci) \<le> length key \<and>
     EAGetKeySize (ea ci) \<le> length key2 \<and> scheduled P (ea_ciphers (ea ci)) key 0 (ks ci) \<and>
     scheduled P (ea_ciphers (ea ci)) key2 0 (ks2 ci)"

lemma buffer_cascade:
  assumes "primitives_ok P" "info_ready P key key2 ci" "length buf mod 16 = 0"
  shows "EncryptBuffer P buf ci = Some (cascade_spec P (ea_ciphers (ea ci)) key key2 0 buf)"
    "length (cascade_spec P (ea_ciphers (ea ci)) key key2 unit buf) = length buf"
    "DecryptBuffer P (cascade_spec P (ea_ciphers (ea ci)) key key2 0 buf) ci = Some buf"
proof -
  have r: "mode ci = XTS" "ea_valid (ea ci)" "32 * length (ea_ciphers (ea ci)) \<le> length key" "32 * length (ea_ciphers (ea ci)) \<le> length key2"
    "scheduled P (ea_ciphers (ea ci)) key 0 (ks ci)" "scheduled P (ea_ciphers (ea ci)) key2 0 (ks2 ci)"
    using assms(2) by (auto simp: info_ready_def EAGetKeySize_table)
  note f = encrypt_fold [OF assms(1) ea_ciphers_known [OF r(2)] r(3-6) assms(3)]
  show "length (cascade_spec P (ea_ciphers (ea ci)) key key2 unit buf) = length buf" using f by blast
  show "EncryptBuffer P buf ci = Some (cascade_spec P (ea_ciphers (ea ci)) key key2 0 buf)"
    using f [of 0] r by (simp add: EncryptBuffer_def for_next_walk)
  show "DecryptBuffer P (cascade_spec P (ea_ciphers (ea ci)) key key2 0 buf) ci = Some buf"
    using f [of 0] r by (simp add: DecryptBuffer_def EAGetLastCipher_table for_previous_walk EAGetKeyScheduleSize_table)
qed

lemma units_cascade:
  assumes "primitives_ok P" "info_ready P key key2 ci" "n * ENCRYPTION_DATA_UNIT_SIZE \<le> length buf"
  shows "EncryptDataUnitsCurrentThread P buf unit n ci =
      Some (store_at 0 (cascade_spec P (ea_ciphers (ea ci)) key key2 unit (take (n * ENCRYPTION_DATA_UNIT_SIZE) buf)) buf)"
    "DecryptDataUnitsCurrentThread P (store_at 0 (cascade_spec P (ea_ciphers (ea ci)) key key2 unit (take (n * ENCRYPTION_DATA_UNIT_SIZE) buf)) buf) unit n ci = Some buf"
proof -
  have r: "mode ci = XTS" "ea_valid (ea ci)" "32 * length (ea_ciphers (ea ci)) \<le> length key" "32 * length (ea_ciphers (ea ci)) \<le> length key2"
    "scheduled P (ea_ciphers (ea ci)) key 0 (ks ci)" "scheduled P (ea_ciphers (ea ci)) key2 0 (ks2 ci)"
    using assms(2) by (auto simp: info_ready_def EAGetKeySize_table)
  let ?m = "n * ENCRYPTION_DATA_UNIT_SIZE" and ?c = "cascade_spec P (ea_ciphers (ea ci)) key key2 unit (take (n * ENCRYPTION_DATA_UNIT_SIZE) buf)"
  have m: "length (take ?m buf) mod 16 = 0"
  proof -
    have "length (take ?m buf) = 16 * (32 * n)" using assms(3) by (simp add: ENCRYPTION_DATA_UNIT_SIZE_def)
    then show ?thesis by simp
  qed
  note f = encrypt_fold [OF assms(1) ea_ciphers_known [OF r(2)] r(3-6) m, of unit]
  show "EncryptDataUnitsCurrentThread P buf unit n ci = Some (store_at 0 ?c buf)"
    using f r by (simp add: EncryptDataUnitsCurrentThread_def for_next_walk)
  have l: "length ?c = ?m" using f assms(3) by simp
  have t: "take ?m (store_at 0 ?c buf) = ?c" using l by (simp add: store_at_def)
  have s: "store_at 0 (take ?m buf) (store_at 0 ?c buf) = buf"
    using l assms(3) by (simp add: store_at_def)
  show "DecryptDataUnitsCurrentThread P (store_at 0 ?c buf) unit n ci = Some buf"
    using f r unfolding DecryptDataUnitsCurrentThread_def t
    by (simp add: EAGetLastCipher_table for_previous_walk EAGetKeyScheduleSize_table s)
qed

end
