(* ===== verification/PrfParams.thy ===== *)
theory PrfParams
  imports Crypto
begin

text \<open>
  The cost parameters of the key derivation functions, from \<open>src/src/Common/Pkcs5.c\<close>: how many iterations and how much
  memory each of them takes for a personal iterations multiplier (PIM), with the process-wide overrides of the memory-hard
  ones as explicit state.
\<close>

text \<open>\<open>g_argon2Override\<close>, \<open>balloonTimeOverride\<close> and \<open>balloonSpaceKibOverride\<close>.\<close>

record kdf_overrides =
  argon2_active :: bool
  argon2_memCostKiB :: u32
  argon2_iterations :: u32
  argon2_parallelism :: u32
  balloonTimeOverride :: u32
  balloonSpaceKibOverride :: u32

definition no_overrides :: kdf_overrides where
  "no_overrides = \<lparr>argon2_active = False, argon2_memCostKiB = 0, argon2_iterations = 0, argon2_parallelism = 1,
     balloonTimeOverride = 0, balloonSpaceKibOverride = 0\<rparr>"

text \<open>Iterations and memory cost in KiB. \<open>div\<close> is C's division here: \<open>pim\<close> is positive.\<close>

definition get_argon2_params :: "int \<Rightarrow> int \<times> int" where
  "get_argon2_params pim =
     (let pim = (if pim < 0 then 0 else pim);
          pim = (if pim = 0 then 12 else pim);
          m_cost_mib = 64 + (pim - 1) * 32;
          m_cost_mib = (if m_cost_mib > 1024 then 1024 else m_cost_mib)
      in (if pim \<le> 31 then 3 + (pim - 1) div 3 else 13 + (pim - 31), m_cost_mib * 1024))"

definition Argon2SetParamsOverride :: "bool \<Rightarrow> u32 \<Rightarrow> u32 \<Rightarrow> u32 \<Rightarrow> kdf_overrides \<Rightarrow> kdf_overrides" where
  "Argon2SetParamsOverride active memCostKiB iterations parallelism s =
     s\<lparr>argon2_active := active, argon2_memCostKiB := memCostKiB, argon2_iterations := iterations,
       argon2_parallelism := (if parallelism \<noteq> 0 then parallelism else 1)\<rparr>"

text \<open>The return value, iterations, memory cost and parallelism.\<close>

definition Argon2GetResolvedParams :: "int \<Rightarrow> kdf_overrides \<Rightarrow> int \<times> u32 \<times> u32 \<times> u32" where
  "Argon2GetResolvedParams pim s =
     (if argon2_active s then (1, argon2_iterations s, argon2_memCostKiB s, argon2_parallelism s)
      else let (it, mc) = get_argon2_params pim in (0, of_int it, of_int mc, 1))"

definition Argon2GetParallelism :: "kdf_overrides \<Rightarrow> u32" where
  "Argon2GetParallelism s = (if argon2_active s then argon2_parallelism s else 1)"

definition BalloonSetParamsOverride :: "u32 \<Rightarrow> u32 \<Rightarrow> kdf_overrides \<Rightarrow> kdf_overrides" where
  "BalloonSetParamsOverride tcost spaceKib s = s\<lparr>balloonTimeOverride := tcost, balloonSpaceKibOverride := spaceKib\<rparr>"

text \<open>Time and space cost.\<close>

definition BalloonGetResolvedParams :: "int \<Rightarrow> kdf_overrides \<Rightarrow> u32 \<times> u32" where
  "BalloonGetResolvedParams pim s =
     (if balloonTimeOverride s \<noteq> 0 \<and> balloonSpaceKibOverride s \<noteq> 0 then (balloonTimeOverride s, balloonSpaceKibOverride s)
      else if pim \<le> 0 then (3, 1024)
      else let spaceKib = 1024 + of_int (pim - 1) * 512
           in (3 + of_int ((pim - 1) div 5), if spaceKib > 65536 then 65536 else spaceKib))"

text \<open>The iteration count and \<open>*pMemoryCost\<close>; \<open>None\<close> is the fatal exception for an unknown PRF.\<close>

definition get_pkcs5_iteration_count :: "int \<Rightarrow> int \<Rightarrow> bool \<Rightarrow> kdf_overrides \<Rightarrow> (int \<times> int) option" where
  "get_pkcs5_iteration_count pkcs5_prf_id pim bBoot s =
     (if pim < 0 then Some (0, 0)
      else if pkcs5_prf_id \<in> {BLAKE2S, SHA256, STREEBOG} then
        Some (if pim = 0 then if bBoot then 200000 else 500000
              else if bBoot then pim * 2048 else 15000 + pim * 1000, 0)
      else if pkcs5_prf_id \<in> {SHA512, WHIRLPOOL, SHA3_512, BLAKE2B} then
        Some (if pim = 0 then 500000 else 15000 + pim * 1000, 0)
      else if pkcs5_prf_id = ARGON2 then
        (let (r, it, mc, par) = Argon2GetResolvedParams pim s in Some (sint it, sint mc))
      else if pkcs5_prf_id = BALLOON then
        (let (bt, bs) = BalloonGetResolvedParams pim s in Some (sint bt, sint bs))
      else None)"

datatype PRF_BOOT_TYPE = PRF_BOOT_NO | PRF_BOOT_MBR | PRF_BOOT_GPT

definition is_pkcs5_prf_supported :: "int \<Rightarrow> PRF_BOOT_TYPE \<Rightarrow> bool" where
  "is_pkcs5_prf_supported pkcs5_prf_id bootType =
     (if pkcs5_prf_id = 0 then True
      else if bootType = PRF_BOOT_MBR \<and> pkcs5_prf_id \<noteq> BLAKE2S \<and> pkcs5_prf_id \<noteq> SHA256 \<or>
              bootType \<noteq> PRF_BOOT_MBR \<and> (pkcs5_prf_id < FIRST_PRF_ID \<or> LAST_PRF_ID < pkcs5_prf_id) then False
      else if (bootType = PRF_BOOT_MBR \<or> bootType = PRF_BOOT_GPT) \<and> pkcs5_prf_id = ARGON2 then False
      else if (bootType = PRF_BOOT_MBR \<or> bootType = PRF_BOOT_GPT) \<and> pkcs5_prf_id = BALLOON then False
      else True)"

text \<open>Every PRF the mount loop goes through has parameters.\<close>

lemma iteration_count_known:
  "FIRST_PRF_ID \<le> prf \<Longrightarrow> prf \<le> LAST_PRF_ID \<Longrightarrow> \<exists>it mc. get_pkcs5_iteration_count prf pim bBoot s = Some (it, mc)"
proof -
  assume "FIRST_PRF_ID \<le> prf" "prf \<le> LAST_PRF_ID"
  then have "prf \<in> {BLAKE2S, SHA256, STREEBOG, SHA512, WHIRLPOOL, SHA3_512, BLAKE2B, ARGON2, BALLOON}"
    by (simp add: FIRST_PRF_ID_def LAST_PRF_ID_def) (smt (verit))
  then show ?thesis by (auto simp: get_pkcs5_iteration_count_def split: prod.split)
qed

end
