(* ===== verification/Volumes.thy ===== *)
theory Volumes
  imports Crc CryptoInfo PrfParams HardwareKeyFactor
begin

text \<open>
  The volume header, \<open>src/src/Common/Volumes.c\<close>: reading a header by trying every PRF and every algorithm
  (\<open>ReadVolumeHeaderWithAbort\<close>, in the build with the hardware factor's version 2 mix bound to the salt), and creating one
  (\<open>CreateVolumeHeaderInMemory\<close>).

  Outside this file, and parameters here: the block ciphers (\<open>primitives\<close>), the key derivation functions
  (\<open>derive_key\<close>), random numbers, and the flag by which the user aborts. Memory allocation succeeds.
\<close>

section \<open>Layout\<close>

definition HEADER_EFFECTIVE_SIZE :: nat where "HEADER_EFFECTIVE_SIZE = 512"
definition HEADER_SALT_OFFSET :: nat where "HEADER_SALT_OFFSET = 0"
definition HEADER_ENCRYPTED_DATA_OFFSET :: nat where "HEADER_ENCRYPTED_DATA_OFFSET = PKCS5_SALT_SIZE"
definition HEADER_ENCRYPTED_DATA_SIZE :: nat where
  "HEADER_ENCRYPTED_DATA_SIZE = HEADER_EFFECTIVE_SIZE - HEADER_ENCRYPTED_DATA_OFFSET"
definition HEADER_MASTER_KEYDATA_OFFSET :: nat where "HEADER_MASTER_KEYDATA_OFFSET = 256"

definition TC_HEADER_OFFSET_MAGIC :: nat where "TC_HEADER_OFFSET_MAGIC = 64"
definition TC_HEADER_OFFSET_VERSION :: nat where "TC_HEADER_OFFSET_VERSION = 68"
definition TC_HEADER_OFFSET_REQUIRED_VERSION :: nat where "TC_HEADER_OFFSET_REQUIRED_VERSION = 70"
definition TC_HEADER_OFFSET_KEY_AREA_CRC :: nat where "TC_HEADER_OFFSET_KEY_AREA_CRC = 72"
definition TC_HEADER_OFFSET_HIDDEN_VOLUME_SIZE :: nat where "TC_HEADER_OFFSET_HIDDEN_VOLUME_SIZE = 92"
definition TC_HEADER_OFFSET_VOLUME_SIZE :: nat where "TC_HEADER_OFFSET_VOLUME_SIZE = 100"
definition TC_HEADER_OFFSET_ENCRYPTED_AREA_START :: nat where "TC_HEADER_OFFSET_ENCRYPTED_AREA_START = 108"
definition TC_HEADER_OFFSET_ENCRYPTED_AREA_LENGTH :: nat where "TC_HEADER_OFFSET_ENCRYPTED_AREA_LENGTH = 116"
definition TC_HEADER_OFFSET_FLAGS :: nat where "TC_HEADER_OFFSET_FLAGS = 124"
definition TC_HEADER_OFFSET_SECTOR_SIZE :: nat where "TC_HEADER_OFFSET_SECTOR_SIZE = 128"
definition TC_HEADER_OFFSET_HEADER_CRC :: nat where "TC_HEADER_OFFSET_HEADER_CRC = 252"

definition TC_HEADER_MAGIC_NUMBER :: u32 where "TC_HEADER_MAGIC_NUMBER = 0x56455241"
definition VOLUME_HEADER_VERSION :: u16 where "VOLUME_HEADER_VERSION = 0x0005"
definition TC_VOLUME_MIN_REQUIRED_PROGRAM_VERSION :: u16 where "TC_VOLUME_MIN_REQUIRED_PROGRAM_VERSION = 0x010b"
definition VERSION_NUM :: u16 where "VERSION_NUM = 0x0126"

definition TC_MIN_VOLUME_SECTOR_SIZE :: u32 where "TC_MIN_VOLUME_SECTOR_SIZE = 512"
definition TC_MAX_VOLUME_SECTOR_SIZE :: u32 where "TC_MAX_VOLUME_SECTOR_SIZE = 4096"
definition TC_SECTOR_SIZE_LEGACY :: u32 where "TC_SECTOR_SIZE_LEGACY = 512"

definition GetHeaderField16 :: "bytes \<Rightarrow> nat \<Rightarrow> u16" where
  "GetHeaderField16 header offset = be_word (slice offset 2 header)"

definition GetHeaderField32 :: "bytes \<Rightarrow> nat \<Rightarrow> u32" where
  "GetHeaderField32 header offset = be_word (slice offset 4 header)"

definition GetHeaderField64 :: "bytes \<Rightarrow> nat \<Rightarrow> u64" where
  "GetHeaderField64 header offset = be_word (slice offset 8 header)"

definition sector_size_bad :: "u32 \<Rightarrow> bool" where
  "sector_size_bad s \<longleftrightarrow> s < TC_MIN_VOLUME_SECTOR_SIZE \<or> s > TC_MAX_VOLUME_SECTOR_SIZE \<or> s mod of_nat ENCRYPTION_DATA_UNIT_SIZE \<noteq> 0"

section \<open>Key derivation\<close>

text \<open>PRF, password, salt, iterations, memory cost, length: the result code, which only the memory-hard functions have,
  and the derived key.\<close>

type_synonym kdf = "int \<Rightarrow> bytes \<Rightarrow> bytes \<Rightarrow> int \<Rightarrow> int \<Rightarrow> nat \<Rightarrow> int \<times> bytes"

definition ARGON2_MEMORY_ALLOCATION_ERROR :: int where "ARGON2_MEMORY_ALLOCATION_ERROR = - 22"
definition ARGON2_OPERATION_CANCELLED :: int where "ARGON2_OPERATION_CANCELLED = - 36"

definition MapArgon2ResultToVcError :: "int \<Rightarrow> int" where
  "MapArgon2ResultToVcError result =
     (if result = 0 then ERR_SUCCESS
      else if result = ARGON2_MEMORY_ALLOCATION_ERROR then ERR_OUTOFMEMORY
      else if result = ARGON2_OPERATION_CANCELLED then ERR_USER_ABORT
      else ERR_KEY_DERIVATION_FAILED)"

definition MapBalloonResultToVcError :: "int \<Rightarrow> int" where
  "MapBalloonResultToVcError result =
     (if result = 0 then ERR_SUCCESS else if result = - 2 then ERR_USER_ABORT else ERR_OUTOFMEMORY)"

text \<open>The switch over the PRFs: Argon2 and Balloon have lengths and a result of their own. \<open>None\<close>: unknown PRF.\<close>

definition derive_header_key :: "kdf \<Rightarrow> int \<Rightarrow> bytes \<Rightarrow> bytes \<Rightarrow> int \<Rightarrow> int \<Rightarrow> (int \<times> bytes) option" where
  "derive_header_key derive_key prf password salt iterations memory =
     (if prf \<in> {SHA512, SHA256, BLAKE2S, WHIRLPOOL, STREEBOG, BLAKE2B, SHA3_512}
      then Some (0, snd (derive_key prf password salt iterations memory GetMaxPkcs5OutSize))
      else if prf = ARGON2 then Some (derive_key prf password salt iterations memory ARGON2_HEADER_KEYDATA_SIZE)
      else if prf = BALLOON then Some (derive_key prf password salt iterations memory BALLOON_HEADER_KEYDATA_SIZE)
      else None)"

section \<open>Reading a header: one algorithm\<close>

text \<open>What a turn of the loop over the algorithms ends with: the next algorithm, an error, or a header that opens, with the
  value of \<open>status\<close> at that point.\<close>

datatype attempt = Continue | Fail int | Opened int bytes

text \<open>The checks on a decrypted header, in the order of the code, with the two fields that are set on the way.\<close>

definition check_header :: "int \<Rightarrow> bool \<Rightarrow> bytes \<Rightarrow> CRYPTO_INFO \<Rightarrow> attempt \<times> CRYPTO_INFO" where
  "check_header status recovery header ci =
     (if GetHeaderField32 header TC_HEADER_OFFSET_MAGIC \<noteq> TC_HEADER_MAGIC_NUMBER then (Continue, ci)
      else let headerVersion = GetHeaderField16 header TC_HEADER_OFFSET_VERSION in
      if headerVersion > VOLUME_HEADER_VERSION then (Fail ERR_NEW_VERSION_REQUIRED, ci)
      else if \<not> recovery \<and> headerVersion \<ge> 4 \<and>
        GetHeaderField32 header TC_HEADER_OFFSET_HEADER_CRC \<noteq>
          GetCrc32 (slice TC_HEADER_OFFSET_MAGIC (TC_HEADER_OFFSET_HEADER_CRC - TC_HEADER_OFFSET_MAGIC) header) then (Continue, ci)
      else let required = GetHeaderField16 header TC_HEADER_OFFSET_REQUIRED_VERSION;
               ci = ci\<lparr>RequiredProgramVersion := required, LegacyVolume := required < 0x10b\<rparr> in
      if \<not> recovery \<and> GetHeaderField32 header TC_HEADER_OFFSET_KEY_AREA_CRC \<noteq>
          GetCrc32 (slice HEADER_MASTER_KEYDATA_OFFSET MASTER_KEYDATA_SIZE header) then (Continue, ci)
      else if required > VERSION_NUM then (Fail ERR_NEW_VERSION_REQUIRED, ci)
      else let hidden = GetHeaderField64 header TC_HEADER_OFFSET_HIDDEN_VOLUME_SIZE;
               sector = (if headerVersion \<ge> 5 then GetHeaderField32 header TC_HEADER_OFFSET_SECTOR_SIZE else TC_SECTOR_SIZE_LEGACY);
               ci = ci\<lparr>HeaderVersion := headerVersion, hiddenVolumeSize := hidden, hiddenVolume := (hidden \<noteq> 0),
                       VolumeSize := GetHeaderField64 header TC_HEADER_OFFSET_VOLUME_SIZE,
                       EncryptedAreaStart := GetHeaderField64 header TC_HEADER_OFFSET_ENCRYPTED_AREA_START,
                       EncryptedAreaLength := GetHeaderField64 header TC_HEADER_OFFSET_ENCRYPTED_AREA_LENGTH,
                       HeaderFlags := GetHeaderField32 header TC_HEADER_OFFSET_FLAGS,
                       SectorSize := sector\<rparr> in
      if sector_size_bad sector then (Fail ERR_PARAMETER_INCORRECT, ci)
      else (Opened status header, ci))"

text \<open>Setting up the ciphers from key data (\<open>dk\<close> or the master keys): the primary schedules, \<open>k2\<close>, the secondary
  schedules. The result is an error code, \<open>ERR_SUCCESS\<close> and \<open>ERR_CIPHER_INIT_WEAK_KEY\<close> being the codes that go on.\<close>

definition init_keys :: "primitives \<Rightarrow> bytes \<Rightarrow> CRYPTO_INFO \<Rightarrow> (int \<times> CRYPTO_INFO) option" where
  "init_keys P keydata ci =
     (let (status, buf) = EAInit P (ea ci) keydata (ks ci); ci = ci\<lparr>ks := buf\<rparr>;
          n = EAGetKeySize (ea ci)
      in if status = ERR_CIPHER_INIT_FAILURE then Some (status, ci)
         else let ci = ci\<lparr>k2 := store_at 0 (slice n n keydata) (k2 ci)\<rparr>
              in (case EAInitMode P ci (drop n keydata) of
                    None \<Rightarrow> None
                  | Some (ok, ci) \<Rightarrow> Some (if ok then status else ERR_MODE_INIT_FAILED, ci)))"

definition init_failed :: "int \<Rightarrow> bool" where
  "init_failed status \<longleftrightarrow> status = ERR_CIPHER_INIT_FAILURE \<or> status = ERR_MODE_INIT_FAILED"

text \<open>The body of the loop over the algorithms, for the algorithm in \<open>ci\<close>, up to the point where the header is accepted.\<close>

definition try_algorithm :: "primitives \<Rightarrow> bool \<Rightarrow> bytes \<Rightarrow> int \<Rightarrow> bytes \<Rightarrow> CRYPTO_INFO \<Rightarrow> (attempt \<times> CRYPTO_INFO) option" where
  "try_algorithm P recovery encryptedHeader pkcs5_prf dk ci =
     (if \<not> EAIsModeSupported (ea ci) (mode ci) then Some (Continue, ci)
      else if pkcs5_prf = ARGON2 \<and> EAGetKeySize (ea ci) * 2 > ARGON2_HEADER_KEYDATA_SIZE then Some (Continue, ci)
      else case init_keys P dk ci of
        None \<Rightarrow> None
      | Some (status, ci) \<Rightarrow>
          if init_failed status then Some (Fail status, ci)
          else let header = take HEADER_EFFECTIVE_SIZE encryptedHeader
               in (case DecryptBuffer P (slice HEADER_ENCRYPTED_DATA_OFFSET HEADER_ENCRYPTED_DATA_SIZE header) ci of
                     None \<Rightarrow> None
                   | Some d \<Rightarrow> Some (check_header status recovery (store_at HEADER_ENCRYPTED_DATA_OFFSET d header) ci)))"

text \<open>\<open>for (cryptoInfo->ea = EAGetFirst (); cryptoInfo->ea != 0; cryptoInfo->ea = EAGetNext (cryptoInfo->ea))\<close>: the loop
  stops at the first attempt that does not continue. \<open>mode\<close> goes through the one mode there is.\<close>

definition try_step :: "primitives \<Rightarrow> bool \<Rightarrow> bytes \<Rightarrow> int \<Rightarrow> bytes \<Rightarrow> int \<Rightarrow> (attempt \<times> CRYPTO_INFO) option \<Rightarrow> (attempt \<times> CRYPTO_INFO) option" where
  "try_step P recovery encryptedHeader pkcs5_prf dk e st =
     (case st of
        None \<Rightarrow> None
      | Some (a, ci) \<Rightarrow> if a \<noteq> Continue then st else try_algorithm P recovery encryptedHeader pkcs5_prf dk (ci\<lparr>ea := e\<rparr>))"

definition try_algorithms :: "primitives \<Rightarrow> bool \<Rightarrow> bytes \<Rightarrow> int \<Rightarrow> bytes \<Rightarrow> CRYPTO_INFO \<Rightarrow> (attempt \<times> CRYPTO_INFO) option" where
  "try_algorithms P recovery encryptedHeader pkcs5_prf dk ci =
     map_option (\<lambda>(a, ci). (a, if a = Continue then ci\<lparr>ea := 0, mode := LAST_MODE_OF_OPERATION + 1\<rparr> else ci))
       (for_ea (try_step P recovery encryptedHeader pkcs5_prf dk) EAGetFirst (Some (Continue, ci\<lparr>mode := FIRST_MODE_OF_OPERATION_ID\<rparr>)))"

section \<open>Reading a header: all PRFs\<close>

text \<open>What the function depends on besides its arguments. \<open>userAbort n\<close> is what the \<open>n\<close>-th reading of \<open>*pUserAbort\<close>
  gives. \<open>prf_order\<close> is the order in which derived keys are tested: the loop's own without the thread pool, the order of
  completion with it.\<close>

record read_env =
  prims :: primitives
  derive_key :: kdf
  overrides :: kdf_overrides
  recoveryMode :: bool
  userAbort :: "nat \<Rightarrow> bool"
  prf_order :: "int list"

text \<open>The arguments. \<open>retInfo\<close> is only tested for \<open>NULL\<close>; \<open>retHeaderCryptoInfo\<close> is the structure it points to.\<close>

record read_args =
  bBoot :: bool
  encryptedHeader :: bytes
  password_Text :: bytes
  password_Length :: nat
  selected_pkcs5_prf :: int
  pim :: int
  retInfo_given :: bool
  retHeaderCryptoInfo :: "CRYPTO_INFO ptr"

text \<open>The status, \<open>*retInfo\<close> and \<open>*retHeaderCryptoInfo\<close> on return.\<close>

type_synonym read_result = "int \<times> CRYPTO_INFO ptr \<times> CRYPTO_INFO ptr"

text \<open>From the accepted header to the opened volume.\<close>

definition open_volume :: "primitives \<Rightarrow> read_args \<Rightarrow> int \<Rightarrow> int \<Rightarrow> int \<Rightarrow> int \<Rightarrow> bytes \<Rightarrow> CRYPTO_INFO \<Rightarrow> read_result option" where
  "open_volume P args pkcs5_prf iterations memory status header ci =
     (let derived = (\<lambda>ci. ci\<lparr>pkcs5 := pkcs5_prf, noIterations := iterations, memoryCost := memory, volumePim := pim args\<rparr>);
          retHeader = (if retHeaderCryptoInfo args = NULL then NULL else Some ci)
      in if retHeader \<noteq> NULL \<and> \<not> retInfo_given args then Some (status, NULL, Some (derived ci))
         else let n = EAGetKeySize (ea ci);
                  keydata = slice HEADER_MASTER_KEYDATA_OFFSET MASTER_KEYDATA_SIZE header
              in (case init_keys P keydata (derived (ci\<lparr>master_keydata := keydata\<rparr>)) of
                    None \<Rightarrow> None
                  | Some (status, ci) \<Rightarrow>
                      if init_failed status then Some (status, NULL, retHeader)
                      else if slice 0 n keydata = slice n n keydata
                      then Some (ERR_SUCCESS, Some (ci\<lparr>bVulnerableMasterKey := True\<rparr>),
                             map_option (\<lambda>h. h\<lparr>bVulnerableMasterKey := True\<rparr>) retHeader)
                      else Some (ERR_SUCCESS, Some ci, retHeader)))"

text \<open>The \<open>err\<close> exit: the structure is closed unless it is the caller's.\<close>

definition read_error :: "read_args \<Rightarrow> int \<Rightarrow> CRYPTO_INFO \<Rightarrow> read_result option" where
  "read_error args status ci = Some (status, NULL, if retHeaderCryptoInfo args = NULL then NULL else Some ci)"

text \<open>The loop over the PRFs: the polls of the user's flag so far, the last failure of Argon2, the structure.\<close>

fun try_prfs :: "read_env \<Rightarrow> read_args \<Rightarrow> bytes \<Rightarrow> bytes \<Rightarrow> int list \<Rightarrow> nat \<Rightarrow> int \<Rightarrow> CRYPTO_INFO \<Rightarrow> read_result option" where
  "try_prfs env args userKey salt [] polls lastArgon2DerivationResult ci =
     read_error args
       (if lastArgon2DerivationResult \<noteq> 0 then MapArgon2ResultToVcError lastArgon2DerivationResult
        else if userAbort env polls then ERR_USER_ABORT else ERR_PASSWORD_WRONG) ci"
| "try_prfs env args userKey salt (prf # prfs) polls lastArgon2DerivationResult ci =
     (if userAbort env polls then read_error args ERR_USER_ABORT ci
      else if selected_pkcs5_prf args \<noteq> 0 \<and> prf \<noteq> selected_pkcs5_prf args
      then try_prfs env args userKey salt prfs (polls + 1) lastArgon2DerivationResult ci
      else if bBoot args \<and> prf = ARGON2
      then try_prfs env args userKey salt prfs (polls + 1) lastArgon2DerivationResult ci
      else case get_pkcs5_iteration_count prf (pim args) (bBoot args) (overrides env) of
        None \<Rightarrow> None
      | Some (iterations, memory) \<Rightarrow>
        (case derive_header_key (derive_key env) prf userKey salt iterations memory of
           None \<Rightarrow> None
         | Some (derivationResult, dk) \<Rightarrow>
             if derivationResult \<noteq> 0
             then if selected_pkcs5_prf args = 0
                  then try_prfs env args userKey salt prfs (polls + 1)
                         (if prf = ARGON2 then derivationResult else lastArgon2DerivationResult) ci
                  else read_error args (if prf = ARGON2 then MapArgon2ResultToVcError derivationResult
                                        else MapBalloonResultToVcError derivationResult) ci
             else if userAbort env (polls + 1) then read_error args ERR_USER_ABORT ci
             else case try_algorithms (prims env) (recoveryMode env) (encryptedHeader args) prf dk ci of
                    None \<Rightarrow> None
                  | Some (Continue, ci) \<Rightarrow> try_prfs env args userKey salt prfs (polls + 2) lastArgon2DerivationResult ci
                  | Some (Fail status, ci) \<Rightarrow> read_error args status ci
                  | Some (Opened status header, ci) \<Rightarrow> open_volume (prims env) args prf iterations memory status header ci))"

text \<open>\<open>crypto_loadkey\<close>: the password at the start of the zeroed \<open>userKey\<close>.\<close>

definition MAX_PASSWORD :: nat where "MAX_PASSWORD = 128"

definition crypto_loadkey :: "bytes \<Rightarrow> nat \<Rightarrow> bytes \<times> int" where
  "crypto_loadkey lpszUserKey nUserKeyLen = (store_at 0 (take nUserKeyLen lpszUserKey) (zeros MAX_PASSWORD), int nUserKeyLen)"

definition ReadVolumeHeaderWithAbortImpl :: "read_env \<Rightarrow> read_args \<Rightarrow> bytes \<Rightarrow> int \<Rightarrow> read_result option" where
  "ReadVolumeHeaderWithAbortImpl env args hkfResp hkfVersion =
     (let args = args\<lparr>pim := if pim args < 0 then 0 else pim args\<rparr>;
          (userKey, keyLength) = crypto_loadkey (password_Text args) (password_Length args);
          salt = slice HEADER_SALT_OFFSET PKCS5_SALT_SIZE (encryptedHeader args);
          (userKey, keyLength) =
            (if 0 < length hkfResp
             then HKFMixResponseIntoPasswordVerSalt hkfVersion userKey keyLength hkfResp (Some salt)
             else (userKey, keyLength));
          run = try_prfs env args (take (nat keyLength) userKey) salt (prf_order env) 0 0
      in case retHeaderCryptoInfo args of
           Some ci \<Rightarrow> run ci
         | None \<Rightarrow> if retInfo_given args then run crypto_open else Some (ERR_PARAMETER_INCORRECT, NULL, NULL))"

definition HKF_MIX_V1 :: int where "HKF_MIX_V1 = 1"

text \<open>The wrapper: one response of the token, mixed into the password in the new way first and in the old way on a wrong
  password. The state is the store of the hardware factor.\<close>

definition ReadVolumeHeaderWithAbort :: "read_env \<Rightarrow> read_args \<Rightarrow> hkf_store \<Rightarrow> (read_result \<times> hkf_store) option" where
  "ReadVolumeHeaderWithAbort env args s =
     (let salt = slice HEADER_SALT_OFFSET PKCS5_SALT_SIZE (encryptedHeader args);
          ((rc, hkfResp, hkfRespLen), s) = HKFComputeActiveResponse (Some salt) (zeros 64) s;
          hkfResp = take (nat hkfRespLen) hkfResp
      in if rc \<noteq> HKF_OK then Some ((ERR_KEY_DERIVATION_FAILED, NULL, retHeaderCryptoInfo args), s)
         else if hkfRespLen = 0 then map_option (\<lambda>r. (r, s)) (ReadVolumeHeaderWithAbortImpl env args [] HKF_MIX_V2)
         else case ReadVolumeHeaderWithAbortImpl env args hkfResp HKF_MIX_V2 of
                None \<Rightarrow> None
              | Some (status, info, retHeader) \<Rightarrow>
                  if status = ERR_PASSWORD_WRONG
                  then map_option (\<lambda>r. (r, s))
                         (ReadVolumeHeaderWithAbortImpl env (args\<lparr>retHeaderCryptoInfo := retHeader\<rparr>) hkfResp HKF_MIX_V1)
                  else Some ((status, info, retHeader), s))"

definition ReadVolumeHeader :: "read_env \<Rightarrow> read_args \<Rightarrow> hkf_store \<Rightarrow> (read_result \<times> hkf_store) option" where
  "ReadVolumeHeader env args s = ReadVolumeHeaderWithAbort (env\<lparr>userAbort := \<lambda>n. False\<rparr>) args s"

section \<open>Creating a header\<close>

record create_args =
  c_bBoot :: bool
  c_ea :: int
  c_mode :: int
  c_password :: "(bytes \<times> nat) ptr"
  c_prf :: int
  c_pim :: int
  c_masterKeydata :: "bytes ptr"
  c_volumeSize :: u64
  c_hiddenVolumeSize :: u64
  c_encryptedAreaStart :: u64
  c_encryptedAreaLength :: u64
  c_requiredProgramVersion :: u16
  c_headerFlags :: u32
  c_sectorSize :: u32

text \<open>The three calls of \<open>RandgetBytes\<close>: for the master keys, the salt, and the key of a header without password.
  \<open>None\<close>: the generator fails.\<close>

record create_env =
  ce_prims :: primitives
  ce_derive :: kdf
  ce_overrides :: kdf_overrides
  rand_master :: "nat \<Rightarrow> bytes option"
  rand_salt :: "nat \<Rightarrow> bytes option"
  rand_dk :: "nat \<Rightarrow> bytes option"

text \<open>\<open>mputBytes\<close>, \<open>mputLong\<close>, \<open>mputWord\<close>, \<open>mputInt64\<close>: bytes at the pointer, which moves behind them.\<close>

definition mput :: "bytes \<Rightarrow> bytes \<times> nat \<Rightarrow> bytes \<times> nat" where
  "mput bs hp = (let (header, p) = hp in (store_at p bs header, p + length bs))"

text \<open>The plain header, from the zeroed buffer.\<close>

definition plain_header :: "bytes \<Rightarrow> bytes \<Rightarrow> create_args \<Rightarrow> bytes" where
  "plain_header salt keydata a =
     (let hp = (zeros HEADER_EFFECTIVE_SIZE, 0);
          hp = mput salt hp;
          hp = mput (be_bytes 4 TC_HEADER_MAGIC_NUMBER) hp;
          hp = mput (be_bytes 2 VOLUME_HEADER_VERSION) hp;
          hp = mput (be_bytes 2 (if c_requiredProgramVersion a \<noteq> 0 then c_requiredProgramVersion a
                                 else TC_VOLUME_MIN_REQUIRED_PROGRAM_VERSION)) hp;
          x = GetCrc32 keydata;
          hp = mput (be_bytes 4 x) hp;
          (header, p) = hp;
          hp = (header, p + 2 * 8);
          hp = mput (be_bytes 8 (c_hiddenVolumeSize a)) hp;
          hp = mput (be_bytes 8 (c_volumeSize a)) hp;
          hp = mput (be_bytes 8 (c_encryptedAreaStart a)) hp;
          hp = mput (be_bytes 8 (c_encryptedAreaLength a)) hp;
          hp = mput (be_bytes 4 (c_headerFlags a)) hp;
          hp = mput (be_bytes 4 (c_sectorSize a)) hp;
          header = fst hp;
          x = GetCrc32 (slice TC_HEADER_OFFSET_MAGIC (TC_HEADER_OFFSET_HEADER_CRC - TC_HEADER_OFFSET_MAGIC) header);
          header = store_at TC_HEADER_OFFSET_HEADER_CRC (be_bytes 4 x) header
      in store_at HEADER_MASTER_KEYDATA_OFFSET keydata header)"

text \<open>The key that encrypts the header: derived from the password, or random. \<open>Inl\<close> is the error returned.\<close>

definition create_header_key :: "create_env \<Rightarrow> create_args \<Rightarrow> bytes \<Rightarrow> bytes \<Rightarrow> int \<Rightarrow> int \<Rightarrow> (int + bytes) option" where
  "create_header_key env a userKey salt iterations memory =
     (if c_password a \<noteq> NULL
      then case derive_header_key (ce_derive env) (c_prf a) userKey salt iterations memory of
             None \<Rightarrow> None
           | Some (r, dk) \<Rightarrow>
               Some (if r \<noteq> 0 then Inl (if c_prf a = ARGON2 then MapArgon2ResultToVcError r else MapBalloonResultToVcError r)
                     else Inr dk)
      else Some (case rand_dk env GetMaxPkcs5OutSize of None \<Rightarrow> Inl ERR_CIPHER_INIT_WEAK_KEY | Some dk \<Rightarrow> Inr dk))"

text \<open>The return value, the header buffer and \<open>*retInfo\<close>; \<open>None\<close> is a fatal exception.\<close>

type_synonym create_result = "int \<times> bytes \<times> CRYPTO_INFO ptr"

text \<open>Header setup and encryption, for the master keys, the salt and the header key.\<close>

definition write_header :: "create_env \<Rightarrow> create_args \<Rightarrow> int \<Rightarrow> int \<Rightarrow> bytes \<Rightarrow> bytes \<Rightarrow> bytes \<Rightarrow> create_result option" where
  "write_header env a iterations memory keydata salt dk =
     (let P = ce_prims env;
          header = plain_header salt keydata a;
          ci = crypto_open\<lparr>ea := c_ea a, pkcs5 := c_prf a, noIterations := iterations, memoryCost := memory,
                 volumePim := (if c_pim a < 0 then 0 else c_pim a), mode := c_mode a, HeaderVersion := VOLUME_HEADER_VERSION,
                 hiddenVolumeSize := c_hiddenVolumeSize a, hiddenVolume := (c_hiddenVolumeSize a \<noteq> 0),
                 VolumeSize := c_volumeSize a, EncryptedAreaStart := c_encryptedAreaStart a,
                 EncryptedAreaLength := c_encryptedAreaLength a, HeaderFlags := c_headerFlags a\<rparr>;
          n = EAGetKeySize (ea ci)
      in if sector_size_bad (c_sectorSize a) then None
         else let ci = ci\<lparr>SectorSize := c_sectorSize a, k2 := store_at 0 (slice n n dk) (k2 ci)\<rparr>;
                  (retVal, buf) = EAInit P (ea ci) dk (ks ci); ci = ci\<lparr>ks := buf\<rparr>
              in if retVal \<noteq> ERR_SUCCESS then Some (retVal, header, NULL)
                 else case EAInitMode P ci (drop n dk) of
                   None \<Rightarrow> None
                 | Some (ok, ci) \<Rightarrow>
                   if \<not> ok then Some (ERR_OUTOFMEMORY, header, NULL)
                   else (case EncryptBuffer P (slice HEADER_ENCRYPTED_DATA_OFFSET HEADER_ENCRYPTED_DATA_SIZE header) ci of
                     None \<Rightarrow> None
                   | Some c \<Rightarrow>
                     let header = store_at HEADER_ENCRYPTED_DATA_OFFSET c header;
                         (retVal, buf) = EAInit P (ea ci) keydata (ks ci); ci = ci\<lparr>ks := buf\<rparr>
                     in if retVal \<noteq> ERR_SUCCESS then Some (retVal, header, NULL)
                        else let ci = ci\<lparr>master_keydata := keydata, k2 := store_at 0 (slice n n keydata) (k2 ci)\<rparr>
                             in (case EAInitMode P ci (drop n keydata) of
                                   None \<Rightarrow> None
                                 | Some (ok, ci) \<Rightarrow>
                                     if \<not> ok then Some (ERR_OUTOFMEMORY, header, NULL)
                                     else Some (ERR_SUCCESS, header, Some ci))))"

text \<open>The master keys: random ones, at the start of the zeroed array, or the given ones. \<open>Inl\<close> is the error returned.\<close>

definition create_master_keys :: "create_env \<Rightarrow> create_args \<Rightarrow> int + bytes" where
  "create_master_keys env a =
     (let bytesNeeded = EAGetKeySize (c_ea a) * 2
      in case c_masterKeydata a of
           Some keydata \<Rightarrow> Inr (take MASTER_KEYDATA_SIZE keydata)
         | None \<Rightarrow>
             (case rand_master env bytesNeeded of
                None \<Rightarrow> Inl ERR_CIPHER_INIT_WEAK_KEY
              | Some r \<Rightarrow>
                  let keydata = store_at 0 r (zeros MASTER_KEYDATA_SIZE)
                  in if slice 0 (bytesNeeded div 2) keydata = slice (bytesNeeded div 2) (bytesNeeded div 2) keydata
                     then Inl ERR_CIPHER_INIT_WEAK_KEY else Inr keydata))"

text \<open>\<open>header\<close> is the buffer as it was.\<close>

definition CreateVolumeHeaderInMemory :: "create_env \<Rightarrow> create_args \<Rightarrow> bytes \<Rightarrow> hkf_store \<Rightarrow> (create_result \<times> hkf_store) option" where
  "CreateVolumeHeaderInMemory env a header s =
     (if c_bBoot a \<and> c_prf a = ARGON2 then Some ((ERR_PARAMETER_INCORRECT, header, NULL), s)
      else let header = zeros HEADER_EFFECTIVE_SIZE
      in case create_master_keys env a of
           Inl e \<Rightarrow> Some ((e, header, NULL), s)
         | Inr keydata \<Rightarrow>
           let p = (if c_pim a < 0 then 0 else c_pim a);
               user = (case c_password a of None \<Rightarrow> Some (zeros MAX_PASSWORD, 0, 0, 0)
                       | Some (text, len) \<Rightarrow>
                           map_option (\<lambda>(it, mem). (store_at 0 (take len text) (zeros MAX_PASSWORD), int len, it, mem))
                             (get_pkcs5_iteration_count (c_prf a) p (c_bBoot a) (ce_overrides env)))
           in (case user of
                 None \<Rightarrow> None
               | Some (userKey, keyLength, iterations, memory) \<Rightarrow>
                 if c_prf a = ARGON2 \<and> EAGetKeySize (c_ea a) * 2 > ARGON2_HEADER_KEYDATA_SIZE
                 then Some ((ERR_PARAMETER_INCORRECT, header, NULL), s)
                 else (case rand_salt env PKCS5_SALT_SIZE of
                   None \<Rightarrow> Some ((ERR_CIPHER_INIT_WEAK_KEY, header, NULL), s)
                 | Some salt \<Rightarrow>
                   let ((rc, userKey, keyLength), s) =
                         (if c_password a \<noteq> NULL then HKFApplyIfConfiguredVer HKF_MIX_V2 userKey keyLength (Some salt) s
                          else ((HKF_OK, userKey, keyLength), s))
                   in if rc \<noteq> HKF_OK then Some ((ERR_KEY_DERIVATION_FAILED, header, NULL), s)
                      else (case create_header_key env a (take (nat keyLength) userKey) salt iterations memory of
                        None \<Rightarrow> None
                      | Some (Inl e) \<Rightarrow> Some ((e, header, NULL), s)
                      | Some (Inr dk) \<Rightarrow>
                          map_option (\<lambda>r. (r, s)) (write_header env a iterations memory keydata salt dk)))))"

end
