(* ===== verification/AesCt.thy ===== *)
theory AesCt
  imports Gf256 BlockCipher
begin

text \<open>
  The constant-time AES-256 of \<open>src/src/Crypto/AesCt.c\<close>: the S-box is arithmetic in GF(2^8), the key schedule
  and both directions of the block cipher work on arrays of bytes. The file carries its own copies of the field
  functions of \<open>Shamir.c\<close>; they are defined again here and shown to be the same functions.
\<close>

section \<open>The code\<close>

definition aes_gf_mul :: "byte \<Rightarrow> byte \<Rightarrow> byte" where
  "aes_gf_mul a b =
     fst (fold (\<lambda>i (p, a, b).
       let mask = 0 - (b AND 1);
           hi = (0 - (drop_bit 7 a AND 1)) AND 0x1b
       in (p XOR (mask AND a), push_bit 1 a XOR hi, drop_bit 1 b)) [0..<8] (0, a, b))"

definition aes_gf_inv :: "byte \<Rightarrow> byte" where
  "aes_gf_inv a = fst (fold (\<lambda>i (r, base).
       (if drop_bit i 254 AND 1 \<noteq> (0 :: u32) then aes_gf_mul r base else r, aes_gf_mul base base)) [0..<8] (1, a))"

definition rotl8 :: "byte \<Rightarrow> nat \<Rightarrow> byte" where
  "rotl8 x n = push_bit n x OR drop_bit (8 - n) x"

definition sbox :: "byte \<Rightarrow> byte" where
  "sbox x = (let b = aes_gf_inv x in b XOR rotl8 b 1 XOR rotl8 b 2 XOR rotl8 b 3 XOR rotl8 b 4 XOR 0x63)"

definition aes_xtime :: "byte \<Rightarrow> byte" where
  "aes_xtime a = push_bit 1 a XOR (0x1b AND (0 - (drop_bit 7 a AND 1)))"

definition Rcon :: bytes where
  "Rcon = [0x00, 0x01, 0x02, 0x04, 0x08, 0x10, 0x20, 0x40]"

text \<open>One pass of the loop over the words of the schedule; the words so far are the list \<open>w\<close>.\<close>

definition key_word :: "nat \<Rightarrow> bytes list \<Rightarrow> bytes list" where
  "key_word i w =
     (let t = w ! (i - 1);
          t = (if i mod 8 = 0
               then let t = [t ! 1, t ! 2, t ! 3, t ! 0]; t = map sbox t in t[0 := t ! 0 XOR Rcon ! (i div 8)]
               else if i mod 8 = 4 then map sbox t else t)
      in w @ [map (\<lambda>k. w ! (i - 8) ! k XOR t ! k) [0..<4]])"

definition AesCtInit256 :: "bytes \<Rightarrow> bytes" where
  "AesCtInit256 key = concat (fold key_word [8..<60] (map (\<lambda>i. slice (4 * i) 4 key) [0..<8]))"

definition add_round_key :: "bytes \<Rightarrow> nat \<Rightarrow> bytes \<Rightarrow> bytes" where
  "add_round_key rk r s = map (\<lambda>i. s ! i XOR rk ! (16 * r + i)) [0..<16]"

definition shift_rows :: "bytes \<Rightarrow> bytes" where
  "shift_rows s = map (\<lambda>i. let c = i div 4; r = i mod 4 in s ! (4 * ((c + r) mod 4) + r)) [0..<16]"

definition mix_column :: "byte \<Rightarrow> byte \<Rightarrow> byte \<Rightarrow> byte \<Rightarrow> bytes" where
  "mix_column a0 a1 a2 a3 =
     [aes_xtime a0 XOR (aes_xtime a1 XOR a1) XOR a2 XOR a3,
      a0 XOR aes_xtime a1 XOR (aes_xtime a2 XOR a2) XOR a3,
      a0 XOR a1 XOR aes_xtime a2 XOR (aes_xtime a3 XOR a3),
      (aes_xtime a0 XOR a0) XOR a1 XOR a2 XOR aes_xtime a3]"

definition mix_columns :: "bytes \<Rightarrow> bytes" where
  "mix_columns s = concat (map (\<lambda>c. mix_column (s ! (4 * c)) (s ! (4 * c + 1)) (s ! (4 * c + 2)) (s ! (4 * c + 3))) [0..<4])"

definition enc_round :: "bytes \<Rightarrow> nat \<Rightarrow> bytes \<Rightarrow> bytes" where
  "enc_round rk r s = add_round_key rk r (mix_columns (shift_rows (map sbox s)))"

definition AesCtEncryptBlock :: "bytes \<Rightarrow> bytes \<Rightarrow> bytes" where
  "AesCtEncryptBlock rk inb =
     (let s = take 16 inb;
          s = add_round_key rk 0 s;
          s = fold (enc_round rk) [1..<14] s;
          s = map sbox s;
          s = shift_rows s
      in add_round_key rk 14 s)"

definition AesCtEncrypt256 :: "bytes \<Rightarrow> bytes \<Rightarrow> bytes" where
  "AesCtEncrypt256 key inb = AesCtEncryptBlock (AesCtInit256 key) inb"

definition inv_sbox :: "byte \<Rightarrow> byte" where
  "inv_sbox y = (let b = rotl8 y 1 XOR rotl8 y 3 XOR rotl8 y 6 XOR 0x05 in aes_gf_inv b)"

definition inv_shift_rows :: "bytes \<Rightarrow> bytes" where
  "inv_shift_rows s = map (\<lambda>i. let c = i div 4; r = i mod 4 in s ! (4 * nat ((int c - int r) mod 4) + r)) [0..<16]"

definition inv_mix_column :: "byte \<Rightarrow> byte \<Rightarrow> byte \<Rightarrow> byte \<Rightarrow> bytes" where
  "inv_mix_column a0 a1 a2 a3 =
     [aes_gf_mul a0 0x0e XOR aes_gf_mul a1 0x0b XOR aes_gf_mul a2 0x0d XOR aes_gf_mul a3 0x09,
      aes_gf_mul a0 0x09 XOR aes_gf_mul a1 0x0e XOR aes_gf_mul a2 0x0b XOR aes_gf_mul a3 0x0d,
      aes_gf_mul a0 0x0d XOR aes_gf_mul a1 0x09 XOR aes_gf_mul a2 0x0e XOR aes_gf_mul a3 0x0b,
      aes_gf_mul a0 0x0b XOR aes_gf_mul a1 0x0d XOR aes_gf_mul a2 0x09 XOR aes_gf_mul a3 0x0e]"

definition inv_mix_columns :: "bytes \<Rightarrow> bytes" where
  "inv_mix_columns s = concat (map (\<lambda>c. inv_mix_column (s ! (4 * c)) (s ! (4 * c + 1)) (s ! (4 * c + 2)) (s ! (4 * c + 3))) [0..<4])"

definition dec_round :: "bytes \<Rightarrow> nat \<Rightarrow> bytes \<Rightarrow> bytes" where
  "dec_round rk r s = inv_mix_columns (add_round_key rk r (map inv_sbox (inv_shift_rows s)))"

definition AesCtDecryptBlock :: "bytes \<Rightarrow> bytes \<Rightarrow> bytes" where
  "AesCtDecryptBlock rk inb =
     (let s = take 16 inb;
          s = add_round_key rk 14 s;
          s = fold (dec_round rk) (rev [1..<14]) s;
          s = inv_shift_rows s;
          s = map inv_sbox s
      in add_round_key rk 0 s)"

definition AesCtDecrypt256 :: "bytes \<Rightarrow> bytes \<Rightarrow> bytes" where
  "AesCtDecrypt256 key inb = AesCtDecryptBlock (AesCtInit256 key) inb"

section \<open>The copies of the field functions\<close>

lemma aes_gf_mul: "aes_gf_mul = gf_mul"
  unfolding fun_eq_iff aes_gf_mul_def gf_mul_def
  by (intro allI, rule arg_cong [where f = fst], rule fold_cong) (auto simp: gf_mul_step_def Let_def)

lemma aes_gf_inv: "aes_gf_inv a = gf_inv a"
  unfolding aes_gf_inv_def gf_inv_def aes_gf_mul ..

lemma aes_xtime: "aes_xtime a = xtime a"
  unfolding aes_xtime_def xtime_def mask_bit by (simp add: bit_drop_bit_eq)

section \<open>The inverses of the layers\<close>

lemma bit_rotl8: "n \<le> 8 \<Longrightarrow> bit (rotl8 x n) i \<longleftrightarrow> i < 8 \<and> bit x ((i + (8 - n)) mod 8)"
proof -
  assume n: "n \<le> 8"
  consider "i < n" "i < 8" | "n \<le> i" "i < 8" | "8 \<le> i" by linarith
  then show ?thesis
  proof cases
    case 1
    then have "(i + (8 - n)) mod 8 = i + (8 - n)" using n by simp
    then show ?thesis using 1 n by (simp add: rotl8_def bit_simps add.commute)
  next
    case 2
    then have "i + (8 - n) = 8 + (i - n)" using n by simp
    then have e: "(i + (8 - n)) mod 8 = i - n" using 2 by (simp only: mod_add_self1) simp
    have "\<not> bit x (i + (8 - n))" using \<open>i + (8 - n) = 8 + (i - n)\<close> by (simp add: bit_byte_ge)
    then show ?thesis unfolding e using 2 n by (simp add: rotl8_def bit_simps add.commute)
  next
    case 3
    then show ?thesis by (simp add: bit_byte_ge)
  qed
qed

lemma rotl8_xor: "rotl8 (x XOR y) n = rotl8 x n XOR rotl8 y n" if "n \<le> 8"
  by (rule bit_word_eqI) (simp add: bit_xor_iff bit_rotl8 that)

lemma rotl8_rotl8: "rotl8 (rotl8 x m) n = rotl8 x ((m + n) mod 8)" if "m < 8" "n < 8"
proof (rule bit_word_eqI)
  fix i assume i: "i < LENGTH(8)"
  have "(i + (8 - n)) mod 8 + (8 - m) = i + (8 - n) + (8 - m) \<or> (i + (8 - n)) mod 8 + (8 - m) + 8 = i + (8 - n) + (8 - m)"
    using i that by (cases "i + (8 - n) < 8") (simp_all add: le_mod_geq)
  have "((i + (8 - n)) mod 8 + (8 - m)) mod 8 = (i + (8 - n) + (8 - m)) mod 8"
    by (rule mod_add_left_eq)
  also have "\<dots> = (i + (8 - (m + n) mod 8)) mod 8"
  proof (cases "m + n < 8")
    case True
    then have "i + (8 - n) + (8 - m) = (i + (8 - (m + n) mod 8)) + 8" by simp
    then show ?thesis by (simp only: mod_add_self2)
  next
    case False
    then have "(m + n) mod 8 = m + n - 8" using that by (simp add: le_mod_geq)
    then have "i + (8 - n) + (8 - m) = i + (8 - (m + n) mod 8)" using that False by simp
    then show ?thesis by simp
  qed
  finally show "bit (rotl8 (rotl8 x m) n) i = bit (rotl8 x ((m + n) mod 8)) i"
    using i that by (simp add: bit_rotl8 order_less_imp_le)
qed

lemma rotl8_0: "rotl8 x 0 = x"
  by (rule bit_word_eqI) (simp add: bit_rotl8)

lemma affine_inverse:
  fixes b :: byte
  defines "y \<equiv> b XOR rotl8 b 1 XOR rotl8 b 2 XOR rotl8 b 3 XOR rotl8 b 4 XOR 0x63"
  shows "rotl8 y 1 XOR rotl8 y 3 XOR rotl8 y 6 XOR 0x05 = b"
proof -
  have c: "rotl8 0x63 1 = 0xc6" "rotl8 0x63 3 = 0x1b" "rotl8 0x63 6 = 0xd8" by (simp_all add: rotl8_def)
  show ?thesis
    unfolding y_def
    by (simp add: rotl8_xor rotl8_rotl8 c rotl8_0 ac_simps del: One_nat_def)
qed

lemma gf_inv_inv: "gf_inv (gf_inv a) = a"
proof -
  have "Gf (gf_inv (gf_inv a)) = Gf a" by (simp add: Gf_simps)
  then show ?thesis by (simp add: Gf_inject_iff)
qed

lemma inv_sbox_sbox: "inv_sbox (sbox x) = x"
  unfolding inv_sbox_def sbox_def Let_def affine_inverse by (simp add: aes_gf_inv gf_inv_inv)

lemma shift_rows_inverse: "length s = 16 \<Longrightarrow> inv_shift_rows (shift_rows s) = s"
proof -
  assume l: "length s = 16"
  have "inv_shift_rows (shift_rows s) = map ((!) s) [0..<16]"
    unfolding inv_shift_rows_def shift_rows_def upt_0_16 by (simp flip: numeral_2_eq_2)
  then show ?thesis using map_nth [of s] l by simp
qed

lemma length_shift_rows [simp]: "length (shift_rows s) = 16" "length (inv_shift_rows s) = 16"
  by (simp_all add: shift_rows_def inv_shift_rows_def)

lemma gf_mul_xtime: "gf_mul (xtime a) c = gf_mul a (xtime c)"
  using gf_mul_xtimes_left [of 1 a c] gf_mul_xtimes_left [of 1 c a] by (simp add: gf_mul_comm)

lemma gf_mul_collect:
  "gf_mul a c XOR gf_mul a d = gf_mul a (c XOR d)" "gf_mul a c XOR (gf_mul a d XOR z) = gf_mul a (c XOR d) XOR z"
  by (simp_all add: gf_mul_distrib xor.assoc)

lemma mix_column_inverse:
  "(case mix_column a0 a1 a2 a3 of [b0, b1, b2, b3] \<Rightarrow> inv_mix_column b0 b1 b2 b3) = [a0, a1, a2, a3]"
proof -
  have x: "xtime 9 = 0x12" "xtime 0xb = 0x16" "xtime 0xd = 0x1a" "xtime 0xe = 0x1c" by (simp_all add: xtime_def)
  show ?thesis
    unfolding mix_column_def list.case inv_mix_column_def aes_gf_mul aes_xtime gf_mul_distrib(1) gf_mul_xtime x
    by (simp add: ac_simps gf_mul_collect gf_mul_one)
qed

lemma length_mix_columns [simp]: "length (mix_columns s) = 16" "length (inv_mix_columns s) = 16"
  by (simp_all add: mix_columns_def inv_mix_columns_def mix_column_def inv_mix_column_def upt_rec)

lemma length_add_round_key [simp]: "length (add_round_key rk r s) = 16"
  by (simp add: add_round_key_def)

lemma mix_columns_inverse: "length s = 16 \<Longrightarrow> inv_mix_columns (mix_columns s) = s"
proof -
  assume l: "length s = 16"
  have e: "[0..<4] = [0, 1, 2, 3 :: nat]" by (simp add: upt_rec)
  have col: "inv_mix_column (mix_column a0 a1 a2 a3 ! 0) (mix_column a0 a1 a2 a3 ! 1) (mix_column a0 a1 a2 a3 ! 2) (mix_column a0 a1 a2 a3 ! 3) =
      [a0, a1, a2, a3]" for a0 a1 a2 a3
    using mix_column_inverse [of a0 a1 a2 a3] by (simp add: mix_column_def)
  have m: "mix_column a0 a1 a2 a3 = [mix_column a0 a1 a2 a3 ! 0, mix_column a0 a1 a2 a3 ! 1, mix_column a0 a1 a2 a3 ! 2, mix_column a0 a1 a2 a3 ! 3]" for a0 a1 a2 a3
    by (simp add: mix_column_def)
  define f where "f k = mix_column (s ! (4 * k)) (s ! (4 * k + 1)) (s ! (4 * k + 2)) (s ! (4 * k + 3))" for k
  have f: "f k = [f k ! 0, f k ! 1, f k ! 2, f k ! 3]" for k unfolding f_def by (rule m)
  have nth: "concat (map f [0, 1, 2, 3]) ! (4 * k + j) = f k ! j" if "k < 4" "j < 4" for k j
  proof -
    have "length (f k) = 4" for k by (simp add: f_def mix_column_def)
    moreover have "k = 0 \<or> k = 1 \<or> k = 2 \<or> k = 3" using that(1) by linarith
    ultimately show ?thesis using that(2) by (auto simp: nth_append)
  qed
  have "inv_mix_columns (mix_columns s) =
      concat (map (\<lambda>k. inv_mix_column (f k ! 0) (f k ! 1) (f k ! 2) (f k ! 3)) [0, 1, 2, 3])"
    unfolding inv_mix_columns_def mix_columns_def e f_def [symmetric]
  proof (rule arg_cong [where f = concat], rule map_cong [OF refl])
    fix k assume "k \<in> set [0, 1, 2, 3 :: nat]"
    then have k: "k < 4" by auto
    show "inv_mix_column (concat (map f [0, 1, 2, 3]) ! (4 * k)) (concat (map f [0, 1, 2, 3]) ! (4 * k + 1))
        (concat (map f [0, 1, 2, 3]) ! (4 * k + 2)) (concat (map f [0, 1, 2, 3]) ! (4 * k + 3)) =
      inv_mix_column (f k ! 0) (f k ! 1) (f k ! 2) (f k ! 3)"
      using nth [OF k, of 0] nth [OF k, of 1] nth [OF k, of 2] nth [OF k, of 3] by simp
  qed
  also have "\<dots> = map ((!) s) [0..<16]"
    unfolding f_def col upt_0_16 by (simp flip: numeral_2_eq_2)
  finally show ?thesis using map_nth [of s] l by simp
qed

lemma add_round_key_twice: "length s = 16 \<Longrightarrow> add_round_key rk r (add_round_key rk r s) = s"
  by (rule nth_equalityI) (simp_all add: add_round_key_def xor.assoc)

lemma map_inv_sbox: "map inv_sbox (map sbox s) = s"
  by (simp add: comp_def inv_sbox_sbox)

section \<open>Decryption undoes encryption\<close>

definition sub_shift :: "bytes \<Rightarrow> bytes" where
  "sub_shift s = shift_rows (map sbox s)"

lemma unsub_unshift: "length s = 16 \<Longrightarrow> map inv_sbox (inv_shift_rows (sub_shift s)) = s"
  by (simp only: sub_shift_def shift_rows_inverse length_map map_inv_sbox)

lemma length_rounds: "length s = 16 \<Longrightarrow> length (fold (enc_round rk) rs s) = 16"
  by (cases rs rule: rev_cases) (simp_all add: enc_round_def)

lemma rounds_inverse:
  "length s = 16 \<Longrightarrow> fold (dec_round rk) (rev rs) (sub_shift (fold (enc_round rk) rs s)) = sub_shift s"
proof (induction rs arbitrary: s rule: rev_induct)
  case (snoc r rs)
  let ?t = "fold (enc_round rk) rs s"
  have l: "length ?t = 16" using snoc.prems by (rule length_rounds)
  have "dec_round rk r (sub_shift (enc_round rk r ?t)) = inv_mix_columns (add_round_key rk r (enc_round rk r ?t))"
    by (simp add: dec_round_def unsub_unshift enc_round_def)
  also have "\<dots> = sub_shift ?t"
    by (simp add: enc_round_def add_round_key_twice mix_columns_inverse sub_shift_def)
  finally show ?case using snoc by simp
qed simp

lemma aes_decrypt_encrypt: "length b = 16 \<Longrightarrow> AesCtDecryptBlock rk (AesCtEncryptBlock rk b) = b"
proof -
  assume l: "length b = 16"
  define s where "s = fold (enc_round rk) [1..<14] (add_round_key rk 0 b)"
  have ls: "length s = 16" unfolding s_def by (rule length_rounds) simp
  have e: "AesCtEncryptBlock rk b = add_round_key rk 14 (sub_shift s)"
    using l by (simp add: AesCtEncryptBlock_def s_def sub_shift_def Let_def)
  have "length (sub_shift s) = 16" by (simp add: sub_shift_def)
  then have "add_round_key rk 14 (take 16 (AesCtEncryptBlock rk b)) = sub_shift s"
    unfolding e by (simp add: add_round_key_twice)
  moreover have "fold (dec_round rk) (rev [1..<14]) (sub_shift s) = sub_shift (add_round_key rk 0 b)"
    unfolding s_def by (rule rounds_inverse) simp
  ultimately have "AesCtDecryptBlock rk (AesCtEncryptBlock rk b) =
      add_round_key rk 0 (map inv_sbox (inv_shift_rows (sub_shift (add_round_key rk 0 b))))"
    unfolding AesCtDecryptBlock_def Let_def by simp
  then show ?thesis using l by (simp add: unsub_unshift add_round_key_twice)
qed

lemma length_AesCt [simp]: "length (AesCtEncryptBlock rk b) = 16" "length (AesCtDecryptBlock rk b) = 16"
  by (simp_all add: AesCtEncryptBlock_def AesCtDecryptBlock_def Let_def)

text \<open>AES-256 under any expanded key is a block cipher in the sense of the interface, in either direction.\<close>

interpretation aes: block_cipher "AesCtEncryptBlock rk" "AesCtDecryptBlock rk" for rk
  by unfold_locales (simp_all add: aes_decrypt_encrypt)

lemma aes_cipher: "block_cipher (AesCtEncryptBlock rk) (AesCtDecryptBlock rk)"
  by (rule aes.block_cipher_axioms)

lemma aes_cipher_rev: "block_cipher (AesCtDecryptBlock rk) (AesCtEncryptBlock rk)"
  by unfold_locales (simp_all add: aes.E_D)

end
