(* ===== verification/ThreadPool.thy ===== *)
theory ThreadPool
  imports CryptoInfo AesCt "HOL-Library.Multiset"
begin

text \<open>
  How \<open>EncryptionThreadPoolDoWork\<close> of \<open>src/src/Common/EncryptionThreadPool.c\<close> splits a buffer of data units into
  fragments for the threads of the pool. The lemmas show that data units are encrypted independently of each other, that the
  fragments partition the buffer, and so that the threads compute what one thread would, in whatever order they
  process the fragments.
\<close>

section \<open>Splitting\<close>

datatype EncryptionThreadPoolWorkType = EncryptDataUnitsWork | DecryptDataUnitsWork | DeriveKeyWork | ReadVolumeHeaderFinalizationWork

text \<open>A fragment: \<open>Encryption.Data\<close> as an offset into the buffer, \<open>StartUnitNo\<close>, \<open>UnitCount\<close>.\<close>

record fragment =
  Data :: nat
  StartUnitNo :: u64
  UnitCount :: nat

text \<open>The number of fragments, the units of the first, and how many fragments get that many.\<close>

definition fragment_sizes :: "nat \<Rightarrow> nat \<Rightarrow> nat \<times> nat \<times> nat" where
  "fragment_sizes ThreadCount unitCount =
     (if unitCount \<le> ThreadCount then (unitCount, 1, 0)
      else let unitsPerFragment = unitCount div ThreadCount; remainder = unitCount mod ThreadCount
           in (ThreadCount, if 0 < remainder then unitsPerFragment + 1 else unitsPerFragment, remainder))"

text \<open>\<open>while (fragmentCount-- > 0)\<close>\<close>

fun fragments :: "nat \<Rightarrow> nat \<Rightarrow> nat \<Rightarrow> nat \<Rightarrow> u64 \<Rightarrow> fragment list" where
  "fragments 0 unitsPerFragment remainder fragmentData fragmentStartUnitNo = []"
| "fragments (Suc fragmentCount) unitsPerFragment remainder fragmentData fragmentStartUnitNo =
     \<lparr>Data = fragmentData, StartUnitNo = fragmentStartUnitNo, UnitCount = unitsPerFragment\<rparr> #
     fragments fragmentCount
       (if 0 < remainder \<and> remainder - 1 = 0 then unitsPerFragment - 1 else unitsPerFragment)
       (if 0 < remainder then remainder - 1 else remainder)
       (fragmentData + unitsPerFragment * ENCRYPTION_DATA_UNIT_SIZE) (fragmentStartUnitNo + of_nat unitsPerFragment)"

definition work_fragments :: "nat \<Rightarrow> u64 \<Rightarrow> nat \<Rightarrow> fragment list" where
  "work_fragments ThreadCount startUnitNo unitCount =
     (let (fragmentCount, unitsPerFragment, remainder) = fragment_sizes ThreadCount unitCount
      in fragments fragmentCount unitsPerFragment remainder 0 startUnitNo)"

text \<open>\<open>EncryptDataUnitsCurrentThreadEx\<close> and \<open>DecryptDataUnitsCurrentThreadEx\<close>, without encryption of keys in memory; the other
  types of work are a fatal exception where data units are expected.\<close>

definition current_thread_units :: "primitives \<Rightarrow> EncryptionThreadPoolWorkType \<Rightarrow> bytes \<Rightarrow> u64 \<Rightarrow> nat \<Rightarrow> CRYPTO_INFO \<Rightarrow> bytes option" where
  "current_thread_units P type buf startUnitNo unitCount ci =
     (case type of EncryptDataUnitsWork \<Rightarrow> EncryptDataUnitsCurrentThread P buf startUnitNo unitCount ci
                 | DecryptDataUnitsWork \<Rightarrow> DecryptDataUnitsCurrentThread P buf startUnitNo unitCount ci
                 | _ \<Rightarrow> None)"

text \<open>What a thread does with a fragment of the shared buffer.\<close>

definition process_fragment :: "primitives \<Rightarrow> EncryptionThreadPoolWorkType \<Rightarrow> CRYPTO_INFO \<Rightarrow> fragment \<Rightarrow> bytes \<Rightarrow> bytes option" where
  "process_fragment P type ci w buf =
     map_option (\<lambda>b. store_at (Data w) b buf)
       (current_thread_units P type (drop (Data w) buf) (StartUnitNo w) (UnitCount w) ci)"

section \<open>Data units are independent\<close>

lemma mod_512_16: "n mod 512 = 0 \<Longrightarrow> n mod 16 = (0 :: nat)"
  using mod_mod_cancel [of 16 512 n] by simp

lemma div_32_shift: "(32 * m + k) div 32 = m + k div 32" "(32 * m + k) mod 32 = k mod (32 :: nat)"
  by simp_all

lemma xts_standard_append:
  assumes "length a = 512 * m"
  shows "xts_standard E T unit 0 (a @ b) = xts_standard E T unit 0 a @ xts_standard E T (unit + of_nat m) 0 b"
proof -
  let ?f = "\<lambda>unit buf k. xts_block E (xts_tweak T (unit + of_nat (k div 32)) (k mod 32)) (slice (16 * k) 16 buf)"
  have la: "length a div 16 = 32 * m" "length (a @ b) div 16 = 32 * m + length b div 16"
    using assms by auto
  have "map (?f unit (a @ b)) [0..<32 * m] = map (?f unit a) [0..<32 * m]"
    using assms by (intro map_cong refl) (auto simp: slice_append_left)
  moreover have "map (?f unit (a @ b)) [32 * m..<32 * m + length b div 16] = map (?f (unit + of_nat m) b) [0..<length b div 16]"
  proof -
    have "[32 * m..<32 * m + length b div 16] = map (\<lambda>k. 32 * m + k) [0..<length b div 16]"
      by (rule nth_equalityI) simp_all
    then show ?thesis
      by (auto simp: assms div_32_shift slice_append_right add.assoc distrib_left)
  qed
  ultimately show ?thesis
    unfolding xts_standard_def la
    by (simp only: upt_add_eq_append [OF le0] map_append concat_append add_0)
qed

lemma cascade_append:
  assumes "primitives_ok P" "set cs \<subseteq> known_ciphers" "32 * length cs \<le> length key" "32 * length cs \<le> length key2"
    "length a = 512 * m" "length b mod 16 = 0"
  shows "cascade_spec P cs key key2 unit (a @ b) = cascade_spec P cs key key2 unit a @ cascade_spec P cs key key2 (unit + of_nat m) b"
  using assms(2-)
proof (induction cs arbitrary: key key2 a b)
  case (Cons c cs)
  let ?E = "cipher_enc P c (take 32 key)" and ?T = "cipher_enc P c (take 32 key2)"
  have c: "c \<in> known_ciphers" and lk: "length (take 32 key) = 32" using Cons.prems by auto
  note E = block_cipher_size(1) [OF cipher_block_cipher [OF assms(1) c lk]]
  have s: "xts_spec ?E ?T u 0 x = xts_standard ?E ?T u 0 x" for u x by (rule xts_spec_standard) (simp add: xts_aligned_def)
  have la: "length (xts_spec ?E ?T unit 0 a) = 512 * m"
    using length_xts_spec [OF E, of a] Cons.prems(4) by simp
  have lb: "length (xts_spec ?E ?T (unit + of_nat m) 0 b) mod 16 = 0"
    using length_xts_spec [OF E, of b] Cons.prems(5) by simp
  have p: "set cs \<subseteq> known_ciphers" "32 * length cs \<le> length (drop 32 key)" "32 * length cs \<le> length (drop 32 key2)"
    using Cons.prems by auto
  show ?case
    using Cons.IH [OF p la lb] by (simp add: s xts_standard_append [OF Cons.prems(4)])
qed simp

text \<open>Decryption as a function: the inverse order of the ciphers.\<close>

fun decascade_spec :: "primitives \<Rightarrow> int list \<Rightarrow> bytes \<Rightarrow> bytes \<Rightarrow> u64 \<Rightarrow> bytes \<Rightarrow> bytes" where
  "decascade_spec P [] key key2 unit buf = buf"
| "decascade_spec P (c # cs) key key2 unit buf =
     xts_spec (cipher_dec P c (take 32 key)) (cipher_enc P c (take 32 key2)) unit 0
       (decascade_spec P cs (drop 32 key) (drop 32 key2) unit buf)"

lemma length_decascade:
  assumes "primitives_ok P" "set cs \<subseteq> known_ciphers" "32 * length cs \<le> length key" "length buf mod 16 = 0"
  shows "length (decascade_spec P cs key key2 unit buf) = length buf"
  using assms(2-)
proof (induction cs arbitrary: key key2)
  case (Cons c cs)
  have c: "c \<in> known_ciphers" and lk: "length (take 32 key) = 32" using Cons.prems by auto
  note D = block_cipher_size(2) [OF cipher_block_cipher [OF assms(1) c lk]]
  have l: "length (decascade_spec P cs (drop 32 key) (drop 32 key2) unit buf) = length buf"
    using Cons.prems by (intro Cons.IH) auto
  then show ?case using length_xts_spec [OF D] Cons.prems(3) by simp
qed simp

lemma decrypt_fold:
  assumes "primitives_ok P" "set cs \<subseteq> known_ciphers" "32 * length cs \<le> length key" "32 * length cs \<le> length key2"
    "scheduled P cs key off k" "scheduled P cs key2 off k'" "length buf mod 16 = 0"
  shows "fold (decrypt_step P k k' unit) (rev cs) (Some buf, off + schedules_size cs) = (Some (decascade_spec P cs key key2 unit buf), off)"
  using assms(2-)
proof (induction cs arbitrary: key key2 off)
  case (Cons c cs)
  let ?n = "CipherGetKeyScheduleSize c" and ?D = "cipher_dec P c (take 32 key)" and ?T = "cipher_enc P c (take 32 key2)"
  have c: "c \<in> known_ciphers" and lk: "length (take 32 key) = 32" "length (take 32 key2) = 32" using Cons.prems by auto
  note sz = block_cipher_size(2) [OF cipher_block_cipher [OF assms(1) c lk(1)]] block_cipher_size(1) [OF cipher_block_cipher [OF assms(1) c lk(2)]]
  have k: "DecipherBlock P c (drop off k) b = Some (?D b)" "EncipherBlock P c (drop off k') b = Some (?T b)" for b
    using Cons.prems by (auto intro!: block_operation_schedule c)
  have p: "set cs \<subseteq> known_ciphers" "32 * length cs \<le> length (drop 32 key)" "32 * length cs \<le> length (drop 32 key2)"
    "scheduled P cs (drop 32 key) (off + ?n) k" "scheduled P cs (drop 32 key2) (off + ?n) k'"
    using Cons.prems by auto
  have m: "length (decascade_spec P cs (drop 32 key) (drop 32 key2) unit buf) mod 16 = 0"
    using length_decascade [OF assms(1) p(1,2) Cons.prems(6)] Cons.prems(6) by simp
  show ?case using Cons.IH [OF p Cons.prems(6)]
    by (simp add: decrypt_step_def DecryptBufferXTS_cipher_def k Decrypt_is_Encrypt EncryptBufferXTS_spec [OF sz _ m] add.assoc)
qed simp

lemma decascade_append:
  assumes "primitives_ok P" "set cs \<subseteq> known_ciphers" "32 * length cs \<le> length key" "32 * length cs \<le> length key2"
    "length a = 512 * m" "length b mod 16 = 0"
  shows "decascade_spec P cs key key2 unit (a @ b) = decascade_spec P cs key key2 unit a @ decascade_spec P cs key key2 (unit + of_nat m) b"
  using assms(2-)
proof (induction cs arbitrary: key key2)
  case (Cons c cs)
  let ?D = "cipher_dec P c (take 32 key)" and ?T = "cipher_enc P c (take 32 key2)"
  have s: "xts_spec ?D ?T u 0 x = xts_standard ?D ?T u 0 x" for u x by (rule xts_spec_standard) (simp add: xts_aligned_def)
  have p: "set cs \<subseteq> known_ciphers" "32 * length cs \<le> length (drop 32 key)" "32 * length cs \<le> length (drop 32 key2)"
    using Cons.prems by auto
  have la: "length (decascade_spec P cs (drop 32 key) (drop 32 key2) unit a) = 512 * m"
    using length_decascade [OF assms(1) p(1,2), of a] Cons.prems(4) by simp
  show ?case
    using Cons.IH [OF p Cons.prems(4,5)] by (simp add: s xts_standard_append [OF la])
qed simp

section \<open>Transformations that go unit by unit\<close>

text \<open>Consecutive fragments from an offset and a unit number on.\<close>

fun tiles :: "nat \<Rightarrow> u64 \<Rightarrow> fragment list \<Rightarrow> bool" where
  "tiles off u [] = True"
| "tiles off u (w # ws) = (Data w = off \<and> StartUnitNo w = u \<and> tiles (off + 512 * UnitCount w) (u + of_nat (UnitCount w)) ws)"

definition bytes_of :: "fragment \<Rightarrow> bytes \<Rightarrow> bytes" where
  "bytes_of w buf = slice (Data w) (512 * UnitCount w) buf"

text \<open>Fragments that do not overlap, all of them inside the buffer.\<close>

definition apart :: "fragment \<Rightarrow> fragment \<Rightarrow> bool" where
  "apart v w \<longleftrightarrow> Data v + 512 * UnitCount v \<le> Data w \<or> Data w + 512 * UnitCount w \<le> Data v"

text \<open>The contract between the pool and the encryption it distributes.\<close>

locale unitwise =
  fixes F :: "u64 \<Rightarrow> bytes \<Rightarrow> bytes"
  assumes length_F: "length b mod 512 = 0 \<Longrightarrow> length (F u b) = length b"
    and F_append: "length a = 512 * m \<Longrightarrow> length b mod 512 = 0 \<Longrightarrow> F u (a @ b) = F u a @ F (u + of_nat m) b"
begin

definition transform :: "fragment \<Rightarrow> bytes \<Rightarrow> bytes" where
  "transform w buf = store_at (Data w) (F (StartUnitNo w) (bytes_of w buf)) buf"

lemma F_Nil: "F u [] = []"
  using length_F [of "[]" u] by simp

lemma tiles_F:
  "tiles off u ws \<Longrightarrow> length buf = off + 512 * sum_list (map UnitCount ws) \<Longrightarrow>
   F u (drop off buf) = concat (map (\<lambda>w. F (StartUnitNo w) (bytes_of w buf)) ws)"
proof (induction ws arbitrary: off u)
  case (Cons w ws)
  let ?n = "512 * UnitCount w"
  have l: "length buf = off + ?n + 512 * sum_list (map UnitCount ws)" using Cons.prems(2) by (simp add: algebra_simps)
  have d: "drop off buf = bytes_of w buf @ drop (off + ?n) buf"
    using Cons.prems(1) append_take_drop_id [of ?n "drop off buf"] by (simp add: bytes_of_def slice_def add.commute)
  have b: "length (bytes_of w buf) = ?n" using Cons.prems(1) l by (simp add: bytes_of_def)
  have m: "length (drop (off + ?n) buf) mod 512 = 0" using l by simp
  have "F u (drop off buf) = F u (bytes_of w buf) @ F (u + of_nat (UnitCount w)) (drop (off + ?n) buf)"
    unfolding d by (rule F_append [OF b m])
  then show ?case using Cons.IH [of "off + ?n"] Cons.prems(1) l by simp
qed (simp add: F_Nil)

lemma tiles_bounds:
  "tiles off u ws \<Longrightarrow> w \<in> set ws \<Longrightarrow> off \<le> Data w \<and> Data w + 512 * UnitCount w \<le> off + 512 * sum_list (map UnitCount ws)"
proof (induction ws arbitrary: off u)
  case (Cons v ws)
  show ?case
  proof (cases "w = v")
    case False
    then show ?thesis using Cons.IH [of "off + 512 * UnitCount v" "u + of_nat (UnitCount v)"] Cons.prems by (auto simp: algebra_simps)
  qed (use Cons.prems in auto)
qed simp

lemma tiles_apart: "tiles off u ws \<Longrightarrow> i < length ws \<Longrightarrow> j < length ws \<Longrightarrow> i \<noteq> j \<Longrightarrow> apart (ws ! i) (ws ! j)"
proof (induction ws arbitrary: off u i j)
  case (Cons v ws)
  have v: "apart v w \<and> apart w v" if "w \<in> set ws" for w
    using tiles_bounds [of "off + 512 * UnitCount v" "u + of_nat (UnitCount v)" ws w] Cons.prems(1) that by (auto simp: apart_def)
  show ?case
    using Cons.IH [of "off + 512 * UnitCount v" "u + of_nat (UnitCount v)" "i - 1" "j - 1"] Cons.prems v by (cases i; cases j) auto
qed simp

lemma transform_facts:
  assumes "Data w + 512 * UnitCount w \<le> length buf"
  shows "length (transform w buf) = length buf" "bytes_of w (transform w buf) = F (StartUnitNo w) (bytes_of w buf)"
    "apart v w \<Longrightarrow> Data v + 512 * UnitCount v \<le> length buf \<Longrightarrow> bytes_of v (transform w buf) = bytes_of v buf"
proof -
  have l: "length (F (StartUnitNo w) (bytes_of w buf)) = 512 * UnitCount w"
    using length_F [of "bytes_of w buf"] assms by (simp add: bytes_of_def)
  show "length (transform w buf) = length buf" using assms l by (simp add: transform_def length_store_at)
  show "bytes_of w (transform w buf) = F (StartUnitNo w) (bytes_of w buf)"
    using assms l by (simp add: transform_def bytes_of_def slice_store_same)
  show "bytes_of v (transform w buf) = bytes_of v buf" if "apart v w" "Data v + 512 * UnitCount v \<le> length buf"
    using that assms l by (auto simp: transform_def bytes_of_def apart_def slice_store_before slice_store_after)
qed

lemma fold_transform:
  assumes "\<And>v w. v \<in> U \<Longrightarrow> w \<in> U \<Longrightarrow> v \<noteq> w \<Longrightarrow> apart v w" "\<And>w. w \<in> U \<Longrightarrow> Data w + 512 * UnitCount w \<le> length buf"
    "distinct ws" "set ws \<subseteq> U"
  shows "length (fold transform ws buf) = length buf \<and>
    (\<forall>w\<in>U. bytes_of w (fold transform ws buf) = (if w \<in> set ws then F (StartUnitNo w) (bytes_of w buf) else bytes_of w buf))"
  using assms(2-)
proof (induction ws arbitrary: buf)
  case (Cons v ws)
  have v: "v \<in> U" and lv: "Data v + 512 * UnitCount v \<le> length buf" using Cons.prems by auto
  note t = transform_facts [OF lv]
  have ih: "length (fold transform ws (transform v buf)) = length (transform v buf) \<and>
    (\<forall>w\<in>U. bytes_of w (fold transform ws (transform v buf)) =
      (if w \<in> set ws then F (StartUnitNo w) (bytes_of w (transform v buf)) else bytes_of w (transform v buf)))"
    using Cons.prems t(1) by (intro Cons.IH) auto
  have o: "bytes_of w (transform v buf) = bytes_of w buf" if "w \<in> U" "w \<noteq> v" for w
    using that v assms(1) Cons.prems(1) by (intro t(3)) auto
  have o': "w \<noteq> v" if "w \<in> set ws" for w using that Cons.prems(2) by auto
  show ?case
  proof (intro conjI ballI)
    show "length (fold transform (v # ws) buf) = length buf" using ih t(1) by simp
    fix w assume w: "w \<in> U"
    show "bytes_of w (fold transform (v # ws) buf) = (if w \<in> set (v # ws) then F (StartUnitNo w) (bytes_of w buf) else bytes_of w buf)"
      using ih w t(2) o [OF w] o' Cons.prems(2) by (cases "w = v") auto
  qed
qed simp

lemma tiles_concat:
  "tiles off u ws \<Longrightarrow> length buf = off + 512 * sum_list (map UnitCount ws) \<Longrightarrow> drop off buf = concat (map (\<lambda>w. bytes_of w buf) ws)"
proof (induction ws arbitrary: off u)
  case (Cons w ws)
  have "drop off buf = bytes_of w buf @ drop (off + 512 * UnitCount w) buf"
    using Cons.prems(1) append_take_drop_id [of "512 * UnitCount w" "drop off buf"] by (simp add: bytes_of_def slice_def add.commute)
  then show ?case using Cons.IH [of "off + 512 * UnitCount w" "u + of_nat (UnitCount w)"] Cons.prems by (simp add: algebra_simps)
qed simp

lemma any_order:
  assumes "tiles 0 u ws" "length buf = 512 * sum_list (map UnitCount ws)" "\<forall>w\<in>set ws. 0 < UnitCount w" "mset ws' = mset ws"
  shows "fold transform ws' buf = F u buf"
proof -
  let ?r = "fold transform ws' buf"
  have ap: "i < length ws \<Longrightarrow> j < length ws \<Longrightarrow> i \<noteq> j \<Longrightarrow> apart (ws ! i) (ws ! j)" for i j by (rule tiles_apart [OF assms(1)])
  have "ws ! i \<noteq> ws ! j" if "i < length ws" "j < length ws" "i \<noteq> j" for i j
  proof -
    have "0 < UnitCount (ws ! j)" using assms(3) nth_mem [OF that(2)] by blast
    then show ?thesis using ap [OF that] by (auto simp: apart_def)
  qed
  then have d: "distinct ws" by (simp add: distinct_conv_nth)
  have ap': "apart v w" if "v \<in> set ws" "w \<in> set ws" "v \<noteq> w" for v w
    using that ap by (metis in_set_conv_nth)
  have b: "Data w + 512 * UnitCount w \<le> length buf" if "w \<in> set ws" for w
    using tiles_bounds [OF assms(1) that] assms(2) by simp
  have ws': "distinct ws'" "set ws' = set ws" using assms(4) d by (metis mset_eq_imp_distinct_iff, metis mset_eq_setD)
  note f = fold_transform [of "set ws", OF ap' b ws'(1) equalityD1 [OF ws'(2)]]
  have "?r = concat (map (\<lambda>w. bytes_of w ?r) ws)"
    using tiles_concat [OF assms(1), of ?r] f assms(2) by simp
  also have "\<dots> = concat (map (\<lambda>w. F (StartUnitNo w) (bytes_of w buf)) ws)"
    using f ws'(2) by (intro arg_cong [of _ _ concat] map_cong refl) simp
  also have "\<dots> = F u buf" using tiles_F [OF assms(1), of buf] assms(2) by simp
  finally show ?thesis .
qed

end

text \<open>XTS mode with any block cipher is such a transformation.\<close>

lemma unitwise_xts:
  assumes "block_size E"
  shows "unitwise (\<lambda>u. xts_spec E T u 0)"
proof (rule unitwise.intro)
  have s: "xts_spec E T u 0 x = xts_standard E T u 0 x" for u x by (rule xts_spec_standard) (simp add: xts_aligned_def)
  show "length (xts_spec E T u 0 b) = length b" if "length b mod 512 = 0" for u b
    by (rule length_xts_spec [OF assms mod_512_16 [OF that]])
  show "xts_spec E T u 0 (a @ b) = xts_spec E T u 0 a @ xts_spec E T (u + of_nat m) 0 b" if "length a = 512 * m" for a b m u
    unfolding s by (rule xts_standard_append [OF that])
qed

interpretation xts_aes: unitwise "\<lambda>u. xts_spec (AesCtEncryptBlock rk) T u 0" for rk T
  by (rule unitwise_xts [OF block_cipher_size(1) [OF aes_cipher]])

lemma unitwise_cascade:
  assumes "primitives_ok P" "set cs \<subseteq> known_ciphers" "32 * length cs \<le> length key" "32 * length cs \<le> length key2"
  shows "unitwise (cascade_spec P cs key key2)" "unitwise (decascade_spec P cs key key2)"
proof -
  have l: "length (cascade_spec P cs key key2 u b) = length b" if "length b mod 16 = 0" for u b
    using assms(2-4) that
  proof (induction cs arbitrary: key key2 b)
    case (Cons c cs)
    have c: "c \<in> known_ciphers" and lk: "length (take 32 key) = 32" using Cons.prems by auto
    note E = block_cipher_size(1) [OF cipher_block_cipher [OF assms(1) c lk]]
    show ?case using Cons.IH [of "drop 32 key" "drop 32 key2"] Cons.prems by (simp add: length_xts_spec [OF E])
  qed simp
  show "unitwise (cascade_spec P cs key key2)"
    by (intro unitwise.intro l cascade_append [OF assms] mod_512_16)
  show "unitwise (decascade_spec P cs key key2)"
    by (intro unitwise.intro length_decascade [OF assms(1-3)] decascade_append [OF assms] mod_512_16)
qed

section \<open>The fragments of the pool\<close>

lemma fragments_tiles: "tiles off u (fragments n q r off u)"
  by (induction n q r off u rule: fragments.induct) (simp_all add: ENCRYPTION_DATA_UNIT_SIZE_def mult.commute)

lemma fragments_count:
  "(0 < r \<Longrightarrow> r \<le> n \<and> 1 < q) \<Longrightarrow> 0 < q \<Longrightarrow>
   sum_list (map UnitCount (fragments n q r off u)) + (if r = 0 then 0 else n - r) = n * q \<and>
   (\<forall>w\<in>set (fragments n q r off u). 0 < UnitCount w)"
proof (induction n q r off u rule: fragments.induct)
  case (2 n q r off u)
  let ?q = "if 0 < r \<and> r - 1 = 0 then q - 1 else q" and ?r = "if 0 < r then r - 1 else r"
  have "sum_list (map UnitCount (fragments n ?q ?r (off + q * ENCRYPTION_DATA_UNIT_SIZE) (u + of_nat q))) + (if ?r = 0 then 0 else n - ?r) = n * ?q \<and>
   (\<forall>w\<in>set (fragments n ?q ?r (off + q * ENCRYPTION_DATA_UNIT_SIZE) (u + of_nat q)). 0 < UnitCount w)"
    by (rule "2.IH") (use 2 in \<open>auto split: if_splits\<close>)
  moreover have "n * (q - 1) + n = n * q" using 2 by (cases q) auto
  ultimately show ?case using 2 by (auto split: if_splits)
qed simp

lemma work_fragments_tile:
  assumes "0 < ThreadCount"
  shows "tiles 0 u (work_fragments ThreadCount u n)" "sum_list (map UnitCount (work_fragments ThreadCount u n)) = n"
    "\<forall>w\<in>set (work_fragments ThreadCount u n). 0 < UnitCount w" "length (work_fragments ThreadCount u n) \<le> ThreadCount"
proof -
  have l: "length (fragments m q r off u) = m" for m q r off u
    by (induction m q r off u rule: fragments.induct) simp_all
  show "tiles 0 u (work_fragments ThreadCount u n)"
    by (simp add: work_fragments_def Let_def split_def fragments_tiles)
  show "length (work_fragments ThreadCount u n) \<le> ThreadCount"
    by (auto simp: work_fragments_def fragment_sizes_def l Let_def)
  have "sum_list (map UnitCount (work_fragments ThreadCount u n)) = n \<and> (\<forall>w\<in>set (work_fragments ThreadCount u n). 0 < UnitCount w)"
  proof (cases "n \<le> ThreadCount")
    case True
    then show ?thesis using fragments_count [of 0 n 1 0 u] by (simp add: work_fragments_def fragment_sizes_def)
  next
    case False
    define q r where "q = n div ThreadCount" and "r = n mod ThreadCount"
    have n: "n = ThreadCount * q + r" "r < ThreadCount" "0 < q" using assms False by (auto simp: q_def r_def div_greater_zero_iff)
    have e: "work_fragments ThreadCount u n = fragments ThreadCount (if 0 < r then q + 1 else q) r 0 u"
      using False by (simp add: work_fragments_def fragment_sizes_def q_def r_def)
    show ?thesis
    proof (cases "r = 0")
      case True
      then show ?thesis using fragments_count [of 0 ThreadCount q 0 u] n e by simp
    next
      case False
      then have "sum_list (map UnitCount (fragments ThreadCount (q + 1) r 0 u)) + (ThreadCount - r) = ThreadCount * q + ThreadCount \<and>
          (\<forall>w\<in>set (fragments ThreadCount (q + 1) r 0 u). 0 < UnitCount w)"
        using fragments_count [of r ThreadCount "q + 1" 0 u] n by simp
      moreover have "work_fragments ThreadCount u n = fragments ThreadCount (q + 1) r 0 u" using e False by simp
      moreover have "a + (ThreadCount - r) = ThreadCount * q + ThreadCount \<Longrightarrow> a = n" for a using n(1,2) by linarith
      ultimately show ?thesis by metis
    qed
  qed
  then show "sum_list (map UnitCount (work_fragments ThreadCount u n)) = n"
    "\<forall>w\<in>set (work_fragments ThreadCount u n). 0 < UnitCount w" by auto
qed

end
