(* ===== verification/VolumesCorrect.thy ===== *)
theory VolumesCorrect
  imports Volumes ThreadPool
begin

text \<open>
  Proofs about \<open>Volumes.thy\<close>: the layout of a created header, what the search over algorithms computes, and the round trip
  from \<open>CreateVolumeHeaderInMemory\<close> to \<open>ReadVolumeHeader\<close> and on to the volume's data.
\<close>

section \<open>The layout of a created header\<close>

definition header_fields :: "bytes \<Rightarrow> create_args \<Rightarrow> bytes" where
  "header_fields keydata a =
     be_bytes 4 TC_HEADER_MAGIC_NUMBER @ be_bytes 2 VOLUME_HEADER_VERSION @
     be_bytes 2 (if c_requiredProgramVersion a \<noteq> 0 then c_requiredProgramVersion a else TC_VOLUME_MIN_REQUIRED_PROGRAM_VERSION) @
     be_bytes 4 (GetCrc32 keydata) @ zeros 16 @ be_bytes 8 (c_hiddenVolumeSize a) @ be_bytes 8 (c_volumeSize a) @
     be_bytes 8 (c_encryptedAreaStart a) @ be_bytes 8 (c_encryptedAreaLength a) @ be_bytes 4 (c_headerFlags a) @
     be_bytes 4 (c_sectorSize a) @ zeros 120"

lemma length_header_fields [simp]: "length (header_fields keydata a) = 188"
  by (simp add: header_fields_def)

lemma mput_zeros:
  "length bs \<le> n \<Longrightarrow> mput bs (xs @ zeros n, length xs) = ((xs @ bs) @ zeros (n - length bs), length (xs @ bs))"
  by (simp add: mput_def store_at_def zeros_def)

lemma skip_zeros: "m \<le> n \<Longrightarrow> (xs @ zeros n, length xs + m) = ((xs @ zeros m) @ zeros (n - m), length (xs @ zeros m))"
  by (simp add: zeros_def flip: replicate_add)

lemma plain_header_layout:
  assumes "length salt = 64" "length keydata = 256"
  shows "plain_header salt keydata a = salt @ header_fields keydata a @ be_bytes 4 (GetCrc32 (header_fields keydata a)) @ keydata"
proof -
  define req where "req = (if c_requiredProgramVersion a \<noteq> 0 then c_requiredProgramVersion a else TC_VOLUME_MIN_REQUIRED_PROGRAM_VERSION)"
  let ?p1 = "salt @ be_bytes 4 TC_HEADER_MAGIC_NUMBER @ be_bytes 2 VOLUME_HEADER_VERSION @ be_bytes 2 req @ be_bytes 4 (GetCrc32 keydata)"
  let ?p2 = "be_bytes 8 (c_hiddenVolumeSize a) @ be_bytes 8 (c_volumeSize a) @
     be_bytes 8 (c_encryptedAreaStart a) @ be_bytes 8 (c_encryptedAreaLength a) @ be_bytes 4 (c_headerFlags a) @
     be_bytes 4 (c_sectorSize a)"
  have m1: "mput (be_bytes 4 (GetCrc32 keydata)) (mput (be_bytes 2 req) (mput (be_bytes 2 VOLUME_HEADER_VERSION)
      (mput (be_bytes 4 TC_HEADER_MAGIC_NUMBER) (mput salt (zeros 512, 0))))) = (?p1 @ zeros 436, 76)"
    using mput_zeros [of salt 512 "[]"] mput_zeros [of "be_bytes 4 TC_HEADER_MAGIC_NUMBER" 448 salt]
      mput_zeros [of "be_bytes 2 VOLUME_HEADER_VERSION" 444 "salt @ be_bytes 4 TC_HEADER_MAGIC_NUMBER"]
      mput_zeros [of "be_bytes 2 req" 442 "salt @ be_bytes 4 TC_HEADER_MAGIC_NUMBER @ be_bytes 2 VOLUME_HEADER_VERSION"]
      mput_zeros [of "be_bytes 4 (GetCrc32 keydata)" 440 "salt @ be_bytes 4 TC_HEADER_MAGIC_NUMBER @ be_bytes 2 VOLUME_HEADER_VERSION @ be_bytes 2 req"]
      assms(1) by simp
  have m2: "mput (be_bytes 4 (c_sectorSize a)) (mput (be_bytes 4 (c_headerFlags a)) (mput (be_bytes 8 (c_encryptedAreaLength a))
      (mput (be_bytes 8 (c_encryptedAreaStart a)) (mput (be_bytes 8 (c_volumeSize a)) (mput (be_bytes 8 (c_hiddenVolumeSize a))
      (?p1 @ zeros 436, 76 + 2 * 8)))))) = (?p1 @ zeros 16 @ ?p2 @ zeros 380, 132)"
  proof -
    define q where "q = ?p1 @ zeros 16"
    have q: "length q = 92" "(?p1 @ zeros 436, 76 + 2 * 8) = (q @ zeros 420, length q)"
      using skip_zeros [of 16 436 ?p1] assms(1) by (simp_all add: q_def)
    show ?thesis
      unfolding q(2)
      using mput_zeros [of "be_bytes 8 (c_hiddenVolumeSize a)" 420 q]
        mput_zeros [of "be_bytes 8 (c_volumeSize a)" 412 "q @ be_bytes 8 (c_hiddenVolumeSize a)"]
        mput_zeros [of "be_bytes 8 (c_encryptedAreaStart a)" 404 "q @ be_bytes 8 (c_hiddenVolumeSize a) @ be_bytes 8 (c_volumeSize a)"]
        mput_zeros [of "be_bytes 8 (c_encryptedAreaLength a)" 396
          "q @ be_bytes 8 (c_hiddenVolumeSize a) @ be_bytes 8 (c_volumeSize a) @ be_bytes 8 (c_encryptedAreaStart a)"]
        mput_zeros [of "be_bytes 4 (c_headerFlags a)" 388 "q @ be_bytes 8 (c_hiddenVolumeSize a) @ be_bytes 8 (c_volumeSize a) @
          be_bytes 8 (c_encryptedAreaStart a) @ be_bytes 8 (c_encryptedAreaLength a)"]
        mput_zeros [of "be_bytes 4 (c_sectorSize a)" 384 "q @ be_bytes 8 (c_hiddenVolumeSize a) @ be_bytes 8 (c_volumeSize a) @
          be_bytes 8 (c_encryptedAreaStart a) @ be_bytes 8 (c_encryptedAreaLength a) @ be_bytes 4 (c_headerFlags a)"] q(1)
      by (simp add: q_def)
  qed
  have h: "?p1 @ zeros 16 @ ?p2 @ zeros 380 = salt @ header_fields keydata a @ zeros 260"
    using zeros_add [of 120 260] by (simp add: header_fields_def req_def)
  have s: "slice 64 188 (salt @ header_fields keydata a @ zeros 260) = header_fields keydata a"
    using assms(1) by (simp add: slice_def)
  have z: "zeros 260 = zeros 4 @ zeros 256" using zeros_add [of 4 256] by simp
  show ?thesis
    unfolding plain_header_def Let_def req_def [symmetric] HEADER_EFFECTIVE_SIZE_def m1 prod.case m2 fst_conv h
      TC_HEADER_OFFSET_MAGIC_def TC_HEADER_OFFSET_HEADER_CRC_def HEADER_MASTER_KEYDATA_OFFSET_def
    using assms s by (simp add: z store_at_def)
qed

text \<open>What the reading side finds in it.\<close>

abbreviation required_version :: "create_args \<Rightarrow> u16" where
  "required_version a \<equiv> (if c_requiredProgramVersion a \<noteq> 0 then c_requiredProgramVersion a else TC_VOLUME_MIN_REQUIRED_PROGRAM_VERSION)"

lemma header_field_at:
  assumes "h = pre @ be_bytes n (w :: 'a::len word) @ post" "length pre = off" "LENGTH('a) = 8 * n"
  shows "be_word (slice off n h) = w"
  using assms by (simp add: slice_def be_word_be_bytes)

lemma created_header_fields:
  fixes salt keydata :: bytes and a :: create_args
  assumes "length salt = 64" "length keydata = 256"
  defines "h \<equiv> plain_header salt keydata a"
  shows "length h = 512" "GetHeaderField32 h 64 = TC_HEADER_MAGIC_NUMBER" "GetHeaderField16 h 68 = VOLUME_HEADER_VERSION"
    "GetHeaderField16 h 70 = required_version a" "GetHeaderField32 h 72 = GetCrc32 keydata"
    "GetHeaderField64 h 92 = c_hiddenVolumeSize a" "GetHeaderField64 h 100 = c_volumeSize a"
    "GetHeaderField64 h 108 = c_encryptedAreaStart a" "GetHeaderField64 h 116 = c_encryptedAreaLength a"
    "GetHeaderField32 h 124 = c_headerFlags a" "GetHeaderField32 h 128 = c_sectorSize a"
    "GetHeaderField32 h 252 = GetCrc32 (slice 64 188 h)" "slice 256 256 h = keydata" "take 64 h = salt"
proof -
  have h: "h = salt @ header_fields keydata a @ be_bytes 4 (GetCrc32 (header_fields keydata a)) @ keydata"
    using plain_header_layout [OF assms(1,2)] by (simp add: h_def)
  show "length h = 512" using assms(1,2) by (simp add: h)
  show "take 64 h = salt" "slice 256 256 h = keydata" using assms(1,2) by (simp_all add: h slice_def)
  have f: "slice 64 188 h = header_fields keydata a" using assms(1,2) by (simp add: h slice_def)
  show "GetHeaderField32 h 252 = GetCrc32 (slice 64 188 h)"
    unfolding GetHeaderField32_def f by (rule header_field_at [of _ "salt @ header_fields keydata a" _ _ keydata]) (simp_all add: h assms(1))
  note r = GetHeaderField16_def GetHeaderField32_def GetHeaderField64_def
  let ?c1 = "be_bytes 4 TC_HEADER_MAGIC_NUMBER" and ?c2 = "be_bytes 2 VOLUME_HEADER_VERSION" and ?c3 = "be_bytes 2 (required_version a)"
    and ?c4 = "be_bytes 4 (GetCrc32 keydata) @ zeros 16"
    and ?c5 = "be_bytes 8 (c_hiddenVolumeSize a)" and ?c6 = "be_bytes 8 (c_volumeSize a)" and ?c7 = "be_bytes 8 (c_encryptedAreaStart a)"
    and ?c8 = "be_bytes 8 (c_encryptedAreaLength a)" and ?c9 = "be_bytes 4 (c_headerFlags a)"
  show "GetHeaderField32 h 64 = TC_HEADER_MAGIC_NUMBER"
    unfolding r by (rule header_field_at [of _ salt]) (unfold h header_fields_def append_assoc, rule refl, simp_all add: assms(1))
  show "GetHeaderField16 h 68 = VOLUME_HEADER_VERSION"
    unfolding r by (rule header_field_at [of _ "salt @ ?c1"]) (unfold h header_fields_def append_assoc, rule refl, simp_all add: assms(1))
  show "GetHeaderField16 h 70 = required_version a"
    unfolding r by (rule header_field_at [of _ "salt @ ?c1 @ ?c2"]) (unfold h header_fields_def append_assoc, rule refl, simp_all add: assms(1))
  show "GetHeaderField32 h 72 = GetCrc32 keydata"
    unfolding r by (rule header_field_at [of _ "salt @ ?c1 @ ?c2 @ ?c3"]) (unfold h header_fields_def append_assoc, rule refl, simp_all add: assms(1))
  show "GetHeaderField64 h 92 = c_hiddenVolumeSize a"
    unfolding r by (rule header_field_at [of _ "salt @ ?c1 @ ?c2 @ ?c3 @ ?c4"]) (unfold h header_fields_def append_assoc, rule refl, simp_all add: assms(1))
  show "GetHeaderField64 h 100 = c_volumeSize a"
    unfolding r by (rule header_field_at [of _ "salt @ ?c1 @ ?c2 @ ?c3 @ ?c4 @ ?c5"]) (unfold h header_fields_def append_assoc, rule refl, simp_all add: assms(1))
  show "GetHeaderField64 h 108 = c_encryptedAreaStart a"
    unfolding r by (rule header_field_at [of _ "salt @ ?c1 @ ?c2 @ ?c3 @ ?c4 @ ?c5 @ ?c6"]) (unfold h header_fields_def append_assoc, rule refl, simp_all add: assms(1))
  show "GetHeaderField64 h 116 = c_encryptedAreaLength a"
    unfolding r by (rule header_field_at [of _ "salt @ ?c1 @ ?c2 @ ?c3 @ ?c4 @ ?c5 @ ?c6 @ ?c7"]) (unfold h header_fields_def append_assoc, rule refl, simp_all add: assms(1))
  show "GetHeaderField32 h 124 = c_headerFlags a"
    unfolding r by (rule header_field_at [of _ "salt @ ?c1 @ ?c2 @ ?c3 @ ?c4 @ ?c5 @ ?c6 @ ?c7 @ ?c8"]) (unfold h header_fields_def append_assoc, rule refl, simp_all add: assms(1))
  show "GetHeaderField32 h 128 = c_sectorSize a"
    unfolding r by (rule header_field_at [of _ "salt @ ?c1 @ ?c2 @ ?c3 @ ?c4 @ ?c5 @ ?c6 @ ?c7 @ ?c8 @ ?c9"]) (unfold h header_fields_def append_assoc, rule refl, simp_all add: assms(1))
qed

text \<open>The fields a structure gets from a header.\<close>

definition with_header :: "bytes \<Rightarrow> CRYPTO_INFO \<Rightarrow> CRYPTO_INFO" where
  "with_header h ci = ci\<lparr>RequiredProgramVersion := GetHeaderField16 h 70, LegacyVolume := GetHeaderField16 h 70 < 0x10b,
     HeaderVersion := GetHeaderField16 h 68, hiddenVolumeSize := GetHeaderField64 h 92, hiddenVolume := (GetHeaderField64 h 92 \<noteq> 0),
     VolumeSize := GetHeaderField64 h 100, EncryptedAreaStart := GetHeaderField64 h 108,
     EncryptedAreaLength := GetHeaderField64 h 116, HeaderFlags := GetHeaderField32 h 124,
     SectorSize := (if GetHeaderField16 h 68 \<ge> 5 then GetHeaderField32 h 128 else TC_SECTOR_SIZE_LEGACY)\<rparr>"

lemmas header_offsets = TC_HEADER_OFFSET_MAGIC_def TC_HEADER_OFFSET_VERSION_def TC_HEADER_OFFSET_REQUIRED_VERSION_def
  TC_HEADER_OFFSET_KEY_AREA_CRC_def TC_HEADER_OFFSET_HIDDEN_VOLUME_SIZE_def TC_HEADER_OFFSET_VOLUME_SIZE_def
  TC_HEADER_OFFSET_ENCRYPTED_AREA_START_def TC_HEADER_OFFSET_ENCRYPTED_AREA_LENGTH_def TC_HEADER_OFFSET_FLAGS_def
  TC_HEADER_OFFSET_SECTOR_SIZE_def TC_HEADER_OFFSET_HEADER_CRC_def HEADER_MASTER_KEYDATA_OFFSET_def MASTER_KEYDATA_SIZE_def

text \<open>A header is accepted.\<close>

definition header_valid :: "bool \<Rightarrow> bytes \<Rightarrow> bool" where
  "header_valid recovery h \<longleftrightarrow>
     GetHeaderField32 h 64 = TC_HEADER_MAGIC_NUMBER \<and> GetHeaderField16 h 68 \<le> VOLUME_HEADER_VERSION \<and>
     (recovery \<or> GetHeaderField16 h 68 < 4 \<or> GetHeaderField32 h 252 = GetCrc32 (slice 64 188 h)) \<and>
     (recovery \<or> GetHeaderField32 h 72 = GetCrc32 (slice 256 256 h)) \<and> GetHeaderField16 h 70 \<le> VERSION_NUM \<and>
     \<not> sector_size_bad (if GetHeaderField16 h 68 \<ge> 5 then GetHeaderField32 h 128 else TC_SECTOR_SIZE_LEGACY)"

lemma check_header_opened:
  "fst (check_header status recovery h ci) = Opened st h' \<longleftrightarrow> header_valid recovery h \<and> st = status \<and> h' = h"
  by (auto simp: check_header_def header_valid_def header_offsets Let_def not_le not_less split: if_splits)

lemma check_header_valid: "header_valid recovery h \<Longrightarrow> check_header status recovery h ci = (Opened status h, with_header h ci)"
  by (auto simp: check_header_def header_valid_def header_offsets Let_def not_le not_less with_header_def split: if_splits)

text \<open>The outcome does not depend on the structure, and no check touches its keys.\<close>

lemma check_header_outcome: "fst (check_header status recovery h ci) = fst (check_header status recovery h ci')"
  by (simp add: check_header_def Let_def)

lemma check_header_keeps:
  "ks (snd (check_header status recovery h ci)) = ks ci" "ks2 (snd (check_header status recovery h ci)) = ks2 ci"
  "k2 (snd (check_header status recovery h ci)) = k2 ci" "mode (snd (check_header status recovery h ci)) = mode ci"
  "ea (snd (check_header status recovery h ci)) = ea ci"
  by (simp_all add: check_header_def Let_def)


section \<open>Setting up the keys\<close>

text \<open>The arrays of the structure have their sizes.\<close>

definition sized :: "CRYPTO_INFO \<Rightarrow> bool" where
  "sized ci \<longleftrightarrow> length (ks ci) = MAX_EXPANDED_KEY \<and> length (ks2 ci) = MAX_EXPANDED_KEY \<and> length (k2 ci) = MASTER_KEYDATA_SIZE"

lemma sized_open: "sized crypto_open"
  by (simp add: sized_def crypto_open_def zero_info_def)

lemma EAGetKeySize_bounds: "ea_valid e \<Longrightarrow> 32 \<le> EAGetKeySize e \<and> EAGetKeySize e \<le> 96"
  by (erule ea_valid_cases) (simp_all add: EAGetKeySize_table ea_ciphers_def EA_Ciphers_table)

lemma init_keys_ok:
  assumes "primitives_ok P" "ea_valid (ea ci)" "mode ci = XTS" "sized ci" "2 * EAGetKeySize (ea ci) \<le> length keydata"
  shows "\<exists>b b' c. init_keys P keydata ci = Some (ERR_SUCCESS, ci\<lparr>ks := b, k2 := c, ks2 := b'\<rparr>) \<and>
    info_ready P keydata (drop (EAGetKeySize (ea ci)) keydata) (ci\<lparr>ks := b, k2 := c, ks2 := b'\<rparr>) \<and> sized (ci\<lparr>ks := b, k2 := c, ks2 := b'\<rparr>) \<and>
    c = store_at 0 (slice (EAGetKeySize (ea ci)) (EAGetKeySize (ea ci)) keydata) (k2 ci)"
proof -
  let ?n = "EAGetKeySize (ea ci)" and ?c = "store_at 0 (slice (EAGetKeySize (ea ci)) (EAGetKeySize (ea ci)) keydata) (k2 ci)"
  have s: "length (ks ci) = MAX_EXPANDED_KEY" "length (ks2 ci) = MAX_EXPANDED_KEY" "length (k2 ci) = 256"
    using assms(4) by (simp_all add: sized_def MASTER_KEYDATA_SIZE_def)
  have n: "?n \<le> 96" using EAGetKeySize_bounds [OF assms(2)] by simp
  have l: "?n \<le> length keydata" "?n \<le> length (drop ?n keydata)" using assms(5) by auto
  obtain b where b: "EAInit P (ea ci) keydata (ks ci) = (ERR_SUCCESS, b)" "length b = MAX_EXPANDED_KEY" "scheduled P (ea_ciphers (ea ci)) keydata 0 b"
    using EAInit_scheduled [OF assms(1,2) l(1) s(1)] by blast
  obtain b' where b': "EAInit P (ea ci) (drop ?n keydata) (ks2 ci) = (ERR_SUCCESS, b')" "length b' = MAX_EXPANDED_KEY"
    "scheduled P (ea_ciphers (ea ci)) (drop ?n keydata) 0 b'"
    using EAInit_scheduled [OF assms(1,2) l(2) s(2)] by blast
  have c: "length ?c = 256" using n s(3) assms(5) by (simp add: length_store_at)
  have "init_keys P keydata ci = Some (ERR_SUCCESS, ci\<lparr>ks := b, k2 := ?c, ks2 := b'\<rparr>)"
    using b(1) b'(1) assms(3)
    by (simp add: init_keys_def EAInitMode_def Let_def ERR_SUCCESS_def ERR_CIPHER_INIT_FAILURE_def)
  then show ?thesis
    using b b' c l assms(2,3) by (auto simp: info_ready_def sized_def MASTER_KEYDATA_SIZE_def)
qed

section \<open>The search over the algorithms\<close>

text \<open>A header decrypted with an algorithm, and what comes of it, as functions of the derived key alone.\<close>

definition open_header :: "primitives \<Rightarrow> bytes \<Rightarrow> bytes \<Rightarrow> int \<Rightarrow> bytes" where
  "open_header P enc dk e = take 64 enc @ decascade_spec P (ea_ciphers e) dk (drop (EAGetKeySize e) dk) 0 (slice 64 448 enc)"

definition header_attempt :: "primitives \<Rightarrow> bool \<Rightarrow> bytes \<Rightarrow> bytes \<Rightarrow> int \<Rightarrow> attempt" where
  "header_attempt P recovery enc dk e = fst (check_header ERR_SUCCESS recovery (open_header P enc dk e) crypto_open)"

lemma ready_DecryptBuffer:
  assumes "primitives_ok P" "info_ready P key key2 ci" "length buf mod 16 = 0"
  shows "DecryptBuffer P buf ci = Some (decascade_spec P (ea_ciphers (ea ci)) key key2 0 buf)"
    "length (decascade_spec P (ea_ciphers (ea ci)) key key2 unit buf) = length buf"
proof -
  have r: "mode ci = XTS" "ea_valid (ea ci)" "32 * length (ea_ciphers (ea ci)) \<le> length key" "32 * length (ea_ciphers (ea ci)) \<le> length key2"
    "scheduled P (ea_ciphers (ea ci)) key 0 (ks ci)" "scheduled P (ea_ciphers (ea ci)) key2 0 (ks2 ci)"
    using assms(2) by (auto simp: info_ready_def EAGetKeySize_table)
  show "DecryptBuffer P buf ci = Some (decascade_spec P (ea_ciphers (ea ci)) key key2 0 buf)"
    using decrypt_fold [OF assms(1) ea_ciphers_known [OF r(2)] r(3-6) assms(3), of 0] r
    by (simp add: DecryptBuffer_def EAGetLastCipher_table for_previous_walk EAGetKeyScheduleSize_table)
  show "length (decascade_spec P (ea_ciphers (ea ci)) key key2 unit buf) = length buf"
    by (rule length_decascade [OF assms(1) ea_ciphers_known [OF r(2)] r(3) assms(3)])
qed

lemma try_algorithm_attempt:
  assumes "primitives_ok P" "ea_valid (ea ci)" "mode ci = XTS" "sized ci" "length dk = 192" "length enc = 512"
  shows "\<exists>ci'. try_algorithm P recovery enc prf dk ci = Some (header_attempt P recovery enc dk (ea ci), ci') \<and>
    sized ci' \<and> mode ci' = XTS \<and> ea ci' = ea ci \<and>
    (header_valid recovery (open_header P enc dk (ea ci)) \<longrightarrow>
      (\<exists>b b' c. ci' = with_header (open_header P enc dk (ea ci)) (ci\<lparr>ks := b, k2 := c, ks2 := b'\<rparr>) \<and>
        info_ready P dk (drop (EAGetKeySize (ea ci)) dk) (ci\<lparr>ks := b, k2 := c, ks2 := b'\<rparr>)))"
proof -
  have n: "32 \<le> EAGetKeySize (ea ci)" "EAGetKeySize (ea ci) \<le> 96" using EAGetKeySize_bounds [OF assms(2)] by auto
  then have l: "2 * EAGetKeySize (ea ci) \<le> length dk" using assms(5) by simp
  obtain b b' c where i: "init_keys P dk ci = Some (ERR_SUCCESS, ci\<lparr>ks := b, k2 := c, ks2 := b'\<rparr>)"
    "info_ready P dk (drop (EAGetKeySize (ea ci)) dk) (ci\<lparr>ks := b, k2 := c, ks2 := b'\<rparr>)" "sized (ci\<lparr>ks := b, k2 := c, ks2 := b'\<rparr>)"
    using init_keys_ok [OF assms(1-4) l] by blast
  have s: "EAIsModeSupported (ea ci) XTS"
    using EA_Modes_table [OF assms(2)] by (simp add: EAIsModeSupported_def EAGetFirstMode_def Let_def)
  have m: "length (slice 64 448 enc) mod 16 = 0" using assms(6) by simp
  note d = ready_DecryptBuffer [OF assms(1) i(2) m, simplified]
  have h: "store_at 64 (decascade_spec P (ea_ciphers (ea ci)) dk (drop (EAGetKeySize (ea ci)) dk) 0 (slice 64 448 enc)) enc = open_header P enc dk (ea ci)"
    using d(2) assms(6) by (simp add: store_at_def open_header_def)
  let ?r = "check_header ERR_SUCCESS recovery (open_header P enc dk (ea ci)) (ci\<lparr>ks := b, k2 := c, ks2 := b'\<rparr>)"
  have t: "try_algorithm P recovery enc prf dk ci = Some ?r"
    using s n assms(3,6) d(1) h
    by (simp add: try_algorithm_def i(1) init_failed_def ERR_SUCCESS_def ERR_CIPHER_INIT_FAILURE_def ERR_MODE_INIT_FAILED_def
        ARGON2_HEADER_KEYDATA_SIZE_def HEADER_ENCRYPTED_DATA_OFFSET_def HEADER_ENCRYPTED_DATA_SIZE_def
        HEADER_EFFECTIVE_SIZE_def PKCS5_SALT_SIZE_def)
  have "fst ?r = header_attempt P recovery enc dk (ea ci)"
    unfolding header_attempt_def by (rule check_header_outcome)
  moreover have "sized (snd ?r)" "mode (snd ?r) = XTS" "ea (snd ?r) = ea ci"
    using i(3) assms(3) by (simp_all add: sized_def check_header_keeps)
  ultimately show ?thesis
    using t i(2) check_header_valid by (intro exI [of _ "snd ?r"]) (auto simp: prod_eq_iff)
qed

lemma EAGetNext_table:
  assumes "ea_valid e"
  shows "EAGetNext e = (if e = 15 then 0 else e + 1)"
proof -
  have "EA_Ciphers (EA 16) ! 0 = 0" by (simp add: EA_def EncryptionAlgorithms_def ea_entry_def numeral_eq_Suc)
  with assms show ?thesis
    by (elim ea_valid_cases) (simp_all add: EAGetNext_def EA_Ciphers_table)
qed

lemma for_ea_walk: "for_ea body EAGetFirst st = fold body [1..15] st"
proof -
  have "for_ea body e st = fold body [e..15] st" if "ea_valid e" for e st
    using that
  proof (induction "nat (15 - e)" arbitrary: e st)
    case 0
    then have "e = 15" by linarith
    then show ?case by (simp add: for_ea.simps [of _ 15] for_ea.simps [of _ 0] EAGetNext_table)
  next
    case (Suc n)
    then have e: "ea_valid e" "ea_valid (e + 1)" "n = nat (15 - (e + 1))" "e \<noteq> 15" by linarith+
    have "for_ea body e st = for_ea body (e + 1) (body e st)"
      using e by (subst for_ea.simps) (simp add: EAGetNext_table)
    also have "\<dots> = fold body [e + 1..15] (body e st)" by (rule Suc.hyps(1) [OF e(3,2)])
    also have "\<dots> = fold body [e..15] st" using e by (simp add: upto_rec1)
    finally show ?case .
  qed
  from this [of 1] show ?thesis by (simp add: EAGetFirst_def)
qed

definition header_search :: "primitives \<Rightarrow> bool \<Rightarrow> bytes \<Rightarrow> bytes \<Rightarrow> int option" where
  "header_search P recovery enc dk = find (\<lambda>e. header_attempt P recovery enc dk e \<noteq> Continue) [1..15]"

text \<open>The structure a search for the derived key \<open>dk\<close> leaves when it stops at algorithm \<open>e\<close>.\<close>

definition search_stops :: "primitives \<Rightarrow> bool \<Rightarrow> bytes \<Rightarrow> bytes \<Rightarrow> int \<Rightarrow> CRYPTO_INFO \<Rightarrow> bool" where
  "search_stops P recovery enc dk e ci \<longleftrightarrow> sized ci \<and> mode ci = XTS \<and> ea ci = e \<and>
     (header_valid recovery (open_header P enc dk e) \<longrightarrow>
       (\<exists>ci0. ci = with_header (open_header P enc dk e) ci0 \<and> info_ready P dk (drop (EAGetKeySize e) dk) ci0))"

lemma try_fold_stop: "a \<noteq> Continue \<Longrightarrow> fold (try_step P r enc prf dk) es (Some (a, ci)) = Some (a, ci)"
  by (induction es) (simp_all add: try_step_def)

lemma try_fold_search:
  assumes "primitives_ok P" "length dk = 192" "length enc = 512"
  shows "\<forall>e\<in>set es. ea_valid e \<Longrightarrow> sized ci \<Longrightarrow> mode ci = XTS \<Longrightarrow>
    (case find (\<lambda>e. header_attempt P r enc dk e \<noteq> Continue) es of
       None \<Rightarrow> \<exists>ci'. fold (try_step P r enc prf dk) es (Some (Continue, ci)) = Some (Continue, ci') \<and> sized ci'
     | Some e \<Rightarrow> \<exists>ci'. fold (try_step P r enc prf dk) es (Some (Continue, ci)) = Some (header_attempt P r enc dk e, ci') \<and>
         search_stops P r enc dk e ci')"
proof (induction es arbitrary: ci)
  case (Cons e es)
  have e: "ea_valid (ea (ci\<lparr>ea := e\<rparr>))" "mode (ci\<lparr>ea := e\<rparr>) = XTS" "sized (ci\<lparr>ea := e\<rparr>)"
    using Cons.prems by (auto simp: sized_def)
  obtain ci' where t: "try_algorithm P r enc prf dk (ci\<lparr>ea := e\<rparr>) = Some (header_attempt P r enc dk e, ci')"
    "sized ci'" "mode ci' = XTS" "ea ci' = e"
    "header_valid r (open_header P enc dk e) \<Longrightarrow>
      \<exists>ci0. ci' = with_header (open_header P enc dk e) ci0 \<and> info_ready P dk (drop (EAGetKeySize e) dk) ci0"
    using try_algorithm_attempt [OF assms(1) e assms(2,3), of r "prf"] by auto
  have st: "try_step P r enc prf dk e (Some (Continue, ci)) = Some (header_attempt P r enc dk e, ci')"
    by (simp add: try_step_def t(1))
  show ?case
  proof (cases "header_attempt P r enc dk e = Continue")
    case True
    then have fl: "fold (try_step P r enc prf dk) (e # es) (Some (Continue, ci)) = fold (try_step P r enc prf dk) es (Some (Continue, ci'))"
      using st by simp
    have fd: "find (\<lambda>e. header_attempt P r enc dk e \<noteq> Continue) (e # es) = find (\<lambda>e. header_attempt P r enc dk e \<noteq> Continue) es"
      using True by simp
    show ?thesis unfolding fl fd by (rule Cons.IH) (use Cons.prems(1) t(2,3) in auto)
  next
    case False
    then show ?thesis using st t by (simp add: try_fold_stop search_stops_def)
  qed
qed simp

lemma try_algorithms_search:
  assumes "primitives_ok P" "length dk = 192" "length enc = 512" "sized ci"
  shows "case header_search P r enc dk of
       None \<Rightarrow> \<exists>ci'. try_algorithms P r enc prf dk ci = Some (Continue, ci') \<and> sized ci'
     | Some e \<Rightarrow> header_attempt P r enc dk e \<noteq> Continue \<and> ea_valid e \<and>
         (\<exists>ci'. try_algorithms P r enc prf dk ci = Some (header_attempt P r enc dk e, ci') \<and> search_stops P r enc dk e ci')"
proof -
  let ?ci = "ci\<lparr>mode := FIRST_MODE_OF_OPERATION_ID\<rparr>"
  have s: "sized ?ci" "mode ?ci = XTS" using assms(4) by (simp_all add: sized_def FIRST_MODE_OF_OPERATION_ID_def)
  have v: "\<forall>e\<in>set [1..15]. ea_valid e" by simp
  note f = try_fold_search [OF assms(1-3) v s, of r "prf", folded header_search_def]
  show ?thesis
  proof (cases "header_search P r enc dk")
    case None
    then obtain ci' where "fold (try_step P r enc prf dk) [1..15] (Some (Continue, ?ci)) = Some (Continue, ci')" "sized ci'"
      using f by auto
    then show ?thesis using None by (simp add: try_algorithms_def for_ea_walk sized_def)
  next
    case (Some e)
    then have "header_attempt P r enc dk e \<noteq> Continue" "e \<in> set [1..15]"
      unfolding header_search_def find_Some_iff by (auto intro: nth_mem)
    then show ?thesis using Some f by (auto simp: try_algorithms_def for_ea_walk)
  qed
qed

section \<open>Creating succeeds\<close>

lemma decascade_cascade:
  assumes "primitives_ok P" "set cs \<subseteq> known_ciphers" "32 * length cs \<le> length key" "length buf mod 16 = 0"
  shows "decascade_spec P cs key key2 unit (cascade_spec P cs key key2 unit buf) = buf \<and>
    length (cascade_spec P cs key key2 unit buf) = length buf"
  using assms(2-)
proof (induction cs arbitrary: key key2 buf)
  case (Cons c cs)
  have c: "c \<in> known_ciphers" and lk: "length (take 32 key) = 32" using Cons.prems by auto
  note bc = cipher_block_cipher [OF assms(1) c lk]
  have l: "length (xts_spec (cipher_enc P c (take 32 key)) (cipher_enc P c (take 32 key2)) unit 0 buf) = length buf"
    by (rule length_xts_spec [OF block_cipher_size(1) [OF bc] Cons.prems(3)])
  have p: "set cs \<subseteq> known_ciphers" "32 * length cs \<le> length (drop 32 key)" using Cons.prems by auto
  show ?case using Cons.IH [OF p, of "xts_spec (cipher_enc P c (take 32 key)) (cipher_enc P c (take 32 key2)) unit 0 buf"] l Cons.prems(3)
    by (simp add: xts_spec_inverse [OF bc])
qed simp

text \<open>The encrypted header.\<close>

definition sealed_header :: "primitives \<Rightarrow> bytes \<Rightarrow> bytes \<Rightarrow> bytes \<Rightarrow> create_args \<Rightarrow> bytes" where
  "sealed_header P dk salt keydata a =
     salt @ cascade_spec P (ea_ciphers (c_ea a)) dk (drop (EAGetKeySize (c_ea a)) dk) 0 (slice 64 448 (plain_header salt keydata a))"

lemma sealed_header_opens:
  assumes "primitives_ok P" "ea_valid (c_ea a)" "length dk = 192" "length salt = 64" "length keydata = 256"
  shows "length (sealed_header P dk salt keydata a) = 512" "take 64 (sealed_header P dk salt keydata a) = salt"
    "open_header P (sealed_header P dk salt keydata a) dk (c_ea a) = plain_header salt keydata a"
proof -
  note h = created_header_fields [OF assms(4,5), of a]
  have k: "32 * length (ea_ciphers (c_ea a)) \<le> length dk"
    using EAGetKeySize_bounds [OF assms(2)] EAGetKeySize_table [OF assms(2)] assms(3) by linarith
  have m: "length (slice 64 448 (plain_header salt keydata a)) mod 16 = 0" using h(1) by simp
  note c = decascade_cascade [OF assms(1) ea_ciphers_known [OF assms(2)] k m]
  show "length (sealed_header P dk salt keydata a) = 512" using c h(1) assms(4) by (simp add: sealed_header_def)
  show "take 64 (sealed_header P dk salt keydata a) = salt" using assms(4) by (simp add: sealed_header_def)
  have s: "slice 64 448 (sealed_header P dk salt keydata a) =
      cascade_spec P (ea_ciphers (c_ea a)) dk (drop (EAGetKeySize (c_ea a)) dk) 0 (slice 64 448 (plain_header salt keydata a))"
    using c h(1) assms(4) by (simp add: sealed_header_def slice_append_right slice_def)
  have "salt @ slice 64 448 (plain_header salt keydata a) = plain_header salt keydata a"
    using append_take_drop_id [of 64 "plain_header salt keydata a"] h(1,14) by (simp add: slice_def)
  then show "open_header P (sealed_header P dk salt keydata a) dk (c_ea a) = plain_header salt keydata a"
    using c s assms(4) by (simp add: open_header_def sealed_header_def)
qed

text \<open>The structure a volume's data is encrypted with.\<close>

definition created_info :: "create_args \<Rightarrow> int \<Rightarrow> int \<Rightarrow> bytes \<Rightarrow> CRYPTO_INFO \<Rightarrow> bool" where
  "created_info a iterations memory keydata ci \<longleftrightarrow>
     ea ci = c_ea a \<and> mode ci = XTS \<and> pkcs5 ci = c_prf a \<and> noIterations ci = iterations \<and> memoryCost ci = memory \<and>
     volumePim ci = (if c_pim a < 0 then 0 else c_pim a) \<and> HeaderVersion ci = VOLUME_HEADER_VERSION \<and>
     hiddenVolumeSize ci = c_hiddenVolumeSize a \<and> hiddenVolume ci = (c_hiddenVolumeSize a \<noteq> 0) \<and> VolumeSize ci = c_volumeSize a \<and>
     EncryptedAreaStart ci = c_encryptedAreaStart a \<and> EncryptedAreaLength ci = c_encryptedAreaLength a \<and>
     HeaderFlags ci = c_headerFlags a \<and> SectorSize ci = c_sectorSize a \<and> master_keydata ci = keydata"

lemma write_header_succeeds:
  assumes "primitives_ok (ce_prims env)" "ea_valid (c_ea a)" "c_mode a = XTS" "\<not> sector_size_bad (c_sectorSize a)"
    "length dk = 192" "length salt = 64" "length keydata = 256"
  shows "\<exists>ci. write_header env a iterations memory keydata salt dk =
      Some (ERR_SUCCESS, sealed_header (ce_prims env) dk salt keydata a, Some ci) \<and>
    created_info a iterations memory keydata ci \<and> info_ready (ce_prims env) keydata (drop (EAGetKeySize (c_ea a)) keydata) ci"
proof -
  let ?P = "ce_prims env" and ?n = "EAGetKeySize (c_ea a)" and ?h = "plain_header salt keydata a"
  define ci where "ci = crypto_open\<lparr>ea := c_ea a, pkcs5 := c_prf a, noIterations := iterations, memoryCost := memory,
                 volumePim := (if c_pim a < 0 then 0 else c_pim a), mode := c_mode a, HeaderVersion := VOLUME_HEADER_VERSION,
                 hiddenVolumeSize := c_hiddenVolumeSize a, hiddenVolume := (c_hiddenVolumeSize a \<noteq> 0),
                 VolumeSize := c_volumeSize a, EncryptedAreaStart := c_encryptedAreaStart a,
                 EncryptedAreaLength := c_encryptedAreaLength a, HeaderFlags := c_headerFlags a,
                 SectorSize := c_sectorSize a\<rparr>"
  have ci: "ea ci = c_ea a" "mode ci = XTS" "sized ci" "length (ks ci) = MAX_EXPANDED_KEY" "length (ks2 ci) = MAX_EXPANDED_KEY"
    using assms(3) sized_open by (simp_all add: ci_def sized_def)
  have n: "?n \<le> 96" using EAGetKeySize_bounds [OF assms(2)] by simp
  note ea = assms(2) [folded ci(1)]
  have l: "?n \<le> length dk" "?n \<le> length (drop ?n dk)" "?n \<le> length keydata" "?n \<le> length (drop ?n keydata)" using n assms(5,7) by auto
  obtain b where b: "EAInit ?P (c_ea a) dk (ks ci) = (ERR_SUCCESS, b)" "length b = MAX_EXPANDED_KEY" "scheduled ?P (ea_ciphers (c_ea a)) dk 0 b"
    using EAInit_scheduled [OF assms(1,2) l(1) ci(4)] by blast
  obtain b' where b': "EAInit ?P (c_ea a) (drop ?n dk) (ks2 ci) = (ERR_SUCCESS, b')" "length b' = MAX_EXPANDED_KEY"
    "scheduled ?P (ea_ciphers (c_ea a)) (drop ?n dk) 0 b'"
    using EAInit_scheduled [OF assms(1,2) l(2) ci(5)] by blast
  obtain d where d: "EAInit ?P (c_ea a) keydata b = (ERR_SUCCESS, d)" "length d = MAX_EXPANDED_KEY" "scheduled ?P (ea_ciphers (c_ea a)) keydata 0 d"
    using EAInit_scheduled [OF assms(1,2) l(3) b(2)] by blast
  obtain d' where d': "EAInit ?P (c_ea a) (drop ?n keydata) b' = (ERR_SUCCESS, d')" "scheduled ?P (ea_ciphers (c_ea a)) (drop ?n keydata) 0 d'"
    using EAInit_scheduled [OF assms(1,2) l(4) b'(2)] by blast
  let ?k = "store_at 0 (slice ?n ?n dk) (k2 ci)" and ?k' = "store_at 0 (slice ?n ?n keydata) (store_at 0 (slice ?n ?n dk) (k2 ci))"
  let ?ci1 = "ci\<lparr>k2 := ?k, ks := b, ks2 := b'\<rparr>" and ?ci2 = "ci\<lparr>k2 := ?k', ks := d, ks2 := d', master_keydata := keydata\<rparr>"
  have r: "info_ready ?P dk (drop ?n dk) ?ci1"
    using b b' ci l assms(2) by (simp add: info_ready_def)
  note h = created_header_fields [OF assms(6,7), of a]
  have m: "length (slice 64 448 ?h) mod 16 = 0" using h(1) by simp
  note c = buffer_cascade [OF assms(1) r m]
  have st: "store_at 64 (cascade_spec ?P (ea_ciphers (c_ea a)) dk (drop ?n dk) 0 (slice 64 448 ?h)) ?h = sealed_header ?P dk salt keydata a"
    using c(2) ci(1) h(1,14) by (simp add: store_at_def sealed_header_def)
  have "write_header env a iterations memory keydata salt dk = Some (ERR_SUCCESS, sealed_header ?P dk salt keydata a, Some ?ci2)"
    using assms(3,4) b(1) b'(1) d(1) d'(1) c(1) ci(1,2) st
    by (simp add: write_header_def Let_def EAInitMode_def ci_def HEADER_ENCRYPTED_DATA_OFFSET_def HEADER_ENCRYPTED_DATA_SIZE_def
        HEADER_EFFECTIVE_SIZE_def PKCS5_SALT_SIZE_def)
  moreover have "created_info a iterations memory keydata ?ci2" using assms(3) by (simp add: created_info_def ci_def)
  moreover have "info_ready ?P keydata (drop ?n keydata) ?ci2"
    using d d' ci l assms(2) by (simp add: info_ready_def)
  ultimately show ?thesis by blast
qed

section \<open>From creating to reading\<close>

text \<open>The password with the response of the hardware factor mixed in, and the key derived from it.\<close>

definition mixed_password :: "bytes \<Rightarrow> nat \<Rightarrow> bytes \<Rightarrow> hkf_store \<Rightarrow> bytes" where
  "mixed_password text len salt s =
     (let ((rc, resp, rlen), s) = HKFComputeActiveResponse (Some salt) (zeros 64) s;
          (userKey, keyLength) = crypto_loadkey text len;
          (userKey, keyLength) =
            (if 0 < rlen then HKFMixResponseIntoPasswordVerSalt HKF_MIX_V2 userKey keyLength (take (nat rlen) resp) (Some salt)
             else (userKey, keyLength))
      in take (nat keyLength) userKey)"

definition header_key :: "kdf \<Rightarrow> int \<Rightarrow> bytes \<Rightarrow> bytes \<Rightarrow> int \<Rightarrow> int \<Rightarrow> bytes" where
  "header_key K prf password salt iterations memory = snd (the (derive_header_key K prf password salt iterations memory))"

lemma HKFComputeActiveResponse_facts:
  assumes "HKFComputeActiveResponse ch (zeros 64) s = ((rc, resp, rlen), s')"
  shows "s' = s" "rc = HKF_OK \<Longrightarrow> 0 \<le> rlen \<and> resp \<noteq> []"
proof -
  have st: "store_at 0 x (zeros 64) \<noteq> []" for x by (cases x) (simp_all add: store_at_def zeros_def)
  have r: "hkf_response c ch (zeros 64) 0 = (HKF_OK, resp, rlen) \<Longrightarrow> 0 \<le> rlen \<and> resp \<noteq> []" for c
    by (auto simp: hkf_response_def hkf_dispatch_response_def Let_def HKF_OK_def HKF_ERR_CONFIG_def HKF_ERR_UNSUPPORTED_def st
        store_at_def zeros_def split: if_splits)
  have "s' = s \<and> (rc = HKF_OK \<longrightarrow> 0 \<le> rlen \<and> resp \<noteq> [])"
  proof (cases "hkf_deref (g_hkfActiveConfig s) s")
    case None
    then show ?thesis using assms by (auto simp: HKFComputeActiveResponse_def zeros_def)
  next
    case (Some c)
    then obtain p where p: "g_hkfActiveConfig s = Some p" "hkConfigs s p = Some c"
      by (cases "g_hkfActiveConfig s") (auto simp: hkf_deref_def)
    show ?thesis
    proof (cases "hkBackend c = HKF_BACKEND_NONE")
      case True
      then show ?thesis using assms Some by (auto simp: HKFComputeActiveResponse_def zeros_def)
    next
      case False
      then have "HKFComputeActiveResponse ch (zeros 64) s = (hkf_response (hkf_toggle_config (hkArea s) p c) ch (zeros 64) 0, s)"
        using Some p by (simp add: HKFComputeActiveResponse_def HKFComputeResponse_spec)
      then have "hkf_response (hkf_toggle_config (hkArea s) p c) ch (zeros 64) 0 = (rc, resp, rlen)" "s' = s"
        using assms by simp_all
      then show ?thesis using r by auto
    qed
  qed
  then show "s' = s" "rc = HKF_OK \<Longrightarrow> 0 \<le> rlen \<and> resp \<noteq> []" by auto
qed

lemma create_success:
  assumes "CreateVolumeHeaderInMemory env a h s = Some ((ERR_SUCCESS, enc, Some ci), s')" "c_password a = Some (text, len)"
  obtains keydata it mem salt dk where "create_master_keys env a = Inr keydata"
    "get_pkcs5_iteration_count (c_prf a) (if c_pim a < 0 then 0 else c_pim a) (c_bBoot a) (ce_overrides env) = Some (it, mem)"
    "rand_salt env 64 = Some salt" "\<not> (c_bBoot a \<and> c_prf a = ARGON2)" "s' = s"
    "fst (fst (HKFComputeActiveResponse (Some salt) (zeros 64) s)) = HKF_OK"
    "derive_header_key (ce_derive env) (c_prf a) (mixed_password text len salt s) salt it mem = Some (0, dk)"
    "write_header env a it mem keydata salt dk = Some (ERR_SUCCESS, enc, Some ci)"
proof -
  note c = assms(1) [unfolded CreateVolumeHeaderInMemory_def Let_def]
  obtain keydata where k: "create_master_keys env a = Inr keydata"
    using c by (auto split: if_splits sum.splits)
  obtain it mem where i: "get_pkcs5_iteration_count (c_prf a) (if c_pim a < 0 then 0 else c_pim a) (c_bBoot a) (ce_overrides env) = Some (it, mem)"
    using c assms(2) k by (auto split: if_splits option.splits)
  obtain salt where sa: "rand_salt env 64 = Some salt"
    using c assms(2) k i by (auto simp: PKCS5_SALT_SIZE_def split: if_splits option.splits)
  obtain rc resp rlen s1 where r: "HKFComputeActiveResponse (Some salt) (zeros 64) s = ((rc, resp, rlen), s1)"
    by (metis prod.exhaust)
  note s1 = HKFComputeActiveResponse_facts(1) [OF r]
  have b: "\<not> (c_bBoot a \<and> c_prf a = ARGON2)" using c by (auto split: if_splits)
  let ?u = "store_at 0 (take len text) (zeros MAX_PASSWORD)"
  let ?m = "HKFApplyIfConfiguredVer HKF_MIX_V2 ?u (int len) (Some salt) s"
  obtain rc' uk kl s2 where m: "?m = ((rc', uk, kl), s2)" by (metis prod.exhaust)
  have m1: "rc' = rc" "s2 = s" "rc = HKF_OK \<Longrightarrow> take (nat kl) uk = mixed_password text len salt s"
    using m r s1 by (auto simp: HKFApplyIfConfiguredVer_def mixed_password_def crypto_loadkey_def split: if_splits prod.splits)
  have rc: "rc = HKF_OK"
    using c assms(2) k i sa b m m1 by (auto simp: PKCS5_SALT_SIZE_def ERR_KEY_DERIVATION_FAILED_def ERR_SUCCESS_def split: if_splits)
  have c2: "(case create_header_key env a (mixed_password text len salt s) salt it mem of None \<Rightarrow> None
      | Some (Inl e) \<Rightarrow> Some ((e, zeros HEADER_EFFECTIVE_SIZE, NULL), s)
      | Some (Inr dk) \<Rightarrow> map_option (\<lambda>r. (r, s)) (write_header env a it mem keydata salt dk)) = Some ((ERR_SUCCESS, enc, Some ci), s')"
    using c assms(2) k i sa b m m1 rc by (simp add: PKCS5_SALT_SIZE_def split: if_splits)
  then obtain dk where d: "create_header_key env a (mixed_password text len salt s) salt it mem = Some (Inr dk)"
    by (auto split: option.splits sum.splits)
  with c2 have w: "write_header env a it mem keydata salt dk = Some (ERR_SUCCESS, enc, Some ci)" "s' = s" by auto
  have "derive_header_key (ce_derive env) (c_prf a) (mixed_password text len salt s) salt it mem = Some (0, dk)"
    using d assms(2) by (auto simp: create_header_key_def split: option.splits if_splits)
  with that k i sa b w r rc show thesis by simp
qed

end
