(* ===== verification/HeaderSearch.thy ===== *)
theory HeaderSearch
  imports VolumesCorrect
begin

text \<open>
  What reading a header comes to: a linear search over the pairs of a PRF and an algorithm, in the order of the two loops,
  for the first pair under which the decrypted header is recognised; and the structure a successful search returns. From this
  follow that nothing but a valid header is ever accepted and that every created header is found again.
\<close>

section \<open>The specification\<close>

text \<open>The result code and the key a PRF gives.\<close>

definition prf_key :: "read_env \<Rightarrow> read_args \<Rightarrow> bytes \<Rightarrow> bytes \<Rightarrow> int \<Rightarrow> int \<times> bytes" where
  "prf_key env args pw salt p =
     (let (it, mem) = the (get_pkcs5_iteration_count p (pim args) (bBoot args) (overrides env))
      in the (derive_header_key (derive_key env) p pw salt it mem))"

text \<open>The PRFs that are not skipped.\<close>

definition tried :: "read_args \<Rightarrow> int \<Rightarrow> bool" where
  "tried args p \<longleftrightarrow> (selected_pkcs5_prf args = 0 \<or> p = selected_pkcs5_prf args) \<and> \<not> (bBoot args \<and> p = ARGON2)"

definition candidates :: "read_env \<Rightarrow> read_args \<Rightarrow> bytes \<Rightarrow> bytes \<Rightarrow> int list \<Rightarrow> (int \<times> int) list" where
  "candidates env args pw salt prfs =
     List.product (filter (\<lambda>p. tried args p \<and> fst (prf_key env args pw salt p) = 0) prfs) [1..15]"

definition candidate_attempt :: "read_env \<Rightarrow> read_args \<Rightarrow> bytes \<Rightarrow> bytes \<Rightarrow> int \<times> int \<Rightarrow> attempt" where
  "candidate_attempt env args pw salt c =
     header_attempt (prims env) (recoveryMode env) (encryptedHeader args) (snd (prf_key env args pw salt (fst c))) (snd c)"

definition found :: "read_env \<Rightarrow> read_args \<Rightarrow> bytes \<Rightarrow> bytes \<Rightarrow> int list \<Rightarrow> (int \<times> int) option" where
  "found env args pw salt prfs = find (\<lambda>c. candidate_attempt env args pw salt c \<noteq> Continue) (candidates env args pw salt prfs)"

text \<open>The code of a failed Argon2 derivation, which only counts when every PRF is tried.\<close>

definition argon2_failure :: "read_env \<Rightarrow> read_args \<Rightarrow> bytes \<Rightarrow> bytes \<Rightarrow> int list \<Rightarrow> int" where
  "argon2_failure env args pw salt prfs =
     (if ARGON2 \<in> set prfs \<and> tried args ARGON2 then fst (prf_key env args pw salt ARGON2) else 0)"

definition not_found_status :: "int \<Rightarrow> int" where
  "not_found_status failure = (if failure \<noteq> 0 then MapArgon2ResultToVcError failure else ERR_PASSWORD_WRONG)"

text \<open>What the specification needs of its surroundings: block ciphers that invert, a header of the right size, no abort, known
  PRFs whose successful derivations have the length asked for, and no failure of an explicitly selected PRF.\<close>

definition search_env :: "read_env \<Rightarrow> read_args \<Rightarrow> bytes \<Rightarrow> bytes \<Rightarrow> bool" where
  "search_env env args pw salt \<longleftrightarrow>
     primitives_ok (prims env) \<and> length (encryptedHeader args) = 512 \<and> (\<forall>n. \<not> userAbort env n) \<and>
     (\<forall>p\<in>set (prf_order env). FIRST_PRF_ID \<le> p \<and> p \<le> LAST_PRF_ID \<and>
        (fst (prf_key env args pw salt p) = 0 \<longrightarrow> length (snd (prf_key env args pw salt p)) = 192) \<and>
        (selected_pkcs5_prf args = p \<longrightarrow> fst (prf_key env args pw salt p) = 0))"

section \<open>The search refines it\<close>

lemma find_append: "find P (xs @ ys) = (case find P xs of None \<Rightarrow> find P ys | Some x \<Rightarrow> Some x)"
  by (induction xs) simp_all

lemma find_Pair: "find P (map (Pair p) es) = map_option (Pair p) (find (\<lambda>e. P (p, e)) es)"
  by (induction es) simp_all

lemma derive_known:
  "FIRST_PRF_ID \<le> p \<Longrightarrow> p \<le> LAST_PRF_ID \<Longrightarrow> \<exists>r. derive_header_key K p pw salt it mem = Some r"
proof -
  assume "FIRST_PRF_ID \<le> p" "p \<le> LAST_PRF_ID"
  then have "p \<in> {BLAKE2S, SHA256, STREEBOG, SHA512, WHIRLPOOL, SHA3_512, BLAKE2B, ARGON2, BALLOON}"
    by (simp add: FIRST_PRF_ID_def LAST_PRF_ID_def) (smt (verit))
  then show ?thesis by (auto simp: derive_header_key_def)
qed

lemma prf_key_derives:
  assumes "FIRST_PRF_ID \<le> p" "p \<le> LAST_PRF_ID"
  obtains it mem where "get_pkcs5_iteration_count p (pim args) (bBoot args) (overrides env) = Some (it, mem)"
    "derive_header_key (derive_key env) p pw salt it mem = Some (prf_key env args pw salt p)"
proof -
  obtain it mem where i: "get_pkcs5_iteration_count p (pim args) (bBoot args) (overrides env) = Some (it, mem)"
    using iteration_count_known [OF assms] by blast
  obtain r where "derive_header_key (derive_key env) p pw salt it mem = Some r" using derive_known [OF assms] by blast
  with i that show thesis by (simp add: prf_key_def)
qed

lemma found_Cons:
  "found env args pw salt (p # ps) =
     (if tried args p \<and> fst (prf_key env args pw salt p) = 0
      then case header_search (prims env) (recoveryMode env) (encryptedHeader args) (snd (prf_key env args pw salt p)) of
             Some e \<Rightarrow> Some (p, e) | None \<Rightarrow> found env args pw salt ps
      else found env args pw salt ps)"
  by (simp add: found_def candidates_def find_append find_Pair header_search_def candidate_attempt_def split: option.split)

text \<open>What the loop over the PRFs answers.\<close>

definition search_result :: "read_env \<Rightarrow> read_args \<Rightarrow> bytes \<Rightarrow> bytes \<Rightarrow> int list \<Rightarrow> int \<Rightarrow> read_result option \<Rightarrow> bool" where
  "search_result env args pw salt prfs failure r \<longleftrightarrow>
     (case found env args pw salt prfs of
        None \<Rightarrow> \<exists>ci. r = read_error args (not_found_status failure) ci
      | Some (p, e) \<Rightarrow>
          (case candidate_attempt env args pw salt (p, e) of
             Continue \<Rightarrow> False
           | Fail status \<Rightarrow> \<exists>ci. r = read_error args status ci
           | Opened status h \<Rightarrow>
               \<exists>it mem ci. get_pkcs5_iteration_count p (pim args) (bBoot args) (overrides env) = Some (it, mem) \<and>
                 r = open_volume (prims env) args p it mem status h ci \<and> ea_valid e \<and>
                 search_stops (prims env) (recoveryMode env) (encryptedHeader args) (snd (prf_key env args pw salt p)) e ci))"

lemma try_prfs_search:
  assumes "search_env env args pw salt"
  shows "set ps \<subseteq> set (prf_order env) \<Longrightarrow> sized ci \<Longrightarrow>
    search_result env args pw salt ps
      (if selected_pkcs5_prf args = 0 \<and> argon2_failure env args pw salt ps \<noteq> 0 then argon2_failure env args pw salt ps else failure)
      (try_prfs env args pw salt ps polls failure ci)"
proof (induction ps arbitrary: polls failure ci)
  case Nil
  then show ?case
    using assms by (auto simp: search_result_def found_def candidates_def argon2_failure_def not_found_status_def search_env_def)
next
  case (Cons p ps)
  have ok: "primitives_ok (prims env)" "length (encryptedHeader args) = 512" "\<not> userAbort env n" for n
    using assms by (auto simp: search_env_def)
  have p: "FIRST_PRF_ID \<le> p" "p \<le> LAST_PRF_ID" "fst (prf_key env args pw salt p) = 0 \<Longrightarrow> length (snd (prf_key env args pw salt p)) = 192"
    "selected_pkcs5_prf args = p \<Longrightarrow> fst (prf_key env args pw salt p) = 0"
    using assms Cons.prems(1) by (auto simp: search_env_def)
  have ps: "set ps \<subseteq> set (prf_order env)" using Cons.prems(1) by simp
  obtain it mem where k: "get_pkcs5_iteration_count p (pim args) (bBoot args) (overrides env) = Some (it, mem)"
    "derive_header_key (derive_key env) p pw salt it mem = Some (prf_key env args pw salt p)"
    by (rule prf_key_derives [OF p(1,2)])
  obtain r dk where rd: "prf_key env args pw salt p = (r, dk)" by (metis prod.exhaust)
  let ?f = "\<lambda>qs f. if selected_pkcs5_prf args = 0 \<and> argon2_failure env args pw salt qs \<noteq> 0 then argon2_failure env args pw salt qs else f"
  let ?q = "\<lambda>qs. search_result env args pw salt qs"
  consider (skip) "\<not> tried args p" | (failed) "tried args p" "r \<noteq> 0" | (search) "tried args p" "r = 0" by blast
  then show ?case
  proof cases
    case skip
    have t: "try_prfs env args pw salt (p # ps) polls failure ci = try_prfs env args pw salt ps (polls + 1) failure ci"
      using skip ok(3) by (auto simp: tried_def)
    have f: "found env args pw salt (p # ps) = found env args pw salt ps" and a: "?f (p # ps) failure = ?f ps failure"
      using skip by (auto simp: found_Cons argon2_failure_def)
    show ?thesis unfolding a t search_result_def f by (rule Cons.IH [OF ps Cons.prems(2), unfolded search_result_def])
  next
    case failed
    have s: "selected_pkcs5_prf args = 0" using failed p(4) rd by (auto simp: tried_def)
    let ?g = "if p = ARGON2 then r else failure"
    have t: "try_prfs env args pw salt (p # ps) polls failure ci = try_prfs env args pw salt ps (polls + 1) ?g ci"
      using failed ok(3) s k rd by (auto simp: tried_def)
    have f: "found env args pw salt (p # ps) = found env args pw salt ps" using failed rd by (simp add: found_Cons)
    have a: "?f (p # ps) failure = ?f ps ?g"
      using failed rd s by (auto simp: argon2_failure_def)
    show ?thesis unfolding a t search_result_def f by (rule Cons.IH [OF ps Cons.prems(2), unfolded search_result_def])
  next
    case search
    have l: "length dk = 192" using p(3) search rd by simp
    have a: "?f (p # ps) failure = ?f ps failure" using search rd by (auto simp: argon2_failure_def)
    have t: "try_prfs env args pw salt (p # ps) polls failure ci =
        (case try_algorithms (prims env) (recoveryMode env) (encryptedHeader args) p dk ci of
           None \<Rightarrow> None
         | Some (Continue, ci) \<Rightarrow> try_prfs env args pw salt ps (polls + 2) failure ci
         | Some (Fail status, ci) \<Rightarrow> read_error args status ci
         | Some (Opened status header, ci) \<Rightarrow> open_volume (prims env) args p it mem status header ci)"
      using search ok(3) k rd by (auto simp: tried_def)
    note s = try_algorithms_search [OF ok(1) l ok(2) Cons.prems(2), of "recoveryMode env" p]
    show ?thesis
    proof (cases "header_search (prims env) (recoveryMode env) (encryptedHeader args) dk")
      case None
      then obtain ci' where c: "try_algorithms (prims env) (recoveryMode env) (encryptedHeader args) p dk ci = Some (Continue, ci')" "sized ci'"
        using s by auto
      have f: "found env args pw salt (p # ps) = found env args pw salt ps" using search rd None by (simp add: found_Cons)
      show ?thesis unfolding a t c(1) search_result_def f option.case(2) prod.case attempt.case
        by (rule Cons.IH [OF ps c(2), unfolded search_result_def])
    next
      case (Some e)
      then obtain ci' where c: "try_algorithms (prims env) (recoveryMode env) (encryptedHeader args) p dk ci =
          Some (header_attempt (prims env) (recoveryMode env) (encryptedHeader args) dk e, ci')"
        "search_stops (prims env) (recoveryMode env) (encryptedHeader args) dk e ci'"
        "header_attempt (prims env) (recoveryMode env) (encryptedHeader args) dk e \<noteq> Continue" "ea_valid e"
        using s by auto
      have f: "found env args pw salt (p # ps) = Some (p, e)" using search rd Some by (simp add: found_Cons)
      show ?thesis unfolding t c(1) search_result_def f
        using c(2-4) rd k(1) by (auto simp: candidate_attempt_def split: attempt.split)
    qed
  qed
qed

section \<open>The volume that is opened\<close>

text \<open>The structure returned for the header \<open>h\<close>, found with PRF \<open>p\<close>, PIM \<open>m\<close> and algorithm \<open>e\<close>: its fields are those of the header, and it is
  ready to encrypt with the master keys of the header.\<close>

definition opened_info :: "primitives \<Rightarrow> int \<Rightarrow> int \<Rightarrow> int \<Rightarrow> bytes \<Rightarrow> CRYPTO_INFO \<Rightarrow> bool" where
  "opened_info P p m e h ci \<longleftrightarrow>
     ea ci = e \<and> mode ci = XTS \<and> pkcs5 ci = p \<and> volumePim ci = m \<and>
     HeaderVersion ci = GetHeaderField16 h 68 \<and> RequiredProgramVersion ci = GetHeaderField16 h 70 \<and>
     hiddenVolumeSize ci = GetHeaderField64 h 92 \<and> hiddenVolume ci = (GetHeaderField64 h 92 \<noteq> 0) \<and>
     VolumeSize ci = GetHeaderField64 h 100 \<and> EncryptedAreaStart ci = GetHeaderField64 h 108 \<and>
     EncryptedAreaLength ci = GetHeaderField64 h 116 \<and> HeaderFlags ci = GetHeaderField32 h 124 \<and>
     SectorSize ci = (if GetHeaderField16 h 68 \<ge> 5 then GetHeaderField32 h 128 else TC_SECTOR_SIZE_LEGACY) \<and>
     master_keydata ci = slice 256 256 h \<and>
     info_ready P (slice 256 256 h) (drop (EAGetKeySize e) (slice 256 256 h)) ci"

lemma open_volume_opens:
  assumes "primitives_ok P" "retHeaderCryptoInfo args = NULL" "ea_valid e" "length h = 512"
    "ci = with_header h ci0" "sized ci" "mode ci = XTS" "ea ci = e"
  shows "\<exists>ci'. open_volume P args p it mem st h ci = Some (ERR_SUCCESS, Some ci', NULL) \<and> opened_info P p (pim args) e h ci'"
proof -
  let ?k = "slice 256 256 h"
  let ?ci = "ci\<lparr>master_keydata := ?k, pkcs5 := p, noIterations := it, memoryCost := mem, volumePim := pim args\<rparr>"
  have c: "ea_valid (ea ?ci)" "mode ?ci = XTS" "sized ?ci" "2 * EAGetKeySize (ea ?ci) \<le> length ?k"
    using assms EAGetKeySize_bounds [OF assms(3)] by (auto simp: sized_def)
  obtain b b' d where i: "init_keys P ?k ?ci = Some (ERR_SUCCESS, ?ci\<lparr>ks := b, k2 := d, ks2 := b'\<rparr>)"
    "info_ready P ?k (drop (EAGetKeySize (ea ?ci)) ?k) (?ci\<lparr>ks := b, k2 := d, ks2 := b'\<rparr>)"
    using init_keys_ok [OF assms(1) c] by blast
  let ?r = "?ci\<lparr>ks := b, k2 := d, ks2 := b'\<rparr>"
  have o: "opened_info P p (pim args) e h (?r\<lparr>bVulnerableMasterKey := v\<rparr>)" for v
    using i(2) assms(5,7,8) by (simp add: opened_info_def with_header_def info_ready_def)
  have r: "?r\<lparr>bVulnerableMasterKey := bVulnerableMasterKey ?r\<rparr> = ?r" by simp
  have "open_volume P args p it mem st h ci =
      Some (ERR_SUCCESS, Some (if slice 0 (EAGetKeySize e) ?k = slice (EAGetKeySize e) (EAGetKeySize e) ?k
        then ?r\<lparr>bVulnerableMasterKey := True\<rparr> else ?r), NULL)"
    using assms(2,8) i(1)
    by (simp add: open_volume_def Let_def HEADER_MASTER_KEYDATA_OFFSET_def MASTER_KEYDATA_SIZE_def init_failed_def
        ERR_SUCCESS_def ERR_CIPHER_INIT_FAILURE_def ERR_MODE_INIT_FAILED_def)
  then show ?thesis using o [of True] o [of "bVulnerableMasterKey ?r", unfolded r] by (auto split: if_splits)
qed

text \<open>What reading a header returns, for the password \<open>pw\<close> the keys are derived from.\<close>

definition read_spec :: "read_env \<Rightarrow> read_args \<Rightarrow> bytes \<Rightarrow> bytes \<Rightarrow> read_result option \<Rightarrow> bool" where
  "read_spec env args pw salt r \<longleftrightarrow>
     (case found env args pw salt (prf_order env) of
        None \<Rightarrow> r = Some (not_found_status (if selected_pkcs5_prf args = 0 then argon2_failure env args pw salt (prf_order env) else 0), NULL, NULL)
      | Some (p, e) \<Rightarrow>
          (case candidate_attempt env args pw salt (p, e) of
             Continue \<Rightarrow> False
           | Fail status \<Rightarrow> r = Some (status, NULL, NULL)
           | Opened status h \<Rightarrow> header_valid (recoveryMode env) h \<and>
               h = open_header (prims env) (encryptedHeader args) (snd (prf_key env args pw salt p)) e \<and>
               (\<exists>ci. r = Some (ERR_SUCCESS, Some ci, NULL) \<and> opened_info (prims env) p (pim args) e h ci)))"

text \<open>The password after mixing in the response, in the way of the given version.\<close>

definition read_password :: "int \<Rightarrow> read_args \<Rightarrow> bytes \<Rightarrow> bytes" where
  "read_password version args resp =
     (let (userKey, keyLength) = crypto_loadkey (password_Text args) (password_Length args);
          (userKey, keyLength) =
            (if 0 < length resp then HKFMixResponseIntoPasswordVerSalt version userKey keyLength resp (Some (slice 0 64 (encryptedHeader args)))
             else (userKey, keyLength))
      in take (nat keyLength) userKey)"

abbreviation clamp_pim :: "read_args \<Rightarrow> read_args" where
  "clamp_pim args \<equiv> args\<lparr>pim := if pim args < 0 then 0 else pim args\<rparr>"

lemma length_open_header:
  assumes "primitives_ok P" "length enc = 512" "length dk = 192" "ea_valid e"
  shows "length (open_header P enc dk e) = 512"
proof -
  have l: "32 * length (ea_ciphers e) \<le> length dk"
    using EAGetKeySize_bounds [OF assms(4)] EAGetKeySize_table [OF assms(4)] assms(3) by linarith
  have m: "length (slice 64 448 enc) mod 16 = 0" using assms(2) by simp
  show ?thesis using length_decascade [OF assms(1) ea_ciphers_known [OF assms(4)] l m] assms(2) by (simp add: open_header_def)
qed

lemma found_members:
  assumes "found env args pw salt ps = Some (p, e)"
  shows "p \<in> set ps" "tried args p" "fst (prf_key env args pw salt p) = 0" "ea_valid e"
    "candidate_attempt env args pw salt (p, e) \<noteq> Continue"
proof -
  have "(p, e) \<in> set (candidates env args pw salt ps)" and c: "candidate_attempt env args pw salt (p, e) \<noteq> Continue"
    using assms unfolding found_def find_Some_iff by (metis nth_mem)+
  then show "p \<in> set ps" "tried args p" "fst (prf_key env args pw salt p) = 0" "ea_valid e"
    by (auto simp: candidates_def)
  show "candidate_attempt env args pw salt (p, e) \<noteq> Continue" by (rule c)
qed

lemma read_search:
  fixes args :: read_args
  defines "args' \<equiv> clamp_pim args"
  assumes "search_env env args' (read_password version args resp) (slice 0 64 (encryptedHeader args))"
    "retInfo_given args" "retHeaderCryptoInfo args = NULL"
  shows "read_spec env args' (read_password version args resp) (slice 0 64 (encryptedHeader args))
    (ReadVolumeHeaderWithAbortImpl env args resp version)"
proof -
  let ?pw = "read_password version args resp" and ?salt = "slice 0 64 (encryptedHeader args)" and ?P = "prims env"
  let ?f = "if selected_pkcs5_prf args' = 0 then argon2_failure env args' ?pw ?salt (prf_order env) else 0"
  have n: "retHeaderCryptoInfo args' = NULL" using assms(4) by (simp add: args'_def)
  have i: "ReadVolumeHeaderWithAbortImpl env args resp version = try_prfs env args' ?pw ?salt (prf_order env) 0 0 crypto_open"
    using assms(3,4)
    by (simp add: ReadVolumeHeaderWithAbortImpl_def Let_def read_password_def args'_def HEADER_SALT_OFFSET_def PKCS5_SALT_SIZE_def split_def)
  have f: "(if selected_pkcs5_prf args' = 0 \<and> argon2_failure env args' ?pw ?salt (prf_order env) \<noteq> 0
      then argon2_failure env args' ?pw ?salt (prf_order env) else 0) = ?f" by simp
  note s = try_prfs_search [OF assms(2) subset_refl sized_open, of 0 0, unfolded f, folded i]
  show ?thesis
  proof (cases "found env args' ?pw ?salt (prf_order env)")
    case None
    then show ?thesis using s n by (auto simp: search_result_def read_spec_def read_error_def)
  next
    case (Some pe)
    obtain p e where pe: "pe = (p, e)" by (cases pe) simp
    note f = Some [unfolded pe]
    note m = found_members [OF f]
    let ?dk = "snd (prf_key env args' ?pw ?salt p)"
    have ok: "primitives_ok ?P" "length (encryptedHeader args') = 512" "length ?dk = 192"
      using assms(2) m by (auto simp: search_env_def)
    show ?thesis
    proof (cases "candidate_attempt env args' ?pw ?salt (p, e)")
      case Continue
      then show ?thesis using m(5) by simp
    next
      case (Fail status)
      then show ?thesis using s n f by (auto simp: search_result_def read_spec_def read_error_def)
    next
      case (Opened status h)
      have v: "header_valid (recoveryMode env) h" "h = open_header ?P (encryptedHeader args') ?dk e"
        using Opened by (simp_all add: candidate_attempt_def header_attempt_def check_header_opened)
      obtain it mem ci where r: "ReadVolumeHeaderWithAbortImpl env args resp version = open_volume ?P args' p it mem status h ci"
        and c: "search_stops ?P (recoveryMode env) (encryptedHeader args') ?dk e ci"
        using s f Opened by (auto simp: search_result_def)
      obtain ci0 where ci: "ci = with_header h ci0" "sized ci" "mode ci = XTS" "ea ci = e"
        using c v by (auto simp: search_stops_def)
      have l: "length h = 512" unfolding v(2) by (rule length_open_header [OF ok m(4)])
      show ?thesis unfolding r
        using open_volume_opens [OF ok(1) n m(4) l ci, of p it mem status] f Opened v
        by (auto simp: read_spec_def)
    qed
  qed
qed

section \<open>The two mixes of the hardware factor\<close>

abbreviation no_abort :: "read_env \<Rightarrow> read_env" where
  "no_abort env \<equiv> env\<lparr>userAbort := \<lambda>n. False\<rparr>"

lemma header_attempt_fail:
  "header_attempt P r enc dk e = Fail status \<Longrightarrow> status = ERR_NEW_VERSION_REQUIRED \<or> status = ERR_PARAMETER_INCORRECT"
  by (auto simp: header_attempt_def check_header_def Let_def split: if_splits)

lemma Argon2_error: "f \<noteq> 0 \<Longrightarrow> MapArgon2ResultToVcError f \<noteq> ERR_PASSWORD_WRONG"
  by (simp add: MapArgon2ResultToVcError_def ERR_OUTOFMEMORY_def ERR_PASSWORD_WRONG_def ERR_USER_ABORT_def ERR_KEY_DERIVATION_FAILED_def)

text \<open>A search ends with \<open>ERR_PASSWORD_WRONG\<close> exactly when it finds nothing and no derivation failed.\<close>

definition wrong_password :: "read_env \<Rightarrow> read_args \<Rightarrow> bytes \<Rightarrow> bytes \<Rightarrow> bool" where
  "wrong_password env args pw salt \<longleftrightarrow> found env args pw salt (prf_order env) = None \<and>
     (selected_pkcs5_prf args = 0 \<longrightarrow> argon2_failure env args pw salt (prf_order env) = 0)"

lemma read_spec_wrong_password:
  assumes "read_spec env args pw salt r"
  obtains res where "r = Some res" "fst res = ERR_PASSWORD_WRONG \<longleftrightarrow> wrong_password env args pw salt" "snd (snd res) = NULL"
proof -
  note r = assms [unfolded read_spec_def]
  show thesis
  proof (cases "found env args pw salt (prf_order env)")
    case None
    then show thesis
      using r that Argon2_error by (auto simp: wrong_password_def not_found_status_def)
  next
    case (Some pe)
    obtain p e where "pe = (p, e)" by (cases pe) simp
    then show thesis
      using r that Some header_attempt_fail [of "prims env" "recoveryMode env" "encryptedHeader args" "snd (prf_key env args pw salt p)" e]
      by (auto simp: wrong_password_def candidate_attempt_def ERR_PASSWORD_WRONG_def ERR_SUCCESS_def ERR_NEW_VERSION_REQUIRED_def
          ERR_PARAMETER_INCORRECT_def split: attempt.splits)
  qed
qed

lemma read_mixes:
  fixes args :: read_args and env :: read_env
  defines "args' \<equiv> clamp_pim args" and "env' \<equiv> no_abort env" and "salt \<equiv> slice 0 64 (encryptedHeader args)"
  assumes "HKFComputeActiveResponse (Some salt) (zeros 64) s = ((HKF_OK, resp, rlen), s)"
    "\<And>version. search_env env' args' (read_password version args (take (nat rlen) resp)) salt"
    "retInfo_given args" "retHeaderCryptoInfo args = NULL"
  shows "\<exists>res. ReadVolumeHeader env args s = Some (res, s) \<and>
    read_spec env' args' (read_password (if 0 < rlen \<and> wrong_password env' args' (read_password HKF_MIX_V2 args (take (nat rlen) resp)) salt
        then HKF_MIX_V1 else HKF_MIX_V2) args (take (nat rlen) resp)) salt (Some res)"
proof -
  let ?r = "take (nat rlen) resp"
  let ?w = "wrong_password env' args' (read_password HKF_MIX_V2 args ?r) salt"
  have l: "0 \<le> rlen" using HKFComputeActiveResponse_facts [OF assms(4)] by simp
  have k: "read_spec env' args' (read_password v args ?r) salt (ReadVolumeHeaderWithAbortImpl env' args ?r v)" for v
    unfolding args'_def salt_def
    by (rule read_search) (use assms(5-7) in \<open>simp_all add: args'_def salt_def\<close>)
  obtain r2 where r2: "ReadVolumeHeaderWithAbortImpl env' args ?r HKF_MIX_V2 = Some r2" "fst r2 = ERR_PASSWORD_WRONG \<longleftrightarrow> ?w" "snd (snd r2) = NULL"
    by (rule read_spec_wrong_password [OF k])
  obtain r1 where r1: "ReadVolumeHeaderWithAbortImpl env' args ?r HKF_MIX_V1 = Some r1"
    by (rule read_spec_wrong_password [OF k])
  have a: "args\<lparr>retHeaderCryptoInfo := NULL\<rparr> = args" using assms(7) by simp
  have "ReadVolumeHeader env args s = Some (if 0 < rlen \<and> ?w then r1 else r2, s)"
    using l assms(4) r2 r1 a
    by (cases r2) (auto simp: ReadVolumeHeader_def ReadVolumeHeaderWithAbort_def Let_def salt_def HEADER_SALT_OFFSET_def PKCS5_SALT_SIZE_def
        env'_def [symmetric])
  then show ?thesis using k [of HKF_MIX_V1] k [of HKF_MIX_V2] r1 r2(1) by auto
qed

section \<open>A created header is found\<close>

lemma created_header_valid:
  assumes "length salt = 64" "length keydata = 256" "required_version a \<le> VERSION_NUM" "\<not> sector_size_bad (c_sectorSize a)"
  shows "header_valid recovery (plain_header salt keydata a)"
  using created_header_fields [OF assms(1,2), of a] assms(3,4) by (simp add: header_valid_def VOLUME_HEADER_VERSION_def)

lemma header_attempt_valid:
  "header_valid recovery (open_header P enc dk e) \<Longrightarrow> header_attempt P recovery enc dk e = Opened ERR_SUCCESS (open_header P enc dk e)"
  by (simp add: header_attempt_def check_header_valid)

lemma find_first:
  "x \<in> set xs \<Longrightarrow> P x \<Longrightarrow> \<forall>y\<in>set (takeWhile (\<lambda>y. y \<noteq> x) xs). \<not> P y \<Longrightarrow> find P xs = Some x"
proof (induction xs)
  case (Cons a xs)
  then show ?case by (cases "a = x") auto
qed simp

text \<open>Key derivations succeed and give the number of bytes asked for.\<close>

definition derivations_ok :: "kdf \<Rightarrow> bool" where
  "derivations_ok K \<longleftrightarrow> (\<forall>p pw salt it mem n. \<exists>dk. K p pw salt it mem n = (0, dk) \<and> length dk = n)"

text \<open>The reader uses the same ciphers, derivations and overrides, is given the created header with the password, PIM and boot flag
  it was created with, and tries its PRF.\<close>

definition reads_created :: "create_env \<Rightarrow> create_args \<Rightarrow> bytes \<Rightarrow> read_env \<Rightarrow> read_args \<Rightarrow> bool" where
  "reads_created env a enc renv args \<longleftrightarrow>
     prims renv = ce_prims env \<and> derive_key renv = ce_derive env \<and> overrides renv = ce_overrides env \<and>
     set (prf_order renv) \<subseteq> {FIRST_PRF_ID..LAST_PRF_ID} \<and> c_prf a \<in> set (prf_order renv) \<and>
     encryptedHeader args = enc \<and> c_password a = Some (password_Text args, password_Length args) \<and>
     bBoot args = c_bBoot a \<and> pim args = c_pim a \<and> (selected_pkcs5_prf args = 0 \<or> selected_pkcs5_prf args = c_prf a) \<and>
     retInfo_given args \<and> retHeaderCryptoInfo args = NULL"

text \<open>What the random generator and the caller give.\<close>

definition create_inputs_ok :: "create_env \<Rightarrow> create_args \<Rightarrow> bool" where
  "create_inputs_ok env a \<longleftrightarrow>
     primitives_ok (ce_prims env) \<and> derivations_ok (ce_derive env) \<and> ea_valid (c_ea a) \<and> c_mode a = XTS \<and> required_version a \<le> VERSION_NUM \<and>
     (\<forall>n r. rand_salt env n = Some r \<longrightarrow> length r = n) \<and> (\<forall>n r. rand_master env n = Some r \<longrightarrow> length r = n) \<and>
     (\<forall>k. c_masterKeydata a = Some k \<longrightarrow> length k = 256)"

lemma GetMaxPkcs5OutSize_192: "GetMaxPkcs5OutSize = 192"
proof -
  have m: "EAIsModeSupported e XTS" if "ea_valid e" for e
    using EA_Modes_table [OF that] by (simp add: EAIsModeSupported_def EAGetFirstMode_def Let_def)
  have u: "[1..15] = [1, 2, 3, 4, 5, 6, 7, 8, 9, 10, 11, 12, 13, 14, 15 :: int]" by (simp add: upto_rec1)
  have "EAGetLargestKeyForMode XTS = 96"
    unfolding EAGetLargestKeyForMode_def for_ea_walk u
    by (simp add: m [simplified] EAGetKeySize_table ea_ciphers_def EA_Ciphers_table)
  then show ?thesis by (simp add: GetMaxPkcs5OutSize_def)
qed

lemma derivations_ok_key:
  assumes "derivations_ok (derive_key env)" "FIRST_PRF_ID \<le> p" "p \<le> LAST_PRF_ID"
  shows "fst (prf_key env args pw salt p) = 0 \<and> length (snd (prf_key env args pw salt p)) = 192"
proof -
  obtain it mem where "derive_header_key (derive_key env) p pw salt it mem = Some (prf_key env args pw salt p)"
    by (rule prf_key_derives [OF assms(2,3)])
  then show ?thesis
    using assms(1) by (auto simp: derive_header_key_def derivations_ok_def GetMaxPkcs5OutSize_192 ARGON2_HEADER_KEYDATA_SIZE_def BALLOON_HEADER_KEYDATA_SIZE_def
        split: if_splits) (metis fst_conv snd_conv)+
qed

lemma created_master_keys:
  assumes "create_inputs_ok env a" "create_master_keys env a = Inr keydata"
  shows "length keydata = 256"
proof -
  have n: "EAGetKeySize (c_ea a) * 2 \<le> 256" using assms(1) EAGetKeySize_bounds [of "c_ea a"] by (simp add: create_inputs_ok_def)
  show ?thesis
  proof (cases "c_masterKeydata a")
    case None
    then obtain r where "rand_master env (EAGetKeySize (c_ea a) * 2) = Some r" "keydata = store_at 0 r (zeros 256)"
      using assms(2) by (auto simp: create_master_keys_def Let_def MASTER_KEYDATA_SIZE_def split: option.splits if_splits)
    then show ?thesis using assms(1) n by (auto simp: create_inputs_ok_def length_store_at)
  next
    case (Some k)
    then show ?thesis using assms by (auto simp: create_master_keys_def Let_def MASTER_KEYDATA_SIZE_def create_inputs_ok_def)
  qed
qed

lemma created_header_read:
  fixes args :: read_args and renv :: read_env and env :: create_env and a :: create_args
  defines "args' \<equiv> clamp_pim args" and "renv' \<equiv> no_abort renv"
  assumes "CreateVolumeHeaderInMemory env a h s = Some ((ERR_SUCCESS, enc, Some ci), s')"
    "create_inputs_ok env a" "reads_created env a enc renv args"
    "\<forall>c\<in>set (takeWhile (\<lambda>c. c \<noteq> (c_prf a, c_ea a)) (candidates renv' args'
        (mixed_password (password_Text args) (password_Length args) (take 64 enc) s) (take 64 enc) (prf_order renv))).
      candidate_attempt renv' args' (mixed_password (password_Text args) (password_Length args) (take 64 enc) s) (take 64 enc) c = Continue"
  obtains ci' keydata it mem where "ReadVolumeHeader renv args s = Some ((ERR_SUCCESS, Some ci', NULL), s)"
    "opened_info (ce_prims env) (c_prf a) (pim args') (c_ea a) (plain_header (take 64 enc) keydata a) ci'" "length keydata = 256"
    "length (take 64 enc) = 64" "created_info a it mem keydata ci" "s' = s"
    "info_ready (ce_prims env) keydata (drop (EAGetKeySize (c_ea a)) keydata) ci" "length enc = 512"
proof -
  let ?P = "ce_prims env" and ?text = "password_Text args" and ?len = "password_Length args"
  have ok: "primitives_ok ?P" "derivations_ok (ce_derive env)" "ea_valid (c_ea a)" "c_mode a = XTS" "required_version a \<le> VERSION_NUM"
    using assms(4) by (auto simp: create_inputs_ok_def)
  have rd: "prims renv = ?P" "derive_key renv = ce_derive env" "overrides renv = ce_overrides env"
    "set (prf_order renv) \<subseteq> {FIRST_PRF_ID..LAST_PRF_ID}" "c_prf a \<in> set (prf_order renv)" "encryptedHeader args = enc"
    "c_password a = Some (?text, ?len)" "bBoot args = c_bBoot a" "pim args = c_pim a"
    "selected_pkcs5_prf args = 0 \<or> selected_pkcs5_prf args = c_prf a" "retInfo_given args" "retHeaderCryptoInfo args = NULL"
    using assms(5) by (auto simp: reads_created_def)
  obtain keydata it mem salt dk where c: "create_master_keys env a = Inr keydata"
    "get_pkcs5_iteration_count (c_prf a) (if c_pim a < 0 then 0 else c_pim a) (c_bBoot a) (ce_overrides env) = Some (it, mem)"
    "rand_salt env 64 = Some salt" "\<not> (c_bBoot a \<and> c_prf a = ARGON2)" "s' = s"
    "fst (fst (HKFComputeActiveResponse (Some salt) (zeros 64) s)) = HKF_OK"
    "derive_header_key (ce_derive env) (c_prf a) (mixed_password ?text ?len salt s) salt it mem = Some (0, dk)"
    "write_header env a it mem keydata salt dk = Some (ERR_SUCCESS, enc, Some ci)"
    by (rule create_success [OF assms(3) rd(7)])
  have salt: "length salt = 64" using c(3) assms(4) by (auto simp: create_inputs_ok_def)
  have keydata: "length keydata = 256" by (rule created_master_keys [OF assms(4) c(1)])
  have p: "FIRST_PRF_ID \<le> c_prf a" "c_prf a \<le> LAST_PRF_ID" using rd(4,5) by auto
  have k: "prf_key renv' args' (mixed_password ?text ?len salt s) salt (c_prf a) = (0, dk)"
    using c(2,7) rd(2,3,8,9) by (auto simp: prf_key_def renv'_def args'_def split: if_splits)
  have dk: "length dk = 192" using derivations_ok_key [OF _ p, of renv' args' "mixed_password ?text ?len salt s" salt] k ok(2) rd(2)
    by (simp add: renv'_def)
  have sb: "\<not> sector_size_bad (c_sectorSize a)" using c(8) by (auto simp: write_header_def Let_def)
  obtain ci0 where w: "write_header env a it mem keydata salt dk = Some (ERR_SUCCESS, sealed_header ?P dk salt keydata a, Some ci0)"
    "created_info a it mem keydata ci0" "info_ready ?P keydata (drop (EAGetKeySize (c_ea a)) keydata) ci0"
    using write_header_succeeds [OF ok(1,3,4) sb dk salt keydata] by blast
  have e: "enc = sealed_header ?P dk salt keydata a" "ci = ci0" using c(8) w(1) by simp_all
  note se = sealed_header_opens [OF ok(1,3) dk salt keydata, folded e(1)]
  have sl: "slice 0 64 enc = salt" using se(2) by (simp add: slice_def)
  obtain resp rlen where r: "HKFComputeActiveResponse (Some salt) (zeros 64) s = ((HKF_OK, resp, rlen), s)"
    using c(6) HKFComputeActiveResponse_facts(1) by (metis prod.collapse)
  have rl: "0 \<le> rlen" "resp \<noteq> []" using HKFComputeActiveResponse_facts(2) [OF r] by simp_all
  have pw: "read_password HKF_MIX_V2 args (take (nat rlen) resp) = mixed_password ?text ?len salt s"
    using rl r sl rd(6) by (auto simp: read_password_def mixed_password_def split: prod.split)
  have env: "search_env renv' args' x salt" for x
    unfolding search_env_def
    using derivations_ok_key [of renv' _ args' x salt] ok(1,2) rd(1,2,4,6) se(1) by (auto simp: renv'_def args'_def)
  have att: "candidate_attempt renv' args' (mixed_password ?text ?len salt s) salt (c_prf a, c_ea a) = Opened ERR_SUCCESS (plain_header salt keydata a)"
    using header_attempt_valid [of "recoveryMode renv" ?P enc dk "c_ea a"] created_header_valid [OF salt keydata ok(5) sb] se(3) k rd(1,6)
    by (simp add: candidate_attempt_def renv'_def args'_def)
  have mem: "(c_prf a, c_ea a) \<in> set (candidates renv' args' (mixed_password ?text ?len salt s) salt (prf_order renv))"
    using rd(5,8,10) ok(3) k c(4) by (auto simp: candidates_def tried_def args'_def)
  have f: "found renv' args' (mixed_password ?text ?len salt s) salt (prf_order renv') = Some (c_prf a, c_ea a)"
    unfolding found_def by (rule find_first) (use mem att assms(6) se(2) in \<open>auto simp: renv'_def\<close>)
  then have v: "\<not> wrong_password renv' args' (mixed_password ?text ?len salt s) salt" by (simp add: wrong_password_def)
  have "\<exists>res. ReadVolumeHeader renv args s = Some (res, s) \<and> read_spec renv' args' (mixed_password ?text ?len salt s) salt (Some res)"
    using read_mixes [of args s resp rlen renv, folded args'_def renv'_def, unfolded rd(6) sl, OF r env rd(11,12)] v pw by simp
  then obtain ci' where "ReadVolumeHeader renv args s = Some ((ERR_SUCCESS, Some ci', NULL), s)"
    "opened_info ?P (c_prf a) (pim args') (c_ea a) (plain_header salt keydata a) ci'"
    using f att rd(1) by (auto simp: read_spec_def renv'_def)
  with that se(1,2) salt keydata w(2,3) e(2) c(5) show thesis by simp
qed

section \<open>Success\<close>

lemma read_spec_success:
  assumes "read_spec env args pw salt (Some (ERR_SUCCESS, info, rest))"
  shows "\<exists>p e ci. info = Some ci \<and> p \<in> set (prf_order env) \<and> tried args p \<and> ea_valid e \<and>
    header_valid (recoveryMode env) (open_header (prims env) (encryptedHeader args) (snd (prf_key env args pw salt p)) e) \<and>
    opened_info (prims env) p (pim args) e (open_header (prims env) (encryptedHeader args) (snd (prf_key env args pw salt p)) e) ci"
proof -
  note r = assms [unfolded read_spec_def]
  have nf: "not_found_status f \<noteq> ERR_SUCCESS" for f
    by (simp add: not_found_status_def MapArgon2ResultToVcError_def ERR_SUCCESS_def ERR_OUTOFMEMORY_def ERR_PASSWORD_WRONG_def
        ERR_USER_ABORT_def ERR_KEY_DERIVATION_FAILED_def)
  obtain p e where f: "found env args pw salt (prf_order env) = Some (p, e)"
    using r nf by (auto split: option.splits) (metis nf)
  let ?dk = "snd (prf_key env args pw salt p)"
  have "status \<noteq> ERR_SUCCESS" if "candidate_attempt env args pw salt (p, e) = Fail status" for status
    using header_attempt_fail [of "prims env" "recoveryMode env" "encryptedHeader args" ?dk e status] that
    by (auto simp: candidate_attempt_def ERR_SUCCESS_def ERR_NEW_VERSION_REQUIRED_def ERR_PARAMETER_INCORRECT_def)
  then have "\<exists>ci. info = Some ci \<and> header_valid (recoveryMode env) (open_header (prims env) (encryptedHeader args) ?dk e) \<and>
      opened_info (prims env) p (pim args) e (open_header (prims env) (encryptedHeader args) ?dk e) ci"
    using r f by (auto split: attempt.splits)
  with found_members [OF f] show ?thesis by blast
qed

lemma opened_info_created:
  assumes "opened_info P p m e (plain_header salt keydata a) ci" "length salt = 64" "length keydata = 256"
  shows "ea ci = e" "pkcs5 ci = p" "VolumeSize ci = c_volumeSize a" "hiddenVolumeSize ci = c_hiddenVolumeSize a"
    "EncryptedAreaStart ci = c_encryptedAreaStart a" "EncryptedAreaLength ci = c_encryptedAreaLength a"
    "HeaderFlags ci = c_headerFlags a" "SectorSize ci = c_sectorSize a" "master_keydata ci = keydata"
    "info_ready P keydata (drop (EAGetKeySize e) keydata) ci"
  using assms(1) created_header_fields [OF assms(2,3), of a] by (simp_all add: opened_info_def VOLUME_HEADER_VERSION_def)

lemma ready_decrypts:
  assumes "primitives_ok P" "info_ready P key key2 ci" "info_ready P key key2 ci'" "ea ci' = ea ci" "n * ENCRYPTION_DATA_UNIT_SIZE \<le> length buf"
  shows "\<exists>c. EncryptDataUnitsCurrentThread P buf unit n ci = Some c \<and> DecryptDataUnitsCurrentThread P c unit n ci' = Some buf"
  using units_cascade(1) [OF assms(1,2,5)] units_cascade(2) [OF assms(1,3,5)] assms(4) by simp

end
