(* ===== verification/Polyval.thy ===== *)
theory Polyval
  imports Prelude
begin

text \<open>
  The universal hash of HCTR2, \<open>gf_dot\<close> and \<open>polyval_buf\<close> of \<open>src/src/Crypto/Hctr2.c\<close>. The code multiplies without
  carries into four 64-bit limbs and then divides by \<open>x\<close> 128 times modulo
  \<open>P = x^128 + x^127 + x^126 + x^121 + 1\<close>. The specification multiplies modulo \<open>P\<close> by Horner's rule.
\<close>

section \<open>The code\<close>

definition dot_step :: "u64 list \<Rightarrow> u64 list \<Rightarrow> nat \<Rightarrow> u64 list \<Rightarrow> u64 list" where
  "dot_step a b i c =
     (let m = 0 - (drop_bit (i mod 64) (a ! (i div 64)) AND 1);
          w = i div 64; s = i mod 64;
          c = c[w := c ! w XOR (push_bit s (b ! 0) AND m)];
          c = c[w + 1 := c ! (w + 1) XOR (((if s \<noteq> 0 then drop_bit (64 - s) (b ! 0) else 0) XOR push_bit s (b ! 1)) AND m)];
          c = c[w + 2 := c ! (w + 2) XOR ((if s \<noteq> 0 then drop_bit (64 - s) (b ! 1) else 0) AND m)]
      in c)"

definition halve_step :: "u64 list \<Rightarrow> u64 list" where
  "halve_step c =
     (let r = 0 - (c ! 0 AND 1);
          c = c[0 := c ! 0 XOR (1 AND r)];
          c = c[1 := c ! 1 XOR ((push_bit 57 1 OR push_bit 62 1 OR push_bit 63 1) AND r)];
          c = c[2 := c ! 2 XOR (1 AND r)];
          c = fold (\<lambda>limb c. c[limb := drop_bit 1 (c ! limb) OR push_bit 63 (c ! (limb + 1))]) [0..<3] c
      in c[3 := drop_bit 1 (c ! 3)])"

definition gf_dot :: "u64 list \<Rightarrow> u64 list \<Rightarrow> u64 list" where
  "gf_dot a b =
     (let c = fold (dot_step a b) [0..<128] (replicate 4 0);
          c = fold (\<lambda>i. halve_step) [0..<128] c
      in [c ! 0, c ! 1])"

definition ld128 :: "bytes \<Rightarrow> u64 list" where
  "ld128 p = [le_word (take 8 p), le_word (take 8 (drop 8 p))]"

definition st128 :: "u64 list \<Rightarrow> bytes" where
  "st128 w = le_bytes 8 (w ! 0) @ le_bytes 8 (w ! 1)"

definition polyval_buf :: "bytes \<Rightarrow> bytes \<Rightarrow> bytes" where
  "polyval_buf hbar m =
     (let h = ld128 hbar;
          s = fold (\<lambda>i s. let x = ld128 (drop (16 * i) m);
                               s = [s ! 0 XOR x ! 0, s ! 1 XOR x ! 1]
                           in gf_dot s h) [0..<(length m + 15) div 16] [0, 0]
      in st128 s)"

section \<open>Words as polynomials\<close>

definition xmono :: "nat \<Rightarrow> 'a::len word" where
  "xmono i = push_bit i 1"

definition shl1 :: "'a::len word \<Rightarrow> 'a word" where
  "shl1 c = push_bit 1 c"

lemma bit_xmono: "bit (xmono i :: 'a::len word) k \<longleftrightarrow> k = i \<and> i < LENGTH('a)"
  by (auto simp: xmono_def bit_simps)

lemma bit_shl1: "bit (shl1 c :: 'a::len word) k \<longleftrightarrow> 0 < k \<and> k < LENGTH('a) \<and> bit c (k - 1)"
  unfolding shl1_def bit_push_bit_iff possible_bit_word by auto

lemma shl1_xmono: "shl1 (xmono i) = (xmono (Suc i) :: 'a::len word)"
  by (rule bit_word_eqI) (auto simp: bit_shl1 bit_xmono)

lemma shl1_xor: "shl1 (x XOR y) = shl1 x XOR shl1 y"
  by (simp add: shl1_def push_bit_xor)

section \<open>Sums\<close>

primrec xsum :: "(nat \<Rightarrow> 'a::len word) \<Rightarrow> nat \<Rightarrow> 'a word" where
  "xsum f 0 = 0"
| "xsum f (Suc n) = xsum f n XOR f n"

lemma xsum_xor: "xsum (\<lambda>i. f i XOR g i) n = xsum f n XOR xsum g n"
  by (induction n) (simp_all add: ac_simps)

lemma xsum_cong: "(\<And>i. i < n \<Longrightarrow> f i = g i) \<Longrightarrow> xsum f n = xsum g n"
  by (induction n) simp_all

lemma xsum_zero: "(\<And>i. i < n \<Longrightarrow> f i = 0) \<Longrightarrow> xsum f n = 0"
  by (induction n) simp_all

lemma xsum_linear: "(\<And>x y. L (x XOR y) = L x XOR L y) \<Longrightarrow> L 0 = 0 \<Longrightarrow> L (xsum f n) = xsum (\<lambda>i. L (f i)) n"
  by (induction n) simp_all

lemma xsum_shift: "xsum f (Suc n) = f 0 XOR xsum (\<lambda>i. f (Suc i)) n"
  by (induction n) (simp_all add: ac_simps)

lemma xsum_bits: "xsum (\<lambda>i. if bit x i then xmono i else 0) LENGTH('a::len) = (x :: 'a word)"
proof -
  have "xsum (\<lambda>i. if bit x i then xmono i else 0) m = take_bit m x" for m
  proof (induction m)
    case (Suc m)
    have "take_bit m x XOR (if bit x m then xmono m else 0) = take_bit (Suc m) x"
      by (rule bit_word_eqI) (auto simp: bit_simps bit_xmono less_Suc_eq)
    then show ?case using Suc by simp
  qed simp
  then show ?thesis by simp
qed

section \<open>The field\<close>

type_synonym u128w = "128 word"
type_synonym u256w = "256 word"

definition PV_low :: u128w where
  "PV_low = xmono 127 XOR (xmono 126 XOR (xmono 121 XOR xmono 0))"

definition pv_x :: "u128w \<Rightarrow> u128w" where
  "pv_x y = shl1 y XOR (if bit y 127 then PV_low else 0)"

text \<open>The product modulo \<open>P\<close>: the sum of the multiples \<open>x^i * b\<close> over the bits \<open>i\<close> of \<open>a\<close>.\<close>

definition pv_mult :: "u128w \<Rightarrow> u128w \<Rightarrow> u128w" where
  "pv_mult a b = xsum (\<lambda>i. if bit a i then (pv_x ^^ i) b else 0) 128"

lemma pv_x_xor: "pv_x (y XOR z) = pv_x y XOR pv_x z"
  by (auto simp: pv_x_def shl1_xor bit_xor_iff ac_simps)

lemma pv_x_0 [simp]: "pv_x 0 = 0"
  by (simp add: pv_x_def shl1_def)

lemma pv_pow_0 [simp]: "(pv_x ^^ i) 0 = 0"
  by (induction i) simp_all

lemma pv_pow_xor: "(pv_x ^^ i) (y XOR z) = (pv_x ^^ i) y XOR (pv_x ^^ i) z"
  by (induction i) (simp_all add: pv_x_xor)

lemma pv_pow_xmono: "i < 128 \<Longrightarrow> (pv_x ^^ i) (xmono 0) = xmono i"
  by (induction i) (simp_all add: pv_x_def bit_xmono shl1_xmono)

section \<open>Residues of 256-bit polynomials\<close>

definition residue :: "u256w \<Rightarrow> u128w" where
  "residue c = xsum (\<lambda>i. if bit c i then (pv_x ^^ i) (xmono 0) else 0) 256"

lemma residue_xor: "residue (c XOR d) = residue c XOR residue d"
  unfolding residue_def xsum_xor [symmetric] by (rule xsum_cong) (simp add: bit_xor_iff)

lemma residue_0 [simp]: "residue 0 = 0"
  by (simp add: residue_def xsum_zero)

lemma residue_small: "residue (ucast y) = y"
proof -
  have "xsum (\<lambda>i. if bit (ucast y :: u256w) i then (pv_x ^^ i) (xmono 0) else 0) (128 + m) = y" for m
  proof (induction m)
    case 0
    have "xsum (\<lambda>i. if bit (ucast y :: u256w) i then (pv_x ^^ i) (xmono 0) else 0) 128 =
        xsum (\<lambda>i. if bit y i then xmono i else 0) LENGTH(128)"
      by (simp del: xsum.simps, rule xsum_cong) (simp add: bit_simps pv_pow_xmono)
    then show ?case by (simp only: add_0_right xsum_bits)
  next
    case (Suc m)
    have "\<not> bit y (128 + m)" using bit_imp_le_length [of y "128 + m"] by auto
    then show ?case unfolding add_Suc_right xsum.simps Suc.IH by (simp add: bit_ucast_iff)
  qed
  from this [of 128] show ?thesis by (simp add: residue_def)
qed

lemma residue_shift: "\<not> bit c 255 \<Longrightarrow> residue (shl1 c) = pv_x (residue c)"
proof -
  assume c: "\<not> bit c 255"
  have n: "256 = Suc 255" by simp
  have "residue (shl1 c) = xsum (\<lambda>i. if bit c i then (pv_x ^^ Suc i) (xmono 0) else 0) 255"
    unfolding residue_def n xsum_shift by (simp add: bit_shl1) (rule xsum_cong, simp add: bit_shl1)
  also have "\<dots> = xsum (\<lambda>i. pv_x (if bit c i then (pv_x ^^ i) (xmono 0) else 0)) 255"
    by (rule xsum_cong) simp
  also have "\<dots> = xsum (\<lambda>i. pv_x (if bit c i then (pv_x ^^ i) (xmono 0) else 0)) 256"
    using c by (simp only: n xsum.simps if_False pv_x_0 xor.right_neutral)
  finally show ?thesis unfolding residue_def by (simp add: xsum_linear [of pv_x] pv_x_xor)
qed

definition PV :: u256w where
  "PV = xmono 128 XOR (xmono 127 XOR (xmono 126 XOR (xmono 121 XOR xmono 0)))"

lemma residue_xmono: "i < 256 \<Longrightarrow> residue (xmono i) = (pv_x ^^ i) (xmono 0)"
proof (induction i)
  case 0
  have "xmono 0 = (ucast (xmono 0 :: u128w) :: u256w)" by (rule bit_word_eqI) (simp add: bit_xmono bit_simps)
  then show ?case by (simp add: residue_small)
next
  case (Suc i)
  then have "\<not> bit (xmono i :: u256w) 255" by (simp add: bit_xmono)
  from residue_shift [OF this] Suc show ?case by (simp add: shl1_xmono)
qed

lemma residue_PV: "residue PV = 0"
proof -
  have n: "128 = Suc 127" by simp
  have "(pv_x ^^ 128) (xmono 0) = pv_x (xmono 127)" unfolding n funpow.simps comp_def by (subst pv_pow_xmono) simp_all
  also have "\<dots> = shl1 (xmono 127) XOR PV_low" by (simp add: pv_x_def bit_xmono)
  also have "shl1 (xmono 127 :: u128w) = 0" by (rule bit_word_eqI) (auto simp: bit_shl1 bit_xmono)
  finally have "residue (xmono 128) = PV_low" by (simp add: residue_xmono)
  then show ?thesis using residue_xmono [of 0]
    by (simp add: PV_def residue_xor residue_xmono pv_pow_xmono PV_low_def)
qed

section \<open>The limbs as one polynomial\<close>

definition limbs :: "u64 list \<Rightarrow> u256w" where
  "limbs c = ucast (c ! 0) OR (push_bit 64 (ucast (c ! 1)) OR (push_bit 128 (ucast (c ! 2)) OR push_bit 192 (ucast (c ! 3))))"

lemma bit_u64: "bit (x :: u64) i \<Longrightarrow> i < 64"
  using bit_imp_le_length [of x i] by simp

lemma bit_limbs: "q < 4 \<Longrightarrow> r < 64 \<Longrightarrow> bit (limbs c) (64 * q + r) = bit (c ! q) r"
proof -
  assume r: "r < 64" and "q < 4"
  then have "q = 0 \<or> q = 1 \<or> q = 2 \<or> q = 3" by linarith
  then show ?thesis
    unfolding limbs_def using r bit_u64 [of "c ! 0" "64 + r"] bit_u64 [of "c ! 0" "128 + r"] bit_u64 [of "c ! 0" "192 + r"]
      bit_u64 [of "c ! 1" "64 + r"] bit_u64 [of "c ! 1" "128 + r"] bit_u64 [of "c ! 2" "64 + r"]
    by (elim disjE) (auto simp: bit_simps)
qed

lemma u256_eqI:
  assumes "\<And>q r. q < 4 \<Longrightarrow> r < 64 \<Longrightarrow> bit x (64 * q + r) = bit (y :: u256w) (64 * q + r)"
  shows "x = y"
proof (rule bit_word_eqI)
  fix n assume "n < LENGTH(256)"
  then have "n div 64 < 4" by (simp add: less_mult_imp_div_less)
  from assms [OF this, of "n mod 64"] show "bit x n = bit y n" by simp
qed

lemma limbs_xor: "length c = 4 \<Longrightarrow> length d = 4 \<Longrightarrow> limbs (map2 (XOR) c d) = limbs c XOR limbs d"
  by (rule u256_eqI) (simp add: bit_limbs bit_xor_iff)

definition pair :: "u64 list \<Rightarrow> u128w" where
  "pair b = ucast (b ! 0) OR push_bit 64 (ucast (b ! 1))"

lemma bit_pair: "bit (pair b) n \<longleftrightarrow> (if n < 64 then bit (b ! 0) n else bit (b ! 1) (n - 64))"
  using bit_u64 [of "b ! 0" n] bit_u64 [of "b ! 1" "n - 64"] by (auto simp: pair_def bit_simps)

lemma and_mask: "(0 - (drop_bit s x AND 1 :: u64)) = (if bit x s then - 1 else 0)"
  by (simp add: and_one_eq bit_iff_odd_drop_bit mod_2_eq_odd)

lemma length_dot_step [simp]: "length (dot_step a b i c) = length c"
  by (simp add: dot_step_def Let_def)

definition shifted_pair :: "nat \<Rightarrow> u64 list \<Rightarrow> u64 list" where
  "shifted_pair s b = [push_bit s (b ! 0), (if s \<noteq> 0 then drop_bit (64 - s) (b ! 0) else 0) XOR push_bit s (b ! 1),
     (if s \<noteq> 0 then drop_bit (64 - s) (b ! 1) else 0)]"

lemma not_bit_u64: "\<not> bit (x :: u64) (64 + n)"
  using bit_u64 by fastforce

lemma four_cases: "q < 4 \<Longrightarrow> q = 0 \<or> q = 1 \<or> q = 2 \<or> q = (3 :: nat)"
  by linarith

lemma limbs_up: "limbs [0, d0, d1, d2] = push_bit 64 (limbs [d0, d1, d2, 0])"
proof (rule u256_eqI)
  fix q r :: nat assume qr: "q < 4" "r < 64"
  show "bit (limbs [0, d0, d1, d2]) (64 * q + r) = bit (push_bit 64 (limbs [d0, d1, d2, 0])) (64 * q + r)"
  proof (cases q)
    case 0
    then show ?thesis using qr unfolding bit_limbs [OF qr] by (simp add: bit_push_bit_iff)
  next
    case (Suc p)
    then have "bit (push_bit 64 (limbs [d0, d1, d2, 0])) (64 * q + r) = bit (limbs [d0, d1, d2, 0]) (64 * p + r)"
      using qr by (simp add: bit_push_bit_iff)
    also have "\<dots> = bit ([d0, d1, d2, 0] ! p) r" by (rule bit_limbs) (use Suc qr in simp_all)
    finally show ?thesis unfolding bit_limbs [OF qr] using Suc four_cases [OF qr(1)] by auto
  qed
qed

lemma limbs_shifted_pair: "s < 64 \<Longrightarrow> limbs (shifted_pair s b @ [0]) = push_bit s (ucast (pair b))"
proof (rule u256_eqI)
  fix q r :: nat assume s: "s < 64" and qr: "q < 4" "r < 64"
  have rhs: "bit (push_bit s (ucast (pair b) :: u256w)) (64 * q + r) = (s \<le> 64 * q + r \<and> bit (pair b) (64 * q + r - s))"
  proof -
    have "64 * q + r < 256" using qr by linarith
    then show ?thesis using bit_imp_le_length [of "pair b" "64 * q + r - s"] by (auto simp: bit_push_bit_iff bit_ucast_iff)
  qed
  have lhs: "bit (limbs (shifted_pair s b @ [0])) (64 * q + r) = bit ((shifted_pair s b @ [0]) ! q) r"
    by (rule bit_limbs [OF qr])
  consider (le) d where "r = s + d" | (less) d where "s = r + Suc d"
    using le_Suc_ex less_imp_Suc_add by (metis add_Suc_right not_le)
  then show "bit (limbs (shifted_pair s b @ [0])) (64 * q + r) = bit (push_bit s (ucast (pair b) :: u256w)) (64 * q + r)"
  proof cases
    case le
    have "bit (pair b) (64 * q + r - s) = bit (pair b) (64 * q + d)" using le by simp
    moreover have "r + 64 - s = 64 + d" using le by simp
    ultimately show ?thesis
      unfolding lhs rhs using four_cases [OF qr(1)] s qr le not_bit_u64 [of "b ! 0" d] not_bit_u64 [of "b ! 1" d] not_bit_u64 [of "b ! 1" "64 + d"]
      by (elim disjE) (auto simp: shifted_pair_def bit_simps bit_pair)
  next
    case less
    have d: "64 - s + r = 63 - d" "64 + r - s = 63 - d" "128 + r - s = 127 - d" using less s by simp_all
    have "bit b1 (192 + r - s - 64) = False" for b1 :: u64
      using not_bit_u64 [of b1 "63 - d"] less s by (simp add: d)
    then show ?thesis
      unfolding lhs rhs using four_cases [OF qr(1)] s qr less
      by (elim disjE) (auto simp: shifted_pair_def bit_simps bit_pair d bit_0)
  qed
qed

lemma dot_step_limbs:
  assumes "length c = 4" "i < 128"
  shows "limbs (dot_step a b i c) = limbs c XOR (if bit (pair a) i then push_bit i (ucast (pair b)) else 0)"
proof (cases "bit (pair a) i")
  case False
  have "\<not> bit (a ! (i div 64)) (i mod 64)"
    using False assms(2) by (cases "i < 64") (auto simp: bit_pair div_if le_mod_geq)
  then have m: "(0 - (drop_bit (i mod 64) (a ! (i div 64)) AND 1 :: u64)) = 0" unfolding and_mask by simp
  show ?thesis unfolding dot_step_def Let_def m using False by simp
next
  case True
  have "bit (a ! (i div 64)) (i mod 64)"
    using True assms(2) by (cases "i < 64") (auto simp: bit_pair div_if le_mod_geq)
  then have m: "- (drop_bit (i mod 64) (a ! (i div 64)) AND 1 :: u64) = - 1" using and_mask [of "i mod 64" "a ! (i div 64)"] by simp
  define w s where "w = i div 64" and "s = i mod 64"
  have i: "i = 64 * w + s" "s < 64" "w = 0 \<or> w = 1" using assms(2) by (auto simp: w_def s_def less_mult_imp_div_less)
  obtain c0 c1 c2 c3 where c: "c = [c0, c1, c2, c3]" using assms(1) by (auto simp: length_Suc_conv numeral_eq_Suc)
  show ?thesis
    using i(3)
  proof
    assume w: "w = 0"
    have "dot_step a b i c = map2 (XOR) c (shifted_pair s b @ [0])"
      unfolding dot_step_def Let_def diff_0 m unfolding w_def [symmetric] s_def [symmetric] w by (simp add: c shifted_pair_def)
    then show ?thesis
      using True limbs_xor [of c "shifted_pair s b @ [0]"] limbs_shifted_pair [OF i(2), of b] i(1) w by (simp add: c shifted_pair_def)
  next
    assume w: "w = 1"
    have "dot_step a b i c = map2 (XOR) c (0 # shifted_pair s b)"
      unfolding dot_step_def Let_def diff_0 m unfolding w_def [symmetric] s_def [symmetric] w by (simp add: c shifted_pair_def)
    moreover have "limbs (0 # shifted_pair s b) = push_bit i (ucast (pair b))"
      using limbs_up [of "shifted_pair s b ! 0" "shifted_pair s b ! 1" "shifted_pair s b ! 2"] limbs_shifted_pair [OF i(2), of b] i(1) w
      by (simp add: shifted_pair_def push_bit_push_bit)
    ultimately show ?thesis
      using True limbs_xor [of c "0 # shifted_pair s b"] by (simp add: c shifted_pair_def)
  qed
qed

lemma length_halve_step [simp]: "length c = 4 \<Longrightarrow> length (halve_step c) = 4"
  by (simp add: halve_step_def Let_def upt_rec)

lemma bit_PV: "bit PV n \<longleftrightarrow> n \<in> {0, 121, 126, 127, 128}"
  by (auto simp: PV_def bit_xor_iff bit_xmono)

lemma bit_taps: "bit (13979173243358019584 :: u64) r \<longleftrightarrow> r \<in> {57, 62, 63}"
proof -
  have "(13979173243358019584 :: u64) = xmono 57 OR (xmono 62 OR xmono 63)" by (simp add: xmono_def)
  then have "bit (13979173243358019584 :: u64) r = bit (xmono 57 OR (xmono 62 OR xmono 63) :: u64) r" by (rule arg_cong)
  also have "\<dots> \<longleftrightarrow> r \<in> {57, 62, 63}" by (auto simp: bit_or_iff bit_xmono)
  finally show ?thesis .
qed

lemma halve_step_limbs:
  assumes "length c = 4"
  shows "limbs (halve_step c) = drop_bit 1 (limbs c XOR (if bit (limbs c) 0 then PV else 0))"
proof -
  obtain c0 c1 c2 c3 where c: "c = [c0, c1, c2, c3]"
    using assms by (auto simp: length_Suc_conv numeral_eq_Suc)
  have b0: "bit (limbs c) 0 = bit c0 0" using bit_limbs [of 0 0 c] by (simp add: c)
  have m: "- (c0 AND 1) = (if bit c0 0 then - 1 else 0)" using and_mask [of 0 c0] by simp
  have three: "[0..<3] = [0, 1, 2 :: nat]" by (simp add: upt_rec)
  define e where "e = (if bit c0 0 then [c0 XOR 1, c1 XOR (push_bit 57 1 OR push_bit 62 1 OR push_bit 63 1), c2 XOR 1, c3] else c)"
  have h: "halve_step c = [drop_bit 1 (e ! 0) OR push_bit 63 (e ! 1), drop_bit 1 (e ! 1) OR push_bit 63 (e ! 2),
      drop_bit 1 (e ! 2) OR push_bit 63 (e ! 3), drop_bit 1 (e ! 3)]"
    unfolding halve_step_def Let_def three by (cases "bit c0 0") (simp_all add: m e_def c)
  have e: "limbs e = limbs c XOR (if bit (limbs c) 0 then PV else 0)"
  proof (cases "bit c0 0")
    case True
    show ?thesis
    proof (rule u256_eqI)
      fix q r :: nat assume qr: "q < 4" "r < 64"
      then have "q = 0 \<or> q = 1 \<or> q = 2 \<or> q = 3" by linarith
      then show "bit (limbs e) (64 * q + r) = bit (limbs c XOR (if bit (limbs c) 0 then PV else 0)) (64 * q + r)"
        using qr(2) True bit_taps [of r] unfolding b0 bit_xor_iff bit_limbs [OF qr]
        by (elim disjE) (auto simp: bit_PV e_def c bit_simps)
    qed
  next
    case False
    then show ?thesis unfolding b0 by (simp add: e_def)
  qed
  show ?thesis
    unfolding e [symmetric]
  proof (rule u256_eqI)
    fix q r :: nat assume qr: "q < 4" "r < 64"
    have q: "q = 0 \<or> q = 1 \<or> q = 2 \<or> q = 3" using qr by linarith
    show "bit (limbs (halve_step c)) (64 * q + r) = bit (drop_bit 1 (limbs e)) (64 * q + r)"
    proof (cases "r = 63")
      case True
      have "\<not> bit (limbs e) 256" using bit_imp_le_length [of "limbs e" 256] by auto
      then have "bit (drop_bit 1 (limbs e)) (64 * q + r) = (q < 3 \<and> bit (limbs e) (64 * Suc q + 0))"
        using q True by (auto simp: bit_drop_bit_eq)
      also have "\<dots> = (q < 3 \<and> bit (e ! Suc q) 0)"
        using bit_limbs [of "Suc q" 0 e] by auto
      finally have r: "bit (drop_bit 1 (limbs e)) (64 * q + r) = (q < 3 \<and> bit (e ! Suc q) 0)" .
      show ?thesis
        unfolding r bit_limbs [OF qr] unfolding True
        using q not_bit_u64 [of "e ! q" 0] by (elim disjE) (auto simp: h bit_simps numeral_2_eq_2 numeral_3_eq_3)
    next
      case False
      then have "bit (drop_bit 1 (limbs e)) (64 * q + r) = bit (e ! q) (Suc r)"
        using qr bit_limbs [of q "Suc r" e] by (simp add: bit_drop_bit_eq)
      then show ?thesis
        unfolding bit_limbs [OF qr] using q qr(2) False by (elim disjE) (auto simp: h bit_simps)
    qed
  qed
qed

section \<open>The product\<close>

definition halved :: "u256w \<Rightarrow> u256w" where
  "halved c = drop_bit 1 (c XOR (if bit c 0 then PV else 0))"

lemma residue_halved: "pv_x (residue (halved c)) = residue c"
proof -
  define d where "d = c XOR (if bit c 0 then PV else 0)"
  have "\<not> bit d 0" by (simp add: d_def bit_xor_iff bit_PV)
  then have "shl1 (drop_bit 1 d) = d"
  proof (intro bit_word_eqI)
    fix n assume "\<not> bit d 0" "n < LENGTH(256)"
    then show "bit (shl1 (drop_bit 1 d)) n = bit d n" by (cases n) (auto simp: bit_shl1 bit_drop_bit_eq)
  qed
  moreover have "\<not> bit (drop_bit 1 d) 255" using bit_imp_le_length [of d 256] by (auto simp: bit_drop_bit_eq)
  ultimately have "pv_x (residue (halved c)) = residue d"
    using residue_shift [of "drop_bit 1 d"] by (simp add: halved_def d_def)
  then show ?thesis by (simp add: d_def residue_xor residue_PV)
qed

lemma halved_bound: "(\<And>k. bit c k \<Longrightarrow> k < n) \<Longrightarrow> bit (halved c) k \<Longrightarrow> k < max (n - 1) 128"
  by (force simp: halved_def bit_drop_bit_eq bit_xor_iff bit_PV split: if_splits)

lemma length_fold_halve: "length c = 4 \<Longrightarrow> length (fold (\<lambda>i. halve_step) is c) = 4"
  by (induction "is" arbitrary: c) simp_all

lemma limbs_fold_halve: "length c = 4 \<Longrightarrow> limbs (fold (\<lambda>i. halve_step) [0..<n] c) = (halved ^^ n) (limbs c)"
  by (induction n) (simp_all add: length_fold_halve halve_step_limbs halved_def)

lemma residue_halved_pow: "(pv_x ^^ n) (residue ((halved ^^ n) c)) = residue c"
proof (induction n arbitrary: c)
  case (Suc n)
  have "(pv_x ^^ Suc n) (residue ((halved ^^ Suc n) c)) = pv_x ((pv_x ^^ n) (residue ((halved ^^ n) (halved c))))"
    by (simp add: funpow_swap1)
  then show ?case by (simp add: Suc residue_halved)
qed simp

lemma halved_pow_bound: "(\<And>k. bit c k \<Longrightarrow> k < n) \<Longrightarrow> bit ((halved ^^ m) c) k \<Longrightarrow> k < max (n - m) 128"
proof (induction m arbitrary: k)
  case (Suc m)
  have "bit (halved ((halved ^^ m) c)) k" using Suc.prems(2) by simp
  from halved_bound [OF Suc.IH this] Suc.prems(1) show ?case by auto
qed fastforce

lemma limbs_fold_dot: "length c = 4 \<Longrightarrow> n \<le> 128 \<Longrightarrow> length (fold (dot_step a b) [0..<n] c) = 4 \<and>
  limbs (fold (dot_step a b) [0..<n] c) = limbs c XOR xsum (\<lambda>i. if bit (pair a) i then push_bit i (ucast (pair b)) else 0) n"
  by (induction n) (simp_all add: dot_step_limbs ac_simps)

lemma limbs_zero: "limbs (replicate 4 0) = 0"
  by (simp add: limbs_def numeral_eq_Suc)

lemma residue_push: "i + m \<le> 256 - 128 \<Longrightarrow> (\<And>k. bit c k \<Longrightarrow> k < 128 + m) \<Longrightarrow> residue (push_bit i c) = (pv_x ^^ i) (residue c)"
proof (induction i arbitrary: c m)
  case (Suc i)
  have "push_bit (Suc i) c = push_bit i (shl1 c)" by (simp only: shl1_def push_bit_push_bit Suc_eq_plus1)
  moreover have "residue (push_bit i (shl1 c)) = (pv_x ^^ i) (residue (shl1 c))"
    by (rule Suc.IH [of "Suc m"]) (use Suc.prems in \<open>auto simp: bit_shl1\<close>, fastforce)
  moreover have "\<not> bit c 255" using Suc.prems by fastforce
  ultimately show ?case by (simp add: residue_shift funpow_swap1)
qed simp

text \<open>The code's product times \<open>x^128\<close> is the product of the field: the code computes \<open>a * b * x^-128\<close>.\<close>

lemma gf_dot_field: "(pv_x ^^ 128) (pair (gf_dot a b)) = pv_mult (pair a) (pair b)"
proof -
  define p where "p = fold (dot_step a b) [0..<128] (replicate 4 0)"
  define h where "h = fold (\<lambda>i. halve_step) [0..<128] p"
  have p: "length p = 4" "limbs p = xsum (\<lambda>i. if bit (pair a) i then push_bit i (ucast (pair b)) else 0) 128"
    using limbs_fold_dot [of "replicate 4 0" 128 a b] unfolding p_def limbs_zero by auto
  have h: "length h = 4" "limbs h = (halved ^^ 128) (limbs p)"
    using p(1) by (simp_all add: h_def length_fold_halve limbs_fold_halve)
  have "bit (limbs h) k \<Longrightarrow> k < 128" for k
    using halved_pow_bound [of "limbs p" 256 128 k] bit_imp_le_length [of "limbs p"] unfolding h(2) by simp
  then have "limbs h = ucast (ucast (limbs h) :: u128w)"
    by (intro bit_word_eqI) (auto simp: bit_ucast_iff)
  moreover have "ucast (limbs h) = pair (gf_dot a b)"
  proof (rule bit_word_eqI)
    fix n assume n: "n < LENGTH(128)"
    have "bit (limbs h) n = bit (h ! (n div 64)) (n mod 64)"
      using bit_limbs [of "n div 64" "n mod 64" h] n by (simp add: less_mult_imp_div_less)
    then show "bit (ucast (limbs h) :: u128w) n = bit (pair (gf_dot a b)) n"
      using n by (cases "n < 64") (simp_all add: bit_ucast_iff bit_pair gf_dot_def Let_def h_def p_def div_if le_mod_geq)
  qed
  ultimately have "residue (limbs h) = pair (gf_dot a b)" using residue_small by metis
  then have "(pv_x ^^ 128) (pair (gf_dot a b)) = residue (limbs p)"
    using residue_halved_pow [of 128 "limbs p"] h(2) by simp
  also have "\<dots> = xsum (\<lambda>i. residue (if bit (pair a) i then push_bit i (ucast (pair b)) else 0)) 128"
    unfolding p(2) by (rule xsum_linear) (simp_all add: residue_xor)
  also have "\<dots> = pv_mult (pair a) (pair b)"
    unfolding pv_mult_def
  proof (rule xsum_cong)
    fix i :: nat assume "i < 128"
    then have "residue (push_bit i (ucast (pair b))) = (pv_x ^^ i) (pair b)"
      using residue_push [of i 0 "ucast (pair b)"] bit_imp_le_length [of "pair b"] by (simp add: bit_ucast_iff residue_small)
    then show "residue (if bit (pair a) i then push_bit i (ucast (pair b)) else 0) =
        (if bit (pair a) i then (pv_x ^^ i) (pair b) else 0)" by simp
  qed
  finally show ?thesis .
qed

end
