(* ===== verification/Hctr2.thy ===== *)
theory Hctr2
  imports AesCt Polyval
begin

text \<open>
  HCTR2, \<open>src/src/Crypto/Hctr2.c\<close>: the wide-block mode that encrypts a whole sector as one block. A sector is
  hashed, its first block encrypted, the rest exclusive-or-ed with the counter stream XCTR seeded by both sides
  of the encryption, and the hash of the result folded into the first block. The hash runs over a stack buffer
  of fixed size, which the entry points guard by their range checks.

  The lemmas show that the writes stay inside the buffer and build the padded message of the construction, and
  that \<open>Hctr2Decrypt\<close> and \<open>Hctr2Encrypt\<close> are inverse.
\<close>

record Hctr2Key =
  hk_blk :: bytes
  hk_hbar :: bytes
  hk_L :: bytes

definition HCTR2_MAX_SECTOR :: nat where "HCTR2_MAX_SECTOR = 4096"

definition HCTR2_MAX_TWEAK :: nat where "HCTR2_MAX_TWEAK = 64"

definition HCTR2_MIN_LEN :: nat where "HCTR2_MIN_LEN = 16"

definition Hctr2Init :: "bytes \<Rightarrow> Hctr2Key" where
  "Hctr2Init key =
     (let blk = AesCtInit256 key;
          z = zeros 16; hbar = AesCtEncryptBlock blk z;
          z = (zeros 16)[0 := 0x01]; L = AesCtEncryptBlock blk z
      in \<lparr>hk_blk = blk, hk_hbar = hbar, hk_L = L\<rparr>)"

text \<open>The contents of the stack buffer, and the number of its bytes that are hashed.\<close>

definition hctr2_buf :: "bytes \<Rightarrow> bytes \<Rightarrow> bytes \<times> nat" where
  "hctr2_buf tweak msg =
     (let tlen = length tweak; mlen = length msg;
          rem = mlen mod 16 \<noteq> 0;
          lb = of_nat tlen * 8 * 2 + 2 + (if rem then 1 else 0) :: u64;
          buf = zeros (16 + HCTR2_MAX_TWEAK + HCTR2_MAX_SECTOR + 16);
          buf = store_at 0 (le_bytes 8 lb) buf;
          w = 16;
          buf = (if tlen > 0 then store_at w tweak buf else buf);
          w = w + (tlen + ((16 - tlen mod 16) mod 16));
          buf = (if mlen > 0 then store_at w msg buf else buf)
      in if rem then (buf[w + mlen := 0x01], w + (mlen + 1 + ((16 - (mlen + 1) mod 16) mod 16)))
         else (buf, w + mlen))"

definition hctr2_hash :: "Hctr2Key \<Rightarrow> bytes \<Rightarrow> bytes \<Rightarrow> bytes" where
  "hctr2_hash hk tweak msg =
     (let (buf, w) = hctr2_buf tweak msg in polyval_buf (hk_hbar hk) (take w buf))"

text \<open>The counter stream: \<open>i\<close> is the 64-bit block counter, \<open>src\<close> the input from \<open>src + off\<close> on.\<close>

definition xctr_block :: "bytes \<Rightarrow> u64 \<Rightarrow> bytes" where
  "xctr_block S i = map (\<lambda>j. if j < 8 then S ! j XOR ucast (drop_bit (8 * j) i) else S ! j) [0..<16]"

function hctr2_xctr_xor :: "Hctr2Key \<Rightarrow> bytes \<Rightarrow> u64 \<Rightarrow> bytes \<Rightarrow> bytes" where
  "hctr2_xctr_xor hk S i src =
     (if length src = 0 then []
      else let ks = AesCtEncryptBlock (hk_blk hk) (xctr_block S i);
               n = (if length src < 16 then length src else 16)
           in map (\<lambda>j. src ! j XOR ks ! j) [0..<n] @ hctr2_xctr_xor hk S (i + 1) (drop n src))"
  by pat_completeness auto
termination by (relation "measure (\<lambda>(hk, S, i, src). length src)") auto

declare hctr2_xctr_xor.simps [simp del]

text \<open>\<open>hctr2_crypt\<close>: the result and the contents of \<open>out\<close>, which a refusal leaves as they were.\<close>

definition hctr2_crypt :: "Hctr2Key \<Rightarrow> bool \<Rightarrow> bytes \<Rightarrow> bytes \<Rightarrow> bytes \<Rightarrow> int \<times> bytes" where
  "hctr2_crypt hk enc tweak inp out =
     (if length inp < HCTR2_MIN_LEN \<or> length inp > HCTR2_MAX_SECTOR \<or> length tweak > HCTR2_MAX_TWEAK then (0, out)
      else
        let dig = hctr2_hash hk tweak (drop 16 inp);
            first = map (\<lambda>j. inp ! j XOR dig ! j) [0..<16];
            ff = (if enc then AesCtEncryptBlock (hk_blk hk) first else AesCtDecryptBlock (hk_blk hk) first);
            S = map (\<lambda>j. first ! j XOR ff ! j XOR hk_L hk ! j) [0..<16];
            tl = hctr2_xctr_xor hk S 1 (drop 16 inp);
            dig = hctr2_hash hk tweak tl
        in (1, map (\<lambda>j. ff ! j XOR dig ! j) [0..<16] @ tl))"

definition Hctr2Encrypt :: "Hctr2Key \<Rightarrow> bytes \<Rightarrow> bytes \<Rightarrow> bytes \<Rightarrow> int \<times> bytes" where
  "Hctr2Encrypt hk tweak pt ct = hctr2_crypt hk True tweak pt ct"

definition Hctr2Decrypt :: "Hctr2Key \<Rightarrow> bytes \<Rightarrow> bytes \<Rightarrow> bytes \<Rightarrow> int \<times> bytes" where
  "Hctr2Decrypt hk tweak ct pt = hctr2_crypt hk False tweak ct pt"

section \<open>The hash input\<close>

text \<open>The construction's padding: zeros up to a multiple of 16.\<close>

definition pad16 :: "bytes \<Rightarrow> bytes" where
  "pad16 bs = bs @ zeros ((16 - length bs mod 16) mod 16)"

definition hctr2_input :: "bytes \<Rightarrow> bytes \<Rightarrow> bytes" where
  "hctr2_input tweak msg =
     le_bytes 8 (of_nat (16 * length tweak + (if length msg mod 16 = 0 then 2 else 3)) :: u64) @ zeros 8 @ pad16 tweak @
     (if length msg mod 16 = 0 then msg else pad16 (msg @ [1]))"

lemma store_zeros_tail:
  "n = length a \<Longrightarrow> length b \<le> m \<Longrightarrow> store_at n b (a @ zeros m) = (a @ b) @ zeros (m - length b)"
  by (simp add: store_at_append zeros_def)

lemma list_update_zeros_tail:
  "n = length a \<Longrightarrow> 0 < m \<Longrightarrow> (a @ zeros m)[n := x] = (a @ [x]) @ zeros (m - 1)"
  by (cases m) (simp_all add: zeros_def list_update_append)

lemma zeros_split: "n \<le> m \<Longrightarrow> a @ zeros m = (a @ zeros n) @ zeros (m - n)"
  by (simp add: zeros_add [symmetric])

lemma pad16_le: "length (pad16 bs) \<le> length bs + 15"
  by (simp add: pad16_def)

lemma hctr2_buf_input:
  assumes "length tweak \<le> HCTR2_MAX_TWEAK" "length msg \<le> HCTR2_MAX_SECTOR - 16"
  obtains r where "hctr2_buf tweak msg = (hctr2_input tweak msg @ zeros r, length (hctr2_input tweak msg))"
    "length (hctr2_input tweak msg @ zeros r) = 16 + HCTR2_MAX_TWEAK + HCTR2_MAX_SECTOR + 16"
proof -
  define t where "t = (16 - length tweak mod 16) mod 16"
  define u where "u = (16 - (length msg + 1) mod 16) mod 16"
  define lb where "lb = le_bytes 8 (of_nat (length tweak) * 8 * 2 + 2 + (if length msg mod 16 \<noteq> 0 then 1 else 0) :: u64)"
  have lb': "lb = le_bytes 8 (of_nat (16 * length tweak + (if length msg mod 16 = 0 then 2 else 3)) :: u64)"
    by (simp add: lb_def add.commute)
  have l: "length lb = 8" by (simp add: lb_def)
  have tb: "t \<le> 15" "u \<le> 15" by (simp_all add: t_def u_def)
  have buflen: "16 + HCTR2_MAX_TWEAK + HCTR2_MAX_SECTOR + 16 = 4192" by (simp add: HCTR2_MAX_TWEAK_def HCTR2_MAX_SECTOR_def)
  have s0: "store_at 0 lb (zeros 4192) = lb @ zeros 4184"
    using store_zeros_tail [of 0 "[]" lb 4192] l by simp
  define A where "A = (lb @ zeros 8) @ tweak @ zeros t"
  have lA: "length A = 16 + length tweak + t" by (simp add: A_def l)
  have s1: "(if 0 < length tweak then store_at 16 tweak (lb @ zeros 4184) else lb @ zeros 4184)
      = A @ zeros (4176 - length tweak - t)"
  proof -
    have "store_at 16 tweak (lb @ zeros 4184) = ((lb @ zeros 8) @ tweak) @ zeros (4176 - length tweak)"
      using zeros_split [of 8 4184 lb] store_zeros_tail [of 16 "lb @ zeros 8" tweak 4176] assms(1) l
      by (simp add: HCTR2_MAX_TWEAK_def)
    then show ?thesis using zeros_split [of t "4176 - length tweak" "(lb @ zeros 8) @ tweak"] tb assms(1)
        zeros_split [of 8 4184 lb]
      by (auto simp: A_def HCTR2_MAX_TWEAK_def t_def)
  qed
  have s2: "(if 0 < length msg then store_at (length A) msg (A @ zeros m) else A @ zeros m) = (A @ msg) @ zeros (m - length msg)"
    if "length msg \<le> m" for m using store_zeros_tail [of "length A" A msg m] that by auto
  define m where "m = 4176 - length tweak - t"
  have m: "4097 \<le> m" using tb assms(1) by (simp add: m_def HCTR2_MAX_TWEAK_def)
  have mm: "length msg \<le> 4080" using assms(2) by (simp add: HCTR2_MAX_SECTOR_def)
  have s2m: "(if 0 < length msg then store_at (length A) msg (A @ zeros m) else A @ zeros m) = (A @ msg) @ zeros (m - length msg)"
    using m mm by (intro s2) simp
  have ix: "16 + (length tweak + t) = length A" by (simp add: lA)
  have buf: "hctr2_buf tweak msg = (if length msg mod 16 \<noteq> 0
      then (((A @ msg) @ zeros (m - length msg))[length A + length msg := 1], length A + (length msg + 1 + u))
      else ((A @ msg) @ zeros (m - length msg), length A + length msg))"
    using m mm
    unfolding hctr2_buf_def Let_def lb_def [symmetric] t_def [symmetric] u_def [symmetric] buflen s0 s1 m_def [symmetric] ix
    by (simp only: s2m)
  have u': "(16 - Suc (length msg) mod 16) mod 16 = u" by (simp add: u_def)
  have inp: "hctr2_input tweak msg = lb @ zeros 8 @ pad16 tweak @ (if length msg mod 16 = 0 then msg else pad16 (msg @ [1]))"
    by (simp only: hctr2_input_def lb')
  show ?thesis
  proof (cases "length msg mod 16 = 0")
    case True
    have "hctr2_buf tweak msg = (hctr2_input tweak msg @ zeros (m - length msg), length (hctr2_input tweak msg))"
      using True lA unfolding buf by (simp add: inp A_def pad16_def t_def l)
    moreover have "length (hctr2_input tweak msg @ zeros (m - length msg)) = 16 + HCTR2_MAX_TWEAK + HCTR2_MAX_SECTOR + 16"
      using True m mm assms(1) tb by (simp add: inp l pad16_def HCTR2_MAX_TWEAK_def HCTR2_MAX_SECTOR_def m_def flip: t_def)
    ultimately show ?thesis by (rule that)
  next
    case False
    have upd: "((A @ msg) @ zeros (m - length msg))[length A + length msg := 1]
        = ((A @ msg @ [1]) @ zeros u) @ zeros (m - length msg - 1 - u)"
      using list_update_zeros_tail [of "length A + length msg" "A @ msg" "m - length msg" 1]
        zeros_split [of u "m - length msg - 1" "A @ msg @ [1]"] m mm tb by simp
    have "hctr2_buf tweak msg = (hctr2_input tweak msg @ zeros (m - length msg - 1 - u), length (hctr2_input tweak msg))"
      using False lA unfolding buf upd by (simp add: inp A_def pad16_def t_def u_def l)
    moreover have "length (hctr2_input tweak msg @ zeros (m - length msg - 1 - u)) = 16 + HCTR2_MAX_TWEAK + HCTR2_MAX_SECTOR + 16"
      using False m mm assms(1) tb by (simp add: inp l pad16_def HCTR2_MAX_TWEAK_def HCTR2_MAX_SECTOR_def m_def u' flip: t_def)
    ultimately show ?thesis by (rule that)
  qed
qed

lemma hctr2_hash_input:
  "length tweak \<le> HCTR2_MAX_TWEAK \<Longrightarrow> length msg \<le> HCTR2_MAX_SECTOR - 16 \<Longrightarrow>
   hctr2_hash hk tweak msg = polyval_buf (hk_hbar hk) (hctr2_input tweak msg)"
  by (erule (1) hctr2_buf_input [of tweak msg]) (simp add: hctr2_hash_def)

lemma length_hctr2_hash [simp]: "length (hctr2_hash hk tweak msg) = 16"
  by (simp add: hctr2_hash_def polyval_buf_def st128_def Let_def split: prod.split)

section \<open>The counter stream\<close>

lemma hctr2_xctr_xor_unfold:
  "src \<noteq> [] \<Longrightarrow> hctr2_xctr_xor hk S i src =
     xor_bytes (take 16 src) (AesCtEncryptBlock (hk_blk hk) (xctr_block S i)) @ hctr2_xctr_xor hk S (i + 1) (drop 16 src)"
  by (subst hctr2_xctr_xor.simps, auto simp: Let_def)
     (rule nth_equalityI, auto simp: nth_xor_bytes min_def)+

lemma length_hctr2_xctr_xor [simp]: "length (hctr2_xctr_xor hk S i src) = length src"
proof (induction hk S i src rule: hctr2_xctr_xor.induct)
  case (1 hk S i src)
  then show ?case by (subst hctr2_xctr_xor.simps) (auto simp: Let_def)
qed

lemma hctr2_xctr_twice: "hctr2_xctr_xor hk S i (hctr2_xctr_xor hk S i src) = src"
proof (induction "length src" arbitrary: i src rule: less_induct)
  case less
  show ?case
  proof (cases "src = []")
    case True
    then show ?thesis by (simp add: hctr2_xctr_xor.simps)
  next
    case False
    define ks where "ks = AesCtEncryptBlock (hk_blk hk) (xctr_block S i)"
    have lk: "length ks = 16" by (simp add: ks_def)
    define rest where "rest = hctr2_xctr_xor hk S (i + 1) (drop 16 src)"
    have e: "hctr2_xctr_xor hk S i src = xor_bytes (take 16 src) ks @ rest"
      using False by (simp add: hctr2_xctr_xor_unfold ks_def rest_def)
    then have ne: "hctr2_xctr_xor hk S i src \<noteq> []" using False lk by (auto dest!: arg_cong [of _ _ length])
    have lr: "length rest = length src - 16" by (simp add: rest_def)
    have tk: "take 16 (xor_bytes (take 16 src) ks @ rest) = xor_bytes (take 16 src) ks"
      "drop 16 (xor_bytes (take 16 src) ks @ rest) = rest" using lr lk by (cases "16 \<le> length src"; simp)+
    have ih: "hctr2_xctr_xor hk S (i + 1) rest = drop 16 src"
      unfolding rest_def using less.hyps [of "drop 16 src" "i + 1"] False by simp
    show ?thesis
      using hctr2_xctr_xor_unfold [OF ne, of hk S i] ih lk unfolding e tk ks_def [symmetric] by simp
  qed
qed

section \<open>Decryption undoes encryption\<close>

definition hctr2_in_range :: "bytes \<Rightarrow> bytes \<Rightarrow> bool" where
  "hctr2_in_range tweak m \<longleftrightarrow> HCTR2_MIN_LEN \<le> length m \<and> length m \<le> HCTR2_MAX_SECTOR \<and> length tweak \<le> HCTR2_MAX_TWEAK"

lemma map_xor_xor_bytes:
  "16 \<le> length a \<Longrightarrow> length b = 16 \<Longrightarrow> map (\<lambda>j. a ! j XOR b ! j) [0..<16] = xor_bytes (take 16 a) b"
  by (rule nth_equalityI) (simp_all add: nth_xor_bytes)

text \<open>Both directions at once: \<open>F\<close> is the permutation of one direction, \<open>G\<close> of the other.\<close>

definition hctr2_pass :: "Hctr2Key \<Rightarrow> (bytes \<Rightarrow> bytes) \<Rightarrow> bytes \<Rightarrow> bytes \<Rightarrow> bytes" where
  "hctr2_pass hk F tweak inp =
     (let first = xor_bytes (take 16 inp) (hctr2_hash hk tweak (drop 16 inp));
          ff = F first;
          tl = hctr2_xctr_xor hk (xor_bytes (xor_bytes first ff) (take 16 (hk_L hk))) 1 (drop 16 inp)
      in xor_bytes ff (hctr2_hash hk tweak tl) @ tl)"

lemma hctr2_crypt_pass:
  assumes "hctr2_in_range tweak inp" "length (hk_L hk) = 16"
  shows "hctr2_crypt hk enc tweak inp out =
    (1, hctr2_pass hk (if enc then AesCtEncryptBlock (hk_blk hk) else AesCtDecryptBlock (hk_blk hk)) tweak inp)"
proof -
  have l: "16 \<le> length inp" using assms by (simp add: hctr2_in_range_def HCTR2_MIN_LEN_def)
  have S: "map (\<lambda>j. a ! j XOR b ! j XOR hk_L hk ! j) [0..<16] = xor_bytes (xor_bytes a b) (take 16 (hk_L hk))"
    if "length a = 16" "length b = 16" for a b
    using that assms(2) by (intro nth_equalityI) (simp_all add: nth_xor_bytes xor.assoc)
  show ?thesis
    using assms(1) l unfolding hctr2_crypt_def hctr2_in_range_def hctr2_pass_def
    by (auto simp: not_less not_le map_xor_xor_bytes S Let_def)
qed

lemma length_hctr2_pass: "(\<And>b. length (F b) = 16) \<Longrightarrow> 16 \<le> length m \<Longrightarrow> length (hctr2_pass hk F tweak m) = length m"
  by (simp add: hctr2_pass_def Let_def)

lemma hctr2_pass_inverse:
  assumes "block_cipher F G" "16 \<le> length m" "\<And>b. length (F b) = 16" "\<And>b. length (G b) = 16" "length (hk_L hk) = 16"
  shows "hctr2_pass hk G tweak (hctr2_pass hk F tweak m) = m"
proof -
  define first where "first = xor_bytes (take 16 m) (hctr2_hash hk tweak (drop 16 m))"
  define S where "S = xor_bytes (xor_bytes first (F first)) (take 16 (hk_L hk))"
  define tl where "tl = hctr2_xctr_xor hk S 1 (drop 16 m)"
  have l: "length first = 16" using assms(2) by (simp add: first_def)
  have e: "hctr2_pass hk F tweak m = xor_bytes (F first) (hctr2_hash hk tweak tl) @ tl"
    by (simp add: hctr2_pass_def Let_def first_def S_def tl_def)
  have t: "take 16 (hctr2_pass hk F tweak m) = xor_bytes (F first) (hctr2_hash hk tweak tl)"
    "drop 16 (hctr2_pass hk F tweak m) = tl" unfolding e by (simp_all add: assms(3))
  have u: "xor_bytes (xor_bytes (F first) (hctr2_hash hk tweak tl)) (hctr2_hash hk tweak tl) = F first"
    by (simp add: assms(3))
  have g: "G (F first) = first" by (rule block_cipher.D_E [OF assms(1) l])
  have s: "xor_bytes (xor_bytes (F first) first) (take 16 (hk_L hk)) = S"
    unfolding S_def by (simp only: xor_bytes_commute)
  have x: "hctr2_xctr_xor hk S 1 tl = drop 16 m" unfolding tl_def by (rule hctr2_xctr_twice)
  have "hctr2_pass hk G tweak (hctr2_pass hk F tweak m) = xor_bytes first (hctr2_hash hk tweak (drop 16 m)) @ drop 16 m"
    unfolding hctr2_pass_def [of hk G] Let_def t u g s x ..
  then show ?thesis using assms(2) by (simp add: first_def)
qed

lemma length_hk_L_Init [simp]: "length (hk_L (Hctr2Init key)) = 16"
  by (simp add: Hctr2Init_def Let_def)

lemma hctr2_inverse:
  assumes "hctr2_in_range tweak m" "length (hk_L hk) = 16"
  shows "hctr2_crypt hk (\<not> enc) tweak (snd (hctr2_crypt hk enc tweak m out)) out' = (1, m)"
proof -
  have l: "16 \<le> length m" using assms(1) by (simp add: hctr2_in_range_def HCTR2_MIN_LEN_def)
  define F where "F = (if enc then AesCtEncryptBlock (hk_blk hk) else AesCtDecryptBlock (hk_blk hk))"
  define G where "G = (if \<not> enc then AesCtEncryptBlock (hk_blk hk) else AesCtDecryptBlock (hk_blk hk))"
  have FG: "block_cipher F G" "\<And>b. length (F b) = 16" "\<And>b. length (G b) = 16"
    by (auto simp: F_def G_def aes_cipher aes_cipher_rev)
  have "hctr2_in_range tweak (hctr2_pass hk F tweak m)"
    using assms(1) l by (simp add: hctr2_in_range_def length_hctr2_pass FG)
  then show ?thesis
    unfolding hctr2_crypt_pass [OF assms] snd_conv F_def [symmetric]
    using hctr2_crypt_pass [of tweak "hctr2_pass hk F tweak m" hk "\<not> enc" out'] assms(2)
      hctr2_pass_inverse [OF FG(1) l FG(2,3) assms(2), of tweak]
    unfolding G_def [symmetric] by simp
qed

end
