(* ===== verification/Poly1305Correct.thy ===== *)
theory Poly1305Correct
  imports Poly1305
begin

text \<open>
  The proof that \<open>Poly1305\<close> computes the tag of RFC 8439: the sums of products and the carries of one
  block, the loads of the limbs out of bytes, the loop, the carry and reduction at the end, and the addition of
  the second half of the key.
\<close>

definition DB :: nat where "DB = 2 * LB + 64"

lemma poly_mult_spec:
  assumes "r_ok (r0, r1, r2, r3, r4)" "h_sum_ok (h0, h1, h2, h3, h4)" "poly_mult (r0, r1, r2, r3, r4) (h0, h1, h2, h3, h4) = (d0, d1, d2, d3, d4)"
  shows "unat d0 \<le> 25 * (DB * LB)" "unat d1 \<le> 25 * (DB * LB)" "unat d2 \<le> 25 * (DB * LB)" "unat d3 \<le> 25 * (DB * LB)"
    "unat d4 \<le> 5 * (DB * LB)"
    "(unat d0 + LB * unat d1 + LB ^ 2 * unat d2 + LB ^ 3 * unat d3 + LB ^ 4 * unat d4) mod poly_p
     = value5 (h0, h1, h2, h3, h4) * value5 (r0, r1, r2, r3, r4) mod poly_p"
proof -
  have h: "unat h0 < DB" "unat h1 < DB" "unat h2 < DB" "unat h3 < DB" "unat h4 < DB"
    using assms(2) by (auto simp: h_sum_ok_def DB_def)
  have r: "unat r0 < LB" "unat r1 < LB" "unat r2 < LB" "unat r3 < LB" "unat r4 < LB"
    using assms(1) by (auto simp: r_ok_def)
  have b1: "unat (mul64 a b) \<le> 5 * (DB * LB)" if "unat a < DB" "unat b < LB" for a b
    using mul64_bound [OF that] by simp
  have b5: "unat (mul64 a (b * 5)) \<le> 5 * (DB * LB)" if "unat a < DB" "unat b < LB" for a b
    using mul64_bound5 [OF that] by simp
  have small: "5 * (DB * LB) < 2 ^ 60" by (simp add: DB_def LB_def)
  note s = unat_sum5 [OF _ _ _ _ _ small]
  have u: "unat (mul64 a (b * 5)) = unat a * (unat b * 5)" if "unat b < LB" for a b
    by (simp add: unat_mul64 unat_times5 that)
  have e: "d0 = mul64 h0 r0 + mul64 h1 (r4 * 5) + mul64 h2 (r3 * 5) + mul64 h3 (r2 * 5) + mul64 h4 (r1 * 5)"
    "d1 = mul64 h0 r1 + mul64 h1 r0 + mul64 h2 (r4 * 5) + mul64 h3 (r3 * 5) + mul64 h4 (r2 * 5)"
    "d2 = mul64 h0 r2 + mul64 h1 r1 + mul64 h2 r0 + mul64 h3 (r4 * 5) + mul64 h4 (r3 * 5)"
    "d3 = mul64 h0 r3 + mul64 h1 r2 + mul64 h2 r1 + mul64 h3 r0 + mul64 h4 (r4 * 5)"
    "d4 = mul64 h0 r4 + mul64 h1 r3 + mul64 h2 r2 + mul64 h3 r1 + mul64 h4 r0"
    using assms(3) by (simp_all add: poly_mult_def Let_def)
  have d: "unat d0 = unat h0 * unat r0 + unat h1 * (unat r4 * 5) + unat h2 * (unat r3 * 5) + unat h3 * (unat r2 * 5) + unat h4 * (unat r1 * 5)"
    "unat d1 = unat h0 * unat r1 + unat h1 * unat r0 + unat h2 * (unat r4 * 5) + unat h3 * (unat r3 * 5) + unat h4 * (unat r2 * 5)"
    "unat d2 = unat h0 * unat r2 + unat h1 * unat r1 + unat h2 * unat r0 + unat h3 * (unat r4 * 5) + unat h4 * (unat r3 * 5)"
    "unat d3 = unat h0 * unat r3 + unat h1 * unat r2 + unat h2 * unat r1 + unat h3 * unat r0 + unat h4 * (unat r4 * 5)"
    "unat d4 = unat h0 * unat r4 + unat h1 * unat r3 + unat h2 * unat r2 + unat h3 * unat r1 + unat h4 * unat r0"
    unfolding e by ((subst s; ((rule b5 h r | rule b1)+)?), simp add: unat_times5 r unat_mul64)+
  have p1: "unat a * unat b \<le> DB * LB" if "unat a < DB" "unat b < LB" for a b :: u32
    using that by (intro mult_mono) simp_all
  have p5: "unat a * (unat b * 5) \<le> 5 * (DB * LB)" if "unat a < DB" "unat b < LB" for a b :: u32
    using p1 [OF that] by simp
  show "unat d0 \<le> 25 * (DB * LB)" unfolding d
    using p1 [OF h(1) r(1)] p5 [OF h(2) r(5)] p5 [OF h(3) r(4)] p5 [OF h(4) r(3)] p5 [OF h(5) r(2)] by linarith
  show "unat d1 \<le> 25 * (DB * LB)" unfolding d
    using p1 [OF h(1) r(2)] p1 [OF h(2) r(1)] p5 [OF h(3) r(5)] p5 [OF h(4) r(4)] p5 [OF h(5) r(3)] by linarith
  show "unat d2 \<le> 25 * (DB * LB)" unfolding d
    using p1 [OF h(1) r(3)] p1 [OF h(2) r(2)] p1 [OF h(3) r(1)] p5 [OF h(4) r(5)] p5 [OF h(5) r(4)] by linarith
  show "unat d3 \<le> 25 * (DB * LB)" unfolding d
    using p1 [OF h(1) r(4)] p1 [OF h(2) r(3)] p1 [OF h(3) r(2)] p1 [OF h(4) r(1)] p5 [OF h(5) r(5)] by linarith
  show "unat d4 \<le> 5 * (DB * LB)" unfolding d
    using p1 [OF h(1) r(5)] p1 [OF h(2) r(4)] p1 [OF h(3) r(3)] p1 [OF h(4) r(2)] p1 [OF h(5) r(1)] by linarith
  show "(unat d0 + LB * unat d1 + LB ^ 2 * unat d2 + LB ^ 3 * unat d3 + LB ^ 4 * unat d4) mod poly_p
     = value5 (h0, h1, h2, h3, h4) * value5 (r0, r1, r2, r3, r4) mod poly_p"
    unfolding value5_def prod.case d by (rule mod_p_swap [symmetric]) (rule poly_mult_value)
qed

lemma poly_carry64_spec:
  assumes "unat d0 \<le> 25 * (DB * LB)" "unat d1 \<le> 25 * (DB * LB)" "unat d2 \<le> 25 * (DB * LB)" "unat d3 \<le> 25 * (DB * LB)"
    "unat d4 \<le> 5 * (DB * LB)"
  shows "h_ok (poly_carry64 (d0, d1, d2, d3, d4))"
    "value5 (poly_carry64 (d0, d1, d2, d3, d4)) mod poly_p
     = (unat d0 + LB * unat d1 + LB ^ 2 * unat d2 + LB ^ 3 * unat d3 + LB ^ 4 * unat d4) mod poly_p"
proof -
  define e1 where "e1 = d1 + drop_bit 26 d0"
  define e2 where "e2 = d2 + drop_bit 26 e1"
  define e3 where "e3 = d3 + drop_bit 26 e2"
  define e4 where "e4 = d4 + drop_bit 26 e3"
  have D: "DB * LB = 9007203549708288" by (simp add: DB_def LB_def)
  have b: "unat (drop_bit 26 x) < 2 ^ 38" for x :: u64
    using unsigned_less [of x, where 'a = nat] by (simp add: unat_drop_26 LB_def less_mult_imp_div_less)
  have e: "unat e1 = unat d1 + unat d0 div LB" "unat e2 = unat d2 + unat e1 div LB"
    "unat e3 = unat d3 + unat e2 div LB" "unat e4 = unat d4 + unat e3 div LB"
    unfolding e1_def e2_def e3_def e4_def unat_drop_26 [symmetric]
    using assms b [of d0] b [of "d1 + drop_bit 26 d0"] b [of "d2 + drop_bit 26 (d1 + drop_bit 26 d0)"]
      b [of "d3 + drop_bit 26 (d2 + drop_bit 26 (d1 + drop_bit 26 d0))"]
    by (simp_all add: unat_add_small D)
  have ebound: "unat e3 \<le> 26 * (DB * LB)"
    using assms(4) b [of e2] unfolding e(3) unat_drop_26 [symmetric] D by simp
  then have "unat e3 div LB \<le> 26 * DB" using div_le_mono [OF ebound, of LB] by (simp add: LB_def)
  then have "unat e4 \<le> 5 * (DB * LB) + 26 * DB" using e(4) assms(5) by simp
  define c where "c = drop_bit 26 e4"
  have c4: "unat c \<le> 51 * LB div 5"
    using div_le_mono [OF \<open>unat e4 \<le> 5 * (DB * LB) + 26 * DB\<close>, of LB] unfolding c_def unat_drop_26
    by (simp add: DB_def LB_def)
  have c4': "unat c < 2 ^ 30" using c4 by (simp add: LB_def)
  define h0 where "h0 = ((ucast d0 :: u32) AND 0x03ffffff) + ucast c * 5"
  have uc: "unat (ucast c :: u32) = unat c"
    using c4' by (simp add: unsigned_ucast_eq take_bit_nat_eq_self)
  have c5: "unat (ucast c * 5 :: u32) = unat c * 5"
    using c4 uc by (simp add: unat_word_ariths LB_def)
  have uh0: "unat h0 = unat d0 mod LB + unat c * 5"
    unfolding h0_def using c4
    by (subst unat_add_small) (simp_all add: c5 ucast_and_26, simp add: LB_def)
  define k where "k = (ucast (ucast (drop_bit 26 h0) :: u64) :: u32)"
  have kd: "k = drop_bit 26 h0" unfolding k_def by (rule bit_word_eqI) (simp add: bit_simps)
  have uk: "unat k = unat h0 div LB" "unat k < 64"
  proof -
    have l: "unat h0 div LB < 64" using unsigned_less [of h0, where 'a = nat] by (simp add: LB_def less_mult_imp_div_less)
    show "unat k = unat h0 div LB"
      unfolding kd by (simp add: unat_drop_26)
    then show "unat k < 64" using l by simp
  qed
  have r: "poly_carry64 (d0, d1, d2, d3, d4) =
      (h0 AND 0x03ffffff, (ucast e1 AND 0x03ffffff) + k, ucast e2 AND 0x03ffffff, ucast e3 AND 0x03ffffff, ucast e4 AND 0x03ffffff)"
    by (simp add: poly_carry64_def Let_def e1_def e2_def e3_def e4_def c_def h0_def k_def)
  have m: "x mod LB < LB" for x by (simp add: LB_def)
  have h1: "unat ((ucast e1 AND 0x03ffffff) + k) = unat e1 mod LB + unat k"
    using uk(2) m [of "unat e1"] by (subst unat_add_small) (simp_all add: ucast_and_26, simp add: LB_def)
  show "h_ok (poly_carry64 (d0, d1, d2, d3, d4))"
    unfolding r h_ok_def prod.case h1 and_26 ucast_and_26
    using uk(2) by (simp add: m add_strict_mono)
  have "value5 (poly_carry64 (d0, d1, d2, d3, d4)) + LB ^ 5 * unat c
      = (unat d0 + LB * unat d1 + LB ^ 2 * unat d2 + LB ^ 3 * unat d3 + LB ^ 4 * unat d4) + 5 * unat c"
  proof -
    have "unat h0 mod LB + LB * (unat e1 mod LB + unat k) = unat d0 mod LB + unat c * 5 + LB * (unat e1 mod LB)"
      unfolding uk(1) using uh0 mod_mult_div_eq [of "unat h0" LB] by (simp add: algebra_simps)
    moreover have "unat c = unat e4 div LB" by (simp add: c_def unat_drop_26)
    ultimately show ?thesis
      unfolding r value5_def prod.case h1 ucast_and_26 and_26 [of h0] carry_chain [OF e] by (simp add: algebra_simps)
  qed
  then show "value5 (poly_carry64 (d0, d1, d2, d3, d4)) mod poly_p
     = (unat d0 + LB * unat d1 + LB ^ 2 * unat d2 + LB ^ 3 * unat d3 + LB ^ 4 * unat d4) mod poly_p"
    by (intro mod_p_swap [symmetric, of _ "unat c"]) simp
qed


section \<open>Loads and limbs\<close>

text \<open>Limb \<open>i\<close> of a 128-bit number.\<close>

definition limb26 :: "nat \<Rightarrow> 128 word \<Rightarrow> u32" where
  "limb26 i w = ucast (take_bit 26 (drop_bit (26 * i) w))"

definition limbs26 :: "128 word \<Rightarrow> limbs5" where
  "limbs26 w = (limb26 0 w, limb26 1 w, limb26 2 w, limb26 3 w, limb26 4 w)"

lemma bit_limb26: "bit (limb26 i w) j \<longleftrightarrow> j < 26 \<and> bit w (26 * i + j)"
  by (auto simp: limb26_def bit_simps)

lemma bit_poly_ld32: "off + 4 \<le> length p \<Longrightarrow> bit (poly_ld32 p off) j \<longleftrightarrow> j < 32 \<and> bit (p ! (off + j div 8)) (j mod 8)"
proof -
  have c: "j < 32 \<Longrightarrow> j div 8 = 0 \<or> j div 8 = 1 \<or> j div 8 = 2 \<or> j div 8 = 3" by linarith
  have m: "j div 8 = q \<Longrightarrow> j mod 8 = j - 8 * q" for q by (metis minus_mult_div_eq_mod)
  show ?thesis
  proof (cases "j < 32")
    case True
    show ?thesis using True c [OF True] m [of 0] m [of 1] m [of 2] m [of 3]
      by (auto simp: poly_ld32_def bit_simps bit_byte_ge not_le)
  qed (auto simp: poly_ld32_def bit_simps dest: bit_imp_le_length)
qed

lemma load_limb:
  assumes "off + 4 \<le> length p" "length p = 16" "8 * off + k = 26 * i" "k \<le> 6"
  shows "bit (drop_bit k (poly_ld32 p off)) j \<longleftrightarrow> k + j < 32 \<and> bit (le_word p :: 128 word) (26 * i + j)"
proof -
  have d: "(26 * i + j) div 8 = off + (k + j) div 8" "(26 * i + j) mod 8 = (k + j) mod 8"
    unfolding assms(3) [symmetric] by (simp_all add: add.assoc)
  have "k + j < 32 \<Longrightarrow> 26 * i + j < 128" using assms by simp
  moreover have "k + j < 32 \<Longrightarrow> off + (k + j) div 8 < 16" using assms(1,2) less_mult_imp_div_less [of "k + j" 4 8] by simp
  ultimately show ?thesis using assms by (auto simp: bit_simps bit_poly_ld32 bit_le_word d)
qed

lemma bit_mask26: "bit (0x03ffffff :: u32) j \<longleftrightarrow> j < 26"
proof -
  have "(0x03ffffff :: u32) = mask 26" by (simp add: mask_eq_exp_minus_1)
  then have "bit (0x03ffffff :: u32) j \<longleftrightarrow> bit (mask 26 :: u32) j" by (rule arg_cong)
  also have "\<dots> \<longleftrightarrow> j < 26" unfolding bit_mask_iff by auto
  finally show ?thesis .
qed

lemma load_limb_eq:
  assumes "off + 4 \<le> length p" "length p = 16" "8 * off + k = 26 * i" "k \<le> 6"
  shows "drop_bit k (poly_ld32 p off) AND 0x03ffffff = limb26 i (le_word p)"
proof (rule bit_word_eqI)
  fix j
  show "bit (drop_bit k (poly_ld32 p off) AND 0x03ffffff) j \<longleftrightarrow> bit (limb26 i (le_word p)) j"
    unfolding bit_and_iff bit_mask26 bit_limb26 load_limb [OF assms] using assms(4) by auto
qed

lemma block_limbs:
  assumes "length p = 16"
  shows "poly_ld32 p 0 AND 0x03ffffff = limb26 0 (le_word p)"
    "drop_bit 2 (poly_ld32 p 3) AND 0x03ffffff = limb26 1 (le_word p)"
    "drop_bit 4 (poly_ld32 p 6) AND 0x03ffffff = limb26 2 (le_word p)"
    "drop_bit 6 (poly_ld32 p 9) AND 0x03ffffff = limb26 3 (le_word p)"
    "drop_bit 8 (poly_ld32 p 12) = limb26 4 (le_word p)"
proof -
  show "poly_ld32 p 0 AND 0x03ffffff = limb26 0 (le_word p)"
    using load_limb_eq [of 0 p 0 0] assms by simp
  show "drop_bit 2 (poly_ld32 p 3) AND 0x03ffffff = limb26 1 (le_word p)"
    using assms by (intro load_limb_eq) simp_all
  show "drop_bit 4 (poly_ld32 p 6) AND 0x03ffffff = limb26 2 (le_word p)"
    using assms by (intro load_limb_eq) simp_all
  show "drop_bit 6 (poly_ld32 p 9) AND 0x03ffffff = limb26 3 (le_word p)"
    using assms by (intro load_limb_eq) simp_all
  have "bit (drop_bit 8 (poly_ld32 p 12)) j \<longleftrightarrow> bit (limb26 4 (le_word p)) j" for j
  proof -
    have d: "(8 + j) div 8 = Suc (j div 8)" "(8 + j) mod 8 = j mod 8" "(104 + j) div 8 = 13 + j div 8" "(104 + j) mod 8 = j mod 8"
      using mod_mult_self2 [of j 8 13] by (simp_all add: add.commute)
    show ?thesis using assms
      by (auto simp: bit_drop_bit_eq bit_poly_ld32 bit_limb26 bit_le_word d)
  qed
  then show "drop_bit 8 (poly_ld32 p 12) = limb26 4 (le_word p)" by (rule bit_word_eqI)
qed

lemma clamp_limbs:
  assumes "length p = 16"
  shows "drop_bit 2 (poly_ld32 p 3) AND 0x03ffff03 = limb26 1 (le_word p AND clamp_mask)" (is ?a)
    "drop_bit 4 (poly_ld32 p 6) AND 0x03ffc0ff = limb26 2 (le_word p AND clamp_mask)" (is ?b)
    "drop_bit 6 (poly_ld32 p 9) AND 0x03f03fff = limb26 3 (le_word p AND clamp_mask)" (is ?c)
    "drop_bit 8 (poly_ld32 p 12) AND 0x000fffff = limb26 4 (le_word p AND clamp_mask)" (is ?d)
    "poly_ld32 p 0 AND 0x03ffffff = limb26 0 (le_word p AND clamp_mask)" (is ?e)
proof -
  have *: "limb26 i (w AND clamp_mask) = limb26 i w AND limb26 i clamp_mask" for i w
    by (rule bit_word_eqI) (auto simp: bit_limb26 bit_and_iff)
  have m: "limb26 0 clamp_mask = 0x03ffffff" "limb26 1 clamp_mask = 0x03ffff03" "limb26 2 clamp_mask = 0x03ffc0ff"
     "limb26 3 clamp_mask = 0x03f03fff" "limb26 4 clamp_mask = 0x000fffff"
    by (simp_all add: limb26_def clamp_mask_def take_bit_eq_mod drop_bit_eq_div)
  note b = block_limbs [OF assms]
  show ?a ?b ?c ?d ?e
    using arg_cong [OF b(2), of "\<lambda>x. x AND 0x03ffff03"] arg_cong [OF b(3), of "\<lambda>x. x AND 0x03ffc0ff"]
      arg_cong [OF b(4), of "\<lambda>x. x AND 0x03f03fff"] arg_cong [OF b(1), of "\<lambda>x. x AND 0x03ffffff"]
    unfolding * m b(5) by (simp_all add: and.assoc)
qed


lemma unat_limb26: "unat (limb26 i w) = unat w div LB ^ i mod LB"
proof -
  have "unat (limb26 i w) = unat (take_bit 26 (drop_bit (26 * i) w))"
    unfolding limb26_def unsigned_ucast_eq unsigned_take_bit_eq by (simp add: take_bit_take_bit)
  also have "\<dots> = unat w div 2 ^ (26 * i) mod 2 ^ 26"
    unfolding unsigned_take_bit_eq unat_drop_bit_eq by (simp only: take_bit_eq_mod drop_bit_eq_div)
  finally show ?thesis by (simp add: LB_def power_mult)
qed

lemma limbs26_value: "value5 (limbs26 w) = unat w"
proof -
  have "unat w < LB ^ 5" using unsigned_less [of w, where 'a = nat] by (simp add: LB_def)
  then have "unat w div LB ^ 4 mod LB = unat w div LB ^ 4"
    by (intro mod_less) (simp add: LB_def less_mult_imp_div_less)
  moreover have "x div LB ^ i = x div LB ^ i mod LB + LB * (x div LB ^ Suc i)" for x i
    by (simp add: div_mult2_eq mult.commute [of LB "LB ^ i"])
  from this [of "unat w" 0] this [of "unat w" 1] this [of "unat w" 2] this [of "unat w" 3]
  have "unat w = unat w mod LB + LB * (unat w div LB ^ 1 mod LB + LB * (unat w div LB ^ 2 mod LB + LB *
      (unat w div LB ^ 3 mod LB + LB * (unat w div LB ^ 4))))" by (simp add: eval_nat_numeral)
  ultimately show ?thesis
    unfolding limbs26_def value5_def prod.case unat_limb26
    by (simp add: algebra_simps power2_eq_square power3_eq_cube power4_eq_xxxx)
qed

lemma limb26_bound: "unat (limb26 i w) < LB"
  by (simp add: unat_limb26 LB_def)

lemma r_ok_limbs26: "r_ok (limbs26 w)"
  by (simp add: r_ok_def limbs26_def limb26_bound)

lemma poly_clamp_limbs:
  assumes "length key = 32"
  shows "poly_clamp key = limbs26 (le_word (take 16 key) AND clamp_mask)"
proof -
  have l: "length (take 16 key) = 16" using assms by simp
  have "poly_ld32 key off = poly_ld32 (take 16 key) off" if "off \<le> 12" for off
    using that by (simp add: poly_ld32_def)
  then show ?thesis
    using clamp_limbs [OF l] by (simp add: poly_clamp_def limbs26_def)
qed

section \<open>The loop\<close>

lemma poly_block_step:
  assumes "msg \<noteq> []" "h_ok h" "poly_block msg = (block, hibit)"
  shows "h_sum_ok (poly_add_block h block hibit)"
    "value5 (poly_add_block h block hibit) = value5 h + le_nat (take 16 msg @ [1])"
proof -
  define n where "n = (if length msg < 16 then length msg else 16)"
  define p where "p = (if length msg < 16 then take 16 msg @ [1] @ zeros (15 - length msg) else take 16 msg)"
  have z1: "length msg < 16 \<Longrightarrow> replicate (16 - length msg) 0 = 0 # replicate (15 - length msg) (0 :: byte)"
    by (simp flip: replicate_Suc add: Suc_diff_le)
  have p: "block = p" "hibit = (if length msg < 16 then 0 else push_bit 24 1)" "length p = 16"
    using assms(1,3) z1 unfolding poly_block_def Let_def p_def
    by (auto simp: store_at_def zeros_def list_update_append split: if_splits)
  obtain h0 h1 h2 h3 h4 where h: "h = (h0, h1, h2, h3, h4)" by (cases h)
  define w where "w = (le_word p :: 128 word)"
  have l4: "unat (limb26 4 w) < 2 ^ 24"
    using unsigned_less [of w, where 'a = nat] unfolding unat_limb26
    by (intro le_less_trans [OF mod_less_eq_dividend]) (simp add: LB_def less_mult_imp_div_less)
  have b24: "\<not> bit (limb26 4 w) 24"
    unfolding bit_limb26 using bit_imp_le_length [of w 128] by auto
  have or: "unat (limb26 4 w OR hibit) = unat (limb26 4 w) + unat hibit"
  proof -
    have "limb26 4 w OR hibit = limb26 4 w + hibit"
      unfolding p(2)
    proof (rule disjunctive_add [symmetric])
      fix n
      have "bit (push_bit 24 1 :: u32) n \<longleftrightarrow> n = 24" unfolding bit_push_bit_iff by (auto simp: bit_1_iff)
      then show "\<not> bit (limb26 4 w) n \<or> \<not> bit (if length msg < 16 then 0 else push_bit 24 1 :: u32) n"
        using b24 by (cases "n = 24") (simp_all only: if_split bit_0_eq bot_apply, simp_all)
    qed
    then show ?thesis using l4 unfolding p(2) by (simp add: unat_add_small)
  qed
  have r: "poly_add_block h block hibit =
      (h0 + limb26 0 w, h1 + limb26 1 w, h2 + limb26 2 w, h3 + limb26 3 w, h4 + (limb26 4 w OR hibit))"
    unfolding poly_add_block_def h prod.case p(1) block_limbs [OF p(3)] w_def ..
  have hb: "unat h0 < LB" "unat h1 < LB + 64" "unat h2 < LB" "unat h3 < LB" "unat h4 < LB"
    using assms(2) by (auto simp: h h_ok_def)
  have hib: "unat hibit \<le> 2 ^ 24" by (simp add: p(2))
  have u: "unat (a + limb26 i w) = unat a + unat (limb26 i w)" if "unat a < LB + 64" for a i
    using that limb26_bound [of i w] by (intro unat_add_small) (simp add: LB_def)
  have u4: "unat (h4 + (limb26 4 w OR hibit)) = unat h4 + unat (limb26 4 w) + unat hibit"
    using hb l4 hib or by (subst unat_add_small) (simp_all add: LB_def)
  show "h_sum_ok (poly_add_block h block hibit)"
    unfolding r h_sum_ok_def prod.case u4
    using hb l4 hib limb26_bound [of 0 w] limb26_bound [of 1 w] limb26_bound [of 2 w] limb26_bound [of 3 w]
    by (simp add: u) (simp add: LB_def)
  have "value5 (poly_add_block h block hibit) = value5 h + (value5 (limbs26 w) + LB ^ 4 * unat hibit)"
    unfolding r using hb by (simp add: value5_def limbs26_def h u4 u algebra_simps)
  also have "value5 (limbs26 w) = le_nat p"
    unfolding limbs26_value w_def by (rule unat_le_word) (simp add: p)
  also have "le_nat p + LB ^ 4 * unat hibit = le_nat (take 16 msg @ [1])"
  proof -
    have z: "le_nat (xs @ zeros k) = le_nat xs" for xs k
      by (induction xs) (auto simp: zeros_def, induction k, auto)
    have one: "le_nat (xs @ [1]) = le_nat xs + 256 ^ length xs" for xs
      by (induction xs) simp_all
    show ?thesis
    proof (cases "length msg < 16")
      case True
      then show ?thesis using z [of "msg @ [1]"] by (simp add: p_def p(2))
    next
      case False
      then show ?thesis by (simp add: p_def p(2) one LB_def)
    qed
  qed
  finally show "value5 (poly_add_block h block hibit) = value5 h + le_nat (take 16 msg @ [1])" .
qed

lemma poly_round:
  assumes "msg \<noteq> []" "h_ok h" "r_ok r" "poly_block msg = (block, hibit)"
  shows "h_ok (poly_carry64 (poly_mult r (poly_add_block h block hibit)))"
    "value5 (poly_carry64 (poly_mult r (poly_add_block h block hibit))) mod poly_p
     = (value5 h + le_nat (take 16 msg @ [1])) * value5 r mod poly_p"
proof -
  obtain r0 r1 r2 r3 r4 where r: "r = (r0, r1, r2, r3, r4)" by (cases r)
  obtain h0 h1 h2 h3 h4 where h: "poly_add_block h block hibit = (h0, h1, h2, h3, h4)" by (cases "poly_add_block h block hibit")
  obtain d0 d1 d2 d3 d4 where d: "poly_mult r (h0, h1, h2, h3, h4) = (d0, d1, d2, d3, d4)"
    by (cases "poly_mult r (h0, h1, h2, h3, h4)")
  note b = poly_block_step [OF assms(1,2,4), unfolded h]
  note m = poly_mult_spec [OF assms(3) [unfolded r] b(1) d [unfolded r]]
  note c = poly_carry64_spec [OF m(1-5)]
  show "h_ok (poly_carry64 (poly_mult r (poly_add_block h block hibit)))" unfolding h d by (rule c(1))
  show "value5 (poly_carry64 (poly_mult r (poly_add_block h block hibit))) mod poly_p
     = (value5 h + le_nat (take 16 msg @ [1])) * value5 r mod poly_p"
    by (simp only: h r d [unfolded r] c(2) m(6) b(2))
qed

lemma poly_loop_acc:
  "r_ok r \<Longrightarrow> h_ok h \<Longrightarrow> value5 h mod poly_p = acc mod poly_p \<Longrightarrow>
   h_ok (poly_loop r h msg) \<and> value5 (poly_loop r h msg) mod poly_p = ref_acc (value5 r) acc msg mod poly_p"
proof (induction "length msg" arbitrary: h acc msg rule: less_induct)
  case less
  show ?case
  proof (cases "msg = []")
    case True
    then show ?thesis using less.prems by (simp add: poly_loop.simps ref_acc.simps)
  next
    case False
    obtain block hibit where b: "poly_block msg = (block, hibit)" by (cases "poly_block msg")
    define h' where "h' = poly_carry64 (poly_mult r (poly_add_block h block hibit))"
    note s = poly_round [OF False less.prems(2,1) b, folded h'_def]
    have n: "drop (if length msg < 16 then length msg else 16) msg = drop 16 msg" by simp
    have l: "poly_loop r h msg = poly_loop r h' (drop 16 msg)"
      using False b n by (subst poly_loop.simps) (simp add: Let_def h'_def)
    have a: "ref_acc (value5 r) acc msg = ref_acc (value5 r) ((acc + le_nat (take 16 msg @ [1])) * value5 r mod poly_p) (drop 16 msg)"
      using False by (subst ref_acc.simps) simp
    have "value5 h' mod poly_p = (acc + le_nat (take 16 msg @ [1])) * value5 r mod poly_p"
      unfolding s(2) using less.prems(3) by (metis mod_add_left_eq mod_mult_left_eq)
    then show ?thesis unfolding l a using False less.prems(1) s(1) by (intro less.hyps) simp_all
  qed
qed


section \<open>The final reduction\<close>

definition limbs_ok :: "limbs5 \<Rightarrow> bool" where
  "limbs_ok h \<longleftrightarrow> (case h of (h0, h1, h2, h3, h4) \<Rightarrow> unat h0 < LB \<and> unat h1 < LB \<and> unat h2 < LB \<and> unat h3 < LB \<and> unat h4 < LB)"

lemma poly_final_carry_spec:
  assumes "h_ok h"
  shows "limbs_ok (poly_final_carry h)" "value5 (poly_final_carry h) mod poly_p = value5 h mod poly_p"
proof -
  obtain h0 h1 h2 h3 h4 where h: "h = (h0, h1, h2, h3, h4)" by (cases h)
  have hb: "unat h0 < LB" "unat h1 < LB + 64" "unat h2 < LB" "unat h3 < LB" "unat h4 < LB"
    using assms by (auto simp: h h_ok_def)
  have m: "x mod LB < LB" for x by (simp add: LB_def)
  define e2 where "e2 = h2 + drop_bit 26 h1"
  define e3 where "e3 = h3 + drop_bit 26 e2"
  define e4 where "e4 = h4 + drop_bit 26 e3"
  define c where "c = drop_bit 26 e4"
  define f0 where "f0 = (h0 :: u32) + c * 5"
  have q: "x div LB \<le> 1" if "x < 2 * LB" for x using less_mult_imp_div_less [OF that] by simp
  have d1: "unat (drop_bit 26 h1) \<le> 1" unfolding unat_drop_26 using hb(2) by (intro q) (simp add: LB_def)
  have e2: "unat e2 = unat h2 + unat h1 div LB"
    unfolding e2_def unat_drop_26 [symmetric] using hb d1 by (intro unat_add_small) (simp add: LB_def)
  have d2: "unat (drop_bit 26 e2) \<le> 1" unfolding unat_drop_26 using hb d1 e2 by (intro q) (simp add: unat_drop_26 LB_def)
  have e3: "unat e3 = unat h3 + unat e2 div LB"
    unfolding e3_def unat_drop_26 [symmetric] using hb d2 by (intro unat_add_small) (simp add: LB_def)
  have d3: "unat (drop_bit 26 e3) \<le> 1" unfolding unat_drop_26 using hb d2 e3 by (intro q) (simp add: unat_drop_26 LB_def)
  have e4: "unat e4 = unat h4 + unat e3 div LB"
    unfolding e4_def unat_drop_26 [symmetric] using hb d3 by (intro unat_add_small) (simp add: LB_def)
  have d4: "unat c \<le> 1" unfolding c_def unat_drop_26 using hb d3 e4 by (intro q) (simp add: unat_drop_26 LB_def)
  have f0: "unat f0 = unat h0 + 5 * unat c"
  proof -
    have "unat (c * 5) = unat c * 5" using d4 by (simp add: unat_word_ariths)
    then show ?thesis unfolding f0_def using hb d4 by (subst unat_add_small) (simp_all add: LB_def)
  qed
  have d5: "unat (drop_bit 26 f0) \<le> 1" unfolding unat_drop_26 using hb d4 f0 by (intro q) (simp add: LB_def)
  have r: "poly_final_carry h = (f0 AND 0x03ffffff, (h1 AND 0x03ffffff) + drop_bit 26 f0, e2 AND 0x03ffffff, e3 AND 0x03ffffff, e4 AND 0x03ffffff)"
    by (simp add: poly_final_carry_def h Let_def f0_def e2_def e3_def e4_def c_def)
  have u1: "unat ((h1 AND 0x03ffffff) + drop_bit 26 f0) = unat h1 mod LB + unat f0 div LB"
    unfolding and_26 [symmetric] unat_drop_26 [symmetric]
    using d5 m [of "unat h1"] by (intro unat_add_small) (simp add: and_26, simp add: LB_def)
  have small: "unat h1 mod LB + unat f0 div LB < LB"
  proof (cases "unat c = 0")
    case True
    then show ?thesis using f0 hb m [of "unat h1"] by simp
  next
    case False
    then have "1 \<le> unat e4 div LB" by (simp add: c_def unat_drop_26)
    have step: "1 \<le> y div LB" if "1 \<le> (x + y div LB) div LB" "x < LB" for x y
    proof (rule ccontr)
      assume "\<not> 1 \<le> y div LB"
      then show False using that by simp
    qed
    have "1 \<le> unat e3 div LB" using step \<open>1 \<le> unat e4 div LB\<close> hb unfolding e4 by blast
    then have "1 \<le> unat e2 div LB" using step hb unfolding e3 by blast
    then have "1 \<le> unat h1 div LB" using step hb unfolding e2 by blast
    then have "LB \<le> unat h1" by (simp add: LB_def)
    then have "unat h1 mod LB < 64" using hb by (simp add: le_mod_geq LB_def)
    then show ?thesis using d5 by (simp add: unat_drop_26 LB_def)
  qed
  show "limbs_ok (poly_final_carry h)"
    unfolding r limbs_ok_def prod.case and_26 u1 using small by (simp add: m)
  have "value5 h + 5 * unat c = value5 (poly_final_carry h) + LB ^ 5 * unat c"
  proof -
    have e1: "unat h1 = unat h1 + (0 :: nat) div LB" by simp
    have "value5 h = (0 + LB * unat h1 + LB ^ 2 * unat h2 + LB ^ 3 * unat h3 + LB ^ 4 * unat h4) + unat h0"
      by (simp add: h value5_def)
    also have "\<dots> = LB * (unat h1 mod LB) + LB ^ 2 * (unat e2 mod LB) + LB ^ 3 * (unat e3 mod LB) + LB ^ 4 * (unat e4 mod LB)
        + LB ^ 5 * (unat e4 div LB) + unat h0"
      unfolding carry_chain [OF e1 e2 e3 e4] by simp
    finally show ?thesis
      unfolding r value5_def prod.case and_26 u1 using f0 mod_mult_div_eq [of "unat f0" LB]
      by (simp add: algebra_simps c_def unat_drop_26)
  qed
  then show "value5 (poly_final_carry h) mod poly_p = value5 h mod poly_p"
    by (rule mod_p_swap [symmetric])
qed

lemma sign_mask:
  assumes "unat (g :: u32) < 2 ^ 31 \<or> 2 ^ 31 \<le> unat g"
  shows "drop_bit 31 g - 1 = (if 2 ^ 31 \<le> unat g then 0 else - 1)"
proof -
  have "unat (drop_bit 31 g) = unat g div 2 ^ 31" by (subst unat_drop_bit_eq) (simp add: drop_bit_eq_div)
  moreover have "unat g < 2 ^ 32" using unsigned_less [of g, where 'a = nat] by simp
  ultimately have "unat (drop_bit 31 g) = (if 2 ^ 31 \<le> unat g then 1 else 0)" by auto
  then have "drop_bit 31 g = (if 2 ^ 31 \<le> unat g then 1 else 0)" using word_of_unat by fastforce
  then show ?thesis by simp
qed

lemma poly_reduce_spec:
  assumes "limbs_ok h"
  shows "limbs_ok (poly_reduce h)" "value5 (poly_reduce h) = value5 h mod poly_p"
proof -
  obtain h0 h1 h2 h3 h4 where h: "h = (h0, h1, h2, h3, h4)" by (cases h)
  have hb: "unat h0 < LB" "unat h1 < LB" "unat h2 < LB" "unat h3 < LB" "unat h4 < LB"
    using assms by (auto simp: h limbs_ok_def)
  have m: "x mod LB < LB" for x by (simp add: LB_def)
  define g0 where "g0 = h0 + 5"
  define g1 where "g1 = h1 + drop_bit 26 g0"
  define g2 where "g2 = h2 + drop_bit 26 g1"
  define g3 where "g3 = h3 + drop_bit 26 g2"
  define s4 where "s4 = h4 + drop_bit 26 g3"
  have q: "x div LB \<le> 1" if "x < 2 * LB" for x using less_mult_imp_div_less [OF that] by simp
  have g0: "unat g0 = unat h0 + 5" unfolding g0_def using hb by (subst unat_add_small) (simp_all add: LB_def)
  have d0: "unat (drop_bit 26 g0) \<le> 1" unfolding unat_drop_26 using hb g0 by (intro q) (simp add: LB_def)
  have g1: "unat g1 = unat h1 + unat g0 div LB"
    unfolding g1_def unat_drop_26 [symmetric] using hb d0 by (intro unat_add_small) (simp add: LB_def)
  have d1: "unat (drop_bit 26 g1) \<le> 1" unfolding unat_drop_26 using hb d0 g1 by (intro q) (simp add: unat_drop_26 LB_def)
  have g2: "unat g2 = unat h2 + unat g1 div LB"
    unfolding g2_def unat_drop_26 [symmetric] using hb d1 by (intro unat_add_small) (simp add: LB_def)
  have d2: "unat (drop_bit 26 g2) \<le> 1" unfolding unat_drop_26 using hb d1 g2 by (intro q) (simp add: unat_drop_26 LB_def)
  have g3: "unat g3 = unat h3 + unat g2 div LB"
    unfolding g3_def unat_drop_26 [symmetric] using hb d2 by (intro unat_add_small) (simp add: LB_def)
  have d3: "unat (drop_bit 26 g3) \<le> 1" unfolding unat_drop_26 using hb d2 g3 by (intro q) (simp add: unat_drop_26 LB_def)
  have s4: "unat s4 = unat h4 + unat g3 div LB"
    unfolding s4_def unat_drop_26 [symmetric] using hb d3 by (intro unat_add_small) (simp add: LB_def)
  have s4b: "unat s4 \<le> LB" using hb d3 s4 by (simp add: unat_drop_26)
  have lb: "unat (push_bit 26 1 :: u32) = LB" by (simp add: LB_def)
  define g4 where "g4 = s4 - push_bit 26 1"
  have chain: "value5 h + 5 = unat g0 mod LB + LB * (unat g1 mod LB) + LB ^ 2 * (unat g2 mod LB) + LB ^ 3 * (unat g3 mod LB)
      + LB ^ 4 * (unat s4 mod LB) + LB ^ 5 * (unat s4 div LB)"
    using carry_chain [OF g1 g2 g3 s4] g0 unfolding h value5_def prod.case by simp
  have rest: "a + LB * b + LB ^ 2 * c + LB ^ 3 * d < LB ^ 4" if "a < LB" "b < LB" "c < LB" "d < LB" for a b c d
    using that by (simp add: LB_def)
  define M where "M = drop_bit 31 g4 - 1"
  have r: "poly_reduce h = ((h0 AND NOT M) OR ((g0 AND 0x03ffffff) AND M), (h1 AND NOT M) OR ((g1 AND 0x03ffffff) AND M),
      (h2 AND NOT M) OR ((g2 AND 0x03ffffff) AND M), (h3 AND NOT M) OR ((g3 AND 0x03ffffff) AND M), (h4 AND NOT M) OR (g4 AND M))"
    by (simp add: poly_reduce_def h Let_def g0_def g1_def g2_def g3_def g4_def s4_def M_def)
  show "limbs_ok (poly_reduce h)" "value5 (poly_reduce h) = value5 h mod poly_p"
  proof (atomize (full), cases "unat s4 = LB")
    case True
    then have "s4 = push_bit 26 1" using lb by (metis word_unat_eq_iff)
    then have g4: "g4 = 0" by (simp add: g4_def)
    then have M: "M = - 1" by (simp add: M_def)
    have v: "poly_reduce h = (g0 AND 0x03ffffff, g1 AND 0x03ffffff, g2 AND 0x03ffffff, g3 AND 0x03ffffff, 0)"
      unfolding r M g4 by simp
    have "value5 (poly_reduce h) = unat g0 mod LB + LB * (unat g1 mod LB) + LB ^ 2 * (unat g2 mod LB) + LB ^ 3 * (unat g3 mod LB)"
      unfolding v by (simp add: value5_def and_26)
    then have "value5 h + 5 = value5 (poly_reduce h) + LB ^ 5"
      using chain unfolding True by (simp add: LB_def)
    then have e: "value5 h = value5 (poly_reduce h) + poly_p" unfolding poly_p_LB [symmetric] by simp
    have "value5 (poly_reduce h) < poly_p"
      using rest [OF m m m m, of "unat g0" "unat g1" "unat g2" "unat g3"]
      unfolding v value5_def prod.case and_26 by (simp add: poly_p_def LB_def)
    then have "value5 (poly_reduce h) = value5 h mod poly_p" unfolding e by simp
    moreover have "limbs_ok (poly_reduce h)"
      unfolding v limbs_ok_def prod.case and_26 by (simp add: m) (simp add: LB_def)
    ultimately show "limbs_ok (poly_reduce h) \<and> value5 (poly_reduce h) = value5 h mod poly_p" by simp
  next
    case False
    then have lt: "unat s4 < LB" using s4b by simp
    have "unat g4 = unat s4 + 2 ^ 32 - LB"
      unfolding g4_def using lt by (simp add: unat_sub_if' LB_def)
    then have "2 ^ 31 \<le> unat g4" by (simp add: LB_def)
    then have M: "M = 0" unfolding M_def by (subst sign_mask) auto
    have v: "poly_reduce h = h" unfolding r M by (simp add: h)
    have "value5 h + 5 < LB ^ 4 + LB ^ 4 * unat s4"
      unfolding chain using lt rest [OF m m m m, of "unat g0" "unat g1" "unat g2" "unat g3"] by simp
    also have "\<dots> = LB ^ 4 * Suc (unat s4)" by simp
    also have "\<dots> \<le> LB ^ 5" using lt by (simp add: LB_def)
    finally have "value5 h < poly_p" unfolding poly_p_LB [symmetric] by simp
    then show "limbs_ok (poly_reduce h) \<and> value5 (poly_reduce h) = value5 h mod poly_p"
      unfolding v using assms by simp
  qed
qed


section \<open>The tag\<close>

lemma or_push:
  assumes "unat (a :: u32) < 2 ^ k"
  shows "unat (a OR push_bit k b) = (unat a + 2 ^ k * unat b) mod 2 ^ 32"
proof -
  have "\<not> bit a n" if "k \<le> n" for n
  proof
    assume "bit a n"
    then have "bit (unat a) n" by (simp add: bit_unsigned_iff)
    moreover have "(2::nat) ^ k \<le> 2 ^ n" using that by (rule power_increasing) simp
    ultimately show False using assms by (simp add: bit_iff_odd)
  qed
  then have "a OR push_bit k b = a + push_bit k b"
    by (intro disjunctive_add [symmetric]) (auto simp: bit_push_bit_iff not_le)
  also have "\<dots> = of_nat (unat a + 2 ^ k * unat b)" by (simp add: push_bit_eq_mult)
  finally show ?thesis by (simp only: unat_of_nat) (simp add: take_bit_eq_mod)
qed

lemma unat_shift: "unat (drop_bit k (x :: u32)) = unat x div 2 ^ k"
  by (subst unat_drop_bit_eq) (simp add: drop_bit_eq_div)

lemma le_nat_append: "le_nat (a @ b) = le_nat a + 256 ^ length a * le_nat b"
  by (induction a) (simp_all add: algebra_simps)

lemma le_nat_st32: "le_nat (poly_st32 v) = unat v"
proof -
  have "poly_st32 v = le_bytes 4 v" by (simp add: poly_st32_def le_bytes_def upt_rec)
  moreover have "le_nat (le_bytes 4 v) = unat (le_word (le_bytes 4 v) :: u32)"
    by (rule unat_le_word [symmetric]) simp
  ultimately show ?thesis by (simp add: le_word_le_bytes)
qed

lemma le_nat_ld32: "off + 4 \<le> length p \<Longrightarrow> unat (poly_ld32 p off) = le_nat (take 4 (drop off p))"
proof -
  assume l: "off + 4 \<le> length p"
  have "poly_ld32 p off = le_word (take 4 (drop off p))"
  proof (rule bit_word_eqI)
    fix n assume "n < LENGTH(32)"
    then have "n div 8 < 4" by simp
    then show "bit (poly_ld32 p off) n = bit (le_word (take 4 (drop off p)) :: u32) n"
      using l \<open>n < LENGTH(32)\<close> by (simp add: bit_poly_ld32 bit_le_word)
  qed
  then show ?thesis using l by (simp only: unat_le_word) (simp add: unat_le_word)
qed

definition f_digit :: "nat \<Rightarrow> nat \<Rightarrow> nat" where
  "f_digit x i = x div (2 ^ 32) ^ i mod 2 ^ 32"

lemma digits4: "f_digit x 0 + 2 ^ 32 * f_digit x 1 + (2 ^ 32) ^ 2 * f_digit x 2 + (2 ^ 32) ^ 3 * f_digit x 3 = x mod 2 ^ 128"
proof -
  have *: "y mod (2 ^ 32 * b) = y mod 2 ^ 32 + 2 ^ 32 * (y div 2 ^ 32 mod b)" for y b :: nat
    by (simp only: mod_mult2_eq)
  have "(2::nat) ^ 128 = 2 ^ 32 * (2 ^ 32 * (2 ^ 32 * 2 ^ 32))" by simp
  then show ?thesis
    unfolding f_digit_def by (simp only: * div_mult2_eq [symmetric]) (simp add: div_mult2_eq)
qed

lemma digit_split: "x = lo + (2 ^ 32) ^ i * (m + 2 ^ 32 * hi) \<Longrightarrow> lo < (2 ^ 32) ^ i \<Longrightarrow> f_digit x i = m mod 2 ^ 32"
  by (simp add: f_digit_def)

lemma pack_digits:
  assumes "limbs_ok (h0, h1, h2, h3, h4)"
  shows "unat (h0 OR push_bit 26 h1) = f_digit (value5 (h0, h1, h2, h3, h4)) 0"
    "unat (drop_bit 6 h1 OR push_bit 20 h2) = f_digit (value5 (h0, h1, h2, h3, h4)) 1"
    "unat (drop_bit 12 h2 OR push_bit 14 h3) = f_digit (value5 (h0, h1, h2, h3, h4)) 2"
    "unat (drop_bit 18 h3 OR push_bit 8 h4) = f_digit (value5 (h0, h1, h2, h3, h4)) 3"
proof -
  obtain a b c d e where v: "a = unat h0" "b = unat h1" "c = unat h2" "d = unat h3" "e = unat h4" by blast
  have l: "a < 2 ^ 26" "b < 2 ^ 26" "c < 2 ^ 26" "d < 2 ^ 26" "e < 2 ^ 26"
    using assms by (auto simp: v limbs_ok_def LB_def)
  have V: "value5 (h0, h1, h2, h3, h4) = a + 2 ^ 26 * b + 2 ^ 52 * c + 2 ^ 78 * d + 2 ^ 104 * e"
    by (simp add: value5_def v LB_def)
  have t: "unat (h0 OR push_bit 26 h1) = (a + 2 ^ 26 * b) mod 2 ^ 32"
    "unat (drop_bit 6 h1 OR push_bit 20 h2) = (b div 2 ^ 6 + 2 ^ 20 * c) mod 2 ^ 32"
    "unat (drop_bit 12 h2 OR push_bit 14 h3) = (c div 2 ^ 12 + 2 ^ 14 * d) mod 2 ^ 32"
    "unat (drop_bit 18 h3 OR push_bit 8 h4) = (d div 2 ^ 18 + 2 ^ 8 * e) mod 2 ^ 32"
    using l by (simp_all add: or_push unat_shift v less_mult_imp_div_less)
  obtain bq br cq cr dq dr where q: "bq = b div 2 ^ 6" "cq = c div 2 ^ 12" "dq = d div 2 ^ 18"
    "br = b mod 2 ^ 6" "cr = c mod 2 ^ 12" "dr = d mod 2 ^ 18" by blast
  then have m: "b = br + 64 * bq" "br < 64" "c = cr + 4096 * cq" "cr < 4096" "d = dr + 262144 * dq" "dr < 262144"
    by simp_all
  show "unat (h0 OR push_bit 26 h1) = f_digit (value5 (h0, h1, h2, h3, h4)) 0"
    unfolding t V by (rule digit_split [of _ 0 0 _ "2 ^ 20 * c + 2 ^ 46 * d + 2 ^ 72 * e", symmetric]) simp_all
  show "unat (drop_bit 6 h1 OR push_bit 20 h2) = f_digit (value5 (h0, h1, h2, h3, h4)) 1"
    unfolding t V q(1) [symmetric]
  proof (rule digit_split [of _ "a + 2 ^ 26 * br" _ _ "2 ^ 14 * d + 2 ^ 40 * e", symmetric])
    show "a + 2 ^ 26 * br < (2 ^ 32) ^ 1" using m(2) l(1) by simp
  qed (simp add: m(1))
  show "unat (drop_bit 12 h2 OR push_bit 14 h3) = f_digit (value5 (h0, h1, h2, h3, h4)) 2"
    unfolding t V q(2) [symmetric]
  proof (rule digit_split [of _ "a + 2 ^ 26 * b + 2 ^ 52 * cr" _ _ "2 ^ 8 * e", symmetric])
    show "a + 2 ^ 26 * b + 2 ^ 52 * cr < (2 ^ 32) ^ 2" using m(4) l(1,2) by simp
  qed (simp add: m(3))
  show "unat (drop_bit 18 h3 OR push_bit 8 h4) = f_digit (value5 (h0, h1, h2, h3, h4)) 3"
    unfolding t V q(3) [symmetric]
  proof (rule digit_split [of _ "a + 2 ^ 26 * b + 2 ^ 52 * c + 2 ^ 78 * dr" _ _ 0, symmetric])
    show "a + 2 ^ 26 * b + 2 ^ 52 * c + 2 ^ 78 * dr < (2 ^ 32) ^ 3" using m(6) l(1,2,3) by simp
  qed (simp add: m(5))
qed

text \<open>The last addition, 32 bits at a time with the carry in the upper half of a 64-bit word.\<close>

lemma add_digits:
  fixes f0 f1 f2 f3 k0 k1 k2 k3 :: u32
  assumes "t0 = (ucast f0 :: u64) + ucast k0" "t1 = ucast f1 + ucast k1 + drop_bit 32 t0"
    "t2 = ucast f2 + ucast k2 + drop_bit 32 t1" "t3 = ucast f3 + ucast k3 + drop_bit 32 t2"
  shows "unat (ucast t0 :: u32) + 2 ^ 32 * unat (ucast t1 :: u32) + (2 ^ 32) ^ 2 * unat (ucast t2 :: u32) + (2 ^ 32) ^ 3 * unat (ucast t3 :: u32)
    = ((unat f0 + 2 ^ 32 * unat f1 + (2 ^ 32) ^ 2 * unat f2 + (2 ^ 32) ^ 3 * unat f3)
      + (unat k0 + 2 ^ 32 * unat k1 + (2 ^ 32) ^ 2 * unat k2 + (2 ^ 32) ^ 3 * unat k3)) mod 2 ^ 128"
proof -
  have b: "unat (x :: u32) < 2 ^ 32" for x using unsigned_less [of x, where 'a = nat] by simp
  have db: "unat (drop_bit 32 (x :: u64)) = unat x div 2 ^ 32" for x
    by (subst unat_drop_bit_eq) (simp add: drop_bit_eq_div)
  have db': "unat (drop_bit 32 (x :: u64)) < 2 ^ 32" for x
    unfolding db using unsigned_less [of x, where 'a = nat] by (simp add: less_mult_imp_div_less)
  have s: "unat (ucast x + ucast y + drop_bit 32 z :: u64) = unat x + unat y + unat z div 2 ^ 32" for x y :: u32 and z :: u64
    using b [of x] b [of y] db [of z] db' [of z] by (simp add: unat_add_small unat_ucast_64)
  have t0: "unat t0 = unat f0 + unat k0"
    using b [of f0] b [of k0] unfolding assms(1) by (simp add: unat_add_small unat_ucast_64)
  have t: "unat t1 = (unat f1 + unat k1) + unat t0 div 2 ^ 32" "unat t2 = (unat f2 + unat k2) + unat t1 div 2 ^ 32"
    "unat t3 = (unat f3 + unat k3) + unat t2 div 2 ^ 32"
    unfolding assms(2,3,4) s by simp_all
  have u: "unat (ucast x :: u32) = unat x mod 2 ^ 32" for x :: u64 by (simp add: unsigned_ucast_eq take_bit_eq_mod)
  have e: "unat t3 div 2 ^ 32 = 0 + unat t3 div 2 ^ 32" by simp
  define total where "total = unat t0 + 2 ^ 32 * (unat f1 + unat k1) + (2 ^ 32) ^ 2 * (unat f2 + unat k2) + (2 ^ 32) ^ 3 * (unat f3 + unat k3)"
  have top: "(2 ^ 32) ^ 4 * (unat t3 div 2 ^ 32 mod 2 ^ 32) + (2 ^ 32) ^ 5 * (unat t3 div 2 ^ 32 div 2 ^ 32) = (2 ^ 32) ^ 4 * (unat t3 div 2 ^ 32)"
  proof -
    have b5: "b ^ 5 = b ^ 4 * b" for b :: nat by (simp add: eval_nat_numeral)
    have "b ^ 4 * (x mod b) + b ^ 5 * (x div b) = b ^ 4 * (x mod b + b * (x div b))" for x b :: nat
      by (simp only: distrib_left b5 mult.assoc)
    then show ?thesis by (simp only: mod_mult_div_eq)
  qed
  have c: "total = unat t0 mod 2 ^ 32 + 2 ^ 32 * (unat t1 mod 2 ^ 32) + (2 ^ 32) ^ 2 * (unat t2 mod 2 ^ 32) + (2 ^ 32) ^ 3 * (unat t3 mod 2 ^ 32)
      + (2 ^ 32) ^ 4 * (unat t3 div 2 ^ 32)"
    using carry_chain [OF t e] top unfolding total_def by linarith
  have lt: "unat t0 mod 2 ^ 32 + 2 ^ 32 * (unat t1 mod 2 ^ 32) + (2 ^ 32) ^ 2 * (unat t2 mod 2 ^ 32) + (2 ^ 32) ^ 3 * (unat t3 mod 2 ^ 32) < 2 ^ 128"
  proof -
    have "a + 2 ^ 32 * b + (2 ^ 32) ^ 2 * c + (2 ^ 32) ^ 3 * d < 2 ^ 128"
      if "a < 2 ^ 32" "b < 2 ^ 32" "c < 2 ^ 32" "d < 2 ^ 32" for a b c d :: nat using that by simp
    then show ?thesis by simp
  qed
  have "total mod 2 ^ 128 = unat t0 mod 2 ^ 32 + 2 ^ 32 * (unat t1 mod 2 ^ 32) + (2 ^ 32) ^ 2 * (unat t2 mod 2 ^ 32) + (2 ^ 32) ^ 3 * (unat t3 mod 2 ^ 32)"
  proof -
    have "(2 ^ 32) ^ 4 = (2 :: nat) ^ 128" by simp
    then show ?thesis unfolding c using lt by (simp only: mod_mult_self2 mod_less)
  qed
  then show ?thesis unfolding u total_def t0 by (simp add: algebra_simps)
qed


lemma poly_tag_spec:
  assumes "length key = 32" "limbs_ok h"
  shows "le_nat (poly_tag key h) = (value5 h + le_nat (take 16 (drop 16 key))) mod 2 ^ 128" "length (poly_tag key h) = 16"
proof -
  obtain h0 h1 h2 h3 h4 where h: "h = (h0, h1, h2, h3, h4)" by (cases h)
  note p = pack_digits [OF assms(2) [unfolded h]]
  define f0 where "f0 = h0 OR push_bit 26 h1"
  define f1 where "f1 = drop_bit 6 h1 OR push_bit 20 h2"
  define f2 where "f2 = drop_bit 12 h2 OR push_bit 14 h3"
  define f3 where "f3 = drop_bit 18 h3 OR push_bit 8 h4"
  define t0 where "t0 = (ucast f0 :: u64) + ucast (poly_ld32 key 16)"
  define t1 where "t1 = ucast f1 + ucast (poly_ld32 key 20) + drop_bit 32 t0"
  define t2 where "t2 = ucast f2 + ucast (poly_ld32 key 24) + drop_bit 32 t1"
  define t3 where "t3 = ucast f3 + ucast (poly_ld32 key 28) + drop_bit 32 t2"
  have r: "poly_tag key h = poly_st32 (ucast t0) @ poly_st32 (ucast t1) @ poly_st32 (ucast t2) @ poly_st32 (ucast t3)"
    unfolding poly_tag_def h prod.case Let_def f0_def [symmetric] f1_def [symmetric] f2_def [symmetric] f3_def [symmetric]
      t0_def [symmetric] t1_def [symmetric] t2_def [symmetric] t3_def [symmetric] ..
  have l: "length (poly_st32 x) = 4" for x by (simp add: poly_st32_def)
  show "length (poly_tag key h) = 16" by (simp add: r l)
  have f: "unat f0 = f_digit (value5 h) 0" "unat f1 = f_digit (value5 h) 1" "unat f2 = f_digit (value5 h) 2" "unat f3 = f_digit (value5 h) 3"
    unfolding f0_def f1_def f2_def f3_def h by (rule p)+
  have k: "unat (poly_ld32 key 16) + 2 ^ 32 * unat (poly_ld32 key 20) + (2 ^ 32) ^ 2 * unat (poly_ld32 key 24)
      + (2 ^ 32) ^ 3 * unat (poly_ld32 key 28) = le_nat (take 16 (drop 16 key))"
  proof -
    have "take 16 (drop 16 key) = take 4 (drop 16 key) @ take 4 (drop 20 key) @ take 4 (drop 24 key) @ take 4 (drop 28 key)"
      using take_add [of 4 12 "drop 16 key"] take_add [of 4 8 "drop 20 key"] take_add [of 4 4 "drop 24 key"] by simp
    then show ?thesis using assms(1) by (simp only: le_nat_append) (simp add: le_nat_ld32 algebra_simps)
  qed
  have "le_nat (poly_tag key h) = unat (ucast t0 :: u32) + 2 ^ 32 * unat (ucast t1 :: u32) + (2 ^ 32) ^ 2 * unat (ucast t2 :: u32)
      + (2 ^ 32) ^ 3 * unat (ucast t3 :: u32)"
    unfolding r le_nat_append le_nat_st32 l by (simp add: algebra_simps)
  also have "\<dots> = (value5 h mod 2 ^ 128 + le_nat (take 16 (drop 16 key))) mod 2 ^ 128"
    unfolding add_digits [OF t0_def t1_def t2_def t3_def] f digits4 k ..
  finally show "le_nat (poly_tag key h) = (value5 h + le_nat (take 16 (drop 16 key))) mod 2 ^ 128"
    by (simp only: mod_add_left_eq)
qed

lemma ref_acc_bound: "acc < poly_p \<Longrightarrow> ref_acc r acc msg < poly_p"
proof (induction r acc msg rule: ref_acc.induct)
  case (1 r acc msg)
  then show ?case by (subst ref_acc.simps) (simp add: poly_p_def)
qed

lemma Poly1305_spec:
  assumes "length key = 32"
  shows "le_nat (Poly1305 msg key) = poly1305_ref msg key" "length (Poly1305 msg key) = 16"
proof -
  define r where "r = poly_clamp key"
  have rr: "r = limbs26 (le_word (take 16 key) AND clamp_mask)" unfolding r_def by (rule poly_clamp_limbs [OF assms])
  have vr: "value5 r = ref_r key" unfolding rr limbs26_value ref_r_def ..
  have h0: "h_ok (0, 0, 0, 0, 0)" "value5 (0, 0, 0, 0, 0) mod poly_p = 0 mod poly_p"
    by (simp_all add: h_ok_def LB_def value5_def)
  have rk: "r_ok r" unfolding rr by (rule r_ok_limbs26)
  define h where "h = poly_loop r (0, 0, 0, 0, 0) msg"
  have h: "h_ok h" "value5 h mod poly_p = ref_acc (ref_r key) 0 msg mod poly_p"
    using poly_loop_acc [OF rk h0, of msg] unfolding h_def vr by simp_all
  note c = poly_final_carry_spec [OF h(1)]
  note d = poly_reduce_spec [OF c(1)]
  note t = poly_tag_spec [OF assms d(1)]
  have acc: "ref_acc (ref_r key) 0 msg mod poly_p = ref_acc (ref_r key) 0 msg"
    using ref_acc_bound [of 0 "ref_r key" msg] by (simp add: poly_p_def)
  have e: "Poly1305 msg key = poly_tag key (poly_reduce (poly_final_carry h))"
    by (simp add: Poly1305_def h_def r_def)
  show "le_nat (Poly1305 msg key) = poly1305_ref msg key"
    unfolding e t(1) d(2) c(2) h(2) acc poly1305_ref_def ..
  show "length (Poly1305 msg key) = 16" unfolding e by (rule t(2))
qed

text \<open>A buffer is determined by its length and its number.\<close>

lemma le_nat_inject: "length a = length b \<Longrightarrow> le_nat a = le_nat b \<Longrightarrow> a = b"
proof (induction a b rule: list_induct2)
  case (Cons x xs y ys)
  have b: "unat x < 256" "unat y < 256" using unsigned_less [of x, where 'a = nat] unsigned_less [of y, where 'a = nat] by simp_all
  have m: "(unat z + 256 * n) mod 256 = unat z" "(unat z + 256 * n) div 256 = n" if "unat z < 256" for z :: byte and n
    using that by simp_all
  have "unat x = unat y" "le_nat xs = le_nat ys"
    using Cons.prems m [OF b(1), of "le_nat xs"] m [OF b(2), of "le_nat ys"] by simp_all
  then show ?case using Cons.IH by (simp add: word_unat_eq_iff)
qed simp

end
