(* ===== verification/Adiantum.thy ===== *)
theory Adiantum
  imports ChaCha AesCt Poly1305Correct
begin

text \<open>
  Adiantum, \<open>src/src/Crypto/Adiantum.c\<close>: the wide-block mode made of XChaCha12, one AES-256 block, NH and
  Poly1305. The last block of the sector is masked by a hash of the rest, encrypted, used as the nonce of the
  stream over the rest, and masked again by the hash of the result; the masks are added and subtracted modulo
  \<open>2^128\<close>, byte by byte.

  The lemmas show what the byte-wise addition and subtraction compute, that the hash stays inside its buffers, and
  that \<open>AdiantumDecrypt\<close> and \<open>AdiantumEncrypt\<close> are inverse.
\<close>

record AdiantumKey =
  ak_k :: bytes
  ak_rt :: bytes
  ak_rm :: bytes
  ak_kn :: bytes
  ak_blk :: bytes

definition ADIANTUM_MAX_SECTOR :: nat where "ADIANTUM_MAX_SECTOR = 4096"

definition ADIANTUM_MAX_TWEAK :: nat where "ADIANTUM_MAX_TWEAK = 64"

section \<open>The stream\<close>

definition ad_ld32 :: "bytes \<Rightarrow> nat \<Rightarrow> u32" where
  "ad_ld32 p off = ucast (p ! off) OR push_bit 8 (ucast (p ! (off + 1))) OR push_bit 16 (ucast (p ! (off + 2)))
     OR push_bit 24 (ucast (p ! (off + 3)))"

definition ad_st32 :: "u32 \<Rightarrow> bytes" where
  "ad_st32 v = [ucast v, ucast (drop_bit 8 v), ucast (drop_bit 16 v), ucast (drop_bit 24 v)]"

definition ad_st64 :: "u64 \<Rightarrow> bytes" where
  "ad_st64 v = ad_st32 (ucast v) @ ad_st32 (ucast (drop_bit 32 v))"

definition ad_rotl32 :: "u32 \<Rightarrow> nat \<Rightarrow> u32" where
  "ad_rotl32 x n = push_bit n x OR drop_bit (32 - n) x"

definition QR :: "nat \<Rightarrow> nat \<Rightarrow> nat \<Rightarrow> nat \<Rightarrow> u32 list \<Rightarrow> u32 list" where
  "QR a b c d x =
     (let x = x[a := x ! a + x ! b]; x = x[d := ad_rotl32 (x ! d XOR x ! a) 16];
          x = x[c := x ! c + x ! d]; x = x[b := ad_rotl32 (x ! b XOR x ! c) 12];
          x = x[a := x ! a + x ! b]; x = x[d := ad_rotl32 (x ! d XOR x ! a) 8];
          x = x[c := x ! c + x ! d]; x = x[b := ad_rotl32 (x ! b XOR x ! c) 7]
      in x)"

definition hchacha_round :: "u32 list \<Rightarrow> u32 list" where
  "hchacha_round x =
     (let x = QR 0 4 8 12 x; x = QR 1 5 9 13 x; x = QR 2 6 10 14 x; x = QR 3 7 11 15 x;
          x = QR 0 5 10 15 x; x = QR 1 6 11 12 x; x = QR 2 7 8 13 x; x = QR 3 4 9 14 x
      in x)"

definition hchacha12 :: "bytes \<Rightarrow> bytes \<Rightarrow> bytes" where
  "hchacha12 key in16 =
     (let x = [0x61707865, 0x3320646E, 0x79622D32, 0x6B206574]
              @ map (\<lambda>i. ad_ld32 key (4 * i)) [0..<8] @ map (\<lambda>i. ad_ld32 in16 (4 * i)) [0..<4];
          x = (hchacha_round ^^ 6) x
      in concat (map (\<lambda>i. ad_st32 (x ! i)) [0..<4]) @ concat (map (\<lambda>i. ad_st32 (x ! (12 + i))) [0..<4]))"

definition xchacha12_xor :: "bytes \<Rightarrow> bytes \<Rightarrow> bytes \<Rightarrow> bytes" where
  "xchacha12_xor key nonce24 ins =
     (let subkey = hchacha12 key nonce24;
          ctx = ChaCha256Init subkey (drop 16 nonce24) 12 chacha_uninit
      in fst (ChaCha256Encrypt ctx ins))"

section \<open>The hash\<close>

definition nh_sum :: "u32 list \<Rightarrow> u32 list \<Rightarrow> nat \<Rightarrow> nat \<Rightarrow> u64" where
  "nh_sum m kw nw off =
     fold (\<lambda>k sum. let i = 4 * k;
                         sum = sum + ucast (m ! i + kw ! (off + i)) * ucast (m ! (i + 2) + kw ! (off + i + 2))
                     in sum + ucast (m ! (i + 1) + kw ! (off + i + 1)) * ucast (m ! (i + 3) + kw ! (off + i + 3)))
       [0..<(nw + 3) div 4] 0"

definition nh_hash :: "bytes \<Rightarrow> bytes \<Rightarrow> bytes" where
  "nh_hash kn chunk =
     (let nw = length chunk div 4;
          m = map (\<lambda>i. ad_ld32 chunk (4 * i)) [0..<nw];
          kw = map (\<lambda>i. ad_ld32 kn (4 * i)) [0..<268]
      in concat (map (\<lambda>p. ad_st64 (nh_sum m kw nw (4 * p))) [0..<4]))"

fun add128_loop :: "u32 \<Rightarrow> bytes \<Rightarrow> bytes \<Rightarrow> bytes" where
  "add128_loop carry (a # as) (b # bs) =
     (let carry = carry + (ucast a + ucast b) in ucast carry # add128_loop (drop_bit 8 carry) as bs)"
| "add128_loop carry _ _ = []"

definition add128 :: "bytes \<Rightarrow> bytes \<Rightarrow> bytes" where
  "add128 a b = add128_loop 0 a b"

fun sub128_loop :: "int \<Rightarrow> bytes \<Rightarrow> bytes \<Rightarrow> bytes" where
  "sub128_loop borrow (a # as) (b # bs) =
     (let d = uint a - uint b - borrow
      in of_int (d AND 0xff) # sub128_loop (if d < 0 then 1 else 0) as bs)"
| "sub128_loop borrow _ _ = []"

definition sub128 :: "bytes \<Rightarrow> bytes \<Rightarrow> bytes" where
  "sub128 a b = sub128_loop 0 a b"

definition poly_hrbar :: "bytes \<Rightarrow> bytes \<Rightarrow> bytes" where
  "poly_hrbar r16 msg = Poly1305 msg (take 16 r16 @ zeros 16)"

text \<open>The loop over the padded message in chunks of at most 1024 bytes.\<close>

function nh_chunks :: "bytes \<Rightarrow> bytes \<Rightarrow> bytes" where
  "nh_chunks kn padded =
     (if length padded = 0 then []
      else nh_hash kn (take (if length padded < 1024 then length padded else 1024) padded) @ nh_chunks kn (drop 1024 padded))"
  by pat_completeness auto
termination by (relation "measure (\<lambda>(kn, padded). length padded)") auto

declare nh_chunks.simps [simp del]

definition adiantum_hash :: "AdiantumKey \<Rightarrow> bytes \<Rightarrow> bytes \<Rightarrow> bytes" where
  "adiantum_hash ak tweak l =
     (let llen = length l;
          plen = (llen + 15) div 16 * 16;
          msg1 = store_at 0 (ad_st64 (of_nat llen * 8)) (zeros 16) @ tweak;
          out = poly_hrbar (ak_rt ak) msg1
      in if llen > 0
         then let padded = l @ zeros (plen - llen);
                  h2 = poly_hrbar (ak_rm ak) (nh_chunks (ak_kn ak) padded)
              in add128 out h2
         else out)"

section \<open>The key schedule and the two directions\<close>

definition AdiantumInit :: "bytes \<Rightarrow> AdiantumKey" where
  "AdiantumInit key =
     (let nonce = (zeros 24)[0 := 0x01];
          ks = xchacha12_xor key nonce (zeros 1136)
      in \<lparr>ak_k = take 32 key, ak_rt = slice 32 16 ks, ak_rm = slice 48 16 ks, ak_kn = slice 64 1072 ks,
          ak_blk = AesCtInit256 ks\<rparr>)"

definition ad_nonce :: "bytes \<Rightarrow> bytes" where
  "ad_nonce cm = cm @ [0x01] @ zeros 7"

definition AdiantumEncrypt :: "AdiantumKey \<Rightarrow> bytes \<Rightarrow> bytes \<Rightarrow> bytes \<Rightarrow> int \<times> bytes" where
  "AdiantumEncrypt ak tweak pt ct =
     (if length pt < 16 \<or> length pt > ADIANTUM_MAX_SECTOR \<or> length tweak > ADIANTUM_MAX_TWEAK then (0, ct)
      else
        let llen = length pt - 16;
            h = adiantum_hash ak tweak (take llen pt);
            pm = add128 (slice llen 16 pt) h;
            cm = AesCtEncryptBlock (ak_blk ak) pm;
            cl = xchacha12_xor (ak_k ak) (ad_nonce cm) (take llen pt);
            h = adiantum_hash ak tweak cl
        in (1, cl @ sub128 cm h))"

definition AdiantumDecrypt :: "AdiantumKey \<Rightarrow> bytes \<Rightarrow> bytes \<Rightarrow> bytes \<Rightarrow> int \<times> bytes" where
  "AdiantumDecrypt ak tweak ct pt =
     (if length ct < 16 \<or> length ct > ADIANTUM_MAX_SECTOR \<or> length tweak > ADIANTUM_MAX_TWEAK then (0, pt)
      else
        let llen = length ct - 16;
            h = adiantum_hash ak tweak (take llen ct);
            cm = add128 (slice llen 16 ct) h;
            pl = xchacha12_xor (ak_k ak) (ad_nonce cm) (take llen ct);
            pm = AesCtDecryptBlock (ak_blk ak) cm;
            h = adiantum_hash ak tweak pl
        in (1, pl @ sub128 pm h))"

section \<open>Addition and subtraction\<close>

lemma length_add128 [simp]: "length (add128 a b) = min (length a) (length b)"
proof -
  have "length (add128_loop c a b) = min (length a) (length b)" for c
    by (induction c a b rule: add128_loop.induct) (simp_all add: Let_def)
  then show ?thesis by (simp add: add128_def)
qed

lemma length_sub128 [simp]: "length (sub128 a b) = min (length a) (length b)"
proof -
  have "length (sub128_loop c a b) = min (length a) (length b)" for c
    by (induction c a b rule: sub128_loop.induct) (simp_all add: Let_def)
  then show ?thesis by (simp add: sub128_def)
qed

lemma byte_bounds: "unat (a :: byte) < 256"
  using unsigned_less [of a, where 'a = nat] by simp

lemma byte_int_bounds: "0 \<le> uint (a :: byte)" "uint a < 256"
  using unsigned_less [of a, where 'a = int] by simp_all

lemma mod_step: "(x mod 256 + 256 * ((x div 256 + n) mod m)) = (x + 256 * n) mod (256 * m)" for x n m :: nat
  by (simp add: mod_mult2_eq add.commute)

lemma add128_loop_value:
  "length a = length b \<Longrightarrow> unat c \<le> 1 \<Longrightarrow>
   le_nat (add128_loop c a b) = (le_nat a + le_nat b + unat c) mod 256 ^ length a"
proof (induction a b arbitrary: c rule: list_induct2)
  case (Cons x xs y ys)
  have s: "unat (c + (ucast x + ucast y)) = unat c + (unat x + unat y)"
    using Cons.prems byte_bounds [of x] byte_bounds [of y]
    by (simp add: unat_add_small unsigned_ucast_eq take_bit_nat_eq_self)
  have d: "unat (drop_bit 8 (c + (ucast x + ucast y))) = (unat c + (unat x + unat y)) div 256"
    by (subst unat_drop_bit_eq) (simp add: drop_bit_eq_div s)
  have le: "unat (drop_bit 8 (c + (ucast x + ucast y))) \<le> 1"
    unfolding d using Cons.prems byte_bounds [of x] byte_bounds [of y] by simp
  have u: "unat (ucast (c + (ucast x + ucast y)) :: byte) = (unat c + (unat x + unat y)) mod 256"
    by (simp add: unsigned_ucast_eq take_bit_eq_mod s)
  show ?case
    using mod_step [of "unat c + (unat x + unat y)" "le_nat xs + le_nat ys" "256 ^ length xs"]
    by (simp add: Let_def u Cons.IH [OF le] d algebra_simps)
qed simp

lemma add128_value: "length a = length b \<Longrightarrow> le_nat (add128 a b) = (le_nat a + le_nat b) mod 256 ^ length a"
  by (simp add: add128_def add128_loop_value)

lemma mod_step_int: "(x mod 256 + 256 * ((x div 256 + n) mod m)) = (x + 256 * n) mod (256 * m)" if "0 < m" for x n m :: int
  using that by (simp add: mod_mult2_eq' zmod_zmult2_eq add.commute)

lemma sub128_loop_value:
  "length a = length b \<Longrightarrow> br = 0 \<or> br = 1 \<Longrightarrow>
   int (le_nat (sub128_loop br a b)) = (int (le_nat a) - int (le_nat b) - br) mod 256 ^ length a"
proof (induction a b arbitrary: br rule: list_induct2)
  case (Cons x xs y ys)
  define d where "d = uint x - uint y - br"
  have b: "- 256 \<le> d" "d < 256"
    using Cons.prems byte_int_bounds [of x] byte_int_bounds [of y] unfolding d_def by linarith+
  define br' :: int where "br' = (if d < 0 then 1 else 0)"
  have q: "d div 256 = - br'"
  proof (cases "d < 0")
    case True
    then have "(d + 256) div 256 = 0" using b by (simp add: zdiv_eq_0_iff)
    then show ?thesis using True by (simp add: br'_def)
  qed (use b in \<open>simp add: br'_def zdiv_eq_0_iff\<close>)
  have m: "uint (of_int (d AND 0xff) :: byte) = d mod 256"
  proof -
    have "(0xff :: int) = mask 8" by (simp add: mask_eq_exp_minus_1)
    then have "d AND 0xff = take_bit 8 d" by (simp only: take_bit_eq_mask)
    then have "d AND 0xff = d mod 256" by (simp add: take_bit_eq_mod)
    then show ?thesis by (simp add: uint_word_of_int)
  qed
  have r: "sub128_loop br (x # xs) (y # ys) = of_int (d AND 0xff) # sub128_loop br' xs ys"
    by (simp add: Let_def d_def br'_def)
  have "int (le_nat (sub128_loop br' xs ys)) = (int (le_nat xs) - int (le_nat ys) - br') mod 256 ^ length xs"
    by (rule Cons.IH) (auto simp: br'_def)
  then have "int (le_nat (sub128_loop br (x # xs) (y # ys))) = (d + 256 * (int (le_nat xs) - int (le_nat ys))) mod (256 * 256 ^ length xs)"
    unfolding r using mod_step_int [of "256 ^ length xs" d "int (le_nat xs) - int (le_nat ys)"]
    by (simp add: m q algebra_simps)
  then show ?case by (simp add: d_def algebra_simps)
qed simp

lemma sub128_value: "length a = length b \<Longrightarrow> int (le_nat (sub128 a b)) = (int (le_nat a) - int (le_nat b)) mod 256 ^ length a"
  by (simp add: sub128_def sub128_loop_value)

lemma le_nat_bound: "le_nat a < 256 ^ length a"
proof (induction a)
  case (Cons x xs)
  then show ?case using byte_bounds [of x] by simp
qed simp

lemma sub_add128: "length a = length b \<Longrightarrow> sub128 (add128 a b) b = a"
proof (rule le_nat_inject)
  assume l: "length a = length b"
  have "int (le_nat (sub128 (add128 a b) b)) = int (le_nat a)"
    using l le_nat_bound [of a] by (simp add: sub128_value add128_value zmod_int mod_diff_left_eq) (simp flip: of_nat_power of_nat_mod)?
  then show "le_nat (sub128 (add128 a b) b) = le_nat a" by simp
qed simp

lemma add_sub128: "length a = length b \<Longrightarrow> add128 (sub128 a b) b = a"
proof (rule le_nat_inject)
  assume l: "length a = length b"
  have "int (le_nat (add128 (sub128 a b) b)) = int (le_nat a)"
    using l le_nat_bound [of a] by (simp add: sub128_value add128_value zmod_int mod_add_left_eq)
  then show "le_nat (add128 (sub128 a b) b) = le_nat a" by simp
qed simp


section \<open>The buffers of the hash\<close>

lemma length_ad_st64 [simp]: "length (ad_st64 v) = 8"
  by (simp add: ad_st64_def ad_st32_def)

lemma length_nh_hash [simp]: "length (nh_hash kn chunk) = 32"
  by (simp add: nh_hash_def Let_def length_concat comp_def sum_list_triv)

lemma length_nh_chunks: "length (nh_chunks kn padded) = 32 * ((length padded + 1023) div 1024)"
proof (induction "length padded" arbitrary: padded rule: less_induct)
  case less
  show ?case
  proof (cases "padded = []")
    case True
    then show ?thesis by (simp add: nh_chunks.simps)
  next
    case False
    then have "length (nh_chunks kn (drop 1024 padded)) = 32 * ((length (drop 1024 padded) + 1023) div 1024)"
      by (intro less.hyps) simp
    moreover have "(length padded + 1023) div 1024 = Suc ((length (drop 1024 padded) + 1023) div 1024)"
      using False by (cases "1024 \<le> length padded") (auto simp: le_div_geq div_if)
    ultimately show ?thesis using False by (subst nh_chunks.simps) simp
  qed
qed

text \<open>The scratch buffers of \<open>adiantum_hash\<close> have room for the padded message and for the hashes of its chunks.\<close>

lemma adiantum_hash_buffers:
  assumes "length l \<le> ADIANTUM_MAX_SECTOR - 16"
  shows "(length l + 15) div 16 * 16 \<le> ADIANTUM_MAX_SECTOR"
    "length (nh_chunks kn (l @ zeros ((length l + 15) div 16 * 16 - length l))) \<le> 4 * 32"
  using assms by (simp_all add: ADIANTUM_MAX_SECTOR_def length_nh_chunks)

lemma length_poly_hrbar [simp]: "length r = 16 \<Longrightarrow> length (poly_hrbar r msg) = 16"
  unfolding poly_hrbar_def by (rule Poly1305_spec(2)) simp

definition ad_key_ok :: "AdiantumKey \<Rightarrow> bool" where
  "ad_key_ok ak \<longleftrightarrow> length (ak_rt ak) = 16 \<and> length (ak_rm ak) = 16"

lemma length_adiantum_hash [simp]: "ad_key_ok ak \<Longrightarrow> length (adiantum_hash ak tweak l) = 16"
  by (simp add: adiantum_hash_def ad_key_ok_def Let_def)

lemma xchacha_fresh: "cpos (ChaCha256Init key iv r chacha_uninit) = 0" "length (input_w (ChaCha256Init key iv r chacha_uninit)) = 16"
  by (simp_all add: chacha_uninit_def)

lemma length_xchacha12 [simp]: "length (xchacha12_xor key nonce m) = length m"
  unfolding xchacha12_xor_def Let_def by (rule encrypt_fresh_twice(1)) (rule xchacha_fresh)+

lemma xchacha12_twice: "xchacha12_xor key nonce (xchacha12_xor key nonce m) = m"
  unfolding xchacha12_xor_def Let_def by (rule encrypt_fresh_twice(2)) (rule xchacha_fresh)+

lemma ad_key_ok_Init: "ad_key_ok (AdiantumInit key)"
  by (simp add: ad_key_ok_def AdiantumInit_def Let_def)

section \<open>The two directions\<close>

definition ad_in_range :: "bytes \<Rightarrow> bytes \<Rightarrow> bool" where
  "ad_in_range tweak m \<longleftrightarrow> 16 \<le> length m \<and> length m \<le> ADIANTUM_MAX_SECTOR \<and> length tweak \<le> ADIANTUM_MAX_TWEAK"

text \<open>Both operations are the same pass over the sector: the last block is masked, permuted by \<open>F\<close>, and masked
  again; the nonce is the block on the cipher's output side.\<close>

lemma AdiantumEncrypt_eq:
  assumes "ad_in_range tweak (l @ r)" "length r = 16"
  shows "AdiantumEncrypt ak tweak (l @ r) out =
    (let cm = AesCtEncryptBlock (ak_blk ak) (add128 r (adiantum_hash ak tweak l));
         cl = xchacha12_xor (ak_k ak) (ad_nonce cm) l
     in (1, cl @ sub128 cm (adiantum_hash ak tweak cl)))"
  using assms by (simp add: AdiantumEncrypt_def ad_in_range_def Let_def slice_append_right)

lemma AdiantumDecrypt_eq:
  assumes "ad_in_range tweak (l @ r)" "length r = 16"
  shows "AdiantumDecrypt ak tweak (l @ r) out =
    (let cm = add128 r (adiantum_hash ak tweak l);
         pl = xchacha12_xor (ak_k ak) (ad_nonce cm) l
     in (1, pl @ sub128 (AesCtDecryptBlock (ak_blk ak) cm) (adiantum_hash ak tweak pl)))"
  using assms by (simp add: AdiantumDecrypt_def ad_in_range_def Let_def slice_append_right)

lemma adiantum_inverse:
  assumes "ad_in_range tweak m" "ad_key_ok ak"
  shows "AdiantumDecrypt ak tweak (snd (AdiantumEncrypt ak tweak m out)) out' = (1, m)"
    "AdiantumEncrypt ak tweak (snd (AdiantumDecrypt ak tweak m out)) out' = (1, m)"
proof -
  define l where "l = take (length m - 16) m"
  define r where "r = drop (length m - 16) m"
  have m: "m = l @ r" "length r = 16" using assms(1) by (simp_all add: l_def r_def ad_in_range_def)
  have rng: "ad_in_range tweak (l' @ r')" if "length l' = length l" "length r' = 16" for l' r'
    using assms(1) m that by (simp add: ad_in_range_def)
  note len = length_adiantum_hash [OF assms(2)]
  show "AdiantumDecrypt ak tweak (snd (AdiantumEncrypt ak tweak m out)) out' = (1, m)"
    using m(2) unfolding m(1) AdiantumEncrypt_eq [OF rng [OF refl m(2)] m(2)] Let_def snd_conv
    by (subst AdiantumDecrypt_eq) (simp_all add: rng len Let_def add_sub128 sub_add128 xchacha12_twice aes.D_E)
  show "AdiantumEncrypt ak tweak (snd (AdiantumDecrypt ak tweak m out)) out' = (1, m)"
    using m(2) unfolding m(1) AdiantumDecrypt_eq [OF rng [OF refl m(2)] m(2)] Let_def snd_conv
    by (subst AdiantumEncrypt_eq) (simp_all add: rng len Let_def add_sub128 sub_add128 xchacha12_twice aes.E_D)
qed

end
