(* ===== verification/PoolOrder.thy ===== *)
theory PoolOrder
  imports ThreadPool
begin

text \<open>
  The fragments of a request, processed by the threads of the pool in any order, give what the calling thread alone would
  compute: the contract \<open>unitwise\<close> on the encryption and decryption of data units.
\<close>

definition data_units :: "EncryptionThreadPoolWorkType \<Rightarrow> bool" where
  "data_units type \<longleftrightarrow> type = EncryptDataUnitsWork \<or> type = DecryptDataUnitsWork"

lemma data_units_simps [simp]:
  "data_units EncryptDataUnitsWork" "data_units DecryptDataUnitsWork" "\<not> data_units DeriveKeyWork" "\<not> data_units ReadVolumeHeaderFinalizationWork"
  by (simp_all add: data_units_def)

definition units_spec :: "primitives \<Rightarrow> EncryptionThreadPoolWorkType \<Rightarrow> int list \<Rightarrow> bytes \<Rightarrow> bytes \<Rightarrow> u64 \<Rightarrow> bytes \<Rightarrow> bytes" where
  "units_spec P type cs key key2 =
     (case type of EncryptDataUnitsWork \<Rightarrow> cascade_spec P cs key key2 | _ \<Rightarrow> decascade_spec P cs key key2)"

lemma ready_cascade:
  assumes "info_ready P key key2 ci"
  shows "set (ea_ciphers (ea ci)) \<subseteq> known_ciphers" "32 * length (ea_ciphers (ea ci)) \<le> length key"
    "32 * length (ea_ciphers (ea ci)) \<le> length key2"
    "scheduled P (ea_ciphers (ea ci)) key 0 (ks ci)" "scheduled P (ea_ciphers (ea ci)) key2 0 (ks2 ci)"
  using assms ea_ciphers_known [of "ea ci"] by (auto simp: info_ready_def EAGetKeySize_table)

lemma unitwise_units:
  assumes "primitives_ok P" "info_ready P key key2 ci"
  shows "unitwise (units_spec P type (ea_ciphers (ea ci)) key key2)"
  using unitwise_cascade [OF assms(1) ready_cascade(1-3) [OF assms(2)]]
  by (cases type) (simp_all add: units_spec_def)

lemma DecryptDataUnits_cascade:
  assumes "primitives_ok P" "info_ready P key key2 ci" "n * ENCRYPTION_DATA_UNIT_SIZE \<le> length buf"
  shows "DecryptDataUnitsCurrentThread P buf unit n ci =
      Some (store_at 0 (decascade_spec P (ea_ciphers (ea ci)) key key2 unit (take (n * ENCRYPTION_DATA_UNIT_SIZE) buf)) buf)"
proof -
  have r: "mode ci = XTS" "ea_valid (ea ci)" using assms(2) by (auto simp: info_ready_def)
  have m: "length (take (n * ENCRYPTION_DATA_UNIT_SIZE) buf) mod 16 = 0"
    using assms(3) by (intro mod_512_16) (simp add: ENCRYPTION_DATA_UNIT_SIZE_def)
  show ?thesis
    using decrypt_fold [OF assms(1) ready_cascade [OF assms(2)] m, of unit] r
    by (simp add: DecryptDataUnitsCurrentThread_def EAGetLastCipher_table for_previous_walk EAGetKeyScheduleSize_table)
qed

lemma current_thread_units_spec:
  assumes "primitives_ok P" "info_ready P key key2 ci" "n * ENCRYPTION_DATA_UNIT_SIZE \<le> length buf" "data_units type"
  shows "current_thread_units P type buf unit n ci =
      Some (store_at 0 (units_spec P type (ea_ciphers (ea ci)) key key2 unit (take (n * ENCRYPTION_DATA_UNIT_SIZE) buf)) buf)"
  using units_cascade(1) [OF assms(1-3)] DecryptDataUnits_cascade [OF assms(1-3)] assms(4)
  by (auto simp: current_thread_units_def units_spec_def data_units_def)

lemma process_fragment_transform:
  assumes "primitives_ok P" "info_ready P key key2 ci" "Data w + 512 * UnitCount w \<le> length buf" "data_units type"
  shows "process_fragment P type ci w buf = Some (unitwise.transform (units_spec P type (ea_ciphers (ea ci)) key key2) w buf)"
proof -
  let ?F = "units_spec P type (ea_ciphers (ea ci)) key key2"
  have "UnitCount w * ENCRYPTION_DATA_UNIT_SIZE \<le> length (drop (Data w) buf)"
    using assms(3) by (simp add: ENCRYPTION_DATA_UNIT_SIZE_def)
  note c = current_thread_units_spec [OF assms(1,2) this assms(4), of "StartUnitNo w"]
  show ?thesis
    unfolding process_fragment_def c
    using unitwise.length_F [OF unitwise_units [OF assms(1,2)], of "bytes_of w buf" type "StartUnitNo w"] assms(3)
    by (simp add: unitwise.transform_def [OF unitwise_units [OF assms(1,2)]] store_at_def bytes_of_def slice_def ENCRYPTION_DATA_UNIT_SIZE_def mult.commute add.commute)
qed

lemma pool_any_order:
  assumes "primitives_ok P" "info_ready P key key2 ci" "0 < ThreadCount" "length buf = n * ENCRYPTION_DATA_UNIT_SIZE"
    "mset ws = mset (work_fragments ThreadCount unit n)" "data_units type"
  shows "foldl (\<lambda>b w. Option.bind b (process_fragment P type ci w)) (Some buf) ws = current_thread_units P type buf unit n ci"
proof -
  let ?F = "units_spec P type (ea_ciphers (ea ci)) key key2"
  note u = unitwise_units [OF assms(1,2), of type]
  note f = work_fragments_tile [OF assms(3), of unit n]
  have l: "length buf = 512 * sum_list (map UnitCount (work_fragments ThreadCount unit n))"
    using f(2) assms(4) by (simp add: ENCRYPTION_DATA_UNIT_SIZE_def)
  have b: "Data w + 512 * UnitCount w \<le> length buf" if "w \<in> set ws" for w
    using unitwise.tiles_bounds [OF u f(1), of w] that assms(5) l by (metis add_0 mset_eq_setD)
  have run: "(\<forall>w\<in>set vs. Data w + 512 * UnitCount w \<le> length bf) \<Longrightarrow>
      foldl (\<lambda>b w. Option.bind b (process_fragment P type ci w)) (Some bf) vs = Some (fold (unitwise.transform ?F) vs bf)" for vs bf
  proof (induction vs arbitrary: bf)
    case (Cons v vs)
    then show ?case
      using process_fragment_transform [OF assms(1,2) _ assms(6), of v bf] unitwise.transform_facts(1) [OF u, of v bf] by simp
  qed simp
  have "current_thread_units P type buf unit n ci = Some (store_at 0 (?F unit buf) buf)"
    using current_thread_units_spec [OF assms(1,2) _ assms(6), of n buf unit] assms(4) by simp
  also have "store_at 0 (?F unit buf) buf = ?F unit buf"
    using unitwise.length_F [OF u, of buf unit] assms(4) by (simp add: store_at_def ENCRYPTION_DATA_UNIT_SIZE_def)
  also have "\<dots> = fold (unitwise.transform ?F) ws buf"
    by (rule unitwise.any_order [OF u f(1) l f(3) assms(5), symmetric])
  finally show ?thesis using run [of ws buf] b by simp
qed

end
