(* ===== verification/PimCosts.thy ===== *)
theory PimCosts
  imports PrfParams
begin

text \<open>
  The cost of a key derivation as a function of the personal iterations multiplier, for every PRF: positive, in the range of the
  C types for every PIM the program accepts (\<open>src/src/Common/Password.h\<close>), and growing with the PIM.
\<close>

definition MAX_PIM_VALUE :: int where "MAX_PIM_VALUE = 2147468"
definition MAX_BOOT_PIM_VALUE :: int where "MAX_BOOT_PIM_VALUE = 65535"

lemma prf_cases:
  assumes "FIRST_PRF_ID \<le> p" "p \<le> LAST_PRF_ID"
  obtains "p \<in> {BLAKE2S, SHA256, STREEBOG}" | "p \<in> {SHA512, WHIRLPOOL, SHA3_512, BLAKE2B}" | "p = ARGON2" | "p = BALLOON"
proof -
  from assms have "p \<in> {BLAKE2S, SHA256, STREEBOG, SHA512, WHIRLPOOL, SHA3_512, BLAKE2B, ARGON2, BALLOON}"
    by (simp add: FIRST_PRF_ID_def LAST_PRF_ID_def) (smt (verit))
  with that show thesis by blast
qed

lemma argon2_costs:
  assumes "1 \<le> m" "m \<le> n" "n \<le> MAX_PIM_VALUE"
  shows "fst (get_argon2_params m) \<le> fst (get_argon2_params n)" "3 \<le> fst (get_argon2_params m)" "fst (get_argon2_params n) < 2 ^ 31"
    "snd (get_argon2_params m) \<le> snd (get_argon2_params n)" "65536 \<le> snd (get_argon2_params m)" "snd (get_argon2_params n) \<le> 1048576"
proof -
  have d: "(m - 1) div 3 \<le> (n - 1) div 3" using assms by (intro zdiv_mono1) auto
  have d': "m \<le> 31 \<Longrightarrow> (m - 1) div 3 \<le> 10" "0 \<le> (m - 1) div 3" "n \<le> 31 \<Longrightarrow> (n - 1) div 3 \<le> 10" using assms by auto
  show "fst (get_argon2_params m) \<le> fst (get_argon2_params n)" "3 \<le> fst (get_argon2_params m)" "fst (get_argon2_params n) < 2 ^ 31"
    "snd (get_argon2_params m) \<le> snd (get_argon2_params n)" "65536 \<le> snd (get_argon2_params m)" "snd (get_argon2_params n) \<le> 1048576"
    using assms d d' by (auto simp: get_argon2_params_def Let_def MAX_PIM_VALUE_def)
qed

lemma sint_of_int_small: "0 \<le> x \<Longrightarrow> x < 2 ^ 31 \<Longrightarrow> sint (of_int x :: u32) = x"
  by (simp add: sint_uint uint_word_of_int_eq take_bit_int_eq_self signed_take_bit_int_eq_self)

text \<open>Balloon's parameters as integers.\<close>

lemma balloon_costs:
  assumes "1 \<le> m" "m \<le> MAX_PIM_VALUE"
  shows "BalloonGetResolvedParams m no_overrides = (of_int (3 + (m - 1) div 5), of_int (min 65536 (1024 + (m - 1) * 512)))"
proof -
  let ?k = "1024 + (m - 1) * 512"
  have "uint (of_int ?k :: u32) = ?k"
    unfolding uint_word_of_int_eq by (rule take_bit_int_eq_self) (use assms in \<open>simp_all add: MAX_PIM_VALUE_def\<close>)
  then have "(of_int ?k :: u32) > 65536 \<longleftrightarrow> ?k > 65536" by (simp add: word_less_def)
  moreover have "(of_int ?k :: u32) = 1024 + of_int (m - 1) * 512" by simp
  moreover have "(of_int (3 + (m - 1) div 5) :: u32) = 3 + of_int ((m - 1) div 5)" by simp
  ultimately show ?thesis
    using assms(1) by (simp add: BalloonGetResolvedParams_def no_overrides_def Let_def min_def del: of_int_add of_int_mult of_int_diff)
qed

text \<open>The memory of a derivation, in KiB: used by Argon2 and Balloon only.\<close>

definition memory_in_range :: "int \<Rightarrow> int \<Rightarrow> bool" where
  "memory_in_range p mem \<longleftrightarrow>
     (if p = ARGON2 then 65536 \<le> mem \<and> mem \<le> 1048576 else if p = BALLOON then 1024 \<le> mem \<and> mem \<le> 65536 else mem = 0)"

lemma pim_bound: "n \<le> (if b then MAX_BOOT_PIM_VALUE else MAX_PIM_VALUE) \<Longrightarrow> n \<le> MAX_PIM_VALUE"
  by (auto simp: MAX_BOOT_PIM_VALUE_def MAX_PIM_VALUE_def split: if_splits)

text \<open>The parameters of the memory-hard functions as integers; PIM 0 is 12 for Argon2.\<close>

lemma argon2_count:
  assumes "0 \<le> k" "k \<le> MAX_PIM_VALUE"
  shows "get_pkcs5_iteration_count ARGON2 k b no_overrides = Some (get_argon2_params (if k = 0 then 12 else k))"
proof -
  define j where "j = (if k = 0 then 12 else k)"
  have j: "1 \<le> j" "j \<le> MAX_PIM_VALUE" using assms by (auto simp: j_def MAX_PIM_VALUE_def)
  note r = argon2_costs [OF j(1) order_refl j(2)]
  have "get_argon2_params k = get_argon2_params j" using assms(1) by (simp add: j_def get_argon2_params_def Let_def)
  then show ?thesis
    unfolding j_def [symmetric] using assms(1) r
    by (simp add: get_pkcs5_iteration_count_def Argon2GetResolvedParams_def no_overrides_def split_def Let_def sint_of_int_small)
qed

lemma balloon_count:
  assumes "0 \<le> k" "k \<le> MAX_PIM_VALUE"
  shows "get_pkcs5_iteration_count BALLOON k b no_overrides =
    Some (if k = 0 then (3, 1024) else (3 + (k - 1) div 5, min 65536 (1024 + (k - 1) * 512)))"
proof (cases "k = 0")
  case True
  then show ?thesis by (simp add: get_pkcs5_iteration_count_def BalloonGetResolvedParams_def no_overrides_def)
next
  case False
  then have k: "1 \<le> k" using assms(1) by simp
  have s: "sint (of_int (3 + (k - 1) div 5) :: u32) = 3 + (k - 1) div 5" "sint (of_int (min 65536 (1024 + (k - 1) * 512)) :: u32) = min 65536 (1024 + (k - 1) * 512)"
    using k assms(2) by (intro sint_of_int_small; auto simp: MAX_PIM_VALUE_def)+
  show ?thesis using False k s balloon_costs [OF k assms(2)] by (simp add: get_pkcs5_iteration_count_def)
qed

text \<open>The cost of a derivation for a PIM, 0 included, and how it grows.\<close>

lemma prf_range:
  assumes "FIRST_PRF_ID \<le> p" "p \<le> LAST_PRF_ID" "0 \<le> k" "k \<le> (if b then MAX_BOOT_PIM_VALUE else MAX_PIM_VALUE)"
  shows "\<exists>it mem. get_pkcs5_iteration_count p k b no_overrides = Some (it, mem) \<and> 0 < it \<and> it < 2 ^ 31 \<and> memory_in_range p mem"
  using assms(1,2)
proof (cases rule: prf_cases)
  case 1
  then show ?thesis
    using assms(3,4) by (auto simp: get_pkcs5_iteration_count_def memory_in_range_def MAX_BOOT_PIM_VALUE_def MAX_PIM_VALUE_def split: if_splits)
next
  case 2
  then show ?thesis
    using assms(3,4) by (auto simp: get_pkcs5_iteration_count_def memory_in_range_def MAX_BOOT_PIM_VALUE_def MAX_PIM_VALUE_def split: if_splits)
next
  case 3
  have "1 \<le> (if k = 0 then 12 else k)" "(if k = 0 then 12 else k) \<le> MAX_PIM_VALUE"
    using assms(3) pim_bound [OF assms(4)] by (auto simp: MAX_PIM_VALUE_def)
  from argon2_costs [OF this(1) order_refl this(2)] argon2_count [OF assms(3) pim_bound [OF assms(4)], of b] show ?thesis
    using 3 by (intro exI [of _ "fst (get_argon2_params (if k = 0 then 12 else k))"] exI [of _ "snd (get_argon2_params (if k = 0 then 12 else k))"])
      (simp add: memory_in_range_def)
next
  case 4
  have "(k - 1) div 5 < 2 ^ 31 - 3" "0 \<le> (k - 1) div 5 \<or> k = 0"
    using assms(3) pim_bound [OF assms(4)] by (auto simp: MAX_PIM_VALUE_def)
  then show ?thesis
    using 4 assms(3) balloon_count [OF assms(3) pim_bound [OF assms(4)], of b] by (auto simp: memory_in_range_def)
qed

lemma prf_growth:
  assumes "FIRST_PRF_ID \<le> p" "p \<le> LAST_PRF_ID" "1 \<le> m" "m \<le> n" "n \<le> (if b then MAX_BOOT_PIM_VALUE else MAX_PIM_VALUE)"
    "get_pkcs5_iteration_count p m b no_overrides = Some (it, mem)" "get_pkcs5_iteration_count p n b no_overrides = Some (it', mem')"
  shows "it \<le> it' \<and> mem \<le> mem' \<and> (m < n \<and> p \<noteq> ARGON2 \<and> p \<noteq> BALLOON \<longrightarrow> it < it')"
  using assms(1,2)
proof (cases rule: prf_cases)
  case 1
  then show ?thesis using assms(3-) by (auto simp: get_pkcs5_iteration_count_def split: if_splits)
next
  case 2
  then show ?thesis using assms(3-) by (auto simp: get_pkcs5_iteration_count_def split: if_splits)
next
  case 3
  have b: "0 \<le> m" "m \<le> MAX_PIM_VALUE" "0 \<le> n" "n \<le> MAX_PIM_VALUE" using assms(3,4) pim_bound [OF assms(5)] by auto
  have "(it, mem) = get_argon2_params m" "(it', mem') = get_argon2_params n"
    using argon2_count [OF b(1,2), of b] argon2_count [OF b(3,4), of b] assms(3,4,6,7) 3 by auto
  then show ?thesis using argon2_costs(1,4) [OF assms(3,4) b(4)] 3 by (metis fst_conv snd_conv)
next
  case 4
  have b: "0 \<le> m" "m \<le> MAX_PIM_VALUE" "0 \<le> n" "n \<le> MAX_PIM_VALUE" using assms(3,4) pim_bound [OF assms(5)] by auto
  have d: "(m - 1) div 5 \<le> (n - 1) div 5" using assms(4) by (intro zdiv_mono1) auto
  have "it = 3 + (m - 1) div 5" "mem = min 65536 (1024 + (m - 1) * 512)" "it' = 3 + (n - 1) div 5" "mem' = min 65536 (1024 + (n - 1) * 512)"
    using balloon_count [OF b(1,2), of b] balloon_count [OF b(3,4), of b] assms(3,4,6,7) 4 by auto
  then show ?thesis using d assms(4) 4 by auto
qed

end
