(* ===== verification/WorkQueue.thy ===== *)
theory WorkQueue
  imports PoolOrder
begin

text \<open>
  The work queue of \<open>src/src/Common/EncryptionThreadPool.c\<close>: any number of calls of \<open>EncryptionThreadPoolDoWork\<close> and of the
  functions that begin other work, and any number of worker threads, interleaved step by step. A step is one access to shared state, so
  that the order in which a worker frees its item, reads \<open>FirstFragment\<close> and decrements the counter is the one of the code.

  The queue is a ring whose items are reused. \<open>nxt\<close> is how a position advances: \<open>ring_next\<close> for the code, \<open>Suc\<close> for
  the specification, a queue that never ends and reuses nothing.

  The fragment in the union of the item is a field of its own; what the union holds for the other types is left out, with the work they do: for a
  worker, an item of those types is freed in one step. In particular the wait of a finalisation for the derivations enqueued before it is not modelled.
  The worker's access to the data of a fragment is one step; fragments of the same buffer do not overlap (\<open>PoolOrder\<close>). The events a waiting
  loop sleeps on are not modelled: the loop is the condition it tests. Stopping the pool is not modelled either.
\<close>

section \<open>State\<close>

datatype WorkItemState = WorkItemFree | WorkItemReady | WorkItemBusy

text \<open>\<open>Buffer\<close> is the call whose buffer \<open>Encryption.Data\<close> points into, \<open>Encryption\<close> the offset and the units.\<close>

record EncryptionThreadPoolWorkItem =
  State :: WorkItemState
  ItemType :: EncryptionThreadPoolWorkType
  ItemCompletedEvent :: bool
  FirstFragment :: nat
  OutstandingFragmentCount :: int
  CryptoInfo :: CRYPTO_INFO
  Buffer :: nat
  Encryption :: fragment

text \<open>The arguments of a call: \<open>EncryptionThreadPoolDoWork\<close> with type, first unit, number of units and \<open>CRYPTO_INFO\<close>, or one of the functions that
  enqueue a single item of another type.\<close>

datatype call = DoWork EncryptionThreadPoolWorkType u64 nat CRYPTO_INFO | BeginWork EncryptionThreadPoolWorkType

text \<open>Where a call is: before the function, waiting for the first item to be free, at the head of the loop (with the fragments that are left), waiting for
  its next item to be free, having filled it, waiting for the completion event, about to free the first item, returned; for a single item, waiting for it to be
  free and having filled it. The last component is the index of the first item.\<close>

datatype call_pc =
    Outside
  | CheckFirst nat
  | NextItem "fragment list" nat
  | WaitFree nat "fragment list" nat
  | SetReady nat "fragment list" nat
  | WaitCompleted nat
  | FreeFirst nat
  | KeyWaitFree nat
  | KeySetReady nat
  | Returned

text \<open>Where a worker is: before the lock, holding it and waiting for its item to be ready, before the work, after it, before the decrement, and, when
  that gave zero, before signalling the event.\<close>

datatype thread_pc = Waiting | Holding nat | Working nat | Processed nat | Counting nat | Signalling nat

record pool =
  WorkItemQueue :: "nat \<Rightarrow> EncryptionThreadPoolWorkItem"
  EnqueuePosition :: nat
  DequeuePosition :: nat
  EnqueueMutex :: "nat option"
  DequeueMutex :: "nat option"
  callers :: "nat \<Rightarrow> call_pc"
  threads :: "nat \<Rightarrow> thread_pc"
  buffers :: "nat \<Rightarrow> bytes"

abbreviation item :: "pool \<Rightarrow> nat \<Rightarrow> EncryptionThreadPoolWorkItem" where
  "item s p \<equiv> WorkItemQueue s p"

definition set_item :: "nat \<Rightarrow> EncryptionThreadPoolWorkItem \<Rightarrow> pool \<Rightarrow> pool" where
  "set_item p w s = s\<lparr>WorkItemQueue := (WorkItemQueue s)(p := w)\<rparr>"

definition goto_call :: "nat \<Rightarrow> call_pc \<Rightarrow> pool \<Rightarrow> pool" where
  "goto_call c pc s = s\<lparr>callers := (callers s)(c := pc)\<rparr>"

definition goto_thread :: "nat \<Rightarrow> thread_pc \<Rightarrow> pool \<Rightarrow> pool" where
  "goto_thread t pc s = s\<lparr>threads := (threads s)(t := pc)\<rparr>"

text \<open>\<open>++\<close> and the wrap-around of the positions.\<close>

definition ring_next :: "nat \<Rightarrow> nat \<Rightarrow> nat" where
  "ring_next ThreadQueueSize p = (if p + 1 \<ge> ThreadQueueSize then 0 else p + 1)"

section \<open>Steps\<close>

fun call_fragments :: "nat \<Rightarrow> call \<Rightarrow> fragment list" where
  "call_fragments ThreadCount (DoWork type start n ci) = work_fragments ThreadCount start n"
| "call_fragments ThreadCount (BeginWork type) = []"

text \<open>\<open>EncryptionThreadPoolDoWork\<close> from a waiting state on, for the arguments \<open>type\<close> and \<open>ci\<close> and the list of fragments. \<open>None\<close>: the
  call cannot go on yet.\<close>

definition do_work_step :: "EncryptionThreadPoolWorkType \<Rightarrow> CRYPTO_INFO \<Rightarrow> fragment list \<Rightarrow> (nat \<Rightarrow> nat) \<Rightarrow> nat \<Rightarrow> pool \<Rightarrow> pool option" where
  "do_work_step type ci frs nxt c s =
     (case callers s c of
        CheckFirst f \<Rightarrow>
          if State (item s f) = WorkItemFree
          then Some (goto_call c (NextItem frs f) (set_item f ((item s f)\<lparr>OutstandingFragmentCount := int (length frs)\<rparr>) s))
          else None
      | NextItem ws f \<Rightarrow>
          if ws = [] then Some (goto_call c (WaitCompleted f) (s\<lparr>EnqueueMutex := None\<rparr>))
          else Some (goto_call c (WaitFree (EnqueuePosition s) ws f) (s\<lparr>EnqueuePosition := nxt (EnqueuePosition s)\<rparr>))
      | WaitFree p ws f \<Rightarrow>
          if State (item s p) = WorkItemFree
          then Some (goto_call c (SetReady p (tl ws) f)
                 (set_item p ((item s p)\<lparr>ItemType := type, FirstFragment := f, CryptoInfo := ci, Buffer := c, Encryption := hd ws\<rparr>) s))
          else None
      | SetReady p ws f \<Rightarrow> Some (goto_call c (NextItem ws f) (set_item p ((item s p)\<lparr>State := WorkItemReady\<rparr>) s))
      | WaitCompleted f \<Rightarrow>
          if ItemCompletedEvent (item s f)
          then Some (goto_call c (FreeFirst f) (set_item f ((item s f)\<lparr>ItemCompletedEvent := False\<rparr>) s))
          else None
      | FreeFirst f \<Rightarrow> Some (goto_call c Returned (set_item f ((item s f)\<lparr>State := WorkItemFree\<rparr>) s))
      | _ \<Rightarrow> None)"

text \<open>\<open>EncryptionThreadPoolBeginKeyDerivation\<close> and \<open>EncryptionThreadPoolBeginReadVolumeHeaderFinalization\<close>.\<close>

definition begin_work_step :: "EncryptionThreadPoolWorkType \<Rightarrow> nat \<Rightarrow> pool \<Rightarrow> pool option" where
  "begin_work_step type c s =
     (case callers s c of
        KeyWaitFree p \<Rightarrow>
          if State (item s p) = WorkItemFree then Some (goto_call c (KeySetReady p) (set_item p ((item s p)\<lparr>ItemType := type\<rparr>) s)) else None
      | KeySetReady p \<Rightarrow>
          Some (goto_call c Returned (set_item p ((item s p)\<lparr>State := WorkItemReady\<rparr>) (s\<lparr>EnqueueMutex := None\<rparr>)))
      | _ \<Rightarrow> None)"

text \<open>A step of a call, with its entry and early returns.\<close>

definition call_step :: "primitives \<Rightarrow> (nat \<Rightarrow> call) \<Rightarrow> nat \<Rightarrow> (nat \<Rightarrow> nat) \<Rightarrow> nat \<Rightarrow> pool \<Rightarrow> pool option" where
  "call_step P args ThreadCount nxt c s =
     (case args c of
        DoWork type start n ci \<Rightarrow>
          if callers s c = Outside
          then if n = 0 then Some (goto_call c Returned s)
               else if n = 1
               then map_option (\<lambda>b. goto_call c Returned (s\<lparr>buffers := (buffers s)(c := b)\<rparr>)) (current_thread_units P type (buffers s c) start n ci)
               else if EnqueueMutex s = None then Some (goto_call c (CheckFirst (EnqueuePosition s)) (s\<lparr>EnqueueMutex := Some c\<rparr>))
               else None
          else do_work_step type ci (call_fragments ThreadCount (args c)) nxt c s
      | BeginWork type \<Rightarrow>
          if callers s c = Outside
          then if EnqueueMutex s = None
               then Some (goto_call c (KeyWaitFree (EnqueuePosition s)) (s\<lparr>EnqueueMutex := Some c, EnqueuePosition := nxt (EnqueuePosition s)\<rparr>))
               else None
          else begin_work_step type c s)"

text \<open>The end of the loop of \<open>EncryptionThreadProc\<close>, after the data units of its item.\<close>

definition finish_step :: "nat \<Rightarrow> pool \<Rightarrow> pool option" where
  "finish_step t s =
     (case threads s t of
        Processed p \<Rightarrow>
          if p \<noteq> FirstFragment (item s p)
          then Some (goto_thread t (Counting p) (set_item p ((item s p)\<lparr>State := WorkItemFree\<rparr>) s))
          else Some (goto_thread t (Counting p) s)
      | Counting p \<Rightarrow>
          let f = FirstFragment (item s p); k = OutstandingFragmentCount (item s f) - 1
          in Some (goto_thread t (if k = 0 then Signalling p else Waiting) (set_item f ((item s f)\<lparr>OutstandingFragmentCount := k\<rparr>) s))
      | Signalling p \<Rightarrow>
          let f = FirstFragment (item s p)
          in Some (goto_thread t Waiting (set_item f ((item s f)\<lparr>ItemCompletedEvent := True\<rparr>) s))
      | _ \<Rightarrow> None)"

text \<open>\<open>EncryptionThreadProc\<close>.\<close>

definition thread_step :: "primitives \<Rightarrow> (nat \<Rightarrow> nat) \<Rightarrow> nat \<Rightarrow> pool \<Rightarrow> pool option" where
  "thread_step P nxt t s =
     (case threads s t of
        Waiting \<Rightarrow>
          if DequeueMutex s = None
          then Some (goto_thread t (Holding (DequeuePosition s)) (s\<lparr>DequeueMutex := Some t, DequeuePosition := nxt (DequeuePosition s)\<rparr>))
          else None
      | Holding p \<Rightarrow>
          if State (item s p) = WorkItemReady
          then Some (goto_thread t (Working p) (set_item p ((item s p)\<lparr>State := WorkItemBusy\<rparr>) (s\<lparr>DequeueMutex := None\<rparr>)))
          else None
      | Working p \<Rightarrow>
          if data_units (ItemType (item s p))
          then map_option (\<lambda>b. goto_thread t (Processed p) (s\<lparr>buffers := (buffers s)(Buffer (item s p) := b)\<rparr>))
                 (process_fragment P (ItemType (item s p)) (CryptoInfo (item s p)) (Encryption (item s p)) (buffers s (Buffer (item s p))))
          else Some (goto_thread t Waiting (set_item p ((item s p)\<lparr>State := WorkItemFree\<rparr>) s))
      | _ \<Rightarrow> finish_step t s)"

definition pool_start :: "EncryptionThreadPoolWorkItem \<Rightarrow> (nat \<Rightarrow> bytes) \<Rightarrow> pool" where
  "pool_start w b = \<lparr>WorkItemQueue = (\<lambda>p. w\<lparr>State := WorkItemFree, ItemCompletedEvent := False, OutstandingFragmentCount := 0, FirstFragment := 0\<rparr>),
     EnqueuePosition = 0, DequeuePosition = 0, EnqueueMutex = None, DequeueMutex = None,
     callers = (\<lambda>c. Outside), threads = (\<lambda>t. Waiting), buffers = b\<rparr>"

inductive pool_reach :: "primitives \<Rightarrow> (nat \<Rightarrow> call) \<Rightarrow> nat \<Rightarrow> (nat \<Rightarrow> nat) \<Rightarrow> pool \<Rightarrow> pool \<Rightarrow> bool" for P args ThreadCount nxt s0 where
  reach_start: "pool_reach P args ThreadCount nxt s0 s0"
| reach_call: "pool_reach P args ThreadCount nxt s0 s \<Longrightarrow> call_step P args ThreadCount nxt c s = Some s' \<Longrightarrow> pool_reach P args ThreadCount nxt s0 s'"
| reach_thread: "pool_reach P args ThreadCount nxt s0 s \<Longrightarrow> thread_step P nxt t s = Some s' \<Longrightarrow> pool_reach P args ThreadCount nxt s0 s'"

text \<open>A schedule says who moves next.\<close>

datatype mover = Caller nat | Worker nat

fun pool_run :: "primitives \<Rightarrow> (nat \<Rightarrow> call) \<Rightarrow> nat \<Rightarrow> (nat \<Rightarrow> nat) \<Rightarrow> mover list \<Rightarrow> pool \<Rightarrow> pool option" where
  "pool_run P args ThreadCount nxt [] s = Some s"
| "pool_run P args ThreadCount nxt (Caller c # ms) s = Option.bind (call_step P args ThreadCount nxt c s) (pool_run P args ThreadCount nxt ms)"
| "pool_run P args ThreadCount nxt (Worker t # ms) s = Option.bind (thread_step P nxt t s) (pool_run P args ThreadCount nxt ms)"

lemma pool_run_reach:
  "pool_reach P args ThreadCount nxt s0 s \<Longrightarrow> pool_run P args ThreadCount nxt ms s = Some s' \<Longrightarrow> pool_reach P args ThreadCount nxt s0 s'"
proof (induction P args ThreadCount nxt ms s rule: pool_run.induct)
  case (2 P args ThreadCount nxt c ms s)
  then show ?case using pool_reach.reach_call by (fastforce simp: bind_eq_Some_conv)
next
  case (3 P args ThreadCount nxt t ms s)
  then show ?case using pool_reach.reach_thread by (fastforce simp: bind_eq_Some_conv)
qed simp

end
