(* ===== verification/QueueInv.thy ===== *)
theory QueueInv
  imports WorkQueue
begin

text \<open>
  The work queue as an unbounded queue: the steps of \<open>WorkQueue\<close> with positions that never wrap around, so that every item is used once.
  Its invariant says where each item is on its way, what the counter of a request counts, who may signal its event, and what of its buffer has been processed.
\<close>

section \<open>The way of an item\<close>

text \<open>Not started, in the hands of a worker at one of its four places, or done.\<close>

datatype phase = PNew | PWork nat | PProc nat | PCount nat | PSignal nat | PDone

fun pending :: "phase \<Rightarrow> bool" where
  "pending (PSignal t) = False" | "pending PDone = False" | "pending x = True"

fun was_processed :: "phase \<Rightarrow> bool" where
  "was_processed PNew = False" | "was_processed (PWork t) = False" | "was_processed x = True"

text \<open>The worker has freed the item or left it to the call.\<close>

fun let_go :: "phase \<Rightarrow> bool" where
  "let_go (PCount t) = True" | "let_go (PSignal t) = True" | "let_go PDone = True" | "let_go x = False"

fun holds_lock :: "call_pc \<Rightarrow> bool" where
  "holds_lock (CheckFirst f) = True" | "holds_lock (NextItem ws f) = True" | "holds_lock (WaitFree p ws f) = True"
| "holds_lock (SetReady p ws f) = True" | "holds_lock (KeyWaitFree p) = True" | "holds_lock (KeySetReady p) = True" | "holds_lock x = False"

text \<open>The first item of a call that has one.\<close>

fun first_item :: "call_pc \<Rightarrow> nat option" where
  "first_item (NextItem ws f) = Some f" | "first_item (WaitFree p ws f) = Some f" | "first_item (SetReady p ws f) = Some f"
| "first_item (WaitCompleted f) = Some f" | "first_item (FreeFirst f) = Some f" | "first_item x = None"

text \<open>The items it has filled end here, for the position of the queue and its number of fragments.\<close>

fun filled_to :: "nat \<Rightarrow> nat \<Rightarrow> call_pc \<Rightarrow> nat" where
  "filled_to E n (NextItem ws f) = E" | "filled_to E n (WaitFree p ws f) = p" | "filled_to E n (SetReady p ws f) = Suc p"
| "filled_to E n (WaitCompleted f) = f + n" | "filled_to E n (FreeFirst f) = f + n" | "filled_to E n x = 0"

text \<open>The items ready or started, and the items started.\<close>

fun ready_pos :: "nat \<Rightarrow> call_pc \<Rightarrow> nat" where
  "ready_pos E (WaitFree p ws f) = p" | "ready_pos E (SetReady p ws f) = p" | "ready_pos E (KeyWaitFree p) = p"
| "ready_pos E (KeySetReady p) = p" | "ready_pos E x = E"

definition ready_of :: "nat \<Rightarrow> nat option \<Rightarrow> (nat \<Rightarrow> call_pc) \<Rightarrow> nat" where
  "ready_of E m pcs = (case m of None \<Rightarrow> E | Some c \<Rightarrow> ready_pos E (pcs c))"

definition ready_to :: "pool \<Rightarrow> nat" where
  "ready_to s = ready_of (EnqueuePosition s) (EnqueueMutex s) (callers s)"

definition started_to :: "pool \<Rightarrow> nat" where
  "started_to s = (if DequeueMutex s = None then DequeuePosition s else DequeuePosition s - 1)"

section \<open>The invariant\<close>

definition inv_threads :: "(nat \<Rightarrow> phase) \<Rightarrow> pool \<Rightarrow> bool" where
  "inv_threads ph s \<longleftrightarrow>
     (\<forall>t v. (threads s t = Working v \<longleftrightarrow> ph v = PWork t) \<and> (threads s t = Processed v \<longleftrightarrow> ph v = PProc t) \<and>
        (threads s t = Counting v \<longleftrightarrow> ph v = PCount t) \<and> (threads s t = Signalling v \<longleftrightarrow> ph v = PSignal t)) \<and>
     (\<forall>v. ph v = PNew \<longleftrightarrow> started_to s \<le> v) \<and> started_to s \<le> ready_to s \<and>
     (\<forall>t. (\<exists>p. threads s t = Holding p) \<longleftrightarrow> DequeueMutex s = Some t) \<and>
     (\<forall>t p. threads s t = Holding p \<longrightarrow> DequeuePosition s = Suc p)"

definition enough :: "call \<Rightarrow> bool" where
  "enough a \<longleftrightarrow> (\<exists>type u n ci. a = DoWork type u n ci \<and> 2 \<le> n \<and> data_units type)"

definition begins :: "call \<Rightarrow> bool" where
  "begins a \<longleftrightarrow> (\<exists>type. a = BeginWork type)"

fun call_shape :: "nat \<Rightarrow> nat \<Rightarrow> fragment list \<Rightarrow> call \<Rightarrow> call_pc \<Rightarrow> bool" where
  "call_shape E R frs a (CheckFirst f) = (enough a \<and> f = E)"
| "call_shape E R frs a (NextItem ws f) = (enough a \<and> f \<le> E \<and> E \<le> f + length frs \<and> ws = drop (E - f) frs)"
| "call_shape E R frs a (WaitFree p ws f) = (enough a \<and> E = Suc p \<and> f \<le> p \<and> p < f + length frs \<and> ws = drop (p - f) frs)"
| "call_shape E R frs a (SetReady p ws f) = (enough a \<and> E = Suc p \<and> f \<le> p \<and> p < f + length frs \<and> ws = drop (Suc p - f) frs)"
| "call_shape E R frs a (WaitCompleted f) = (enough a \<and> f + length frs \<le> R)"
| "call_shape E R frs a (FreeFirst f) = (enough a \<and> f + length frs \<le> R)"
| "call_shape E R frs a (KeyWaitFree p) = (begins a \<and> E = Suc p)"
| "call_shape E R frs a (KeySetReady p) = (begins a \<and> E = Suc p)"
| "call_shape E R frs a x = True"

definition inv_calls :: "(nat \<Rightarrow> call) \<Rightarrow> nat \<Rightarrow> pool \<Rightarrow> bool" where
  "inv_calls args N s \<longleftrightarrow>
     (\<forall>c. holds_lock (callers s c) \<longleftrightarrow> EnqueueMutex s = Some c) \<and>
     (\<forall>c. call_shape (EnqueuePosition s) (ready_to s) (call_fragments N (args c)) (args c) (callers s c)) \<and>
     (\<forall>c c' f. first_item (callers s c) = Some f \<longrightarrow> first_item (callers s c') = Some f \<longrightarrow> c = c')"

definition content :: "call \<Rightarrow> fragment list \<Rightarrow> nat \<Rightarrow> nat \<Rightarrow> nat \<Rightarrow> EncryptionThreadPoolWorkItem \<Rightarrow> bool" where
  "content a frs c f v w \<longleftrightarrow> FirstFragment w = f \<and> Buffer w = c \<and> Encryption w = frs ! (v - f) \<and>
     (\<exists>u n. a = DoWork (ItemType w) u n (CryptoInfo w)) \<and> data_units (ItemType w)"

lemma content_update [simp]:
  "content a frs c f v (w\<lparr>State := x\<rparr>) = content a frs c f v w" "content a frs c f v (w\<lparr>ItemCompletedEvent := b\<rparr>) = content a frs c f v w"
  "content a frs c f v (w\<lparr>OutstandingFragmentCount := k\<rparr>) = content a frs c f v w"
  by (simp_all add: content_def)

text \<open>The items between the first and the last filled one of a call.\<close>

definition pc_items :: "nat \<Rightarrow> nat \<Rightarrow> call_pc \<Rightarrow> nat set" where
  "pc_items E n pc = (case first_item pc of None \<Rightarrow> {} | Some f \<Rightarrow> {f..<filled_to E n pc})"

definition call_items :: "(nat \<Rightarrow> call) \<Rightarrow> nat \<Rightarrow> pool \<Rightarrow> nat \<Rightarrow> nat set" where
  "call_items args N s c = pc_items (EnqueuePosition s) (length (call_fragments N (args c))) (callers s c)"

definition inv_items :: "(nat \<Rightarrow> call) \<Rightarrow> nat \<Rightarrow> (nat \<Rightarrow> phase) \<Rightarrow> pool \<Rightarrow> bool" where
  "inv_items args N ph s \<longleftrightarrow>
     (\<forall>c f v. first_item (callers s c) = Some f \<longrightarrow> v \<in> call_items args N s c \<longrightarrow> content (args c) (call_fragments N (args c)) c f v (item s v)) \<and>
     (\<forall>c p. callers s c = KeySetReady p \<longrightarrow> \<not> data_units (ItemType (item s p))) \<and>
     (\<forall>v. (\<exists>t. ph v = PProc t \<or> ph v = PCount t \<or> ph v = PSignal t) \<longrightarrow> data_units (ItemType (item s v))) \<and>
     (\<forall>v<ready_to s. data_units (ItemType (item s v)) \<longrightarrow> ph v \<noteq> PDone \<longrightarrow>
        v \<in> call_items args N s (Buffer (item s v)) \<and> (\<forall>f. callers s (Buffer (item s v)) \<noteq> FreeFirst f))"

definition inv_states :: "(nat \<Rightarrow> phase) \<Rightarrow> pool \<Rightarrow> bool" where
  "inv_states ph s \<longleftrightarrow>
     (\<forall>v. ready_to s \<le> v \<longrightarrow> State (item s v) = WorkItemFree) \<and>
     (\<forall>v<ready_to s. (ph v = PNew \<longrightarrow> State (item s v) = WorkItemReady) \<and> (ph v \<noteq> PNew \<longrightarrow> State (item s v) \<noteq> WorkItemReady)) \<and>
     (\<forall>c f. first_item (callers s c) = Some f \<longrightarrow> f < ready_to s \<longrightarrow> State (item s f) \<noteq> WorkItemFree) \<and>
     (\<forall>v. let_go (ph v) \<longrightarrow> State (item s v) = WorkItemFree \<or> (\<exists>c. first_item (callers s c) = Some v))"

definition request :: "(nat \<Rightarrow> call) \<Rightarrow> nat \<Rightarrow> nat \<Rightarrow> nat \<Rightarrow> nat set" where
  "request args N c f = {f..<f + length (call_fragments N (args c))}"

definition inv_counts :: "(nat \<Rightarrow> call) \<Rightarrow> nat \<Rightarrow> (nat \<Rightarrow> phase) \<Rightarrow> pool \<Rightarrow> bool" where
  "inv_counts args N ph s \<longleftrightarrow>
     (\<forall>c f. first_item (callers s c) = Some f \<longrightarrow>
        OutstandingFragmentCount (item s f) = int (card {v \<in> request args N c f. pending (ph v)})) \<and>
     (\<forall>f. ItemCompletedEvent (item s f) \<longrightarrow>
        (\<exists>c. first_item (callers s c) = Some f \<and> callers s c \<noteq> FreeFirst f \<and> (\<forall>v\<in>request args N c f. ph v = PDone))) \<and>
     (\<forall>c f v t. first_item (callers s c) = Some f \<longrightarrow> v \<in> request args N c f \<longrightarrow> ph v = PSignal t \<longrightarrow>
        \<not> ItemCompletedEvent (item s f) \<and> (\<forall>w\<in>request args N c f. w \<noteq> v \<longrightarrow> ph w = PDone)) \<and>
     (\<forall>c f v. callers s c = FreeFirst f \<longrightarrow> v \<in> request args N c f \<longrightarrow> ph v = PDone) \<and>
     (\<forall>c f. first_item (callers s c) = Some f \<longrightarrow> callers s c \<noteq> FreeFirst f \<longrightarrow>
        ItemCompletedEvent (item s f) \<or> (\<exists>v\<in>request args N c f. ph v \<noteq> PDone))"

text \<open>The fragments of a set of items of a call, and a buffer after some of them, in some order.\<close>

definition processed_as :: "primitives \<Rightarrow> call \<Rightarrow> fragment multiset \<Rightarrow> bytes \<Rightarrow> bytes \<Rightarrow> bool" where
  "processed_as P a M b b' \<longleftrightarrow>
     (case a of BeginWork type \<Rightarrow> True
      | DoWork type u n ci \<Rightarrow> \<exists>ws. mset ws = M \<and> foldl (\<lambda>b w. Option.bind b (process_fragment P type ci w)) (Some b) ws = Some b')"

definition inv_buffers :: "primitives \<Rightarrow> (nat \<Rightarrow> call) \<Rightarrow> nat \<Rightarrow> (nat \<Rightarrow> bytes) \<Rightarrow> (nat \<Rightarrow> phase) \<Rightarrow> pool \<Rightarrow> bool" where
  "inv_buffers P args N b0 ph s \<longleftrightarrow>
     (\<forall>c f. first_item (callers s c) = Some f \<longrightarrow>
        processed_as P (args c) (image_mset (\<lambda>v. call_fragments N (args c) ! (v - f)) (mset_set {v \<in> request args N c f. was_processed (ph v)}))
          (b0 c) (buffers s c)) \<and>
     (\<forall>c f. callers s c = Outside \<or> callers s c = CheckFirst f \<longrightarrow> buffers s c = b0 c) \<and>
     (\<forall>c type u n ci. callers s c = Returned \<longrightarrow> args c = DoWork type u n ci \<longrightarrow>
        (n = 0 \<longrightarrow> buffers s c = b0 c) \<and> (n = 1 \<longrightarrow> current_thread_units P type (b0 c) u n ci = Some (buffers s c)) \<and>
        (2 \<le> n \<longrightarrow> processed_as P (args c) (mset (call_fragments N (args c))) (b0 c) (buffers s c)))"

definition pool_inv :: "primitives \<Rightarrow> (nat \<Rightarrow> call) \<Rightarrow> nat \<Rightarrow> (nat \<Rightarrow> bytes) \<Rightarrow> (nat \<Rightarrow> phase) \<Rightarrow> pool \<Rightarrow> bool" where
  "pool_inv P args N b0 ph s \<longleftrightarrow> inv_threads ph s \<and> inv_calls args N s \<and> inv_items args N ph s \<and> inv_states ph s \<and>
     inv_counts args N ph s \<and> inv_buffers P args N b0 ph s"

text \<open>Calls that make sense: the types of the two kinds of call.\<close>

definition calls_ok :: "(nat \<Rightarrow> call) \<Rightarrow> bool" where
  "calls_ok args \<longleftrightarrow> (\<forall>c. case args c of DoWork type u n ci \<Rightarrow> data_units type | BeginWork type \<Rightarrow> \<not> data_units type)"

section \<open>Steps of the workers\<close>

lemmas step_defs = set_item_def goto_call_def goto_thread_def

lemma inv_threads_phase:
  assumes "inv_threads ph s"
  shows "threads s t = Working v \<longleftrightarrow> ph v = PWork t" "threads s t = Processed v \<longleftrightarrow> ph v = PProc t"
    "threads s t = Counting v \<longleftrightarrow> ph v = PCount t" "threads s t = Signalling v \<longleftrightarrow> ph v = PSignal t"
    "ph v = PNew \<longleftrightarrow> started_to s \<le> v" "started_to s \<le> ready_to s" "(\<exists>p. threads s t = Holding p) \<longleftrightarrow> DequeueMutex s = Some t"
    "threads s t = Holding p \<Longrightarrow> DequeuePosition s = Suc p"
  using assms by (auto simp: inv_threads_def)

lemma hold_inv:
  assumes "pool_inv P args N b0 ph s" "threads s t = Waiting" "DequeueMutex s = None"
  shows "pool_inv P args N b0 ph (goto_thread t (Holding (DequeuePosition s)) (s\<lparr>DequeueMutex := Some t, DequeuePosition := Suc (DequeuePosition s)\<rparr>))"
    (is "pool_inv P args N b0 ph ?s")
proof -
  note i = assms(1) [unfolded pool_inv_def]
  have it: "inv_threads ph s" using i by simp
  have "ph v \<noteq> PWork t \<and> ph v \<noteq> PProc t \<and> ph v \<noteq> PCount t \<and> ph v \<noteq> PSignal t" for v
    using inv_threads_phase(1-4) [OF it, of t v] assms(2) by simp
  then have "inv_threads ph ?s"
    using it assms(2,3) by (auto simp: inv_threads_def step_defs started_to_def ready_to_def)
  moreover have "inv_calls args N ?s = inv_calls args N s" "inv_items args N ph ?s = inv_items args N ph s"
    "inv_states ph ?s = inv_states ph s" "inv_counts args N ph ?s = inv_counts args N ph s" "inv_buffers P args N b0 ph ?s = inv_buffers P args N b0 ph s"
    by (simp_all add: inv_calls_def inv_items_def inv_states_def inv_counts_def inv_buffers_def step_defs ready_to_def call_items_def)
  ultimately show ?thesis using i by (simp add: pool_inv_def)
qed

lemma work_inv:
  assumes "pool_inv P args N b0 ph s" "threads s t = Holding p" "State (item s p) = WorkItemReady"
  shows "pool_inv P args N b0 (ph(p := PWork t))
    (goto_thread t (Working p) (set_item p ((item s p)\<lparr>State := WorkItemBusy\<rparr>) (s\<lparr>DequeueMutex := None\<rparr>)))"
    (is "pool_inv P args N b0 ?ph ?s")
proof -
  note i = assms(1) [unfolded pool_inv_def]
  have it: "inv_threads ph s" using i by simp
  have d: "DequeueMutex s = Some t" "DequeuePosition s = Suc p" using it assms(2) by (auto simp: inv_threads_def)
  have st: "started_to s = p" "started_to ?s = Suc p" "ready_to ?s = ready_to s"
    using d by (simp_all add: started_to_def step_defs ready_to_def)
  have p: "p < ready_to s"
  proof (rule ccontr)
    assume "\<not> ?thesis"
    then have "State (item s p) = WorkItemFree" using i by (simp add: inv_states_def)
    then show False using assms(3) by simp
  qed
  have ph: "ph p = PNew" using inv_threads_phase(5) [OF it, of p] st by simp
  have t: "ph v \<noteq> PWork t \<and> ph v \<noteq> PProc t \<and> ph v \<noteq> PCount t \<and> ph v \<noteq> PSignal t" for v
    using inv_threads_phase(1-4) [OF it, of t v] assms(2) by simp
  have hold: "threads s t' = Holding q \<Longrightarrow> t' = t" for t' q using it d by (auto simp: inv_threads_def)
  have "inv_threads ?ph ?s"
    unfolding inv_threads_def st
  proof (intro conjI allI impI)
    fix t' v
    show "(threads ?s t' = Working v) = (?ph v = PWork t')" "(threads ?s t' = Processed v) = (?ph v = PProc t')"
      "(threads ?s t' = Counting v) = (?ph v = PCount t')" "(threads ?s t' = Signalling v) = (?ph v = PSignal t')"
      using inv_threads_phase(1-4) [OF it, of t' v] ph t [of v] by (auto simp: step_defs)
    show "(?ph v = PNew) = (Suc p \<le> v)" using inv_threads_phase(5) [OF it, of v] st by auto
    show "Suc p \<le> ready_to s" using p by simp
    show "(\<exists>p. threads ?s t' = Holding p) = (DequeueMutex ?s = Some t')" using hold by (auto simp: step_defs)
    show "threads ?s t' = Holding v \<Longrightarrow> DequeuePosition ?s = Suc v" using hold [of t' v] by (auto simp: step_defs split: if_splits)
  qed
  moreover have "inv_calls args N ?s" using i by (simp add: inv_calls_def step_defs ready_to_def)
  moreover have "inv_items args N ?ph ?s" using i ph by (auto simp: inv_items_def step_defs ready_to_def call_items_def)
  moreover have "inv_states ?ph ?s" using i p st ph by (auto simp: inv_states_def step_defs ready_to_def)
  moreover have "inv_counts args N ?ph ?s"
  proof -
    have "pending (?ph v) = pending (ph v)" "?ph v = PDone \<longleftrightarrow> ph v = PDone" "?ph v = PSignal t' \<longleftrightarrow> ph v = PSignal t'" for v t' using ph by auto
    then show ?thesis using i by (simp add: inv_counts_def step_defs)
  qed
  moreover have "inv_buffers P args N b0 ?ph ?s"
  proof -
    have "was_processed (?ph v) = was_processed (ph v)" for v using ph by auto
    then show ?thesis using i by (simp add: inv_buffers_def step_defs)
  qed
  ultimately show ?thesis by (simp add: pool_inv_def)
qed

text \<open>A worker goes on with its item.\<close>

definition at_item :: "nat \<Rightarrow> nat \<Rightarrow> thread_pc \<Rightarrow> phase \<Rightarrow> bool" where
  "at_item t p pc x \<longleftrightarrow> pc = Working p \<and> x = PWork t \<or> pc = Processed p \<and> x = PProc t \<or> pc = Counting p \<and> x = PCount t \<or>
     pc = Signalling p \<and> x = PSignal t"

lemma inv_threads_move:
  assumes "inv_threads ph s" "at_item t p (threads s t) (ph p)" "at_item t p pc x \<or> pc = Waiting \<and> x = PDone"
    "threads s' = (threads s)(t := pc)" "DequeueMutex s' = DequeueMutex s" "DequeuePosition s' = DequeuePosition s" "ready_to s' = ready_to s"
  shows "inv_threads (ph(p := x)) s'"
proof -
  have st: "started_to s' = started_to s" using assms by (simp add: started_to_def)
  note i = inv_threads_phase [OF assms(1)]
  have u: "ph v \<noteq> PWork t" "ph v \<noteq> PProc t" "ph v \<noteq> PCount t" "ph v \<noteq> PSignal t" if "v \<noteq> p" for v
    using i(1-4) [of t v] assms(2) that by (auto simp: at_item_def)
  have x: "x \<noteq> PNew" "ph p \<noteq> PNew" using assms(2,3) by (auto simp: at_item_def)
  have ph: "ph p \<noteq> PWork t'" "ph p \<noteq> PProc t'" "ph p \<noteq> PCount t'" "ph p \<noteq> PSignal t'"
    "x \<noteq> PWork t'" "x \<noteq> PProc t'" "x \<noteq> PCount t'" "x \<noteq> PSignal t'" if "t' \<noteq> t" for t'
    using assms(2,3) that by (auto simp: at_item_def)
  have pc: "pc = Working v \<longleftrightarrow> v = p \<and> x = PWork t" "pc = Processed v \<longleftrightarrow> v = p \<and> x = PProc t"
    "pc = Counting v \<longleftrightarrow> v = p \<and> x = PCount t" "pc = Signalling v \<longleftrightarrow> v = p \<and> x = PSignal t" "pc \<noteq> Holding v" for v
    using assms(3) by (auto simp: at_item_def)
  have h: "threads s t \<noteq> Holding v" for v using assms(2) by (auto simp: at_item_def)
  show ?thesis
    unfolding inv_threads_def st assms(7)
  proof (intro conjI allI impI)
    fix t' v
    show "(threads s' t' = Working v) = ((ph(p := x)) v = PWork t')" "(threads s' t' = Processed v) = ((ph(p := x)) v = PProc t')"
      "(threads s' t' = Counting v) = ((ph(p := x)) v = PCount t')" "(threads s' t' = Signalling v) = ((ph(p := x)) v = PSignal t')"
      using i(1-4) [of t' v] ph [of t'] u [of v] pc by (cases "t' = t"; cases "v = p"; simp add: assms(4))+
    show "((ph(p := x)) v = PNew) = (started_to s \<le> v)" using i(5) [of v] i(5) [of p] x by auto
    show "started_to s \<le> ready_to s" by (rule i(6))
    show "(\<exists>p. threads s' t' = Holding p) = (DequeueMutex s' = Some t')"
      using i(7) [of t'] h pc(5) by (cases "t' = t") (auto simp: assms(4,5))
    show "threads s' t' = Holding v \<Longrightarrow> DequeuePosition s' = Suc v"
      using i(8) [of t' v] pc(5) by (cases "t' = t") (auto simp: assms(4,6))
  qed
qed

lemma phase_before_ready:
  assumes "inv_threads ph s" "ph p \<noteq> PNew"
  shows "p < started_to s" "p < ready_to s"
  using inv_threads_phase(5) [OF assms(1), of p] inv_threads_phase(6) [OF assms(1)] assms(2) by auto

text \<open>The items of a call are among those of its request.\<close>

lemma call_items_request:
  assumes "inv_calls args N s" "first_item (callers s c) = Some f"
  shows "call_items args N s c \<subseteq> request args N c f"
proof -
  have "call_shape (EnqueuePosition s) (ready_to s) (call_fragments N (args c)) (args c) (callers s c)"
    using assms(1) by (simp add: inv_calls_def)
  then show ?thesis
    using assms(2) by (cases "callers s c") (auto simp: call_items_def pc_items_def request_def)
qed

text \<open>The item a worker has belongs to a request that is under way.\<close>

lemma worker_item:
  assumes "pool_inv P args N b0 ph s" "ph p \<noteq> PNew" "ph p \<noteq> PDone" "data_units (ItemType (item s p))"
  obtains f u n where "first_item (callers s (Buffer (item s p))) = Some f" "FirstFragment (item s p) = f"
    "p \<in> call_items args N s (Buffer (item s p))" "p \<in> request args N (Buffer (item s p)) f" "\<And>f'. callers s (Buffer (item s p)) \<noteq> FreeFirst f'"
    "args (Buffer (item s p)) = DoWork (ItemType (item s p)) u n (CryptoInfo (item s p))"
    "Encryption (item s p) = call_fragments N (args (Buffer (item s p))) ! (p - f)"
proof -
  let ?c = "Buffer (item s p)"
  have i: "inv_threads ph s" "inv_calls args N s" "inv_items args N ph s" using assms(1) by (simp_all add: pool_inv_def)
  have p: "p < ready_to s" by (rule phase_before_ready(2) [OF i(1) assms(2)])
  have l: "p \<in> call_items args N s ?c" "\<And>f. callers s ?c \<noteq> FreeFirst f"
    using i(3) p assms(3,4) by (auto simp: inv_items_def)
  then obtain f where f: "first_item (callers s ?c) = Some f"
    by (cases "first_item (callers s ?c)") (auto simp: call_items_def pc_items_def)
  have "content (args ?c) (call_fragments N (args ?c)) ?c f p (item s p)" using i(3) f l(1) by (auto simp: inv_items_def)
  with that f l call_items_request [OF i(2) f] show thesis by (auto simp: content_def)
qed

lemma request_filled:
  assumes "inv_calls args N s" "first_item (callers s c) = Some f" "v \<in> request args N c f" "v < ready_to s"
  shows "v \<in> call_items args N s c"
proof -
  have s: "call_shape (EnqueuePosition s) (ready_to s) (call_fragments N (args c)) (args c) (callers s c)"
    and l: "holds_lock (callers s c) \<longleftrightarrow> EnqueueMutex s = Some c"
    using assms(1) by (simp_all add: inv_calls_def)
  show ?thesis
    using s l assms(2-) by (cases "callers s c") (auto simp: call_items_def pc_items_def request_def ready_to_def ready_of_def)
qed

lemma other_request:
  assumes "pool_inv P args N b0 ph s" "p < ready_to s" "first_item (callers s c) = Some f" "p \<in> request args N c f"
  shows "Buffer (item s p) = c \<and> data_units (ItemType (item s p)) \<and> FirstFragment (item s p) = f"
proof -
  have i: "inv_calls args N s" "inv_items args N ph s" using assms(1) by (simp_all add: pool_inv_def)
  have "p \<in> call_items args N s c" by (rule request_filled [OF i(1) assms(3,4,2)])
  then have "content (args c) (call_fragments N (args c)) c f p (item s p)" using i(2) assms(3) by (auto simp: inv_items_def)
  then show ?thesis by (simp add: content_def)
qed

lemma finite_request [simp]: "finite (request args N c f)"
  by (simp add: request_def)

lemma process_inv:
  assumes "pool_inv P args N b0 ph s" "threads s t = Working p" "data_units (ItemType (item s p))"
    "process_fragment P (ItemType (item s p)) (CryptoInfo (item s p)) (Encryption (item s p)) (buffers s (Buffer (item s p))) = Some b"
  shows "pool_inv P args N b0 (ph(p := PProc t)) (goto_thread t (Processed p) (s\<lparr>buffers := (buffers s)(Buffer (item s p) := b)\<rparr>))"
    (is "pool_inv P args N b0 ?ph ?s")
proof -
  note i = assms(1) [unfolded pool_inv_def]
  have it: "inv_threads ph s" using i by simp
  have ph: "ph p = PWork t" using inv_threads_phase(1) [OF it] assms(2) by simp
  have p: "p < ready_to s" using phase_before_ready [OF it] ph by simp
  obtain f u n where w: "first_item (callers s (Buffer (item s p))) = Some f" "FirstFragment (item s p) = f"
    "p \<in> request args N (Buffer (item s p)) f" "\<And>f'. callers s (Buffer (item s p)) \<noteq> FreeFirst f'"
    "args (Buffer (item s p)) = DoWork (ItemType (item s p)) u n (CryptoInfo (item s p))"
    "Encryption (item s p) = call_fragments N (args (Buffer (item s p))) ! (p - f)"
    by (rule worker_item [OF assms(1) _ _ assms(3)]) (use ph in auto)
  let ?c = "Buffer (item s p)"
  have "inv_threads ?ph ?s"
    by (rule inv_threads_move [OF it]) (use assms(2) ph in \<open>auto simp: at_item_def step_defs ready_to_def\<close>)
  moreover have "inv_calls args N ?s" using i by (simp add: inv_calls_def step_defs ready_to_def)
  moreover have "inv_items args N ?ph ?s" using i ph assms(3) by (auto simp: inv_items_def step_defs ready_to_def call_items_def)
  moreover have "inv_states ?ph ?s" using i ph by (auto simp: inv_states_def step_defs ready_to_def)
  moreover have "inv_counts args N ?ph ?s"
  proof -
    have "pending (?ph v) = pending (ph v)" "?ph v = PDone \<longleftrightarrow> ph v = PDone" "?ph v = PSignal t' \<longleftrightarrow> ph v = PSignal t'" for v t' using ph by auto
    then show ?thesis using i by (simp add: inv_counts_def step_defs)
  qed
  moreover have "inv_buffers P args N b0 ?ph ?s"
  proof -
    have o: "{v \<in> request args N c f'. was_processed (?ph v)} = {v \<in> request args N c f'. was_processed (ph v)}"
      if "first_item (callers s c) = Some f'" "c \<noteq> ?c" for c f'
      using other_request [OF assms(1) p that(1)] that(2) by auto
    have m: "{v \<in> request args N ?c f. was_processed (?ph v)} = insert p {v \<in> request args N ?c f. was_processed (ph v)}"
      "p \<notin> {v \<in> request args N ?c f. was_processed (ph v)}"
      using w(3) ph by auto
    have ib: "inv_buffers P args N b0 ph s" using i by simp
    then obtain ws where ws: "mset ws = image_mset (\<lambda>v. call_fragments N (args ?c) ! (v - f)) (mset_set {v \<in> request args N ?c f. was_processed (ph v)})"
      "foldl (\<lambda>b w. Option.bind b (process_fragment P (ItemType (item s p)) (CryptoInfo (item s p)) w)) (Some (b0 ?c)) ws = Some (buffers s ?c)"
      using w(1,5) unfolding inv_buffers_def processed_as_def by force
    have "processed_as P (args ?c) (image_mset (\<lambda>v. call_fragments N (args ?c) ! (v - f)) (mset_set {v \<in> request args N ?c f. was_processed (?ph v)})) (b0 ?c) b"
      unfolding processed_as_def w(5) call.case m(1)
      by (intro exI [of _ "ws @ [Encryption (item s p)]"]) (use ws m(2) assms(4) w(5,6) in simp)
    moreover have "callers s ?c \<noteq> Outside \<and> callers s ?c \<noteq> CheckFirst g \<and> callers s ?c \<noteq> Returned" for g using w(1) by auto
    ultimately show ?thesis
      using ib w(1) o by (auto simp: inv_buffers_def step_defs)
  qed
  ultimately show ?thesis by (simp add: pool_inv_def)
qed

lemma work_fragments_nonempty: "0 < N \<Longrightarrow> 0 < n \<Longrightarrow> work_fragments N u n \<noteq> []"
  using work_fragments_tile(2) [of N u n] by auto

lemma first_in_request:
  assumes "0 < N" "inv_calls args N s" "first_item (callers s c) = Some f"
  shows "f \<in> request args N c f"
proof -
  have "call_shape (EnqueuePosition s) (ready_to s) (call_fragments N (args c)) (args c) (callers s c)"
    using assms(2) by (simp add: inv_calls_def)
  then have "enough (args c)" using assms(3) by (cases "callers s c") auto
  then have "call_fragments N (args c) \<noteq> []" using work_fragments_nonempty [OF assms(1)] by (auto simp: enough_def)
  then show ?thesis by (simp add: request_def)
qed

lemma inv_countsD:
  assumes "inv_counts args N ph s"
  shows "first_item (callers s c) = Some f \<Longrightarrow> OutstandingFragmentCount (item s f) = int (card {v \<in> request args N c f. pending (ph v)})"
    "ItemCompletedEvent (item s f) \<Longrightarrow>
      \<exists>c. first_item (callers s c) = Some f \<and> callers s c \<noteq> FreeFirst f \<and> (\<forall>v\<in>request args N c f. ph v = PDone)"
    "first_item (callers s c) = Some f \<Longrightarrow> v \<in> request args N c f \<Longrightarrow> ph v = PSignal t \<Longrightarrow> \<not> ItemCompletedEvent (item s f)"
    "first_item (callers s c) = Some f \<Longrightarrow> v \<in> request args N c f \<Longrightarrow> ph v = PSignal t \<Longrightarrow> w \<in> request args N c f \<Longrightarrow> w \<noteq> v \<Longrightarrow> ph w = PDone"
    "callers s c = FreeFirst f \<Longrightarrow> v \<in> request args N c f \<Longrightarrow> ph v = PDone"
    "first_item (callers s c) = Some f \<Longrightarrow> callers s c \<noteq> FreeFirst f \<Longrightarrow> ItemCompletedEvent (item s f) \<or> (\<exists>v\<in>request args N c f. ph v \<noteq> PDone)"
  using assms unfolding inv_counts_def by blast+

text \<open>Steps that do not concern the counters.\<close>

lemma inv_counts_same:
  assumes "inv_counts args N ph s" "callers s' = callers s"
    "\<And>v. ItemCompletedEvent (item s' v) = ItemCompletedEvent (item s v)" "\<And>v. OutstandingFragmentCount (item s' v) = OutstandingFragmentCount (item s v)"
    "\<And>c f v. first_item (callers s c) = Some f \<Longrightarrow> v \<in> request args N c f \<Longrightarrow> pending (ph' v) = pending (ph v) \<and> (ph' v = PDone \<longleftrightarrow> ph v = PDone)"
    "\<And>v t. ph' v = PSignal t \<longleftrightarrow> ph v = PSignal t"
  shows "inv_counts args N ph' s'"
proof -
  note i = inv_countsD [OF assms(1)]
  have r: "{v \<in> request args N c f. pending (ph' v)} = {v \<in> request args N c f. pending (ph v)}" if "first_item (callers s c) = Some f" for c f
    using assms(5) [OF that] by auto
  show ?thesis
    unfolding inv_counts_def assms(2-4,6)
  proof (intro conjI allI impI ballI)
    show "OutstandingFragmentCount (item s f) = int (card {v \<in> request args N c f. pending (ph' v)})" if "first_item (callers s c) = Some f" for c f
      using i(1) [OF that] r [OF that] by simp
    show "\<exists>c. first_item (callers s c) = Some f \<and> callers s c \<noteq> FreeFirst f \<and> (\<forall>v\<in>request args N c f. ph' v = PDone)" if "ItemCompletedEvent (item s f)" for f
      using i(2) [OF that] assms(5) by blast
    show "\<not> ItemCompletedEvent (item s f)" if "first_item (callers s c) = Some f" "v \<in> request args N c f" "ph v = PSignal t" for c f v t
      by (rule i(3) [OF that])
    show "ph' w = PDone" if "first_item (callers s c) = Some f" "v \<in> request args N c f" "ph v = PSignal t" "w \<in> request args N c f" "w \<noteq> v" for c f v t w
      using i(4) [OF that] assms(5) [OF that(1,4)] by simp
    show "ph' v = PDone" if "callers s c = FreeFirst f" "v \<in> request args N c f" for c f v
      using i(5) [OF that] assms(5) [of c f v] that by simp
    show "ItemCompletedEvent (item s f) \<or> (\<exists>v\<in>request args N c f. ph' v \<noteq> PDone)" if "first_item (callers s c) = Some f" "callers s c \<noteq> FreeFirst f" for c f
      using i(6) [OF that] assms(5) [OF that(1)] by blast
  qed
qed

text \<open>A worker frees an item that is not the first of its request.\<close>

lemma free_inv:
  assumes "0 < N" "pool_inv P args N b0 ph s" "at_item t p (threads s t) (ph p)" "at_item t p pc x \<or> pc = Waiting \<and> x = PDone"
    "pending x = pending (ph p) \<and> was_processed x = was_processed (ph p) \<or> \<not> data_units (ItemType (item s p))"
    "data_units (ItemType (item s p)) \<Longrightarrow> p \<noteq> FirstFragment (item s p) \<and> x \<noteq> PDone \<and> ph p \<noteq> PDone"
    "(\<exists>t. x = PProc t \<or> x = PCount t \<or> x = PSignal t) \<Longrightarrow> data_units (ItemType (item s p))" "\<And>t. x \<noteq> PSignal t" "\<And>t. ph p \<noteq> PSignal t"
  shows "pool_inv P args N b0 (ph(p := x)) (goto_thread t pc (set_item p ((item s p)\<lparr>State := WorkItemFree\<rparr>) s))"
    (is "pool_inv P args N b0 ?ph ?s")
proof -
  note i = assms(2) [unfolded pool_inv_def]
  have it: "inv_threads ph s" and ic: "inv_calls args N s" using i by simp_all
  have n: "ph p \<noteq> PNew" "x \<noteq> PNew" using assms(3,4) by (auto simp: at_item_def)
  have p: "p < ready_to s" by (rule phase_before_ready(2) [OF it n(1)])
  have o: "data_units (ItemType (item s p)) \<and> p \<noteq> f" if "first_item (callers s c) = Some f" "p \<in> request args N c f" for c f
    using other_request [OF assms(2) p that] assms(6) by auto
  have "inv_threads ?ph ?s"
    by (rule inv_threads_move [OF it assms(3,4)]) (simp_all add: step_defs ready_to_def)
  moreover have "inv_calls args N ?s" using ic by (simp add: inv_calls_def step_defs ready_to_def)
  moreover have "inv_items args N ?ph ?s"
    using i assms(6,7) by (auto simp: inv_items_def step_defs ready_to_def call_items_def)
  moreover have "inv_states ?ph ?s"
  proof -
    have "f \<noteq> p" if "first_item (callers s c) = Some f" for c f
      using o [OF that] first_in_request [OF assms(1) ic that] by auto
    then show ?thesis using i n p by (auto simp: inv_states_def step_defs ready_to_def)
  qed
  moreover have "inv_counts args N ?ph ?s" "inv_buffers P args N b0 ?ph ?s"
  proof -
    have c: "callers ?s = callers s" "buffers ?s = buffers s" by (simp_all add: step_defs)
    have q: "pending (?ph v) = pending (ph v) \<and> (?ph v = PDone \<longleftrightarrow> ph v = PDone)" "was_processed (?ph v) = was_processed (ph v)"
      if "first_item (callers s c) = Some f" "v \<in> request args N c f" for c f v
      using o [OF that(1)] that(2) assms(5,6) by auto
    show "inv_counts args N ?ph ?s"
      by (rule inv_counts_same [of args N ph s]) (use i q assms(8,9) in \<open>auto simp: step_defs\<close>)
    have "{v \<in> request args N c f. was_processed (?ph v)} = {v \<in> request args N c f. was_processed (ph v)}"
      if "first_item (callers s c) = Some f" for c f
      using q(2) [OF that] by blast
    then show "inv_buffers P args N b0 ?ph ?s"
      using i unfolding inv_buffers_def c by simp
  qed
  ultimately show ?thesis by (simp add: pool_inv_def)
qed

text \<open>Steps of a worker that do not free an item.\<close>

lemma move_inv:
  assumes "pool_inv P args N b0 ph s" "at_item t p (threads s t) (ph p)" "at_item t p pc x \<or> pc = Waiting \<and> x = PDone"
    "was_processed (ph p)" "was_processed x" "data_units (ItemType (item s p))"
    "State w = State (item s f)" "ItemType w = ItemType (item s f)" "Buffer w = Buffer (item s f)"
    "\<And>a frs c g v. content a frs c g v w = content a frs c g v (item s f)"
    "let_go x \<Longrightarrow> let_go (ph p) \<or> (\<exists>c. first_item (callers s c) = Some p)"
    "inv_counts args N (ph(p := x)) (goto_thread t pc (set_item f w s))"
  shows "pool_inv P args N b0 (ph(p := x)) (goto_thread t pc (set_item f w s))" (is "pool_inv P args N b0 ?ph ?s")
proof -
  note i = assms(1) [unfolded pool_inv_def]
  have it: "inv_threads ph s" using i by simp
  have n: "ph p \<noteq> PNew" "x \<noteq> PNew" "ph p \<noteq> PDone" using assms(2,3) by (auto simp: at_item_def)
  have "inv_threads ?ph ?s"
    by (rule inv_threads_move [OF it assms(2,3)]) (simp_all add: step_defs ready_to_def)
  moreover have "inv_calls args N ?s" using i by (simp add: inv_calls_def step_defs ready_to_def)
  moreover have "inv_items args N ?ph ?s"
  proof -
    have e: "ItemType (item ?s v) = ItemType (item s v)" "Buffer (item ?s v) = Buffer (item s v)" "content a frs c g v (item ?s v) = content a frs c g v (item s v)"
      for v a frs c g using assms(8-10) by (simp_all add: step_defs)
    have c: "callers ?s = callers s" "ready_to ?s = ready_to s" "call_items args N ?s = call_items args N s"
      by (simp_all add: step_defs ready_to_def call_items_def fun_eq_iff)
    have "inv_items args N ph s" using i by simp
    then show ?thesis unfolding inv_items_def e c using n(3) assms(6) by simp
  qed
  moreover have "inv_states ?ph ?s"
  proof -
    have e: "State (item ?s v) = State (item s v)" for v using assms(7) by (simp add: step_defs)
    have c: "callers ?s = callers s" "ready_to ?s = ready_to s" by (simp_all add: step_defs ready_to_def)
    have st: "inv_states ph s" using i by simp
    have l: "State (item s v) = WorkItemFree \<or> (\<exists>c. first_item (callers s c) = Some v)" if "let_go (?ph v)" for v
      using st that assms(11) unfolding inv_states_def by (cases "v = p") auto
    show ?thesis using st n l unfolding inv_states_def e c by simp
  qed
  moreover have "inv_buffers P args N b0 ?ph ?s"
  proof -
    have "was_processed (?ph v) = was_processed (ph v)" for v using assms(4,5) by simp
    moreover have "callers ?s = callers s" "buffers ?s = buffers s" by (simp_all add: step_defs)
    ultimately show ?thesis using i by (simp add: inv_buffers_def)
  qed
  ultimately show ?thesis using assms(12) by (simp add: pool_inv_def)
qed

lemma phase_cases: "x \<noteq> PDone \<Longrightarrow> \<not> pending x \<Longrightarrow> \<exists>t. x = PSignal t"
  by (cases x) auto

lemma count_inv:
  assumes "pool_inv P args N b0 ph s" "threads s t = Counting p"
  defines "f \<equiv> FirstFragment (item s p)"
  defines "k \<equiv> OutstandingFragmentCount (item s f) - 1"
  shows "pool_inv P args N b0 (ph(p := if k = 0 then PSignal t else PDone))
    (goto_thread t (if k = 0 then Signalling p else Waiting) (set_item f ((item s f)\<lparr>OutstandingFragmentCount := k\<rparr>) s))"
    (is "pool_inv P args N b0 ?ph ?s")
proof -
  note i = assms(1) [unfolded pool_inv_def]
  have it: "inv_threads ph s" and ic: "inv_calls args N s" and ii: "inv_items args N ph s" and co: "inv_counts args N ph s" using i by simp_all
  note d = inv_countsD [OF co]
  have ph: "ph p = PCount t" using inv_threads_phase(3) [OF it] assms(2) by simp
  have p: "p < ready_to s" using phase_before_ready [OF it] ph by simp
  have u: "data_units (ItemType (item s p))" using ii ph by (auto simp: inv_items_def)
  let ?c = "Buffer (item s p)"
  have w: "first_item (callers s ?c) = Some f" "p \<in> request args N ?c f" "\<And>f'. callers s ?c \<noteq> FreeFirst f'"
    by (rule worker_item [OF assms(1) _ _ u]; use ph in \<open>simp add: f_def\<close>)+
  have o: "c = ?c \<and> g = f" if "first_item (callers s c) = Some g" "p \<in> request args N c g" for c g
    using other_request [OF assms(1) p that] by (simp add: f_def)
  have one: "c = ?c" if "first_item (callers s c) = Some f" for c
    using ic w(1) that by (auto simp: inv_calls_def)
  let ?S = "\<lambda>c g. {v \<in> request args N c g. pending (ph v)}"
  have S: "p \<in> ?S ?c f" "finite (?S ?c f)" using w(2) ph by auto
  have "card (?S ?c f) = Suc (card (?S ?c f - {p}))" using card_Suc_Diff1 [OF S(2,1)] by simp
  then have k: "k = int (card (?S ?c f - {p}))"
    using d(1) [OF w(1)] by (simp add: k_def)
  have S': "{v \<in> request args N ?c f. pending (?ph v)} = ?S ?c f - {p}" by auto
  have So: "{v \<in> request args N c g. pending (?ph v)} = ?S c g" if "first_item (callers s c) = Some g" "c \<noteq> ?c" for c g
    using o [OF that(1)] that(2) by auto
  have ev: "\<not> ItemCompletedEvent (item s f)"
    using d(2) [of f] one w(2) ph by fastforce
  have ns: "ph v \<noteq> PSignal t'" if "v \<in> request args N ?c f" for v t'
    using d(4) [OF w(1) that _ w(2), of t'] ph by (cases "v = p") auto
  have z: "ph v = PDone" if "k = 0" "v \<in> request args N ?c f" "v \<noteq> p" for v
  proof -
    have "?S ?c f - {p} = {}" using k that(1) S(2) by simp
    then have "\<not> pending (ph v)" using that by auto
    then show ?thesis using phase_cases ns that(2) by blast
  qed
  have "inv_counts args N ?ph ?s"
    unfolding inv_counts_def
  proof (intro conjI allI impI ballI)
    fix c g assume a: "first_item (callers ?s c) = Some g"
    then have a': "first_item (callers s c) = Some g" by (simp add: step_defs)
    show "OutstandingFragmentCount (item ?s g) = int (card {v \<in> request args N c g. pending (?ph v)})"
    proof (cases "c = ?c")
      case True
      then have "g = f" using a' w(1) by simp
      then show ?thesis using True k S' by (simp add: step_defs)
    next
      case False
      then have "g \<noteq> f" using one a' by auto
      then show ?thesis using d(1) [OF a'] So [OF a' False] by (simp add: step_defs)
    qed
    fix v t' assume v: "v \<in> request args N c g" "?ph v = PSignal t'"
    have vv: "c = ?c \<and> g = f \<and> v = p \<and> k = 0 \<or> c \<noteq> ?c \<and> g \<noteq> f \<and> v \<noteq> p \<and> ph v = PSignal t'"
    proof (cases "c = ?c")
      case True
      then have "g = f" using a' w(1) by simp
      then show ?thesis using True v ns [of v t'] by (auto split: if_splits)
    next
      case False
      then have "g \<noteq> f" "v \<noteq> p" using one a' o [OF a'] v(1) by auto
      then show ?thesis using False v(2) by auto
    qed
    then show "\<not> ItemCompletedEvent (item ?s g)"
      using ev d(3) [OF a' v(1)] by (auto simp: step_defs)
    fix w' assume w': "w' \<in> request args N c g" "w' \<noteq> v"
    show "?ph w' = PDone"
      using vv
    proof (elim disjE conjE)
      assume "c = ?c" "g = f" "v = p" "k = 0"
      then show ?thesis using z w' by simp
    next
      assume q: "c \<noteq> ?c" "ph v = PSignal t'"
      then have "w' \<noteq> p" using o [OF a'] w'(1) by auto
      then show ?thesis using d(4) [OF a' v(1) q(2) w'] by simp
    qed
  next
    fix g assume "ItemCompletedEvent (item ?s g)"
    then have "ItemCompletedEvent (item s g)" by (auto simp: step_defs split: if_splits)
    then obtain c where c: "first_item (callers s c) = Some g" "callers s c \<noteq> FreeFirst g" "\<forall>v\<in>request args N c g. ph v = PDone"
      using d(2) by blast
    have "p \<notin> request args N c g" using c(3) ph by auto
    then have "\<forall>v\<in>request args N c g. ?ph v = PDone" using c(3) by auto
    with c(1,2) show "\<exists>c. first_item (callers ?s c) = Some g \<and> callers ?s c \<noteq> FreeFirst g \<and> (\<forall>v\<in>request args N c g. ?ph v = PDone)"
      by (intro exI [of _ c]) (simp add: step_defs)
  next
    fix c g v assume a: "callers ?s c = FreeFirst g" "v \<in> request args N c g"
    then have "ph v = PDone" using d(5) by (simp add: step_defs)
    moreover have "v \<noteq> p" using calculation ph by auto
    ultimately show "?ph v = PDone" by simp
  next
    fix c g assume "first_item (callers ?s c) = Some g" "callers ?s c \<noteq> FreeFirst g"
    then have a: "first_item (callers s c) = Some g" "callers s c \<noteq> FreeFirst g" by (simp_all add: step_defs)
    show "ItemCompletedEvent (item ?s g) \<or> (\<exists>v\<in>request args N c g. ?ph v \<noteq> PDone)"
    proof (cases "c = ?c")
      case True
      then have g: "g = f" using a(1) w(1) by simp
      show ?thesis
      proof (cases "k = 0")
        case False
        then have "?S ?c f - {p} \<noteq> {}" using k by auto
        then obtain v where "v \<in> request args N ?c f" "v \<noteq> p" "pending (ph v)" by auto
        then show ?thesis using True g by (intro disjI2 bexI [of _ v]) auto
      qed (use True g w(2) in auto)
    next
      case False
      have e: "ItemCompletedEvent (item ?s g) = ItemCompletedEvent (item s g)" by (simp add: step_defs)
      have "p \<notin> request args N c g" using o [OF a(1)] False by auto
      then have "ph v \<noteq> PDone \<Longrightarrow> v \<in> request args N c g \<Longrightarrow> ?ph v \<noteq> PDone" for v by (cases "v = p") auto
      then show ?thesis using d(6) [OF a] e by blast
    qed
  qed
  then show ?thesis
    by (intro move_inv [OF assms(1) _ _ _ _ u]) (use assms(2) ph in \<open>auto simp: at_item_def\<close>)
qed

lemma signal_inv:
  assumes "pool_inv P args N b0 ph s" "threads s t = Signalling p"
  defines "f \<equiv> FirstFragment (item s p)"
  shows "pool_inv P args N b0 (ph(p := PDone)) (goto_thread t Waiting (set_item f ((item s f)\<lparr>ItemCompletedEvent := True\<rparr>) s))"
    (is "pool_inv P args N b0 ?ph ?s")
proof -
  note i = assms(1) [unfolded pool_inv_def]
  have it: "inv_threads ph s" and ic: "inv_calls args N s" and ii: "inv_items args N ph s" and co: "inv_counts args N ph s" using i by simp_all
  note d = inv_countsD [OF co]
  have ph: "ph p = PSignal t" using inv_threads_phase(4) [OF it] assms(2) by simp
  have p: "p < ready_to s" using phase_before_ready [OF it] ph by simp
  have u: "data_units (ItemType (item s p))" using ii ph by (auto simp: inv_items_def)
  let ?c = "Buffer (item s p)"
  have w: "first_item (callers s ?c) = Some f" "p \<in> request args N ?c f" "\<And>f'. callers s ?c \<noteq> FreeFirst f'"
    by (rule worker_item [OF assms(1) _ _ u]; use ph in \<open>simp add: f_def\<close>)+
  have o: "c = ?c \<and> g = f" if "first_item (callers s c) = Some g" "p \<in> request args N c g" for c g
    using other_request [OF assms(1) p that] by (simp add: f_def)
  have one: "c = ?c" if "first_item (callers s c) = Some f" for c
    using ic w(1) that by (auto simp: inv_calls_def)
  have all: "?ph v = PDone" if "v \<in> request args N ?c f" for v
    using d(4) [OF w(1,2) ph that] by simp
  have pe: "pending (?ph v) = pending (ph v)" for v using ph by simp
  have cl: "callers ?s = callers s" by (simp add: step_defs)
  have "inv_counts args N ?ph ?s"
    unfolding inv_counts_def cl pe
  proof (intro conjI allI impI ballI)
    fix c g assume a: "first_item (callers s c) = Some g"
    show "OutstandingFragmentCount (item ?s g) = int (card {v \<in> request args N c g. pending (ph v)})"
      using d(1) [OF a] by (cases "g = f") (simp_all add: step_defs)
    fix v t' assume v: "v \<in> request args N c g" "?ph v = PSignal t'"
    have "c \<noteq> ?c" using v a w(1) all by auto
    then have g: "g \<noteq> f" "ph v = PSignal t'" using one a v(2) by (auto split: if_splits)
    show "\<not> ItemCompletedEvent (item ?s g)" using d(3) [OF a v(1) g(2)] g(1) by (simp add: step_defs)
    show "?ph w' = PDone" if "w' \<in> request args N c g" "w' \<noteq> v" for w'
      using d(4) [OF a v(1) g(2) that] by simp
  next
    fix g assume e: "ItemCompletedEvent (item ?s g)"
    show "\<exists>c. first_item (callers s c) = Some g \<and> callers s c \<noteq> FreeFirst g \<and> (\<forall>v\<in>request args N c g. ?ph v = PDone)"
    proof (cases "g = f")
      case True
      then show ?thesis using w(1,3) all by (intro exI [of _ ?c]) simp
    next
      case False
      then obtain c where "first_item (callers s c) = Some g" "callers s c \<noteq> FreeFirst g" "\<forall>v\<in>request args N c g. ph v = PDone"
        using d(2) [of g] e by (auto simp: step_defs)
      then show ?thesis by auto
    qed
  next
    show "?ph v = PDone" if "callers s c = FreeFirst g" "v \<in> request args N c g" for c g v
      using d(5) [OF that] by simp
    show "ItemCompletedEvent (item ?s g) \<or> (\<exists>v\<in>request args N c g. ?ph v \<noteq> PDone)"
      if "first_item (callers s c) = Some g" "callers s c \<noteq> FreeFirst g" for c g
    proof (cases "c = ?c")
      case True
      then show ?thesis using that(1) w(1) by (simp add: step_defs)
    next
      case False
      have e: "ItemCompletedEvent (item s g) \<Longrightarrow> ItemCompletedEvent (item ?s g)" by (simp add: step_defs)
      have "p \<notin> request args N c g" using o [OF that(1)] False by auto
      then have "ph v \<noteq> PDone \<Longrightarrow> v \<in> request args N c g \<Longrightarrow> ?ph v \<noteq> PDone" for v by (cases "v = p") auto
      then show ?thesis using d(6) [OF that] e by blast
    qed
  qed
  then show ?thesis
    by (intro move_inv [OF assms(1) _ _ _ _ u]) (use assms(2) ph in \<open>auto simp: at_item_def\<close>)
qed

lemma first_inv:
  assumes "pool_inv P args N b0 ph s" "threads s t = Processed p" "p = FirstFragment (item s p)"
  shows "pool_inv P args N b0 (ph(p := PCount t)) (goto_thread t (Counting p) s)"
proof -
  have it: "inv_threads ph s" and ii: "inv_items args N ph s" and co: "inv_counts args N ph s" using assms(1) by (simp_all add: pool_inv_def)
  have ph: "ph p = PProc t" using inv_threads_phase(2) [OF it] assms(2) by simp
  have u: "data_units (ItemType (item s p))" using ii ph by (auto simp: inv_items_def)
  have e: "set_item p (item s p) s = s" by (simp add: set_item_def)
  have "inv_counts args N (ph(p := PCount t)) (goto_thread t (Counting p) (set_item p (item s p) s))"
    by (rule inv_counts_same [OF co]) (use ph in \<open>auto simp: step_defs\<close>)
  moreover have "first_item (callers s (Buffer (item s p))) = Some p"
    by (rule worker_item [OF assms(1) _ _ u]; use ph assms(3) in simp)
  ultimately show ?thesis
    using move_inv [OF assms(1) _ _ _ _ u, of t "Counting p" "PCount t" "item s p" p] assms(2) ph by (auto simp: at_item_def e)
qed

lemma thread_step_inv:
  assumes "0 < N" "pool_inv P args N b0 ph s" "thread_step P Suc t s = Some s'"
  shows "\<exists>ph'. pool_inv P args N b0 ph' s'"
proof -
  have it: "inv_threads ph s" and ii: "inv_items args N ph s" using assms(2) by (simp_all add: pool_inv_def)
  note st = assms(3) [unfolded thread_step_def finish_step_def]
  show ?thesis
  proof (cases "threads s t")
    case Waiting
    then show ?thesis using st hold_inv [OF assms(2) Waiting] by (auto split: if_splits)
  next
    case (Holding p)
    then show ?thesis using st work_inv [OF assms(2) Holding] by (auto split: if_splits)
  next
    case (Working p)
    have ph: "ph p = PWork t" using inv_threads_phase(1) [OF it] Working by simp
    show ?thesis
    proof (cases "data_units (ItemType (item s p))")
      case True
      then show ?thesis using st Working process_inv [OF assms(2) Working True] by auto
    next
      case False
      have "pool_inv P args N b0 (ph(p := PDone)) (goto_thread t Waiting (set_item p ((item s p)\<lparr>State := WorkItemFree\<rparr>) s))"
        by (rule free_inv [OF assms(1,2)]) (use Working ph False in \<open>auto simp: at_item_def\<close>)
      then show ?thesis using st Working False by auto
    qed
  next
    case (Processed p)
    have ph: "ph p = PProc t" using inv_threads_phase(2) [OF it] Processed by simp
    have u: "data_units (ItemType (item s p))" using ii ph by (auto simp: inv_items_def)
    show ?thesis
    proof (cases "p = FirstFragment (item s p)")
      case True
      then show ?thesis using st Processed first_inv [OF assms(2) Processed True] by auto
    next
      case False
      have "pool_inv P args N b0 (ph(p := PCount t)) (goto_thread t (Counting p) (set_item p ((item s p)\<lparr>State := WorkItemFree\<rparr>) s))"
        by (rule free_inv [OF assms(1,2)]) (use Processed ph False u in \<open>auto simp: at_item_def\<close>)
      then show ?thesis using st Processed False by auto
    qed
  next
    case (Counting p)
    then show ?thesis using st count_inv [OF assms(2) Counting] by (auto simp: Let_def)
  next
    case (Signalling p)
    then show ?thesis using st signal_inv [OF assms(2) Signalling] by (auto simp: Let_def)
  qed
qed

end
