(* ===== verification/QueueCalls.thy ===== *)
theory QueueCalls
  imports QueueInv
begin

text \<open>
  The steps of the calls preserve the invariant of \<open>QueueInv\<close>, and what follows for a call that has returned.
\<close>

section \<open>What a step of a call leaves alone\<close>

lemma inv_callsD:
  assumes "inv_calls args N s"
  shows "holds_lock (callers s c) \<longleftrightarrow> EnqueueMutex s = Some c"
    "call_shape (EnqueuePosition s) (ready_to s) (call_fragments N (args c)) (args c) (callers s c)"
    "first_item (callers s c) = Some f \<Longrightarrow> first_item (callers s c') = Some f \<Longrightarrow> c = c'"
  using assms by (auto simp: inv_calls_def)

lemma inv_itemsD:
  assumes "inv_items args N ph s"
  shows "first_item (callers s c) = Some f \<Longrightarrow> v \<in> call_items args N s c \<Longrightarrow> content (args c) (call_fragments N (args c)) c f v (item s v)"
    "callers s c = KeySetReady p \<Longrightarrow> \<not> data_units (ItemType (item s p))"
    "ph v = PProc t \<or> ph v = PCount t \<or> ph v = PSignal t \<Longrightarrow> data_units (ItemType (item s v))"
    "v < ready_to s \<Longrightarrow> data_units (ItemType (item s v)) \<Longrightarrow> ph v \<noteq> PDone \<Longrightarrow> v \<in> call_items args N s (Buffer (item s v))"
    "v < ready_to s \<Longrightarrow> data_units (ItemType (item s v)) \<Longrightarrow> ph v \<noteq> PDone \<Longrightarrow> callers s (Buffer (item s v)) \<noteq> FreeFirst f"
  using assms unfolding inv_items_def by blast+

lemma inv_statesD:
  assumes "inv_states ph s"
  shows "ready_to s \<le> v \<Longrightarrow> State (item s v) = WorkItemFree"
    "v < ready_to s \<Longrightarrow> ph v = PNew \<Longrightarrow> State (item s v) = WorkItemReady"
    "v < ready_to s \<Longrightarrow> ph v \<noteq> PNew \<Longrightarrow> State (item s v) \<noteq> WorkItemReady"
    "first_item (callers s c) = Some f \<Longrightarrow> f < ready_to s \<Longrightarrow> State (item s f) \<noteq> WorkItemFree"
    "let_go (ph v) \<Longrightarrow> State (item s v) = WorkItemFree \<or> (\<exists>c. first_item (callers s c) = Some v)"
  using assms unfolding inv_states_def by blast+

lemma inv_buffersD:
  assumes "inv_buffers P args N b0 ph s"
  shows "first_item (callers s c) = Some f \<Longrightarrow>
      processed_as P (args c) (image_mset (\<lambda>v. call_fragments N (args c) ! (v - f)) (mset_set {v \<in> request args N c f. was_processed (ph v)}))
          (b0 c) (buffers s c)"
    "callers s c = Outside \<or> callers s c = CheckFirst f \<Longrightarrow> buffers s c = b0 c"
    "callers s c = Returned \<Longrightarrow> args c = DoWork type u n ci \<Longrightarrow>
        (n = 0 \<longrightarrow> buffers s c = b0 c) \<and> (n = 1 \<longrightarrow> current_thread_units P type (b0 c) u n ci = Some (buffers s c)) \<and>
        (2 \<le> n \<longrightarrow> processed_as P (args c) (mset (call_fragments N (args c))) (b0 c) (buffers s c))"
  using assms unfolding inv_buffers_def by blast+

text \<open>The shape of a call without the lock survives when more items become ready.\<close>

lemma shape_other:
  "\<not> holds_lock pc \<Longrightarrow> call_shape E R frs a pc \<Longrightarrow> R \<le> R' \<Longrightarrow> call_shape E' R' frs a pc"
  by (cases pc) auto

lemma shape_first:
  assumes "0 < N" "inv_calls args N s" "first_item (callers s c) = Some f" "\<not> holds_lock (callers s c)"
  shows "f < ready_to s"
proof -
  have "f \<in> request args N c f" by (rule first_in_request [OF assms(1-3)])
  then have "f < f + length (call_fragments N (args c))" unfolding request_def atLeastLessThan_iff by simp
  moreover have "f + length (call_fragments N (args c)) \<le> ready_to s"
    using inv_callsD(2) [OF assms(2), of c] assms(3,4) by (cases "callers s c") auto
  ultimately show ?thesis by linarith
qed

lemma unlocked_items:
  assumes "inv_calls args N s" "\<not> holds_lock (callers s c)" "v \<in> call_items args N s c"
  shows "v < ready_to s"
  using inv_callsD(2) [OF assms(1), of c] assms(2,3) by (cases "callers s c") (auto simp: call_items_def pc_items_def)

lemma unlocked_pc_items: "\<not> holds_lock pc \<Longrightarrow> pc_items E n pc = pc_items E' n pc"
  by (cases pc) (auto simp: pc_items_def)

text \<open>A step of a call \<open>c\<close>, to \<open>pc\<close>, and the items of the others.\<close>

definition call_frame :: "(nat \<Rightarrow> call) \<Rightarrow> nat \<Rightarrow> pool \<Rightarrow> pool \<Rightarrow> nat \<Rightarrow> call_pc \<Rightarrow> bool" where
  "call_frame args N s s' c pc \<longleftrightarrow> callers s' = (callers s)(c := pc) \<and> (\<forall>c'. c' \<noteq> c \<longrightarrow> call_items args N s' c' = call_items args N s c')"

lemma call_frameD:
  assumes "call_frame args N s s' c pc"
  shows "c' \<noteq> c \<Longrightarrow> callers s' c' = callers s c'" "callers s' c = pc" "c' \<noteq> c \<Longrightarrow> call_items args N s' c' = call_items args N s c'"
  using assms by (auto simp: call_frame_def)

text \<open>The step of a call \<open>c\<close>, to \<open>pc\<close>, that has, takes or releases the lock: the other calls do not have it.\<close>

definition call_moves :: "(nat \<Rightarrow> call) \<Rightarrow> nat \<Rightarrow> pool \<Rightarrow> pool \<Rightarrow> nat \<Rightarrow> call_pc \<Rightarrow> bool" where
  "call_moves args N s s' c pc \<longleftrightarrow> 0 < N \<and> inv_calls args N s \<and> callers s' = (callers s)(c := pc) \<and>
     (\<forall>c'. c' \<noteq> c \<longrightarrow> \<not> holds_lock (callers s c')) \<and> ready_to s \<le> ready_to s'"

lemma call_movesD:
  assumes "call_moves args N s s' c pc"
  shows "0 < N" "inv_calls args N s" "callers s' = (callers s)(c := pc)" "c' \<noteq> c \<Longrightarrow> \<not> holds_lock (callers s c')" "ready_to s \<le> ready_to s'"
    "c' \<noteq> c \<Longrightarrow> callers s' c' = callers s c'" "callers s' c = pc"
    "c' \<noteq> c \<Longrightarrow> call_items args N s' c' = call_items args N s c'"
    "c' \<noteq> c \<Longrightarrow> first_item (callers s c') = Some f \<Longrightarrow> f < ready_to s"
    "c' \<noteq> c \<Longrightarrow> v \<in> call_items args N s c' \<Longrightarrow> v < ready_to s"
proof -
  show a: "0 < N" "inv_calls args N s" "callers s' = (callers s)(c := pc)" "\<And>c'. c' \<noteq> c \<Longrightarrow> \<not> holds_lock (callers s c')" "ready_to s \<le> ready_to s'"
    using assms by (auto simp: call_moves_def)
  show "c' \<noteq> c \<Longrightarrow> callers s' c' = callers s c'" "callers s' c = pc" using a(3) by auto
  show "c' \<noteq> c \<Longrightarrow> call_items args N s' c' = call_items args N s c'"
    using a(3) unlocked_pc_items [OF a(4)] by (simp add: call_items_def)
  show "c' \<noteq> c \<Longrightarrow> first_item (callers s c') = Some f \<Longrightarrow> f < ready_to s"
    by (rule shape_first [OF a(1,2) _ a(4)])
  show "c' \<noteq> c \<Longrightarrow> v \<in> call_items args N s c' \<Longrightarrow> v < ready_to s"
    by (rule unlocked_items [OF a(2,4)])
qed

lemma call_moves_frame: "call_moves args N s s' c pc \<Longrightarrow> call_frame args N s s' c pc"
  using call_movesD(3,8) [of args N s s' c pc] by (simp add: call_frame_def)

lemma inv_calls_step:
  assumes "call_moves args N s s' c pc" "EnqueueMutex s' = (if holds_lock pc then Some c else None)"
    "call_shape (EnqueuePosition s') (ready_to s') (call_fragments N (args c)) (args c) pc"
    "\<And>f. first_item pc = Some f \<Longrightarrow> first_item (callers s c) = Some f \<or> ready_to s \<le> f"
  shows "inv_calls args N s'"
proof -
  note m = call_movesD [OF assms(1)]
  note i = inv_callsD [OF m(2)]
  have new: "c2 = c" if "first_item pc = Some f" "first_item (callers s' c2) = Some f" for c2 f
  proof (rule ccontr)
    assume n2: "c2 \<noteq> c"
    then have c2: "first_item (callers s c2) = Some f" using that(2) m(6) by simp
    have "f < ready_to s" by (rule m(9) [OF n2 c2])
    then have "first_item (callers s c) = Some f" using assms(4) [OF that(1)] by simp
    then show False using i(3) [OF _ c2] n2 by simp
  qed
  show ?thesis
    unfolding inv_calls_def
  proof (intro conjI allI impI)
    fix c'
    show "holds_lock (callers s' c') \<longleftrightarrow> EnqueueMutex s' = Some c'"
    proof (cases "c' = c")
      case False
      then show ?thesis using m(4) [OF False] m(6) [OF False] assms(2) by simp
    qed (use m(7) assms(2) in simp)
    show "call_shape (EnqueuePosition s') (ready_to s') (call_fragments N (args c')) (args c') (callers s' c')"
    proof (cases "c' = c")
      case False
      show ?thesis using shape_other [OF m(4) [OF False] i(2) m(5)] m(6) [OF False] by simp
    qed (use m(7) assms(3) in simp)
  next
    fix c1 c2 f assume a: "first_item (callers s' c1) = Some f" "first_item (callers s' c2) = Some f"
    show "c1 = c2"
    proof (cases "c1 = c \<or> c2 = c")
      case True
      then show ?thesis using new [of f c2] new [of f c1] a m(7) by auto
    next
      case False
      then show ?thesis using i(3) [of c1 f c2] a m(6) by simp
    qed
  qed
qed

lemma inv_threads_call:
  assumes "inv_threads ph s" "threads s' = threads s" "DequeueMutex s' = DequeueMutex s" "DequeuePosition s' = DequeuePosition s" "ready_to s \<le> ready_to s'"
  shows "inv_threads ph s'"
proof -
  have st: "started_to s' = started_to s" using assms by (simp add: started_to_def)
  show ?thesis using assms(1,5) unfolding inv_threads_def assms(2-4) st by auto
qed

lemma inv_items_step:
  assumes m: "call_frame args N s s' c pc" and it: "inv_threads ph s" and ii: "inv_items args N ph s"
    and o: "\<And>v. v \<noteq> p \<Longrightarrow> item s' v = item s v"
    and p: "call_moves args N s s' c pc \<and> ready_to s \<le> p \<or> ItemType (item s' p) = ItemType (item s p) \<and> Buffer (item s' p) = Buffer (item s p) \<and>
      (\<forall>a frs c f v. content a frs c f v (item s' p) = content a frs c f v (item s p))"
    and new: "\<And>f v. first_item pc = Some f \<Longrightarrow> v \<in> call_items args N s' c \<Longrightarrow> content (args c) (call_fragments N (args c)) c f v (item s' v)"
    and key: "\<And>q. pc = KeySetReady q \<Longrightarrow> \<not> data_units (ItemType (item s' q))"
    and old: "\<And>v f. v < ready_to s \<Longrightarrow> v \<in> call_items args N s c \<Longrightarrow> ph v \<noteq> PDone \<Longrightarrow> (\<And>f. callers s c \<noteq> FreeFirst f) \<Longrightarrow>
      v \<in> call_items args N s' c \<and> pc \<noteq> FreeFirst f"
    and ready: "\<And>v f. ready_to s \<le> v \<Longrightarrow> v < ready_to s' \<Longrightarrow> data_units (ItemType (item s' v)) \<Longrightarrow>
      Buffer (item s' v) = c \<and> v \<in> call_items args N s' c \<and> pc \<noteq> FreeFirst f"
  shows "inv_items args N ph s'"
proof -
  note d = call_frameD [OF m]
  note i = inv_itemsD [OF ii]
  have same: "ItemType (item s' v) = ItemType (item s v)" "Buffer (item s' v) = Buffer (item s v)"
    "content a frs b f w (item s' v) = content a frs b f w (item s v)"
    if "v < ready_to s \<or> \<not> call_moves args N s s' c pc" for v a frs b f w
    using o [of v] p that by (cases "v = p"; auto)+
  show ?thesis
    unfolding inv_items_def
  proof (intro conjI allI impI)
    fix c' f v assume a: "first_item (callers s' c') = Some f" "v \<in> call_items args N s' c'"
    show "content (args c') (call_fragments N (args c')) c' f v (item s' v)"
    proof (cases "c' = c")
      case True
      then show ?thesis using new a d(2) by simp
    next
      case False
      then have v: "first_item (callers s c') = Some f" "v \<in> call_items args N s c'" using a d(1,3) by simp_all
      have "v < ready_to s \<or> \<not> call_moves args N s s' c pc" using call_movesD(10) [OF _ False v(2)] by blast
      then show ?thesis using i(1) [OF v] same(3) by simp
    qed
  next
    fix c' q assume a: "callers s' c' = KeySetReady q"
    show "\<not> data_units (ItemType (item s' q))"
    proof (cases "c' = c")
      case False
      then have c': "callers s c' = KeySetReady q" using a d(1) by simp
      then have "\<not> call_moves args N s s' c pc" using call_movesD(4) [OF _ False] by fastforce
      then show ?thesis using i(2) [OF c'] same(1) by simp
    qed (use a key d(2) in simp)
  next
    fix v assume a: "\<exists>t. ph v = PProc t \<or> ph v = PCount t \<or> ph v = PSignal t"
    then have "ph v \<noteq> PNew" by auto
    then have "v < ready_to s" by (rule phase_before_ready(2) [OF it])
    then show "data_units (ItemType (item s' v))" using same(1) i(3) a by auto
  next
    fix v assume a: "v < ready_to s'" "data_units (ItemType (item s' v))" "ph v \<noteq> PDone"
    have "v \<in> call_items args N s' (Buffer (item s' v)) \<and> (\<forall>f. callers s' (Buffer (item s' v)) \<noteq> FreeFirst f)"
    proof (cases "v < ready_to s")
      case True
      then have T: "v < ready_to s \<or> \<not> call_moves args N s s' c pc" by simp
      have b: "Buffer (item s' v) = Buffer (item s v)" by (rule same(2) [OF T])
      have u: "data_units (ItemType (item s v))" using a(2) same(1) [OF T] by simp
      note k = i(4) [OF True u a(3)] i(5) [OF True u a(3)]
      show ?thesis
      proof (cases "Buffer (item s v) = c")
        case True
        then show ?thesis using old [OF \<open>v < ready_to s\<close> _ a(3)] k d(2) b by simp
      next
        case False
        then show ?thesis using k d(1,3) b by simp
      qed
    next
      case False
      then show ?thesis using ready [of v] a(1,2) d(2) by auto
    qed
    then show "v \<in> call_items args N s' (Buffer (item s' v))" "\<And>f. callers s' (Buffer (item s' v)) \<noteq> FreeFirst f" by auto
  qed
qed

lemma inv_states_keep:
  assumes m: "call_frame args N s s' c pc" and i: "inv_states ph s" and r: "ready_to s' = ready_to s"
    and e: "\<And>v. State (item s' v) = State (item s v)"
    and f: "\<And>f. first_item pc = Some f \<Longrightarrow> first_item (callers s c) = Some f \<or> ready_to s \<le> f"
    and g: "\<And>f. first_item (callers s c) = Some f \<Longrightarrow> first_item pc = Some f"
  shows "inv_states ph s'"
  unfolding inv_states_def e r
proof (intro conjI allI impI)
  note d = call_frameD [OF m]
  fix c' g assume a: "first_item (callers s' c') = Some g" "g < ready_to s"
  have "first_item (callers s c') = Some g"
  proof (cases "c' = c")
    case True
    then show ?thesis using a f [of g] d(2) by simp
  qed (use a d(1) in simp)
  then show "State (item s g) \<noteq> WorkItemFree" by (rule inv_statesD(4) [OF i _ a(2)])
next
  note d = call_frameD [OF m]
  fix v assume "let_go (ph v)"
  then show "State (item s v) = WorkItemFree \<or> (\<exists>c. first_item (callers s' c) = Some v)"
  proof (cases "State (item s v) = WorkItemFree")
    case False
    then obtain c' where "first_item (callers s c') = Some v" using inv_statesD(5) [OF i \<open>let_go (ph v)\<close>] by blast
    then have "first_item (callers s' c') = Some v" using d(1) [of c'] d(2) g [of v] by (cases "c' = c") simp_all
    then show ?thesis by blast
  qed simp
qed (use inv_statesD(1-3) [OF i] in auto)

lemma inv_states_ready:
  assumes m: "call_frame args N s s' c pc" and it: "inv_threads ph s" and i: "inv_states ph s" and r: "ready_to s = p" "ready_to s' = Suc p"
    and o: "\<And>v. v \<noteq> p \<Longrightarrow> item s' v = item s v" and w: "State (item s' p) = WorkItemReady"
    and f: "\<And>f. first_item pc = Some f \<Longrightarrow> first_item (callers s c) = Some f \<or> ready_to s \<le> f"
    and g: "\<And>f. first_item (callers s c) = Some f \<Longrightarrow> first_item pc = Some f"
  shows "inv_states ph s'"
proof -
  note d = call_frameD [OF m]
  have n: "ph p = PNew" using phase_before_ready(2) [OF it, of p] r(1) by auto
  show ?thesis
    unfolding inv_states_def r(2)
  proof (intro conjI allI impI)
    fix v
    show "State (item s' v) = WorkItemFree" if "Suc p \<le> v" using inv_statesD(1) [OF i, of v] that o r by simp
    show "State (item s' v) = WorkItemReady" if "v < Suc p" "ph v = PNew"
      using inv_statesD(2) [OF i, of v] that o w r by (cases "v = p") simp_all
    show "State (item s' v) \<noteq> WorkItemReady" if "v < Suc p" "ph v \<noteq> PNew"
      using inv_statesD(3) [OF i, of v] that o n r by (cases "v = p") simp_all
  next
    fix c' g assume a: "first_item (callers s' c') = Some g" "g < Suc p"
    show "State (item s' g) \<noteq> WorkItemFree"
    proof (cases "g = p")
      case True
      then show ?thesis using w by simp
    next
      case False
      then have g: "g < ready_to s" using a(2) r by simp
      have "first_item (callers s c') = Some g"
      proof (cases "c' = c")
        case True
        then show ?thesis using a f [of g] d(2) g by simp
      qed (use a d(1) in simp)
      then show ?thesis using inv_statesD(4) [OF i _ g] o [OF False] by simp
    qed
  next
    fix v assume v: "let_go (ph v)"
    then have p: "v \<noteq> p" using n by auto
    show "State (item s' v) = WorkItemFree \<or> (\<exists>c. first_item (callers s' c) = Some v)"
    proof (cases "State (item s v) = WorkItemFree")
      case False
      then obtain c' where "first_item (callers s c') = Some v" using inv_statesD(5) [OF i v] by blast
      then have "first_item (callers s' c') = Some v" using d(1) [of c'] d(2) g [of v] by (cases "c' = c") simp_all
      then show ?thesis by blast
    qed (use o [OF p] in simp)
  qed
qed

lemma inv_counts_keep:
  assumes "call_frame args N s s' c pc" "inv_counts args N ph s" "first_item pc = first_item (callers s c)"
    "\<And>f. pc \<noteq> FreeFirst f" "\<And>f. callers s c \<noteq> FreeFirst f"
    "\<And>v. OutstandingFragmentCount (item s' v) = OutstandingFragmentCount (item s v)" "\<And>v. ItemCompletedEvent (item s' v) = ItemCompletedEvent (item s v)"
  shows "inv_counts args N ph s'"
proof -
  note d = call_frameD [OF assms(1)]
  have fi: "first_item (callers s' c') = first_item (callers s c')" for c' using d(1,2) assms(3) by (cases "c' = c") simp_all
  have ff: "callers s' c' = FreeFirst f \<longleftrightarrow> callers s c' = FreeFirst f" for c' f using d(1,2) assms(4,5) by (cases "c' = c") simp_all
  show ?thesis using assms(2) unfolding inv_counts_def fi ff assms(6,7) .
qed

lemma inv_buffers_keep:
  assumes "call_frame args N s s' c pc" "inv_buffers P args N b0 ph s" "first_item pc = first_item (callers s c)" "buffers s' = buffers s"
    "pc = Outside \<or> (\<exists>f. pc = CheckFirst f) \<Longrightarrow> callers s c = Outside" "pc = Returned \<Longrightarrow> \<exists>type. args c = BeginWork type"
  shows "inv_buffers P args N b0 ph s'"
proof -
  note d = call_frameD [OF assms(1)]
  note i = inv_buffersD [OF assms(2)]
  have fi: "first_item (callers s' c') = first_item (callers s c')" for c' using d(1,2) assms(3) by (cases "c' = c") simp_all
  show ?thesis
    unfolding inv_buffers_def fi assms(4)
  proof (intro conjI allI)
    fix c'
    show "first_item (callers s c') = Some f \<longrightarrow>
        processed_as P (args c') (image_mset (\<lambda>v. call_fragments N (args c') ! (v - f)) (mset_set {v \<in> request args N c' f. was_processed (ph v)}))
          (b0 c') (buffers s c')" for f
      by (intro impI i(1))
    show "callers s' c' = Outside \<or> callers s' c' = CheckFirst f \<longrightarrow> buffers s c' = b0 c'" for f
      using i(2) [of c'] d(1) [of c'] d(2) assms(5) by (cases "c' = c") auto
    fix type u n ci
    show "callers s' c' = Returned \<longrightarrow> args c' = DoWork type u n ci \<longrightarrow>
        (n = 0 \<longrightarrow> buffers s c' = b0 c') \<and> (n = 1 \<longrightarrow> current_thread_units P type (b0 c') u n ci = Some (buffers s c')) \<and>
        (2 \<le> n \<longrightarrow> processed_as P (args c') (mset (call_fragments N (args c'))) (b0 c') (buffers s c'))"
      using i(3) [of c' type u n ci] d(1) [of c'] d(2) assms(6) by (cases "c' = c") auto
  qed
qed


lemma inv_counts_step:
  assumes m: "call_frame args N s s' c pc" and i: "inv_counts args N ph s"
    and o: "\<And>c' g. c' \<noteq> c \<Longrightarrow> first_item (callers s c') = Some g \<Longrightarrow>
      OutstandingFragmentCount (item s' g) = OutstandingFragmentCount (item s g) \<and> ItemCompletedEvent (item s' g) = ItemCompletedEvent (item s g)"
    and e: "\<And>g. ItemCompletedEvent (item s' g) \<Longrightarrow> ItemCompletedEvent (item s g) \<and> (first_item (callers s c) = Some g \<longrightarrow> callers s c = FreeFirst g)"
    and n: "\<And>f. first_item pc = Some f \<Longrightarrow> OutstandingFragmentCount (item s' f) = int (card {v \<in> request args N c f. pending (ph v)})"
      "\<And>f v t. first_item pc = Some f \<Longrightarrow> v \<in> request args N c f \<Longrightarrow> ph v \<noteq> PSignal t"
      "\<And>f v. pc = FreeFirst f \<Longrightarrow> v \<in> request args N c f \<Longrightarrow> ph v = PDone"
      "\<And>f. first_item pc = Some f \<Longrightarrow> pc \<noteq> FreeFirst f \<Longrightarrow> \<exists>v\<in>request args N c f. ph v \<noteq> PDone"
  shows "inv_counts args N ph s'"
  unfolding inv_counts_def
proof (intro conjI allI impI ballI)
  note d = call_frameD [OF m]
  note co = inv_countsD [OF i]
  fix c' g assume a: "first_item (callers s' c') = Some g"
  have old: "first_item (callers s c') = Some g" if "c' \<noteq> c" using a d(1) [OF that] by simp
  show "OutstandingFragmentCount (item s' g) = int (card {v \<in> request args N c' g. pending (ph v)})"
  proof (cases "c' = c")
    case True
    then show ?thesis using a n(1) d(2) by simp
  next
    case False
    then show ?thesis using co(1) [OF old [OF False]] o [OF False old [OF False]] by simp
  qed
  fix v t assume v: "v \<in> request args N c' g" "ph v = PSignal t"
  have k: "c' \<noteq> c" using v n(2) a d(2) by auto
  show "\<not> ItemCompletedEvent (item s' g)" using co(3) [OF old [OF k] v] o [OF k old [OF k]] by simp
  show "ph w = PDone" if "w \<in> request args N c' g" "w \<noteq> v" for w by (rule co(4) [OF old [OF k] v that])
next
  note d = call_frameD [OF m]
  fix g assume "ItemCompletedEvent (item s' g)"
  then have g: "ItemCompletedEvent (item s g)" "first_item (callers s c) = Some g \<longrightarrow> callers s c = FreeFirst g" using e [of g] by auto
  then obtain c' where c': "first_item (callers s c') = Some g" "callers s c' \<noteq> FreeFirst g" "\<forall>v\<in>request args N c' g. ph v = PDone"
    using inv_countsD(2) [OF i] by blast
  have "c' \<noteq> c" using c'(1,2) g(2) by auto
  then show "\<exists>c. first_item (callers s' c) = Some g \<and> callers s' c \<noteq> FreeFirst g \<and> (\<forall>v\<in>request args N c g. ph v = PDone)"
    using c' d(1) by (intro exI [of _ c']) simp
next
  note d = call_frameD [OF m]
  fix c' g v assume a: "callers s' c' = FreeFirst g" "v \<in> request args N c' g"
  show "ph v = PDone"
  proof (cases "c' = c")
    case True
    then show ?thesis using n(3) a d(2) by simp
  next
    case False
    then show ?thesis using inv_countsD(5) [OF i _ a(2)] a(1) d(1) by simp
  qed
next
  note d = call_frameD [OF m]
  fix c' g assume a: "first_item (callers s' c') = Some g" "callers s' c' \<noteq> FreeFirst g"
  show "ItemCompletedEvent (item s' g) \<or> (\<exists>v\<in>request args N c' g. ph v \<noteq> PDone)"
  proof (cases "c' = c")
    case True
    then show ?thesis using n(4) a d(2) by simp
  next
    case False
    then have b: "first_item (callers s c') = Some g" "callers s c' \<noteq> FreeFirst g" using a d(1) by simp_all
    then show ?thesis using inv_countsD(6) [OF i b] o [OF False b(1)] by simp
  qed
qed

lemma inv_buffers_step:
  assumes m: "call_frame args N s s' c pc" and i: "inv_buffers P args N b0 ph s" and o: "\<And>c'. c' \<noteq> c \<Longrightarrow> buffers s' c' = buffers s c'"
    and n: "\<And>f. first_item pc = Some f \<Longrightarrow>
        processed_as P (args c) (image_mset (\<lambda>v. call_fragments N (args c) ! (v - f)) (mset_set {v \<in> request args N c f. was_processed (ph v)}))
          (b0 c) (buffers s' c)"
      "pc \<noteq> Outside" "\<And>f. pc \<noteq> CheckFirst f"
      "\<And>type u n ci. pc = Returned \<Longrightarrow> args c = DoWork type u n ci \<Longrightarrow>
        (n = 0 \<longrightarrow> buffers s' c = b0 c) \<and> (n = 1 \<longrightarrow> current_thread_units P type (b0 c) u n ci = Some (buffers s' c)) \<and>
        (2 \<le> n \<longrightarrow> processed_as P (args c) (mset (call_fragments N (args c))) (b0 c) (buffers s' c))"
  shows "inv_buffers P args N b0 ph s'"
  unfolding inv_buffers_def
proof (intro conjI allI)
  note d = call_frameD [OF m]
  note bu = inv_buffersD [OF i]
  fix c'
  show "first_item (callers s' c') = Some g \<longrightarrow>
      processed_as P (args c') (image_mset (\<lambda>v. call_fragments N (args c') ! (v - g)) (mset_set {v \<in> request args N c' g. was_processed (ph v)}))
      (b0 c') (buffers s' c')" for g
  proof (cases "c' = c")
    case False
    then show ?thesis using bu(1) [of c' g] d(1) o by simp
  qed (use n(1) d(2) in simp)
  show "callers s' c' = Outside \<or> callers s' c' = CheckFirst g \<longrightarrow> buffers s' c' = b0 c'" for g
    using bu(2) [of c' g] d(1) [of c'] d(2) o [of c'] n(2,3) by (cases "c' = c") auto
  show "callers s' c' = Returned \<longrightarrow> args c' = DoWork type u k ci \<longrightarrow>
      (k = 0 \<longrightarrow> buffers s' c' = b0 c') \<and> (k = 1 \<longrightarrow> current_thread_units P type (b0 c') u k ci = Some (buffers s' c')) \<and>
      (2 \<le> k \<longrightarrow> processed_as P (args c') (mset (call_fragments N (args c'))) (b0 c') (buffers s' c'))" for type u k ci
  proof (cases "c' = c")
    case False
    then show ?thesis using bu(3) [of c' type u k ci] d(1) o by simp
  qed (use n(4) [of type u k ci] d(2) in simp)
qed

section \<open>The steps\<close>

text \<open>A call that has the lock, or that takes it.\<close>

lemma call_movesI:
  assumes "0 < N" "inv_calls args N s" "EnqueueMutex s = None \<or> EnqueueMutex s = Some c" "callers s' = (callers s)(c := pc)"
    "ready_to s \<le> ready_to s'"
  shows "call_moves args N s s' c pc"
  using assms inv_callsD(1) [OF assms(2)] by (auto simp: call_moves_def)

text \<open>A step that changes no item.\<close>

lemma quiet_call_inv:
  assumes "call_moves args N s s' c pc" "pool_inv P args N b0 ph s" "WorkItemQueue s' = WorkItemQueue s" "buffers s' = buffers s"
    "threads s' = threads s" "DequeueMutex s' = DequeueMutex s" "DequeuePosition s' = DequeuePosition s" "ready_to s' = ready_to s"
    "EnqueueMutex s' = (if holds_lock pc then Some c else None)"
    "call_shape (EnqueuePosition s') (ready_to s') (call_fragments N (args c)) (args c) pc"
    "first_item pc = first_item (callers s c)" "call_items args N s' c = call_items args N s c"
    "\<And>f. callers s c \<noteq> FreeFirst f" "\<And>f. pc \<noteq> FreeFirst f" "\<And>f. pc \<noteq> KeySetReady f" "pc \<noteq> Returned" "pc \<noteq> Outside"
    "\<And>f. pc = CheckFirst f \<Longrightarrow> callers s c = Outside"
  shows "pool_inv P args N b0 ph s'"
proof -
  note fr = call_moves_frame [OF assms(1)]
  have i: "inv_threads ph s" "inv_calls args N s" "inv_items args N ph s" "inv_states ph s" "inv_counts args N ph s" "inv_buffers P args N b0 ph s"
    using assms(2) by (simp_all add: pool_inv_def)
  have fi: "first_item pc = Some f \<Longrightarrow> first_item (callers s c) = Some f \<or> ready_to s \<le> f" for f using assms(11) by simp
  have co: "first_item pc = Some f \<Longrightarrow> v \<in> call_items args N s' c \<Longrightarrow> content (args c) (call_fragments N (args c)) c f v (item s' v)" for f v
    using inv_itemsD(1) [OF i(3), of c f v] assms(3,11,12) by simp
  have "inv_threads ph s'" by (rule inv_threads_call [OF i(1)]) (use assms in simp_all)
  moreover have "inv_calls args N s'" by (rule inv_calls_step [OF assms(1,9,10) fi])
  moreover have "inv_items args N ph s'"
    by (rule inv_items_step [OF fr i(1,3), of 0]) (use assms(3,8,12,14,15) co in auto)
  moreover have "inv_states ph s'"
    by (rule inv_states_keep [OF fr i(4) assms(8) _ fi]) (use assms(11) assms(3) in simp_all)
  moreover have "inv_counts args N ph s'"
    by (rule inv_counts_keep [OF fr i(5) assms(11,14,13)]) (use assms(3) in simp_all)
  moreover have "inv_buffers P args N b0 ph s'"
    by (rule inv_buffers_keep [OF fr i(6) assms(11,4)]) (use assms(16-) in auto)
  ultimately show ?thesis by (simp add: pool_inv_def)
qed

lemmas call_simps = step_defs ready_to_def ready_of_def call_items_def pc_items_def

lemma enter_inv:
  assumes "0 < N" "pool_inv P args N b0 ph s" "callers s c = Outside" "EnqueueMutex s = None" "enough (args c)"
  shows "pool_inv P args N b0 ph (goto_call c (CheckFirst (EnqueuePosition s)) (s\<lparr>EnqueueMutex := Some c\<rparr>))"
    (is "pool_inv P args N b0 ph ?s")
proof -
  have m: "call_moves args N s ?s c (CheckFirst (EnqueuePosition s))"
    by (rule call_movesI [OF assms(1)]) (use assms(2,4) in \<open>auto simp: pool_inv_def call_simps\<close>)
  show ?thesis by (rule quiet_call_inv [OF m assms(2)]) (use assms(3-) in \<open>simp_all add: call_simps\<close>)
qed

lemma key_enter_inv:
  assumes "0 < N" "pool_inv P args N b0 ph s" "callers s c = Outside" "EnqueueMutex s = None" "begins (args c)"
  shows "pool_inv P args N b0 ph
    (goto_call c (KeyWaitFree (EnqueuePosition s)) (s\<lparr>EnqueueMutex := Some c, EnqueuePosition := Suc (EnqueuePosition s)\<rparr>))"
    (is "pool_inv P args N b0 ph ?s")
proof -
  have m: "call_moves args N s ?s c (KeyWaitFree (EnqueuePosition s))"
    by (rule call_movesI [OF assms(1)]) (use assms(2,4) in \<open>auto simp: pool_inv_def call_simps\<close>)
  show ?thesis by (rule quiet_call_inv [OF m assms(2)]) (use assms(3-) in \<open>simp_all add: call_simps\<close>)
qed

text \<open>What the shape of a call and its lock say.\<close>

lemma locked_facts:
  assumes "pool_inv P args N b0 ph s" "holds_lock (callers s c)"
  shows "inv_calls args N s" "EnqueueMutex s = Some c"
    "call_shape (EnqueuePosition s) (ready_to s) (call_fragments N (args c)) (args c) (callers s c)"
    "ready_to s = ready_pos (EnqueuePosition s) (callers s c)"
  using assms inv_callsD(1,2) [of args N s c] by (simp_all add: pool_inv_def ready_to_def ready_of_def)

lemma release_inv:
  assumes "0 < N" "pool_inv P args N b0 ph s" "callers s c = NextItem [] f"
  shows "pool_inv P args N b0 ph (goto_call c (WaitCompleted f) (s\<lparr>EnqueueMutex := None\<rparr>))" (is "pool_inv P args N b0 ph ?s")
proof -
  have h: "holds_lock (callers s c)" using assms(3) by simp
  note l = locked_facts [OF assms(2) h]
  have m: "call_moves args N s ?s c (WaitCompleted f)"
    by (rule call_movesI [OF assms(1) l(1)]) (use l assms(3) in \<open>auto simp: call_simps\<close>)
  show ?thesis by (rule quiet_call_inv [OF m assms(2)]) (use assms(3) l in \<open>auto simp: call_simps\<close>)
qed

lemma take_inv:
  assumes "0 < N" "pool_inv P args N b0 ph s" "callers s c = NextItem ws f" "ws \<noteq> []"
  shows "pool_inv P args N b0 ph (goto_call c (WaitFree (EnqueuePosition s) ws f) (s\<lparr>EnqueuePosition := Suc (EnqueuePosition s)\<rparr>))"
    (is "pool_inv P args N b0 ph ?s")
proof -
  have h: "holds_lock (callers s c)" using assms(3) by simp
  note l = locked_facts [OF assms(2) h]
  have m: "call_moves args N s ?s c (WaitFree (EnqueuePosition s) ws f)"
    by (rule call_movesI [OF assms(1) l(1)]) (use l assms(3) in \<open>auto simp: call_simps\<close>)
  show ?thesis by (rule quiet_call_inv [OF m assms(2)]) (use assms(3,4) l in \<open>auto simp: call_simps\<close>)
qed


text \<open>The parts of the invariant.\<close>

lemma pool_invD:
  assumes "pool_inv P args N b0 ph s"
  shows "inv_threads ph s" "inv_calls args N s" "inv_items args N ph s" "inv_states ph s" "inv_counts args N ph s" "inv_buffers P args N b0 ph s"
  using assms by (simp_all add: pool_inv_def)

lemma fill_inv:
  assumes "0 < N" "pool_inv P args N b0 ph s" "callers s c = WaitFree p ws f" "args c = DoWork type u n ci"
  shows "pool_inv P args N b0 ph (goto_call c (SetReady p (tl ws) f)
      (set_item p ((item s p)\<lparr>ItemType := type, FirstFragment := f, CryptoInfo := ci, Buffer := c, Encryption := hd ws\<rparr>) s))"
    (is "pool_inv P args N b0 ph (goto_call c ?pc (set_item p ?w s))" is "pool_inv P args N b0 ph ?s")
proof -
  have h: "holds_lock (callers s c)" using assms(3) by simp
  note l = locked_facts [OF assms(2) h]
  note i = pool_invD [OF assms(2)]
  have r: "ready_to s = p" "ready_to ?s = p" using l assms(3) by (simp_all add: call_simps)
  have sh: "enough (args c)" "EnqueuePosition s = Suc p" "f \<le> p" "p < f + length (call_fragments N (args c))" "ws = drop (p - f) (call_fragments N (args c))"
    using l(3) assms(3) by simp_all
  have hd: "hd ws = call_fragments N (args c) ! (p - f)" using sh(3,4,5) by (simp add: hd_drop_conv_nth)
  have tl: "tl ws = drop (Suc p - f) (call_fragments N (args c))" using sh(3) by (simp add: sh(5) Suc_diff_le drop_Suc tl_drop)
  have u: "data_units type" using sh(1) assms(4) by (simp add: enough_def)
  have m: "call_moves args N s ?s c ?pc"
    by (rule call_movesI [OF assms(1) l(1)]) (use l r in \<open>simp_all add: step_defs\<close>)
  note fr = call_moves_frame [OF m]
  have fi: "first_item ?pc = Some g \<Longrightarrow> first_item (callers s c) = Some g \<or> ready_to s \<le> g" for g using assms(3) by simp
  have its: "call_items args N s c = {f..<p}" "call_items args N ?s c = {f..<Suc p}" using assms(3) by (simp_all add: call_items_def pc_items_def step_defs)
  have "inv_threads ph ?s" by (rule inv_threads_call [OF i(1)]) (use r in \<open>simp_all add: step_defs\<close>)
  moreover have "inv_calls args N ?s"
    by (rule inv_calls_step [OF m _ _ fi]) (use l(2) sh tl in \<open>simp_all add: step_defs\<close>)
  moreover have "inv_items args N ph ?s"
  proof (rule inv_items_step [OF fr i(1,3), of p])
    fix g v assume a: "first_item ?pc = Some g" "v \<in> call_items args N ?s c"
    show "content (args c) (call_fragments N (args c)) c g v (item ?s v)"
    proof (cases "v = p")
      case True
      then show ?thesis using a(1) hd assms(4) u by (simp add: step_defs content_def)
    next
      case False
      then have "v \<in> call_items args N s c" using a(2) its by auto
      then show ?thesis using inv_itemsD(1) [OF i(3), of c g v] a(1) assms(3) False by (simp add: step_defs)
    qed
  qed (use m r its in \<open>auto simp: step_defs\<close>)
  moreover have "inv_states ph ?s"
    by (rule inv_states_keep [OF fr i(4) _ _ fi]) (use assms(3) r in \<open>simp_all add: step_defs\<close>)
  moreover have "inv_counts args N ph ?s"
    by (rule inv_counts_keep [OF fr i(5)]) (use assms(3) in \<open>simp_all add: step_defs\<close>)
  moreover have "inv_buffers P args N b0 ph ?s"
    by (rule inv_buffers_keep [OF fr i(6)]) (use assms(3) in \<open>simp_all add: step_defs\<close>)
  ultimately show ?thesis by (simp add: pool_inv_def)
qed

lemma ready_inv:
  assumes "0 < N" "pool_inv P args N b0 ph s" "callers s c = SetReady p ws f"
  shows "pool_inv P args N b0 ph (goto_call c (NextItem ws f) (set_item p ((item s p)\<lparr>State := WorkItemReady\<rparr>) s))" (is "pool_inv P args N b0 ph ?s")
proof -
  have h: "holds_lock (callers s c)" using assms(3) by simp
  note l = locked_facts [OF assms(2) h]
  note i = pool_invD [OF assms(2)]
  have sh: "enough (args c)" "EnqueuePosition s = Suc p" "f \<le> p" "p < f + length (call_fragments N (args c))" "ws = drop (Suc p - f) (call_fragments N (args c))"
    using l(3) assms(3) by simp_all
  have r: "ready_to s = p" "ready_to ?s = Suc p" using l sh(2) assms(3) by (simp_all add: call_simps)
  have m: "call_moves args N s ?s c (NextItem ws f)"
    by (rule call_movesI [OF assms(1) l(1)]) (use l r in \<open>simp_all add: step_defs\<close>)
  note fr = call_moves_frame [OF m]
  have fi: "first_item (NextItem ws f) = Some g \<Longrightarrow> first_item (callers s c) = Some g \<or> ready_to s \<le> g" for g using assms(3) by simp
  have its: "call_items args N s c = {f..<Suc p}" "call_items args N ?s c = {f..<Suc p}"
    using assms(3) sh(2) by (simp_all add: call_items_def pc_items_def step_defs)
  have pc: "content (args c) (call_fragments N (args c)) c f p (item s p)"
    by (rule inv_itemsD(1) [OF i(3)]) (use assms(3) its sh(3) in simp_all)
  have "inv_threads ph ?s" by (rule inv_threads_call [OF i(1)]) (use r in \<open>simp_all add: step_defs\<close>)
  moreover have "inv_calls args N ?s"
    by (rule inv_calls_step [OF m _ _ fi]) (use l(2) sh in \<open>simp_all add: step_defs\<close>)
  moreover have "inv_items args N ph ?s"
  proof (rule inv_items_step [OF fr i(1,3), of p])
    fix g v assume a: "first_item (NextItem ws f) = Some g" "v \<in> call_items args N ?s c"
    then have "content (args c) (call_fragments N (args c)) c g v (item s v)"
      using inv_itemsD(1) [OF i(3), of c g v] its assms(3) by simp
    then show "content (args c) (call_fragments N (args c)) c g v (item ?s v)" by (cases "v = p") (simp_all add: step_defs)
  qed (use r its pc sh(3) in \<open>auto simp: step_defs content_def\<close>)
  moreover have "inv_states ph ?s"
    by (rule inv_states_ready [OF fr i(1,4) r _ _ fi]) (use assms(3) in \<open>simp_all add: step_defs\<close>)
  moreover have "inv_counts args N ph ?s"
    by (rule inv_counts_keep [OF fr i(5)]) (use assms(3) in \<open>simp_all add: step_defs\<close>)
  moreover have "inv_buffers P args N b0 ph ?s"
    by (rule inv_buffers_keep [OF fr i(6)]) (use assms(3) in \<open>simp_all add: step_defs\<close>)
  ultimately show ?thesis by (simp add: pool_inv_def)
qed

lemma key_fill_inv:
  assumes "0 < N" "pool_inv P args N b0 ph s" "callers s c = KeyWaitFree p" "\<not> data_units type"
  shows "pool_inv P args N b0 ph (goto_call c (KeySetReady p) (set_item p ((item s p)\<lparr>ItemType := type\<rparr>) s))" (is "pool_inv P args N b0 ph ?s")
proof -
  have h: "holds_lock (callers s c)" using assms(3) by simp
  note l = locked_facts [OF assms(2) h]
  note i = pool_invD [OF assms(2)]
  have sh: "begins (args c)" "EnqueuePosition s = Suc p" using l(3) assms(3) by simp_all
  have r: "ready_to s = p" "ready_to ?s = p" using l sh(2) assms(3) by (simp_all add: call_simps)
  have m: "call_moves args N s ?s c (KeySetReady p)"
    by (rule call_movesI [OF assms(1) l(1)]) (use l r in \<open>simp_all add: step_defs\<close>)
  note fr = call_moves_frame [OF m]
  have its: "call_items args N s c = {}" using assms(3) by (simp_all add: call_items_def pc_items_def)
  have "inv_threads ph ?s" by (rule inv_threads_call [OF i(1)]) (use r in \<open>simp_all add: step_defs\<close>)
  moreover have "inv_calls args N ?s"
    by (rule inv_calls_step [OF m]) (use l(2) sh in \<open>simp_all add: step_defs\<close>)
  moreover have "inv_items args N ph ?s"
    by (rule inv_items_step [OF fr i(1,3), of p]) (use m r its assms(4) in \<open>auto simp: step_defs\<close>)
  moreover have "inv_states ph ?s"
    by (rule inv_states_keep [OF fr i(4)]) (use assms(3) r in \<open>simp_all add: step_defs\<close>)
  moreover have "inv_counts args N ph ?s"
    by (rule inv_counts_keep [OF fr i(5)]) (use assms(3) in \<open>simp_all add: step_defs\<close>)
  moreover have "inv_buffers P args N b0 ph ?s"
    by (rule inv_buffers_keep [OF fr i(6)]) (use assms(3) in \<open>simp_all add: step_defs\<close>)
  ultimately show ?thesis by (simp add: pool_inv_def)
qed

lemma key_ready_inv:
  assumes "0 < N" "pool_inv P args N b0 ph s" "callers s c = KeySetReady p" "args c = BeginWork type"
  shows "pool_inv P args N b0 ph (goto_call c Returned (set_item p ((item s p)\<lparr>State := WorkItemReady\<rparr>) (s\<lparr>EnqueueMutex := None\<rparr>)))"
    (is "pool_inv P args N b0 ph ?s")
proof -
  have h: "holds_lock (callers s c)" using assms(3) by simp
  note l = locked_facts [OF assms(2) h]
  note i = pool_invD [OF assms(2)]
  have sh: "begins (args c)" "EnqueuePosition s = Suc p" using l(3) assms(3) by simp_all
  have r: "ready_to s = p" "ready_to ?s = Suc p" using l sh(2) assms(3) by (simp_all add: call_simps)
  have m: "call_moves args N s ?s c Returned"
    by (rule call_movesI [OF assms(1) l(1)]) (use l r in \<open>simp_all add: step_defs\<close>)
  note fr = call_moves_frame [OF m]
  have its: "call_items args N s c = {}" using assms(3) by (simp_all add: call_items_def pc_items_def)
  have u: "\<not> data_units (ItemType (item s p))" by (rule inv_itemsD(2) [OF i(3) assms(3)])
  have "inv_threads ph ?s" by (rule inv_threads_call [OF i(1)]) (use r in \<open>simp_all add: step_defs\<close>)
  moreover have "inv_calls args N ?s"
    by (rule inv_calls_step [OF m]) (use l(2) sh in \<open>simp_all add: step_defs\<close>)
  moreover have "inv_items args N ph ?s"
    by (rule inv_items_step [OF fr i(1,3), of p]) (use r its u less_Suc_eq in \<open>auto simp: step_defs\<close>)
  moreover have "inv_states ph ?s"
    by (rule inv_states_ready [OF fr i(1,4) r]) (use assms(3) in \<open>simp_all add: step_defs\<close>)
  moreover have "inv_counts args N ph ?s"
    by (rule inv_counts_keep [OF fr i(5)]) (use assms(3) in \<open>simp_all add: step_defs\<close>)
  moreover have "inv_buffers P args N b0 ph ?s"
    by (rule inv_buffers_keep [OF fr i(6)]) (use assms(3,4) in \<open>simp_all add: step_defs\<close>)
  ultimately show ?thesis by (simp add: pool_inv_def)
qed


lemma first_of_two:
  assumes "inv_calls args N s" "first_item (callers s c) = Some f" "c' \<noteq> c" "first_item (callers s c') = Some g"
  shows "g \<noteq> f"
  using inv_callsD(3) [OF assms(1)] assms(2-) by blast

text \<open>The counter is set for the fragments that will be enqueued.\<close>

lemma count_set_inv:
  assumes "0 < N" "pool_inv P args N b0 ph s" "callers s c = CheckFirst f" "args c = DoWork type u n ci"
  shows "pool_inv P args N b0 ph (goto_call c (NextItem (call_fragments N (args c)) f)
      (set_item f ((item s f)\<lparr>OutstandingFragmentCount := int (length (call_fragments N (args c)))\<rparr>) s))"
    (is "pool_inv P args N b0 ph (goto_call c ?pc (set_item f ?w s))" is "pool_inv P args N b0 ph ?s")
proof -
  have h: "holds_lock (callers s c)" using assms(3) by simp
  note l = locked_facts [OF assms(2) h]
  note i = pool_invD [OF assms(2)]
  have sh: "enough (args c)" "f = EnqueuePosition s" using l(3) assms(3) by simp_all
  have r: "ready_to s = f" "ready_to ?s = f" using l sh(2) assms(3) by (simp_all add: call_simps)
  have m: "call_moves args N s ?s c ?pc"
    by (rule call_movesI [OF assms(1) l(1)]) (use l r in \<open>simp_all add: step_defs\<close>)
  note d = call_movesD [OF m]
  note fr = call_moves_frame [OF m]
  have fi: "first_item ?pc = Some g \<Longrightarrow> first_item (callers s c) = Some g \<or> ready_to s \<le> g" for g using r by simp
  have its: "call_items args N s c = {}" "call_items args N ?s c = {}" using assms(3) sh(2) by (simp_all add: call_items_def pc_items_def step_defs)
  have new: "ph v = PNew" if "v \<in> request args N c f" for v
    using phase_before_ready(2) [OF i(1), of v] r that by (auto simp: request_def)
  have "inv_threads ph ?s" by (rule inv_threads_call [OF i(1)]) (use r in \<open>simp_all add: step_defs\<close>)
  moreover have "inv_calls args N ?s"
    by (rule inv_calls_step [OF m _ _ fi]) (use l(2) sh in \<open>simp_all add: step_defs\<close>)
  moreover have "inv_items args N ph ?s"
    by (rule inv_items_step [OF fr i(1,3), of f]) (use m r its in \<open>auto simp: step_defs\<close>)
  moreover have "inv_states ph ?s"
    by (rule inv_states_keep [OF fr i(4) _ _ fi]) (use assms(3) r in \<open>simp_all add: step_defs\<close>)
  moreover have "inv_counts args N ph ?s"
  proof (rule inv_counts_step [OF fr i(5)])
    show "OutstandingFragmentCount (item ?s g) = int (card {v \<in> request args N c g. pending (ph v)})" if "first_item ?pc = Some g" for g
    proof -
      have "{v \<in> request args N c f. pending (ph v)} = request args N c f" using new by auto
      then show ?thesis using that by (simp add: step_defs request_def)
    qed
    show "\<exists>v\<in>request args N c g. ph v \<noteq> PDone" if "first_item ?pc = Some g" for g
    proof -
      have "call_fragments N (args c) \<noteq> []" using sh(1) work_fragments_nonempty [OF assms(1)] by (auto simp: enough_def)
      then have "f \<in> request args N c f" by (simp add: request_def)
      then show ?thesis using that new by fastforce
    qed
  qed (use d(9) r assms(3) new in \<open>auto simp: step_defs split: if_splits\<close>)
  moreover have "inv_buffers P args N b0 ph ?s"
  proof (rule inv_buffers_step [OF fr i(6)])
    show "processed_as P (args c) (image_mset (\<lambda>v. call_fragments N (args c) ! (v - g)) (mset_set {v \<in> request args N c g. was_processed (ph v)}))
      (b0 c) (buffers ?s c)" if "first_item ?pc = Some g" for g
    proof -
      have e: "{v \<in> request args N c f. was_processed (ph v)} = {}" using new by auto
      have g: "g = f" using that by simp
      have "buffers ?s c = b0 c" using inv_buffersD(2) [OF i(6), of c f] assms(3) by (simp add: step_defs)
      then show ?thesis unfolding g e by (simp add: processed_as_def assms(4))
    qed
  qed (simp_all add: step_defs)
  ultimately show ?thesis by (simp add: pool_inv_def)
qed


text \<open>A step of a call that does not have the lock and does not take it, while another may have it.\<close>

definition call_outside :: "(nat \<Rightarrow> call) \<Rightarrow> nat \<Rightarrow> pool \<Rightarrow> pool \<Rightarrow> nat \<Rightarrow> call_pc \<Rightarrow> bool" where
  "call_outside args N s s' c pc \<longleftrightarrow> inv_calls args N s \<and> \<not> holds_lock (callers s c) \<and> \<not> holds_lock pc \<and> callers s' = (callers s)(c := pc) \<and>
     EnqueuePosition s' = EnqueuePosition s \<and> EnqueueMutex s' = EnqueueMutex s"

lemma call_outsideD:
  assumes "call_outside args N s s' c pc"
  shows "call_frame args N s s' c pc" "ready_to s' = ready_to s"
proof -
  have "EnqueueMutex s \<noteq> Some c" using assms inv_callsD(1) [of args N s c] by (auto simp: call_outside_def)
  then show "ready_to s' = ready_to s"
    using assms by (auto simp: call_outside_def ready_to_def ready_of_def split: option.splits)
  show "call_frame args N s s' c pc" using assms by (simp add: call_outside_def call_frame_def call_items_def)
qed

lemma inv_calls_outside:
  assumes "call_outside args N s s' c pc" "call_shape (EnqueuePosition s) (ready_to s) (call_fragments N (args c)) (args c) pc"
    "\<And>f. first_item pc = Some f \<Longrightarrow> first_item (callers s c) = Some f"
  shows "inv_calls args N s'"
proof -
  note r = call_outsideD(2) [OF assms(1)]
  have a: "inv_calls args N s" "\<not> holds_lock (callers s c)" "\<not> holds_lock pc" "callers s' = (callers s)(c := pc)"
    "EnqueuePosition s' = EnqueuePosition s" "EnqueueMutex s' = EnqueueMutex s"
    using assms(1) by (simp_all add: call_outside_def)
  note i = inv_callsD [OF a(1)]
  have fi: "first_item (callers s' c') = Some f \<Longrightarrow> first_item (callers s c') = Some f" for c' f
    using assms(3) [of f] a(4) by (cases "c' = c") simp_all
  show ?thesis
    unfolding inv_calls_def r a(5,6)
  proof (intro conjI allI impI)
    show "holds_lock (callers s' c') = (EnqueueMutex s = Some c')" for c'
      using i(1) [of c'] a(2,3,4) by (cases "c' = c") auto
    show "call_shape (EnqueuePosition s) (ready_to s) (call_fragments N (args c')) (args c') (callers s' c')" for c'
      using i(2) [of c'] assms(2) a(4) by (cases "c' = c") auto
    show "c1 = c2" if "first_item (callers s' c1) = Some f" "first_item (callers s' c2) = Some f" for c1 c2 f
      by (rule i(3) [OF fi fi]) (rule that)+
  qed
qed

lemma completed_inv:
  assumes "0 < N" "pool_inv P args N b0 ph s" "callers s c = WaitCompleted f" "ItemCompletedEvent (item s f)"
  shows "pool_inv P args N b0 ph (goto_call c (FreeFirst f) (set_item f ((item s f)\<lparr>ItemCompletedEvent := False\<rparr>) s))"
    (is "pool_inv P args N b0 ph (goto_call c ?pc (set_item f ?w s))" is "pool_inv P args N b0 ph ?s")
proof -
  note i = pool_invD [OF assms(2)]
  have one: "c' = c" if "first_item (callers s c') = Some f" for c' using inv_callsD(3) [OF i(2) that, of c] assms(3) by simp
  have fin: "ph v = PDone" if "v \<in> request args N c f" for v
    using inv_countsD(2) [OF i(5) assms(4)] one that by blast
  have m: "call_outside args N s ?s c ?pc" using i(2) assms(3) by (simp add: call_outside_def step_defs)
  note fr = call_outsideD [OF m]
  have its: "call_items args N ?s c = call_items args N s c" "call_items args N s c \<subseteq> request args N c f"
    using assms(3) by (simp_all add: call_simps request_def)
  have fi: "first_item ?pc = Some g \<Longrightarrow> first_item (callers s c) = Some g" for g using assms(3) by simp
  have "inv_threads ph ?s" by (rule inv_threads_call [OF i(1)]) (use fr in \<open>simp_all add: step_defs\<close>)
  moreover have "inv_calls args N ?s"
    by (rule inv_calls_outside [OF m _ fi]) (use inv_callsD(2) [OF i(2), of c] assms(3) in simp_all)
  moreover have "inv_items args N ph ?s"
  proof (rule inv_items_step [OF fr(1) i(1,3), of f])
    fix g v assume "first_item ?pc = Some g" "v \<in> call_items args N ?s c"
    then show "content (args c) (call_fragments N (args c)) c g v (item ?s v)"
      using inv_itemsD(1) [OF i(3), of c g v] its(1) assms(3) by (cases "v = f") (simp_all add: step_defs)
  qed (use fr(2) its fin in \<open>auto simp: step_defs\<close>)
  moreover have "inv_states ph ?s"
    by (rule inv_states_keep [OF fr(1) i(4) fr(2)]) (use assms(3) in \<open>simp_all add: step_defs\<close>)
  moreover have "inv_counts args N ph ?s"
  proof (rule inv_counts_step [OF fr(1) i(5)])
    show "OutstandingFragmentCount (item ?s g) = int (card {v \<in> request args N c g. pending (ph v)})" if "first_item ?pc = Some g" for g
      using inv_countsD(1) [OF i(5), of c g] that assms(3) by (simp add: step_defs)
  qed (use one assms(3) fin in \<open>auto simp: step_defs split: if_splits\<close>)
  moreover have "inv_buffers P args N b0 ph ?s"
    by (rule inv_buffers_keep [OF fr(1) i(6)]) (use assms(3) in \<open>simp_all add: step_defs\<close>)
  ultimately show ?thesis by (simp add: pool_inv_def)
qed

lemma image_request: "image_mset (\<lambda>v. xs ! (v - f)) (mset_set {f..<f + length xs}) = mset xs"
proof -
  have "mset_set {f..<f + length xs} = image_mset (\<lambda>k. f + k) (mset_set {0..<length xs})"
    by (subst image_mset_mset_set) (simp_all add: image_add_atLeastLessThan add.commute)
  then have "image_mset (\<lambda>v. xs ! (v - f)) (mset_set {f..<f + length xs}) = image_mset (nth xs) (mset_set {0..<length xs})"
    by (simp add: image_mset.compositionality comp_def)
  also have "\<dots> = mset (map (nth xs) [0..<length xs])" by (simp del: map_nth)
  finally show ?thesis by (simp only: map_nth)
qed

lemma free_first_inv:
  assumes "0 < N" "pool_inv P args N b0 ph s" "callers s c = FreeFirst f"
  shows "pool_inv P args N b0 ph (goto_call c Returned (set_item f ((item s f)\<lparr>State := WorkItemFree\<rparr>) s))"
    (is "pool_inv P args N b0 ph ?s")
proof -
  note i = pool_invD [OF assms(2)]
  have fin: "ph v = PDone" if "v \<in> request args N c f" for v by (rule inv_countsD(5) [OF i(5) assms(3) that])
  have fst: "first_item (callers s c) = Some f" using assms(3) by simp
  have en: "enough (args c)" using inv_callsD(2) [OF i(2), of c] assms(3) by simp
  have m: "call_outside args N s ?s c Returned" using i(2) assms(3) by (simp add: call_outside_def step_defs)
  note fr = call_outsideD [OF m]
  have "inv_threads ph ?s" by (rule inv_threads_call [OF i(1)]) (use fr in \<open>simp_all add: step_defs\<close>)
  moreover have "inv_calls args N ?s"
    by (rule inv_calls_outside [OF m]) simp_all
  moreover have "inv_items args N ph ?s"
    by (rule inv_items_step [OF fr(1) i(1,3), of f]) (use fr(2) assms(3) in \<open>auto simp: step_defs\<close>)
  moreover have "inv_states ph ?s"
    unfolding inv_states_def fr(2)
  proof (intro conjI allI impI)
    note st = inv_statesD [OF i(4)]
    have f: "ph f = PDone" by (rule fin [OF first_in_request [OF assms(1) i(2) fst]])
    fix v
    show "ready_to s \<le> v \<Longrightarrow> State (item ?s v) = WorkItemFree" using st(1) [of v] by (simp add: step_defs)
    show "v < ready_to s \<Longrightarrow> ph v = PNew \<Longrightarrow> State (item ?s v) = WorkItemReady" using st(2) [of v] f by (auto simp: step_defs)
    show "v < ready_to s \<Longrightarrow> ph v \<noteq> PNew \<Longrightarrow> State (item ?s v) \<noteq> WorkItemReady" using st(3) [of v] by (simp add: step_defs)
  next
    fix c' g assume a: "first_item (callers ?s c') = Some g" "g < ready_to s"
    have c': "c' \<noteq> c" using a(1) by (auto simp: step_defs)
    then have g: "first_item (callers s c') = Some g" using a(1) by (simp add: step_defs)
    have "g \<noteq> f" by (rule first_of_two [OF i(2) fst c' g])
    then show "State (item ?s g) \<noteq> WorkItemFree" using inv_statesD(4) [OF i(4) g a(2)] by (simp add: step_defs)
  next
    fix v assume v: "let_go (ph v)"
    show "State (item ?s v) = WorkItemFree \<or> (\<exists>c. first_item (callers ?s c) = Some v)"
    proof (cases "v = f \<or> State (item s v) = WorkItemFree")
      case False
      then obtain c' where c': "first_item (callers s c') = Some v" using inv_statesD(5) [OF i(4) v] by blast
      then have "c' \<noteq> c" using False fst by auto
      then have "first_item (callers ?s c') = Some v" using c' by (simp add: step_defs)
      then show ?thesis by blast
    qed (auto simp: step_defs)
  qed
  moreover have "inv_counts args N ph ?s"
    by (rule inv_counts_step [OF fr(1) i(5)]) (use assms(3) in \<open>auto simp: step_defs split: if_splits\<close>)
  moreover have "inv_buffers P args N b0 ph ?s"
  proof (rule inv_buffers_step [OF fr(1) i(6)])
    fix type u n ci assume a: "args c = DoWork type u n ci"
    have "{v \<in> request args N c f. was_processed (ph v)} = {f..<f + length (call_fragments N (args c))}" using fin by (auto simp: request_def)
    then have "processed_as P (args c) (mset (call_fragments N (args c))) (b0 c) (buffers s c)"
      using inv_buffersD(1) [OF i(6) fst] by (simp only: image_request)
    then show "(n = 0 \<longrightarrow> buffers ?s c = b0 c) \<and> (n = 1 \<longrightarrow> current_thread_units P type (b0 c) u n ci = Some (buffers ?s c)) \<and>
        (2 \<le> n \<longrightarrow> processed_as P (args c) (mset (call_fragments N (args c))) (b0 c) (buffers ?s c))"
      using en a by (auto simp: enough_def step_defs)
  qed (simp_all add: step_defs)
  ultimately show ?thesis by (simp add: pool_inv_def)
qed

text \<open>A call without data units, or with one.\<close>

lemma return_inv:
  assumes "pool_inv P args N b0 ph s" "callers s c = Outside" "args c = DoWork type u n ci"
    "n = 0 \<and> b = buffers s c \<or> n = 1 \<and> current_thread_units P type (buffers s c) u n ci = Some b"
  shows "pool_inv P args N b0 ph (goto_call c Returned (s\<lparr>buffers := (buffers s)(c := b)\<rparr>))" (is "pool_inv P args N b0 ph ?s")
proof -
  note i = pool_invD [OF assms(1)]
  have m: "call_outside args N s ?s c Returned" using i(2) assms(2) by (simp add: call_outside_def step_defs)
  note fr = call_outsideD [OF m]
  have "inv_threads ph ?s" by (rule inv_threads_call [OF i(1)]) (use fr in \<open>simp_all add: step_defs\<close>)
  moreover have "inv_calls args N ?s" by (rule inv_calls_outside [OF m]) simp_all
  moreover have "inv_items args N ph ?s"
    by (rule inv_items_step [OF fr(1) i(1,3), of 0]) (use fr(2) assms(2) in \<open>auto simp: step_defs call_items_def pc_items_def\<close>)
  moreover have "inv_states ph ?s" by (rule inv_states_keep [OF fr(1) i(4) fr(2)]) (use assms(2) in \<open>simp_all add: step_defs\<close>)
  moreover have "inv_counts args N ph ?s"
    by (rule inv_counts_keep [OF fr(1) i(5)]) (use assms(2) in \<open>simp_all add: step_defs\<close>)
  moreover have "inv_buffers P args N b0 ph ?s"
    by (rule inv_buffers_step [OF fr(1) i(6)]) (use assms(3,4) inv_buffersD(2) [OF i(6), of c] assms(2) in \<open>auto simp: step_defs\<close>)
  ultimately show ?thesis by (simp add: pool_inv_def)
qed


section \<open>Every step\<close>

lemma do_work_step_inv:
  assumes "0 < N" "pool_inv P args N b0 ph s" "args c = DoWork type u n ci" "do_work_step type ci (call_fragments N (args c)) Suc c s = Some s'"
  shows "pool_inv P args N b0 ph s'"
proof -
  note st = assms(4) [unfolded do_work_step_def]
  show ?thesis
  proof (cases "callers s c")
    case (CheckFirst f)
    then show ?thesis using st count_set_inv [OF assms(1,2) CheckFirst assms(3)] by (auto split: if_splits)
  next
    case (NextItem ws f)
    show ?thesis
    proof (cases "ws = []")
      case True
      then show ?thesis using st NextItem release_inv [OF assms(1,2)] by auto
    next
      case False
      then show ?thesis using st NextItem take_inv [OF assms(1,2) NextItem] by auto
    qed
  next
    case (WaitFree p ws f)
    then show ?thesis using st fill_inv [OF assms(1,2) WaitFree assms(3)] by (auto split: if_splits)
  next
    case (SetReady p ws f)
    then show ?thesis using st ready_inv [OF assms(1,2) SetReady] by auto
  next
    case (WaitCompleted f)
    then show ?thesis using st completed_inv [OF assms(1,2) WaitCompleted] by (auto split: if_splits)
  next
    case (FreeFirst f)
    then show ?thesis using st free_first_inv [OF assms(1,2) FreeFirst] by auto
  qed (use st in simp_all)
qed

lemma begin_work_step_inv:
  assumes "0 < N" "pool_inv P args N b0 ph s" "args c = BeginWork type" "\<not> data_units type" "begin_work_step type c s = Some s'"
  shows "pool_inv P args N b0 ph s'"
proof -
  note st = assms(5) [unfolded begin_work_step_def]
  show ?thesis
  proof (cases "callers s c")
    case (KeyWaitFree p)
    then show ?thesis using st key_fill_inv [OF assms(1,2) KeyWaitFree assms(4)] by (auto split: if_splits)
  next
    case (KeySetReady p)
    then show ?thesis using st key_ready_inv [OF assms(1,2) KeySetReady assms(3)] by auto
  qed (use st in simp_all)
qed

lemma call_step_inv:
  assumes "0 < N" "calls_ok args" "pool_inv P args N b0 ph s" "call_step P args N Suc c s = Some s'"
  shows "pool_inv P args N b0 ph s'"
proof (cases "args c")
  case (DoWork type u n ci)
  have u: "data_units type" using assms(2) DoWork unfolding calls_ok_def by (metis call.simps(5))
  show ?thesis
  proof (cases "callers s c = Outside")
    case True
    consider "n = 0" | "n = 1" | "2 \<le> n" by linarith
    then show ?thesis
    proof cases
      case 1
      then have "s' = goto_call c Returned s" using assms(4) DoWork True by (simp add: call_step_def)
      then show ?thesis using return_inv [OF assms(3) True DoWork, of "buffers s c"] 1 by simp
    next
      case 2
      then obtain b where "current_thread_units P type (buffers s c) u n ci = Some b" "s' = goto_call c Returned (s\<lparr>buffers := (buffers s)(c := b)\<rparr>)"
        using assms(4) DoWork True by (auto simp: call_step_def)
      then show ?thesis using return_inv [OF assms(3) True DoWork, of b] 2 by simp
    next
      case 3
      then have "enough (args c)" using DoWork u by (auto simp: enough_def)
      then show ?thesis using enter_inv [OF assms(1,3) True] assms(4) DoWork True 3 by (auto simp: call_step_def split: if_splits)
    qed
  next
    case False
    then show ?thesis using do_work_step_inv [OF assms(1,3) DoWork] assms(4) DoWork by (simp add: call_step_def)
  qed
next
  case (BeginWork type)
  have u: "\<not> data_units type" using assms(2) BeginWork unfolding calls_ok_def by (metis call.simps(6))
  show ?thesis
  proof (cases "callers s c = Outside")
    case True
    have "begins (args c)" using BeginWork by (simp add: begins_def)
    then show ?thesis using key_enter_inv [OF assms(1,3) True] assms(4) BeginWork True by (auto simp: call_step_def split: if_splits)
  next
    case False
    then show ?thesis using begin_work_step_inv [OF assms(1,3) BeginWork u] assms(4) BeginWork by (simp add: call_step_def)
  qed
qed

lemma pool_start_inv: "pool_inv P args N b0 (\<lambda>v. PNew) (pool_start w b0)"
proof -
  have r: "ready_to (pool_start w b0) = 0" "started_to (pool_start w b0) = 0" by (simp_all add: pool_start_def ready_to_def ready_of_def started_to_def)
  have "inv_threads (\<lambda>v. PNew) (pool_start w b0)" unfolding inv_threads_def r by (simp add: pool_start_def)
  moreover have "inv_calls args N (pool_start w b0)" unfolding inv_calls_def r by (simp add: pool_start_def)
  moreover have "inv_items args N (\<lambda>v. PNew) (pool_start w b0)" unfolding inv_items_def r by (simp add: pool_start_def)
  moreover have "inv_states (\<lambda>v. PNew) (pool_start w b0)" unfolding inv_states_def r by (simp add: pool_start_def)
  moreover have "inv_counts args N (\<lambda>v. PNew) (pool_start w b0)" by (simp add: inv_counts_def pool_start_def)
  moreover have "inv_buffers P args N b0 (\<lambda>v. PNew) (pool_start w b0)" by (simp add: inv_buffers_def pool_start_def)
  ultimately show ?thesis by (simp add: pool_inv_def)
qed

lemma pool_reach_inv:
  assumes "0 < N" "calls_ok args" "pool_reach P args N Suc (pool_start w b0) s"
  shows "\<exists>ph. pool_inv P args N b0 ph s"
  using assms(3)
proof (induction rule: pool_reach.induct)
  case reach_start
  then show ?case using pool_start_inv by blast
next
  case (reach_call s c s')
  then show ?case using call_step_inv [OF assms(1,2)] by blast
next
  case (reach_thread s t s')
  then show ?case using thread_step_inv [OF assms(1)] by blast
qed

text \<open>The buffer of a call that has returned.\<close>

lemma returned_buffer:
  assumes "primitives_ok P" "0 < N" "pool_inv P args N b0 ph s" "callers s c = Returned" "args c = DoWork type u n ci" "data_units type"
    "info_ready P key key2 ci" "length (b0 c) = n * ENCRYPTION_DATA_UNIT_SIZE"
  shows "current_thread_units P type (b0 c) u n ci = Some (buffers s c)"
proof -
  note r = inv_buffersD(3) [OF pool_invD(6) [OF assms(3)] assms(4,5)]
  consider "n = 0" | "n = 1" | "2 \<le> n" by linarith
  then show ?thesis
  proof cases
    case 1
    have "current_thread_units P type (b0 c) u n ci = Some (store_at 0 (units_spec P type (ea_ciphers (ea ci)) key key2 u (take (n * ENCRYPTION_DATA_UNIT_SIZE) (b0 c))) (b0 c))"
      by (rule current_thread_units_spec [OF assms(1,7) _ assms(6)]) (simp add: assms(8))
    moreover have "length (units_spec P type (ea_ciphers (ea ci)) key key2 u []) = 0"
      using unitwise.length_F [OF unitwise_units [OF assms(1,7)], of "[]" type u] by simp
    ultimately show ?thesis using r 1 assms(8) by (simp add: store_at_def)
  next
    case 2
    then show ?thesis using r by simp
  next
    case 3
    then obtain ws where ws: "mset ws = mset (work_fragments N u n)"
      "foldl (\<lambda>b w. Option.bind b (process_fragment P type ci w)) (Some (b0 c)) ws = Some (buffers s c)"
      using r assms(5) by (auto simp: processed_as_def)
    show ?thesis using pool_any_order [OF assms(1,7,2,8) ws(1) assms(6)] ws(2) by simp
  qed
qed

end
