(* ===== verification/QueueRing.thy ===== *)
theory QueueRing
  imports QueueCalls
begin

text \<open>
  The ring of the code refines the unbounded queue: position \<open>p\<close> of the queue is the item \<open>p mod Q\<close> of the ring. The items of the ring stand for the
  last \<open>Q\<close> positions that were filled; the older ones are free, and no worker has them, even where a worker frees its item before it is done with it.
\<close>

section \<open>Positions and items\<close>

fun ring_pc :: "nat \<Rightarrow> call_pc \<Rightarrow> call_pc" where
  "ring_pc Q (CheckFirst f) = CheckFirst (f mod Q)" | "ring_pc Q (NextItem ws f) = NextItem ws (f mod Q)"
| "ring_pc Q (WaitFree p ws f) = WaitFree (p mod Q) ws (f mod Q)" | "ring_pc Q (SetReady p ws f) = SetReady (p mod Q) ws (f mod Q)"
| "ring_pc Q (WaitCompleted f) = WaitCompleted (f mod Q)" | "ring_pc Q (FreeFirst f) = FreeFirst (f mod Q)"
| "ring_pc Q (KeyWaitFree p) = KeyWaitFree (p mod Q)" | "ring_pc Q (KeySetReady p) = KeySetReady (p mod Q)" | "ring_pc Q x = x"

fun ring_thread :: "nat \<Rightarrow> thread_pc \<Rightarrow> thread_pc" where
  "ring_thread Q (Holding p) = Holding (p mod Q)" | "ring_thread Q (Working p) = Working (p mod Q)" | "ring_thread Q (Processed p) = Processed (p mod Q)"
| "ring_thread Q (Counting p) = Counting (p mod Q)" | "ring_thread Q (Signalling p) = Signalling (p mod Q)" | "ring_thread Q Waiting = Waiting"

definition same_item :: "nat \<Rightarrow> EncryptionThreadPoolWorkItem \<Rightarrow> EncryptionThreadPoolWorkItem \<Rightarrow> bool" where
  "same_item Q w v \<longleftrightarrow> State w = State v \<and> ItemType w = ItemType v \<and>
     (data_units (ItemType v) \<longrightarrow> FirstFragment w = FirstFragment v mod Q \<and> CryptoInfo w = CryptoInfo v \<and> Buffer w = Buffer v \<and> Encryption w = Encryption v)"

lemma same_item_update [simp]:
  "same_item Q (w\<lparr>ItemCompletedEvent := b\<rparr>) v = same_item Q w v" "same_item Q w (v\<lparr>ItemCompletedEvent := b\<rparr>) = same_item Q w v"
  "same_item Q (w\<lparr>OutstandingFragmentCount := k\<rparr>) v = same_item Q w v" "same_item Q w (v\<lparr>OutstandingFragmentCount := k\<rparr>) = same_item Q w v"
  by (simp_all add: same_item_def)

lemma same_item_state: "same_item Q w v \<Longrightarrow> same_item Q (w\<lparr>State := x\<rparr>) (v\<lparr>State := x\<rparr>)"
  by (simp add: same_item_def)

text \<open>The positions filled so far.\<close>

fun filled_pos :: "nat \<Rightarrow> call_pc \<Rightarrow> nat" where
  "filled_pos E (WaitFree p ws f) = p" | "filled_pos E (KeyWaitFree p) = p" | "filled_pos E x = E"

definition filled_of :: "nat \<Rightarrow> nat option \<Rightarrow> (nat \<Rightarrow> call_pc) \<Rightarrow> nat" where
  "filled_of E m pcs = (case m of None \<Rightarrow> E | Some c \<Rightarrow> filled_pos E (pcs c))"

definition filled :: "pool \<Rightarrow> nat" where
  "filled s = filled_of (EnqueuePosition s) (EnqueueMutex s) (callers s)"

text \<open>A thread works on a position.\<close>

fun on_item :: "thread_pc \<Rightarrow> nat \<Rightarrow> bool" where
  "on_item (Working p) v = (p = v)" | "on_item (Processed p) v = (p = v)" | "on_item (Counting p) v = (p = v)"
| "on_item (Signalling p) v = (p = v)" | "on_item x v = False"

definition idle :: "pool \<Rightarrow> nat \<Rightarrow> bool" where
  "idle u v \<longleftrightarrow> v < started_to u \<and> (\<forall>t. \<not> on_item (threads u t) v)"

lemma idle_done:
  assumes "inv_threads ph u"
  shows "idle u v \<longleftrightarrow> ph v = PDone"
proof -
  note i = inv_threads_phase [OF assms]
  have "on_item (threads u t) v \<longleftrightarrow> ph v = PWork t \<or> ph v = PProc t \<or> ph v = PCount t \<or> ph v = PSignal t" for t
    using i(1-4) [of t v] by (cases "threads u t") auto
  moreover have "v < started_to u \<longleftrightarrow> ph v \<noteq> PNew" using i(5) [of v] by auto
  ultimately show ?thesis unfolding idle_def by (cases "ph v") auto
qed

section \<open>The relation\<close>

definition sim_items :: "nat \<Rightarrow> pool \<Rightarrow> pool \<Rightarrow> bool" where
  "sim_items Q u r \<longleftrightarrow>
     (\<forall>v. v < filled u \<longrightarrow> filled u \<le> v + Q \<longrightarrow> same_item Q (item r (v mod Q)) (item u v)) \<and>
     (\<forall>v. v + Q < filled u \<longrightarrow> idle u v \<and> State (item u v) = WorkItemFree) \<and>
     (\<forall>i. filled u \<le> i \<longrightarrow> i < Q \<longrightarrow> State (item r i) = WorkItemFree)"

definition sim_firsts :: "nat \<Rightarrow> pool \<Rightarrow> pool \<Rightarrow> bool" where
  "sim_firsts Q u r \<longleftrightarrow>
     (\<forall>c f. first_item (callers u c) = Some f \<longrightarrow> OutstandingFragmentCount (item r (f mod Q)) = OutstandingFragmentCount (item u f)) \<and>
     (\<forall>i. ItemCompletedEvent (item r i) \<longleftrightarrow> (\<exists>f. f mod Q = i \<and> ItemCompletedEvent (item u f))) \<and>
     (\<forall>c c' f f'. first_item (callers u c) = Some f \<longrightarrow> first_item (callers u c') = Some f' \<longrightarrow> f mod Q = f' mod Q \<longrightarrow> c = c')"

definition sim_busy :: "pool \<Rightarrow> bool" where
  "sim_busy u \<longleftrightarrow> (\<forall>t v. threads u t = Working v \<or> threads u t = Processed v \<longrightarrow> State (item u v) = WorkItemBusy)"

definition sim_rest :: "nat \<Rightarrow> pool \<Rightarrow> pool \<Rightarrow> bool" where
  "sim_rest Q u r \<longleftrightarrow> EnqueuePosition r = EnqueuePosition u mod Q \<and> DequeuePosition r = DequeuePosition u mod Q \<and>
     EnqueueMutex r = EnqueueMutex u \<and> DequeueMutex r = DequeueMutex u \<and> callers r = (\<lambda>c. ring_pc Q (callers u c)) \<and>
     threads r = (\<lambda>t. ring_thread Q (threads u t)) \<and> buffers r = buffers u"

definition sim :: "nat \<Rightarrow> pool \<Rightarrow> pool \<Rightarrow> bool" where
  "sim Q u r \<longleftrightarrow> sim_items Q u r \<and> sim_firsts Q u r \<and> sim_busy u \<and> sim_rest Q u r"

lemma ring_next_mod: "0 < Q \<Longrightarrow> ring_next Q (p mod Q) = Suc p mod Q"
proof -
  assume "0 < Q"
  then have "p mod Q < Q" by simp
  then show ?thesis by (auto simp: ring_next_def mod_Suc)
qed

lemma mod_window:
  assumes "v < F" "F \<le> v + Q" "w < F" "F \<le> w + Q" "v mod Q = w mod (Q :: nat)"
  shows "v = w"
proof -
  have a: "v < w + Q" "w < v + Q" using assms by simp_all
  show ?thesis
  proof (rule linorder_cases [of v w])
    assume "v < w"
    then have "Q dvd w - v" using assms(5) by (metis less_imp_le_nat mod_eq_dvd_iff_nat)
    then show ?thesis using a \<open>v < w\<close> by (auto dest: dvd_imp_le)
  next
    assume "w < v"
    then have "Q dvd v - w" using assms(5) by (metis less_imp_le_nat mod_eq_dvd_iff_nat)
    then show ?thesis using a \<open>w < v\<close> by (auto dest: dvd_imp_le)
  qed
qed

lemma ready_filled:
  assumes "inv_calls args N u"
  shows "ready_to u \<le> filled u" "filled u \<le> Suc (ready_to u)" "filled u \<le> EnqueuePosition u"
proof -
  have "ready_to u \<le> filled u \<and> filled u \<le> Suc (ready_to u) \<and> filled u \<le> EnqueuePosition u"
  proof (cases "EnqueueMutex u")
    case (Some c)
    then show ?thesis
      using inv_callsD(2) [OF assms, of c] by (cases "callers u c") (auto simp: ready_to_def ready_of_def filled_def filled_of_def)
  qed (simp add: ready_to_def ready_of_def filled_def filled_of_def)
  then show "ready_to u \<le> filled u" "filled u \<le> Suc (ready_to u)" "filled u \<le> EnqueuePosition u" by simp_all
qed

lemma sim_itemsD:
  assumes "sim_items Q u r"
  shows "v < filled u \<Longrightarrow> filled u \<le> v + Q \<Longrightarrow> same_item Q (item r (v mod Q)) (item u v)"
    "v + Q < filled u \<Longrightarrow> idle u v" "v + Q < filled u \<Longrightarrow> State (item u v) = WorkItemFree"
    "filled u \<le> i \<Longrightarrow> i < Q \<Longrightarrow> State (item r i) = WorkItemFree"
  using assms unfolding sim_items_def by blast+

lemma sim_firstsD:
  assumes "sim_firsts Q u r"
  shows "first_item (callers u c) = Some f \<Longrightarrow> OutstandingFragmentCount (item r (f mod Q)) = OutstandingFragmentCount (item u f)"
    "ItemCompletedEvent (item r i) \<longleftrightarrow> (\<exists>f. f mod Q = i \<and> ItemCompletedEvent (item u f))"
    "first_item (callers u c) = Some f \<Longrightarrow> first_item (callers u c') = Some f' \<Longrightarrow> f mod Q = f' mod Q \<Longrightarrow> c = c'"
  using assms unfolding sim_firsts_def by blast+

text \<open>Positions in use are in the window of the ring.\<close>

lemma live_item:
  assumes "pool_inv P args N b0 ph u" "sim Q u r" "ph p \<noteq> PNew" "ph p \<noteq> PDone"
  shows "p < filled u" "filled u \<le> p + Q" "same_item Q (item r (p mod Q)) (item u p)"
proof -
  note i = pool_invD [OF assms(1)]
  have s: "sim_items Q u r" using assms(2) by (simp add: sim_def)
  show a: "p < filled u" using phase_before_ready(2) [OF i(1) assms(3)] ready_filled(1) [OF i(2)] by simp
  show b: "filled u \<le> p + Q"
    using sim_itemsD(2) [OF s, of p] idle_done [OF i(1)] assms(4) by fastforce
  show "same_item Q (item r (p mod Q)) (item u p)" by (rule sim_itemsD(1) [OF s a b])
qed

lemma live_first:
  assumes "pool_inv P args N b0 ph u" "sim Q u r" "0 < Q" "first_item (callers u c) = Some f" "f < filled u"
  shows "filled u \<le> f + Q"
proof (rule ccontr)
  note i = pool_invD [OF assms(1)]
  have s: "sim_items Q u r" using assms(2) by (simp add: sim_def)
  assume "\<not> filled u \<le> f + Q"
  then have f: "f + Q < filled u" by simp
  then have "f < ready_to u" using ready_filled(2) [OF i(2)] assms(3) by simp
  then have "State (item u f) \<noteq> WorkItemFree" by (rule inv_statesD(4) [OF i(4) assms(4)])
  then show False using sim_itemsD(3) [OF s f] by simp
qed

section \<open>What updates preserve\<close>

lemma sim_items_update:
  assumes s: "sim_items Q u r" and f: "filled u' = filled u" and p: "p < filled u" "filled u \<le> p + Q"
    and o: "\<And>v. v \<noteq> p \<Longrightarrow> item u' v = item u v" "\<And>i. i \<noteq> p mod Q \<Longrightarrow> item r' i = item r i"
    and n: "same_item Q (item r' (p mod Q)) (item u' p)" and idle: "\<And>v. v \<noteq> p \<Longrightarrow> idle u v \<Longrightarrow> idle u' v"
  shows "sim_items Q u' r'"
  unfolding sim_items_def f
proof (intro conjI allI impI)
  note i = sim_itemsD [OF s]
  show "same_item Q (item r' (v mod Q)) (item u' v)" if "v < filled u" "filled u \<le> v + Q" for v
  proof (cases "v = p")
    case False
    then have "v mod Q \<noteq> p mod Q" using mod_window [OF that p] by auto
    then show ?thesis using i(1) [OF that] o False by simp
  qed (use n in simp)
  show "idle u' v" "State (item u' v) = WorkItemFree" if "v + Q < filled u" for v
  proof -
    have "v \<noteq> p" using that p by auto
    then show "idle u' v" "State (item u' v) = WorkItemFree" using i(2,3) [OF that] idle o by simp_all
  qed
  show "State (item r' v) = WorkItemFree" if "filled u \<le> v" "v < Q" for v
  proof -
    have "p < Q" using that p(1) by simp
    then have "v \<noteq> p mod Q" using that p(1) by simp
    then show ?thesis using i(4) [OF that] o(2) by simp
  qed
qed

lemma sim_items_neutral:
  assumes s: "sim_items Q u r" and f: "filled u' = filled u"
    and u: "\<And>v w. same_item Q w (item u' v) = same_item Q w (item u v)" "\<And>v. State (item u' v) = State (item u v)"
    and r: "\<And>i w. same_item Q (item r' i) w = same_item Q (item r i) w" "\<And>i. State (item r' i) = State (item r i)"
    and idle: "\<And>v. idle u v \<Longrightarrow> idle u' v"
  shows "sim_items Q u' r'"
  using sim_itemsD [OF s] idle unfolding sim_items_def f u r by blast

lemma sim_firsts_same:
  assumes "sim_firsts Q u r" "\<And>c. first_item (callers u' c) = first_item (callers u c)"
    "\<And>v. OutstandingFragmentCount (item u' v) = OutstandingFragmentCount (item u v)" "\<And>v. ItemCompletedEvent (item u' v) = ItemCompletedEvent (item u v)"
    "\<And>v. OutstandingFragmentCount (item r' v) = OutstandingFragmentCount (item r v)" "\<And>v. ItemCompletedEvent (item r' v) = ItemCompletedEvent (item r v)"
  shows "sim_firsts Q u' r'"
  using assms(1) unfolding sim_firsts_def assms(2-) .

lemma sim_busy_thread:
  assumes "sim_busy u" "threads u' = (threads u)(t := pc)" "\<And>v. State (item u' v) = State (item u v) \<or> (\<forall>t'. t' \<noteq> t \<longrightarrow> \<not> on_item (threads u t') v)"
    "\<And>v. pc = Working v \<or> pc = Processed v \<Longrightarrow> State (item u' v) = WorkItemBusy"
  shows "sim_busy u'"
  unfolding sim_busy_def
proof (intro allI impI)
  fix t' v assume a: "threads u' t' = Working v \<or> threads u' t' = Processed v"
  show "State (item u' v) = WorkItemBusy"
  proof (cases "t' = t")
    case True
    then show ?thesis using a assms(2,4) by simp
  next
    case False
    then have b: "threads u t' = Working v \<or> threads u t' = Processed v" using a assms(2) by simp
    then have "on_item (threads u t') v" by auto
    then have "State (item u' v) = State (item u v)" using assms(3) [of v] False by blast
    then show ?thesis using assms(1) b by (auto simp: sim_busy_def)
  qed
qed

lemma on_item_phase:
  assumes "inv_threads ph u" "on_item (threads u t) v"
  shows "ph v = PWork t \<or> ph v = PProc t \<or> ph v = PCount t \<or> ph v = PSignal t"
  using assms(2) inv_threads_phase(1-4) [OF assms(1), of t v] by (cases "threads u t") auto

lemma one_worker:
  assumes "inv_threads ph u" "on_item (threads u t) v" "on_item (threads u t') v"
  shows "t = t'"
  using on_item_phase [OF assms(1,2)] on_item_phase [OF assms(1,3)] by auto

section \<open>Steps of the workers\<close>

lemma sim_rest_thread:
  assumes "sim_rest Q u r" "EnqueuePosition u' = EnqueuePosition u" "EnqueuePosition r' = EnqueuePosition r"
    "EnqueueMutex u' = EnqueueMutex u" "EnqueueMutex r' = EnqueueMutex r" "callers u' = callers u" "callers r' = callers r"
    "DequeuePosition r' = DequeuePosition u' mod Q" "DequeueMutex r' = DequeueMutex u'" "buffers r' = buffers u'"
    "threads u' = (threads u)(t := pc)" "threads r' = (threads r)(t := ring_thread Q pc)"
  shows "sim_rest Q u' r'"
  using assms by (auto simp: sim_rest_def)

lemma sim_restD:
  assumes "sim_rest Q u r"
  shows "EnqueuePosition r = EnqueuePosition u mod Q" "DequeuePosition r = DequeuePosition u mod Q" "EnqueueMutex r = EnqueueMutex u"
    "DequeueMutex r = DequeueMutex u" "callers r c = ring_pc Q (callers u c)" "threads r t = ring_thread Q (threads u t)" "buffers r = buffers u"
  using assms by (simp_all add: sim_rest_def)

lemma filled_thread [simp]: "filled (goto_thread t pc u) = filled u" "filled (set_item p w u) = filled u"
  by (simp_all add: filled_def step_defs)

lemma hold_sim:
  assumes "0 < Q" "sim Q u r" "threads u t = Waiting" "DequeueMutex u = None"
  shows "sim Q (goto_thread t (Holding (DequeuePosition u)) (u\<lparr>DequeueMutex := Some t, DequeuePosition := Suc (DequeuePosition u)\<rparr>))
    (goto_thread t (Holding (DequeuePosition r)) (r\<lparr>DequeueMutex := Some t, DequeuePosition := ring_next Q (DequeuePosition r)\<rparr>))"
    (is "sim Q ?u ?r")
proof -
  have s: "sim_items Q u r" "sim_firsts Q u r" "sim_busy u" "sim_rest Q u r" using assms(2) by (simp_all add: sim_def)
  note rest = sim_restD [OF s(4)]
  have id: "idle u v \<Longrightarrow> idle ?u v" for v using assms(4) by (simp add: idle_def started_to_def step_defs)
  have "sim_items Q ?u ?r"
    by (rule sim_items_neutral [OF s(1) _ _ _ _ _ id]) (simp_all add: step_defs filled_def)
  moreover have "sim_firsts Q ?u ?r"
    by (rule sim_firsts_same [OF s(2)]) (simp_all add: step_defs)
  moreover have "sim_busy ?u" using s(3) by (simp add: sim_busy_def step_defs)
  moreover have "sim_rest Q ?u ?r"
    by (rule sim_rest_thread [OF s(4), of _ _ t "Holding (DequeuePosition u)"]) (use rest ring_next_mod [OF assms(1)] in \<open>simp_all add: step_defs\<close>)
  ultimately show ?thesis by (simp add: sim_def)
qed

lemma work_item:
  assumes "0 < Q" "pool_inv P args N b0 ph u" "sim Q u r" "threads u t = Holding p" "State (item r (p mod Q)) = WorkItemReady"
  shows "ph p = PNew" "p = started_to u" "p < filled u" "filled u \<le> p + Q" "State (item u p) = WorkItemReady"
proof -
  note i = pool_invD [OF assms(2)]
  have s: "sim_items Q u r" using assms(3) by (simp add: sim_def)
  have d: "DequeueMutex u = Some t" "DequeuePosition u = Suc p" using i(1) assms(4) by (auto simp: inv_threads_def)
  show st: "p = started_to u" using d by (simp add: started_to_def)
  then show ph: "ph p = PNew" using inv_threads_phase(5) [OF i(1), of p] by simp
  have le: "p \<le> filled u" using st inv_threads_phase(6) [OF i(1)] ready_filled(1) [OF i(2)] by simp
  show b: "filled u \<le> p + Q"
  proof (rule ccontr)
    assume "\<not> ?thesis"
    then have "idle u p" using sim_itemsD(2) [OF s, of p] by simp
    then show False using idle_done [OF i(1)] ph by simp
  qed
  show a: "p < filled u"
  proof (rule ccontr)
    assume "\<not> ?thesis"
    then have e: "p = filled u" using le by simp
    show False
    proof (cases "p < Q")
      case True
      then show ?thesis using sim_itemsD(4) [OF s, of p] e assms(5) by simp
    next
      case False
      define v where "v = p - Q"
      have v: "v < filled u" "filled u \<le> v + Q" "v mod Q = p mod Q" using False e assms(1) by (simp_all add: v_def le_mod_geq)
      have "State (item u v) = WorkItemReady" using sim_itemsD(1) [OF s v(1,2)] v(3) assms(5) by (simp add: same_item_def)
      moreover have "v < started_to u" using v_def st False assms(1) by simp
      ultimately show ?thesis
        using inv_statesD(1,3) [OF i(4), of v] inv_threads_phase(5) [OF i(1), of v] inv_threads_phase(6) [OF i(1)] by (cases "v < ready_to u") auto
    qed
  qed
  show "State (item u p) = WorkItemReady" using sim_itemsD(1) [OF s a b] assms(5) by (simp add: same_item_def)
qed

lemma work_sim:
  assumes "0 < Q" "pool_inv P args N b0 ph u" "sim Q u r" "threads u t = Holding p" "State (item r (p mod Q)) = WorkItemReady"
  shows "sim Q (goto_thread t (Working p) (set_item p ((item u p)\<lparr>State := WorkItemBusy\<rparr>) (u\<lparr>DequeueMutex := None\<rparr>)))
    (goto_thread t (Working (p mod Q)) (set_item (p mod Q) ((item r (p mod Q))\<lparr>State := WorkItemBusy\<rparr>) (r\<lparr>DequeueMutex := None\<rparr>)))"
    (is "sim Q ?u ?r")
proof -
  have s: "sim_items Q u r" "sim_firsts Q u r" "sim_busy u" "sim_rest Q u r" using assms(3) by (simp_all add: sim_def)
  note rest = sim_restD [OF s(4)]
  note i = pool_invD [OF assms(2)]
  note w = work_item [OF assms]
  have d: "DequeueMutex u = Some t" "DequeuePosition u = Suc p" using i(1) assms(4) by (auto simp: inv_threads_def)
  have id: "idle ?u v" if "v \<noteq> p" "idle u v" for v
    using that d by (simp add: idle_def started_to_def step_defs)
  have no: "\<not> on_item (threads u t') p" for t' using on_item_phase [OF i(1), of t' p] w(1) by auto
  have "sim_items Q ?u ?r"
    by (rule sim_items_update [OF s(1) _ w(3,4) _ _ _ id])
      (use same_item_state [OF sim_itemsD(1) [OF s(1) w(3,4)]] in \<open>simp_all add: step_defs filled_def\<close>)
  moreover have "sim_firsts Q ?u ?r"
    by (rule sim_firsts_same [OF s(2)]) (simp_all add: step_defs)
  moreover have "sim_busy ?u"
    by (rule sim_busy_thread [OF s(3), of _ t "Working p"]) (use no in \<open>auto simp: step_defs\<close>)
  moreover have "sim_rest Q ?u ?r"
    by (rule sim_rest_thread [OF s(4), of _ _ t "Working p"]) (use rest d in \<open>simp_all add: step_defs\<close>)
  ultimately show ?thesis by (simp add: sim_def)
qed


text \<open>A worker goes on with its item: the item or the first one of its request is updated.\<close>

lemma move_sim:
  assumes "pool_inv P args N b0 ph u" "sim Q u r" "on_item (threads u t) p" "\<And>v. on_item pc v \<Longrightarrow> v = p"
    "threads u' = (threads u)(t := pc)" "threads r' = (threads r)(t := ring_thread Q pc)" "q < filled u" "filled u \<le> q + Q"
    "WorkItemQueue u' = (WorkItemQueue u)(q := w)" "WorkItemQueue r' = (WorkItemQueue r)(q mod Q := w')" "same_item Q w' w"
    "EnqueuePosition u' = EnqueuePosition u" "EnqueuePosition r' = EnqueuePosition r" "EnqueueMutex u' = EnqueueMutex u"
    "EnqueueMutex r' = EnqueueMutex r" "callers u' = callers u" "callers r' = callers r" "DequeuePosition u' = DequeuePosition u"
    "DequeuePosition r' = DequeuePosition r" "DequeueMutex u' = DequeueMutex u" "DequeueMutex r' = DequeueMutex r" "buffers r' = buffers u'"
    "sim_firsts Q u' r'" "State w = State (item u q) \<or> q = p" "\<And>v. pc = Working v \<or> pc = Processed v \<Longrightarrow> State (item u' v) = WorkItemBusy"
  shows "sim Q u' r'"
proof -
  have s: "sim_items Q u r" "sim_busy u" "sim_rest Q u r" using assms(2) by (simp_all add: sim_def)
  note rest = sim_restD [OF s(3)]
  note i = pool_invD [OF assms(1)]
  have f: "filled u' = filled u" using assms by (simp add: filled_def)
  have st: "started_to u' = started_to u" using assms by (simp add: started_to_def)
  have nd: "\<not> idle u p" using assms(3) by (auto simp: idle_def)
  have id: "idle u' v" if "idle u v" for v
    using that nd assms(4) [of v] unfolding idle_def st assms(5) by auto
  have "sim_items Q u' r'"
    by (rule sim_items_update [OF s(1) f assms(7,8) _ _ _ id]) (use assms(9-11) in simp_all)
  moreover have "sim_busy u'"
  proof (rule sim_busy_thread [OF s(2) assms(5) _ assms(25)])
    show "State (item u' v) = State (item u v) \<or> (\<forall>t'. t' \<noteq> t \<longrightarrow> \<not> on_item (threads u t') v)" for v
      using assms(9,24) one_worker [OF i(1) assms(3)] by (cases "v = q") auto
  qed
  moreover have "sim_rest Q u' r'"
    by (rule sim_rest_thread [OF s(3) assms(12-17)]) (use rest assms(5,6,18-22) in simp_all)
  ultimately show ?thesis using assms(23) by (simp add: sim_def)
qed

lemma phase_live:
  assumes "inv_threads ph u" "on_item (threads u t) p"
  shows "ph p \<noteq> PNew" "ph p \<noteq> PDone"
  using on_item_phase [OF assms] by auto

lemma process_sim:
  assumes "pool_inv P args N b0 ph u" "sim Q u r" "threads u t = Working p"
  shows "sim Q (goto_thread t (Processed p) (u\<lparr>buffers := b\<rparr>)) (goto_thread t (Processed (p mod Q)) (r\<lparr>buffers := b\<rparr>))" (is "sim Q ?u ?r")
proof -
  note i = pool_invD [OF assms(1)]
  have o: "on_item (threads u t) p" using assms(3) by simp
  note l = live_item [OF assms(1,2) phase_live [OF i(1) o]]
  have s: "sim_firsts Q u r" "sim_busy u" using assms(2) by (simp_all add: sim_def)
  have "sim_firsts Q ?u ?r" by (rule sim_firsts_same [OF s(1)]) (simp_all add: step_defs)
  then show ?thesis
    by (intro move_sim [OF assms(1,2) o, of "Processed p" _ _ p "item u p" "item r (p mod Q)"])
      (use l s(2) assms(3) in \<open>auto simp: step_defs sim_busy_def\<close>)
qed

lemma free_sim:
  assumes "pool_inv P args N b0 ph u" "sim Q u r" "on_item (threads u t) p" "pc = Waiting \<or> pc = Counting p"
  shows "sim Q (goto_thread t pc (set_item p ((item u p)\<lparr>State := WorkItemFree\<rparr>) u))
    (goto_thread t (ring_thread Q pc) (set_item (p mod Q) ((item r (p mod Q))\<lparr>State := WorkItemFree\<rparr>) r))" (is "sim Q ?u ?r")
proof -
  note i = pool_invD [OF assms(1)]
  note l = live_item [OF assms(1,2) phase_live [OF i(1) assms(3)]]
  have s: "sim_firsts Q u r" "sim_rest Q u r" using assms(2) by (simp_all add: sim_def)
  have "sim_firsts Q ?u ?r" by (rule sim_firsts_same [OF s(1)]) (simp_all add: step_defs)
  then show ?thesis
    by (intro move_sim [OF assms(1-3), of pc _ _ p "(item u p)\<lparr>State := WorkItemFree\<rparr>" "(item r (p mod Q))\<lparr>State := WorkItemFree\<rparr>"])
      (use l same_item_state [OF l(3)] assms(4) sim_restD [OF s(2)] in \<open>auto simp: step_defs\<close>)
qed

lemma first_sim:
  assumes "pool_inv P args N b0 ph u" "sim Q u r" "threads u t = Processed p"
  shows "sim Q (goto_thread t (Counting p) u) (goto_thread t (Counting (p mod Q)) r)" (is "sim Q ?u ?r")
proof -
  note i = pool_invD [OF assms(1)]
  have o: "on_item (threads u t) p" using assms(3) by simp
  note l = live_item [OF assms(1,2) phase_live [OF i(1) o]]
  have s: "sim_firsts Q u r" "sim_rest Q u r" using assms(2) by (simp_all add: sim_def)
  have "sim_firsts Q ?u ?r" by (rule sim_firsts_same [OF s(1)]) (simp_all add: step_defs)
  then show ?thesis
    by (intro move_sim [OF assms(1,2) o, of "Counting p" _ _ p "item u p" "item r (p mod Q)"])
      (use l sim_restD [OF s(2)] in \<open>auto simp: step_defs\<close>)
qed

text \<open>The first item of the request of a worker.\<close>

lemma worker_first:
  assumes "pool_inv P args N b0 ph u" "sim Q u r" "0 < N" "0 < Q" "on_item (threads u t) p" "data_units (ItemType (item u p))"
  defines "f \<equiv> FirstFragment (item u p)"
  shows "first_item (callers u (Buffer (item u p))) = Some f" "f < filled u" "filled u \<le> f + Q" "FirstFragment (item r (p mod Q)) = f mod Q"
    "p mod Q = f mod Q \<longleftrightarrow> p = f"
proof -
  note i = pool_invD [OF assms(1)]
  note ph = phase_live [OF i(1) assms(5)]
  note l = live_item [OF assms(1,2) ph]
  have w: "first_item (callers u (Buffer (item u p))) = Some f" "p \<in> request args N (Buffer (item u p)) f"
    by (rule worker_item [OF assms(1) ph assms(6)]; simp add: f_def)+
  show "first_item (callers u (Buffer (item u p))) = Some f" by (rule w(1))
  show a: "f < filled u" using w(2) l(1) by (simp add: request_def)
  show b: "filled u \<le> f + Q" by (rule live_first [OF assms(1,2,4) w(1) a])
  show "FirstFragment (item r (p mod Q)) = f mod Q" using l(3) assms(6) by (simp add: same_item_def f_def)
  show "p mod Q = f mod Q \<longleftrightarrow> p = f" using mod_window [OF l(1,2) a b] by auto
qed

lemma count_sim:
  assumes "pool_inv P args N b0 ph u" "sim Q u r" "0 < N" "0 < Q" "threads u t = Counting p" "data_units (ItemType (item u p))"
    "pc = Waiting \<or> pc = Signalling p"
  defines "f \<equiv> FirstFragment (item u p)"
  shows "sim Q (goto_thread t pc (set_item f ((item u f)\<lparr>OutstandingFragmentCount := k\<rparr>) u))
    (goto_thread t (ring_thread Q pc) (set_item (f mod Q) ((item r (f mod Q))\<lparr>OutstandingFragmentCount := k\<rparr>) r))" (is "sim Q ?u ?r")
proof -
  note i = pool_invD [OF assms(1)]
  have o: "on_item (threads u t) p" using assms(5) by simp
  note w = worker_first [OF assms(1-4) o assms(6), folded f_def]
  have s: "sim_items Q u r" "sim_firsts Q u r" "sim_rest Q u r" using assms(2) by (simp_all add: sim_def)
  have e: "same_item Q (item r (f mod Q)) (item u f)" by (rule sim_itemsD(1) [OF s(1) w(2,3)])
  have "sim_firsts Q ?u ?r"
    unfolding sim_firsts_def
  proof (intro conjI allI impI)
    note fi = sim_firstsD [OF s(2)]
    show "OutstandingFragmentCount (item ?r (g mod Q)) = OutstandingFragmentCount (item ?u g)" if "first_item (callers ?u c) = Some g" for c g
    proof -
      have g: "first_item (callers u c) = Some g" using that by (simp add: step_defs)
      have "g mod Q = f mod Q \<Longrightarrow> g = f" using fi(3) [OF g w(1)] g w(1) by simp
      then show ?thesis using fi(1) [OF g] by (auto simp: step_defs)
    qed
    show "ItemCompletedEvent (item ?r j) \<longleftrightarrow> (\<exists>f. f mod Q = j \<and> ItemCompletedEvent (item ?u f))" for j
    proof -
      have "ItemCompletedEvent (item ?r j) = ItemCompletedEvent (item r j)" "ItemCompletedEvent (item ?u g) = ItemCompletedEvent (item u g)" for g
        by (simp_all add: step_defs)
      then show ?thesis using fi(2) [of j] by simp
    qed
    show "c = c'" if "first_item (callers ?u c) = Some g" "first_item (callers ?u c') = Some g'" "g mod Q = g' mod Q" for c c' g g'
      using fi(3) [of c g c' g'] that by (simp add: step_defs)
  qed
  then show ?thesis
    by (intro move_sim [OF assms(1,2) o, of pc _ _ f "(item u f)\<lparr>OutstandingFragmentCount := k\<rparr>" "(item r (f mod Q))\<lparr>OutstandingFragmentCount := k\<rparr>"])
      (use w e assms(7) sim_restD [OF s(3)] in \<open>auto simp: step_defs\<close>)
qed

lemma signal_sim:
  assumes "pool_inv P args N b0 ph u" "sim Q u r" "0 < N" "0 < Q" "threads u t = Signalling p" "data_units (ItemType (item u p))"
  defines "f \<equiv> FirstFragment (item u p)"
  shows "sim Q (goto_thread t Waiting (set_item f ((item u f)\<lparr>ItemCompletedEvent := True\<rparr>) u))
    (goto_thread t Waiting (set_item (f mod Q) ((item r (f mod Q))\<lparr>ItemCompletedEvent := True\<rparr>) r))" (is "sim Q ?u ?r")
proof -
  note i = pool_invD [OF assms(1)]
  have o: "on_item (threads u t) p" using assms(5) by simp
  note w = worker_first [OF assms(1-4) o assms(6), folded f_def]
  have s: "sim_items Q u r" "sim_firsts Q u r" "sim_rest Q u r" using assms(2) by (simp_all add: sim_def)
  have e: "same_item Q (item r (f mod Q)) (item u f)" by (rule sim_itemsD(1) [OF s(1) w(2,3)])
  have "sim_firsts Q ?u ?r"
    unfolding sim_firsts_def
  proof (intro conjI allI impI)
    note fi = sim_firstsD [OF s(2)]
    show "OutstandingFragmentCount (item ?r (g mod Q)) = OutstandingFragmentCount (item ?u g)" if "first_item (callers ?u c) = Some g" for c g
      using fi(1) [of c g] that by (auto simp: step_defs)
    show "ItemCompletedEvent (item ?r j) \<longleftrightarrow> (\<exists>f. f mod Q = j \<and> ItemCompletedEvent (item ?u f))" for j
    proof (cases "j = f mod Q")
      case True
      then show ?thesis by (auto simp: step_defs)
    next
      case False
      then have "g mod Q = j \<Longrightarrow> ItemCompletedEvent (item ?u g) = ItemCompletedEvent (item u g)" for g by (auto simp: step_defs)
      moreover have "ItemCompletedEvent (item ?r j) = ItemCompletedEvent (item r j)" using False by (simp add: step_defs)
      ultimately show ?thesis using fi(2) [of j] by auto
    qed
    show "c = c'" if "first_item (callers ?u c) = Some g" "first_item (callers ?u c') = Some g'" "g mod Q = g' mod Q" for c c' g g'
      using fi(3) [of c g c' g'] that by (simp add: step_defs)
  qed
  then show ?thesis
    by (intro move_sim [OF assms(1,2) o, of Waiting _ _ f "(item u f)\<lparr>ItemCompletedEvent := True\<rparr>" "(item r (f mod Q))\<lparr>ItemCompletedEvent := True\<rparr>"])
      (use w e sim_restD [OF s(3)] in \<open>auto simp: step_defs\<close>)
qed


lemma thread_sim:
  assumes "0 < N" "0 < Q" "pool_inv P args N b0 ph u" "sim Q u r" "thread_step P (ring_next Q) t r = Some r'"
  shows "\<exists>u'. thread_step P Suc t u = Some u' \<and> sim Q u' r'"
proof -
  have s: "sim_items Q u r" "sim_firsts Q u r" "sim_rest Q u r" using assms(4) by (simp_all add: sim_def)
  note rest = sim_restD [OF s(3)]
  note i = pool_invD [OF assms(3)]
  note st = assms(5) [unfolded thread_step_def finish_step_def]
  show ?thesis
  proof (cases "threads u t")
    case Waiting
    then have "DequeueMutex u = None" using st rest(4) rest(6) [of t] by (simp split: if_splits)
    then show ?thesis using st Waiting rest(4) rest(6) [of t] hold_sim [OF assms(2,4) Waiting] by (simp add: thread_step_def finish_step_def)
  next
    case (Holding p)
    then have R: "State (item r (p mod Q)) = WorkItemReady" using st rest(6) [of t] by (simp split: if_splits)
    note w = work_item [OF assms(2-4) Holding R] work_sim [OF assms(2-4) Holding R]
    show ?thesis using st Holding rest(6) [of t] R w by (simp add: thread_step_def finish_step_def)
  next
    case (Working p)
    have o: "on_item (threads u t) p" using Working by simp
    note l = live_item [OF assms(3,4) phase_live [OF i(1) o]]
    show ?thesis
    proof (cases "data_units (ItemType (item u p))")
      case True
      then have e: "ItemType (item r (p mod Q)) = ItemType (item u p)" "Buffer (item r (p mod Q)) = Buffer (item u p)"
        "CryptoInfo (item r (p mod Q)) = CryptoInfo (item u p)" "Encryption (item r (p mod Q)) = Encryption (item u p)"
        using l(3) by (simp_all add: same_item_def)
      obtain b where b: "process_fragment P (ItemType (item u p)) (CryptoInfo (item u p)) (Encryption (item u p)) (buffers u (Buffer (item u p))) = Some b"
        "r' = goto_thread t (Processed (p mod Q)) (r\<lparr>buffers := (buffers r)(Buffer (item u p) := b)\<rparr>)"
        using st Working rest(6) [of t] rest(7) True e by auto
      show ?thesis
        using b process_sim [OF assms(3,4) Working] Working True rest(7) by (simp add: thread_step_def finish_step_def)
    next
      case False
      then have e: "\<not> data_units (ItemType (item r (p mod Q)))" using l(3) by (simp add: same_item_def)
      show ?thesis
        using free_sim [OF assms(3,4) o, of Waiting] st Working rest(6) [of t] False e by (simp add: thread_step_def finish_step_def)
    qed
  next
    case (Processed p)
    have o: "on_item (threads u t) p" using Processed by simp
    have "ph p = PProc t" using inv_threads_phase(2) [OF i(1)] Processed by simp
    then have d: "data_units (ItemType (item u p))" using inv_itemsD(3) [OF i(3), of p t] by simp
    note w = worker_first [OF assms(3,4,1,2) o d]
    show ?thesis
    proof (cases "p = FirstFragment (item u p)")
      case True
      then show ?thesis using first_sim [OF assms(3,4) Processed] st Processed rest(6) [of t] w(4,5) by (simp add: thread_step_def finish_step_def)
    next
      case False
      then show ?thesis using free_sim [OF assms(3,4) o, of "Counting p"] st Processed rest(6) [of t] w(4,5) by (simp add: thread_step_def finish_step_def)
    qed
  next
    case (Counting p)
    have o: "on_item (threads u t) p" using Counting by simp
    have "ph p = PCount t" using inv_threads_phase(3) [OF i(1)] Counting by simp
    then have d: "data_units (ItemType (item u p))" using inv_itemsD(3) [OF i(3), of p t] by simp
    note w = worker_first [OF assms(3,4,1,2) o d]
    define k where "k = OutstandingFragmentCount (item u (FirstFragment (item u p))) - 1"
    have k: "OutstandingFragmentCount (item r (FirstFragment (item u p) mod Q)) = k + 1"
      "OutstandingFragmentCount (item u (FirstFragment (item u p))) = k + 1"
      using sim_firstsD(1) [OF s(2) w(1)] by (simp_all add: k_def)
    show ?thesis
      using count_sim [OF assms(3,4,1,2) Counting d, of "if k = 0 then Signalling p else Waiting" k] st Counting rest(6) [of t] w(4) k
      by (cases "k = 0") (simp_all add: thread_step_def finish_step_def Let_def)
  next
    case (Signalling p)
    have o: "on_item (threads u t) p" using Signalling by simp
    have "ph p = PSignal t" using inv_threads_phase(4) [OF i(1)] Signalling by simp
    then have d: "data_units (ItemType (item u p))" using inv_itemsD(3) [OF i(3), of p t] by simp
    note w = worker_first [OF assms(3,4,1,2) o d]
    show ?thesis
      using signal_sim [OF assms(3,4,1,2) Signalling d] st Signalling rest(6) [of t] w(4) by (simp add: thread_step_def finish_step_def Let_def)
  qed
qed


section \<open>Steps of the calls\<close>

lemma sim_rest_call:
  assumes "sim_rest Q u r" "EnqueuePosition r' = EnqueuePosition u' mod Q" "EnqueueMutex r' = EnqueueMutex u'" "DequeuePosition u' = DequeuePosition u"
    "DequeuePosition r' = DequeuePosition r" "DequeueMutex u' = DequeueMutex u" "DequeueMutex r' = DequeueMutex r" "buffers r' = buffers u'"
    "threads u' = threads u" "threads r' = threads r" "callers u' = (callers u)(c := pc)" "callers r' = (callers r)(c := ring_pc Q pc)"
  shows "sim_rest Q u' r'"
  using assms by (auto simp: sim_rest_def)

lemma sim_firsts_less:
  assumes "sim_firsts Q u r" "\<And>c f. first_item (callers u' c) = Some f \<Longrightarrow> first_item (callers u c) = Some f"
    "\<And>v. OutstandingFragmentCount (item u' v) = OutstandingFragmentCount (item u v)" "\<And>v. ItemCompletedEvent (item u' v) = ItemCompletedEvent (item u v)"
    "\<And>v. OutstandingFragmentCount (item r' v) = OutstandingFragmentCount (item r v)" "\<And>v. ItemCompletedEvent (item r' v) = ItemCompletedEvent (item r v)"
  shows "sim_firsts Q u' r'"
  using assms(1,2) unfolding sim_firsts_def assms(3-) by blast

lemma idle_call: "threads u' = threads u \<Longrightarrow> DequeueMutex u' = DequeueMutex u \<Longrightarrow> DequeuePosition u' = DequeuePosition u \<Longrightarrow> idle u' v = idle u v"
  by (simp add: idle_def started_to_def)

lemma sim_busy_call:
  assumes "sim_busy u" "threads u' = threads u" "\<And>v. State (item u' v) = State (item u v) \<or> (\<forall>t. \<not> on_item (threads u t) v)"
  shows "sim_busy u'"
  unfolding sim_busy_def assms(2)
proof (intro allI impI)
  fix t v assume a: "threads u t = Working v \<or> threads u t = Processed v"
  then have "on_item (threads u t) v" by auto
  then show "State (item u' v) = WorkItemBusy" using assms(1) assms(3) [of v] a by (auto simp: sim_busy_def)
qed

text \<open>A step of a call that fills no item.\<close>

lemma call_sim_keep:
  assumes "sim Q u r" "filled u' = filled u" "EnqueuePosition r' = EnqueuePosition u' mod Q" "EnqueueMutex r' = EnqueueMutex u'"
    "DequeuePosition u' = DequeuePosition u" "DequeuePosition r' = DequeuePosition r" "DequeueMutex u' = DequeueMutex u" "DequeueMutex r' = DequeueMutex r"
    "buffers r' = buffers u'" "threads u' = threads u" "threads r' = threads r" "callers u' = (callers u)(c := pc)" "callers r' = (callers r)(c := ring_pc Q pc)"
    "sim_firsts Q u' r'"
    "\<And>v w. same_item Q w (item u' v) = same_item Q w (item u v)" "\<And>v. State (item u' v) = State (item u v)"
    "\<And>i w. same_item Q (item r' i) w = same_item Q (item r i) w" "\<And>i. State (item r' i) = State (item r i)"
  shows "sim Q u' r'"
proof -
  have s: "sim_items Q u r" "sim_busy u" "sim_rest Q u r" using assms(1) by (simp_all add: sim_def)
  have "sim_items Q u' r'"
    by (rule sim_items_neutral [OF s(1) assms(2,15-18)]) (use idle_call [OF assms(10,7,5)] in simp)
  moreover have "sim_busy u'" by (rule sim_busy_call [OF s(2) assms(10)]) (simp add: assms(16))
  moreover have "sim_rest Q u' r'" by (rule sim_rest_call [OF s(3) assms(3-13)])
  ultimately show ?thesis using assms(14) by (simp add: sim_def)
qed

text \<open>One that sets the state of an item that no worker has.\<close>

lemma call_sim_state:
  assumes "sim Q u r" "filled u' = filled u" "EnqueuePosition r' = EnqueuePosition u' mod Q" "EnqueueMutex r' = EnqueueMutex u'"
    "DequeuePosition u' = DequeuePosition u" "DequeuePosition r' = DequeuePosition r" "DequeueMutex u' = DequeueMutex u" "DequeueMutex r' = DequeueMutex r"
    "buffers r' = buffers u'" "threads u' = threads u" "threads r' = threads r" "callers u' = (callers u)(c := pc)" "callers r' = (callers r)(c := ring_pc Q pc)"
    "\<And>c f. first_item (callers u' c) = Some f \<Longrightarrow> first_item (callers u c) = Some f" "p < filled u" "filled u \<le> p + Q"
    "WorkItemQueue u' = (WorkItemQueue u)(p := (item u p)\<lparr>State := x\<rparr>)"
    "WorkItemQueue r' = (WorkItemQueue r)(p mod Q := (item r (p mod Q))\<lparr>State := x\<rparr>)" "\<And>t. \<not> on_item (threads u t) p"
  shows "sim Q u' r'"
proof -
  have s: "sim_items Q u r" "sim_firsts Q u r" "sim_busy u" "sim_rest Q u r" using assms(1) by (simp_all add: sim_def)
  have "sim_items Q u' r'"
    by (rule sim_items_update [OF s(1) assms(2,15,16)])
      (use assms(17,18) same_item_state [OF sim_itemsD(1) [OF s(1) assms(15,16)]] idle_call [OF assms(10,7,5)] in simp_all)
  moreover have "sim_busy u'"
    by (rule sim_busy_call [OF s(3) assms(10)]) (use assms(17,19) in simp)
  moreover have "sim_rest Q u' r'" by (rule sim_rest_call [OF s(4) assms(3-13)])
  moreover have "sim_firsts Q u' r'" by (rule sim_firsts_less [OF s(2) assms(14)]) (use assms(17,18) in auto)
  ultimately show ?thesis by (simp add: sim_def)
qed

text \<open>A slot whose last user is free has no worker either: the first item of its request would be older.\<close>

lemma slot_free:
  assumes "0 < N" "0 < Q" "pool_inv P args N b0 ph u" "sim Q u r" "v + Q = filled u" "v < ready_to u" "State (item r (v mod Q)) = WorkItemFree"
  shows "ph v = PDone" "State (item u v) = WorkItemFree"
proof -
  have s: "sim_items Q u r" "sim_busy u" using assms(4) by (simp_all add: sim_def)
  note i = pool_invD [OF assms(3)]
  have v: "v < filled u" "filled u \<le> v + Q" using assms(2,5) by simp_all
  show f: "State (item u v) = WorkItemFree" using sim_itemsD(1) [OF s(1) v] assms(7) by (simp add: same_item_def)
  have busy: "State (item u v) = WorkItemBusy" if "threads u t = Working v \<or> threads u t = Processed v" for t
    using s(2) that by (auto simp: sim_busy_def)
  have count: False if "ph v = PCount t \<or> ph v = PSignal t" for t
  proof -
    have d: "data_units (ItemType (item u v))" by (rule inv_itemsD(3) [OF i(3), of v t]) (use that in blast)
    have n: "ph v \<noteq> PNew" "ph v \<noteq> PDone" using that by auto
    let ?f = "FirstFragment (item u v)"
    have w: "first_item (callers u (Buffer (item u v))) = Some ?f" "v \<in> request args N (Buffer (item u v)) ?f"
      by (rule worker_item [OF assms(3) n d]; simp)+
    have le: "?f \<le> v" using w(2) by (simp add: request_def)
    then have "State (item u ?f) \<noteq> WorkItemFree" using inv_statesD(4) [OF i(4) w(1)] assms(6) by simp
    then have "?f \<noteq> v" using f by auto
    then have "?f + Q < filled u" using le assms(5) by simp
    then have "State (item u ?f) = WorkItemFree" by (rule sim_itemsD(3) [OF s(1)])
    then show False using \<open>State (item u ?f) \<noteq> WorkItemFree\<close> by simp
  qed
  show "ph v = PDone"
  proof (cases "ph v")
    case PNew
    then show ?thesis using inv_statesD(2) [OF i(4) assms(6)] f by simp
  next
    case (PWork t)
    then show ?thesis using busy [of t] inv_threads_phase(1) [OF i(1), of t v] f by simp
  next
    case (PProc t)
    then show ?thesis using busy [of t] inv_threads_phase(2) [OF i(1), of t v] f by simp
  qed (use count in auto)
qed

lemma call_sim_fill:
  assumes "0 < N" "0 < Q" "pool_inv P args N b0 ph u" "sim Q u r" "filled u = p" "ready_to u = p" "filled u' = Suc p" "State (item r (p mod Q)) = WorkItemFree"
    "EnqueuePosition r' = EnqueuePosition u' mod Q" "EnqueueMutex r' = EnqueueMutex u'"
    "DequeuePosition u' = DequeuePosition u" "DequeuePosition r' = DequeuePosition r" "DequeueMutex u' = DequeueMutex u" "DequeueMutex r' = DequeueMutex r"
    "buffers r' = buffers u'" "threads u' = threads u" "threads r' = threads r" "callers u' = (callers u)(c := pc)" "callers r' = (callers r)(c := ring_pc Q pc)"
    "first_item pc = first_item (callers u c)" "WorkItemQueue u' = (WorkItemQueue u)(p := w)" "WorkItemQueue r' = (WorkItemQueue r)(p mod Q := w')"
    "State w = State (item u p)" "same_item Q w' w"
    "OutstandingFragmentCount w = OutstandingFragmentCount (item u p)" "ItemCompletedEvent w = ItemCompletedEvent (item u p)"
    "OutstandingFragmentCount w' = OutstandingFragmentCount (item r (p mod Q))" "ItemCompletedEvent w' = ItemCompletedEvent (item r (p mod Q))"
  shows "sim Q u' r'"
proof -
  have s: "sim_items Q u r" "sim_firsts Q u r" "sim_busy u" "sim_rest Q u r" using assms(4) by (simp_all add: sim_def)
  note i = pool_invD [OF assms(3)]
  note it = sim_itemsD [OF s(1), unfolded assms(5)]
  note id = idle_call [OF assms(16,13,11)]
  have "sim_items Q u' r'"
    unfolding sim_items_def assms(7)
  proof (intro conjI allI impI)
    show "same_item Q (item r' (v mod Q)) (item u' v)" if "v < Suc p" "Suc p \<le> v + Q" for v
    proof (cases "v = p")
      case True
      then show ?thesis using assms(21,22,24) by simp
    next
      case False
      have "v mod Q \<noteq> p mod Q" using mod_window [of v "Suc p" Q p] that assms(2) False by auto
      then show ?thesis using it(1) [of v] that False assms(21,22) by simp
    qed
    show "idle u' v" "State (item u' v) = WorkItemFree" if "v + Q < Suc p" for v
    proof -
      have "idle u v \<and> State (item u v) = WorkItemFree"
      proof (cases "v + Q = p")
        case True
        then have "v mod Q = p mod Q" by auto
        then have "ph v = PDone \<and> State (item u v) = WorkItemFree"
          using slot_free [OF assms(1-4), of v] True assms(2,5,6,8) by simp
        then show ?thesis using idle_done [OF i(1)] by simp
      next
        case False
        then show ?thesis using it(2,3) [of v] that by simp
      qed
      then show "idle u' v" "State (item u' v) = WorkItemFree" using id that assms(2,21) by auto
    qed
    show "State (item r' j) = WorkItemFree" if "Suc p \<le> j" "j < Q" for j
      using it(4) [of j] that assms(22) by simp
  qed
  moreover have "sim_firsts Q u' r'"
    by (rule sim_firsts_less [OF s(2)]) (use assms(18,20-22,25-28) in \<open>auto split: if_splits\<close>)
  moreover have "sim_busy u'" by (rule sim_busy_call [OF s(3) assms(16)]) (use assms(21,23) in auto)
  moreover have "sim_rest Q u' r'" by (rule sim_rest_call [OF s(4) assms(9-19)])
  ultimately show ?thesis by (simp add: sim_def)
qed


lemma simD:
  assumes "sim Q u r"
  shows "sim_items Q u r" "sim_firsts Q u r" "sim_busy u" "sim_rest Q u r"
  using assms by (simp_all add: sim_def)

text \<open>The position of a call that has the lock.\<close>

lemma locked_filled:
  assumes "pool_inv P args N b0 ph u" "holds_lock (callers u c)"
  shows "filled u = filled_pos (EnqueuePosition u) (callers u c)"
  using locked_facts(2) [OF assms] by (simp add: filled_def filled_of_def)

lemmas ring_simps = step_defs filled_def filled_of_def

lemma count_set_sim:
  assumes "0 < N" "0 < Q" "pool_inv P args N b0 ph u" "sim Q u r" "callers u c = CheckFirst f" "State (item r (f mod Q)) = WorkItemFree"
  shows "sim Q (goto_call c (NextItem ws f) (set_item f ((item u f)\<lparr>OutstandingFragmentCount := k\<rparr>) u))
    (goto_call c (NextItem ws (f mod Q)) (set_item (f mod Q) ((item r (f mod Q))\<lparr>OutstandingFragmentCount := k\<rparr>) r))" (is "sim Q ?u ?r")
proof -
  have h: "holds_lock (callers u c)" using assms(5) by simp
  note l = locked_facts [OF assms(3) h]
  note i = pool_invD [OF assms(3)]
  note s = simD [OF assms(4)]
  have f: "f = EnqueuePosition u" "ready_to u = f" "filled u = f" using l(3,4) locked_filled [OF assms(3) h] assms(5) by simp_all
  have oth: "f mod Q \<noteq> g mod Q" "g \<noteq> f" if "first_item (callers u c') = Some g" for c' g
  proof -
    have "c' \<noteq> c" using that assms(5) by auto
    then have "\<not> holds_lock (callers u c')" using inv_callsD(1) [OF i(2), of c'] l(2) by auto
    then have g: "g < ready_to u" by (rule shape_first [OF assms(1) i(2) that])
    then show "g \<noteq> f" using f(2) by simp
    have "filled u \<le> g + Q" by (rule live_first [OF assms(3,4,2) that]) (use g f in simp)
    then have "State (item r (g mod Q)) = State (item u g)" using sim_itemsD(1) [OF s(1), of g] g f by (simp add: same_item_def)
    then show "f mod Q \<noteq> g mod Q" using inv_statesD(4) [OF i(4) that g] assms(6) by auto
  qed
  have first: "first_item (callers ?u c') = Some g \<Longrightarrow> c' = c \<and> g = f \<or> c' \<noteq> c \<and> first_item (callers u c') = Some g" for c' g
    by (auto simp: step_defs split: if_splits)
  have "sim_firsts Q ?u ?r"
    unfolding sim_firsts_def
  proof (intro conjI allI impI)
    note fi = sim_firstsD [OF s(2)]
    show "OutstandingFragmentCount (item ?r (g mod Q)) = OutstandingFragmentCount (item ?u g)" if "first_item (callers ?u c') = Some g" for c' g
      using first [OF that] fi(1) [of c' g] oth [of c' g] by (auto simp: step_defs)
    show "ItemCompletedEvent (item ?r j) \<longleftrightarrow> (\<exists>f. f mod Q = j \<and> ItemCompletedEvent (item ?u f))" for j
    proof -
      have "ItemCompletedEvent (item ?r j) = ItemCompletedEvent (item r j)" "ItemCompletedEvent (item ?u g) = ItemCompletedEvent (item u g)" for g
        by (simp_all add: step_defs)
      then show ?thesis using fi(2) [of j] by simp
    qed
    show "c1 = c2" if "first_item (callers ?u c1) = Some g1" "first_item (callers ?u c2) = Some g2" "g1 mod Q = g2 mod Q" for c1 c2 g1 g2
      using first [OF that(1)] first [OF that(2)] fi(3) [of c1 g1 c2 g2] oth(1) [of c1 g1] oth(1) [of c2 g2] that(3) by auto
  qed
  then show ?thesis
    by (intro call_sim_keep [OF assms(4), where c = c and pc = "NextItem ws f"])
      (use sim_restD [OF s(4)] l(2) assms(5) in \<open>simp_all add: ring_simps\<close>)
qed

lemma outside_filled:
  assumes "pool_inv P args N b0 ph u" "\<not> holds_lock (callers u c)" "EnqueueMutex u' = EnqueueMutex u" "EnqueuePosition u' = EnqueuePosition u"
    "callers u' = (callers u)(c := pc)"
  shows "filled u' = filled u"
proof -
  have "EnqueueMutex u \<noteq> Some c" using assms(2) inv_callsD(1) [OF pool_invD(2) [OF assms(1)], of c] by simp
  then show ?thesis using assms(3-) by (auto simp: filled_def filled_of_def split: option.splits)
qed

lemma waiting_first:
  assumes "0 < Q" "pool_inv P args N b0 ph u" "sim Q u r" "callers u c = WaitCompleted f \<or> callers u c = FreeFirst f" "0 < N"
  shows "f < ready_to u" "f < filled u" "filled u \<le> f + Q" "\<not> holds_lock (callers u c)" "first_item (callers u c) = Some f"
proof -
  note i = pool_invD [OF assms(2)]
  show n: "\<not> holds_lock (callers u c)" "first_item (callers u c) = Some f" using assms(4) by auto
  show "f < ready_to u" by (rule shape_first [OF assms(5) i(2) n(2,1)])
  then show f: "f < filled u" using ready_filled(1) [OF i(2)] by simp
  show "filled u \<le> f + Q" by (rule live_first [OF assms(2,3,1) n(2) f])
qed

lemma completed_sim:
  assumes "0 < N" "0 < Q" "pool_inv P args N b0 ph u" "sim Q u r" "callers u c = WaitCompleted f" "ItemCompletedEvent (item r (f mod Q))"
  shows "ItemCompletedEvent (item u f)" "sim Q (goto_call c (FreeFirst f) (set_item f ((item u f)\<lparr>ItemCompletedEvent := False\<rparr>) u))
    (goto_call c (FreeFirst (f mod Q)) (set_item (f mod Q) ((item r (f mod Q))\<lparr>ItemCompletedEvent := False\<rparr>) r))" (is "sim Q ?u ?r")
proof -
  note i = pool_invD [OF assms(3)]
  note s = simD [OF assms(4)]
  note fi = sim_firstsD [OF s(2)]
  have w: "first_item (callers u c) = Some f" "\<not> holds_lock (callers u c)" using assms(5) by simp_all
  have only: "g = f" if "g mod Q = f mod Q" "ItemCompletedEvent (item u g)" for g
  proof -
    from inv_countsD(2) [OF i(5) that(2)] obtain c' where c': "first_item (callers u c') = Some g" by blast
    then show ?thesis using fi(3) [OF c' w(1) that(1)] w(1) by simp
  qed
  show "ItemCompletedEvent (item u f)" using fi(2) [of "f mod Q"] assms(6) only by blast
  have "sim_firsts Q ?u ?r"
    unfolding sim_firsts_def
  proof (intro conjI allI impI)
    have first: "first_item (callers ?u c') = first_item (callers u c')" for c' using w by (simp add: step_defs)
    show "OutstandingFragmentCount (item ?r (g mod Q)) = OutstandingFragmentCount (item ?u g)" if "first_item (callers ?u c') = Some g" for c' g
      using fi(1) [of c' g] that first by (auto simp: step_defs)
    show "ItemCompletedEvent (item ?r j) \<longleftrightarrow> (\<exists>f. f mod Q = j \<and> ItemCompletedEvent (item ?u f))" for j
    proof (cases "j = f mod Q")
      case True
      then show ?thesis using only by (auto simp: step_defs)
    next
      case False
      then have "g mod Q = j \<Longrightarrow> ItemCompletedEvent (item ?u g) = ItemCompletedEvent (item u g)" for g by (auto simp: step_defs)
      moreover have "ItemCompletedEvent (item ?r j) = ItemCompletedEvent (item r j)" using False by (simp add: step_defs)
      ultimately show ?thesis using fi(2) [of j] by auto
    qed
    show "c1 = c2" if "first_item (callers ?u c1) = Some g1" "first_item (callers ?u c2) = Some g2" "g1 mod Q = g2 mod Q" for c1 c2 g1 g2
      using fi(3) [of c1 g1 c2 g2] that first by simp
  qed
  moreover have "filled ?u = filled u" by (rule outside_filled [OF assms(3) w(2)]) (simp_all add: step_defs)
  ultimately show "sim Q ?u ?r"
    by (intro call_sim_keep [OF assms(4), where c = c and pc = "FreeFirst f"])
      (use sim_restD [OF s(4)] in \<open>simp_all add: step_defs\<close>)
qed

lemma free_first_sim:
  assumes "0 < N" "0 < Q" "pool_inv P args N b0 ph u" "sim Q u r" "callers u c = FreeFirst f"
  shows "sim Q (goto_call c Returned (set_item f ((item u f)\<lparr>State := WorkItemFree\<rparr>) u))
    (goto_call c Returned (set_item (f mod Q) ((item r (f mod Q))\<lparr>State := WorkItemFree\<rparr>) r))" (is "sim Q ?u ?r")
proof -
  note i = pool_invD [OF assms(3)]
  note s = simD [OF assms(4)]
  note w = waiting_first [OF assms(2-4) _ assms(1), of c f] 
  have "ph f = PDone" by (rule inv_countsD(5) [OF i(5) assms(5) first_in_request [OF assms(1) i(2)]]) (simp add: assms(5))
  then have no: "\<not> on_item (threads u t) f" for t using on_item_phase [OF i(1), of t f] by auto
  have "filled ?u = filled u" by (rule outside_filled [OF assms(3), of c]) (use assms(5) in \<open>simp_all add: step_defs\<close>)
  then show ?thesis
    by (intro call_sim_state [OF assms(4), where c = c and pc = Returned and p = f and x = WorkItemFree])
      (use sim_restD [OF s(4)] w no assms(5) in \<open>auto simp: step_defs split: if_splits\<close>)
qed

text \<open>A call makes the item that it has filled ready.\<close>

lemma ready_sim:
  assumes "0 < Q" "pool_inv P args N b0 ph u" "sim Q u r"
    "callers u c = SetReady p ws f \<and> pc = NextItem ws f \<and> m = EnqueueMutex u \<or> callers u c = KeySetReady p \<and> pc = Returned \<and> m = None"
  shows "sim Q (goto_call c pc (set_item p ((item u p)\<lparr>State := WorkItemReady\<rparr>) (u\<lparr>EnqueueMutex := m\<rparr>)))
    (goto_call c (ring_pc Q pc) (set_item (p mod Q) ((item r (p mod Q))\<lparr>State := WorkItemReady\<rparr>) (r\<lparr>EnqueueMutex := m\<rparr>)))" (is "sim Q ?u ?r")
proof -
  have h: "holds_lock (callers u c)" using assms(4) by auto
  note l = locked_facts [OF assms(2) h]
  note i = pool_invD [OF assms(2)]
  note s = simD [OF assms(3)]
  have f: "EnqueuePosition u = Suc p" "ready_to u = p" "filled u = Suc p" using l(3,4) locked_filled [OF assms(2) h] assms(4) by auto
  have no: "\<not> on_item (threads u t) p" for t
    using on_item_phase [OF i(1), of t p] phase_before_ready(2) [OF i(1), of p] f(2) by auto
  have "filled ?u = filled u" using f l(2) assms(4) by (auto simp: ring_simps)
  then show ?thesis
    by (intro call_sim_state [OF assms(3), where c = c and pc = pc and p = p and x = WorkItemReady])
      (use sim_restD [OF s(4)] f no assms(1,4) l(2) in \<open>auto simp: step_defs split: if_splits\<close>)
qed


lemma ring_pc_Outside [simp]: "ring_pc Q pc = Outside \<longleftrightarrow> pc = Outside"
  by (cases pc) simp_all

lemma ring_pc_Returned [simp]: "ring_pc Q pc = Returned \<longleftrightarrow> pc = Returned"
  by (cases pc) simp_all

text \<open>Steps that change no item.\<close>

lemma quiet_sim:
  assumes "sim Q u r" "filled u' = filled u" "EnqueuePosition r' = EnqueuePosition u' mod Q" "EnqueueMutex r' = EnqueueMutex u'"
    "DequeuePosition u' = DequeuePosition u" "DequeuePosition r' = DequeuePosition r" "DequeueMutex u' = DequeueMutex u" "DequeueMutex r' = DequeueMutex r"
    "buffers r' = buffers u'" "threads u' = threads u" "threads r' = threads r" "callers u' = (callers u)(c := pc)" "callers r' = (callers r)(c := ring_pc Q pc)"
    "WorkItemQueue u' = WorkItemQueue u" "WorkItemQueue r' = WorkItemQueue r" "first_item pc = first_item (callers u c)"
  shows "sim Q u' r'"
proof (rule call_sim_keep [OF assms(1-13)])
  show "sim_firsts Q u' r'"
    by (rule sim_firsts_less [OF simD(2) [OF assms(1)]]) (use assms(12,14-16) in \<open>auto split: if_splits\<close>)
qed (use assms(14,15) in simp_all)

lemma do_work_sim:
  assumes "0 < N" "0 < Q" "pool_inv P args N b0 ph u" "sim Q u r" "args c = DoWork type un n ci"
    "do_work_step type ci (call_fragments N (args c)) (ring_next Q) c r = Some r'"
  shows "\<exists>u'. do_work_step type ci (call_fragments N (args c)) Suc c u = Some u' \<and> sim Q u' r'"
proof -
  note s = simD [OF assms(4)]
  note rest = sim_restD [OF s(4)]
  note i = pool_invD [OF assms(3)]
  note st = assms(6) [unfolded do_work_step_def rest(5)]
  show ?thesis
  proof (cases "callers u c")
    case (CheckFirst f)
    have h: "holds_lock (callers u c)" using CheckFirst by simp
    have "f = ready_to u" using locked_facts(3,4) [OF assms(3) h] CheckFirst by simp
    then have f: "State (item u f) = WorkItemFree" using inv_statesD(1) [OF i(4)] by simp
    have R: "State (item r (f mod Q)) = WorkItemFree" using st CheckFirst by (simp split: if_splits)
    show ?thesis
      using count_set_sim [OF assms(1-4) CheckFirst R] st CheckFirst f R by (auto simp: do_work_step_def)
  next
    case (NextItem ws f)
    have h: "holds_lock (callers u c)" using NextItem by simp
    note l = locked_facts [OF assms(3) h]
    show ?thesis
    proof (cases "ws = []")
      case True
      have "sim Q (goto_call c (WaitCompleted f) (u\<lparr>EnqueueMutex := None\<rparr>)) (goto_call c (WaitCompleted (f mod Q)) (r\<lparr>EnqueueMutex := None\<rparr>))"
        by (rule quiet_sim [OF assms(4), where c = c and pc = "WaitCompleted f"])
          (use rest l(2) NextItem in \<open>simp_all add: ring_simps\<close>)
      then show ?thesis using st NextItem True by (simp add: do_work_step_def)
    next
      case False
      have "sim Q (goto_call c (WaitFree (EnqueuePosition u) ws f) (u\<lparr>EnqueuePosition := Suc (EnqueuePosition u)\<rparr>))
        (goto_call c (WaitFree (EnqueuePosition r) ws (f mod Q)) (r\<lparr>EnqueuePosition := ring_next Q (EnqueuePosition r)\<rparr>))"
        by (rule quiet_sim [OF assms(4), where c = c and pc = "WaitFree (EnqueuePosition u) ws f"])
          (use rest l(2) NextItem ring_next_mod [OF assms(2)] in \<open>simp_all add: ring_simps\<close>)
      then show ?thesis using st NextItem False by (simp add: do_work_step_def)
    qed
  next
    case (WaitFree p ws f)
    have h: "holds_lock (callers u c)" using WaitFree by simp
    note l = locked_facts [OF assms(3) h]
    have p: "filled u = p" "ready_to u = p" "EnqueuePosition u = Suc p" using l(3,4) locked_filled [OF assms(3) h] WaitFree by simp_all
    have f: "State (item u p) = WorkItemFree" using inv_statesD(1) [OF i(4)] p by simp
    have R: "State (item r (p mod Q)) = WorkItemFree" using st WaitFree by (simp split: if_splits)
    let ?w = "\<lambda>w g. w\<lparr>ItemType := type, FirstFragment := g, CryptoInfo := ci, Buffer := c, Encryption := hd ws\<rparr>"
    have "sim Q (goto_call c (SetReady p (tl ws) f) (set_item p (?w (item u p) f) u))
      (goto_call c (SetReady (p mod Q) (tl ws) (f mod Q)) (set_item (p mod Q) (?w (item r (p mod Q)) (f mod Q)) r))"
      by (rule call_sim_fill [OF assms(1-4) p(1,2) _ R, where c = c and pc = "SetReady p (tl ws) f" and w = "?w (item u p) f" and w' = "?w (item r (p mod Q)) (f mod Q)"])
        (use rest l(2) WaitFree p(3) R f in \<open>simp_all add: ring_simps same_item_def\<close>)
    then show ?thesis using st WaitFree R f by (simp add: do_work_step_def)
  next
    case (SetReady p ws f)
    have "u\<lparr>EnqueueMutex := EnqueueMutex u\<rparr> = u" "r\<lparr>EnqueueMutex := EnqueueMutex u\<rparr> = r" using rest(3) [symmetric] by simp_all
    then show ?thesis
      using ready_sim [OF assms(2-4), of c p ws f "NextItem ws f" "EnqueueMutex u"] st SetReady by (simp add: do_work_step_def)
  next
    case (WaitCompleted f)
    have R: "ItemCompletedEvent (item r (f mod Q))" using st WaitCompleted by (simp split: if_splits)
    show ?thesis using completed_sim [OF assms(1-4) WaitCompleted R] st WaitCompleted R by (simp add: do_work_step_def)
  next
    case (FreeFirst f)
    show ?thesis using free_first_sim [OF assms(1-4) FreeFirst] st FreeFirst by (simp add: do_work_step_def)
  qed (use st in simp_all)
qed

lemma begin_work_sim:
  assumes "0 < N" "0 < Q" "pool_inv P args N b0 ph u" "sim Q u r" "\<not> data_units type" "begin_work_step type c r = Some r'"
  shows "\<exists>u'. begin_work_step type c u = Some u' \<and> sim Q u' r'"
proof -
  note s = simD [OF assms(4)]
  note rest = sim_restD [OF s(4)]
  note i = pool_invD [OF assms(3)]
  note st = assms(6) [unfolded begin_work_step_def rest(5)]
  show ?thesis
  proof (cases "callers u c")
    case (KeyWaitFree p)
    have h: "holds_lock (callers u c)" using KeyWaitFree by simp
    note l = locked_facts [OF assms(3) h]
    have p: "filled u = p" "ready_to u = p" "EnqueuePosition u = Suc p" using l(3,4) locked_filled [OF assms(3) h] KeyWaitFree by simp_all
    have f: "State (item u p) = WorkItemFree" using inv_statesD(1) [OF i(4)] p by simp
    have R: "State (item r (p mod Q)) = WorkItemFree" using st KeyWaitFree by (simp split: if_splits)
    have "sim Q (goto_call c (KeySetReady p) (set_item p ((item u p)\<lparr>ItemType := type\<rparr>) u))
      (goto_call c (KeySetReady (p mod Q)) (set_item (p mod Q) ((item r (p mod Q))\<lparr>ItemType := type\<rparr>) r))"
      by (rule call_sim_fill [OF assms(1-4) p(1,2) _ R, where c = c and pc = "KeySetReady p" and
          w = "(item u p)\<lparr>ItemType := type\<rparr>" and w' = "(item r (p mod Q))\<lparr>ItemType := type\<rparr>"])
        (use rest l(2) KeyWaitFree p(3) R f assms(5) in \<open>simp_all add: ring_simps same_item_def\<close>)
    then show ?thesis using st KeyWaitFree R f by (simp add: begin_work_step_def)
  next
    case (KeySetReady p)
    show ?thesis using ready_sim [OF assms(2-4), of c p _ _ Returned None] st KeySetReady by (simp add: begin_work_step_def)
  qed (use st in simp_all)
qed

lemma enter_filled: "EnqueueMutex u = None \<Longrightarrow> filled u = EnqueuePosition u"
  by (simp add: filled_def filled_of_def)

lemma call_sim:
  assumes "0 < N" "0 < Q" "calls_ok args" "pool_inv P args N b0 ph u" "sim Q u r" "call_step P args N (ring_next Q) c r = Some r'"
  shows "\<exists>u'. call_step P args N Suc c u = Some u' \<and> sim Q u' r'"
proof -
  note s = simD [OF assms(5)]
  note rest = sim_restD [OF s(4)]
  note st = assms(6) [unfolded call_step_def rest(5) rest(7)]
  show ?thesis
  proof (cases "args c")
    case (DoWork type un n ci)
    show ?thesis
    proof (cases "callers u c = Outside")
      case True
      have nl: "\<not> holds_lock (callers u c)" using True by simp
      have ret: "sim Q (goto_call c Returned (u\<lparr>buffers := b\<rparr>)) (goto_call c Returned (r\<lparr>buffers := b\<rparr>))" (is "sim Q ?u ?r") for b
      proof -
        have "filled ?u = filled u" by (rule outside_filled [OF assms(4) nl]) (simp_all add: step_defs)
        then show ?thesis
          by (rule quiet_sim [OF assms(5), where c = c and pc = Returned]) (use rest True in \<open>simp_all add: step_defs\<close>)
      qed
      consider "n = 0" | "n = 1" | "2 \<le> n" by linarith
      then show ?thesis
      proof cases
        case 1
        have "u\<lparr>buffers := buffers u\<rparr> = u" "r\<lparr>buffers := buffers u\<rparr> = r" using rest(7) [symmetric] by simp_all
        then show ?thesis using ret [of "buffers u"] st DoWork True 1 by (simp add: call_step_def)
      next
        case 2
        then show ?thesis using ret st DoWork True rest(7) by (auto simp: call_step_def)
      next
        case 3
        then have m: "EnqueueMutex u = None" using st DoWork True rest(3) by (simp split: if_splits)
        have "sim Q (goto_call c (CheckFirst (EnqueuePosition u)) (u\<lparr>EnqueueMutex := Some c\<rparr>))
          (goto_call c (CheckFirst (EnqueuePosition r)) (r\<lparr>EnqueueMutex := Some c\<rparr>))"
          by (rule quiet_sim [OF assms(5), where c = c and pc = "CheckFirst (EnqueuePosition u)"])
            (use rest True m in \<open>simp_all add: ring_simps\<close>)
        then show ?thesis using st DoWork True rest(3) m 3 by (simp add: call_step_def)
      qed
    next
      case False
      then show ?thesis using do_work_sim [OF assms(1,2,4,5) DoWork, of r'] st DoWork by (simp add: call_step_def)
    qed
  next
    case (BeginWork type)
    have u: "\<not> data_units type" using assms(3) BeginWork unfolding calls_ok_def by (metis call.simps(6))
    show ?thesis
    proof (cases "callers u c = Outside")
      case True
      then have m: "EnqueueMutex u = None" using st BeginWork rest(3) by (simp split: if_splits)
      have "sim Q (goto_call c (KeyWaitFree (EnqueuePosition u)) (u\<lparr>EnqueueMutex := Some c, EnqueuePosition := Suc (EnqueuePosition u)\<rparr>))
        (goto_call c (KeyWaitFree (EnqueuePosition r)) (r\<lparr>EnqueueMutex := Some c, EnqueuePosition := ring_next Q (EnqueuePosition r)\<rparr>))"
        by (rule quiet_sim [OF assms(5), where c = c and pc = "KeyWaitFree (EnqueuePosition u)"])
          (use rest True m ring_next_mod [OF assms(2)] in \<open>simp_all add: ring_simps\<close>)
      then show ?thesis using st BeginWork True rest(3) m by (simp add: call_step_def)
    next
      case False
      then show ?thesis using begin_work_sim [OF assms(1,2,4,5) u, of c r'] st BeginWork by (simp add: call_step_def)
    qed
  qed
qed

section \<open>Refinement\<close>

lemma pool_start_sim: "0 < Q \<Longrightarrow> sim Q (pool_start w b) (pool_start w b)"
  by (simp add: sim_def sim_items_def sim_firsts_def sim_busy_def sim_rest_def pool_start_def filled_def filled_of_def)

lemma ring_refines:
  assumes "0 < N" "0 < Q" "calls_ok args" "pool_reach P args N (ring_next Q) (pool_start w b0) r"
  shows "\<exists>u ph. pool_reach P args N Suc (pool_start w b0) u \<and> pool_inv P args N b0 ph u \<and> sim Q u r"
  using assms(4)
proof (induction rule: pool_reach.induct)
  case reach_start
  show ?case using pool_reach.reach_start pool_start_inv pool_start_sim [OF assms(2)] by blast
next
  case (reach_call s c s')
  then obtain u ph where u: "pool_reach P args N Suc (pool_start w b0) u" "pool_inv P args N b0 ph u" "sim Q u s" by blast
  obtain u' where u': "call_step P args N Suc c u = Some u'" "sim Q u' s'" using call_sim [OF assms(1-3) u(2,3) reach_call(2)] by blast
  then show ?case using pool_reach.reach_call [OF u(1) u'(1)] call_step_inv [OF assms(1,3) u(2) u'(1)] by blast
next
  case (reach_thread s t s')
  then obtain u ph where u: "pool_reach P args N Suc (pool_start w b0) u" "pool_inv P args N b0 ph u" "sim Q u s" by blast
  obtain u' where u': "thread_step P Suc t u = Some u'" "sim Q u' s'" using thread_sim [OF assms(1,2) u(2,3) reach_thread(2)] by blast
  then show ?case using pool_reach.reach_thread [OF u(1) u'(1)] thread_step_inv [OF assms(1) u(2) u'(1)] by blast
qed

text \<open>No two workers have the same item.\<close>

lemma ring_one_worker:
  assumes "pool_inv P args N b0 ph u" "sim Q u r" "on_item (threads r t) i" "on_item (threads r t') i"
  shows "t = t'"
proof -
  note inv = pool_invD [OF assms(1)]
  have item: "\<exists>p. on_item (threads u t) p \<and> p mod Q = i" if "on_item (threads r t) i" for t
    using that sim_restD(6) [OF simD(4) [OF assms(2)], of t] by (cases "threads u t") auto
  obtain p q where p: "on_item (threads u t) p" "p mod Q = i" and q: "on_item (threads u t') q" "q mod Q = i"
    using item [OF assms(3)] item [OF assms(4)] by blast
  note lp = live_item [OF assms(1,2) phase_live [OF inv(1) p(1)]]
  note lq = live_item [OF assms(1,2) phase_live [OF inv(1) q(1)]]
  have "p = q" using mod_window [OF lp(1,2) lq(1,2)] p(2) q(2) by simp
  then show ?thesis using one_worker [OF inv(1) p(1)] q(1) by simp
qed

end
