(* ===== verification/QueueLive.thy ===== *)
theory QueueLive
  imports QueueRing
begin

text \<open>
  The pool does not get stuck: as long as a call has started and not returned, a worker, or a call that has started, can go on.
\<close>

definition calls_ready :: "primitives \<Rightarrow> (nat \<Rightarrow> call) \<Rightarrow> (nat \<Rightarrow> bytes) \<Rightarrow> bool" where
  "calls_ready P args b0 \<longleftrightarrow>
     (\<forall>c type u n ci. args c = DoWork type u n ci \<longrightarrow> (\<exists>key key2. info_ready P key key2 ci) \<and> length (b0 c) = n * ENCRYPTION_DATA_UNIT_SIZE)"

section \<open>Workers\<close>

lemma processed_length:
  assumes "primitives_ok P" "info_ready P key key2 ci" "data_units type" "\<And>w. w \<in> set ws \<Longrightarrow> Data w + 512 * UnitCount w \<le> length b"
    "foldl (\<lambda>b w. Option.bind b (process_fragment P type ci w)) (Some b) ws = Some b'"
  shows "length b' = length b"
  using assms(4,5)
proof (induction ws arbitrary: b)
  case (Cons w ws)
  let ?g = "unitwise.transform (units_spec P type (ea_ciphers (ea ci)) key key2) w b"
  have "process_fragment P type ci w b = Some ?g"
    by (rule process_fragment_transform [OF assms(1,2) _ assms(3)]) (use Cons.prems(1) in simp)
  moreover have "length ?g = length b"
    using unitwise.transform_facts(1) [OF unitwise_units [OF assms(1,2)], of w b] Cons.prems(1) by simp
  ultimately show ?case using Cons.IH [of ?g] Cons.prems by simp
qed simp

lemma fragment_bounds:
  assumes "primitives_ok P" "info_ready P key key2 ci" "0 < N" "w \<in> set (work_fragments N u n)"
  shows "Data w + 512 * UnitCount w \<le> n * ENCRYPTION_DATA_UNIT_SIZE"
  using unitwise.tiles_bounds [OF unitwise_units [OF assms(1,2)] work_fragments_tile(1) [OF assms(3)] assms(4)] work_fragments_tile(2) [OF assms(3), of u n]
  by (simp add: ENCRYPTION_DATA_UNIT_SIZE_def)

text \<open>A worker can process its fragment.\<close>

lemma fragment_processed:
  assumes "primitives_ok P" "0 < N" "calls_ready P args b0" "pool_inv P args N b0 ph u" "ph p \<noteq> PNew" "ph p \<noteq> PDone" "data_units (ItemType (item u p))"
  shows "\<exists>b. process_fragment P (ItemType (item u p)) (CryptoInfo (item u p)) (Encryption (item u p)) (buffers u (Buffer (item u p))) = Some b"
proof -
  note i = pool_invD [OF assms(4)]
  obtain f st n where w: "first_item (callers u (Buffer (item u p))) = Some f" "p \<in> request args N (Buffer (item u p)) f"
    "args (Buffer (item u p)) = DoWork (ItemType (item u p)) st n (CryptoInfo (item u p))"
    "Encryption (item u p) = call_fragments N (args (Buffer (item u p))) ! (p - f)"
    by (rule worker_item [OF assms(4-7)])
  let ?c = "Buffer (item u p)" and ?ci = "CryptoInfo (item u p)" and ?type = "ItemType (item u p)"
  obtain key key2 where r: "info_ready P key key2 ?ci" "length (b0 ?c) = n * ENCRYPTION_DATA_UNIT_SIZE"
    using assms(3) w(3) unfolding calls_ready_def by blast
  obtain ws where ws: "mset ws = image_mset (\<lambda>v. call_fragments N (args ?c) ! (v - f)) (mset_set {v \<in> request args N ?c f. was_processed (ph v)})"
    "foldl (\<lambda>b w. Option.bind b (process_fragment P ?type ?ci w)) (Some (b0 ?c)) ws = Some (buffers u ?c)"
    using inv_buffersD(1) [OF i(6) w(1)] w(3) by (auto simp: processed_as_def)
  have nth: "call_fragments N (args ?c) ! (v - f) \<in> set (work_fragments N st n)" if "v \<in> request args N ?c f" for v
  proof -
    have "v - f < length (work_fragments N st n)" using that w(3) by (auto simp: request_def)
    then show ?thesis using w(3) by simp
  qed
  have b: "Data x + 512 * UnitCount x \<le> length (b0 ?c)" if "x \<in> set (work_fragments N st n)" for x
    using fragment_bounds [OF assms(1) r(1) assms(2) that] r(2) by simp
  have "x \<in> set (work_fragments N st n)" if "x \<in> set ws" for x
  proof -
    have "x \<in> set_mset (image_mset (\<lambda>v. call_fragments N (args ?c) ! (v - f)) (mset_set {v \<in> request args N ?c f. was_processed (ph v)}))"
      using that unfolding ws(1) [symmetric] by simp
    then show ?thesis using nth by auto
  qed
  then have "length (buffers u ?c) = length (b0 ?c)" by (intro processed_length [OF assms(1) r(1) assms(7) _ ws(2)] b)
  then show ?thesis
    using process_fragment_transform [OF assms(1) r(1) _ assms(7), of "Encryption (item u p)" "buffers u ?c"] b nth [OF w(2)] w(4) by simp
qed

lemma worker_goes_on:
  assumes "primitives_ok P" "0 < N" "calls_ready P args b0" "pool_inv P args N b0 ph u" "sim Q u r" "on_item (threads u t) p"
  shows "thread_step P (ring_next Q) t r \<noteq> None"
proof -
  note i = pool_invD [OF assms(4)]
  note ph = phase_live [OF i(1) assms(6)]
  note rest = sim_restD [OF simD(4) [OF assms(5)]]
  have s: "same_item Q (item r (p mod Q)) (item u p)" by (rule live_item(3) [OF assms(4,5) ph])
  show ?thesis
  proof (cases "threads u t")
    case (Working q)
    then have q: "q = p" using assms(6) by simp
    show ?thesis
      using fragment_processed [OF assms(1-4) ph] s rest(6) [of t] rest(7) Working q by (auto simp: thread_step_def finish_step_def same_item_def)
  qed (use assms(6) rest(6) [of t] in \<open>simp_all add: thread_step_def finish_step_def Let_def\<close>)
qed

section \<open>Some step is possible\<close>

text \<open>When no worker can go on, everything ready has been done.\<close>

lemma no_worker_all_done:
  assumes "primitives_ok P" "0 < N" "0 < Q" "calls_ready P args b0" "pool_inv P args N b0 ph u" "sim Q u r"
    "\<And>t. t = 0 \<or> threads r t \<noteq> Waiting \<Longrightarrow> thread_step P (ring_next Q) t r = None" "v < ready_to u"
  shows "ph v = PDone"
proof -
  note i = pool_invD [OF assms(5)]
  note s = simD [OF assms(6)]
  note rest = sim_restD [OF s(4)]
  have off: "\<not> on_item (threads u t) p" for t p
  proof
    assume o: "on_item (threads u t) p"
    then have "threads r t \<noteq> Waiting" using rest(6) [of t] by (cases "threads u t") auto
    then show False using assms(7) [of t] worker_goes_on [OF assms(1,2,4-6) o] by simp
  qed
  have fin: "ph w = PDone" if "w < started_to u" for w
    using that off idle_done [OF i(1), of w] by (simp add: idle_def)
  obtain t where t: "DequeueMutex u = Some t"
  proof (cases "DequeueMutex u")
    case None
    have "threads u 0 \<noteq> Holding p" for p using inv_threads_phase(7) [OF i(1), of 0] None by auto
    then have "threads u 0 = Waiting" using off [of 0] by (cases "threads u 0") auto
    then have "thread_step P (ring_next Q) 0 r \<noteq> None" using rest(4) rest(6) [of 0] None by (simp add: thread_step_def finish_step_def)
    then show ?thesis using assms(7) [of 0] by simp
  qed (use that in blast)
  then obtain p where p: "threads u t = Holding p" using inv_threads_phase(7) [OF i(1), of t] by blast
  then have d: "DequeuePosition u = Suc p" by (rule inv_threads_phase(8) [OF i(1)])
  then have st: "started_to u = p" using t by (simp add: started_to_def)
  have "\<not> p < ready_to u"
  proof
    assume lt: "p < ready_to u"
    have n: "ph p = PNew" using inv_threads_phase(5) [OF i(1), of p] st by simp
    have a: "p < filled u" using lt ready_filled(1) [OF i(2)] by simp
    have "\<not> idle u p" using idle_done [OF i(1)] n by simp
    then have b: "filled u \<le> p + Q" using sim_itemsD(2) [OF s(1), of p] by fastforce
    have "State (item r (p mod Q)) = WorkItemReady"
      using sim_itemsD(1) [OF s(1) a b] inv_statesD(2) [OF i(4) lt n] by (simp add: same_item_def)
    then have "thread_step P (ring_next Q) t r \<noteq> None" using p rest(6) [of t] by (simp add: thread_step_def finish_step_def)
    moreover have "threads r t \<noteq> Waiting" using p rest(6) [of t] by simp
    ultimately show False using assms(7) [of t] by simp
  qed
  then show ?thesis using fin assms(8) st by simp
qed

text \<open>A call that waits for its event gets it when its items are done.\<close>

lemma waiting_call_goes_on:
  assumes "0 < N" "pool_inv P args N b0 ph u" "sim Q u r" "\<And>v. v < ready_to u \<Longrightarrow> ph v = PDone"
    "callers u c = WaitCompleted f \<or> callers u c = FreeFirst f"
  shows "call_step P args N (ring_next Q) c r \<noteq> None"
proof -
  note i = pool_invD [OF assms(2)]
  note s = simD [OF assms(3)]
  note rest = sim_restD [OF s(4)]
  have sh: "enough (args c)" "f + length (call_fragments N (args c)) \<le> ready_to u"
    using inv_callsD(2) [OF i(2), of c] assms(5) by auto
  then obtain type st n ci where a: "args c = DoWork type st n ci" by (auto simp: enough_def)
  show ?thesis
  proof (cases "callers u c = FreeFirst f")
    case True
    then show ?thesis using rest(5) [of c] a by (simp add: call_step_def do_work_step_def)
  next
    case False
    then have w: "callers u c = WaitCompleted f" using assms(5) by simp
    have "ph v = PDone" if "v \<in> request args N c f" for v
      by (rule assms(4)) (use that sh(2) in \<open>simp add: request_def\<close>)
    then have "ItemCompletedEvent (item u f)" using inv_countsD(6) [OF i(5), of c f] w by auto
    then have "ItemCompletedEvent (item r (f mod Q))" using sim_firstsD(2) [OF s(2)] by blast
    then show ?thesis using rest(5) [of c] a w by (simp add: call_step_def do_work_step_def)
  qed
qed

text \<open>The slot a call waits for is free, or its last user is a call that can go on.\<close>

lemma waited_slot:
  assumes "0 < N" "0 < Q" "pool_inv P args N b0 ph u" "sim Q u r" "\<And>v. v < ready_to u \<Longrightarrow> ph v = PDone" "q = filled u" "q = ready_to u"
    "State (item r (q mod Q)) \<noteq> WorkItemFree"
  obtains c where "first_item (callers u c) = Some (q - Q)" "Q \<le> q"
proof -
  note i = pool_invD [OF assms(3)]
  note s = simD [OF assms(4)]
  have q: "Q \<le> q"
  proof (rule ccontr)
    assume "\<not> Q \<le> q"
    then show False using sim_itemsD(4) [OF s(1), of q] assms(6,8) by simp
  qed
  let ?v = "q - Q"
  have v: "?v < filled u" "filled u \<le> ?v + Q" "?v mod Q = q mod Q" "?v < ready_to u" using q assms(2,6,7) by (simp_all add: le_mod_geq)
  have "State (item u ?v) \<noteq> WorkItemFree" using sim_itemsD(1) [OF s(1) v(1,2)] v(3) assms(8) by (simp add: same_item_def)
  moreover have "let_go (ph ?v)" using assms(5) [OF v(4)] by simp
  ultimately show thesis using inv_statesD(5) [OF i(4)] that q by blast
qed

lemma pool_not_stuck:
  assumes "primitives_ok P" "0 < N" "N \<le> Q" "calls_ok args" "calls_ready P args b0" "pool_inv P args N b0 ph u" "sim Q u r"
    "callers r c0 \<noteq> Outside" "callers r c0 \<noteq> Returned"
  shows "(\<exists>c. callers r c \<noteq> Outside \<and> call_step P args N (ring_next Q) c r \<noteq> None) \<or>
    (\<exists>t. (t = 0 \<or> threads r t \<noteq> Waiting) \<and> thread_step P (ring_next Q) t r \<noteq> None)"
proof (rule ccontr)
  assume neg: "\<not> ?thesis"
  have Q: "0 < Q" using assms(2,3) by simp
  note i = pool_invD [OF assms(6)]
  note s = simD [OF assms(7)]
  note rest = sim_restD [OF s(4)]
  have fin: "ph v = PDone" if "v < ready_to u" for v
    by (rule no_worker_all_done [OF assms(1,2) Q assms(5-7) _ that]) (use neg in blast)
  have stuck: "call_step P args N (ring_next Q) c r = None" if "callers u c \<noteq> Outside" for c
    using neg that rest(5) [of c] ring_pc_Outside by metis
  have nowait: "callers u c \<noteq> WaitCompleted f" "callers u c \<noteq> FreeFirst f" for c f
    using waiting_call_goes_on [OF assms(2,6,7) fin, of c f] stuck [of c] by auto
  have c0: "callers u c0 \<noteq> Outside" "callers u c0 \<noteq> Returned" using assms(8,9) rest(5) [of c0] by auto
  obtain q where q: "callers u c0 = CheckFirst q \<or> (\<exists>ws f. callers u c0 = WaitFree q ws f) \<or> callers u c0 = KeyWaitFree q"
    "State (item r (q mod Q)) \<noteq> WorkItemFree"
  proof (cases "args c0")
    case (DoWork type st n ci)
    then have n: "do_work_step type ci (call_fragments N (args c0)) (ring_next Q) c0 r = None"
      using stuck [OF c0(1)] rest(5) [of c0] c0(1) by (simp add: call_step_def)
    show ?thesis
      using n rest(5) [of c0] c0 nowait [of c0] that inv_callsD(2) [OF i(2), of c0] DoWork
      by (cases "callers u c0") (auto simp: do_work_step_def begins_def split: if_splits)
  next
    case (BeginWork type)
    then have "begin_work_step type c0 r = None"
      using stuck [OF c0(1)] rest(5) [of c0] c0(1) by (simp add: call_step_def)
    then show ?thesis
      using rest(5) [of c0] c0 nowait [of c0] that inv_callsD(2) [OF i(2), of c0] BeginWork
      by (cases "callers u c0") (auto simp: begin_work_step_def enough_def split: if_splits)
  qed
  have h: "holds_lock (callers u c0)" using q(1) by auto
  note l = locked_facts [OF assms(6) h]
  have f: "q = filled u" "q = ready_to u" using q(1) l(3,4) locked_filled [OF assms(6) h] by auto
  from waited_slot [OF assms(2) Q assms(6,7) fin f q(2)] obtain c where c: "first_item (callers u c) = Some (q - Q)" "Q \<le> q" by blast
  show False
  proof (cases "c = c0")
    case True
    then obtain ws where w: "callers u c0 = WaitFree q ws (q - Q)" using c(1) q(1) by auto
    then have sh: "enough (args c0)" "q < q - Q + length (call_fragments N (args c0))" using l(3) by simp_all
    then have "length (call_fragments N (args c0)) \<le> N" using work_fragments_tile(4) [OF assms(2)] by (auto simp: enough_def)
    then show False using sh(2) c(2) assms(3) by simp
  next
    case False
    then have "\<not> holds_lock (callers u c)" using inv_callsD(1) [OF i(2), of c] l(2) by auto
    then show False using c(1) nowait [of c] by (cases "callers u c") auto
  qed
qed

end
