(* ===== verification/Spec2Isabelle.thy ===== *)
theory Spec2Isabelle
  imports KeyslotTable AtomicHeader HeaderBackup KeyslotAreaMac VolumeLabel HkfOrSet V2Format ShamirMac Codex32 DuressToken HeaderSearch Hctr2 Adiantum XtsCorrect PoolOrder PimCosts QueueLive
begin

text \<open>
  Verification of the key-derivation, key-storage, sector-encryption and volume-header layers of a hardened VeraCrypt fork, from its C sources
  (paths below are relative to \<open>src/src/\<close>; the manifest maps every definition to its lines).

  \<^bold>\<open>The program.\<close> A volume starts with a 512-byte header whose first 64 bytes are a salt and whose rest is
  encrypted under a key derived from the password. \<open>Common/Volumes.c\<close> creates and reads it: the password, with the response of an
  optional hardware factor mixed in (\<open>Common/HardwareKeyFactor.c\<close>, \<open>Common/HkfOrSet.c\<close>), goes through one of nine PRFs
  (\<open>Common/Pkcs5.c\<close>); the derived key sets up a cascade of block ciphers (\<open>Common/Crypto.c\<close>) in XTS mode
  (\<open>Common/Xts.c\<close>), and two CRCs (\<open>Common/Crc.c\<close>) tell whether the decryption is a header. The master keys in it
  encrypt the data units, which a pool of threads shares out (\<open>Common/EncryptionThreadPool.c\<close>). The fork adds, next to this:
  key slots in the slack of the header (\<open>Common/Keyslot.c\<close>, \<open>KeyslotStore.c\<close>, \<open>KeyslotAreaFile.c\<close>,
  \<open>KeyslotAreaMac.c\<close>, \<open>AfSplit.c\<close>), atomic header updates (\<open>AtomicHeader.c\<close>), header backups
  (\<open>HeaderBackup.c\<close>), encrypted labels (\<open>VolumeLabel.c\<close>), secret sharing with transcribable shares
  (\<open>Shamir.c\<close>, \<open>ShamirMac.c\<close>, \<open>ShareCode.c\<close>), duress tokens (\<open>DuressToken.c\<close>), a sector format with
  authentication tags (\<open>V2Format.c\<close>), wide-block modes (\<open>Crypto/Hctr2.c\<close>, \<open>Crypto/Adiantum.c\<close>,
  \<open>Crypto/Poly1305.c\<close>, over \<open>Crypto/AesCt.c\<close> and \<open>Crypto/chacha256.c\<close>), and hygiene of keys in memory
  (\<open>Common/KeyScrub.c\<close>, which derives its masks with \<open>Crypto/t1ha2.c\<close> and \<open>Crypto/chachaRng.c\<close>).

  \<^bold>\<open>Conventions\<close> (\<open>Prelude\<close>). A byte is \<open>8 word\<close>, a C integer that can wrap a word of its width, a buffer
  a list of bytes. Writing through a pointer returns the buffer written, by \<open>store_at\<close>; \<open>slice\<close> reads. A C structure is a
  record with the fields of the source, an error code an integer with the name and value of the source. \<open>'a ptr\<close> is an option whose \<open>None\<close>
  is the null pointer. A result of type option is \<open>None\<close> where the code throws a fatal exception. Random numbers, key derivation functions, tokens and kernel calls are
  arguments. Loops over arrays are folds or structural recursion; the two searches that count downwards carry a termination proof, and no fuel is used anywhere.

  \<^bold>\<open>Theories and code.\<close>
  \<^item> Hashes and ciphers: \<open>Sha256\<close> (\<open>Crypto/Sha2.c\<close>), \<open>Hmac\<close> (the HMAC each file of the fork repeats; the locale
    \<open>stream_hash\<close> is the contract of a streaming hash), \<open>ChaCha\<close>, \<open>ChaChaRng\<close>, \<open>T1ha\<close>, \<open>Crc\<close>,
    \<open>AesCt\<close> (interpretation of the locale \<open>block_cipher\<close> of \<open>BlockCipher\<close>), \<open>Polyval\<close>, \<open>Hctr2\<close>,
    \<open>Poly1305\<close> with \<open>Poly1305Correct\<close>, \<open>Adiantum\<close>, \<open>Xts\<close> with \<open>XtsCorrect\<close>.
    Lemmas: the code computes the published function (FIPS 180-4, RFC 2104, RFC 8439, POLYVAL's field, the XTS of IEEE 1619), and modes are
    inverse for any block permutation.
  \<^item> Key slots: \<open>AfSplit\<close>, \<open>Keyslot\<close> (wrapping), \<open>KeyslotArea\<close> (the medium; locale \<open>byte_area\<close>, interpreted
    on the window of a file), \<open>KeyslotStore\<close> (the table and its operations, serial and parallel scans, policy, shredding),
    \<open>KeyslotTable\<close> (their lemmas), \<open>KeyslotAreaMac\<close>. Lemmas: what a slot opens to, that the branch-free scan is a search for the first slot
    that opens, what each operation leaves of the other slots.
  \<^item> Header services: \<open>AtomicHeader\<close> (the update discipline of the comment is a step relation with torn writes; invariant by rule induction),
    \<open>HeaderBackup\<close>, \<open>VolumeLabel\<close>, \<open>V2Format\<close>, \<open>DuressToken\<close>.
  \<^item> Factors and memory: \<open>HardwareKeyFactor\<close>, \<open>HkfOrSet\<close>, \<open>KeyScrub\<close> (the registry refines a finite map).
  \<^item> Sharing: \<open>Gf256\<close> (the field, as an instance of the library's type class), \<open>Lagrange\<close>, \<open>Shamir\<close>, \<open>ShamirMac\<close>,
    \<open>Bch\<close> and \<open>Lfsr\<close> (locales: burst detection of a cyclic code, and its shift register), \<open>ShareCode\<close>, \<open>Codex32\<close>.
  \<^item> Volumes: \<open>Crypto\<close> (tables of ciphers, algorithms and hashes, the walks over them, key setup of a cipher, with
    the block ciphers as the record \<open>primitives\<close>), \<open>CryptoInfo\<close> (\<open>CRYPTO_INFO\<close>, key setup, the cascades;
    \<open>cascade_spec\<close> is their specification), \<open>PrfParams\<close> and \<open>PimCosts\<close> (costs), \<open>ThreadPool\<close> and \<open>PoolOrder\<close> (fragments; locale
    \<open>unitwise\<close>, the contract of an encryption that goes unit by unit), \<open>Volumes\<close> (header, reading, creating),
    \<open>VolumesCorrect\<close> (layout of a created header, one algorithm), \<open>HeaderSearch\<close> (\<open>read_spec\<close>: reading is a search
    over pairs of PRF and algorithm; round trip).
  \<^item> The queue of the thread pool: \<open>WorkQueue\<close> (the ring of work items, its two locks and the program points of callers and workers as a
    step relation, for a function that advances a position), \<open>QueueInv\<close> and \<open>QueueCalls\<close> (the same steps on a queue that never
    wraps around, where every item is used once: its invariant, kept by each step of a worker and of a call), \<open>QueueRing\<close> (a forward simulation: every
    step of the ring is a step of that queue, position \<open>p\<close> being item \<open>p mod ThreadQueueSize\<close>), \<open>QueueLive\<close> (no deadlock). The number of callers and
    workers is not bounded.

  \<^bold>\<open>The properties\<close> below are numbered as in the manifest. Where a property needs something of code that is not in the
  repository or not modelled, it is a named hypothesis: \<open>primitives_ok\<close> (block ciphers decrypt what they encrypt, and schedules have their size; the witnesses use
  the modelled AES), \<open>derivations_ok\<close> and \<open>search_env\<close> (key derivations return the bytes asked for), \<open>cfg_ok\<close> (a key slot
  configuration with a KDF of fixed length).

  \<^bold>\<open>Bounds.\<close> SHA-256 messages are shorter than \<open>2^28\<close> bytes, because the code counts bits in 32; files are shorter than \<open>2^63\<close> bytes; sectors of
  the wide-block modes have 16 to 4096 bytes, as the code demands.

  \<^bold>\<open>Not modelled\<close>, with the reasons in the manifest: the Windows driver, dialogs, installer and boot loader and the C++ front ends (device and user
  I/O); third-party code (the table-driven block ciphers, the other hash functions, Argon2, compression), which the models take
  as parameters; assembler and SIMD variants; PBKDF2 and Balloon inside \<open>Pkcs5.c\<close>; encryption of keys in RAM in
  \<open>Crypto.c\<close>; the writing of headers to devices; starting and stopping the pool and the key derivations it runs; timing, and the events a waiting thread sleeps on (a waiting loop is the condition it tests).
\<close>

section \<open>A configuration and a medium to evaluate on\<close>

definition demo_cfg :: "int \<Rightarrow> unit KeyslotStoreCfg" where
  "demo_cfg pol = \<lparr>backend = KSB_HEADER, kdf = (\<lambda>p s c n. take n (p @ s @ zeros n)), cost = 1000, vmkLen = 32,
     maxSlots = 4, randBytes = (\<lambda>n g. (zeros n, g)), afStripes = 2, policy = pol\<rparr>"

definition demo_file :: KeyslotAreaFile where
  "demo_file = \<lparr>af_f = Some \<lparr>fdata = zeros 8192, fwritable = True\<rparr>, af_base = 512, af_len = 4096\<rparr>"

abbreviation file_area :: "KeyslotAreaFile \<Rightarrow> KeyslotAreaFile KeyslotArea" where
  "file_area c \<equiv> area_of ksaf_read ksaf_write ksaf_size c"

lemma slice_zeros: "slice a n (zeros m) = zeros (min n (m - a))"
  by (simp add: slice_def zeros_def)

lemma demo_good: "ksaf_good demo_file" "ksaf_contents demo_file = zeros 4096"
  by (simp_all add: ksaf_good_def ksaf_contents_def demo_file_def slice_zeros)

lemma demo_cfg_ok: "pol = 0 \<or> pol = 1 \<Longrightarrow> cfg_ok (demo_cfg pol)"
  by (auto simp: cfg_ok_def demo_cfg_def is_labeled_def rec_fits_def ct_of_def plen_of_def af_of_def)

lemma demo_cfg_simps [simp]:
  "vmkLen (demo_cfg pol) = 32" "policy (demo_cfg pol) = pol" "backend (demo_cfg pol) = KSB_HEADER"
  by (simp_all add: demo_cfg_def)

lemma demo_n_slots [simp]: "n_slots (demo_cfg pol) (file_area demo_file) = 4"
  by (simp add: n_slots_def ksaf_size_def demo_file_def demo_cfg_def)

lemma demo_free: "i < 4 \<Longrightarrow> \<not> occupied (ksaf_contents demo_file) i"
proof -
  have "zeros 4 ! 0 = 0" "VCKS ! 0 \<noteq> 0" by (simp_all add: zeros_def VCKS_def cstr_def)
  then have "zeros 4 \<noteq> VCKS" by metis
  then show "i < 4 \<Longrightarrow> \<not> occupied (ksaf_contents demo_file) i"
    by (simp add: occupied_def demo_good slice_zeros)
qed

lemma demo_some_free: "\<exists>i<4. \<not> occupied (ksaf_contents demo_file) i"
  by (intro exI [of _ 0]) (simp add: demo_free)

section \<open>Key slots\<close>

text \<open>C1. Adding a slot to a labeled table that has room, on a window of a file, succeeds; opening the slot by its
  index with the same passphrase then returns the key and the flags, and the constant-time open of the
  whole table reports a match.\<close>

theorem keyslot_add_open:
  assumes "ksaf_good c" "cfg_ok cfg" "policy cfg = 0" "length vmk = nat (vmkLen cfg)" "length payload0 = 521"
    "unat (n_slots cfg (file_area c)) \<le> 2 ^ 31"
    "\<exists>i<unat (n_slots cfg (file_area c)). \<not> occupied (ksaf_contents c) i"
    "KeyslotAdd cfg (file_area c) pass flags vmk payload0 g = (idx, area', g')"
  shows "idx \<ge> 0 \<and>
    KeyslotOpenAt cfg area' idx pass vmkOut flagsOut =
      (1, store_at 0 vmk vmkOut, map_option (\<lambda>_. flags mod 256) flagsOut) \<and>
    fst (KeyslotOpen cfg area' pass vmkOut flagsOut) = 1"
proof -
  obtain k c' r blob where s: "k < unat (n_slots cfg (file_area c))" "idx = int k" "area' = file_area c'"
    "ksaf_good c'" "n_slots cfg (file_area c') = n_slots cfg (file_area c)"
    "\<And>j. slot_bytes (ksaf_contents c') j = (if j = k then r else slot_bytes (ksaf_contents c) j)"
    "\<And>j. occupied (ksaf_contents c') j = (j = k \<or> occupied (ksaf_contents c) j)"
    "slot_open cfg pass (nat (ct_of cfg)) r = Some blob"
    "\<And>vo fo. open_result cfg blob vo fo =
         (1, store_at 0 (slice 1 (nat (vmkLen cfg)) (add_payload cfg flags vmk payload0)) vo,
          map_option (\<lambda>_. flags mod 256) fo)"
    by (rule ksaf.KeyslotAdd_success [OF assms(1,2,4-8)]) blast
  have pay: "slice (Suc 0) (nat (vmkLen cfg)) (add_payload cfg flags vmk payload0) = vmk"
    using assms(4) by (simp add: add_payload_def slice_def)
  have k': "k < unat (n_slots cfg (file_area c'))" using s(1,5) by simp
  have "KeyslotOpenAt cfg area' idx pass vmkOut flagsOut =
      (1, store_at 0 vmk vmkOut, map_option (\<lambda>_. flags mod 256) flagsOut)"
    using ksaf.KeyslotOpenAt_spec [OF s(4) assms(2) k'] s(6-9) by (simp add: s(2,3) pay)
  moreover have "\<exists>pt. first_some (map (\<lambda>i. slot_open cfg pass (nat (ct_of cfg)) (slot_bytes (ksaf_contents c') i))
      [0..<unat (n_slots cfg (file_area c'))]) = Some pt"
    using s(6,8) k' unfolding first_some_Some_iff by force
  then have "fst (KeyslotOpen cfg area' pass vmkOut flagsOut) = 1"
    unfolding s(3) ksaf.KeyslotOpen_spec [OF s(4) assms(2)] by (auto simp: open_result_def Let_def)
  ultimately show ?thesis using s(2) by simp
qed

theorem keyslot_add_open_witness:
  "\<exists>idx area' g'. KeyslotAdd (demo_cfg 0) (file_area demo_file) [1, 2, 3] 1 (zeros 32) (zeros 521) () = (idx, area', g') \<and>
     KeyslotOpenAt (demo_cfg 0) area' idx [1, 2, 3] (zeros 64) (Some 0) = (1, store_at 0 (zeros 32) (zeros 64), Some 1)"
proof -
  obtain idx area' g' where a: "KeyslotAdd (demo_cfg 0) (file_area demo_file) [1, 2, 3] 1 (zeros 32) (zeros 521) () = (idx, area', g')"
    by (cases "KeyslotAdd (demo_cfg 0) (file_area demo_file) [1, 2, 3] 1 (zeros 32) (zeros 521) ()") auto
  then have "KeyslotOpenAt (demo_cfg 0) area' idx [1, 2, 3] (zeros 64) (Some 0) = (1, store_at 0 (zeros 32) (zeros 64), Some 1)"
    using keyslot_add_open [OF demo_good(1) demo_cfg_ok, where vmkOut = "zeros 64" and flagsOut = "Some 0", OF _ _ _ _ _ _ a]
      demo_some_free by simp
  with a show ?thesis by blast
qed

text \<open>C10. Adding a slot leaves every other slot as it was: its passphrase opens the same key as before, no slot
  that was occupied is overwritten, and the number of occupied slots grows by one.\<close>

theorem keyslot_add_frame:
  assumes "ksaf_good c" "cfg_ok cfg" "length vmk = nat (vmkLen cfg)" "length payload0 = 521"
    "unat (n_slots cfg (file_area c)) \<le> 2 ^ 31"
    "\<exists>i<unat (n_slots cfg (file_area c)). \<not> occupied (ksaf_contents c) i"
    "KeyslotAdd cfg (file_area c) pass flags vmk payload0 g = (idx, area', g')"
  shows "(\<forall>j q vmkOut flagsOut. int j \<noteq> idx \<and> j < unat (n_slots cfg (file_area c)) \<longrightarrow>
      KeyslotOpenAt cfg area' (int j) q vmkOut flagsOut = KeyslotOpenAt cfg (file_area c) (int j) q vmkOut flagsOut) \<and>
    (\<forall>j. int j = idx \<longrightarrow> \<not> occupied (ksaf_contents c) j) \<and>
    KeyslotCount cfg area' = KeyslotCount cfg (file_area c) + 1"
proof -
  obtain k c' r where s: "k < unat (n_slots cfg (file_area c))" "idx = int k" "area' = file_area c'"
    "ksaf_good c'" "n_slots cfg (file_area c') = n_slots cfg (file_area c)" "\<not> occupied (ksaf_contents c) k"
    "\<And>j. slot_bytes (ksaf_contents c') j = (if j = k then r else slot_bytes (ksaf_contents c) j)"
    "\<And>j. occupied (ksaf_contents c') j = (j = k \<or> occupied (ksaf_contents c) j)"
    by (rule ksaf.KeyslotAdd_success [OF assms]) auto
  have "{i. i < unat (n_slots cfg (file_area c)) \<and> (i = k \<or> occupied (ksaf_contents c) i)} =
      insert k {i. i < unat (n_slots cfg (file_area c)) \<and> occupied (ksaf_contents c) i}"
    using s(1) by auto
  then have "KeyslotCount cfg area' = KeyslotCount cfg (file_area c) + 1"
    using s(4-6) cfg_okD(1) [OF assms(2)] assms(1) by (simp add: s(3,8) ksaf.KeyslotCount_spec)
  moreover have "KeyslotOpenAt cfg area' (int j) q vmkOut flagsOut = KeyslotOpenAt cfg (file_area c) (int j) q vmkOut flagsOut"
    if "j \<noteq> k" "j < unat (n_slots cfg (file_area c))" for j q vmkOut flagsOut
    using that s(5,7,8) ksaf.KeyslotOpenAt_spec [OF s(4) assms(2), of j] ksaf.KeyslotOpenAt_spec [OF assms(1,2), of j]
    by (simp add: s(3))
  ultimately show ?thesis using s(2,6) by auto
qed

theorem keyslot_add_frame_witness:
  "\<exists>idx area' g'. KeyslotAdd (demo_cfg 0) (file_area demo_file) [1, 2, 3] 1 (zeros 32) (zeros 521) () = (idx, area', g') \<and>
     KeyslotCount (demo_cfg 0) area' = KeyslotCount (demo_cfg 0) (file_area demo_file) + 1"
proof -
  obtain idx area' g' where a: "KeyslotAdd (demo_cfg 0) (file_area demo_file) [1, 2, 3] 1 (zeros 32) (zeros 521) () = (idx, area', g')"
    by (cases "KeyslotAdd (demo_cfg 0) (file_area demo_file) [1, 2, 3] 1 (zeros 32) (zeros 521) ()") auto
  then have "KeyslotCount (demo_cfg 0) area' = KeyslotCount (demo_cfg 0) (file_area demo_file) + 1"
    using keyslot_add_frame [OF demo_good(1) demo_cfg_ok _ _ _ _ a] demo_some_free by simp
  with a show ?thesis by blast
qed

text \<open>On a table without a free slot \<open>KeyslotAdd\<close> returns -1 and does not touch the medium.\<close>

theorem keyslot_add_full:
  assumes "ksaf_good c" "cfg_ok cfg" "length vmk = nat (vmkLen cfg)" "length payload0 = 521"
    "unat (n_slots cfg (file_area c)) \<le> 2 ^ 31"
    "\<forall>i<unat (n_slots cfg (file_area c)). occupied (ksaf_contents c) i"
  shows "\<exists>g'. KeyslotAdd cfg (file_area c) pass flags vmk payload0 g = (- 1, file_area c, g')"
  using ksaf.KeyslotAdd_spec [OF assms(1-4) refl assms(5)] assms(6) by simp

theorem keyslot_add_full_witness:
  "\<exists>g'. KeyslotAdd (demo_cfg 0) (file_area (demo_file\<lparr>af_len := 100\<rparr>)) [1] 0 (zeros 32) (zeros 521) () =
     (- 1, file_area (demo_file\<lparr>af_len := 100\<rparr>), g')"
proof -
  have "ksaf_good (demo_file\<lparr>af_len := 100\<rparr>)" by (simp add: ksaf_good_def demo_file_def)
  moreover have "n_slots (demo_cfg 0) (file_area (demo_file\<lparr>af_len := 100\<rparr>)) = 0"
    by (simp add: n_slots_def ksaf_size_def demo_cfg_def)
  ultimately show ?thesis using demo_cfg_ok [of 0] by (intro keyslot_add_full) simp_all
qed

text \<open>C2. Opening with a parallel executor gives the result of the serial open, on every medium whose reads
  return whole records, for every executor that runs each index it is given, in any order and however
  often.\<close>

theorem keyslot_open_parallel:
  assumes "cfg_ok cfg" "reads_full area" "\<And>n. set (ex n) = {..<n}"
  shows "KeyslotOpenParallel cfg area pass vmkOut flagsOut (Some ex) = KeyslotOpen cfg area pass vmkOut flagsOut"
  using ks_open_labeled [OF assms(1,2), of "Some ex"] ks_open_labeled [OF assms(1,2), of NULL] assms(3)
  by (simp add: KeyslotOpenParallel_def KeyslotOpen_def)

theorem keyslot_open_parallel_witness:
  "KeyslotOpenParallel (demo_cfg 0) (file_area demo_file) [1] (zeros 64) NULL (Some (\<lambda>n. rev [0..<n])) =
   KeyslotOpen (demo_cfg 0) (file_area demo_file) [1] (zeros 64) NULL"
  by (rule keyslot_open_parallel) (auto intro: demo_cfg_ok ksaf.reads_full_area_of demo_good)

text \<open>An executor that breaks its contract and skips indices can only make the parallel scan miss a slot:
  whatever the scan returns as found is the payload of the first slot, among those that were run, that
  accepts the passphrase.\<close>

theorem keyslot_parallel_failsafe:
  assumes "reads_full area" "46 + ct + 32 \<le> 1024" "ct \<le> length selp" "executor_ok ex"
  shows "ks_scan_labeled_parallel cfg area pass ct ns selp ex =
    (case first_some (map (slot_ran cfg area pass ct (unat ns) ex) [0..<unat ns]) of
       None \<Rightarrow> (0, selp) | Some pt \<Rightarrow> (1, pt @ drop ct selp))"
  unfolding ks_scan_labeled_parallel_ran [OF assms]
  by (subst sel_fold_first) (use assms in \<open>simp_all add: sel_ok_def split: option.splits\<close>)

theorem keyslot_parallel_failsafe_witness:
  "ks_scan_labeled_parallel (demo_cfg 0) (file_area demo_file) [1] 66 20 (zeros 1024) (\<lambda>n. []) = (0, zeros 1024)"
proof -
  have "map (slot_ran (demo_cfg 0) (file_area demo_file) [1] 66 20 (\<lambda>n. [])) [0..<20] = replicate 20 None"
    by (rule nth_equalityI) (simp_all add: slot_ran_def)
  moreover have "first_some (replicate n (None :: bytes option)) = None" for n by (induction n) simp_all
  moreover have "reads_full (file_area demo_file)" by (rule ksaf.reads_full_area_of [OF demo_good(1)])
  ultimately show ?thesis
    by (subst keyslot_parallel_failsafe) (simp_all add: executor_ok_def)
qed

text \<open>C3. The branch-free scan over the table refines a search for the first slot that accepts the passphrase.\<close>

theorem keyslot_open_first:
  assumes "ksaf_good c" "cfg_ok cfg"
  shows "KeyslotOpen cfg (file_area c) pass vmkOut flagsOut =
    (case first_some (map (\<lambda>i. slot_open cfg pass (nat (ct_of cfg)) (slot_bytes (ksaf_contents c) i))
        [0..<unat (n_slots cfg (file_area c))]) of
       None \<Rightarrow> (0, vmkOut, flagsOut) | Some pt \<Rightarrow> open_result cfg pt vmkOut flagsOut)"
  by (rule ksaf.KeyslotOpen_spec [OF assms])

theorem keyslot_open_first_witness:
  "KeyslotOpen (demo_cfg 0) (file_area (demo_file\<lparr>af_len := 100\<rparr>)) [1] (zeros 64) NULL = (0, zeros 64, NULL)"
proof -
  have "ksaf_good (demo_file\<lparr>af_len := 100\<rparr>)" by (simp add: ksaf_good_def demo_file_def)
  moreover have "n_slots (demo_cfg 0) (file_area (demo_file\<lparr>af_len := 100\<rparr>)) = 0"
    by (simp add: n_slots_def ksaf_size_def demo_cfg_def)
  ultimately show ?thesis using demo_cfg_ok [of 0] by (subst keyslot_open_first) simp_all
qed

text \<open>C11. Revoking an occupied slot replaces its 1024 bytes by fresh random bytes and changes no other slot; unless the
  random bytes happen to start with the marker, no passphrase opens the slot afterwards.\<close>

theorem keyslot_revoke:
  assumes "ksaf_good c" "cfg_ok cfg" "i < unat (n_slots cfg (file_area c))"
    "KeyslotRevoke cfg (file_area c) (int i) g = (rc, area', g')"
  shows "rc = 0 \<and> area_read area' (of_nat i * 1024) 1024 = Some (fst (randBytes cfg 1024 g)) \<and>
    (\<forall>j q vmkOut flagsOut. j \<noteq> i \<and> j < unat (n_slots cfg (file_area c)) \<longrightarrow>
      KeyslotOpenAt cfg area' (int j) q vmkOut flagsOut = KeyslotOpenAt cfg (file_area c) (int j) q vmkOut flagsOut) \<and>
    (slice 0 4 (fst (randBytes cfg 1024 g)) \<noteq> VCKS \<longrightarrow>
      (\<forall>q vmkOut flagsOut. KeyslotOpenAt cfg area' (int i) q vmkOut flagsOut = (0, vmkOut, flagsOut)))"
proof -
  obtain c' r where s: "rc = 0" "area' = file_area c'" "ksaf_good c'" "randBytes cfg 1024 g = (r, g')" "length r = 1024"
    "ksaf_contents c' = store_at (i * 1024) r (ksaf_contents c)" "n_slots cfg (file_area c') = n_slots cfg (file_area c)"
    using ksaf.KeyslotRevoke_spec [OF assms(1-3), of g] assms(4) by auto
  note fit = ksaf.slot_offset(2) [OF assms(1,3)]
  have sb: "slot_bytes (ksaf_contents c') j = (if j = i then r else slot_bytes (ksaf_contents c) j)"
    "occupied (ksaf_contents c') j = (if j = i then slice 0 4 r = VCKS else occupied (ksaf_contents c) j)" for j
    using slot_bytes_store [OF s(5) fit] occupied_store [OF s(5) fit] s(6) by simp_all
  have i': "i < unat (n_slots cfg (file_area c'))" using assms(3) s(7) by simp
  have "area_read area' (of_nat i * 1024) 1024 = Some r"
    using ksaf.slot_read [OF s(3) i', of 1024] sb(1) [of i] by (simp add: s(2) slot_bytes_def)
  moreover have "KeyslotOpenAt cfg area' (int j) q vmkOut flagsOut = KeyslotOpenAt cfg (file_area c) (int j) q vmkOut flagsOut"
    if "j \<noteq> i" "j < unat (n_slots cfg (file_area c))" for j q vmkOut flagsOut
    using that s(7) sb ksaf.KeyslotOpenAt_spec [OF s(3) assms(2), of j] ksaf.KeyslotOpenAt_spec [OF assms(1,2), of j]
    by (simp add: s(2))
  moreover have "KeyslotOpenAt cfg area' (int i) q vmkOut flagsOut = (0, vmkOut, flagsOut)" if "slice 0 4 r \<noteq> VCKS"
    for q vmkOut flagsOut
    using that sb(2) [of i] ksaf.KeyslotOpenAt_spec [OF s(3) assms(2) i'] by (simp add: s(2))
  ultimately show ?thesis using s(1,4) by auto
qed

theorem keyslot_revoke_witness:
  "\<exists>area' g'. KeyslotRevoke (demo_cfg 0) (file_area demo_file) 2 () = (0, area', g') \<and>
     area_read area' (of_nat 2 * 1024) 1024 = Some (zeros 1024)"
proof -
  obtain rc area' g' where a: "KeyslotRevoke (demo_cfg 0) (file_area demo_file) (int 2) () = (rc, area', g')"
    by (cases "KeyslotRevoke (demo_cfg 0) (file_area demo_file) (int 2) ()") auto
  have "rc = 0 \<and> area_read area' (of_nat 2 * 1024) 1024 = Some (fst (randBytes (demo_cfg 0) 1024 ()))"
    using keyslot_revoke [OF demo_good(1) demo_cfg_ok _ a] by simp
  moreover have "fst (randBytes (demo_cfg 0) 1024 ()) = zeros 1024" by (simp add: demo_cfg_def)
  ultimately show ?thesis using a by auto
qed

text \<open>The receipt of a shred is SHA-256 over the domain string, the index and the digests of the slot before and of
  the bytes that are on the medium afterwards, which are the fresh random ones.\<close>

theorem keyslot_shred:
  assumes "ksaf_good c" "cfg_ok cfg" "i < unat (n_slots cfg (file_area c))"
    "KeyslotShred cfg (file_area c) (int i) att g = (rc, att', area', g')"
  shows "rc = 0 \<and> (\<exists>before after. area_read (file_area c) (of_nat i * 1024) 1024 = Some before \<and>
      area_read area' (of_nat i * 1024) 1024 = Some after \<and> after = fst (randBytes cfg 1024 g) \<and>
      att' = fips_sha256 (cstr ''VCKSSHRED1'' @ be_bytes 4 (of_nat i :: u32) @ fips_sha256 before @ fips_sha256 after))"
proof -
  obtain c' r where s: "rc = 0" "area' = file_area c'" "ksaf_good c'" "randBytes cfg 1024 g = (r, g')" "length r = 1024"
    "ksaf_contents c' = store_at (i * 1024) r (ksaf_contents c)"
    "att' = fips_sha256 (cstr ''VCKSSHRED1'' @ be_bytes 4 (of_nat i :: u32) @
            fips_sha256 (slot_bytes (ksaf_contents c) i) @ fips_sha256 r)"
    using ksaf.KeyslotShred_spec [OF assms(1-3), of att g] assms(4) by auto
  note off = ksaf.slot_offset [OF assms(1,3)]
  have "area_read (file_area c) (of_nat i * 1024) 1024 = Some (slot_bytes (ksaf_contents c) i)"
    using ksaf.slot_read [OF assms(1,3), of 1024] by (simp add: slot_bytes_def)
  moreover have "area_read area' (of_nat i * 1024) 1024 = Some r"
    using ksaf.read_in [OF s(3), of "of_nat i * 1024" 1024] off s(5,6)
    by (simp add: s(2) length_store_at slice_store_same)
  ultimately show ?thesis using s(1,4,7) by auto
qed

theorem keyslot_shred_witness:
  "\<exists>att' area' g'. KeyslotShred (demo_cfg 0) (file_area demo_file) 1 (zeros 32) () = (0, att', area', g')"
proof -
  obtain rc att' area' g' where a: "KeyslotShred (demo_cfg 0) (file_area demo_file) (int 1) (zeros 32) () = (rc, att', area', g')"
    by (cases "KeyslotShred (demo_cfg 0) (file_area demo_file) (int 1) (zeros 32) ()") auto
  then show ?thesis using keyslot_shred [OF demo_good(1) demo_cfg_ok _ a] by auto
qed

text \<open>C4. A slot with a policy trailer locks after as many failed attempts by index as its limit allows: from then on
  every passphrase, the right one included, gets \<open>KEYSLOT_LOCKED\<close> and no key, nothing is written, and
  the other slots are as they were.\<close>

theorem keyslot_lockout:
  assumes "ksaf_good c" "cfg_ok cfg" "policy cfg \<noteq> 0" "ks_pol_fits cfg" "i < unat (n_slots cfg (file_area c))"
    "occupied (ksaf_contents c) i" "rec = slot_bytes (ksaf_contents c) i"
    "has_policy_mark rec (nat (ks_pol_off cfg))" "0 < max_attempts cfg rec" "attempts cfg rec \<le> max_attempts cfg rec"
    "\<forall>q\<in>set tries. slot_open cfg q (nat (ct_of cfg)) rec = None"
    "max_attempts cfg rec \<le> attempts cfg rec + int (length tries)"
    "area' = fold (\<lambda>q a. snd (snd (KeyslotOpenAtPolicy cfg a (int i) q now out))) tries (file_area c)"
  shows "fst (KeyslotOpenAtPolicy cfg area' (int i) q now out) = KEYSLOT_LOCKED \<and>
    ap_vmk (fst (snd (KeyslotOpenAtPolicy cfg area' (int i) q now out))) = ap_vmk out \<and>
    snd (snd (KeyslotOpenAtPolicy cfg area' (int i) q now out)) = area' \<and>
    (\<forall>j. j \<noteq> i \<longrightarrow> slot_bytes (ksaf_contents (ka_ctx area')) j = slot_bytes (ksaf_contents c) j)"
proof -
  obtain c2 where c2: "area' = file_area c2" "ksaf_good c2" "n_slots cfg (file_area c2) = n_slots cfg (file_area c)"
    "occupied (ksaf_contents c2) i" "max_attempts cfg (slot_bytes (ksaf_contents c2) i) = max_attempts cfg rec"
    "attempts cfg (slot_bytes (ksaf_contents c2) i) = min (max_attempts cfg rec) (attempts cfg rec + int (length tries))"
    "\<forall>j. j \<noteq> i \<longrightarrow> slot_bytes (ksaf_contents c2) j = slot_bytes (ksaf_contents c) j"
    using ksaf.wrong_attempts [OF assms(2-4,1,5,6), of tries now out] assms(7-11,13) by auto
  have i2: "i < unat (n_slots cfg (file_area c2))" using assms(5) c2(3) by simp
  have "ka_ctx area' = c2" by (simp add: c2(1) area_of_def)
  then show ?thesis
    using ksaf.KeyslotOpenAtPolicy_spec(1) [OF c2(2) assms(2-4) i2 c2(4) refl refl, of q now out] c2(5-7) assms(9,12)
    by (simp add: c2(1))
qed

text \<open>A slot whose tag is off by one bit of each byte, so that the passphrase \<open>[1]\<close> fails on it.\<close>

definition locked_demo_rec :: bytes where
  "locked_demo_rec = VCKS @ zeros 42 @ zeros 82 @
     map ((XOR) 1) (dk_tag (kdf (demo_cfg 1) [1] (zeros 32) (cost (demo_cfg 1)) 72) (VCKS @ zeros 42) (zeros 82)) @
     [0x4b, 0x50, 3, 0] @ zeros 860"

lemma xor_1_list: "xs \<noteq> [] \<Longrightarrow> map ((XOR) (1 :: byte)) xs \<noteq> xs"
proof (cases xs)
  case (Cons x ys)
  have "1 XOR x \<noteq> x"
  proof
    assume "1 XOR x = x"
    then have "(1 XOR x) XOR x = x XOR x" by simp
    then show False by (simp add: xor.assoc)
  qed
  then show ?thesis using Cons by simp
qed simp

theorem keyslot_lockout_witness:
  "fst (KeyslotOpenAtPolicy (demo_cfg 1)
      (fold (\<lambda>q a. snd (snd (KeyslotOpenAtPolicy (demo_cfg 1) a (int 0) q 0 \<lparr>ap_vmk = [], ap_flags = NULL, ap_attempts = NULL, ap_max = NULL\<rparr>)))
        [[1], [1], [1]]
        (file_area (demo_file\<lparr>af_f := Some \<lparr>fdata = zeros 512 @ locked_demo_rec @ zeros 4096, fwritable = True\<rparr>\<rparr>)))
      (int 0) [2] 0 \<lparr>ap_vmk = [], ap_flags = NULL, ap_attempts = NULL, ap_max = NULL\<rparr>) = KEYSLOT_LOCKED"
proof -
  let ?c = "demo_file\<lparr>af_f := Some \<lparr>fdata = zeros 512 @ locked_demo_rec @ zeros 4096, fwritable = True\<rparr>\<rparr>"
  let ?tag = "dk_tag (kdf (demo_cfg 1) [1] (zeros 32) (cost (demo_cfg 1)) 72) (VCKS @ zeros 42) (zeros 82)"
  have len: "length locked_demo_rec = 1024" by (simp add: locked_demo_rec_def)
  have good: "ksaf_good ?c" "ksaf_contents ?c = locked_demo_rec @ zeros 3072"
    by (simp_all add: ksaf_good_def ksaf_contents_def demo_file_def len slice_def) (simp add: zeros_def)
  have rec: "slot_bytes (ksaf_contents ?c) 0 = locked_demo_rec" by (simp add: slot_bytes_def good len slice_def)
  have occ: "occupied (ksaf_contents ?c) 0" by (simp add: occupied_slot_bytes rec) (simp add: locked_demo_rec_def slice_def)
  have sizes: "nat (ct_of (demo_cfg 1)) = 82" "nat (ks_pol_off (demo_cfg 1)) = 160" "ks_pol_fits (demo_cfg 1)"
    by (simp_all add: ct_of_def ks_pol_off_def ks_pol_fits_def plen_of_def af_of_def demo_cfg_def)
  have tail: "locked_demo_rec ! (160 + j) = [0x4b, 0x50, 3, 0] ! j" if "j < 4" for j
  proof -
    have "locked_demo_rec ! (160 + j) = ([0x4b, 0x50, 3, 0] @ zeros 860) ! j"
      by (simp add: locked_demo_rec_def nth_append)
    then show ?thesis using that by (simp only: nth_append) simp
  qed
  then have trailer: "has_policy_mark locked_demo_rec 160" "max_attempts (demo_cfg 1) locked_demo_rec = 3"
    "attempts (demo_cfg 1) locked_demo_rec = 0"
    using tail [of 0] tail [of 1] tail [of 2] tail [of 3]
    by (simp_all add: has_policy_mark_def max_attempts_def attempts_def sizes)
  have "slice 14 32 locked_demo_rec = zeros 32" "slice 0 46 locked_demo_rec = VCKS @ zeros 42"
    "slice 46 82 locked_demo_rec = zeros 82" "slice (46 + 82) 32 locked_demo_rec = map ((XOR) 1) ?tag"
    by (simp_all add: locked_demo_rec_def slice_def) (simp_all add: zeros_def)
  moreover have "map ((XOR) 1) ?tag \<noteq> ?tag" by (rule xor_1_list) (simp flip: length_greater_0_conv)
  ultimately have "slot_open (demo_cfg 1) [1] 82 locked_demo_rec = None"
    by (simp add: slot_open_def Let_def)
  moreover have "n_slots (demo_cfg 1) (file_area ?c) = 4"
    by (simp add: n_slots_def ksaf_size_def demo_file_def demo_cfg_def)
  ultimately show ?thesis
    using keyslot_lockout [where tries = "[[1], [1], [1]]" and q = "[2]" and now = 0
        and out = "\<lparr>ap_vmk = [], ap_flags = NULL, ap_attempts = NULL, ap_max = NULL\<rparr>",
        OF good(1) demo_cfg_ok _ sizes(3) _ occ rec [symmetric] _ _ _ _ _ refl] trailer
    by (simp add: sizes)
qed

text \<open>A policy slot carries its expiry in the encrypted payload: the constant-time open of a table in which the
  new slot is the first that accepts the passphrase returns key, flags and expiry up to that time, and
  after it answers as if the passphrase were wrong. The slot starts with the given limit and no attempts.\<close>

theorem keyslot_policy_expiry:
  assumes "ksaf_good c" "cfg_ok cfg" "policy cfg \<noteq> 0" "ks_pol_fits cfg" "length vmk = nat (vmkLen cfg)"
    "0 \<le> limit" "limit \<le> 255" "unat (n_slots cfg (file_area c)) \<le> 2 ^ 31"
    "\<exists>i<unat (n_slots cfg (file_area c)). \<not> occupied (ksaf_contents c) i"
    "KeyslotAddPolicy cfg (file_area c) pass flags vmk expiry limit g = (idx, area', g')"
    "\<forall>i. int i < idx \<longrightarrow> slot_open cfg pass (nat (ct_of cfg)) (slot_bytes (ksaf_contents c) i) = None"
  shows "idx \<ge> 0 \<and>
    KeyslotOpenPolicy cfg area' pass now vmkOut flagsOut expiryOut =
      (if now \<noteq> 0 \<and> expiry \<noteq> 0 \<and> now > expiry then (0, vmkOut, flagsOut, expiryOut)
       else (1, store_at 0 vmk vmkOut, map_option (\<lambda>_. flags mod 256) flagsOut, map_option (\<lambda>_. expiry) expiryOut)) \<and>
    max_attempts cfg (slot_bytes (ksaf_contents (ka_ctx area')) (nat idx)) = limit \<and>
    attempts cfg (slot_bytes (ksaf_contents (ka_ctx area')) (nat idx)) = 0"
proof -
  obtain k c1 r blob where s: "k < unat (n_slots cfg (file_area c))" "idx = int k" "area' = file_area c1"
    "ksaf_good c1" "n_slots cfg (file_area c1) = n_slots cfg (file_area c)"
    "\<And>j. slot_bytes (ksaf_contents c1) j = (if j = k then r else slot_bytes (ksaf_contents c) j)"
    "slot_open cfg pass (nat (ct_of cfg)) r = Some blob" "max_attempts cfg r = limit" "attempts cfg r = 0"
    "\<And>now vo fo eo. policy_result cfg blob now vo fo eo =
         (if now \<noteq> 0 \<and> expiry \<noteq> 0 \<and> now > expiry then (0, vo, fo, eo)
          else (1, store_at 0 vmk vo, map_option (\<lambda>_. flags mod 256) fo, map_option (\<lambda>_. expiry) eo))"
    by (rule ksaf.KeyslotAddPolicy_success [OF assms(1-10)]) blast
  define f where "f = (\<lambda>i. slot_open cfg pass (nat (ct_of cfg)) (slot_bytes (ksaf_contents c1) i))"
  have f: "f k = Some blob" "\<And>i. i < k \<Longrightarrow> f i = None" using s(2,6,7) assms(11) by (simp_all add: f_def)
  have before: "first_some (map f [0..<m] @ ys) = first_some ys" if "m \<le> k" for m ys
    using that by (induction m arbitrary: ys) (simp_all add: f(2))
  have "[0..<k + (unat (n_slots cfg (file_area c)) - k)] = [0..<k] @ [k..<k + (unat (n_slots cfg (file_area c)) - k)]"
    by (rule upt_add_eq_append) simp
  then have "[0..<unat (n_slots cfg (file_area c1))] = [0..<k] @ k # [Suc k..<unat (n_slots cfg (file_area c))]"
    using s(1,5) by (simp add: upt_conv_Cons)
  then have "first_some (slots_of cfg (file_area c1) pass) = Some blob"
    by (simp add: ksaf.slots_of_bytes [OF s(4)] f_def [symmetric] before f(1))
  moreover have "reads_full (file_area c1)" by (rule ksaf.reads_full_area_of [OF s(4)])
  moreover have "ka_ctx area' = c1" by (simp add: s(3) area_of_def)
  ultimately show ?thesis
    using s(2,6,8,9) by (simp add: s(3) KeyslotOpenPolicy_first [OF assms(2) _ assms(3)] s(10))
qed

theorem keyslot_policy_expiry_witness:
  "\<exists>idx area' g'. KeyslotAddPolicy (demo_cfg 1) (file_area demo_file) [7] 2 (zeros 32) 1000 3 () = (idx, area', g') \<and>
     KeyslotOpenPolicy (demo_cfg 1) area' [7] 999 (zeros 32) NULL NULL = (1, store_at 0 (zeros 32) (zeros 32), NULL, NULL) \<and>
     KeyslotOpenPolicy (demo_cfg 1) area' [7] 1001 (zeros 32) NULL NULL = (0, zeros 32, NULL, NULL)"
proof -
  obtain idx area' g' where a: "KeyslotAddPolicy (demo_cfg 1) (file_area demo_file) [7] 2 (zeros 32) 1000 3 () = (idx, area', g')"
    by (cases "KeyslotAddPolicy (demo_cfg 1) (file_area demo_file) [7] 2 (zeros 32) 1000 3 ()") auto
  have fits: "ks_pol_fits (demo_cfg 1)"
    by (simp add: ct_of_def ks_pol_off_def ks_pol_fits_def plen_of_def af_of_def demo_cfg_def)
  have free: "\<not> occupied (ksaf_contents demo_file) 0" by (rule demo_free) simp
  have "idx = 0"
  proof -
    have "(LEAST i. \<not> occupied (ksaf_contents demo_file) i) = 0" using free by (rule Least_eq_0)
    then show ?thesis
      using ksaf.KeyslotAddPolicy_spec [OF demo_good(1) demo_cfg_ok _ fits _ _ _ refl, of "zeros 32" 3 "[7]" 2 1000 "()"]
        a demo_some_free by (auto simp: Let_def)
  qed
  then have "\<forall>i. int i < idx \<longrightarrow> slot_open (demo_cfg 1) [7] (nat (ct_of (demo_cfg 1))) (slot_bytes (ksaf_contents demo_file) i) = None"
    by simp
  note e = keyslot_policy_expiry [OF demo_good(1) demo_cfg_ok _ fits _ _ _ _ _ a this]
  show ?thesis
    using a e [where now = 999 and vmkOut = "zeros 32" and flagsOut = NULL and expiryOut = NULL]
      e [where now = 1001 and vmkOut = "zeros 32" and flagsOut = NULL and expiryOut = NULL] demo_some_free
    by simp
qed

text \<open>The framing check of a table that was well-formed still passes after a slot was added with the same
  configuration.\<close>

theorem keyslot_structural:
  assumes "ksaf_good c" "cfg_ok cfg" "length vmk = nat (vmkLen cfg)" "length payload0 = 521"
    "unat (n_slots cfg (file_area c)) \<le> 2 ^ 31"
    "\<exists>i<unat (n_slots cfg (file_area c)). \<not> occupied (ksaf_contents c) i"
    "fst (KeyslotStructuralCheck (Some cfg) (Some (file_area c)) NULL NULL) = 0"
    "KeyslotAdd cfg (file_area c) pass flags vmk payload0 g = (idx, area', g')"
  shows "fst (KeyslotStructuralCheck (Some cfg) (Some area') NULL NULL) = 0"
proof -
  obtain k c' r where s: "k < unat (n_slots cfg (file_area c))" "area' = file_area c'"
    "ksaf_good c'" "n_slots cfg (file_area c') = n_slots cfg (file_area c)"
    "\<And>j. slot_bytes (ksaf_contents c') j = (if j = k then r else slot_bytes (ksaf_contents c) j)"
    "\<And>j. occupied (ksaf_contents c') j = (j = k \<or> occupied (ksaf_contents c) j)"
    "\<exists>salt. length salt = 32 \<and> slice 0 46 r = labeled_header cfg salt"
    by (rule ksaf.KeyslotAdd_success [OF assms(1-6,8)]) blast
  then obtain salt where salt: "length salt = 32" "slice 0 46 r = labeled_header cfg salt" by blast
  have hdr: "slice (i * 1024) 14 m = take 14 (slice 0 46 (slot_bytes m i))" for i m
    by (simp add: slot_bytes_def slice_slice) (simp add: slice_def)
  note lab = cfg_okD(1) [OF assms(2)]
  have "slot_framing_ok cfg (slice (i * 1024) 14 (ksaf_contents c'))"
    if "i < unat (n_slots cfg (file_area c'))" "occupied (ksaf_contents c') i" for i
  proof (cases "i = k")
    case True
    then show ?thesis using slot_framing_labeled_header [OF assms(2) salt(1)] by (simp add: hdr s(5) salt(2))
  next
    case False
    then have "occupied (ksaf_contents c) i" "i < unat (n_slots cfg (file_area c))"
      using that s(4,6) by simp_all
    then have "slot_framing_ok cfg (slice (i * 1024) 14 (ksaf_contents c))"
      using assms(7) unfolding ksaf.KeyslotStructuralCheck_spec [OF assms(1) lab] by (auto split: if_splits)
    then show ?thesis using False by (simp add: hdr s(5))
  qed
  then show ?thesis unfolding s(2) ksaf.KeyslotStructuralCheck_spec [OF s(3) lab] by auto
qed

theorem keyslot_structural_witness:
  "\<exists>idx area' g'. KeyslotAdd (demo_cfg 0) (file_area demo_file) [1, 2, 3] 1 (zeros 32) (zeros 521) () = (idx, area', g') \<and>
     fst (KeyslotStructuralCheck (Some (demo_cfg 0)) (Some area') NULL NULL) = 0"
proof -
  obtain idx area' g' where a: "KeyslotAdd (demo_cfg 0) (file_area demo_file) [1, 2, 3] 1 (zeros 32) (zeros 521) () = (idx, area', g')"
    by (cases "KeyslotAdd (demo_cfg 0) (file_area demo_file) [1, 2, 3] 1 (zeros 32) (zeros 521) ()") auto
  have "is_labeled (backend (demo_cfg 0))" by (simp add: is_labeled_def)
  then have "fst (KeyslotStructuralCheck (Some (demo_cfg 0)) (Some (file_area demo_file)) NULL NULL) = 0"
    using demo_free by (simp add: ksaf.KeyslotStructuralCheck_spec [OF demo_good(1)])
  then show ?thesis
    using keyslot_structural [OF demo_good(1) demo_cfg_ok _ _ _ _ _ a] a demo_some_free by auto
qed

text \<open>C13. Whatever is written through a window that lies inside a file open for writing, at any offset, the write succeeds
  exactly when it fits the window; in either case the file keeps its length and every byte outside the window, and inside it the bytes that were
  written replace the old ones when it succeeds and nothing changes when it fails. The three ways the code binds an area give such windows: the header slack is the window
  from byte 512 to 64 KiB, a sidecar is the whole file, and a deniable area starts at the free space and ends before its end and before the
  hidden volume.\<close>

theorem window_frame:
  assumes "af_f ctx = Some fl" "fwritable fl" "unat b + unat l \<le> length (fdata fl)" "length (fdata fl) < 2 ^ 63"
    "length bs < 2 ^ 63" "area_write (KeyslotAreaBindWindow ctx b l) off bs = (rc, area')"
  shows "(rc = 0 \<longleftrightarrow> unat off + length bs \<le> unat l) \<and>
    (\<exists>fl'. af_f (ka_ctx area') = Some fl' \<and> length (fdata fl') = length (fdata fl) \<and>
      (\<forall>i. i < unat b \<or> unat b + unat l \<le> i \<longrightarrow> fdata fl' ! i = fdata fl ! i) \<and>
      slice (unat b) (unat l) (fdata fl') =
        (if rc = 0 then store_at (unat off) bs (slice (unat b) (unat l) (fdata fl)) else slice (unat b) (unat l) (fdata fl))) \<and>
    KeyslotAreaBindHeaderSlack ctx = KeyslotAreaBindWindow ctx 512 65024 \<and>
    KeyslotAreaBindSidecar ctx = Some (KeyslotAreaBindWindow ctx 0 (of_nat (length (fdata fl)))) \<and>
    (\<forall>start stop hidden area. KeyslotAreaBindDeniable ctx start stop hidden = Some area \<longrightarrow>
      (\<exists>n. area = KeyslotAreaBindWindow ctx start n \<and> unat start + unat n \<le> unat stop \<and> (hidden \<noteq> 0 \<longrightarrow> unat start + unat n \<le> unat hidden)))"
proof -
  define c where "c = ctx\<lparr>af_base := b, af_len := l\<rparr>"
  have good: "ksaf_good c" using assms(1-4) by (simp add: ksaf_good_def c_def)
  have bind: "KeyslotAreaBindWindow ctx b l = file_area c" by (simp add: KeyslotAreaBindWindow_def c_def area_of_def)
  obtain c' where c': "ksaf_write c off bs = (rc, c')" "area' = file_area c'"
    using assms(6) unfolding bind by (auto split: prod.splits)
  have k: "ka_ctx area' = c'" by (simp add: c'(2) area_of_def)
  obtain fl' where f: "af_f c' = Some fl'" "length (fdata fl') = length (fdata fl)"
    "\<forall>i. i < unat b \<or> unat b + unat l \<le> i \<longrightarrow> fdata fl' ! i = fdata fl ! i"
    using ksaf_write_frame [OF good assms(5) _ c'(1)] assms(1) by (auto simp: c_def)
  have w: "af_base c' = b" "af_len c' = l" using ksaf_write_window [OF c'(1)] by (simp_all add: c_def)
  note r = ksaf.write_result [OF good assms(5) c'(1)]
  have con: "ksaf_contents c = slice (unat b) (unat l) (fdata fl)" "ksaf_contents c' = slice (unat b) (unat l) (fdata fl')"
    using assms(1) f(1) w by (simp_all add: ksaf_contents_def c_def)
  have "rc = 0 \<longleftrightarrow> unat off + length bs \<le> unat l" using r(3) assms(3) unfolding con by simp
  moreover have "slice (unat b) (unat l) (fdata fl') =
      (if rc = 0 then store_at (unat off) bs (slice (unat b) (unat l) (fdata fl)) else slice (unat b) (unat l) (fdata fl))"
    using r(4) unfolding con .
  moreover have "KeyslotAreaBindHeaderSlack ctx = KeyslotAreaBindWindow ctx 512 65024"
    by (simp add: KeyslotAreaBindHeaderSlack_def TC_VOLUME_HEADER_SIZE_def TC_VOLUME_HEADER_EFFECTIVE_SIZE_def)
  ultimately show ?thesis
    using f k BindDeniable_window assms(1) by (auto simp: KeyslotAreaBindSidecar_def)
qed

theorem window_frame_witness:
  "\<exists>rc area' fl'. area_write (KeyslotAreaBindWindow (demo_file\<lparr>af_f := Some \<lparr>fdata = zeros 131072, fwritable = True\<rparr>\<rparr>) 1000 3000)
      2900 (zeros 101) = (rc, area') \<and> rc \<noteq> 0 \<and> af_f (ka_ctx area') = Some fl' \<and> fdata fl' ! 4000 = zeros 131072 ! 4000"
proof -
  let ?c = "demo_file\<lparr>af_f := Some \<lparr>fdata = zeros 131072, fwritable = True\<rparr>\<rparr>"
  obtain rc area' where a: "area_write (KeyslotAreaBindWindow ?c 1000 3000) 2900 (zeros 101) = (rc, area')"
    by (cases "area_write (KeyslotAreaBindWindow ?c 1000 3000) 2900 (zeros 101)") auto
  then show ?thesis
    using window_frame [OF _ _ _ _ _ a, of "\<lparr>fdata = zeros 131072, fwritable = True\<rparr>"] by auto
qed

section \<open>Wrapping, splitting, hashing\<close>

text \<open>C24. Unwrapping what was wrapped, with the same passphrase, salt and additional data, succeeds and writes the
  key, in the plain and in the constant-time variant.\<close>

theorem keyslot_wrap_unwrap:
  assumes "length aad + length vmk < 2 ^ 28" "KeyslotWrap derive n pass salt aad vmk = (ct, tag)"
  shows "KeyslotUnwrap derive n pass salt aad ct tag out = (1, store_at 0 vmk out) \<and>
    KeyslotUnwrapCT derive n pass salt aad ct tag out = (1, store_at 0 vmk out)"
proof -
  have w: "ct = dk_cipher (derive pass salt n 72) vmk" "tag = dk_tag (derive pass salt n 72) aad ct"
    using assms by (auto simp: KeyslotWrap_def KeyslotWrapWithDK_spec)
  have len: "length ct = length vmk" "length tag = 32" by (simp_all add: w)
  with assms(1) have "length aad + length ct < 2 ^ 28" by simp
  then show ?thesis
    using len by (simp add: KeyslotUnwrap_def KeyslotUnwrapWithDK_spec KeyslotUnwrapCT_spec Let_def w(2) [symmetric])
      (simp add: w(1))
qed

theorem keyslot_wrap_unwrap_witness:
  "\<exists>ct tag. KeyslotWrap (\<lambda>p s c n. zeros n) 1 [1] [2] [3] [4, 5] = (ct, tag) \<and>
     KeyslotUnwrap (\<lambda>p s c n. zeros n) 1 [1] [2] [3] ct tag [0, 0] = (1, [4, 5])"
proof -
  obtain ct tag where a: "KeyslotWrap (\<lambda>p s c n. zeros n) 1 [1] [2] [3] [4, 5] = (ct, tag)"
    by (cases "KeyslotWrap (\<lambda>p s c n. zeros n) 1 [1] [2] [3] [4, 5]") auto
  then show ?thesis using keyslot_wrap_unwrap [OF _ a, of "[0, 0]"] by (simp add: store_at_def)
qed

text \<open>Unwrapping is encrypt-then-MAC: it succeeds exactly when the tag is HMAC-SHA-256 of the additional data
  and the cipher text under the last 32 bytes of the derived key, and on failure the output is untouched.\<close>

theorem keyslot_unwrap_authentic:
  assumes "length aad + length ct < 2 ^ 28" "length tag = 32"
  shows "KeyslotUnwrapWithDK dk aad ct tag out =
    (if tag = hmac_sha256 (slice 40 32 dk) (aad @ ct)
     then (1, store_at 0 (chacha20 (slice 0 32 dk) (slice 32 8 dk) ct) out) else (0, out))"
  using KeyslotUnwrapWithDK_spec [OF assms] by (simp add: dk_tag_def dk_cipher_def)

theorem keyslot_unwrap_authentic_witness:
  "KeyslotUnwrapWithDK (zeros 72) [1] [2] (map ((XOR) 1) (hmac_sha256 (zeros 32) [1, 2])) [9] = (0, [9])"
proof -
  have "map ((XOR) 1) (hmac_sha256 (zeros 32) [1, 2]) \<noteq> hmac_sha256 (zeros 32) [1, 2]"
    by (rule xor_1_list) (simp flip: length_greater_0_conv)
  then show ?thesis by (subst keyslot_unwrap_authentic) (simp_all add: slice_zeros)
qed

text \<open>C25. Merging the stripes of a split gives the material back, for every length up to 1024, every number of stripes and
  every random source.\<close>

theorem af_merge_split:
  assumes "0 < n" "n \<le> 1024" "1 \<le> s" "length material = nat n" "nat s * nat n \<le> length stripes"
    "\<And>k g. length (fst (rng k g)) = k"
  shows "\<exists>st g'. AfSplit (Some material) n s (Some rng) g (Some stripes) = (0, Some st, g') \<and>
    length st = length stripes \<and> AfMerge st n s out = store_at 0 material out"
  using AfSplit_merges [OF assms(1-5), of "Some rng" rng g] assms(6) by blast

theorem af_merge_split_witness:
  "\<exists>st g'. AfSplit (Some [1, 2, 3]) 3 4 (Some (\<lambda>k g. (replicate k g, g + 1))) 7 (Some (zeros 12)) = (0, Some st, g') \<and>
     length st = length (zeros 12) \<and> AfMerge st 3 4 (zeros 3) = store_at 0 [1, 2, 3] (zeros 3)"
  by (rule af_merge_split) simp_all

text \<open>With the other stripes fixed, the merged material determines the last stripe and conversely: changing one bit of
  it changes the material.\<close>

theorem af_last_stripe:
  assumes "0 < n" "n \<le> 1024" "1 \<le> s" "length pre = (nat s - 1) * nat n" "length a = nat n" "length b = nat n"
  shows "AfMerge (pre @ a) n s (zeros (nat n)) = AfMerge (pre @ b) n s (zeros (nat n)) \<longleftrightarrow> a = b"
proof -
  define buf where "buf = fold (af_merge_step pre (nat n)) [0..<nat s - 1] (zeros (nat n))"
  have chain: "fold (af_merge_step (pre @ x) (nat n)) [0..<nat s - 1] (zeros (nat n)) = buf" for x
    unfolding buf_def
  proof (rule fold_cong)
    fix i assume "i \<in> set [0..<nat s - 1]"
    then have "Suc i * nat n \<le> (nat s - 1) * nat n" by (intro mult_le_mono1) simp
    then have "slice (i * nat n) (nat n) (pre @ x) = slice (i * nat n) (nat n) pre"
      using assms(4) by (intro slice_append_left) simp
    then show "af_merge_step (pre @ x) (nat n) i = af_merge_step pre (nat n) i"
      by (simp add: af_merge_step_def fun_eq_iff)
  qed simp_all
  have "length buf = nat n" by (simp add: buf_def)
  have m: "AfMerge (pre @ x) n s (zeros (nat n)) = xor_bytes x buf" if "length x = nat n" for x
    using assms(1-4) that \<open>length buf = nat n\<close>
    by (simp add: AfMerge_def Let_def chain [unfolded One_nat_def] af_xor_bytes slice_append_right store_at_def)
  have "xor_bytes a buf = xor_bytes b buf \<longleftrightarrow> a = b"
    by (metis xor_bytes_cancel_right assms(5,6) \<open>length buf = nat n\<close> order_refl)
  then show ?thesis by (simp add: m assms(5,6))
qed

theorem af_last_stripe_witness:
  "AfMerge ([9, 9] @ [1, 2]) 2 2 (zeros 2) \<noteq> AfMerge ([9, 9] @ [1, 3]) 2 2 (zeros 2)"
  using af_last_stripe [of 2 2 "[9, 9]" "[1, 2]" "[1, 3]"] by simp

text \<open>One call on a freshly initialised context adds the key stream of the blocks with counters 0, 1, 2, ... to the
  message, so encrypting twice gives the message back.\<close>

theorem chacha_keystream:
  "chacha20 key iv m = xor_bytes m (keystream 10 ((length m + 63) div 64)
     (input_w (ChaCha256Init key iv 20 chacha_uninit))) \<and>
   chacha20 key iv (chacha20 key iv m) = m"
  using chacha20_keystream chacha20_involution by blast

text \<open>C26. Hashing a message in any pieces, in any sizes, gives the FIPS 180-4 digest of the whole, as long as it is
  shorter than 2^29 bytes.\<close>

theorem sha256_streaming:
  assumes "length (wbuf ctx) = 64" "length (concat parts) < 2 ^ 29"
  shows "fst (sha256_end (fold (\<lambda>d c. sha256_hash d (of_nat (length d)) c) parts (sha256_begin ctx))) =
    fips_sha256 (concat parts)"
  using sha.digest_of_parts [of ctx parts] sha.finish_digest [of _ "concat parts"] assms
  by (simp add: sha_update_def [abs_def] sha_valid_def sha_max_def)

theorem sha256_streaming_witness:
  "fst (sha256_end (fold (\<lambda>d c. sha256_hash d (of_nat (length d)) c) [[0x61], [0x62, 0x63]] (sha256_begin ctx_uninit))) =
   fips_sha256 [0x61, 0x62, 0x63]"
  using sha256_streaming [of ctx_uninit "[[0x61], [0x62, 0x63]]"] by (simp add: ctx_uninit_def)

section \<open>Headers and areas\<close>

text \<open>C14. Whatever sequence of header updates and crashes in the middle of a write produced the two header
  copies, selecting between them yields the header that was committed last, provided a torn copy does not carry a valid tag by
  accident (the hypothesis of the step \<open>torn\<close>).\<close>

theorem atomic_header_recovery:
  assumes "length K = 32" "n + 72 < 2 ^ 29" "ah_reachable K n s" "length buf = n"
  shows "\<exists>c g. AtomicHeaderSelect K (slotA s) (slotB s) n (Some buf) (Some g0) = (c, Some (committed s), Some g) \<and> c \<in> {0, 1}"
proof -
  have inv: "ah_inv K n s" by (rule ah_inv_reachable) (use assms in simp_all)
  then have "length (committed s) = n" unfolding ah_inv_def by (metis length_take le_add1 min.absorb2)
  then have "store_at 0 (committed s) buf = committed s" using assms(4) by (simp add: store_at_def)
  with inv show ?thesis by (auto simp: ah_inv_def select_A select_B)
qed

definition demo_ah :: ah_disk where
  "demo_ah = \<lparr>slotA = AtomicHeaderBuild (zeros 32) [1, 2] 2 1 (zeros (2 + 40)),
     slotB = AtomicHeaderBuild (zeros 32) [3, 4] 2 2 (zeros (2 + 40)), committed = [3, 4]\<rparr>"

lemma demo_ah_reachable: "ah_reachable (zeros 32) 2 demo_ah"
  unfolding demo_ah_def by (rule ah_reachable.both) simp_all

lemma demo_ah_next_gen: "AtomicHeaderNextGen (zeros 32) (slotA demo_ah) (slotB demo_ah) 2 = 3"
  by (simp add: demo_ah_def AtomicHeaderBuild_copy AtomicHeaderNextGen_def Let_def ah_copy_valid)

theorem atomic_header_recovery_witness:
  "\<exists>s :: ah_disk. committed s = [5, 6] \<and>
     fst (snd (AtomicHeaderSelect (zeros 32) (slotA s) (slotB s) 2 (Some [0, 0]) (Some 0))) = Some [5, 6]"
proof -
  define t where "t = (ah_write_inactive (zeros 32) 2 (ah_next (zeros 32) 2 [5, 6] demo_ah) demo_ah)\<lparr>committed := [5, 6]\<rparr>"
  have "ah_step (zeros 32) 2 demo_ah t"
    unfolding t_def by (rule ah_step.commit) (simp_all add: demo_ah_next_gen)
  with demo_ah_reachable have "ah_reachable (zeros 32) 2 t" by (rule ah_reachable.step)
  from atomic_header_recovery [OF _ _ this, of "[0, 0]" 0] have
    "fst (snd (AtomicHeaderSelect (zeros 32) (slotA t) (slotB t) 2 (Some [0, 0]) (Some 0))) = Some (committed t)"
    by auto
  moreover have "committed t = [5, 6]" by (simp add: t_def)
  ultimately show ?thesis by auto
qed

text \<open>C21. An update of a recovered pair of copies can always be carried out while generations are left, and it takes
  effect: after the new copy is written over the inactive one, selection returns the new header with the next generation, whatever the
  other copy holds.\<close>

theorem atomic_header_progress:
  assumes "length K = 32" "n + 72 < 2 ^ 29" "ah_reachable K n s" "length h = n" "length buf = n"
    "AtomicHeaderNextGen K (slotA s) (slotB s) n \<noteq> 0"
  shows "\<exists>s'. ah_step K n s s' \<and> committed s' = h \<and>
    (\<exists>c. AtomicHeaderSelect K (slotA s') (slotB s') n (Some buf) (Some g0) =
      (c, Some h, Some (AtomicHeaderNextGen K (slotA s) (slotB s) n)))"
proof -
  let ?c = "ah_next K n h s"
  let ?s' = "(ah_write_inactive K n ?c s)\<lparr>committed := h\<rparr>"
  have c: "?c = ah_copy K h (AtomicHeaderNextGen K (slotA s) (slotB s) n)"
    unfolding ah_next_def by (rule AtomicHeaderBuild_copy) (use assms in simp_all)
  note v = ah_copy_valid [OF assms(1,4,2)]
  have "newer K n ?c (slotA s)" "newer K n ?c (slotB s)"
    using next_gen_greater [OF assms(6)] by (auto simp: newer_def c v)
  then have "\<exists>c. AtomicHeaderSelect K (slotA ?s') (slotB ?s') n (Some buf) (Some g0) =
      (c, Some h, Some (AtomicHeaderNextGen K (slotA s) (slotB s) n))"
    using assms(4,5) by (auto simp: ah_write_inactive_def select_A select_B c v store_at_def)
  moreover have "ah_step K n s ?s'" using assms(4,6) by (rule ah_step.commit)
  ultimately show ?thesis by (intro exI [of _ ?s']) simp
qed

theorem atomic_header_progress_witness:
  "\<exists>s' :: ah_disk. committed s' = [5, 6] \<and>
     snd (AtomicHeaderSelect (zeros 32) (slotA s') (slotB s') 2 (Some [0, 0]) (Some 0)) = (Some [5, 6], Some 3)"
  using atomic_header_progress [OF _ _ demo_ah_reachable, of "[5, 6]" "[0, 0]" 0] by (auto simp: demo_ah_next_gen)

text \<open>A backup of an area succeeds, verifies, and restoring it over an area of the same size, whatever that
  area holds by then, brings back exactly the bytes that were saved.\<close>

theorem header_backup_roundtrip:
  assumes "ksaf_good c" "length (ksaf_contents c) + 49 < 2 ^ 29" "length out = length (ksaf_contents c) + 49"
    "ksaf_good d" "length (ksaf_contents d) = length (ksaf_contents c)"
  shows "\<exists>blob d'. HeaderBackupCreate (file_area c) out (of_nat (length out)) (Some l0) =
      (0, blob, Some (of_nat (length blob))) \<and>
    HeaderBackupVerify blob (of_nat (length blob)) = 0 \<and>
    HeaderBackupRestore blob (of_nat (length blob)) (file_area d) = (0, file_area d') \<and>
    ksaf_good d' \<and> ksaf_contents d' = ksaf_contents c"
proof -
  let ?b = "hb_blob (ksaf_contents c)"
  have "HeaderBackupVerify ?b (of_nat (length ?b)) = 0"
    using HeaderBackupVerify_iff [of ?b] assms(2) by auto
  moreover obtain d' where "HeaderBackupRestore ?b (of_nat (length ?b)) (file_area d) = (0, file_area d')" "ksaf_good d'"
    "ksaf_contents d' = store_at 0 (ksaf_contents c) (ksaf_contents d)"
    using ksaf.HeaderBackupRestore_blob [OF assms(4,2)] assms(5) by auto
  moreover have "store_at 0 (ksaf_contents c) (ksaf_contents d) = ksaf_contents c"
    using assms(5) by (simp add: store_at_def)
  ultimately show ?thesis
    using ksaf.HeaderBackupCreate_spec [OF assms(1,2), of out 0 l0] assms(2,3)
    by (intro exI [of _ ?b] exI [of _ d']) simp
qed

theorem header_backup_roundtrip_witness:
  "\<exists>blob d'. HeaderBackupCreate (file_area demo_file) (zeros 4145) 4145 (Some 0) = (0, blob, Some 4145) \<and>
     HeaderBackupRestore blob 4145 (file_area demo_file) = (0, file_area d') \<and> ksaf_contents d' = zeros 4096"
proof -
  obtain blob d' where b: "HeaderBackupCreate (file_area demo_file) (zeros 4145) (of_nat (length (zeros 4145))) (Some 0) =
      (0, blob, Some (of_nat (length blob)))" "HeaderBackupVerify blob (of_nat (length blob)) = 0"
    "HeaderBackupRestore blob (of_nat (length blob)) (file_area demo_file) = (0, file_area d')"
    "ksaf_contents d' = ksaf_contents demo_file"
    using header_backup_roundtrip [of demo_file "zeros 4145" demo_file 0] by (auto simp: demo_good)
  have "blob = hb_blob (zeros 4096)"
    using b(1) ksaf.HeaderBackupCreate_spec [OF demo_good(1), of "zeros 4145" 0 0] by (simp add: demo_good)
  then show ?thesis using b by (intro exI [of _ blob] exI [of _ d']) (simp add: demo_good)
qed

text \<open>Restoring anything that is not a well-formed backup with a matching digest, or that is larger than the
  area, fails and leaves the area alone.\<close>

theorem header_backup_untouched:
  assumes "ksaf_good c" "length blob < 2 ^ 29"
    "HeaderBackupRestore blob (of_nat (length blob)) (file_area c) = (rc, area')" "rc \<noteq> 0"
  shows "area' = file_area c \<and> (\<forall>a. blob = hb_blob a \<longrightarrow> length (ksaf_contents c) < length a)"
  using ksaf.HeaderBackupRestore_spec [OF assms(1-3)] assms(2,4) hb_blob_inject by (metis length_hb_blob)

theorem header_backup_untouched_witness:
  "HeaderBackupRestore (zeros 60) 60 (file_area demo_file) = (- 1, file_area demo_file)"
proof -
  have "zeros 8 ! 0 = 0" "HB_MAGIC ! 0 \<noteq> 0" by (simp_all add: zeros_def HB_MAGIC_def cstr_def)
  then have "zeros 8 \<noteq> HB_MAGIC" by metis
  then have r: "fst (HeaderBackupRestore (zeros 60) (of_nat (length (zeros 60))) (file_area demo_file)) = - 1"
    by (simp add: HeaderBackupRestore_def HeaderBackupVerify_def slice_zeros)
  then obtain area' where a: "HeaderBackupRestore (zeros 60) (of_nat (length (zeros 60))) (file_area demo_file) = (- 1, area')"
    by (cases "HeaderBackupRestore (zeros 60) (of_nat (length (zeros 60))) (file_area demo_file)") auto
  from header_backup_untouched [OF demo_good(1) _ a] a show ?thesis by simp
qed

text \<open>After the area tag was written outside the protected region, verification with the same key succeeds, and
  the bytes outside the trailer are those from before.\<close>

theorem area_mac_write_verify:
  assumes "ksaf_good c" "length kArea = 32" "unat n + 77 < 2 ^ 29" "unat n \<le> unat off" "unat off + 46 \<le> length (ksaf_contents c)"
  shows "\<exists>c'. KeyslotAreaMacWrite (file_area c) n off kArea = (0, file_area c') \<and>
    KeyslotAreaMacVerify (file_area c') n off kArea = 0 \<and>
    take (unat off) (ksaf_contents c') = take (unat off) (ksaf_contents c) \<and>
    drop (unat off + 46) (ksaf_contents c') = drop (unat off + 46) (ksaf_contents c)"
proof -
  let ?m = "ksaf_contents c" and ?t = "area_trailer kArea (ksaf_contents c) (unat n)"
  have n: "unat n \<le> length ?m" using assms by simp
  obtain c' where c': "KeyslotAreaMacWrite (file_area c) n off kArea = (0, file_area c')" "ksaf_good c'"
    "ksaf_contents c' = store_at (unat off) ?t ?m"
    using ksaf.KeyslotAreaMacWrite_spec [OF assms(1) n assms(3,2,5)] by blast
  have len: "length (ksaf_contents c') = length ?m" using assms(5) by (simp add: c'(3) length_store_at)
  have eq: "take (unat off) (ksaf_contents c') = take (unat off) ?m" "slice (unat off) 46 (ksaf_contents c') = ?t"
    "drop (unat off + 46) (ksaf_contents c') = drop (unat off + 46) ?m"
    using assms(5) by (simp_all add: c'(3) store_at_def slice_def)
  have "take (unat n) (ksaf_contents c') = take (unat n) ?m"
    using arg_cong [OF eq(1), of "take (unat n)"] assms(4) by (simp add: min_def)
  then have "area_trailer kArea (ksaf_contents c') (unat n) = ?t" by (rule area_trailer_region)
  then have "KeyslotAreaMacVerify (file_area c') n off kArea = 0"
    using ksaf.KeyslotAreaMacVerify_spec [OF c'(2) _ assms(3,2), of off] n assms(5) len eq(2)
    by (simp add: area_trailer_magic)
  with c'(1) eq show ?thesis by blast
qed

theorem area_mac_write_verify_witness:
  "\<exists>c'. KeyslotAreaMacWrite (file_area demo_file) 2048 3000 (zeros 32) = (0, file_area c') \<and>
     KeyslotAreaMacVerify (file_area c') 2048 3000 (zeros 32) = 0"
  using area_mac_write_verify [OF demo_good(1), of "zeros 32" 2048 3000] by (auto simp: demo_good)

text \<open>Verification accepts exactly when the trailer is the magic, the version, the number of occupied slots and the
  HMAC-SHA-256 under the area key of the magic, that number and the region: a change of any byte of the region, of the count or of the
  tag that is accepted is a forged HMAC.\<close>

theorem area_mac_verify:
  assumes "ksaf_good c" "length kArea = 32" "unat n + 77 < 2 ^ 29" "unat n \<le> length (ksaf_contents c)"
    "unat off + 46 \<le> length (ksaf_contents c)"
    "k = length (filter (\<lambda>i. occupied (ksaf_contents c) i) [0..<unat n div 1024])"
  shows "KeyslotAreaMacVerify (file_area c) n off kArea = 0 \<longleftrightarrow>
    slice (unat off) 46 (ksaf_contents c) = KAM_TRAILER_MAGIC @ [1] @ be_bytes 4 (of_nat k :: u32) @
      hmac_sha256 kArea (KAM_TRAILER_MAGIC @ be_bytes 4 (of_nat k :: u32) @ take (unat n) (ksaf_contents c))"
proof -
  have "slot_marks (ksaf_contents c) (unat n) = of_nat k"
    unfolding assms(6) by (simp add: slot_marks_def occupied_def [abs_def])
  then have "area_trailer kArea (ksaf_contents c) (unat n) = KAM_TRAILER_MAGIC @ [1] @ be_bytes 4 (of_nat k :: u32) @
      hmac_sha256 kArea (KAM_TRAILER_MAGIC @ be_bytes 4 (of_nat k :: u32) @ take (unat n) (ksaf_contents c))"
    by (simp add: area_trailer_def area_msg_def put_u32_be_bytes)
  then show ?thesis
    using ksaf.KeyslotAreaMacVerify_spec [OF assms(1,4,3,2,5)] area_trailer_magic [of kArea "ksaf_contents c" "unat n"]
    by (auto simp: Let_def)
qed

theorem area_mac_verify_witness:
  "KeyslotAreaMacVerify (file_area demo_file) 2048 3000 (zeros 32) \<noteq> 0"
proof -
  have "zeros 46 ! 0 = 0" "(KAM_TRAILER_MAGIC @ x) ! 0 \<noteq> 0" for x
    by (simp_all add: zeros_def KAM_TRAILER_MAGIC_def cstr_def)
  then have "zeros 46 \<noteq> KAM_TRAILER_MAGIC @ x" for x by metis
  then show ?thesis
    using area_mac_verify [OF demo_good(1), of "zeros 32" 2048 3000 "length (filter (\<lambda>i. occupied (zeros 4096) i) [0..<2])"]
    by (simp add: demo_good slice_zeros)
qed

text \<open>A label of at most 48 bytes that was set under a passphrase is read back, NUL-terminated, with the same
  passphrase and cost, into any buffer that has room for it.\<close>

theorem volume_label_roundtrip:
  assumes "length label \<le> 48" "length (fst (rnd 32 g)) = 32" "length out = 128"
    "length buf = nat bufCap" "bufCap > int (length label)"
    "VolumeLabelSet derive n pass label (int (length label)) rnd g out = (rc, rec, g')"
  shows "rc = 0 \<and> length rec = 128 \<and>
    VolumeLabelGet derive n pass rec (Some buf) bufCap = (int (length label), Some (store_at 0 (label @ [0]) buf))"
proof -
  obtain salt g1 where s: "rnd 32 g = (salt, g1)" by force
  then have l: "length salt = 32" using assms(2) by simp
  have r: "rc = 0" "rec = label_record (derive pass salt n 72) salt (label_frame label)"
    using VolumeLabelSet_spec [OF assms(1) _ l assms(3), of rnd g g1] s assms(6) by auto
  show ?thesis
    using VolumeLabelGet_record [OF assms(1) l assms(4,5)] l assms(1) unfolding r by (simp add: label_record_def)
qed

theorem volume_label_roundtrip_witness:
  "\<exists>rec. VolumeLabelSet (\<lambda>p s c n. zeros n) 1 [7] (cstr ''data'') 4 (\<lambda>n g. (zeros n, g)) () (zeros 128) = (0, rec, ()) \<and>
     VolumeLabelGet (\<lambda>p s c n. zeros n) 1 [7] rec (Some (zeros 6)) 6 = (4, Some (cstr ''data'' @ [0, 0]))"
proof -
  obtain rc rec g' where a: "VolumeLabelSet (\<lambda>p s c n. zeros n) 1 [7] (cstr ''data'') (int (length (cstr ''data''))) (\<lambda>n g. (zeros n, g)) ()
      (zeros 128) = (rc, rec, g')"
    using prod_cases3 by blast
  have "store_at 0 (cstr ''data'' @ [0]) (zeros 6) = cstr ''data'' @ [0, 0]"
    by (simp add: store_at_def zeros_def)
  then show ?thesis
    using volume_label_roundtrip [OF _ _ _ _ _ a, of "zeros 6" 6] a by (intro exI [of _ rec]) simp
qed

section \<open>Randomness and key memory\<close>

text \<open>C20. A generator that was initialised with any seed and skip count is well-formed, and so it stays: every
  request returns exactly the bytes asked for, the buffer keeps its 1024 bytes, and everything before the unread part of it, in
  particular what was handed out and the seed of the next key, is zero.\<close>

theorem chacha_rng_wellformed:
  assumes "seed_ok cb" "cg = ChaCha20RngInit key cb skip g \<or> rng_inv (fst cg)"
    "ChaCha20RngGetBytes cb n cg = (out, ctx, g')"
  shows "length out = n \<and> rng_inv ctx \<and> length (m_rs_buf ctx) = 1024 \<and>
    (\<forall>i < 1024 - m_rs_have ctx. m_rs_buf ctx ! i = 0)"
proof -
  have "rng_inv (fst cg)" using assms(2) ChaCha20RngInit_inv [OF assms(1)] by auto
  then have inv: "length out = n" "rng_inv ctx" using ChaCha20RngGetBytes_inv [OF assms(1), of cg n] assms(3) by auto
  have "m_rs_buf ctx ! i = 0" if "i < 1024 - m_rs_have ctx" for i
  proof -
    have "m_rs_buf ctx ! i = take (1024 - m_rs_have ctx) (m_rs_buf ctx) ! i" using that by simp
    also have "\<dots> = zeros (1024 - m_rs_have ctx) ! i" using inv(2) by (simp add: rng_inv_def)
    also have "\<dots> = 0" using that by (simp add: zeros_def)
    finally show ?thesis .
  qed
  then show ?thesis using inv by (simp add: rng_inv_def)
qed

theorem chacha_rng_wellformed_witness:
  "\<exists>out ctx. ChaCha20RngGetBytes (Some (\<lambda>n g. (zeros n, g))) 2000 (ChaCha20RngInit (zeros 40) (Some (\<lambda>n g. (zeros n, g))) 3 ()) =
     (out, ctx, ()) \<and> length out = 2000 \<and> rng_inv ctx"
proof -
  obtain out ctx u where a: "ChaCha20RngGetBytes (Some (\<lambda>n g. (zeros n, g))) 2000
      (ChaCha20RngInit (zeros 40) (Some (\<lambda>n g. (zeros n, g))) 3 ()) = (out, ctx, u)" by (metis prod_cases3)
  have "seed_ok (Some (\<lambda>n g. (zeros n, g)))" by (simp add: seed_ok_def)
  from chacha_rng_wellformed [OF this _ a] a show ?thesis by auto
qed

text \<open>C22. The registry of sensitive regions, a fixed array that is compacted by moving the last entry, implements a
  finite map from pointers to lengths with at most 64 keys: registering updates it, or fails with -1 and changes nothing when it is full,
  unregistering removes the key, and the count is the size of the map.\<close>

theorem scrub_registry_map:
  assumes "ks_inv r" "p \<noteq> 0" "len \<noteq> 0" "VcScrubRegister p len r = (rc, r')"
  shows "ks_inv r' \<and> ks_inv (VcScrubUnregister p r) \<and>
    (if p \<in> dom (tracked r) \<or> card (dom (tracked r)) < 64 then rc = 0 \<and> tracked r' = (tracked r)(p \<mapsto> len) else rc = - 1 \<and> r' = r) \<and>
    tracked (VcScrubUnregister p r) = (tracked r)(p := None) \<and> VcScrubRegionCount r = card (dom (tracked r))"
  using VcScrubRegister_spec [OF assms(1-3)] VcScrubUnregister_spec [OF assms(1), of p] card_tracked [OF assms(1)] assms(4)
  by (simp add: VcScrubRegionCount_def)

theorem scrub_registry_map_witness:
  "\<exists>r'. VcScrubRegister 4096 32 \<lparr>ksRegions = replicate 64 (0, 0), ksRegionCount = 0\<rparr> = (0, r') \<and> tracked r' 4096 = Some 32"
proof -
  let ?r = "\<lparr>ksRegions = replicate 64 (0, 0), ksRegionCount = 0\<rparr>"
  obtain rc r' where a: "VcScrubRegister 4096 32 ?r = (rc, r')" by force
  have "ks_inv ?r" "dom (tracked ?r) = {}" by (simp_all add: ks_inv_def tracked_def)
  then show ?thesis using scrub_registry_map [OF _ _ _ a] a by auto
qed

text \<open>Scrubbing zeroes every byte of every registered region, changes no other byte of memory and reports the number
  of regions.\<close>

theorem scrub_all_clears:
  assumes "ks_inv r" "VcScrubAll r h = (n, h')"
  shows "n = card (dom (tracked r)) \<and>
    (\<forall>p len a. tracked r p = Some len \<longrightarrow> p \<le> a \<longrightarrow> a < p + len \<longrightarrow> h' a = 0) \<and>
    (\<forall>a. (\<forall>p len. tracked r p = Some len \<longrightarrow> a < p \<or> p + len \<le> a) \<longrightarrow> h' a = h a)"
  using VcScrubAll_spec [OF assms(1), of h] card_tracked [OF assms(1)] assms(2) by auto (metis leD)+

theorem scrub_all_clears_witness:
  "\<exists>n h'. VcScrubAll \<lparr>ksRegions = (4096, 2) # replicate 63 (0, 0), ksRegionCount = 1\<rparr> (\<lambda>a. 7) = (n, h') \<and>
     h' 4097 = 0 \<and> h' 4098 = 7"
proof -
  let ?r = "\<lparr>ksRegions = (4096, 2) # replicate 63 (0, 0), ksRegionCount = 1\<rparr>"
  obtain n h' where a: "VcScrubAll ?r (\<lambda>a. 7) = (n, h')" by force
  have "ks_inv ?r" by (simp add: ks_inv_def)
  moreover have "tracked ?r = [4096 \<mapsto> 2]" by (simp add: tracked_def)
  ultimately show ?thesis using scrub_all_clears [OF _ a] a by (auto split: if_splits)
qed

section \<open>Hardware factors\<close>

text \<open>The version 1 mix of a token response into the password, a rolling CRC-32 added into 128 bytes, loses nothing of
  a response of at most 32 bytes: two different responses of the same length give different passwords.\<close>

theorem hkf_mix_injective:
  assumes "128 \<le> length pw" "length r = length r'" "length r \<le> 32"
    "fst (HKFMixResponseIntoPassword pw len r) = fst (HKFMixResponseIntoPassword pw len r')"
  shows "r = r'"
proof -
  have "hkf_pool r ! i = hkf_pool r' ! i" if "i < 128" for i
    using arg_cong [OF assms(4), of "\<lambda>x. x ! i"] that by (simp add: HKFMixResponseIntoPassword_spec [OF assms(1)] nth_append)
  then have "hkf_pool r = hkf_pool r'" using assms(2,3) by (intro nth_equalityI) (simp_all add: length_hkf_pool_short)
  with hkf_pool_inject [OF assms(2,3)] show ?thesis .
qed

theorem hkf_mix_injective_witness:
  "fst (HKFMixResponseIntoPassword (zeros 128) 4 [1, 2, 3]) \<noteq> fst (HKFMixResponseIntoPassword (zeros 128) 4 [1, 2, 4])"
  using hkf_mix_injective [of "zeros 128" "[1, 2, 3]" "[1, 2, 4]" 4] by auto

text \<open>C23. The version 2 mix replaces the password by 128 bytes of HKDF-SHA-256 (RFC 5869) of password and response, with the
  volume salt as the extraction salt, or 32 zero bytes when there is none.\<close>

theorem hkf_mix_v2_hkdf:
  assumes "length salt < 2 ^ 29" "length pw + length r + 64 < 2 ^ 29" "0 \<le> len"
  shows "HKFMixResponseIntoPasswordVerSalt HKF_MIX_V2 pw len r (Some salt) =
      (store_at 0 (hkdf_sha256 (if salt = [] then zeros 32 else salt) (take (nat len) pw @ r) (cstr ''VeraCrypt/HKF/mix/v2'') 128) pw, 128) \<and>
    HKFMixResponseIntoPasswordVer HKF_MIX_V2 pw len r = HKFMixResponseIntoPasswordVerSalt HKF_MIX_V2 pw len r NULL"
  using assms hkf_v2_mix_spec [of salt pw r len] hkf_v2_mix_spec [of "zeros 32" pw r len]
  by (simp add: HKFMixResponseIntoPasswordVerSalt_def HKFMixResponseIntoPasswordVer_def HKFMixResponseIntoPasswordV2_def
      HKFMixResponseIntoPasswordV2Salt_def HKF_V2_INFO_def)

theorem hkf_mix_v2_hkdf_witness:
  "snd (HKFMixResponseIntoPasswordVerSalt HKF_MIX_V2 (zeros 128) 3 [1, 2] (Some [9])) = 128"
  using hkf_mix_v2_hkdf [of "[9]" "zeros 128" "[1, 2]" 3] by simp


definition demo_hkf :: HKFConfig where
  "demo_hkf = \<lparr>hkBackend = HKF_BACKEND_RAW_SECRET, fidoPin = zeros 128, simSecret = zeros 64, simSecretLen = 0,
     rawSecret = 5 # zeros 63, rawSecretLen = 2, rawSecretBindSalt = False, rawSecretNoBindSalt = True, applyPolicy = 0\<rparr>"

definition demo_hkf_store :: hkf_store where
  "demo_hkf_store = \<lparr>hkArea = \<lparr>ksArea = Some (zeros 64), ksHashMask = 1, ksIVMask = 2, ksAreaBase = 3\<rparr>,
     hkConfigs = [4096 \<mapsto> demo_hkf], g_hkfActiveConfig = NULL\<rparr>"


text \<open>C17. Detaching the active configuration and adopting it again, as the self-test of the ciphers does around its run,
  applies the self-inverse encryption a second time: the secrets are then in the clear in memory, and responses are computed
  from the encrypted ones.\<close>

theorem hkf_suspend_restore:
  assumes "hkConfigs s p = Some c" "hkBackend c \<noteq> HKF_BACKEND_NONE"
    "s' = HKFSetActiveConfig (Some p) (HKFSetActiveConfig NULL (HKFSetActiveConfig (Some p) s))"
  shows "hkConfigs s' p = Some c \<and>
    fst (HKFComputeActiveResponse ch out s') = hkf_response (hkf_toggle_config (hkArea s) p c) ch out 0"
proof -
  let ?s = "HKFSetActiveConfig NULL (HKFSetActiveConfig (Some p) s)"
  have "hkConfigs ?s p = Some (hkf_toggle_config (hkArea s) p c)" "hkArea ?s = hkArea s"
    using assms(1) by (simp_all add: HKFSetActiveConfig_simps)
  then have c: "hkConfigs s' p = Some c" "g_hkfActiveConfig s' = Some p" "hkArea s' = hkArea s"
    using assms(3) by (simp_all add: HKFSetActiveConfig_simps)
  then show ?thesis
    using HKFComputeResponse_spec [OF c(1), of ch out 0] assms(2)
    by (simp add: HKFComputeActiveResponse_def hkf_deref_def)
qed

theorem hkf_suspend_restore_witness:
  "hkConfigs (HKFSetActiveConfig (Some 4096) (HKFSetActiveConfig NULL (HKFSetActiveConfig (Some 4096) demo_hkf_store))) 4096 = Some demo_hkf"
proof -
  have "hkConfigs demo_hkf_store 4096 = Some demo_hkf" "hkBackend demo_hkf \<noteq> HKF_BACKEND_NONE"
    by (simp_all add: demo_hkf_store_def demo_hkf_def HKF_BACKEND_NONE_def HKF_BACKEND_RAW_SECRET_def)
  from hkf_suspend_restore [OF this refl] show ?thesis by blast
qed

text \<open>C15. Enrolling a set of tokens into the table on a file succeeds whenever there are as many free slots as
  tokens, and afterwards every single token opens the volume: there is a slot that gives its response the volume key, and the constant-time
  search over the table reports a match for it.\<close>

theorem orset_every_token_opens:
  assumes "ksaf_good c" "cfg_ok cfg" "length vmk = nat (vmkLen cfg)" "\<And>i. length (payload0 i) = 521"
    "unat (n_slots cfg (file_area c)) \<le> 2 ^ 31" "0 < nTokens" "0 < rowStride"
    "nTokens \<le> int (card {k. k < unat (n_slots cfg (file_area c)) \<and> \<not> occupied (ksaf_contents c) k})"
    "\<forall>i<nat nTokens. 0 < lens ! i \<and> lens ! i \<le> rowStride" "length responses = nat rowStride * nat nTokens"
    "HkfOrSetEnroll (Some cfg) (Some (file_area c)) (Some responses) (Some lens) rowStride nTokens (Some vmk) payload0 g = (rc, area', g')"
    "i < nat nTokens" "resp = slice (i * nat rowStride) (nat (lens ! i)) responses"
  shows "rc = nTokens \<and> (\<exists>a k. area' = Some a \<and>
    KeyslotOpenAt cfg a k resp vo fo = (1, store_at 0 vmk vo, map_option (\<lambda>_. 0) fo) \<and>
    fst (HkfOrSetOpen (Some cfg) area' (Some resp) (Some vo) fo) = 1)"
proof -
  have "nat nTokens \<le> card (free_slots (unat (n_slots cfg (file_area c))) (ksaf_contents c))"
    using assms(6,8) by (simp add: free_slots_def)
  then have "fst (orset_enroll_loop cfg responses lens rowStride vmk payload0 [0..<nat nTokens] (file_area c) g)"
    using assms(9) by (intro ksaf.orset_enroll_loop_succeeds [OF assms(1-5)]) simp_all
  then obtain a where loop: "orset_enroll_loop cfg responses lens rowStride vmk payload0 [0..<nat nTokens] (file_area c) g = (True, a, g')"
    and rc: "rc = nTokens" "area' = Some a"
    using assms(6,7,11) by (auto simp: HkfOrSetEnroll_def split: prod.splits)
  obtain c' where c': "a = file_area c'" "ksaf_good c'" "n_slots cfg (file_area c') = n_slots cfg (file_area c)"
    "\<forall>i\<in>set [0..<nat nTokens]. 0 < lens ! i \<and> lens ! i \<le> rowStride \<and> (\<exists>k<unat (n_slots cfg (file_area c)).
       slot_holds cfg vmk (ksaf_contents c') (slice (i * nat rowStride) (nat (lens ! i)) responses) k)"
    using ksaf.orset_enroll_loop_holds [OF assms(1-5) loop] by blast
  moreover have "i \<in> set [0..<nat nTokens]" using assms(12) by simp
  ultimately obtain k where "k < unat (n_slots cfg (file_area c'))" "slot_holds cfg vmk (ksaf_contents c') resp k"
    unfolding assms(13) by metis
  note opens = ksaf.slot_holds_open [OF c'(2) assms(2) this]
  have "Suc i * nat rowStride \<le> length responses" using assms(12) unfolding assms(10) by (subst mult.commute) (rule mult_le_mono2, simp)
  then have "i * nat rowStride < length responses" using assms(7) by simp
  then have "resp \<noteq> []" using assms(9,12) by (auto simp: assms(13) slice_def)
  then have "fst (HkfOrSetOpen (Some cfg) area' (Some resp) (Some vo) fo) = fst (KeyslotOpen cfg (file_area c') resp vo fo)"
    using rc(2) c'(1) by (simp add: HkfOrSetOpen_def split: prod.split)
  then show ?thesis using rc c'(1) opens by auto
qed

theorem orset_every_token_opens_witness:
  "\<exists>area'. HkfOrSetEnroll (Some (demo_cfg 0)) (Some (file_area demo_file)) (Some [1, 2, 3, 4]) (Some [2, 1]) 2 2
      (Some (zeros 32)) (\<lambda>i. zeros 521) () = (2, area', ()) \<and>
    fst (HkfOrSetOpen (Some (demo_cfg 0)) area' (Some [3]) (Some (zeros 32)) NULL) = 1"
proof -
  let ?e = "HkfOrSetEnroll (Some (demo_cfg 0)) (Some (file_area demo_file)) (Some [1, 2, 3, 4]) (Some [2, 1]) 2 2
      (Some (zeros 32)) (\<lambda>i. zeros 521) ()"
  obtain rc area' u where a: "?e = (rc, area', u)" by (metis prod_cases3)
  have "{k. k < 4 \<and> \<not> occupied (zeros 4096) k} = {..<4}" using demo_free by (auto simp: demo_good)
  then have free: "2 \<le> int (card {k. k < unat (n_slots (demo_cfg 0) (file_area demo_file)) \<and> \<not> occupied (ksaf_contents demo_file) k})"
    by (simp add: demo_good)
  have lens: "\<forall>i<nat 2. 0 < [2, 1 :: int] ! i \<and> [2, 1 :: int] ! i \<le> 2" by (simp add: numeral_2_eq_2 All_less_Suc)
  have "rc = 2 \<and> (\<exists>a k. area' = Some a \<and>
    KeyslotOpenAt (demo_cfg 0) a k [3] (zeros 32) NULL = (1, store_at 0 (zeros 32) (zeros 32), map_option (\<lambda>_. 0) NULL) \<and>
    fst (HkfOrSetOpen (Some (demo_cfg 0)) area' (Some [3]) (Some (zeros 32)) NULL) = 1)"
    using orset_every_token_opens [OF demo_good(1) demo_cfg_ok _ _ _ _ _ free lens _ a, where i = 1 and resp = "[3]" and vo = "zeros 32" and fo = NULL]
    by (simp add: slice_def)
  then have "rc = 2" "fst (HkfOrSetOpen (Some (demo_cfg 0)) area' (Some [3]) (Some (zeros 32)) NULL) = 1" by blast+
  with a show ?thesis by simp
qed

section \<open>The second on-disk format\<close>

text \<open>The mode of a volume is recognised from the tag of its first sector alone: the tag that the format writes
  under one of the modes is discovered as that mode, unless the truncated HMACs of both modes agree on the sector; a tag that is neither
  is no version 2 volume.\<close>

theorem v2_mode_discovery:
  assumes "length masterKey < 2 ^ 29" "length ct + 72 < 2 ^ 29" "length tag = 16"
    "t = (\<lambda>m. V2FormatSectorTag (V2FormatDeriveModeKey masterKey m) 0 ct)"
  shows "(\<forall>m. t m = take 16 (hmac_sha256 (hmac_sha256 masterKey (V2FormatModeLabel m)) (le_bytes 8 (0 :: u64) @ ct))) \<and>
    V2FormatDiscoverMode masterKey ct (t V2_MODE_ADIANTUM) = V2_MODE_ADIANTUM \<and>
    (V2FormatDiscoverMode masterKey ct (t V2_MODE_HCTR2) = V2_MODE_HCTR2 \<or> t V2_MODE_HCTR2 = t V2_MODE_ADIANTUM) \<and>
    (V2FormatDiscoverMode masterKey ct tag = V2_MODE_NONE \<longleftrightarrow> tag \<noteq> t V2_MODE_HCTR2 \<and> tag \<noteq> t V2_MODE_ADIANTUM)"
proof -
  have t: "t m = mode_tag masterKey m ct" for m
    unfolding assms(4) V2FormatDeriveModeKey_rfc [OF assms(1)] mode_tag_def
    by (rule V2FormatSectorTag_rfc) (use assms(2) in \<open>simp_all add: mode_key_def\<close>)
  have "length (mode_tag masterKey m ct) = 16" for m by (simp add: mode_tag_def)
  then show ?thesis
    using assms(3) unfolding t by (auto simp: V2FormatDiscoverMode_spec [OF assms(1,2)] mode_tag_def mode_key_def)
qed

theorem v2_mode_discovery_witness:
  "V2FormatDiscoverMode [1, 2] (zeros 512) (V2FormatSectorTag (V2FormatDeriveModeKey [1, 2] V2_MODE_ADIANTUM) 0 (zeros 512)) =
     V2_MODE_ADIANTUM"
  by (rule v2_mode_discovery [of "[1, 2]" "zeros 512" "zeros 16", OF _ _ _ refl, THEN conjunct2, THEN conjunct1]) simp_all

text \<open>C18. The downward search for the number of data sectors that fit together with the sectors of their tags comes to an
  end with a result, without ever wrapping below zero or above 64 bits, for every area of less than 2^58 sectors and every sector size,
  and the result is the largest number that fits.\<close>

theorem v2_split_terminates:
  assumes "unat t < 2 ^ 58" "0 < unat ss" "unat ss < 2 ^ 32"
  shows "\<exists>r. split_loop ss t t = Some r \<and> unat r + (unat r * 16 + unat ss - 1) div unat ss \<le> unat t \<and>
    (\<forall>v. v + (v * 16 + unat ss - 1) div unat ss \<le> unat t \<longrightarrow> v \<le> unat r)"
proof -
  obtain r where "split_loop ss t t = Some r" "unat r + tbl (unat ss) (unat r) \<le> unat t"
    "\<forall>v. unat r < v \<longrightarrow> unat t < v + tbl (unat ss) v"
    using split_loop_spec [of t t ss] assms by auto
  then show ?thesis unfolding tbl_def by (metis not_less)
qed

theorem v2_split_terminates_witness:
  "\<exists>r. split_loop 512 1000 1000 = Some r \<and> unat r = 969"
proof -
  obtain r where r: "split_loop 512 1000 1000 = Some r" "unat r + (unat r * 16 + 511) div 512 \<le> 1000"
    "\<forall>v. v + (v * 16 + 511) div 512 \<le> 1000 \<longrightarrow> v \<le> unat r"
    using v2_split_terminates [of 1000 512] by auto
  from r(3) have "969 \<le> unat r" by simp
  moreover have "unat r < 970"
  proof (rule ccontr)
    assume "\<not> unat r < 970"
    then have "970 * 16 + 511 \<le> unat r * 16 + 511" by simp
    then have "(970 * 16 + 511) div 512 \<le> (unat r * 16 + 511) div 512" by (rule div_le_mono)
    then show False using r(2) \<open>\<not> unat r < 970\<close> by simp
  qed
  ultimately show ?thesis using r(1) by auto
qed

text \<open>C19. A data area that is split for version 2 holds whole data sectors in front and the tag table right behind them, both
  inside the area; the 16-byte slot of every data sector lies inside the table, and one more data sector would not
  fit. For sectors of at least 16 bytes the split succeeds exactly for areas of two sectors or more; when it fails, nothing is written.\<close>

theorem v2_layout:
  assumes "unat area < 2 ^ 58" "ss = (if sectorSize = 0 then 512 else unat sectorSize)"
    "V2FormatSplitDataArea area sectorSize (Some a) (Some b) = (rc, Some usable, Some table)"
  shows "(rc = 0 \<longrightarrow> table = usable \<and> 0 < unat usable \<and> ss dvd unat usable \<and>
      unat usable + unat (V2FormatMacTableBytes (of_nat (unat usable div ss)) sectorSize) \<le> unat area \<and>
      (\<forall>i. unat i < unat usable div ss \<longrightarrow>
        unat (V2FormatSlotOffset i) + 16 \<le> unat (V2FormatMacTableBytes (of_nat (unat usable div ss)) sectorSize)) \<and>
      (\<forall>v > unat usable div ss. unat area < (v + (v * 16 + ss - 1) div ss) * ss)) \<and>
    (rc \<noteq> 0 \<longrightarrow> rc = 1 \<and> usable = a \<and> table = b) \<and>
    (16 \<le> ss \<longrightarrow> (rc = 0 \<longleftrightarrow> 2 * ss \<le> unat area))"
proof -
  have ss: "ss = sector_size sectorSize" using assms(2) by (simp add: sector_size_def)
  then have pos: "0 < ss" by (simp add: sector_size_word)
  obtain u where u: "u + tbl ss u \<le> unat area div ss" "\<forall>v>u. unat area div ss < v + tbl ss v"
    "V2FormatSplitDataArea area sectorSize (Some a) (Some b) =
       (if unat area < 2 * ss \<or> u = 0 then (1, Some a, Some b) else (0, Some (of_nat (u * ss)), Some (of_nat (u * ss))))"
    using V2FormatSplitDataArea_spec [OF assms(1), of sectorSize a b] unfolding ss [symmetric] by blast
  have fit: "(u + tbl ss u) * ss \<le> unat area" using u(1) pos by (simp add: less_eq_div_iff_mult_less_eq)
  have max: "unat area < (v + tbl ss v) * ss" if "u < v" for v
    using u(2) that pos by (simp add: div_less_iff_less_mult)
  have small1: "u * ss < 2 ^ 58" using fit assms(1) by (simp add: algebra_simps)
  have "u * 1 \<le> u * ss" using pos by (intro mult_le_mono2) simp
  then have "u < 2 ^ 58" using small1 by (metis le_less_trans mult.right_neutral)
  note small = small1 this
  have un: "unat (of_nat (u * ss) :: u64) = u * ss" by (rule unat_of_small) (use small(1) in simp)
  have un2: "unat (of_nat u :: u64) = u" by (rule unat_of_small) (use small(2) in simp)
  have tb: "unat (V2FormatMacTableBytes (of_nat u) sectorSize) = tbl ss u * ss"
    "u * 16 \<le> unat (V2FormatMacTableBytes (of_nat u) sectorSize)"
    using V2FormatMacTableBytes_spec [of "of_nat u" sectorSize] small by (simp_all add: un2 ss)
  have slot: "unat (V2FormatSlotOffset i) + 16 \<le> unat (V2FormatMacTableBytes (of_nat u) sectorSize)" if "unat i < u" for i
  proof -
    have "unat (V2FormatSlotOffset i) = unat i * 16"
      using that small(2) by (simp add: V2FormatSlotOffset_def unat_word_ariths)
    moreover have "Suc (unat i) * 16 \<le> u * 16" using that by (intro mult_le_mono1) simp
    ultimately show ?thesis using tb(2) by simp
  qed
  have "u \<noteq> 0" if "16 \<le> ss" "2 * ss \<le> unat area"
  proof
    assume "u = 0"
    have "(16 + ss - 1) div ss = 1" using that(1) by (intro div_nat_eqI) simp_all
    then show False using max [of 1] that(2) \<open>u = 0\<close> by (simp add: tbl_def)
  qed
  then show ?thesis
    using u(3) assms(3) un un2 fit max slot tb(1) pos
    by (auto simp: tbl_def algebra_simps split: if_splits)
qed

theorem v2_layout_witness:
  "\<exists>usable. V2FormatSplitDataArea 512000 512 (Some 0) (Some 0) = (0, Some usable, Some usable) \<and> unat usable \<le> 512000"
proof -
  obtain rc x y where a: "V2FormatSplitDataArea 512000 512 (Some 0) (Some 0) = (rc, x, y)" by (metis prod_cases3)
  moreover obtain usable table where "x = Some usable" "y = Some table"
    using V2FormatSplitDataArea_spec [of 512000 512 0 0] a by (auto split: if_splits)
  ultimately have a: "V2FormatSplitDataArea 512000 512 (Some 0) (Some 0) = (rc, Some usable, Some table)" by simp
  from v2_layout [OF _ refl a] a show ?thesis by (auto split: if_splits)
qed

section \<open>Shares of a secret\<close>

text \<open>C27. Splitting a secret of 1 to 64 bytes with threshold \<open>t\<close> into \<open>n\<close> shares succeeds, and combining any selection
  of at least \<open>t\<close> different shares, in any order, gives the secret and its length back and leaves the rest of the output alone.\<close>

theorem shamir_combine_split:
  assumes "1 \<le> length secret" "length secret \<le> 64" "2 \<le> t" "t \<le> n" "n \<le> 16"
    "nat n \<le> length shares" "\<forall>s<nat n. length (sh_y (shares ! s)) = 64"
    "distinct idx" "set idx \<subseteq> {..<nat n}" "nat t \<le> length idx" "length secret \<le> length out"
  shows "\<exists>shares'. shamir_split (Some secret) (int (length secret)) t n (Some rnd) (Some shares) = (0, Some shares') \<and>
    shamir_combine (Some (map ((!) shares') idx)) (int (length idx)) (Some out) lo =
      (0, Some (secret @ drop (length secret) out), map_option (\<lambda>_. int (length secret)) lo)"
proof -
  have ok: "split_ok secret t n" using assms(1-5) by (simp add: split_ok_def)
  obtain shares' where s: "shamir_split (Some secret) (int (length secret)) t n (Some rnd) (Some shares) = (0, Some shares')"
    "\<And>s. s < nat n \<Longrightarrow> shares' ! s = \<lparr>sh_x = of_nat (s + 1),
       sh_y = share_ys secret rnd (nat t) (length secret) s @ drop (length secret) (sh_y (shares ! s)), sh_len = int (length secret)\<rparr>"
    using shamir_split_spec [OF ok assms(6,7)] by metis
  from shamir_combine_shares [OF ok assms(8-11) s(2)] s(1) show ?thesis by blast
qed

theorem shamir_combine_split_witness:
  "\<exists>shares'. shamir_split (Some [7, 255]) 2 2 3 (Some [9, 4]) (Some (replicate 3 \<lparr>sh_x = 0, sh_y = zeros 64, sh_len = 0\<rparr>)) = (0, Some shares') \<and>
    shamir_combine (Some (map ((!) shares') [2, 0])) 2 (Some (zeros 64)) (Some 0) = (0, Some ([7, 255] @ zeros 62), Some 2)"
proof -
  have "drop (Suc (Suc 0)) (zeros 64) = zeros 62" by (simp add: zeros_def)
  then show ?thesis
    using shamir_combine_split [where secret = "[7, 255]" and t = 2 and n = 3 and idx = "[2, 0]" and out = "zeros 64" and rnd = "[9, 4]"
        and lo = "Some 0" and shares = "replicate 3 \<lparr>sh_x = 0, sh_y = zeros 64, sh_len = 0\<rparr>"]
    by simp
qed

text \<open>C28. One share less than the threshold says nothing about the secret: for every other secret of the same length there is
  exactly one sequence of random bytes with which splitting it gives the very same \<open>t - 1\<close> shares.\<close>

theorem shamir_secrecy:
  assumes "1 \<le> length secret" "length secret \<le> 64" "2 \<le> t" "t \<le> n" "n \<le> 16" "length secret' = length secret"
    "nat n \<le> length shares" "\<forall>s<nat n. length (sh_y (shares ! s)) = 64"
    "shamir_split (Some secret) (int (length secret)) t n (Some rnd) (Some shares) = (0, Some S)"
    "I \<subseteq> {..<nat n}" "Suc (card I) = nat t"
  shows "\<exists>!rnd'. length rnd' = (nat t - 1) * length secret \<and>
    (\<exists>S'. shamir_split (Some secret') (int (length secret')) t n (Some rnd') (Some shares) = (0, Some S') \<and> (\<forall>s\<in>I. S' ! s = S ! s))"
proof -
  have ok: "split_ok secret t n" "split_ok secret' t n" using assms(1-6) by (simp_all add: split_ok_def)
  have S: "S ! s = \<lparr>sh_x = of_nat (s + 1),
      sh_y = share_ys secret rnd (nat t) (length secret) s @ drop (length secret) (sh_y (shares ! s)), sh_len = int (length secret)\<rparr>" if "s < nat n" for s
    using shamir_split_spec [OF ok(1) assms(7,8), of rnd] assms(9) that by (metis option.inject prod.inject)
  have "(\<exists>S'. shamir_split (Some secret') (int (length secret')) t n (Some r) (Some shares) = (0, Some S') \<and> (\<forall>s\<in>I. S' ! s = S ! s)) \<longleftrightarrow>
      (\<forall>s\<in>I. share_ys secret' r (nat t) (length secret) s = share_ys secret rnd (nat t) (length secret) s)" for r
  proof -
    obtain S' where S': "shamir_split (Some secret') (int (length secret')) t n (Some r) (Some shares) = (0, Some S')"
      "\<And>s. s < nat n \<Longrightarrow> S' ! s = \<lparr>sh_x = of_nat (s + 1),
        sh_y = share_ys secret' r (nat t) (length secret) s @ drop (length secret) (sh_y (shares ! s)), sh_len = int (length secret)\<rparr>"
      using shamir_split_spec [OF ok(2) assms(7,8), of r] unfolding assms(6) by metis
    then have "(\<forall>s\<in>I. S' ! s = S ! s) \<longleftrightarrow> (\<forall>s\<in>I. share_ys secret' r (nat t) (length secret) s = share_ys secret rnd (nat t) (length secret) s)"
      using S assms(10) by (intro ball_cong) (auto simp: subset_iff)
    then show ?thesis using S'(1) by simp
  qed
  moreover have "I \<subseteq> {..<16}" using assms(5,10) by (rule_tac subset_trans) auto
  ultimately show ?thesis using shamir_secrecy_unique [OF ok(1) assms(6) _ assms(11), of rnd] by simp
qed

theorem shamir_secrecy_witness:
  "\<exists>S. shamir_split (Some [7, 255]) 2 2 3 (Some [9, 4]) (Some (replicate 3 \<lparr>sh_x = 0, sh_y = zeros 64, sh_len = 0\<rparr>)) = (0, Some S) \<and>
    (\<exists>!rnd'. length rnd' = 2 \<and> (\<exists>S'. shamir_split (Some [0, 1]) 2 2 3 (Some rnd')
       (Some (replicate 3 \<lparr>sh_x = 0, sh_y = zeros 64, sh_len = 0\<rparr>)) = (0, Some S') \<and> S' ! 1 = S ! 1))"
proof -
  let ?sh = "replicate 3 \<lparr>sh_x = 0, sh_y = zeros 64, sh_len = 0\<rparr>"
  have ok: "split_ok [7, 255] 2 3" by (simp add: split_ok_def)
  obtain S where S: "shamir_split (Some [7, 255]) 2 2 3 (Some [9, 4]) (Some ?sh) = (0, Some S)"
    using shamir_split_spec [OF ok, of ?sh "[9, 4]"] by auto
  have "\<exists>!rnd'. length rnd' = 2 \<and> (\<exists>S'. shamir_split (Some [0, 1]) 2 2 3 (Some rnd') (Some ?sh) = (0, Some S') \<and> S' ! 1 = S ! 1)"
    using shamir_secrecy [where secret = "[7, 255]" and secret' = "[0, 1]" and t = 2 and n = 3 and I = "{1}" and rnd = "[9, 4]"
        and shares = ?sh and S = S] S
    by (simp add: numeral_2_eq_2)
  then show ?thesis using S by blast
qed

text \<open>The check over all shares answers 1 exactly when every tag is HMAC-SHA-256, under the key, of the domain, the
  abscissa, the length and the ordinates of its share; the tags the code writes itself pass it.\<close>

theorem share_mac_authentic:
  assumes "length macKey = 32" "32 * cnt \<le> length tags" "32 * cnt \<le> length tags0"
  shows "ShamirVerifyAll macKey shares cnt tags =
      (if \<forall>i<cnt. slice (i * 32) 32 tags = hmac_sha256 macKey (share_message (shares ! i)) then 1 else 0) \<and>
    ShamirVerifyAll macKey shares cnt (ShamirMacAll macKey shares cnt tags0) = 1"
  using ShamirVerifyAll_iff [OF assms(1,2)] ShamirMacAll_slices [OF assms(1,3), of shares]
    ShamirVerifyAll_iff [OF assms(1), of cnt "ShamirMacAll macKey shares cnt tags0" shares] assms(3)
  by simp

theorem share_mac_authentic_witness:
  "ShamirVerifyAll (zeros 32) (replicate 2 \<lparr>sh_x = 1, sh_y = zeros 64, sh_len = 5\<rparr>) 2
     (ShamirMacAll (zeros 32) (replicate 2 \<lparr>sh_x = 1, sh_y = zeros 64, sh_len = 5\<rparr>) 2 (zeros 64)) = 1"
  using share_mac_authentic [where macKey = "zeros 32" and cnt = 2 and tags = "zeros 64" and tags0 = "zeros 64"
      and shares = "replicate 2 \<lparr>sh_x = 1, sh_y = zeros 64, sh_len = 5\<rparr>"]
  by simp

text \<open>C29. Encoding a share, with or without its 32-byte tag, into a buffer of at least 170 bytes succeeds, and decoding the
  string gives the abscissa, the length, the ordinates and the tag, and reports whether there was a tag.\<close>

theorem sharecode_roundtrip:
  assumes "1 \<le> sh_len sh" "sh_len sh \<le> 64" "length (sh_y sh) = 64" "\<forall>m. mac = Some m \<longrightarrow> length m = 32"
    "170 \<le> cap" "cap \<le> int (length buf)"
  shows "\<exists>buf'. ShareCodeEncode (Some sh) mac (Some buf) cap = (0, Some buf') \<and>
    ShareCodeDecode (Some buf') (Some sh0) (Some mo) (Some hm) =
     (0, Some (sh0\<lparr>sh_x := sh_x sh, sh_len := sh_len sh, sh_y := store_at 0 (take (nat (sh_len sh)) (sh_y sh)) (sh_y sh0)\<rparr>),
      Some (case mac of None \<Rightarrow> mo | Some m \<Rightarrow> store_at 0 m mo), Some (if mac = None then 0 else 1))"
  by (rule sharecode_encode_decode [OF assms])

theorem sharecode_roundtrip_witness:
  "\<exists>buf'. ShareCodeEncode (Some \<lparr>sh_x = 3, sh_y = zeros 64, sh_len = 16\<rparr>) NULL (Some (zeros 200)) 200 = (0, Some buf') \<and>
    fst (ShareCodeDecode (Some buf') (Some \<lparr>sh_x = 0, sh_y = zeros 64, sh_len = 0\<rparr>) (Some (zeros 32)) (Some 5)) = 0"
proof -
  let ?sh = "\<lparr>sh_x = 3, sh_y = zeros 64, sh_len = 16\<rparr>" and ?dst = "\<lparr>sh_x = 0, sh_y = zeros 64, sh_len = 0\<rparr>"
  have "1 \<le> sh_len ?sh" "sh_len ?sh \<le> 64" "length (sh_y ?sh) = 64" "\<forall>m. NULL = Some m \<longrightarrow> length (m :: bytes) = 32"
    "170 \<le> (200 :: int)" "200 \<le> int (length (zeros 200))" by simp_all
  from sharecode_roundtrip [OF this, of ?dst "zeros 32" 5] show ?thesis by fastforce
qed

text \<open>C30. When a string decodes, a string that differs from it in up to six consecutive characters behind the prefix is refused:
  as a checksum error when all characters are of the alphabet, as a format error otherwise, and nothing is written.\<close>

theorem sharecode_burst:
  assumes "fst (ShareCodeDecode (Some a) (Some sh) mo hm) = 0" "c_string a = pre @ us @ post" "c_string a' = pre @ us' @ post"
    "4 \<le> length pre" "length us = length us'" "length us \<le> 6" "us \<noteq> us'"
  shows "ShareCodeDecode (Some a') (Some sh') mo' hm' =
    (if \<forall>c\<in>set us'. 0 \<le> sc_charval c then - 2 else - 3, Some sh', mo', hm')"
  by (rule sharecode_burst_detected [OF assms])

theorem sharecode_burst_witness:
  "\<exists>a a'. fst (ShareCodeDecode (Some a) (Some \<lparr>sh_x = 0, sh_y = zeros 64, sh_len = 0\<rparr>) NULL NULL) = 0 \<and>
    ShareCodeDecode (Some a') (Some \<lparr>sh_x = 0, sh_y = zeros 64, sh_len = 0\<rparr>) NULL NULL =
      (- 2, Some \<lparr>sh_x = 0, sh_y = zeros 64, sh_len = 0\<rparr>, NULL, NULL)"
proof -
  let ?sh = "\<lparr>sh_x = 0, sh_y = zeros 64, sh_len = 0\<rparr>"
  have "fst (ShareCodeDecode (Some (cstr ''vcs1qypszngn6gh54'')) (Some ?sh) NULL NULL) = 0"
    by code_simp
  from sharecode_burst [OF this, where pre = "cstr ''vcs1qyps''" and us = "cstr ''zngn6g''" and post = "cstr ''h54''"
      and us' = "cstr ''qqqqqq''" and a' = "cstr ''vcs1qypsqqqqqqh54''" and sh' = ?sh and mo' = NULL and hm' = NULL]
  have "ShareCodeDecode (Some (cstr ''vcs1qypsqqqqqqh54'')) (Some ?sh) NULL NULL =
    (if \<forall>c\<in>set (cstr ''qqqqqq''). 0 \<le> sc_charval c then - 2 else - 3, Some ?sh, NULL, NULL)"
    by (simp add: c_string_def cstr_def)
  moreover have "\<forall>c\<in>set (cstr ''qqqqqq''). 0 \<le> sc_charval c" by code_simp
  ultimately show ?thesis
    using \<open>fst (ShareCodeDecode (Some (cstr ''vcs1qypszngn6gh54'')) (Some ?sh) NULL NULL) = 0\<close> by auto
qed

text \<open>C31. Encoding a payload of 1 to 66 bytes as a codex32 string succeeds. Up to 64 bytes the string decodes to the threshold,
  the identifier and the index in lower case, and the payload; with 65 or 66 bytes the encoder still succeeds, although the string then
  exceeds the length the decoder accepts.\<close>

theorem codex32_roundtrip:
  assumes "k = 0 \<or> 2 \<le> k \<and> k \<le> 9" "length ident = 4" "\<forall>c\<in>set (ix # ident). 0 \<le> sc_charval (sc_tolower c)"
    "1 \<le> length p" "length p \<le> 66" "132 \<le> cap" "cap \<le> int (length buf)" "length p \<le> pcap"
  shows "\<exists>buf'. ShareCodeCodex32Encode k (Some ident) ix (Some p) (int (length p)) (Some buf) cap = (0, Some buf') \<and>
    ShareCodeCodex32Decode (Some buf') (Some k0) (Some id0) (Some ix0) pbuf pcap (Some n0) =
     (if length p \<le> 64
      then (0, Some k, Some (store_at 0 (map sc_tolower ident) id0), Some (sc_tolower ix), store_at 0 p pbuf, Some (int (length p)))
      else (- 3, Some k0, Some id0, Some ix0, pbuf, Some n0))"
proof (cases "length p \<le> 64")
  case True
  then show ?thesis using codex_encode_decode [OF assms(1-4) _ assms(6-8)] by simp
next
  case False
  then have "length p \<in> {65, 66}" using assms(5) by auto
  then show ?thesis using codex_encode_refused [OF assms(1-3) _ assms(6,7)] False by simp
qed

theorem codex32_roundtrip_witness:
  "\<exists>buf'. ShareCodeCodex32Encode 2 (Some (cstr ''TEST'')) (of_char (CHR ''a'')) (Some (replicate 65 1)) 65 (Some (zeros 132)) 132 = (0, Some buf') \<and>
    fst (ShareCodeCodex32Decode (Some buf') (Some 0) (Some (zeros 4)) (Some 0) (zeros 65) 65 (Some 0)) = - 3"
proof -
  have c: "\<forall>c\<in>set (of_char (CHR ''a'') # cstr ''TEST''). 0 \<le> sc_charval (sc_tolower c)"
    by (simp add: cstr_def sc_tolower_def) (code_simp)
  have "2 = (0 :: int) \<or> 2 \<le> (2 :: int) \<and> (2 :: int) \<le> 9" "length (cstr ''TEST'') = 4" "1 \<le> length (replicate 65 (1 :: byte))"
    "length (replicate 65 (1 :: byte)) \<le> 66" "132 \<le> (132 :: int)" "132 \<le> int (length (zeros 132))" "length (replicate 65 (1 :: byte)) \<le> 65"
    by simp_all
  from codex32_roundtrip [OF this(1,2) c this(3-7), of 0 "zeros 4" 0 "zeros 65" 0] show ?thesis by fastforce
qed

section \<open>Sector encryption\<close>

text \<open>C32. The constant-time AES-256 is a permutation of the blocks under every key: decrypting what was encrypted, and
  encrypting what was decrypted, gives the block back.\<close>

theorem aes_roundtrip:
  assumes "length b = 16"
  shows "AesCtDecrypt256 key (AesCtEncrypt256 key b) = b \<and> AesCtEncrypt256 key (AesCtDecrypt256 key b) = b"
  using assms by (simp add: AesCtDecrypt256_def AesCtEncrypt256_def aes.D_E aes.E_D)

theorem aes_roundtrip_witness:
  "AesCtDecrypt256 (zeros 32) (AesCtEncrypt256 (zeros 32) [0, 1, 2, 3, 4, 5, 6, 7, 8, 9, 10, 11, 12, 13, 14, 15]) =
     [0, 1, 2, 3, 4, 5, 6, 7, 8, 9, 10, 11, 12, 13, 14, 15] \<and>
   AesCtEncrypt256 (zeros 32) (AesCtDecrypt256 (zeros 32) [0, 1, 2, 3, 4, 5, 6, 7, 8, 9, 10, 11, 12, 13, 14, 15]) =
     [0, 1, 2, 3, 4, 5, 6, 7, 8, 9, 10, 11, 12, 13, 14, 15]"
  by (rule aes_roundtrip) simp

text \<open>C33. The branch-free product of \<open>gf_dot\<close> is the product of the field of POLYVAL: multiplied by \<open>x\<close> 128 times it is the
  carry-less product of the operands modulo \<open>x^128 + x^127 + x^126 + x^121 + 1\<close>, so the code computes \<open>a * b * x^-128\<close>.\<close>

theorem polyval_dot: "(pv_x ^^ 128) (pair (gf_dot a b)) = pv_mult (pair a) (pair b)"
  by (rule gf_dot_field)

text \<open>C34. With the subkeys of any key, HCTR2 accepts every sector of 16 to 4096 bytes under a tweak of at most 64 bytes,
  keeps its length, and decryption undoes encryption. What is hashed is
  the message of the construction, and the scratch buffer on the stack has room for it.\<close>

theorem hctr2_roundtrip:
  assumes "16 \<le> length m" "length m \<le> 4096" "length tweak \<le> 64"
  shows "(\<exists>c. Hctr2Encrypt (Hctr2Init key) tweak m out = (1, c) \<and> length c = length m \<and>
      Hctr2Decrypt (Hctr2Init key) tweak c out' = (1, m)) \<and>
    (\<exists>r. hctr2_buf tweak (drop 16 m) = (hctr2_input tweak (drop 16 m) @ zeros r, length (hctr2_input tweak (drop 16 m))) \<and>
      length (hctr2_input tweak (drop 16 m)) + r = 16 + HCTR2_MAX_TWEAK + HCTR2_MAX_SECTOR + 16)"
proof
  have r: "hctr2_in_range tweak m"
    using assms by (simp add: hctr2_in_range_def HCTR2_MIN_LEN_def HCTR2_MAX_SECTOR_def HCTR2_MAX_TWEAK_def)
  show "\<exists>c. Hctr2Encrypt (Hctr2Init key) tweak m out = (1, c) \<and> length c = length m \<and>
      Hctr2Decrypt (Hctr2Init key) tweak c out' = (1, m)"
    using hctr2_inverse [OF r length_hk_L_Init, of key True out out'] assms
    unfolding Hctr2Encrypt_def Hctr2Decrypt_def hctr2_crypt_pass [OF r length_hk_L_Init, of key] by (simp add: length_hctr2_pass)
  show "\<exists>r. hctr2_buf tweak (drop 16 m) = (hctr2_input tweak (drop 16 m) @ zeros r, length (hctr2_input tweak (drop 16 m))) \<and>
      length (hctr2_input tweak (drop 16 m)) + r = 16 + HCTR2_MAX_TWEAK + HCTR2_MAX_SECTOR + 16"
    by (rule hctr2_buf_input [of tweak "drop 16 m"])
       (use assms in \<open>auto simp: HCTR2_MAX_TWEAK_def HCTR2_MAX_SECTOR_def\<close>)
qed

theorem hctr2_roundtrip_witness:
  "\<exists>c. Hctr2Encrypt (Hctr2Init (zeros 32)) [7, 0] (zeros 33) [] = (1, c) \<and> length c = length (zeros 33) \<and>
      Hctr2Decrypt (Hctr2Init (zeros 32)) [7, 0] c [] = (1, zeros 33)"
  using hctr2_roundtrip [of "zeros 33" "[7, 0]" "zeros 32" "[]" "[]"] by simp

text \<open>Any other length is refused and the output buffer left alone, by both modes.\<close>

theorem wide_block_refusal:
  assumes "length x < 16 \<or> 4096 < length x \<or> 64 < length tweak"
  shows "Hctr2Encrypt hk tweak x out = (0, out) \<and> Hctr2Decrypt hk tweak x out = (0, out) \<and>
    AdiantumEncrypt ak tweak x out = (0, out) \<and> AdiantumDecrypt ak tweak x out = (0, out)"
  using assms by (auto simp: Hctr2Encrypt_def Hctr2Decrypt_def hctr2_crypt_def HCTR2_MIN_LEN_def HCTR2_MAX_SECTOR_def HCTR2_MAX_TWEAK_def
      AdiantumEncrypt_def AdiantumDecrypt_def ADIANTUM_MAX_SECTOR_def ADIANTUM_MAX_TWEAK_def)

text \<open>C35. For every message and every key of 32 bytes \<open>Poly1305\<close> writes the 16 bytes of the tag of RFC 8439: no limb, product or
  carry overflows, and the branch-free reduction at the end is exact.\<close>

theorem poly1305_rfc8439:
  assumes "length key = 32"
  shows "length (Poly1305 msg key) = 16 \<and> le_nat (Poly1305 msg key) = poly1305_ref msg key"
  using assms by (simp add: Poly1305_spec)

theorem poly1305_rfc8439_witness:
  "length (Poly1305 (zeros 17) (replicate 32 0xff)) = 16 \<and> le_nat (Poly1305 (zeros 17) (replicate 32 0xff)) = poly1305_ref (zeros 17) (replicate 32 0xff)"
  by (rule poly1305_rfc8439) simp

text \<open>C36. With the subkeys of any key, Adiantum accepts every sector of 16 to 4096 bytes under a tweak of at most 64 bytes, and
  either operation undoes the other; the padded message and the hashes of its chunks fit the scratch buffers of the hash.\<close>

theorem adiantum_roundtrip:
  assumes "16 \<le> length m" "length m \<le> 4096" "length tweak \<le> 64"
  shows "AdiantumDecrypt (AdiantumInit key) tweak (snd (AdiantumEncrypt (AdiantumInit key) tweak m out)) out' = (1, m) \<and>
      AdiantumEncrypt (AdiantumInit key) tweak (snd (AdiantumDecrypt (AdiantumInit key) tweak m out)) out' = (1, m) \<and>
      (\<forall>l kn. length l = length m - 16 \<longrightarrow> (length l + 15) div 16 * 16 \<le> ADIANTUM_MAX_SECTOR \<and>
         length (nh_chunks kn (l @ zeros ((length l + 15) div 16 * 16 - length l))) \<le> 4 * 32)"
proof -
  have r: "ad_in_range tweak m" using assms by (simp add: ad_in_range_def ADIANTUM_MAX_SECTOR_def ADIANTUM_MAX_TWEAK_def)
  have l: "length m - 16 \<le> ADIANTUM_MAX_SECTOR - 16" using assms by (simp add: ADIANTUM_MAX_SECTOR_def)
  show ?thesis using adiantum_inverse [OF r ad_key_ok_Init] adiantum_hash_buffers l by metis
qed

theorem adiantum_roundtrip_witness:
  "AdiantumDecrypt (AdiantumInit (zeros 32)) [7] (snd (AdiantumEncrypt (AdiantumInit (zeros 32)) [7] (zeros 40) [])) [] = (1, zeros 40)"
  using adiantum_roundtrip [of "zeros 40" "[7]" "zeros 32" "[]" "[]"] by simp

text \<open>The byte-wise addition and subtraction that mask the last block are those of the numbers modulo \<open>2^128\<close>.\<close>

theorem adiantum_add_mod:
  assumes "length a = 16" "length b = 16"
  shows "le_nat (add128 a b) = (le_nat a + le_nat b) mod 2 ^ 128 \<and>
    int (le_nat (sub128 a b)) = (int (le_nat a) - int (le_nat b)) mod 2 ^ 128"
  using assms by (simp add: add128_value sub128_value)

theorem adiantum_add_mod_witness:
  "le_nat (add128 (replicate 16 0xff) (1 # zeros 15)) = (le_nat (replicate 16 0xff) + le_nat (1 # zeros 15)) mod 2 ^ 128 \<and>
   int (le_nat (sub128 (zeros 16) (1 # zeros 15))) = (int (le_nat (zeros 16)) - int (le_nat (1 # zeros 15))) mod 2 ^ 128"
  using adiantum_add_mod [of "replicate 16 0xff" "1 # zeros 15"] adiantum_add_mod [of "zeros 16" "1 # zeros 15"] by simp

text \<open>C37. The parallel, the block-by-block and the 32-bit implementation of XTS compute the same function of the buffer, the
  data unit number and the start block: that of the standard, when the buffer fills a data unit, starts at one, or ends inside the one it
  starts in.\<close>

theorem xts_standard_modes:
  assumes "block_cipher E D" "block_size T" "length buf mod 16 = 0" "s \<le> 32" "xts_aligned s buf"
  shows "EncryptBufferXTS par E T (unit64 hi lo) s buf = Some (xts_standard E T (unit64 hi lo) s buf) \<and>
      EncryptDecryptBufferXTS32 E D T hi lo s False buf = Some (xts_standard E T (unit64 hi lo) s buf)"
  using assms by (simp add: EncryptBufferXTS_spec XTS32_spec block_cipher_size xts_spec_standard)

theorem xts_standard_modes_witness:
  "EncryptBufferXTS True (AesCtEncryptBlock (AesCtInit256 (replicate 32 1))) (AesCtEncryptBlock (AesCtInit256 (zeros 32))) (unit64 0 7) 31 (zeros 16) =
     Some (xts_standard (AesCtEncryptBlock (AesCtInit256 (replicate 32 1))) (AesCtEncryptBlock (AesCtInit256 (zeros 32))) (unit64 0 7) 31 (zeros 16)) \<and>
   EncryptDecryptBufferXTS32 (AesCtEncryptBlock (AesCtInit256 (replicate 32 1))) (AesCtDecryptBlock (AesCtInit256 (replicate 32 1))) (AesCtEncryptBlock (AesCtInit256 (zeros 32))) 0 7 31 False (zeros 16) =
     Some (xts_standard (AesCtEncryptBlock (AesCtInit256 (replicate 32 1))) (AesCtEncryptBlock (AesCtInit256 (zeros 32))) (unit64 0 7) 31 (zeros 16))"
  by (rule xts_standard_modes [OF aes_cipher block_cipher_size(1) [OF aes_cipher]]) (simp_all add: xts_aligned_def)

text \<open>Decryption undoes encryption for any two block permutations, from any start block, and whichever of the implementations
  did the encryption and does the decryption.\<close>

theorem xts_roundtrip:
  assumes "block_cipher E D" "block_size T" "length buf mod 16 = 0" "s \<le> 32"
  shows "\<exists>c. EncryptBufferXTS par E T (unit64 hi lo) s buf = Some c \<and> length c = length buf \<and>
      DecryptBufferXTS par' D T (unit64 hi lo) s c = Some buf \<and>
      EncryptDecryptBufferXTS32 E D T hi lo s True c = Some buf"
proof (rule exI, intro conjI)
  note sz = block_cipher_size [OF assms(1)]
  let ?c = "xts_spec E T (unit64 hi lo) s buf"
  show "EncryptBufferXTS par E T (unit64 hi lo) s buf = Some ?c"
    using assms sz by (simp add: EncryptBufferXTS_spec)
  have l: "length ?c = length buf" by (rule length_xts_spec [OF sz(1) assms(3)])
  then show "length ?c = length buf" .
  show "DecryptBufferXTS par' D T (unit64 hi lo) s ?c = Some buf"
    using assms l sz by (simp add: Decrypt_is_Encrypt EncryptBufferXTS_spec xts_spec_inverse [OF assms(1,3)])
  show "EncryptDecryptBufferXTS32 E D T hi lo s True ?c = Some buf"
    using assms sz by (simp add: XTS32_spec xts_spec_inverse [OF assms(1,3)])
qed

theorem xts_roundtrip_witness:
  "\<exists>c. EncryptBufferXTS True (AesCtEncryptBlock (AesCtInit256 (replicate 32 1))) (AesCtEncryptBlock (AesCtInit256 (zeros 32))) (unit64 0 7) 31 (zeros 48) = Some c \<and> length c = length (zeros 48) \<and>
      DecryptBufferXTS False (AesCtDecryptBlock (AesCtInit256 (replicate 32 1))) (AesCtEncryptBlock (AesCtInit256 (zeros 32))) (unit64 0 7) 31 c = Some (zeros 48) \<and>
      EncryptDecryptBufferXTS32 (AesCtEncryptBlock (AesCtInit256 (replicate 32 1))) (AesCtDecryptBlock (AesCtInit256 (replicate 32 1))) (AesCtEncryptBlock (AesCtInit256 (zeros 32))) 0 7 31 True c = Some (zeros 48)"
  by (rule xts_roundtrip [OF aes_cipher block_cipher_size(1) [OF aes_cipher]]) simp_all

text \<open>C38. A buffer of fewer than 32 blocks is treated as part of the one data unit it starts in even when it goes beyond
  the end of that unit: block \<open>k\<close> is whitened with the tweak of the starting unit and the block number \<open>s + k\<close>, 32 and more included,
  where the comment above the function promises that each successive data unit is encrypted from its first block.\<close>

theorem xts_short_unaligned:
  assumes "block_cipher E D" "block_size T" "length buf = 16 * n" "n < 32" "s \<le> 32"
  shows "EncryptBufferXTS par E T unit s buf =
    Some (concat (map (\<lambda>k. xts_block E (xts_tweak T unit (s + k)) (slice (16 * k) 16 buf)) [0..<n]))"
  using assms by (simp add: EncryptBufferXTS_spec block_cipher_size xts_spec_def xts_position_def)

theorem xts_short_unaligned_witness:
  "EncryptBufferXTS True (AesCtEncryptBlock (AesCtInit256 (replicate 32 1))) (AesCtEncryptBlock (AesCtInit256 (zeros 32))) 7 31 (zeros 32) =
    Some (concat (map (\<lambda>k. xts_block (AesCtEncryptBlock (AesCtInit256 (replicate 32 1))) (xts_tweak (AesCtEncryptBlock (AesCtInit256 (zeros 32))) 7 (31 + k)) (slice (16 * k) 16 (zeros 32))) [0..<2]))"
  by (rule xts_short_unaligned [OF aes_cipher block_cipher_size(1) [OF aes_cipher]]) simp_all

section \<open>Volumes\<close>

text \<open>C39. The table-driven CRC-32 and the bit-wise one compute the same function on every input, and the macro
  for single bytes, iterated, computes it too.\<close>

theorem crc_equivalence:
  "GetCrc32_minimal data = GetCrc32 data \<and> foldl (\<lambda>crc octet. UPDC32 octet crc) 0xffffffff data XOR 0xffffffff = GetCrc32 data"
  unfolding GetCrc32_minimal_eq by (simp add: GetCrc32_def UPDC32_step [abs_def])

text \<open>Block ciphers to run the witnesses with: AES-256 in every place, a key schedule being the key, padded to the size of
  the schedule.\<close>

definition demo_schedule :: "nat \<Rightarrow> bytes \<Rightarrow> bytes" where
  "demo_schedule n key = take n (key @ zeros n)"

definition demo_encrypt :: "bytes \<Rightarrow> bytes \<Rightarrow> bytes" where
  "demo_encrypt s = AesCtEncryptBlock (AesCtInit256 (take 32 s))"

definition demo_decrypt :: "bytes \<Rightarrow> bytes \<Rightarrow> bytes" where
  "demo_decrypt s = AesCtDecryptBlock (AesCtInit256 (take 32 s))"

definition demo_prims :: primitives where
  "demo_prims =
     \<lparr>aes_encrypt_key256 = \<lambda>k. Some (demo_schedule aes_ctx_size k), aes_decrypt_key256 = \<lambda>k. Some (demo_schedule aes_ctx_size k),
      aes_encrypt = demo_encrypt, aes_decrypt = demo_decrypt, IsAesHwCpuSupported = False,
      aes_hw_cpu_encrypt = demo_encrypt, aes_hw_cpu_decrypt = demo_decrypt,
      serpent_set_key = demo_schedule SERPENT_KS, serpent_encrypt = demo_encrypt, serpent_decrypt = demo_decrypt,
      twofish_set_key = demo_schedule TWOFISH_KS, twofish_encrypt = demo_encrypt, twofish_decrypt = demo_decrypt,
      camellia_set_key = demo_schedule CAMELLIA_KS, camellia_encrypt = demo_encrypt, camellia_decrypt = demo_decrypt,
      kuznyechik_set_key = demo_schedule KUZNYECHIK_KS, kuznyechik_encrypt_block = demo_encrypt,
      kuznyechik_decrypt_block = demo_decrypt\<rparr>"

lemma demo_ciphers: "primitives_ok demo_prims"
proof -
  have b: "block_cipher (demo_encrypt s) (demo_decrypt s)" for s
    unfolding demo_encrypt_def demo_decrypt_def by (rule aes_cipher)
  have l: "length (demo_schedule n k) = n" for n k by (simp add: demo_schedule_def)
  show ?thesis
    by (simp add: primitives_ok_def aes_ok_def keyed_ok_def demo_prims_def b l)
qed

text \<open>C12. For every algorithm of the table, key setup from enough key material succeeds, the data units of a buffer
  are encrypted, and decrypting them with the same structure gives the buffer back; what lies behind the units is not touched.\<close>

theorem cascade_roundtrip:
  assumes "primitives_ok P" "ea_valid (ea ci)" "mode ci = XTS" "sized ci" "2 * EAGetKeySize (ea ci) \<le> length keydata"
    "n * ENCRYPTION_DATA_UNIT_SIZE \<le> length buf"
  shows "\<exists>ci' c. init_keys P keydata ci = Some (ERR_SUCCESS, ci') \<and> EncryptDataUnitsCurrentThread P buf unit n ci' = Some c \<and>
    length c = length buf \<and> drop (n * ENCRYPTION_DATA_UNIT_SIZE) c = drop (n * ENCRYPTION_DATA_UNIT_SIZE) buf \<and>
    DecryptDataUnitsCurrentThread P c unit n ci' = Some buf"
proof -
  obtain b b' k where i: "init_keys P keydata ci = Some (ERR_SUCCESS, ci\<lparr>ks := b, k2 := k, ks2 := b'\<rparr>)"
    "info_ready P keydata (drop (EAGetKeySize (ea ci)) keydata) (ci\<lparr>ks := b, k2 := k, ks2 := b'\<rparr>)"
    using init_keys_ok [OF assms(1-5)] by blast
  have m: "length (take (n * ENCRYPTION_DATA_UNIT_SIZE) buf) mod 16 = 0"
    using assms(6) by (intro mod_512_16) (simp add: ENCRYPTION_DATA_UNIT_SIZE_def)
  show ?thesis
    using i(1) units_cascade [OF assms(1) i(2) assms(6), of unit] buffer_cascade(2) [OF assms(1) i(2) m, of unit] assms(6)
    by (intro exI [of _ "ci\<lparr>ks := b, k2 := k, ks2 := b'\<rparr>"] exI) (auto simp: store_at_def)
qed

theorem cascade_roundtrip_witness:
  "\<exists>ci' c. init_keys demo_prims (zeros 192) (crypto_open\<lparr>ea := 7, mode := XTS\<rparr>) = Some (ERR_SUCCESS, ci') \<and>
    EncryptDataUnitsCurrentThread demo_prims (zeros 1100) 3 2 ci' = Some c \<and> length c = length (zeros 1100) \<and>
    drop (2 * ENCRYPTION_DATA_UNIT_SIZE) c = drop (2 * ENCRYPTION_DATA_UNIT_SIZE) (zeros 1100) \<and>
    DecryptDataUnitsCurrentThread demo_prims c 3 2 ci' = Some (zeros 1100)"
  by (rule cascade_roundtrip [OF demo_ciphers])
     (use sized_open EAGetKeySize_bounds [of 7] in \<open>simp_all add: sized_def ENCRYPTION_DATA_UNIT_SIZE_def\<close>)

text \<open>The threads of the pool compute what the calling thread alone would: a request is split into at
  most as many fragments as there are threads, and processing the fragments one by one in any order, each once, gives the
  buffer encrypted, or decrypted, in one go.\<close>

theorem thread_pool_any_order:
  assumes "primitives_ok P" "info_ready P key key2 ci" "0 < ThreadCount" "length buf = n * ENCRYPTION_DATA_UNIT_SIZE"
    "mset ws = mset (work_fragments ThreadCount unit n)" "data_units type"
  shows "length ws \<le> ThreadCount \<and>
    foldl (\<lambda>b w. Option.bind b (process_fragment P type ci w)) (Some buf) ws = current_thread_units P type buf unit n ci"
  using work_fragments_tile(4) [OF assms(3), of unit n] arg_cong [OF assms(5), of size] pool_any_order [OF assms] by simp

theorem thread_pool_any_order_witness:
  "\<exists>ci. length (rev (work_fragments 3 9 5)) \<le> 3 \<and>
    foldl (\<lambda>b w. Option.bind b (process_fragment demo_prims EncryptDataUnitsWork ci w)) (Some (zeros 2560)) (rev (work_fragments 3 9 5)) =
    current_thread_units demo_prims EncryptDataUnitsWork (zeros 2560) 9 5 ci"
proof -
  obtain b b' k where "info_ready demo_prims (zeros 192) (drop (EAGetKeySize 7) (zeros 192)) (crypto_open\<lparr>ea := 7, mode := XTS, ks := b, k2 := k, ks2 := b'\<rparr>)"
    using init_keys_ok [OF demo_ciphers, of "crypto_open\<lparr>ea := 7, mode := XTS\<rparr>" "zeros 192"] sized_open EAGetKeySize_bounds [of 7]
    by (auto simp: sized_def)
  from thread_pool_any_order [OF demo_ciphers this, of 3 "zeros 2560" 5 "rev (work_fragments 3 9 5)" 9 EncryptDataUnitsWork]
  show ?thesis by (auto simp: ENCRYPTION_DATA_UNIT_SIZE_def)
qed

text \<open>C6. Reading a header is a linear search over the pairs of a PRF and an algorithm, in the order of the two
  loops, with the key derived from the password after mixing in the response of the hardware factor: the first pair under which
  the decrypted header is recognised decides, by an error or by opening the volume. The old mix is used exactly when a response
  was mixed in and the new mix ended with a wrong password, which it does when no pair was recognised and, with every PRF tried, Argon2
  did not fail: after a failure of Argon2 a volume under the old mix is not looked for.\<close>

theorem read_header_search:
  assumes "HKFComputeActiveResponse (Some (slice 0 64 (encryptedHeader args))) (zeros 64) s = ((HKF_OK, resp, rlen), s)"
    "\<forall>version. search_env (no_abort env) (clamp_pim args) (read_password version args (take (nat rlen) resp)) (slice 0 64 (encryptedHeader args))"
    "retInfo_given args" "retHeaderCryptoInfo args = NULL"
  shows "\<exists>res. ReadVolumeHeader env args s = Some (res, s) \<and>
    read_spec (no_abort env) (clamp_pim args)
      (read_password (if 0 < rlen \<and> wrong_password (no_abort env) (clamp_pim args) (read_password HKF_MIX_V2 args (take (nat rlen) resp))
                           (slice 0 64 (encryptedHeader args))
                      then HKF_MIX_V1 else HKF_MIX_V2) args (take (nat rlen) resp))
      (slice 0 64 (encryptedHeader args)) (Some res)"
  by (rule read_mixes [OF assms(1) assms(2) [rule_format] assms(3,4)])

text \<open>A store of the hardware factor with no active configuration, key derivations that succeed, an environment and arguments to
  create a header with, and the same to read it.\<close>

definition no_factor :: hkf_store where
  "no_factor = \<lparr>hkArea = \<lparr>ksArea = NULL, ksHashMask = 0, ksIVMask = 0, ksAreaBase = 0\<rparr>, hkConfigs = (\<lambda>p. None), g_hkfActiveConfig = NULL\<rparr>"

definition demo_kdf :: kdf where
  "demo_kdf p pw salt it mem n = (0, map (\<lambda>i. of_nat (i + length pw)) [0..<n])"

definition demo_create_env :: create_env where
  "demo_create_env = \<lparr>ce_prims = demo_prims, ce_derive = demo_kdf, ce_overrides = no_overrides,
     rand_master = (\<lambda>n. Some (map of_nat [0..<n])), rand_salt = (\<lambda>n. Some (zeros n)), rand_dk = (\<lambda>n. None)\<rparr>"

definition demo_create_args :: create_args where
  "demo_create_args = \<lparr>c_bBoot = False, c_ea = 1, c_mode = XTS, c_password = Some ([112, 119], 2), c_prf = SHA512, c_pim = 0,
     c_masterKeydata = NULL, c_volumeSize = 1048576, c_hiddenVolumeSize = 0, c_encryptedAreaStart = 131072,
     c_encryptedAreaLength = 1048576, c_requiredProgramVersion = 0, c_headerFlags = 0, c_sectorSize = 512\<rparr>"

definition demo_read_env :: read_env where
  "demo_read_env = \<lparr>prims = demo_prims, derive_key = demo_kdf, overrides = no_overrides, recoveryMode = False,
     userAbort = (\<lambda>n. False), prf_order = [1, 2, 3, 4, 5, 6, 7, 8, 9]\<rparr>"

definition demo_read_args :: "bytes \<Rightarrow> read_args" where
  "demo_read_args enc = \<lparr>bBoot = False, encryptedHeader = enc, password_Text = [112, 119], password_Length = 2,
     selected_pkcs5_prf = SHA512, pim = 0, retInfo_given = True, retHeaderCryptoInfo = NULL\<rparr>"

lemma no_factor_response: "HKFComputeActiveResponse salt r no_factor = ((HKF_OK, r, 0), no_factor)"
  by (simp add: HKFComputeActiveResponse_def no_factor_def hkf_deref_def)

lemma demo_derivations: "derivations_ok demo_kdf"
  by (simp add: derivations_ok_def demo_kdf_def)

lemma demo_inputs: "create_inputs_ok demo_create_env demo_create_args"
  by (simp add: create_inputs_ok_def demo_create_env_def demo_create_args_def demo_ciphers demo_derivations
      TC_VOLUME_MIN_REQUIRED_PROGRAM_VERSION_def VERSION_NUM_def)

lemma demo_search_env: "length enc = 512 \<Longrightarrow> search_env (no_abort demo_read_env) (demo_read_args enc) pw salt"
  using derivations_ok_key [of "no_abort demo_read_env" _ "demo_read_args enc" pw salt]
  by (simp add: search_env_def demo_read_env_def demo_read_args_def demo_ciphers demo_derivations FIRST_PRF_ID_def LAST_PRF_ID_def)

lemma demo_read_args_simps [simp]:
  "retInfo_given (demo_read_args enc)" "retHeaderCryptoInfo (demo_read_args enc) = NULL" "encryptedHeader (demo_read_args enc) = enc"
  "clamp_pim (demo_read_args enc) = demo_read_args enc" "demo_read_args enc\<lparr>pim := 0\<rparr> = demo_read_args enc"
  by (simp_all add: demo_read_args_def)

lemma zeros_salt: "slice 0 64 (zeros 512) = zeros 64"
  by (simp add: slice_def zeros_def)

theorem read_header_search_witness:
  "\<exists>res. ReadVolumeHeader demo_read_env (demo_read_args (zeros 512)) no_factor = Some (res, no_factor) \<and>
    read_spec (no_abort demo_read_env) (demo_read_args (zeros 512)) (read_password HKF_MIX_V2 (demo_read_args (zeros 512)) []) (zeros 64) (Some res)"
  using read_header_search [of "demo_read_args (zeros 512)" no_factor "zeros 64" 0 demo_read_env]
  by (simp add: no_factor_response zeros_salt demo_search_env)

text \<open>C7. A header is only accepted with a valid decryption. When reading succeeds, the header was decrypted by an
  algorithm of the table under the key that a PRF that was tried derives from the password, with the response mixed in by one of the two mixes. What
  came out has the magic number, a header version and a required program version that are supported, and a legal sector size; outside
  recovery mode, which turns both check sums off, it has the right check sum of the master keys and, from header version 4 on, of the
  header fields. The structure returned has the sizes, offsets, flags and master keys of that header and is ready to encrypt with them.\<close>

theorem read_only_valid:
  assumes "HKFComputeActiveResponse (Some (slice 0 64 (encryptedHeader args))) (zeros 64) s = ((HKF_OK, resp, rlen), s)"
    "\<forall>version. search_env (no_abort env) (clamp_pim args) (read_password version args (take (nat rlen) resp)) (slice 0 64 (encryptedHeader args))"
    "retInfo_given args" "retHeaderCryptoInfo args = NULL"
    "ReadVolumeHeader env args s = Some ((ERR_SUCCESS, info, rest), s')"
  shows "\<exists>p e mix h ci. info = Some ci \<and> p \<in> set (prf_order env) \<and> tried args p \<and> ea_valid e \<and> mix \<in> {HKF_MIX_V1, HKF_MIX_V2} \<and>
    h = open_header (prims env) (encryptedHeader args)
      (snd (prf_key (no_abort env) (clamp_pim args) (read_password mix args (take (nat rlen) resp)) (slice 0 64 (encryptedHeader args)) p)) e \<and>
    GetHeaderField32 h 64 = TC_HEADER_MAGIC_NUMBER \<and> GetHeaderField16 h 68 \<le> VOLUME_HEADER_VERSION \<and> GetHeaderField16 h 70 \<le> VERSION_NUM \<and>
    (\<not> recoveryMode env \<longrightarrow> GetHeaderField32 h 72 = GetCrc32 (slice 256 256 h)) \<and>
    (\<not> recoveryMode env \<and> 4 \<le> GetHeaderField16 h 68 \<longrightarrow> GetHeaderField32 h 252 = GetCrc32 (slice 64 188 h)) \<and>
    \<not> sector_size_bad (SectorSize ci) \<and> opened_info (prims env) p (pim (clamp_pim args)) e h ci"
proof -
  have t: "tried (clamp_pim args) p = tried args p" for p by (simp add: tried_def)
  obtain mix where m: "mix \<in> {HKF_MIX_V1, HKF_MIX_V2}"
    "read_spec (no_abort env) (clamp_pim args) (read_password mix args (take (nat rlen) resp)) (slice 0 64 (encryptedHeader args))
      (Some (ERR_SUCCESS, info, rest))" (is "read_spec ?env ?args ?pw ?salt _")
    using read_mixes [OF assms(1) assms(2) [rule_format] assms(3,4)] assms(5) by (auto split: if_splits)
  define h where "h p e = open_header (prims env) (encryptedHeader args) (snd (prf_key ?env ?args ?pw ?salt p)) e" for p e
  have "\<exists>p e ci. info = Some ci \<and> p \<in> set (prf_order env) \<and> tried args p \<and> ea_valid e \<and>
      header_valid (recoveryMode env) (h p e) \<and> opened_info (prims env) p (pim ?args) e (h p e) ci"
    using read_spec_success [OF m(2)] by (simp add: t h_def)
  then obtain p e ci where r: "info = Some ci" "p \<in> set (prf_order env)" "tried args p" "ea_valid e"
    "header_valid (recoveryMode env) (h p e)" "opened_info (prims env) p (pim ?args) e (h p e) ci" by blast
  have s: "SectorSize ci = (if GetHeaderField16 (h p e) 68 \<ge> 5 then GetHeaderField32 (h p e) 128 else TC_SECTOR_SIZE_LEGACY)"
    using r(6) by (simp add: opened_info_def)
  note c = r(5) [unfolded header_valid_def this [symmetric]]
  have c: "header_valid (recoveryMode env) (h p e)
      = (GetHeaderField32 (h p e) 64 = TC_HEADER_MAGIC_NUMBER \<and> GetHeaderField16 (h p e) 68 \<le> VOLUME_HEADER_VERSION \<and>
         GetHeaderField16 (h p e) 70 \<le> VERSION_NUM \<and>
         (\<not> recoveryMode env \<longrightarrow> GetHeaderField32 (h p e) 72 = GetCrc32 (slice 256 256 (h p e))) \<and>
         (\<not> recoveryMode env \<and> 4 \<le> GetHeaderField16 (h p e) 68 \<longrightarrow> GetHeaderField32 (h p e) 252 = GetCrc32 (slice 64 188 (h p e))) \<and>
         \<not> sector_size_bad (SectorSize ci))"
    unfolding header_valid_def s [symmetric] using not_less [of "GetHeaderField16 (h p e) 68" 4] by blast
  show ?thesis
    by (rule exI [of _ p], rule exI [of _ e], rule exI [of _ mix], rule exI [of _ "h p e"], rule exI [of _ ci])
       (intro conjI r(1-4,6) m(1) h_def, insert r(5) [unfolded c], blast+)
qed

text \<open>C5. Every header that was created with a password opens with it: reading it with the same password, PIM,
  boot flag and hardware factor, with its PRF selected or all of them tried, succeeds, provided that no earlier pair of a PRF and an
  algorithm decrypts it by accident to something with the magic number. The structure returned has the algorithm, PRF, sizes, offsets, flags, sector size and master keys it was
  created with, and it decrypts the data units that the creator's structure encrypts.\<close>

theorem create_read_roundtrip:
  assumes "CreateVolumeHeaderInMemory env a h s = Some ((ERR_SUCCESS, enc, Some ci), s')"
    "create_inputs_ok env a" "reads_created env a enc renv args"
    "\<forall>c\<in>set (takeWhile (\<lambda>c. c \<noteq> (c_prf a, c_ea a)) (candidates (no_abort renv) (clamp_pim args)
        (mixed_password (password_Text args) (password_Length args) (take 64 enc) s) (take 64 enc) (prf_order renv))).
      candidate_attempt (no_abort renv) (clamp_pim args)
        (mixed_password (password_Text args) (password_Length args) (take 64 enc) s) (take 64 enc) c = Continue"
  shows "\<exists>ci'. ReadVolumeHeader renv args s = Some ((ERR_SUCCESS, Some ci', NULL), s) \<and> s' = s \<and>
    ea ci' = c_ea a \<and> pkcs5 ci' = c_prf a \<and> VolumeSize ci' = c_volumeSize a \<and> hiddenVolumeSize ci' = c_hiddenVolumeSize a \<and>
    EncryptedAreaStart ci' = c_encryptedAreaStart a \<and> EncryptedAreaLength ci' = c_encryptedAreaLength a \<and>
    HeaderFlags ci' = c_headerFlags a \<and> SectorSize ci' = c_sectorSize a \<and> master_keydata ci' = master_keydata ci \<and>
    (\<forall>buf unit n. n * ENCRYPTION_DATA_UNIT_SIZE \<le> length buf \<longrightarrow>
      (\<exists>c. EncryptDataUnitsCurrentThread (ce_prims env) buf unit n ci = Some c \<and>
        DecryptDataUnitsCurrentThread (ce_prims env) c unit n ci' = Some buf))"
proof -
  obtain ci' keydata it mem where r: "ReadVolumeHeader renv args s = Some ((ERR_SUCCESS, Some ci', NULL), s)"
    "opened_info (ce_prims env) (c_prf a) (pim (clamp_pim args)) (c_ea a) (plain_header (take 64 enc) keydata a) ci'" "length keydata = 256"
    "length (take 64 enc) = 64" "created_info a it mem keydata ci" "s' = s"
    "info_ready (ce_prims env) keydata (drop (EAGetKeySize (c_ea a)) keydata) ci"
    by (rule created_header_read [OF assms])
  have P: "primitives_ok (ce_prims env)" using assms(2) by (simp add: create_inputs_ok_def)
  note o = opened_info_created [OF r(2,4,3)]
  show ?thesis
    using r o(1-9) ready_decrypts [OF P r(7) o(10)] by (auto simp: created_info_def)
qed

lemma demo_master_keys: "\<exists>k. create_master_keys demo_create_env demo_create_args = Inr k"
proof -
  have n: "EAGetKeySize 1 = 32" by (simp add: EAGetKeySize_table ea_ciphers_def EA_Ciphers_table)
  let ?k = "store_at 0 (map of_nat [0..<64]) (zeros MASTER_KEYDATA_SIZE) :: bytes"
  have "slice 0 32 ?k ! 0 = 0" "slice 32 32 ?k ! 0 = 32"
    by (simp_all add: slice_def store_at_def MASTER_KEYDATA_SIZE_def zeros_def)
  then have "slice 0 32 ?k \<noteq> slice 32 32 ?k" by auto
  then show ?thesis by (simp add: create_master_keys_def demo_create_env_def demo_create_args_def Let_def n)
qed

lemma demo_created:
  "\<exists>enc ci. CreateVolumeHeaderInMemory demo_create_env demo_create_args [] no_factor = Some ((ERR_SUCCESS, enc, Some ci), no_factor)"
proof -
  let ?e = demo_create_env and ?a = demo_create_args
  let ?u = "store_at 0 [112, 119] (zeros MAX_PASSWORD) :: bytes"
  obtain k where k: "create_master_keys ?e ?a = Inr k" using demo_master_keys by blast
  have lk: "length k = 256" by (rule created_master_keys [OF demo_inputs k])
  have i: "get_pkcs5_iteration_count SHA512 0 False no_overrides = Some (500000, 0)"
    by (simp add: get_pkcs5_iteration_count_def)
  define dk where "dk = snd (demo_kdf SHA512 (take 2 ?u) (zeros 64) 500000 0 192)"
  have d: "create_header_key ?e ?a (take 2 ?u) (zeros 64) 500000 0 = Some (Inr dk)"
    by (simp add: create_header_key_def derive_header_key_def demo_create_env_def demo_create_args_def dk_def demo_kdf_def GetMaxPkcs5OutSize_192)
  have ld: "length dk = 192" by (simp add: dk_def demo_kdf_def)
  have "\<not> sector_size_bad (c_sectorSize ?a)" "ea_valid (c_ea ?a)" "c_mode ?a = XTS" "primitives_ok (ce_prims ?e)"
    by (simp_all add: demo_create_args_def demo_create_env_def demo_ciphers sector_size_bad_def TC_MIN_VOLUME_SECTOR_SIZE_def
        TC_MAX_VOLUME_SECTOR_SIZE_def ENCRYPTION_DATA_UNIT_SIZE_def)
  with write_header_succeeds [of ?e ?a dk "zeros 64" k 500000 0] ld lk
  obtain enc ci where w: "write_header ?e ?a 500000 0 k (zeros 64) dk = Some (ERR_SUCCESS, enc, Some ci)" by auto
  have "CreateVolumeHeaderInMemory ?e ?a [] no_factor = Some ((ERR_SUCCESS, enc, Some ci), no_factor)"
    unfolding CreateVolumeHeaderInMemory_def Let_def k
    using d w i by (simp add: HKFApplyIfConfiguredVer_def no_factor_response PKCS5_SALT_SIZE_def demo_create_env_def demo_create_args_def)
  then show ?thesis by blast
qed

lemma demo_reads: "reads_created demo_create_env demo_create_args enc demo_read_env (demo_read_args enc)"
  by (simp add: reads_created_def demo_create_env_def demo_create_args_def demo_read_env_def demo_read_args_def FIRST_PRF_ID_def LAST_PRF_ID_def)

lemma demo_first:
  "takeWhile (\<lambda>c. c \<noteq> (c_prf demo_create_args, c_ea demo_create_args))
      (candidates (no_abort demo_read_env) (demo_read_args enc) pw salt (prf_order demo_read_env)) = []"
proof -
  let ?f = "filter (\<lambda>p. tried (demo_read_args enc) p \<and> fst (prf_key (no_abort demo_read_env) (demo_read_args enc) pw salt p) = 0)
    (prf_order demo_read_env)"
  have f: "?f = [] \<or> ?f = [1]" by (simp add: tried_def demo_read_args_def demo_read_env_def)
  have u: "[1..15] = 1 # [2..15 :: int]" by (subst upto_rec1) simp_all
  have a: "c_prf demo_create_args = 1" "c_ea demo_create_args = 1" by (simp_all add: demo_create_args_def)
  show ?thesis using f unfolding candidates_def u a by (elim disjE) simp_all
qed

theorem create_read_roundtrip_witness:
  "\<exists>enc ci ci'. CreateVolumeHeaderInMemory demo_create_env demo_create_args [] no_factor = Some ((ERR_SUCCESS, enc, Some ci), no_factor) \<and>
    ReadVolumeHeader demo_read_env (demo_read_args enc) no_factor = Some ((ERR_SUCCESS, Some ci', NULL), no_factor) \<and>
    master_keydata ci' = master_keydata ci \<and> VolumeSize ci' = 1048576"
proof -
  obtain enc ci where c: "CreateVolumeHeaderInMemory demo_create_env demo_create_args [] no_factor = Some ((ERR_SUCCESS, enc, Some ci), no_factor)"
    using demo_created by blast
  have v: "c_volumeSize demo_create_args = 1048576" by (simp add: demo_create_args_def)
  obtain ci' where "ReadVolumeHeader demo_read_env (demo_read_args enc) no_factor = Some ((ERR_SUCCESS, Some ci', NULL), no_factor)"
    "master_keydata ci' = master_keydata ci" "VolumeSize ci' = 1048576"
    using create_read_roundtrip [OF c demo_inputs demo_reads, unfolded demo_read_args_simps demo_first v] by (simp del: One_nat_def) blast
  with c show ?thesis by blast
qed

lemma demo_opens:
  "\<exists>enc ci. length enc = 512 \<and> ReadVolumeHeader demo_read_env (demo_read_args enc) no_factor = Some ((ERR_SUCCESS, Some ci, NULL), no_factor)"
proof -
  obtain enc ci where c: "CreateVolumeHeaderInMemory demo_create_env demo_create_args [] no_factor = Some ((ERR_SUCCESS, enc, Some ci), no_factor)"
    using demo_created by blast
  show ?thesis
    by (rule created_header_read [OF c demo_inputs demo_reads]) (auto simp: demo_first)
qed

theorem read_only_valid_witness:
  "\<exists>enc p e h ci. ReadVolumeHeader demo_read_env (demo_read_args enc) no_factor = Some ((ERR_SUCCESS, Some ci, NULL), no_factor) \<and>
    GetHeaderField32 h 64 = TC_HEADER_MAGIC_NUMBER \<and> GetHeaderField32 h 72 = GetCrc32 (slice 256 256 h) \<and>
    opened_info demo_prims p 0 e h ci"
proof -
  obtain enc ci where c: "length enc = 512"
    "ReadVolumeHeader demo_read_env (demo_read_args enc) no_factor = Some ((ERR_SUCCESS, Some ci, NULL), no_factor)"
    using demo_opens by blast
  have p: "pim (demo_read_args enc) = 0" "recoveryMode demo_read_env = False" "prims demo_read_env = demo_prims"
    by (simp_all add: demo_read_args_def demo_read_env_def)
  show ?thesis
    using read_only_valid [of "demo_read_args enc" no_factor "zeros 64" 0 demo_read_env "Some ci" NULL no_factor] c
    by (simp add: no_factor_response demo_search_env p) blast
qed

text \<open>C40. For every PRF and every PIM the program accepts, with 0 for the default costs, the cost parameters without overrides are
  defined. The iterations are positive and fit the C type \<open>int\<close>. The memory is from 64 MiB to 1 GiB for Argon2, from 1 MiB
  to 64 MiB for Balloon, and zero, that is unused, for the PRFs of PBKDF2. From PIM 1 on neither cost ever falls when the PIM
  grows, and the iterations of PBKDF2 strictly grow. (PIM 0 is left out of the growth: it stands for the
  default of 500000 iterations of PBKDF2, or 200000 for the PRFs of the boot loader, PIM 1 for 16000, or 2048.)\<close>

theorem pim_costs:
  assumes "FIRST_PRF_ID \<le> p" "p \<le> LAST_PRF_ID" "0 \<le> m" "m \<le> n" "n \<le> (if b then MAX_BOOT_PIM_VALUE else MAX_PIM_VALUE)"
  shows "\<exists>it mem it' mem'. get_pkcs5_iteration_count p m b no_overrides = Some (it, mem) \<and>
    get_pkcs5_iteration_count p n b no_overrides = Some (it', mem') \<and>
    0 < it \<and> it < 2 ^ 31 \<and> 0 < it' \<and> it' < 2 ^ 31 \<and> memory_in_range p mem \<and> memory_in_range p mem' \<and>
    (1 \<le> m \<longrightarrow> it \<le> it' \<and> mem \<le> mem') \<and> (1 \<le> m \<and> m < n \<and> p \<noteq> ARGON2 \<and> p \<noteq> BALLOON \<longrightarrow> it < it')"
proof -
  have "\<exists>it mem. get_pkcs5_iteration_count p k b no_overrides = Some (it, mem) \<and> 0 < it \<and> it < 2 ^ 31 \<and> memory_in_range p mem"
    if "0 \<le> k" "k \<le> n" for k
    by (rule prf_range [OF assms(1,2) that(1) order_trans [OF that(2) assms(5)]])
  then obtain it mem it' mem' where c: "get_pkcs5_iteration_count p m b no_overrides = Some (it, mem)"
    "get_pkcs5_iteration_count p n b no_overrides = Some (it', mem')" "0 < it" "it < 2 ^ 31" "memory_in_range p mem"
    "0 < it'" "it' < 2 ^ 31" "memory_in_range p mem'"
    using assms(3,4) by (meson order_refl order_trans)
  moreover have "it \<le> it' \<and> mem \<le> mem' \<and> (m < n \<and> p \<noteq> ARGON2 \<and> p \<noteq> BALLOON \<longrightarrow> it < it')" if "1 \<le> m"
    using prf_growth [OF assms(1,2) that assms(4,5) c(1,2)] .
  ultimately show ?thesis by blast
qed

theorem pim_costs_witness:
  "\<exists>it mem it' mem'. get_pkcs5_iteration_count ARGON2 1 False no_overrides = Some (it, mem) \<and>
    get_pkcs5_iteration_count ARGON2 2147468 False no_overrides = Some (it', mem') \<and>
    0 < it \<and> it \<le> it' \<and> it' < 2 ^ 31 \<and> 65536 \<le> mem \<and> mem \<le> mem' \<and> mem' \<le> 1048576"
  using pim_costs [of ARGON2 1 2147468 False]
  by (auto simp: FIRST_PRF_ID_def LAST_PRF_ID_def MAX_PIM_VALUE_def memory_in_range_def)

section \<open>The thread pool\<close>

text \<open>C8. However the callers and the workers of the pool are interleaved, with any number of each, with items of
  the ring reused and with a worker freeing its item before it reads from it which item counts the fragments: a call of
  \<open>EncryptionThreadPoolDoWork\<close> that has returned finds its buffer as one thread would have left it, that is, every data unit
  processed once and none still to come. Steps of key derivation and header finalisation may lie in between.\<close>

theorem pool_return_correct:
  assumes "primitives_ok P" "0 < ThreadCount" "0 < ThreadQueueSize" "calls_ok args"
    "pool_reach P args ThreadCount (ring_next ThreadQueueSize) (pool_start w data) s" "callers s c = Returned"
    "args c = DoWork type startUnitNo unitCount ci" "info_ready P key key2 ci" "length (data c) = unitCount * ENCRYPTION_DATA_UNIT_SIZE"
  shows "current_thread_units P type (data c) startUnitNo unitCount ci = Some (buffers s c)"
proof -
  obtain u ph where u: "pool_inv P args ThreadCount data ph u" "sim ThreadQueueSize u s"
    using ring_refines [OF assms(2-5)] by blast
  note rest = sim_restD [OF simD(4) [OF u(2)]]
  have "data_units type" using assms(4,7) unfolding calls_ok_def by (metis call.simps(5))
  moreover have "callers u c = Returned" using rest(5) [of c] assms(6) ring_pc_Returned by metis
  ultimately show ?thesis
    using returned_buffer [OF assms(1,2) u(1) _ assms(7) _ assms(8,9)] rest(7) by simp
qed

definition demo_pool_run :: "mover list" where
  "demo_pool_run =
     [Caller 0, Caller 0, Caller 0, Caller 0, Caller 0, Caller 0, Caller 0, Caller 0, Caller 0,
      Worker 0, Worker 0, Worker 1, Worker 1, Worker 1, Worker 1, Worker 0, Worker 0, Worker 0, Worker 1, Worker 1, Caller 0, Caller 0]"

lemma demo_pool:
  assumes "\<And>w b. length b = 1024 \<Longrightarrow> Data w + 512 * UnitCount w \<le> 1024 \<Longrightarrow>
    process_fragment P EncryptDataUnitsWork ci w b = Some (g w b) \<and> length (g w b) = 1024"
    "args = (\<lambda>c. DoWork EncryptDataUnitsWork 9 2 ci)"
  shows "\<exists>s. pool_run P args 2 (ring_next 4) demo_pool_run (pool_start w (\<lambda>c. zeros 1024)) = Some s \<and> callers s 0 = Returned"
    "\<exists>s. pool_run P args 2 (ring_next 4) (take 13 demo_pool_run) (pool_start w (\<lambda>c. zeros 1024)) = Some s \<and> callers s 0 = WaitCompleted 0 \<and>
      threads s 0 = Working 0 \<and> threads s 1 = Working 1"
proof -
  have f: "work_fragments 2 9 2 = [\<lparr>Data = 0, StartUnitNo = 9, UnitCount = 1\<rparr>, \<lparr>Data = 512, StartUnitNo = 10, UnitCount = 1\<rparr>]"
    by (simp add: work_fragments_def fragment_sizes_def ENCRYPTION_DATA_UNIT_SIZE_def eval_nat_numeral)
  note run = demo_pool_run_def call_step_def do_work_step_def thread_step_def finish_step_def ring_next_def step_defs pool_start_def assms(2) f Let_def
  show "\<exists>s. pool_run P args 2 (ring_next 4) demo_pool_run (pool_start w (\<lambda>c. zeros 1024)) = Some s \<and> callers s 0 = Returned"
    using assms(1) by (simp add: run)
  show "\<exists>s. pool_run P args 2 (ring_next 4) (take 13 demo_pool_run) (pool_start w (\<lambda>c. zeros 1024)) = Some s \<and> callers s 0 = WaitCompleted 0 \<and>
      threads s 0 = Working 0 \<and> threads s 1 = Working 1"
    by (simp add: run)
qed

text \<open>The structure the demonstrations use, and an item.\<close>

lemma demo_info:
  obtains ci g where "info_ready demo_prims (zeros 192) (drop (EAGetKeySize 7) (zeros 192)) ci"
    "\<And>w b. length b = 1024 \<Longrightarrow> Data w + 512 * UnitCount w \<le> 1024 \<Longrightarrow>
      process_fragment demo_prims EncryptDataUnitsWork ci w b = Some (g w b) \<and> length (g w b) = 1024"
proof -
  obtain b b' k where r: "info_ready demo_prims (zeros 192) (drop (EAGetKeySize 7) (zeros 192)) (crypto_open\<lparr>ea := 7, mode := XTS, ks := b, k2 := k, ks2 := b'\<rparr>)"
    using init_keys_ok [OF demo_ciphers, of "crypto_open\<lparr>ea := 7, mode := XTS\<rparr>" "zeros 192"] sized_open EAGetKeySize_bounds [of 7]
    by (auto simp: sized_def)
  let ?ci = "crypto_open\<lparr>ea := 7, mode := XTS, ks := b, k2 := k, ks2 := b'\<rparr>"
  let ?g = "unitwise.transform (units_spec demo_prims EncryptDataUnitsWork (ea_ciphers (ea ?ci)) (zeros 192) (drop (EAGetKeySize 7) (zeros 192)))"
  have "process_fragment demo_prims EncryptDataUnitsWork ?ci w b = Some (?g w b) \<and> length (?g w b) = 1024"
    if "length b = 1024" "Data w + 512 * UnitCount w \<le> 1024" for w b
    using process_fragment_transform [OF demo_ciphers r, of w b EncryptDataUnitsWork]
      unitwise.transform_facts(1) [OF unitwise_units [OF demo_ciphers r], of w b] that by simp
  then show thesis using that r by blast
qed

definition demo_item :: "CRYPTO_INFO \<Rightarrow> EncryptionThreadPoolWorkItem" where
  "demo_item ci = \<lparr>State = WorkItemFree, ItemType = DeriveKeyWork, ItemCompletedEvent = False, FirstFragment = 0, OutstandingFragmentCount = 0,
     CryptoInfo = ci, Buffer = 0, Encryption = \<lparr>Data = 0, StartUnitNo = 0, UnitCount = 0\<rparr>\<rparr>"

theorem pool_return_correct_witness:
  "\<exists>ci s. pool_run demo_prims (\<lambda>c. DoWork EncryptDataUnitsWork 9 2 ci) 2 (ring_next 4) demo_pool_run (pool_start (demo_item ci) (\<lambda>c. zeros 1024)) = Some s \<and>
    callers s 0 = Returned \<and> current_thread_units demo_prims EncryptDataUnitsWork (zeros 1024) 9 2 ci = Some (buffers s 0)"
proof -
  obtain ci g where r: "info_ready demo_prims (zeros 192) (drop (EAGetKeySize 7) (zeros 192)) ci"
    and g: "\<And>w b. length b = 1024 \<Longrightarrow> Data w + 512 * UnitCount w \<le> 1024 \<Longrightarrow>
      process_fragment demo_prims EncryptDataUnitsWork ci w b = Some (g w b) \<and> length (g w b) = 1024"
    by (rule demo_info) blast
  obtain s where s: "pool_run demo_prims (\<lambda>c. DoWork EncryptDataUnitsWork 9 2 ci) 2 (ring_next 4) demo_pool_run (pool_start (demo_item ci) (\<lambda>c. zeros 1024)) = Some s"
    "callers s 0 = Returned"
    using demo_pool(1) [OF g refl] by blast
  have "current_thread_units demo_prims EncryptDataUnitsWork (zeros 1024) 9 2 ci = Some (buffers s 0)"
    by (rule pool_return_correct [OF demo_ciphers _ _ _ pool_run_reach [OF pool_reach.reach_start s(1)] s(2) _ r])
      (simp_all add: calls_ok_def ENCRYPTION_DATA_UNIT_SIZE_def)
  with s show ?thesis by blast
qed

text \<open>In every state the pool reaches, no two workers have the same item of the ring.\<close>

theorem pool_one_worker:
  assumes "0 < ThreadCount" "0 < ThreadQueueSize" "calls_ok args"
    "pool_reach P args ThreadCount (ring_next ThreadQueueSize) (pool_start w data) s" "on_item (threads s t) i" "on_item (threads s t') i"
  shows "t = t'"
proof -
  obtain u ph where u: "pool_inv P args ThreadCount data ph u" "sim ThreadQueueSize u s"
    using ring_refines [OF assms(1-4)] by blast
  show ?thesis by (rule ring_one_worker [OF u assms(5,6)])
qed

theorem pool_one_worker_witness:
  "\<exists>ci s. pool_run demo_prims (\<lambda>c. DoWork EncryptDataUnitsWork 9 2 ci) 2 (ring_next 4) (take 13 demo_pool_run) (pool_start (demo_item ci) (\<lambda>c. zeros 1024)) = Some s \<and>
    on_item (threads s 1) 1 \<and> (\<forall>t. on_item (threads s t) 1 \<longrightarrow> t = 1)"
proof -
  obtain ci g where g: "\<And>w b. length b = 1024 \<Longrightarrow> Data w + 512 * UnitCount w \<le> 1024 \<Longrightarrow>
      process_fragment demo_prims EncryptDataUnitsWork ci w b = Some (g w b) \<and> length (g w b) = 1024"
    by (rule demo_info) blast
  obtain s where s: "pool_run demo_prims (\<lambda>c. DoWork EncryptDataUnitsWork 9 2 ci) 2 (ring_next 4) (take 13 demo_pool_run) (pool_start (demo_item ci) (\<lambda>c. zeros 1024)) = Some s"
    "threads s 1 = Working 1"
    using demo_pool(2) [OF g refl] by blast
  have o: "on_item (threads s 1) 1" using s(2) by simp
  have "t = 1" if "on_item (threads s t) 1" for t
    by (rule pool_one_worker [OF _ _ _ pool_run_reach [OF pool_reach.reach_start s(1)] that o]) (simp_all add: calls_ok_def)
  with s o show ?thesis by blast
qed

text \<open>C9. The pool has no deadlock. As long as a call has started and not returned, a worker can go on (one that has an item or
  is waiting for one, or the first one), or a call that has started can, provided that the ring is as long as there are threads; the code makes it twice
  as long. No step of a call that has not started is needed. Header finalisations, whose wait for the derivations of the header is not part of the model, are
  excluded.\<close>

theorem pool_never_stuck:
  assumes "primitives_ok P" "0 < ThreadCount" "ThreadCount \<le> ThreadQueueSize" "calls_ok args" "calls_ready P args data"
    "pool_reach P args ThreadCount (ring_next ThreadQueueSize) (pool_start w data) s" "callers s c \<noteq> Outside" "callers s c \<noteq> Returned"
    "\<forall>c. args c \<noteq> BeginWork ReadVolumeHeaderFinalizationWork"
  shows "(\<exists>c. callers s c \<noteq> Outside \<and> call_step P args ThreadCount (ring_next ThreadQueueSize) c s \<noteq> None) \<or>
    (\<exists>t. (t = 0 \<or> threads s t \<noteq> Waiting) \<and> thread_step P (ring_next ThreadQueueSize) t s \<noteq> None)"
proof -
  have Q: "0 < ThreadQueueSize" using assms(2,3) by simp
  obtain u ph where u: "pool_inv P args ThreadCount data ph u" "sim ThreadQueueSize u s"
    using ring_refines [OF assms(2) Q assms(4,6)] by blast
  show ?thesis by (rule pool_not_stuck [OF assms(1-5) u assms(7,8)])
qed

theorem pool_never_stuck_witness:
  "\<exists>ci s. pool_run demo_prims (\<lambda>c. DoWork EncryptDataUnitsWork 9 2 ci) 2 (ring_next 4) (take 13 demo_pool_run) (pool_start (demo_item ci) (\<lambda>c. zeros 1024)) = Some s \<and>
    ((\<exists>c. callers s c \<noteq> Outside \<and> call_step demo_prims (\<lambda>c. DoWork EncryptDataUnitsWork 9 2 ci) 2 (ring_next 4) c s \<noteq> None) \<or>
     (\<exists>t. (t = 0 \<or> threads s t \<noteq> Waiting) \<and> thread_step demo_prims (ring_next 4) t s \<noteq> None))"
proof -
  obtain ci g where r: "info_ready demo_prims (zeros 192) (drop (EAGetKeySize 7) (zeros 192)) ci"
    and g: "\<And>w b. length b = 1024 \<Longrightarrow> Data w + 512 * UnitCount w \<le> 1024 \<Longrightarrow>
      process_fragment demo_prims EncryptDataUnitsWork ci w b = Some (g w b) \<and> length (g w b) = 1024"
    by (rule demo_info) blast
  obtain s where s: "pool_run demo_prims (\<lambda>c. DoWork EncryptDataUnitsWork 9 2 ci) 2 (ring_next 4) (take 13 demo_pool_run) (pool_start (demo_item ci) (\<lambda>c. zeros 1024)) = Some s"
    "callers s 0 = WaitCompleted 0"
    using demo_pool(2) [OF g refl] by blast
  have "calls_ready demo_prims (\<lambda>c. DoWork EncryptDataUnitsWork 9 2 ci) (\<lambda>c. zeros 1024)"
    using r by (auto simp: calls_ready_def ENCRYPTION_DATA_UNIT_SIZE_def)
  then have "(\<exists>c. callers s c \<noteq> Outside \<and> call_step demo_prims (\<lambda>c. DoWork EncryptDataUnitsWork 9 2 ci) 2 (ring_next 4) c s \<noteq> None) \<or>
     (\<exists>t. (t = 0 \<or> threads s t \<noteq> Waiting) \<and> thread_step demo_prims (ring_next 4) t s \<noteq> None)"
    by (intro pool_never_stuck [OF demo_ciphers _ _ _ _ pool_run_reach [OF pool_reach.reach_start s(1)], of 0])
      (simp_all add: calls_ok_def s(2))
  with s(1) show ?thesis by blast
qed

end
